(* ===== verification/FineDB_Prelude.thy ===== *)
theory FineDB_Prelude
  imports Main "HOL-Library.Word" "HOL-Library.Monad_Syntax"
begin

text \<open>
  Shared vocabulary of the development: the names of the C integer types, bytes and byte
  strings, network byte order, bounded accesses to an allocated block, and the lemmas about
  them that the component theories use through the simplifier and the collections
  \<open>mem_simps\<close> and \<open>wire_simps\<close>.

  Undefined behaviour of the C code (a read or a write outside an allocated block, a use of
  a null pointer) is the value \<^term>\<open>None\<close> of an option type. The operations that can run
  into it are written with the \<open>do\<close> syntax of \<^theory_text>\<open>Monad_Syntax\<close>.
\<close>

unbundle bit_operations_syntax

named_theorems mem_simps \<open>accesses to allocated blocks\<close>
named_theorems wire_simps \<open>network byte order\<close>

type_synonym byte = "8 word"
type_synonym bytes = "byte list"
type_synonym u16 = "16 word"
type_synonym u32 = "32 word"
type_synonym u64 = "64 word"
type_synonym size_t = "64 word"

section \<open>Blocks of memory\<close>

text \<open>
  An allocated block is the list of its cells. \<^verbatim>\<open>YMALLOC\<close> is \<^verbatim>\<open>calloc(1, s)\<close>: a new block
  holds zeroes. A read or a write that leaves the block is \<^term>\<open>None\<close>.
\<close>

definition YMALLOC :: "nat \<Rightarrow> bytes" where
  "YMALLOC s = replicate s 0"

definition mem_read :: "'a list \<Rightarrow> nat \<Rightarrow> nat \<Rightarrow> 'a list option" where
  "mem_read m off n = (if off + n \<le> length m then Some (take n (drop off m)) else None)"

definition mem_write :: "'a list \<Rightarrow> nat \<Rightarrow> 'a list \<Rightarrow> 'a list option" where
  "mem_write m off bs =
     (if off + length bs \<le> length m
      then Some (take off m @ bs @ drop (off + length bs) m) else None)"

lemma length_YMALLOC [simp]: "length (YMALLOC s) = s"
  by (simp add: YMALLOC_def)

lemma mem_read_Some [mem_simps]:
  "off + n \<le> length m \<Longrightarrow> mem_read m off n = Some (take n (drop off m))"
  by (simp add: mem_read_def)

lemma mem_read_eq_Some_iff:
  "mem_read m off n = Some bs \<longleftrightarrow> off + n \<le> length m \<and> bs = take n (drop off m)"
  by (auto simp: mem_read_def)

lemma mem_read_length: "mem_read m off n = Some bs \<Longrightarrow> length bs = n"
  by (auto simp: mem_read_def split: if_splits)

lemma mem_write_Some [mem_simps]:
  "off + length bs \<le> length m \<Longrightarrow>
     mem_write m off bs = Some (take off m @ bs @ drop (off + length bs) m)"
  by (simp add: mem_write_def)

lemma mem_write_None [mem_simps]:
  "length m < off + length bs \<Longrightarrow> mem_write m off bs = None"
  by (simp add: mem_write_def)

lemma mem_write_eq_None_iff: "mem_write m off bs = None \<longleftrightarrow> length m < off + length bs"
  by (auto simp: mem_write_def)

lemma mem_write_length: "mem_write m off bs = Some m' \<Longrightarrow> length m' = length m"
  by (auto simp: mem_write_def split: if_splits)

lemma mem_write_prefix:
  "mem_write m off bs = Some m' \<Longrightarrow> take (off + length bs) m' = take off m @ bs"
  by (auto simp: mem_write_def split: if_splits)

lemma mem_write_nth:
  assumes "mem_write m off bs = Some m'" and "i < length m"
  shows "m' ! i = (if off \<le> i \<and> i < off + length bs then bs ! (i - off) else m ! i)"
  using assms by (auto simp: mem_write_def nth_append min_def split: if_splits)

section \<open>C strings\<close>

text \<open>What a function that takes a \<^verbatim>\<open>char*\<close> sees of a buffer: the bytes before the first NUL.\<close>

definition cstr :: "bytes \<Rightarrow> bytes" where
  "cstr bs = takeWhile (\<lambda>b. b \<noteq> 0) bs"

lemma cstr_id [simp]: "0 \<notin> set bs \<Longrightarrow> cstr bs = bs"
  by (simp add: cstr_def takeWhile_eq_all_conv) metis

lemma zero_notin_cstr [simp]: "0 \<notin> set (cstr bs)"
  by (auto simp: cstr_def dest: set_takeWhileD)

lemma cstr_idem [simp]: "cstr (cstr bs) = cstr bs"
  by simp

lemma length_cstr_le: "length (cstr bs) \<le> length bs"
  by (simp add: cstr_def length_takeWhile_le)

text \<open>\<^verbatim>\<open>atoi\<close>; a number that is no \<^verbatim>\<open>int\<close> is undefined.\<close>

fun digits :: "bytes \<Rightarrow> int \<Rightarrow> int" where
  "digits [] n = n"
| "digits (c # cs) n = (if 48 \<le> c \<and> c \<le> 57 then digits cs (10 * n + (uint c - 48)) else n)"

definition is_space :: "byte \<Rightarrow> bool" where
  "is_space c \<longleftrightarrow> c = 32 \<or> 9 \<le> c \<and> c \<le> 13"

definition atoi :: "bytes \<Rightarrow> int option" where
  "atoi s =
     (let t = dropWhile is_space s;
          n = (case t of
                 [] \<Rightarrow> 0
               | c # cs \<Rightarrow> if c = 45 then - digits cs 0 else if c = 43 then digits cs 0 else digits t 0) in
      if - (2 ^ 31) \<le> n \<and> n < 2 ^ 31 then Some n else None)"

section \<open>Sizes as numbers\<close>

lemma unat_le_iff: "(a :: size_t) \<le> b \<longleftrightarrow> unat a \<le> unat b"
  by (simp add: word_le_nat_alt)

lemma unat_less_iff: "(a :: size_t) < b \<longleftrightarrow> unat a < unat b"
  by (simp add: word_less_nat_alt)

lemma unat_add_bound: "unat (a :: size_t) + unat b < 2 ^ 64 \<Longrightarrow> unat (a + b) = unat a + unat b"
  by (simp add: unat_word_ariths)

lemma unat_sub_bound: "(b :: size_t) \<le> a \<Longrightarrow> unat (a - b) = unat a - unat b"
  by (simp add: unat_sub)

lemma unat_ucast_u32: "unat (ucast (x :: u32) :: size_t) = unat x"
proof -
  have "unat x < 2 ^ LENGTH(32)" by (rule unsigned_less)
  then have "unat x < 2 ^ LENGTH(64)" by simp
  then have "take_bit LENGTH(64) (unat x) = unat x" by (rule take_bit_nat_eq_self)
  then show ?thesis by (simp only: unsigned_ucast_eq)
qed

lemmas size_t_simps = unat_le_iff unat_less_iff unat_add_bound unat_sub_bound

section \<open>Network byte order\<close>

text \<open>
  The bytes in memory of a \<^verbatim>\<open>uint16_t\<close> that went through \<^verbatim>\<open>htons\<close>, of a \<^verbatim>\<open>uint32_t\<close> that
  went through \<^verbatim>\<open>htonl\<close>, and what \<^verbatim>\<open>ntohs\<close> and \<^verbatim>\<open>ntohl\<close> read back from such bytes.
\<close>

definition htons :: "u16 \<Rightarrow> bytes" where
  "htons w = [ucast (drop_bit 8 w), ucast w]"

definition ntohs :: "bytes \<Rightarrow> u16" where
  "ntohs bs = push_bit 8 (ucast (bs ! 0)) OR ucast (bs ! 1)"

definition htonl :: "u32 \<Rightarrow> bytes" where
  "htonl w = [ucast (drop_bit 24 w), ucast (drop_bit 16 w), ucast (drop_bit 8 w), ucast w]"

definition ntohl :: "bytes \<Rightarrow> u32" where
  "ntohl bs = push_bit 24 (ucast (bs ! 0)) OR push_bit 16 (ucast (bs ! 1))
                OR push_bit 8 (ucast (bs ! 2)) OR ucast (bs ! 3)"

lemma length_htons [simp]: "length (htons w) = 2"
  by (simp add: htons_def)

lemma length_htonl [simp]: "length (htonl w) = 4"
  by (simp add: htonl_def)

lemma ntohs_htons [simp, wire_simps]: "ntohs (htons w) = w"
  by (rule bit_word_eqI) (auto simp: ntohs_def htons_def bit_simps)

lemma ntohl_htonl [simp, wire_simps]: "ntohl (htonl w) = w"
proof (rule bit_word_eqI)
  fix n assume "n < LENGTH(32)"
  then consider "n < 8" | "8 \<le> n" "n < 16" | "16 \<le> n" "n < 24" | "24 \<le> n" "n < 32"
    by fastforce
  then show "bit (ntohl (htonl w)) n \<longleftrightarrow> bit w n"
    by cases (auto simp: ntohl_def htonl_def bit_simps)
qed

end
