(* ===== verification/Ydynabin.thy ===== *)
theory Ydynabin
  imports FineDB_Prelude
begin

text \<open>
  The error codes of \<^verbatim>\<open>lib/ylib/yerror.h\<close> that the program uses, and the dynamic byte buffer
  of \<^verbatim>\<open>lib/ylib/ydynabin.c\<close>: the structure, its four operations, the invariant that ties its
  three counters to the allocated block, and the refinement of the buffer to the sequence of
  its unread bytes. The locale \<open>byte_buffer\<close> is what the readers of sockets rely on.
\<close>

section \<open>Error codes\<close>

datatype yerr_t =
    YENOERR | YEUNDEF | YEIO | YEBADF | YEAGAIN | YENOMEM | YEACCESS | YENODATA | YECONNRESET

fun yerr_code :: "yerr_t \<Rightarrow> int" where
  "yerr_code YENOERR = 1"
| "yerr_code YEUNDEF = 0"
| "yerr_code YEIO = -5"
| "yerr_code YEBADF = -9"
| "yerr_code YEAGAIN = -11"
| "yerr_code YENOMEM = -12"
| "yerr_code YEACCESS = -13"
| "yerr_code YENODATA = -61"
| "yerr_code YECONNRESET = -104"

section \<open>The structure and its sizes\<close>

text \<open>
  \<^verbatim>\<open>data\<close> points \<open>dyn_offset\<close> bytes into the allocated block \<open>dyn_mem\<close>; the null pointer is
  the empty block with offset 0.
\<close>

record ydynabin_t =
  dyn_mem :: bytes
  dyn_len :: size_t
  dyn_offset :: size_t
  dyn_free :: size_t

definition MB :: size_t where
  "MB = 1048576"

definition YDYNABIN_RNDSZ :: "size_t \<Rightarrow> size_t" where
  "YDYNABIN_RNDSZ s = s + (s mod 8192)"

definition YDYNABIN_SIZE :: "size_t \<Rightarrow> size_t" where
  "YDYNABIN_SIZE s = (if s = 0 then 0 else if s < 100 * MB then s * 2 else s + 100 * MB)"

definition ydynabin_zero :: ydynabin_t where
  "ydynabin_zero = \<lparr>dyn_mem = [], dyn_len = 0, dyn_offset = 0, dyn_free = 0\<rparr>"

section \<open>The operations\<close>

text \<open>
  The first two arguments say whether the two allocations succeed. The outer option is
  undefined behaviour, the inner one the null pointer. Without a copy the container takes
  over the block it is given.
\<close>

definition ydynabin_new ::
    "bool \<Rightarrow> bool \<Rightarrow> bytes option \<Rightarrow> size_t \<Rightarrow> bool \<Rightarrow> ydynabin_t option option" where
  "ydynabin_new ok1 ok2 data len must_copy =
     (if \<not> ok1 then Some None
      else case data of
        None \<Rightarrow> Some (Some ydynabin_zero)
      | Some d \<Rightarrow>
          if len = 0 then Some (Some ydynabin_zero)
          else if must_copy then
            (let sz = YDYNABIN_RNDSZ (YDYNABIN_SIZE len) in
             if \<not> ok2 then None
             else do {
               src \<leftarrow> mem_read d 0 (unat len);
               m \<leftarrow> mem_write (YMALLOC (unat sz)) 0 src;
               Some (Some \<lparr>dyn_mem = m, dyn_len = len, dyn_offset = 0, dyn_free = sz - len\<rparr>)
             })
          else Some (Some (ydynabin_zero\<lparr>dyn_mem := d, dyn_len := len\<rparr>)))"

text \<open>
  The larger buffer of \<^verbatim>\<open>ydynabin_expand\<close>. Its size is computed from the length of the new
  data alone: the assignment of \<^verbatim>\<open>container->len + len\<close> to \<^verbatim>\<open>sz\<close> is overwritten by the next one.
\<close>

definition dyn_new_size :: "size_t \<Rightarrow> size_t" where
  "dyn_new_size len = YDYNABIN_RNDSZ (YDYNABIN_SIZE len)"

definition dyn_grow :: "ydynabin_t \<Rightarrow> size_t \<Rightarrow> ydynabin_t option" where
  "dyn_grow c len =
     (let sz = dyn_new_size len in do {
        ptr \<leftarrow> (if dyn_len c \<noteq> 0
                then do {
                  old \<leftarrow> mem_read (dyn_mem c) (unat (dyn_offset c)) (unat (dyn_len c));
                  mem_write (YMALLOC (unat sz)) 0 old }
                else Some (YMALLOC (unat sz)));
        Some (c\<lparr>dyn_mem := ptr, dyn_free := sz - dyn_len c, dyn_offset := 0\<rparr>) })"

definition dyn_copy_in :: "ydynabin_t \<Rightarrow> bytes \<Rightarrow> size_t \<Rightarrow> ydynabin_t option" where
  "dyn_copy_in c d len = do {
     src \<leftarrow> mem_read d 0 (unat len);
     m \<leftarrow> mem_write (dyn_mem c) (unat (dyn_offset c) + unat (dyn_len c)) src;
     Some (c\<lparr>dyn_mem := m, dyn_len := dyn_len c + len, dyn_free := dyn_free c - len\<rparr>) }"

definition ydynabin_expand ::
    "bool \<Rightarrow> ydynabin_t \<Rightarrow> bytes option \<Rightarrow> size_t \<Rightarrow> (yerr_t \<times> ydynabin_t) option" where
  "ydynabin_expand ok container data len =
     (case data of
        None \<Rightarrow> Some (YENOERR, container)
      | Some d \<Rightarrow>
          if len = 0 then Some (YENOERR, container)
          else if dyn_free container < len then
            (if \<not> ok then Some (YENOMEM, container)
             else do {
               c \<leftarrow> dyn_grow container len;
               c' \<leftarrow> dyn_copy_in c d len;
               Some (YENOERR, c') })
          else do {
            c' \<leftarrow> dyn_copy_in container d len;
            Some (YENOERR, c') })"

text \<open>The result is the old data pointer, as a position in the block, or the null pointer.\<close>

definition ydynabin_forward :: "ydynabin_t \<Rightarrow> size_t \<Rightarrow> nat option \<times> ydynabin_t" where
  "ydynabin_forward container forward =
     (if dyn_len container < forward then (None, container)
      else (Some (unat (dyn_offset container)),
            container\<lparr>dyn_len := dyn_len container - forward,
                      dyn_offset := dyn_offset container + forward\<rparr>))"

section \<open>The invariant and the abstraction\<close>

definition dyn_inv :: "ydynabin_t \<Rightarrow> bool" where
  "dyn_inv c \<longleftrightarrow>
     unat (dyn_offset c) + unat (dyn_len c) + unat (dyn_free c) = length (dyn_mem c) \<and>
     length (dyn_mem c) < 2 ^ 64"

definition dyn_content :: "ydynabin_t \<Rightarrow> bytes" where
  "dyn_content c = take (unat (dyn_len c)) (drop (unat (dyn_offset c)) (dyn_mem c))"

text \<open>There is room for \<open>len\<close> more bytes, in the current block or in the one that replaces it.\<close>

definition dyn_room :: "ydynabin_t \<Rightarrow> size_t \<Rightarrow> bool" where
  "dyn_room c len \<longleftrightarrow>
     len \<le> dyn_free c \<or> unat (dyn_len c) + unat len \<le> unat (dyn_new_size len)"

text \<open>Reading \<open>n\<close> bytes at a position the buffer handed out; the null pointer is undefined.\<close>

definition dyn_deref :: "ydynabin_t \<Rightarrow> nat option \<Rightarrow> nat \<Rightarrow> bytes option" where
  "dyn_deref c p n = (case p of None \<Rightarrow> None | Some i \<Rightarrow> mem_read (dyn_mem c) i n)"

lemma dyn_zero [simp]: "dyn_inv ydynabin_zero" "dyn_content ydynabin_zero = []"
  by (simp_all add: dyn_inv_def dyn_content_def ydynabin_zero_def)

lemma length_dyn_content: "dyn_inv c \<Longrightarrow> length (dyn_content c) = unat (dyn_len c)"
  by (auto simp: dyn_inv_def dyn_content_def)

section \<open>Correctness of the operations\<close>

lemma dyn_copy_in_ok:
  assumes inv: "dyn_inv c" and free: "len \<le> dyn_free c" and d: "unat len \<le> length d"
  shows "\<exists>c'. dyn_copy_in c d len = Some c' \<and> dyn_inv c' \<and>
     dyn_content c' = dyn_content c @ take (unat len) d \<and>
     dyn_offset c' = dyn_offset c \<and> length (dyn_mem c') = length (dyn_mem c)"
proof -
  let ?pos = "unat (dyn_offset c) + unat (dyn_len c)"
  let ?m = "take ?pos (dyn_mem c) @ take (unat len) d @ drop (?pos + unat len) (dyn_mem c)"
  let ?c = "c\<lparr>dyn_mem := ?m, dyn_len := dyn_len c + len, dyn_free := dyn_free c - len\<rparr>"
  from inv have sum: "?pos + unat (dyn_free c) = length (dyn_mem c)"
    and small: "length (dyn_mem c) < 2 ^ 64"
    by (simp_all add: dyn_inv_def)
  from free have f: "unat len \<le> unat (dyn_free c)" by (simp add: unat_le_iff)
  have len: "unat (dyn_len c + len) = unat (dyn_len c) + unat len"
    using sum small f by (intro unat_add_bound) linarith
  have fr: "unat (dyn_free c - len) = unat (dyn_free c) - unat len"
    using free by (rule unat_sub_bound)
  have "dyn_copy_in c d len = Some ?c"
    using sum f d by (simp add: dyn_copy_in_def mem_simps min_absorb2)
  moreover have "dyn_inv ?c"
    using sum small f d by (simp add: dyn_inv_def len fr)
  moreover have "dyn_content ?c = dyn_content c @ take (unat len) d"
    using sum f d by (auto simp: dyn_content_def len min_def drop_take)
  ultimately show ?thesis
    using sum f d by (intro exI [of _ ?c]) simp
qed

lemma dyn_copy_in_None_iff:
  assumes "dyn_inv c" and "unat len \<le> length d"
  shows "dyn_copy_in c d len = None \<longleftrightarrow> dyn_free c < len"
  using assms
  by (auto simp: dyn_copy_in_def mem_simps mem_write_eq_None_iff dyn_inv_def unat_less_iff min_absorb2
           bind_eq_None_conv)

lemma dyn_grow_ok:
  assumes inv: "dyn_inv c" and fits: "unat (dyn_len c) \<le> unat (dyn_new_size len)"
  shows "\<exists>c'. dyn_grow c len = Some c' \<and> dyn_inv c' \<and> dyn_content c' = dyn_content c \<and>
     dyn_len c' = dyn_len c \<and> dyn_free c' = dyn_new_size len - dyn_len c"
proof -
  let ?sz = "dyn_new_size len"
  let ?m = "dyn_content c @ drop (unat (dyn_len c)) (YMALLOC (unat ?sz))"
  let ?c = "c\<lparr>dyn_mem := ?m, dyn_free := ?sz - dyn_len c, dyn_offset := 0\<rparr>"
  from inv have lc: "length (dyn_content c) = unat (dyn_len c)" by (rule length_dyn_content)
  have sub: "unat (?sz - dyn_len c) = unat ?sz - unat (dyn_len c)"
    using fits by (intro unat_sub_bound) (simp add: unat_le_iff)
  have rd: "mem_read (dyn_mem c) (unat (dyn_offset c)) (unat (dyn_len c)) = Some (dyn_content c)"
    using inv by (simp add: mem_simps dyn_inv_def dyn_content_def)
  have wr: "mem_write (YMALLOC (unat ?sz)) 0 (dyn_content c) = Some ?m"
    using fits lc by (simp add: mem_simps)
  have "dyn_grow c len = Some ?c"
    using rd wr lc by (auto simp: dyn_grow_def Let_def)
  moreover have "dyn_inv ?c"
    using fits lc sub unsigned_less [of ?sz] by (simp add: dyn_inv_def)
  moreover have "dyn_content ?c = dyn_content c"
    using lc by (simp add: dyn_content_def [of ?c])
  ultimately show ?thesis by (intro exI [of _ ?c]) simp
qed

lemma dyn_grow_None_iff:
  assumes "dyn_inv c"
  shows "dyn_grow c len = None \<longleftrightarrow> unat (dyn_new_size len) < unat (dyn_len c)"
proof
  assume "dyn_grow c len = None"
  then show "unat (dyn_new_size len) < unat (dyn_len c)"
    using dyn_grow_ok [OF assms, of len]
    by (cases "unat (dyn_len c) \<le> unat (dyn_new_size len)") auto
next
  assume lt: "unat (dyn_new_size len) < unat (dyn_len c)"
  have rd: "mem_read (dyn_mem c) (unat (dyn_offset c)) (unat (dyn_len c)) = Some (dyn_content c)"
    using assms by (simp add: mem_simps dyn_inv_def dyn_content_def)
  from lt have "dyn_len c \<noteq> 0" by auto
  with lt rd show "dyn_grow c len = None"
    by (simp add: dyn_grow_def Let_def mem_simps length_dyn_content [OF assms])
qed

lemma ydynabin_expand_ok:
  assumes inv: "dyn_inv c" and room: "dyn_room c len" and d: "unat len \<le> length d"
  shows "\<exists>c'. ydynabin_expand True c (Some d) len = Some (YENOERR, c') \<and> dyn_inv c' \<and>
     dyn_content c' = dyn_content c @ take (unat len) d"
proof (cases "len = 0 \<or> len \<le> dyn_free c")
  case True
  then show ?thesis
    using dyn_copy_in_ok [OF inv _ d] inv
    by (cases "len = 0") (auto simp: ydynabin_expand_def dest: leD)
next
  case False
  with room have fits: "unat (dyn_len c) + unat len \<le> unat (dyn_new_size len)"
    by (simp add: dyn_room_def)
  then obtain g where g: "dyn_grow c len = Some g" "dyn_inv g" "dyn_content g = dyn_content c"
    "dyn_len g = dyn_len c" "dyn_free g = dyn_new_size len - dyn_len c"
    using dyn_grow_ok [OF inv, of len] by auto
  have "len \<le> dyn_free g"
    using fits by (simp add: g(5) unat_le_iff unat_sub)
  from dyn_copy_in_ok [OF g(2) this d] False g show ?thesis
    by (auto simp: ydynabin_expand_def)
qed

lemma ydynabin_expand_None_iff:
  assumes inv: "dyn_inv c" and d: "unat len \<le> length d"
  shows "ydynabin_expand True c (Some d) len = None \<longleftrightarrow> \<not> dyn_room c len"
proof
  assume "ydynabin_expand True c (Some d) len = None"
  then show "\<not> dyn_room c len" using ydynabin_expand_ok [OF inv _ d] by auto
next
  assume nr: "\<not> dyn_room c len"
  then have lt: "dyn_free c < len" and big: "unat (dyn_new_size len) < unat (dyn_len c) + unat len"
    by (auto simp: dyn_room_def)
  have "ydynabin_expand True c (Some d) len = None" if "dyn_grow c len = Some g" for g
  proof -
    from that have le: "unat (dyn_len c) \<le> unat (dyn_new_size len)"
      using dyn_grow_None_iff [OF inv, of len] by (simp add: not_less)
    with that obtain "dyn_inv g" and "dyn_free g = dyn_new_size len - dyn_len c"
      using dyn_grow_ok [OF inv le] by auto
    moreover from this big le have "dyn_free g < len"
      by (simp add: unat_less_iff unat_sub unat_le_iff)
    ultimately have "dyn_copy_in g d len = None" using dyn_copy_in_None_iff d by blast
    with that lt show ?thesis by (auto simp: ydynabin_expand_def)
  qed
  with lt show "ydynabin_expand True c (Some d) len = None"
    by (cases "dyn_grow c len") (auto simp: ydynabin_expand_def)
qed

lemma ydynabin_forward_ok:
  assumes inv: "dyn_inv c" and n: "unat n \<le> length (dyn_content c)"
  shows "\<exists>p c'. ydynabin_forward c n = (Some p, c') \<and> dyn_inv c' \<and> dyn_mem c' = dyn_mem c \<and>
     dyn_content c' = drop (unat n) (dyn_content c) \<and>
     dyn_deref c' (Some p) (unat n) = Some (take (unat n) (dyn_content c))"
proof -
  let ?c = "c\<lparr>dyn_len := dyn_len c - n, dyn_offset := dyn_offset c + n\<rparr>"
  from n inv have le: "unat n \<le> unat (dyn_len c)" by (simp add: length_dyn_content)
  from inv have sum: "unat (dyn_offset c) + unat (dyn_len c) + unat (dyn_free c) = length (dyn_mem c)"
    and small: "length (dyn_mem c) < 2 ^ 64"
    by (simp_all add: dyn_inv_def)
  have l: "unat (dyn_len c - n) = unat (dyn_len c) - unat n"
    using le by (simp add: unat_sub unat_le_iff)
  have o: "unat (dyn_offset c + n) = unat (dyn_offset c) + unat n"
    using sum small le by (intro unat_add_bound) linarith
  have "ydynabin_forward c n = (Some (unat (dyn_offset c)), ?c)"
    using le by (simp add: ydynabin_forward_def unat_less_iff)
  moreover have "dyn_inv ?c" using sum small le by (simp add: dyn_inv_def l o)
  moreover have "dyn_content ?c = drop (unat n) (dyn_content c)"
    by (simp add: dyn_content_def l o [unfolded add.commute [of "dyn_offset c"]] drop_take add.commute)
  moreover have "dyn_deref ?c (Some (unat (dyn_offset c))) (unat n) = Some (take (unat n) (dyn_content c))"
    using sum le by (simp add: dyn_deref_def mem_simps dyn_content_def min_def)
  ultimately show ?thesis by (intro exI [of _ "unat (dyn_offset c)"] exI [of _ ?c]) simp
qed

lemma ydynabin_forward_short:
  "length (dyn_content c) < unat n \<Longrightarrow> dyn_inv c \<Longrightarrow> ydynabin_forward c n = (None, c)"
  by (simp add: ydynabin_forward_def length_dyn_content unat_less_iff)

section \<open>The buffer as a queue of bytes\<close>

text \<open>
  What a reader relies on: the container holds a sequence of unread bytes, expanding it
  appends to the sequence when there is room, and moving the data pointer forward takes
  bytes from its front, which are then read at the pointer it returns.
\<close>

locale byte_buffer =
  fixes inv :: "'b \<Rightarrow> bool"
    and content :: "'b \<Rightarrow> bytes"
    and len :: "'b \<Rightarrow> size_t"
    and room :: "'b \<Rightarrow> size_t \<Rightarrow> bool"
    and expand :: "'b \<Rightarrow> bytes \<Rightarrow> size_t \<Rightarrow> (yerr_t \<times> 'b) option"
    and forward :: "'b \<Rightarrow> size_t \<Rightarrow> nat option \<times> 'b"
    and deref :: "'b \<Rightarrow> nat option \<Rightarrow> nat \<Rightarrow> bytes option"
  assumes len_content: "inv c \<Longrightarrow> unat (len c) = length (content c)"
    and expand_ok: "inv c \<Longrightarrow> room c n \<Longrightarrow> unat n \<le> length d \<Longrightarrow>
      \<exists>c'. expand c d n = Some (YENOERR, c') \<and> inv c' \<and> content c' = content c @ take (unat n) d"
    and forward_ok: "inv c \<Longrightarrow> unat n \<le> length (content c) \<Longrightarrow>
      \<exists>p c'. forward c n = (p, c') \<and> inv c' \<and> content c' = drop (unat n) (content c) \<and>
        deref c' p (unat n) = Some (take (unat n) (content c))"
begin

text \<open>Taking a field off the front of the buffer, the way every request is parsed.\<close>

lemma fetch_prefix:
  assumes "inv c" and "content c = f @ rest" and "length f = unat n"
  shows "\<exists>p c'. forward c n = (p, c') \<and> inv c' \<and> content c' = rest \<and> deref c' p (unat n) = Some f"
  using forward_ok [of c n] assms by auto

lemma expand_fetch:
  assumes "inv c" and "room c n" and "unat n \<le> length d" and "content c = f" and "length f = unat k"
  shows "\<exists>c1 p c2. expand c d n = Some (YENOERR, c1) \<and> forward c1 k = (p, c2) \<and>
     inv c2 \<and> deref c2 p (unat k) = Some f \<and> content c2 = take (unat n) d"
proof -
  from expand_ok [OF assms(1-3)] obtain c1 where
    c1: "expand c d n = Some (YENOERR, c1)" "inv c1" "content c1 = f @ take (unat n) d"
    using assms(4) by auto
  from fetch_prefix [OF c1(2,3) assms(5)] c1(1) show ?thesis by blast
qed

end

interpretation dyn: byte_buffer dyn_inv dyn_content dyn_len dyn_room
  "\<lambda>c d n. ydynabin_expand True c (Some d) n" ydynabin_forward dyn_deref
proof unfold_locales
  show "unat (dyn_len c) = length (dyn_content c)" if "dyn_inv c" for c
    using that by (simp add: length_dyn_content)
  show "\<exists>c'. ydynabin_expand True c (Some d) n = Some (YENOERR, c') \<and> dyn_inv c' \<and>
      dyn_content c' = dyn_content c @ take (unat n) d"
    if "dyn_inv c" "dyn_room c n" "unat n \<le> length d" for c n d
    using that by (rule ydynabin_expand_ok)
  show "\<exists>p c'. ydynabin_forward c n = (p, c') \<and> dyn_inv c' \<and>
      dyn_content c' = drop (unat n) (dyn_content c) \<and>
      dyn_deref c' p (unat n) = Some (take (unat n) (dyn_content c))"
    if "dyn_inv c" "unat n \<le> length (dyn_content c)" for c n
    using ydynabin_forward_ok [OF that] by blast
qed

section \<open>Properties\<close>

text \<open>
  Expanding a well-formed buffer that has room for the data succeeds, keeps the buffer
  well formed, and appends exactly the given bytes after the bytes that were not read yet.
\<close>

theorem ydynabin_expand_appends:
  assumes "dyn_inv c" and "dyn_room c len" and "unat len \<le> length d"
  shows "\<exists>c'. ydynabin_expand True c (Some d) len = Some (YENOERR, c') \<and> dyn_inv c' \<and>
     dyn_content c' = dyn_content c @ take (unat len) d"
  using assms by (rule ydynabin_expand_ok)

theorem ydynabin_expand_appends_witness:
  "\<exists>c'. ydynabin_expand True ydynabin_zero (Some [7, 8, 9]) 3 = Some (YENOERR, c') \<and> dyn_inv c' \<and>
     dyn_content c' = [7, 8, 9]"
  using ydynabin_expand_appends [of ydynabin_zero 3 "[7, 8, 9]"]
  by (simp add: dyn_room_def ydynabin_zero_def [symmetric] dyn_new_size_def YDYNABIN_SIZE_def
      YDYNABIN_RNDSZ_def MB_def) (simp add: ydynabin_zero_def)

text \<open>
  C36: An expansion whose allocation succeeds writes outside its block exactly when the free
  space is too small and the replacement block, sized from the new data alone, cannot hold
  the unread bytes and the new ones together.
\<close>

theorem ydynabin_expand_overflow_iff:
  assumes "dyn_inv c" and "unat len \<le> length d"
  shows "ydynabin_expand True c (Some d) len = None \<longleftrightarrow>
     dyn_free c < len \<and>
     unat (YDYNABIN_RNDSZ (YDYNABIN_SIZE len)) < unat (dyn_len c) + unat len"
  using ydynabin_expand_None_iff [OF assms] by (auto simp: dyn_room_def dyn_new_size_def)

theorem ydynabin_expand_overflow_iff_witness:
  "dyn_inv \<lparr>dyn_mem = [1, 2, 3, 4], dyn_len = 4, dyn_offset = 0, dyn_free = 0\<rparr> \<and>
   ydynabin_expand True \<lparr>dyn_mem = [1, 2, 3, 4], dyn_len = 4, dyn_offset = 0, dyn_free = 0\<rparr>
     (Some [5]) 1 = None"
proof -
  let ?c = "\<lparr>dyn_mem = [1, 2, 3, 4], dyn_len = 4, dyn_offset = 0, dyn_free = 0\<rparr>"
  have inv: "dyn_inv ?c" by (simp add: dyn_inv_def)
  show ?thesis
    using inv ydynabin_expand_overflow_iff [OF inv, of 1 "[5]"]
    by (simp add: YDYNABIN_SIZE_def YDYNABIN_RNDSZ_def MB_def)
qed

text \<open>
  Moving the data pointer of a well-formed buffer forward by \<open>n\<close> bytes hands out a pointer
  to the first \<open>n\<close> unread bytes and removes exactly those from the buffer; with fewer than
  \<open>n\<close> unread bytes it returns the null pointer and changes nothing.
\<close>

theorem ydynabin_forward_takes:
  assumes "dyn_inv c"
  shows "case ydynabin_forward c n of (p, c') \<Rightarrow>
     dyn_inv c' \<and>
     (if unat n \<le> length (dyn_content c)
      then dyn_deref c' p (unat n) = Some (take (unat n) (dyn_content c)) \<and>
           dyn_content c' = drop (unat n) (dyn_content c)
      else p = None \<and> c' = c)"
  using ydynabin_forward_ok [OF assms, of n] ydynabin_forward_short [of c n] assms
  by (cases "unat n \<le> length (dyn_content c)") auto

theorem ydynabin_forward_takes_witness:
  "ydynabin_forward \<lparr>dyn_mem = [1, 2, 3], dyn_len = 2, dyn_offset = 1, dyn_free = 0\<rparr> 1 =
     (Some 1, \<lparr>dyn_mem = [1, 2, 3], dyn_len = 1, dyn_offset = 2, dyn_free = 0\<rparr>) \<and>
   dyn_inv \<lparr>dyn_mem = [1, 2, 3], dyn_len = 1, dyn_offset = 2, dyn_free = 0\<rparr>"
proof -
  let ?c = "\<lparr>dyn_mem = [1, 2, 3], dyn_len = 2, dyn_offset = 1, dyn_free = 0\<rparr>"
  have inv: "dyn_inv ?c" by (simp add: dyn_inv_def)
  show ?thesis
    using ydynabin_forward_takes [OF inv, of 1] by (simp add: ydynabin_forward_def)
qed

end
