(* ===== verification/Protocol.thy ===== *)
theory Protocol
  imports FineDB_Prelude
begin

text \<open>
  The one-byte request and response codes of \<^verbatim>\<open>src/server/protocol.h\<close>: the enumerations of
  commands, options and response codes with their values, and the macros that put a code byte
  together and take it apart. The lemmas show which fields of a byte survive which macro; they
  are collected in \<open>proto_simps\<close> for the server, the client library and the end-to-end proofs.
\<close>

named_theorems proto_simps \<open>fields of request and response bytes\<close>

section \<open>Codes\<close>

datatype protocol_command_t =
    PROTO_PING | PROTO_GET | PROTO_DEL | PROTO_PUT | PROTO_SETDB | PROTO_START | PROTO_STOP
  | PROTO_ADMIN | PROTO_EXTRA

fun proto_code :: "protocol_command_t \<Rightarrow> byte" where
  "proto_code PROTO_PING = 0x0"
| "proto_code PROTO_GET = 0x1"
| "proto_code PROTO_DEL = 0x2"
| "proto_code PROTO_PUT = 0x3"
| "proto_code PROTO_SETDB = 0x4"
| "proto_code PROTO_START = 0x5"
| "proto_code PROTO_STOP = 0x6"
| "proto_code PROTO_ADMIN = 0xe"
| "proto_code PROTO_EXTRA = 0xf"

datatype protocol_option_t =
    PROTO_OPT_SYNC | PROTO_OPT_SERIALIZED | PROTO_OPT_COMPRESSED | PROTO_OPT_SERVTOSERV

fun opt_code :: "protocol_option_t \<Rightarrow> byte" where
  "opt_code PROTO_OPT_SYNC = 0x10"
| "opt_code PROTO_OPT_SERIALIZED = 0x20"
| "opt_code PROTO_OPT_COMPRESSED = 0x40"
| "opt_code PROTO_OPT_SERVTOSERV = 0x80"

datatype protocol_response_t =
    RESP_ERR_UNDEFINED | RESP_OK | RESP_ERR_PROTOCOL | RESP_ERR_SERVER | RESP_ERR_FULL_DB
  | RESP_ERR_TOO_MANY_DB | RESP_ERR_BAD_NAME | RESP_ERR_TRANSACTION

fun resp_code :: "protocol_response_t \<Rightarrow> byte" where
  "resp_code RESP_ERR_UNDEFINED = 0"
| "resp_code RESP_OK = 1"
| "resp_code RESP_ERR_PROTOCOL = 2"
| "resp_code RESP_ERR_SERVER = 3"
| "resp_code RESP_ERR_FULL_DB = 4"
| "resp_code RESP_ERR_TOO_MANY_DB = 5"
| "resp_code RESP_ERR_BAD_NAME = 6"
| "resp_code RESP_ERR_TRANSACTION = 7"

section \<open>Macros\<close>

text \<open>The \<^verbatim>\<open>HAS\<close> macros are used as conditions, so they are read as truth values.\<close>

definition REQUEST_COMMAND :: "byte \<Rightarrow> byte" where
  "REQUEST_COMMAND c = c AND 0xf"

definition REQUEST_HAS_SYNC :: "byte \<Rightarrow> bool" where
  "REQUEST_HAS_SYNC c \<longleftrightarrow> c AND opt_code PROTO_OPT_SYNC \<noteq> 0"

definition REQUEST_HAS_SERIALIZED :: "byte \<Rightarrow> bool" where
  "REQUEST_HAS_SERIALIZED c \<longleftrightarrow> c AND opt_code PROTO_OPT_SERIALIZED \<noteq> 0"

definition REQUEST_HAS_COMPRESSED :: "byte \<Rightarrow> bool" where
  "REQUEST_HAS_COMPRESSED c \<longleftrightarrow> c AND opt_code PROTO_OPT_COMPRESSED \<noteq> 0"

definition REQUEST_HAS_SERVTOSERV :: "byte \<Rightarrow> bool" where
  "REQUEST_HAS_SERVTOSERV c \<longleftrightarrow> c AND opt_code PROTO_OPT_SERVTOSERV \<noteq> 0"

definition RESPONSE_ADD_SERIALIZED :: "byte \<Rightarrow> byte" where
  "RESPONSE_ADD_SERIALIZED c = c OR opt_code PROTO_OPT_SERIALIZED"

definition RESPONSE_ADD_COMPRESSED :: "byte \<Rightarrow> byte" where
  "RESPONSE_ADD_COMPRESSED c = c OR opt_code PROTO_OPT_COMPRESSED"

definition REQUEST_ADD_SYNC :: "byte \<Rightarrow> byte" where
  "REQUEST_ADD_SYNC c = c OR opt_code PROTO_OPT_SYNC"

definition REQUEST_ADD_COMPRESSED :: "byte \<Rightarrow> byte" where
  "REQUEST_ADD_COMPRESSED c = c OR opt_code PROTO_OPT_COMPRESSED"

definition REQUEST_ADD_SERVTOSERV :: "byte \<Rightarrow> byte" where
  "REQUEST_ADD_SERVTOSERV c = c OR opt_code PROTO_OPT_SERVTOSERV"

definition RESPONSE_STATUS :: "byte \<Rightarrow> byte" where
  "RESPONSE_STATUS c = c AND 1"

definition RESPONSE_ERROR :: "byte \<Rightarrow> byte" where
  "RESPONSE_ERROR c = c AND 0x1e"

lemmas request_macros =
  REQUEST_COMMAND_def REQUEST_HAS_SYNC_def REQUEST_HAS_SERIALIZED_def
  REQUEST_HAS_COMPRESSED_def REQUEST_HAS_SERVTOSERV_def
  REQUEST_ADD_SYNC_def REQUEST_ADD_COMPRESSED_def REQUEST_ADD_SERVTOSERV_def

lemmas response_macros =
  RESPONSE_ADD_SERIALIZED_def RESPONSE_ADD_COMPRESSED_def RESPONSE_STATUS_def RESPONSE_ERROR_def
  REQUEST_HAS_SERIALIZED_def REQUEST_HAS_COMPRESSED_def

section \<open>Fields of a byte\<close>

lemma has_bits:
  "REQUEST_HAS_SYNC c \<longleftrightarrow> bit c 4" "REQUEST_HAS_SERIALIZED c \<longleftrightarrow> bit c 5"
  "REQUEST_HAS_COMPRESSED c \<longleftrightarrow> bit c 6" "REQUEST_HAS_SERVTOSERV c \<longleftrightarrow> bit c 7"
  using and_exp_eq_0_iff_not_bit [of c 4] and_exp_eq_0_iff_not_bit [of c 5]
    and_exp_eq_0_iff_not_bit [of c 6] and_exp_eq_0_iff_not_bit [of c 7]
  by (simp_all add: request_macros)

lemma opt_bits:
  "REQUEST_ADD_SYNC c = set_bit 4 c" "REQUEST_ADD_COMPRESSED c = set_bit 6 c"
  "REQUEST_ADD_SERVTOSERV c = set_bit 7 c" "RESPONSE_ADD_SERIALIZED c = set_bit 5 c"
  "RESPONSE_ADD_COMPRESSED c = set_bit 6 c"
  by (simp_all add: request_macros response_macros set_bit_eq_or)

lemma command_bits: "REQUEST_COMMAND c = take_bit 4 c"
  by (simp add: REQUEST_COMMAND_def take_bit_eq_mask mask_eq_exp_minus_1)

lemma status_bits: "RESPONSE_STATUS c = take_bit 1 c"
  by (simp add: RESPONSE_STATUS_def take_bit_eq_mask mask_eq_exp_minus_1)

lemma command_less_16: "unat (REQUEST_COMMAND c) < 16"
  using take_bit_nat_less_exp [of 4 "unat c"] by (simp add: command_bits unsigned_take_bit_eq)

lemma command_add [proto_simps]:
  "REQUEST_COMMAND (REQUEST_ADD_SYNC c) = REQUEST_COMMAND c"
  "REQUEST_COMMAND (REQUEST_ADD_COMPRESSED c) = REQUEST_COMMAND c"
  "REQUEST_COMMAND (REQUEST_ADD_SERVTOSERV c) = REQUEST_COMMAND c"
  by (simp_all add: command_bits opt_bits take_bit_set_bit_eq)

lemma has_add [proto_simps]:
  "REQUEST_HAS_SYNC (REQUEST_ADD_SYNC c)"
  "REQUEST_HAS_SYNC (REQUEST_ADD_COMPRESSED c) = REQUEST_HAS_SYNC c"
  "REQUEST_HAS_COMPRESSED (REQUEST_ADD_COMPRESSED c)"
  "REQUEST_HAS_COMPRESSED (REQUEST_ADD_SYNC c) = REQUEST_HAS_COMPRESSED c"
  "REQUEST_HAS_SERIALIZED (REQUEST_ADD_COMPRESSED c) = REQUEST_HAS_SERIALIZED c"
  "REQUEST_HAS_SERIALIZED (REQUEST_ADD_SYNC c) = REQUEST_HAS_SERIALIZED c"
  by (simp_all add: has_bits opt_bits bit_simps)

lemma has_proto_code [proto_simps]:
  "\<not> REQUEST_HAS_SYNC (proto_code p)" "\<not> REQUEST_HAS_COMPRESSED (proto_code p)"
  "\<not> REQUEST_HAS_SERIALIZED (proto_code p)" "\<not> REQUEST_HAS_SERVTOSERV (proto_code p)"
  by (cases p; simp add: request_macros)+

lemma command_proto_code [proto_simps]: "REQUEST_COMMAND (proto_code p) = proto_code p"
  by (cases p) (simp_all add: REQUEST_COMMAND_def)

lemma status_add [proto_simps]:
  "RESPONSE_STATUS (RESPONSE_ADD_SERIALIZED c) = RESPONSE_STATUS c"
  "RESPONSE_STATUS (RESPONSE_ADD_COMPRESSED c) = RESPONSE_STATUS c"
  unfolding status_bits opt_bits by (simp_all only: take_bit_set_bit_eq) simp_all

lemma response_has_add [proto_simps]:
  "REQUEST_HAS_COMPRESSED (RESPONSE_ADD_COMPRESSED c)"
  "REQUEST_HAS_COMPRESSED (RESPONSE_ADD_SERIALIZED c) = REQUEST_HAS_COMPRESSED c"
  "REQUEST_HAS_SERIALIZED (RESPONSE_ADD_SERIALIZED c)"
  "REQUEST_HAS_SERIALIZED (RESPONSE_ADD_COMPRESSED c) = REQUEST_HAS_SERIALIZED c"
  by (simp_all add: has_bits opt_bits bit_simps)

lemma has_resp_code [proto_simps]:
  "\<not> REQUEST_HAS_COMPRESSED (resp_code r)" "\<not> REQUEST_HAS_SERIALIZED (resp_code r)"
  by (cases r; simp add: request_macros)+

lemma resp_code_inject [simp]: "resp_code r = resp_code s \<longleftrightarrow> r = s"
  by (cases r; cases s) simp_all

lemma proto_code_inject [simp]: "proto_code p = proto_code q \<longleftrightarrow> p = q"
  by (cases p; cases q) simp_all

lemma status_ok_iff [proto_simps]:
  "RESPONSE_STATUS (resp_code r) = resp_code RESP_OK \<longleftrightarrow>
     r \<in> {RESP_OK, RESP_ERR_SERVER, RESP_ERR_TOO_MANY_DB, RESP_ERR_TRANSACTION}"
  by (cases r) (simp_all add: RESPONSE_STATUS_def)

end
