(* ===== verification/Snappy_Base.thy ===== *)
theory Snappy_Base
  imports FineDB_Prelude
begin

text \<open>
  The lower half of \<^verbatim>\<open>lib/snappy-c/snappy.c\<close>: unaligned loads and stores on a 64-bit
  little-endian machine, the varint that holds the uncompressed length, the scatter-gather
  source and sink (the library is built with \<^verbatim>\<open>-DSG=1\<close>), and the writer that the
  decompressor appends to. Pointers are positions in the block they point into; the
  assertions are compiled out (\<^verbatim>\<open>-DNDEBUG=1\<close>) and have no counterpart.
\<close>

named_theorems snappy_simps \<open>loads, stores and writers of the snappy codec\<close>

section \<open>Unaligned loads and stores\<close>

fun le_word :: "bytes \<Rightarrow> 'a::len word" where
  "le_word [] = 0"
| "le_word (b # bs) = ucast b OR push_bit 8 (le_word bs)"

definition le_bytes :: "nat \<Rightarrow> 'a::len word \<Rightarrow> bytes" where
  "le_bytes n w = map (\<lambda>i. ucast (drop_bit (8 * i) w)) [0..<n]"

definition UNALIGNED_LOAD32 :: "bytes \<Rightarrow> nat \<Rightarrow> u32 option" where
  "UNALIGNED_LOAD32 m p = map_option le_word (mem_read m p 4)"

definition UNALIGNED_LOAD64 :: "bytes \<Rightarrow> nat \<Rightarrow> u64 option" where
  "UNALIGNED_LOAD64 m p = map_option le_word (mem_read m p 8)"

definition UNALIGNED_STORE64 :: "bytes \<Rightarrow> nat \<Rightarrow> u64 \<Rightarrow> bytes option" where
  "UNALIGNED_STORE64 m p v = mem_write m p (le_bytes 8 v)"

text \<open>\<^verbatim>\<open>__builtin_clz\<close> and \<^verbatim>\<open>__builtin_ctzll\<close>: the zero bits above, and below, the set ones.\<close>

definition builtin_clz :: "u32 \<Rightarrow> nat" where
  "builtin_clz n = length (takeWhile (\<lambda>i. \<not> bit n i) (rev [0..<32]))"

definition find_lsb_set_non_zero64 :: "u64 \<Rightarrow> nat" where
  "find_lsb_set_non_zero64 n = length (takeWhile (\<lambda>i. \<not> bit n i) [0..<64])"

definition log2_floor :: "u32 \<Rightarrow> int" where
  "log2_floor n = (if n = 0 then -1 else int (31 XOR builtin_clz n))"

definition get_u32_at_offset :: "u64 \<Rightarrow> nat \<Rightarrow> u32" where
  "get_u32_at_offset v offset = ucast (drop_bit (8 * offset) v)"

lemma bit_le_word:
  "bit (le_word bs :: 'a::len word) i \<longleftrightarrow>
     i < LENGTH('a) \<and> i div 8 < length bs \<and> bit (bs ! (i div 8)) (i mod 8)"
proof (induction bs arbitrary: i)
  case Nil
  then show ?case by simp
next
  case (Cons b bs)
  show ?case
  proof (cases "i < 8")
    case True
    then show ?thesis by (auto simp: bit_simps)
  next
    case False
    then have "i div 8 = Suc ((i - 8) div 8)" "i mod 8 = (i - 8) mod 8"
      by (auto simp: le_div_geq le_mod_geq)
    moreover have "\<not> bit b i" using False by (auto dest: bit_imp_le_length)
    ultimately show ?thesis using False Cons [of "i - 8"] by (auto simp: bit_simps)
  qed
qed

lemma length_le_bytes [simp]: "length (le_bytes n w) = n"
  by (simp add: le_bytes_def)

lemma le_bytes_le_word:
  assumes "8 * length bs \<le> LENGTH('a::len)"
  shows "le_bytes (length bs) (le_word bs :: 'a word) = bs"
proof (rule nth_equalityI)
  fix i assume i: "i < length (le_bytes (length bs) (le_word bs :: 'a word))"
  show "le_bytes (length bs) (le_word bs :: 'a word) ! i = bs ! i"
  proof (rule bit_word_eqI)
    fix n assume n: "n < LENGTH(8)"
    then have "(8 * i + n) div 8 = i" "(8 * i + n) mod 8 = n" by auto
    moreover have "8 * i + n < LENGTH('a)" using assms i n by simp
    ultimately show "bit (le_bytes (length bs) (le_word bs :: 'a word) ! i) n \<longleftrightarrow> bit (bs ! i) n"
      using i n by (simp add: le_bytes_def bit_simps bit_le_word)
  qed
qed simp

lemma le_word_inject:
  assumes "length xs = length ys" and "8 * length xs \<le> LENGTH('a::len)"
  shows "(le_word xs :: 'a word) = le_word ys \<longleftrightarrow> xs = ys"
  using le_bytes_le_word [of xs, where 'a = 'a] le_bytes_le_word [of ys, where 'a = 'a] assms
  by metis

lemma LOAD64_Some:
  "p + 8 \<le> length m \<Longrightarrow> UNALIGNED_LOAD64 m p = Some (le_word (take 8 (drop p m)))"
  by (simp add: UNALIGNED_LOAD64_def mem_read_Some)

lemma LOAD32_Some:
  "p + 4 \<le> length m \<Longrightarrow> UNALIGNED_LOAD32 m p = Some (le_word (take 4 (drop p m)))"
  by (simp add: UNALIGNED_LOAD32_def mem_read_Some)

lemma get_u32_at_offset:
  assumes "length bs = 8" and "k \<le> 4"
  shows "get_u32_at_offset (le_word bs) k = le_word (take 4 (drop k bs))"
proof (rule bit_word_eqI)
  fix n assume n: "n < LENGTH(32)"
  have "(8 * k + n) div 8 = k + n div 8" "(8 * k + n) mod 8 = n mod 8" by simp_all
  moreover have "n div 8 < 4" using n by simp
  moreover have "8 * k + n < 64" using n assms by simp
  ultimately show "bit (get_u32_at_offset (le_word bs) k) n \<longleftrightarrow>
      bit (le_word (take 4 (drop k bs)) :: u32) n"
    using assms n by (simp add: get_u32_at_offset_def bit_simps bit_le_word)
qed

text \<open>Eight bytes moved by a load and a store are what \<^verbatim>\<open>memcpy\<close> of eight bytes moves.\<close>

lemma STORE64_LOAD64 [snappy_simps]:
  "p + 8 \<le> length m \<Longrightarrow>
     UNALIGNED_STORE64 m' q (le_word (take 8 (drop p m))) = mem_write m' q (take 8 (drop p m))"
  using le_bytes_le_word [of "take 8 (drop p m)", where 'a = 64]
  by (simp add: UNALIGNED_STORE64_def)

lemma unat_take_bit: "unat (take_bit n w) = unat w mod 2 ^ n" for w :: "'a::len word"
  by (subst unsigned_take_bit_eq) (simp add: take_bit_eq_mod)

lemma unat_drop_bit: "unat (drop_bit n w) = unat w div 2 ^ n" for w :: "'a::len word"
  by (subst unsigned_drop_bit_eq) (simp add: drop_bit_eq_div take_bit_nat_eq_self)

lemma unat_byte_less: "unat (b :: byte) < 256"
  using unsigned_less [of b, where 'a = nat] by simp

section \<open>The varint of the uncompressed length\<close>

text \<open>
  \<^verbatim>\<open>varint_parse32_with_limit\<close> on the bytes from \<open>ptr\<close> to \<open>limit\<close>: the value and the bytes
  after it, or the null pointer.
\<close>

definition varint_parse32_with_limit :: "bytes \<Rightarrow> (u32 \<times> bytes) option" where
  "varint_parse32_with_limit p =
     (case p of [] \<Rightarrow> None | b0 # p \<Rightarrow>
      let result = ucast b0 AND 127 in
      if b0 < 128 then Some (result, p) else
      case p of [] \<Rightarrow> None | b1 # p \<Rightarrow>
      let result = result OR push_bit 7 (ucast b1 AND 127) in
      if b1 < 128 then Some (result, p) else
      case p of [] \<Rightarrow> None | b2 # p \<Rightarrow>
      let result = result OR push_bit 14 (ucast b2 AND 127) in
      if b2 < 128 then Some (result, p) else
      case p of [] \<Rightarrow> None | b3 # p \<Rightarrow>
      let result = result OR push_bit 21 (ucast b3 AND 127) in
      if b3 < 128 then Some (result, p) else
      case p of [] \<Rightarrow> None | b4 # p \<Rightarrow>
      let result = result OR push_bit 28 (ucast b4 AND 127) in
      if b4 < 16 then Some (result, p) else None)"

definition varint_encode32 :: "u32 \<Rightarrow> bytes" where
  "varint_encode32 v =
     (let B = 128 :: u32 in
      if v < push_bit 7 1 then [ucast v]
      else if v < push_bit 14 1 then [ucast (v OR B), ucast (drop_bit 7 v)]
      else if v < push_bit 21 1 then
        [ucast (v OR B), ucast (drop_bit 7 v OR B), ucast (drop_bit 14 v)]
      else if v < push_bit 28 1 then
        [ucast (v OR B), ucast (drop_bit 7 v OR B), ucast (drop_bit 14 v OR B),
         ucast (drop_bit 21 v)]
      else
        [ucast (v OR B), ucast (drop_bit 7 v OR B), ucast (drop_bit 14 v OR B),
         ucast (drop_bit 21 v OR B), ucast (drop_bit 28 v)])"

text \<open>\<^verbatim>\<open>snappy_uncompressed_length\<close>: \<^term>\<open>None\<close> is the result \<^verbatim>\<open>false\<close>, which leaves \<^verbatim>\<open>*result\<close> alone.\<close>

definition snappy_uncompressed_length :: "bytes \<Rightarrow> nat option" where
  "snappy_uncompressed_length start =
     (case varint_parse32_with_limit start of Some (v, _) \<Rightarrow> Some (unat v) | None \<Rightarrow> None)"

definition snappy_max_compressed_length :: "nat \<Rightarrow> nat" where
  "snappy_max_compressed_length source_len = 32 + source_len + source_len div 6"

lemma word_less_exp_iff:
  assumes "k < LENGTH('a::len)"
  shows "(w :: 'a word) < 2 ^ k \<longleftrightarrow> (\<forall>n. bit w n \<longrightarrow> n < k)"
proof -
  have "(2 :: nat) ^ k < 2 ^ LENGTH('a)" using assms by simp
  then have "unat (2 ^ k :: 'a word) = 2 ^ k"
    using unsigned_of_nat [of "2 ^ k", where 'b = 'a and 'a = nat]
    by (simp add: take_bit_nat_eq_self)
  then have "w < 2 ^ k \<longleftrightarrow> unat w < 2 ^ k"
    by (simp add: word_less_nat_alt)
  also have "\<dots> \<longleftrightarrow> take_bit k w = w"
    by (metis take_bit_nat_eq_self_iff unsigned_take_bit_eq word_unat_eq_iff)
  also have "\<dots> \<longleftrightarrow> (\<forall>n. bit w n \<longrightarrow> n < k)"
    by (simp add: bit_eq_iff [of "take_bit k w"] bit_take_bit_iff) (metis bit_imp_le_length)
  finally show ?thesis .
qed

lemma byte_less_128_iff: "(b :: byte) < 128 \<longleftrightarrow> \<not> bit b 7"
proof -
  have "b < 128 \<longleftrightarrow> (\<forall>n. bit b n \<longrightarrow> n < 7)"
    using word_less_exp_iff [of 7 b] by simp
  also have "\<dots> \<longleftrightarrow> \<not> bit b 7"
  proof
    assume b: "\<not> bit b 7"
    show "\<forall>n. bit b n \<longrightarrow> n < 7"
    proof (intro allI impI)
      fix n assume "bit b n"
      then have "n < 8" "n \<noteq> 7" using b bit_imp_le_length [of b n] by auto
      then show "n < 7" by simp
    qed
  qed auto
  finally show ?thesis .
qed

lemma bit_127: "bit (127 :: int) n \<longleftrightarrow> n < 7"
  using bit_mask_iff [of 7 n, where 'a = int] by (auto simp: mask_eq_exp_minus_1)

lemma bit_128: "bit (128 :: int) n \<longleftrightarrow> n = 7"
  using bit_exp_iff [of 7 n, where 'a = int] by auto

text \<open>A value below \<open>2 ^ (7 * k)\<close> is the combination of its first \<open>k\<close> groups of seven bits.\<close>

lemma varint_groups:
  fixes v :: u32
  assumes "\<forall>n. bit v n \<longrightarrow> n < 7 * k"
  shows "fold (\<lambda>j r. r OR push_bit (7 * j) (drop_bit (7 * j) v AND 127)) [0..<k] 0 = v"
proof -
  have *: "bit (fold (\<lambda>j r. r OR push_bit (7 * j) (drop_bit (7 * j) v AND 127)) [0..<k] 0) n \<longleftrightarrow>
      n < 7 * k \<and> bit v n" if "n < 32" for n and k :: nat
    using that by (induction k) (auto simp: bit_simps bit_127 simp del: push_bit_and)
  show ?thesis
    using assms * by (intro bit_word_eqI) auto
qed

lemma varint_group_byte:
  "(ucast (ucast (x OR 128) :: byte) AND 127 :: u32) = x AND 127"
  "(ucast (ucast x :: byte) AND 127 :: u32) = x AND 127"
  "(x OR 128) AND 127 = x AND 127"
  for x :: u32
  by (rule bit_word_eqI, auto simp: bit_simps bit_127 bit_128)+

lemma varint_last:
  fixes v :: u32
  assumes "v < 2 ^ (k + 7)" "k + 7 < 32"
  shows "(ucast (drop_bit k v) :: byte) < 128" "\<forall>n. bit v n \<longrightarrow> n < k + 7"
  using assms by (auto simp: word_less_exp_iff byte_less_128_iff bit_simps)

lemma varint_roundtrip:
  "varint_parse32_with_limit (varint_encode32 v @ rest) = Some (v, rest)"
proof -
  have cont: "\<not> (ucast (x OR 128) :: byte) < 128" for x :: u32
    by (simp add: byte_less_128_iff bit_simps bit_128)
  have top: "(ucast (drop_bit 28 v) :: byte) < 16"
    using word_less_exp_iff [of 4 "ucast (drop_bit 28 v) :: byte"]
    by (auto simp: bit_simps dest: bit_imp_le_length)
  have five: "\<forall>n. bit v n \<longrightarrow> n < 7 * 5" by (auto dest: bit_imp_le_length)
  consider "v < 2 ^ 7" | "\<not> v < 2 ^ 7" "v < 2 ^ 14" | "\<not> v < 2 ^ 7" "\<not> v < 2 ^ 14" "v < 2 ^ 21"
    | "\<not> v < 2 ^ 7" "\<not> v < 2 ^ 14" "\<not> v < 2 ^ 21" "v < 2 ^ 28"
    | "\<not> v < 2 ^ 7" "\<not> v < 2 ^ 14" "\<not> v < 2 ^ 21" "\<not> v < 2 ^ 28"
    by blast
  then show ?thesis
  proof cases
    case 1
    then show ?thesis using varint_last [of v 0] varint_groups [of v 1]
      by (simp add: varint_encode32_def varint_parse32_with_limit_def varint_group_byte)
  next
    case 2
    then show ?thesis using varint_last [of v 7] varint_groups [of v 2]
      by (simp add: varint_encode32_def varint_parse32_with_limit_def varint_group_byte cont
          upt_rec)
  next
    case 3
    then show ?thesis using varint_last [of v 14] varint_groups [of v 3]
      by (simp add: varint_encode32_def varint_parse32_with_limit_def varint_group_byte cont
          upt_rec)
  next
    case 4
    then show ?thesis using varint_last [of v 21] varint_groups [of v 4]
      by (simp add: varint_encode32_def varint_parse32_with_limit_def varint_group_byte cont
          upt_rec)
  next
    case 5
    then show ?thesis using top varint_groups [OF five]
      by (simp add: varint_encode32_def varint_parse32_with_limit_def varint_group_byte cont
          upt_rec)
  qed
qed

section \<open>The scatter-gather source\<close>

text \<open>
  \<^verbatim>\<open>struct source\<close>: the fragments \<^verbatim>\<open>iov[0..iovlen-1]\<close> and a position in them. \<^verbatim>\<open>peek\<close> returns a
  pointer (a fragment and a position in it) and the number of bytes there; \<^verbatim>\<open>skip\<close> reads the
  length of the current fragment, which is undefined behind the last one.
\<close>

record source =
  src_iov :: "bytes list"
  src_curvec :: nat
  src_curoff :: nat
  src_total :: nat

definition available :: "source \<Rightarrow> int" where
  "available s = sint (word_of_nat (src_total s) :: u32)"

definition peek :: "source \<Rightarrow> (bytes \<times> nat) option \<times> nat" where
  "peek s =
     (if src_curvec s < length (src_iov s) \<and> src_curoff s < length (src_iov s ! src_curvec s)
      then (Some (src_iov s ! src_curvec s, src_curoff s),
            length (src_iov s ! src_curvec s) - src_curoff s)
      else (None, 0))"

definition skip :: "source \<Rightarrow> nat \<Rightarrow> source option" where
  "skip s n =
     (if length (src_iov s) \<le> src_curvec s then None
      else
        let off = src_curoff s + n in
        if length (src_iov s ! src_curvec s) \<le> off \<and> src_curvec s + 1 < length (src_iov s)
        then Some (s\<lparr>src_curoff := 0, src_curvec := src_curvec s + 1\<rparr>)
        else Some (s\<lparr>src_curoff := off\<rparr>))"

text \<open>
  The bytes still to come, and the sources that never show an empty fragment before the end.
\<close>

definition src_rest :: "source \<Rightarrow> bytes" where
  "src_rest s = drop (src_curoff s) (src_iov s ! src_curvec s) @
     concat (drop (src_curvec s + 1) (src_iov s))"

definition src_ok :: "source \<Rightarrow> bool" where
  "src_ok s \<longleftrightarrow> src_curvec s < length (src_iov s) \<and>
     src_curoff s \<le> length (src_iov s ! src_curvec s) \<and>
     (src_curoff s = length (src_iov s ! src_curvec s) \<longrightarrow>
        src_curvec s + 1 = length (src_iov s)) \<and>
     (\<forall>v \<in> set (drop (src_curvec s + 1) (src_iov s)). v \<noteq> [])"

text \<open>What the users of a source rely on.\<close>

lemma peek_rest:
  assumes "src_ok s"
  shows "snd (peek s) = 0 \<longleftrightarrow> src_rest s = []"
    and "snd (peek s) \<le> length (src_rest s)"
    and "snd (peek s) \<noteq> 0 \<Longrightarrow> \<exists>b off. fst (peek s) = Some (b, off) \<and>
           off + snd (peek s) = length b \<and> drop off b = take (snd (peek s)) (src_rest s)"
  using assms by (auto simp: src_ok_def peek_def src_rest_def split: if_splits)

lemma skip_rest:
  assumes "src_ok s" and "n \<le> snd (peek s)"
  shows "\<exists>s'. skip s n = Some s' \<and> src_ok s' \<and> src_rest s' = drop n (src_rest s)"
proof (cases "length (src_iov s ! src_curvec s) \<le> src_curoff s + n \<and>
    src_curvec s + 1 < length (src_iov s)")
  case True
  let ?k = "src_curvec s"
  have n: "length (src_iov s ! ?k) = src_curoff s + n"
    using assms True by (auto simp: src_ok_def peek_def split: if_splits)
  have ds: "drop (Suc ?k) (src_iov s) = src_iov s ! Suc ?k # drop (Suc (Suc ?k)) (src_iov s)"
    using True by (simp add: Cons_nth_drop_Suc)
  then show ?thesis
    using assms True n by (auto simp: skip_def src_ok_def src_rest_def)
next
  case False
  then show ?thesis
    using assms
    by (auto simp: skip_def src_ok_def src_rest_def peek_def Let_def not_le add.commute
        split: if_splits)
qed

end
