(* ===== verification/Snappy_Uncompress.thy ===== *)
theory Snappy_Uncompress
  imports Snappy_Base
begin

text \<open>
  The decompressor of \<^verbatim>\<open>lib/snappy-c/snappy.c\<close>: the writer with its fast paths, the tag table,
  the refill of tags from the source and the tag loop. The reference decoder of the format
  stands beside it, with the proof that the two agree on every input and that no access of
  the detailed one leaves its block.
\<close>

section \<open>The writer\<close>

text \<open>\<^verbatim>\<open>base\<close> is position 0 of the output block.\<close>

record writer =
  w_mem :: bytes
  w_op :: nat
  w_op_limit :: nat

definition writer_set_expected_length :: "writer \<Rightarrow> nat \<Rightarrow> writer" where
  "writer_set_expected_length w len = w\<lparr>w_op_limit := w_op w + len\<rparr>"

definition writer_check_length :: "writer \<Rightarrow> bool" where
  "writer_check_length w \<longleftrightarrow> w_op w = w_op_limit w"

text \<open>The body of the \<^verbatim>\<open>do\<close> loop runs once even for a length of 0.\<close>

fun incremental_copy :: "bytes \<Rightarrow> nat \<Rightarrow> nat \<Rightarrow> nat \<Rightarrow> bytes option" where
  "incremental_copy m src op len = do {
     b \<leftarrow> mem_read m src 1;
     m' \<leftarrow> mem_write m op b;
     (if 1 < len then incremental_copy m' (src + 1) (op + 1) (len - 1) else Some m') }"

declare incremental_copy.simps [simp del]

definition kmax_increment_copy_overflow :: nat where
  "kmax_increment_copy_overflow = 10"

text \<open>The two loops of \<^verbatim>\<open>incremental_copy_fast_path\<close>; the first never ends for \<open>op = src\<close>.\<close>

partial_function (option) copy_expand_pattern ::
    "bytes \<Rightarrow> nat \<Rightarrow> nat \<Rightarrow> int \<Rightarrow> (bytes \<times> nat \<times> int) option" where
  "copy_expand_pattern m src op len =
     (if op - src < 8 then do {
        v \<leftarrow> UNALIGNED_LOAD64 m src;
        m' \<leftarrow> UNALIGNED_STORE64 m op v;
        copy_expand_pattern m' src (op + (op - src)) (len - int (op - src)) }
      else Some (m, op, len))"

function copy_by_8 :: "bytes \<Rightarrow> nat \<Rightarrow> nat \<Rightarrow> int \<Rightarrow> bytes option" where
  "copy_by_8 m src op len =
     (if 0 < len then do {
        v \<leftarrow> UNALIGNED_LOAD64 m src;
        m' \<leftarrow> UNALIGNED_STORE64 m op v;
        copy_by_8 m' (src + 8) (op + 8) (len - 8) }
      else Some m)"
  by auto
termination by (relation "measure (\<lambda>(m, src, op, len). nat len)") auto

declare copy_by_8.simps [simp del]

definition incremental_copy_fast_path :: "bytes \<Rightarrow> nat \<Rightarrow> nat \<Rightarrow> nat \<Rightarrow> bytes option" where
  "incremental_copy_fast_path m src op len = do {
     (m', op', len') \<leftarrow> copy_expand_pattern m src op (int len);
     copy_by_8 m' src op' len' }"

definition writer_append_from_self :: "writer \<Rightarrow> u32 \<Rightarrow> u32 \<Rightarrow> (bool \<times> writer) option" where
  "writer_append_from_self w offset len =
     (let op = w_op w; space_left = word_of_nat (w_op_limit w - op) :: u32 in
      if op \<le> unat (offset - 1) then Some (False, w)
      else do {
        m \<leftarrow>
          (if len \<le> 16 \<and> 8 \<le> offset \<and> 16 \<le> space_left then do {
             v \<leftarrow> UNALIGNED_LOAD64 (w_mem w) (op - unat offset);
             m1 \<leftarrow> UNALIGNED_STORE64 (w_mem w) op v;
             v' \<leftarrow> UNALIGNED_LOAD64 m1 (op - unat offset + 8);
             m2 \<leftarrow> UNALIGNED_STORE64 m1 (op + 8) v';
             Some (Some m2) }
           else if len + word_of_nat kmax_increment_copy_overflow \<le> space_left then
             map_option Some
               (incremental_copy_fast_path (w_mem w) (op - unat offset) op (unat len))
           else if space_left < len then Some None
           else map_option Some (incremental_copy (w_mem w) (op - unat offset) op (unat len)));
        Some (case m of None \<Rightarrow> (False, w)
              | Some m' \<Rightarrow> (True, w\<lparr>w_mem := m', w_op := op + unat len\<rparr>)) })"

text \<open>\<open>buf\<close> and \<open>ip\<close> are the block the input pointer points into and its position there.\<close>

definition writer_append :: "writer \<Rightarrow> bytes \<Rightarrow> nat \<Rightarrow> u32 \<Rightarrow> (bool \<times> writer) option" where
  "writer_append w buf ip len =
     (let op = w_op w; space_left = word_of_nat (w_op_limit w - op) :: u32 in
      if space_left < len then Some (False, w)
      else do {
        src \<leftarrow> mem_read buf ip (unat len);
        m \<leftarrow> mem_write (w_mem w) op src;
        Some (True, w\<lparr>w_mem := m, w_op := op + unat len\<rparr>) })"

definition writer_try_fast_append ::
    "writer \<Rightarrow> bytes \<Rightarrow> nat \<Rightarrow> u32 \<Rightarrow> u32 \<Rightarrow> (bool \<times> writer) option" where
  "writer_try_fast_append w buf ip available_bytes len =
     (let op = w_op w; space_left = sint (word_of_nat (w_op_limit w - op) :: u32) in
      if len \<le> 16 \<and> 16 \<le> available_bytes \<and> 16 \<le> space_left then do {
        v \<leftarrow> UNALIGNED_LOAD64 buf ip;
        m1 \<leftarrow> UNALIGNED_STORE64 (w_mem w) op v;
        v' \<leftarrow> UNALIGNED_LOAD64 buf (ip + 8);
        m2 \<leftarrow> UNALIGNED_STORE64 m1 (op + 8) v';
        Some (True, w\<lparr>w_mem := m2, w_op := op + unat len\<rparr>) }
      else Some (False, w))"

section \<open>What the copies compute\<close>

text \<open>
  The meaning of a copy tag: \<open>n\<close> times, append the byte that lies \<open>off\<close> positions back.
\<close>

primrec copy_self :: "nat \<Rightarrow> nat \<Rightarrow> bytes \<Rightarrow> bytes" where
  "copy_self 0 off out = out"
| "copy_self (Suc n) off out = copy_self n off (out @ [out ! (length out - off)])"

text \<open>
  Up to position \<open>lim\<close>, the block \<open>m\<close> repeats the \<open>off\<close> bytes that \<open>m0\<close> has at \<open>src\<close>.
\<close>

definition repeats :: "bytes \<Rightarrow> nat \<Rightarrow> nat \<Rightarrow> bytes \<Rightarrow> nat \<Rightarrow> bool" where
  "repeats m0 src off m lim \<longleftrightarrow> length m = length m0 \<and> (\<forall>i < src. m ! i = m0 ! i) \<and>
     (\<forall>j. src + j < lim \<longrightarrow> m ! (src + j) = m0 ! (src + j mod off))"

lemma length_copy_self [simp]: "length (copy_self n off out) = length out + n"
  by (induction n arbitrary: out) auto

lemma copy_self_add: "copy_self (a + b) off out = copy_self b off (copy_self a off out)"
  by (induction a arbitrary: out) auto

lemma copy_self_Suc:
  "copy_self (Suc n) off out =
     copy_self n off out @ [copy_self n off out ! (length out + n - off)]"
  using copy_self_add [of n 1 off out] by simp

lemma repeats_copy_self:
  assumes "repeats m0 src off m lim" and "0 < off" and "src + off + len \<le> lim"
    and "lim \<le> length m0"
  shows "take (src + off + len) m = copy_self len off (take (src + off) m0)"
  using assms(3)
proof (induction len)
  case 0
  have "m ! i = m0 ! i" if "i < src + off" for i
  proof (cases "i < src")
    case True
    then show ?thesis using assms by (simp add: repeats_def)
  next
    case False
    have "src + (i - src) < lim" using assms that False by simp
    then have "m ! (src + (i - src)) = m0 ! (src + (i - src) mod off)"
      using assms(1) unfolding repeats_def by blast
    moreover have "i - src < off" using that False assms(2) by simp
    ultimately show ?thesis using False by simp
  qed
  then show ?case
    using assms 0 by (auto simp: repeats_def intro: nth_equalityI)
next
  case (Suc n)
  let ?i = "src + off + n"
  have "m ! (src + (off + n)) = m0 ! (src + (off + n) mod off)"
    and "m ! (src + n) = m0 ! (src + n mod off)"
    using assms Suc.prems by (simp_all add: repeats_def)
  then have "m ! ?i = m ! (src + n)" by (simp add: add.assoc)
  then have "m ! ?i = take (src + off + n) m ! (src + n)"
    using assms(2) by simp
  moreover have "take (src + off + Suc n) m = take ?i m @ [m ! ?i]"
    using assms Suc.prems by (simp add: repeats_def take_Suc_conv_app_nth)
  moreover have "length (take (src + off) m0) + n - off = src + n"
    using assms Suc.prems by simp
  ultimately show ?case
    using Suc by (simp add: copy_self_Suc del: copy_self.simps)
qed

text \<open>
  Moving eight bytes from \<open>s\<close> to \<open>op\<close>, a whole number of periods later, extends the repetition
  by the bytes that were already right.
\<close>

lemma repeats_store:
  assumes r: "repeats m0 src off m op" and s: "src \<le> s" "s < op" and d: "off dvd (op - s)"
    and op: "op + 8 \<le> length m"
  shows "\<exists>m'. mem_write m op (take 8 (drop s m)) = Some m' \<and>
    repeats m0 src off m' (op + min 8 (op - s))"
proof -
  obtain m' where m': "mem_write m op (take 8 (drop s m)) = Some m'"
    using op s by (simp add: mem_write_def)
  have len: "length (take 8 (drop s m)) = 8" using op s by simp
  have nth: "m' ! i = (if op \<le> i \<and> i < op + 8 then m ! (s + (i - op)) else m ! i)"
    if "i < length m" for i
    using mem_write_nth [OF m' that] len s op by auto
  have "m' ! (src + j) = m0 ! (src + j mod off)" if j: "src + j < op + min 8 (op - s)" for j
  proof (cases "src + j < op")
    case True
    then show ?thesis using r nth op by (simp add: repeats_def)
  next
    case False
    let ?k = "s - src + (src + j - op)"
    have "src + j < op + 8" "src + j < length m" using j op by auto
    moreover have "src + ?k = s + (src + j - op)" using s by simp
    ultimately have "m' ! (src + j) = m ! (src + ?k)"
      using nth [of "src + j"] False by (simp only: not_less if_True simp_thms)
    also have "src + ?k < op" using False j s by simp
    then have "m ! (src + ?k) = m0 ! (src + ?k mod off)"
      using r unfolding repeats_def by blast
    also have "?k mod off = j mod off"
    proof -
      have "j = ?k + (op - s)" using False s by simp
      then show ?thesis using d by (metis mod_add_self2 dvd_def mod_mult_self2)
    qed
    finally show ?thesis .
  qed
  moreover have "m' ! i = m0 ! i" if "i < src" for i
    using nth [of i] r that s op by (simp add: repeats_def)
  ultimately show ?thesis
    using m' r mem_write_length [OF m'] by (auto simp: repeats_def)
qed

lemma incremental_copy_ok:
  assumes "0 < off" "off \<le> op" "0 < len" "op + len \<le> length m"
  shows "\<exists>m'. incremental_copy m (op - off) op len = Some m' \<and> length m' = length m \<and>
    take (op + len) m' = copy_self len off (take op m)"
  using assms
proof (induction len arbitrary: m op)
  case 0
  then show ?case by simp
next
  case (Suc n)
  let ?b = "[m ! (op - off)]"
  have rd: "mem_read m (op - off) 1 = Some ?b"
    using Suc.prems by (simp add: mem_read_def take_Suc_conv_app_nth)
  obtain m1 where m1: "mem_write m op ?b = Some m1"
    using Suc.prems by (simp add: mem_write_def)
  have len: "length m1 = length m" using mem_write_length [OF m1] .
  have pre: "take (Suc op) m1 = take op m @ ?b" using mem_write_prefix [OF m1] by simp
  have step: "take op m @ ?b = take op m @ [take op m ! (length (take op m) - off)]"
    using Suc.prems by simp
  show ?case
  proof (cases "n = 0")
    case True
    then show ?thesis using Suc.prems rd m1 len pre by (subst incremental_copy.simps) simp
  next
    case False
    have "\<exists>m'. incremental_copy m1 (Suc op - off) (Suc op) n = Some m' \<and>
        length m' = length m1 \<and> take (Suc op + n) m' = copy_self n off (take (Suc op) m1)"
      using Suc.prems False len by (intro Suc.IH) simp_all
    then show ?thesis
      using Suc.prems(1,2) rd m1 len pre step False
      by (subst incremental_copy.simps) (auto simp: Suc_diff_le)
  qed
qed

lemma copy_by_8_ok:
  assumes "repeats m0 src off m op" and "src \<le> s" and "8 \<le> op - s" and "off dvd (op - s)"
    and "0 < len \<Longrightarrow> int op + 8 * ((len + 7) div 8) \<le> int (length m)"
  shows "\<exists>m' e. copy_by_8 m s op len = Some m' \<and> int op + len \<le> int e \<and>
    op \<le> e \<and> repeats m0 src off m' e"
  using assms
proof (induction m s op len rule: copy_by_8.induct)
  case (1 m s op len)
  show ?case
  proof (cases "0 < len")
    case True
    have steps: "1 \<le> (len + 7) div 8" "(len - 8 + 7) div 8 = (len + 7) div 8 - 1"
      using True by presburger+
    have bound: "op + 8 \<le> length m" "s + 8 \<le> length m" "s < op"
      using 1(6) True 1(4) steps(1) by auto
    obtain m' where m': "mem_write m op (take 8 (drop s m)) = Some m'"
      and r: "repeats m0 src off m' (op + min 8 (op - s))"
      using repeats_store [OF 1(2,3) bound(3) 1(5) bound(1)] by blast
    have ld: "UNALIGNED_LOAD64 m s = Some (le_word (take 8 (drop s m)))"
      and st: "UNALIGNED_STORE64 m op (le_word (take 8 (drop s m))) = Some m'"
      using bound m' by (simp_all add: LOAD64_Some STORE64_LOAD64)
    have "\<exists>m'' e. copy_by_8 m' (s + 8) (op + 8) (len - 8) = Some m'' \<and>
        int (op + 8) + (len - 8) \<le> int e \<and> op + 8 \<le> e \<and> repeats m0 src off m'' e"
      using True r 1(3,4,5,6) mem_write_length [OF m'] steps
      by (intro 1(1) [OF True ld st]) auto
    then show ?thesis
      using True ld st by (subst copy_by_8.simps) fastforce
  next
    case False
    then show ?thesis using 1(2) by (subst copy_by_8.simps) (auto intro!: exI [of _ op])
  qed
qed

text \<open>The distance doubles from \<open>off\<close>; while it is below 8 it exceeds \<open>off\<close> by at most 3.\<close>

lemma doubling_below_8:
  assumes "(off :: nat) * 2 ^ k < 8" and "0 < off"
  shows "off * 2 ^ k \<le> off + 3"
proof -
  consider "k = 0" | "k = 1" | "k = 2" | "3 \<le> k" by linarith
  then show ?thesis
  proof cases
    case 4
    then have "(2 :: nat) ^ 3 \<le> 2 ^ k" by (rule power_increasing) simp
    then have "1 * 2 ^ 3 \<le> off * 2 ^ k" using assms(2) by (intro mult_le_mono) simp_all
    then show ?thesis using assms(1) by simp
  qed (use assms in auto)
qed

lemma copy_expand_pattern_ok:
  assumes "repeats m0 src off m op" and "op = src + off * 2 ^ k" and "0 < off"
    and "src + off + 11 \<le> length m"
  shows "\<exists>m' op'. copy_expand_pattern m src op len = Some (m', op', len - int (op' - op)) \<and>
    op \<le> op' \<and> 8 \<le> op' - src \<and> off dvd (op' - src) \<and> repeats m0 src off m' op'"
  using assms
proof (induction "8 - off * 2 ^ k" arbitrary: m op k len rule: less_induct)
  case less
  let ?d = "off * 2 ^ k"
  show ?case
  proof (cases "?d < 8")
    case True
    have d: "?d \<le> off + 3" "0 < ?d" using doubling_below_8 True less.prems(3) by auto
    have bound: "op + 8 \<le> length m" "src < op" "off dvd (op - src)" "src + 8 \<le> length m"
      using d less.prems by auto
    obtain m' where m': "mem_write m op (take 8 (drop src m)) = Some m'"
      and r: "repeats m0 src off m' (op + min 8 (op - src))"
      using repeats_store [OF less.prems(1) order_refl bound(2,3,1)] by blast
    have r': "repeats m0 src off m' (op + (op - src))"
      using r True less.prems(2) by (simp add: min_def)
    have doubled: "8 - off * 2 ^ Suc k < 8 - ?d"
    proof -
      have "off * 2 ^ Suc k = ?d + ?d" by simp
      then show ?thesis using d(2) True by linarith
    qed
    have "\<exists>m'' op'. copy_expand_pattern m' src (op + (op - src)) (len - int (op - src)) =
          Some (m'', op', (len - int (op - src)) - int (op' - (op + (op - src)))) \<and>
        op + (op - src) \<le> op' \<and> 8 \<le> op' - src \<and> off dvd (op' - src) \<and>
        repeats m0 src off m'' op'"
      using doubled less.prems mem_write_length [OF m']
      by (intro less.hyps [where k = "Suc k"] r') auto
    then obtain m'' op' where
      rec: "copy_expand_pattern m' src (op + (op - src)) (len - int (op - src)) =
          Some (m'', op', (len - int (op - src)) - int (op' - (op + (op - src))))"
      and "op + (op - src) \<le> op'" "8 \<le> op' - src" "off dvd (op' - src)"
        "repeats m0 src off m'' op'"
      by blast
    moreover have "(len - int (op - src)) - int (op' - (op + (op - src))) = len - int (op' - op)"
      using \<open>op + (op - src) \<le> op'\<close> less.prems(2) by simp
    moreover have "UNALIGNED_LOAD64 m src = Some (le_word (take 8 (drop src m)))"
      and "UNALIGNED_STORE64 m op (le_word (take 8 (drop src m))) = Some m'"
      using bound m' by (simp_all add: LOAD64_Some STORE64_LOAD64)
    ultimately show ?thesis
      using True less.prems(2) by (subst copy_expand_pattern.simps) auto
  next
    case False
    then show ?thesis
      using less.prems by (subst copy_expand_pattern.simps) auto
  qed
qed

lemma repeats_start:
  assumes "0 < off" "off \<le> op"
  shows "repeats m (op - off) off m op"
  using assms by (auto simp: repeats_def)

lemma incremental_copy_fast_path_ok:
  assumes "0 < off" "off \<le> op" "0 < len" "op + len + 10 \<le> length m"
  shows "\<exists>m'. incremental_copy_fast_path m (op - off) op len = Some m' \<and>
    length m' = length m \<and> take (op + len) m' = copy_self len off (take op m)"
proof -
  let ?src = "op - off"
  have r0: "repeats m ?src off m op" using assms(1,2) by (rule repeats_start)
  obtain m1 op1 where c1: "copy_expand_pattern m ?src op (int len) =
      Some (m1, op1, int len - int (op1 - op))"
    and op1: "op \<le> op1" "8 \<le> op1 - ?src" "off dvd (op1 - ?src)" and r1: "repeats m ?src off m1 op1"
    using copy_expand_pattern_ok [OF r0, of 0 "int len"] assms by auto
  have len1: "length m1 = length m" using r1 by (simp add: repeats_def)
  have "8 * ((int len - int (op1 - op) + 7) div 8) \<le> int len - int (op1 - op) + 7"
    by presburger
  then obtain m2 e where c2: "copy_by_8 m1 ?src op1 (int len - int (op1 - op)) = Some m2"
    and e: "int op1 + (int len - int (op1 - op)) \<le> int e" "op1 \<le> e"
    and r2: "repeats m ?src off m2 e"
    using copy_by_8_ok [OF r1 order_refl op1(2,3), of "int len - int (op1 - op)"]
      assms op1(1) len1 by auto
  have r3: "repeats m ?src off m2 (op + len)"
    using r2 e op1(1) by (auto simp: repeats_def)
  have "take (?src + off + len) m2 = copy_self len off (take (?src + off) m)"
    by (rule repeats_copy_self [OF r3 assms(1)]) (use assms in auto)
  then show ?thesis
    using c1 c2 r2 assms(2)
    by (auto simp: incremental_copy_fast_path_def repeats_def)
qed

section \<open>The contract of the writer\<close>

definition w_ok :: "writer \<Rightarrow> bool" where
  "w_ok w \<longleftrightarrow> w_op w \<le> w_op_limit w \<and> w_op_limit w \<le> length (w_mem w) \<and>
     w_op_limit w < 2 ^ 32"

definition w_out :: "writer \<Rightarrow> bytes" where
  "w_out w = take (w_op w) (w_mem w)"

lemma length_w_out [simp]: "w_ok w \<Longrightarrow> length (w_out w) = w_op w"
  by (simp add: w_ok_def w_out_def)

text \<open>\<open>w'\<close> is \<open>w\<close> with output \<open>out\<close>, in the same block with the same limit.\<close>

definition w_becomes :: "writer \<Rightarrow> writer \<Rightarrow> bytes \<Rightarrow> bool" where
  "w_becomes w w' out \<longleftrightarrow> w_ok w' \<and> w_out w' = out \<and> w_op_limit w' = w_op_limit w \<and>
     length (w_mem w') = length (w_mem w)"

lemma w_becomesI:
  assumes "w_ok w" and "length m = length (w_mem w)" and "op \<le> w_op_limit w"
    and "take op m = out"
  shows "w_becomes w (w\<lparr>w_mem := m, w_op := op\<rparr>) out"
  using assms by (simp add: w_becomes_def w_ok_def w_out_def)

lemma unat_of_nat32: "n < 2 ^ 32 \<Longrightarrow> unat (word_of_nat n :: u32) = n"
  by (simp add: unsigned_of_nat take_bit_nat_eq_self)

lemma sint_le_unat: "sint w \<le> int (unat w)" for w :: u32
proof -
  have "0 \<le> uint w" by simp
  then have "- 2147483648 \<le> uint w" by linarith
  then show ?thesis by (simp add: sint_uint signed_take_bit_int_less_eq_self_iff)
qed

lemma space_left:
  "w_ok w \<Longrightarrow> unat (word_of_nat (w_op_limit w - w_op w) :: u32) = w_op_limit w - w_op w"
  by (rule unat_of_nat32) (auto simp: w_ok_def)

lemma writer_append_ok:
  assumes "w_ok w" and "ip + unat len \<le> length buf"
  shows "w_op w + unat len \<le> w_op_limit w \<Longrightarrow>
      \<exists>w'. writer_append w buf ip len = Some (True, w') \<and>
        w_becomes w w' (w_out w @ take (unat len) (drop ip buf))"
    and "w_op_limit w < w_op w + unat len \<Longrightarrow> writer_append w buf ip len = Some (False, w)"
proof -
  let ?src = "take (unat len) (drop ip buf)"
  assume fits: "w_op w + unat len \<le> w_op_limit w"
  have src: "length ?src = unat len" using assms(2) by simp
  obtain m where m: "mem_write (w_mem w) (w_op w) ?src = Some m"
    using assms(1) fits src by (auto simp: mem_write_def w_ok_def)
  have "take (w_op w + unat len) m = w_out w @ ?src"
    using mem_write_prefix [OF m] src by (simp add: w_out_def)
  then have "w_becomes w (w\<lparr>w_mem := m, w_op := w_op w + unat len\<rparr>) (w_out w @ ?src)"
    using assms(1) fits mem_write_length [OF m] by (intro w_becomesI) simp_all
  moreover have "\<not> (word_of_nat (w_op_limit w - w_op w) :: u32) < len"
    using fits space_left [OF assms(1)] by (simp add: word_less_nat_alt)
  ultimately show "\<exists>w'. writer_append w buf ip len = Some (True, w') \<and>
      w_becomes w w' (w_out w @ ?src)"
    using assms m by (simp add: writer_append_def mem_read_Some Let_def)
next
  assume "w_op_limit w < w_op w + unat len"
  then have "(word_of_nat (w_op_limit w - w_op w) :: u32) < len"
    using space_left [OF assms(1)] assms(1) by (auto simp: word_less_nat_alt w_ok_def)
  then show "writer_append w buf ip len = Some (False, w)"
    by (simp add: writer_append_def)
qed

text \<open>The fast path appends what the slow one does, and is not taken or succeeds.\<close>

lemma writer_try_fast_append_ok:
  assumes "w_ok w" and "ip + unat avail \<le> length buf" and "0 < len"
  shows "(\<exists>w'. writer_try_fast_append w buf ip avail len = Some (True, w') \<and>
        len \<le> 16 \<and> len \<le> avail \<and> w_op w + unat len \<le> w_op_limit w \<and>
        w_becomes w w' (w_out w @ take (unat len) (drop ip buf))) \<or>
    writer_try_fast_append w buf ip avail len = Some (False, w)"
proof (cases "len \<le> 16 \<and> 16 \<le> avail \<and>
    16 \<le> sint (word_of_nat (w_op_limit w - w_op w) :: u32)")
  case True
  let ?op = "w_op w" and ?m = "w_mem w"
  have room: "?op + 16 \<le> w_op_limit w" "ip + 16 \<le> length buf" "unat len \<le> 16"
    using True assms(2) space_left [OF assms(1)]
      sint_le_unat [of "word_of_nat (w_op_limit w - ?op) :: u32"] by (auto simp: word_le_nat_alt)
  let ?a = "take 8 (drop ip buf)" and ?b = "take 8 (drop (ip + 8) buf)"
  obtain m1 where m1: "mem_write ?m ?op ?a = Some m1"
    using room assms(1) by (auto simp: mem_write_def w_ok_def)
  note l1 = mem_write_length [OF m1]
  obtain m2 where m2: "mem_write m1 (?op + 8) ?b = Some m2"
    using room assms(1) l1 by (auto simp: mem_write_def w_ok_def)
  note l2 = mem_write_length [OF m2]
  have "take (?op + 16) m2 = take ?op ?m @ ?a @ ?b"
    using mem_write_prefix [OF m1] mem_write_prefix [OF m2] room by (simp add: add.commute)
  also have "?a @ ?b = take 16 (drop ip buf)"
    using take_add [of 8 8 "drop ip buf"] by (simp add: add.commute)
  finally have "take (?op + 16) m2 = w_out w @ take 16 (drop ip buf)"
    by (simp add: w_out_def)
  then have "take (?op + unat len) (take (?op + 16) m2) =
      take (?op + unat len) (w_out w @ take 16 (drop ip buf))"
    by simp
  then have "take (?op + unat len) m2 = w_out w @ take (unat len) (drop ip buf)"
    using room assms(1) by (simp add: min_def)
  then have "w_becomes w (w\<lparr>w_mem := m2, w_op := ?op + unat len\<rparr>)
      (w_out w @ take (unat len) (drop ip buf))"
    using assms(1) room l1 l2 by (intro w_becomesI) simp_all
  then have "\<exists>w'. writer_try_fast_append w buf ip avail len = Some (True, w') \<and>
        w_becomes w w' (w_out w @ take (unat len) (drop ip buf))"
    using True room m1 m2
    by (simp add: writer_try_fast_append_def Let_def LOAD64_Some STORE64_LOAD64)
  moreover have "len \<le> avail" using True by (auto intro: order_trans)
  ultimately show ?thesis using True room by auto
next
  case False
  then show ?thesis by (auto simp: writer_try_fast_append_def Let_def)
qed

lemma copy_by_8_16:
  "copy_by_8 m src op 16 = do {
     v \<leftarrow> UNALIGNED_LOAD64 m src;
     m1 \<leftarrow> UNALIGNED_STORE64 m op v;
     v' \<leftarrow> UNALIGNED_LOAD64 m1 (src + 8);
     UNALIGNED_STORE64 m1 (op + 8) v' }"
proof -
  have 0: "copy_by_8 m src op 0 = Some m" for m src op by (simp add: copy_by_8.simps)
  have "copy_by_8 m src op 8 = do {
      v \<leftarrow> UNALIGNED_LOAD64 m src; UNALIGNED_STORE64 m op v }" for m src op
    by (subst copy_by_8.simps) (simp add: 0)
  then show ?thesis by (subst copy_by_8.simps) simp
qed

lemma copy_16_ok:
  assumes "w_ok w" and "8 \<le> off" "off \<le> w_op w" "len \<le> 16" "w_op w + 16 \<le> w_op_limit w"
  shows "\<exists>m'. copy_by_8 (w_mem w) (w_op w - off) (w_op w) 16 = Some m' \<and>
    length m' = length (w_mem w) \<and> take (w_op w + len) m' = copy_self len off (w_out w)"
proof -
  let ?src = "w_op w - off"
  have r0: "repeats (w_mem w) ?src off (w_mem w) (w_op w)"
    using assms by (intro repeats_start) simp_all
  obtain m' e where c: "copy_by_8 (w_mem w) ?src (w_op w) 16 = Some m'"
    and e: "int (w_op w) + 16 \<le> int e" and r: "repeats (w_mem w) ?src off m' e"
    using copy_by_8_ok [OF r0 order_refl, of 16] assms by (auto simp: w_ok_def)
  have r': "repeats (w_mem w) ?src off m' (w_op w + len)"
    using r e assms by (auto simp: repeats_def)
  have "take (?src + off + len) m' = copy_self len off (take (?src + off) (w_mem w))"
    by (rule repeats_copy_self [OF r']) (use assms in \<open>auto simp: w_ok_def\<close>)
  then show ?thesis using c r assms by (auto simp: repeats_def w_out_def)
qed

lemma writer_append_from_self_ok:
  assumes w: "w_ok w" and len: "0 < len" "len \<le> 64"
  shows "offset \<noteq> 0 \<and> unat offset \<le> w_op w \<and> w_op w + unat len \<le> w_op_limit w \<Longrightarrow>
      \<exists>w'. writer_append_from_self w offset len = Some (True, w') \<and>
        w_becomes w w' (copy_self (unat len) (unat offset) (w_out w))"
    and "\<not> (offset \<noteq> 0 \<and> unat offset \<le> w_op w \<and> w_op w + unat len \<le> w_op_limit w) \<Longrightarrow>
      writer_append_from_self w offset len = Some (False, w)"
proof -
  let ?op = "w_op w" and ?sl = "word_of_nat (w_op_limit w - w_op w) :: u32"
  note sl = space_left [OF w]
  have range: "?op \<le> unat (offset - 1) \<longleftrightarrow> offset = 0 \<or> ?op < unat offset"
  proof (cases "offset = 0")
    case True
    have "?op \<le> unat (- 1 :: u32)" using w by (auto simp: w_ok_def unsigned_minus_1_eq_mask
          mask_eq_exp_minus_1)
    then show ?thesis using True by simp
  next
    case False
    then have "unat (offset - 1) = unat offset - 1" "0 < unat offset"
      by (simp_all add: unat_minus_one unat_gt_0)
    then show ?thesis using False by auto
  qed
  have ten: "len + word_of_nat kmax_increment_copy_overflow \<le> ?sl \<longleftrightarrow>
      unat len + 10 \<le> w_op_limit w - ?op"
  proof -
    have "unat (len + 10) = unat len + 10"
      using len(2) by (subst unat_add_lem [THEN iffD1]) (auto simp: word_le_nat_alt)
    then show ?thesis using sl by (simp add: kmax_increment_copy_overflow_def word_le_nat_alt)
  qed
  have cmp: "?sl < len \<longleftrightarrow> w_op_limit w - ?op < unat len" "16 \<le> ?sl \<longleftrightarrow> 16 \<le> w_op_limit w - ?op"
    "8 \<le> offset \<longleftrightarrow> 8 \<le> unat offset" "len \<le> 16 \<longleftrightarrow> unat len \<le> 16" "0 < unat len"
    using sl len(1) by (simp_all add: word_less_nat_alt word_le_nat_alt)
  show "\<exists>w'. writer_append_from_self w offset len = Some (True, w') \<and>
        w_becomes w w' (copy_self (unat len) (unat offset) (w_out w))"
    if fits: "offset \<noteq> 0 \<and> unat offset \<le> w_op w \<and> w_op w + unat len \<le> w_op_limit w"
  proof -
    have "\<exists>m. length m = length (w_mem w) \<and>
        take (?op + unat len) m = copy_self (unat len) (unat offset) (w_out w) \<and>
        writer_append_from_self w offset len = Some (True, w\<lparr>w_mem := m, w_op := ?op + unat len\<rparr>)"
    proof (cases "len \<le> 16 \<and> 8 \<le> offset \<and> 16 \<le> ?sl")
      case True
      have "?op + 16 \<le> w_op_limit w" using True cmp(2) by linarith
      with True obtain m where "copy_by_8 (w_mem w) (?op - unat offset) ?op 16 = Some m"
        "length m = length (w_mem w)"
        "take (?op + unat len) m = copy_self (unat len) (unat offset) (w_out w)"
        using copy_16_ok [OF w, of "unat offset" "unat len"] fits cmp by auto
      then show ?thesis using True range fits
        by (auto simp: writer_append_from_self_def Let_def copy_by_8_16 split: bind_splits)
    next
      case False
      show ?thesis
      proof (cases "unat len + 10 \<le> w_op_limit w - ?op")
        case True
        then have "?op + unat len + 10 \<le> w_op_limit w" using cmp(5) by linarith
        then have "?op + unat len + 10 \<le> length (w_mem w)" using w by (simp add: w_ok_def)
        then obtain m where
          "incremental_copy_fast_path (w_mem w) (?op - unat offset) ?op (unat len) = Some m"
          "length m = length (w_mem w)"
          "take (?op + unat len) m = copy_self (unat len) (unat offset) (w_out w)"
          using incremental_copy_fast_path_ok [of "unat offset" ?op "unat len" "w_mem w"]
            cmp(5) fits by (auto simp: w_out_def unat_gt_0)
        moreover have "\<not> (len \<le> 16 \<and> 8 \<le> offset \<and> 16 \<le> ?sl)" by (fact False)
        ultimately show ?thesis
          using True range ten fits
          by (intro exI [of _ m]) (auto simp: writer_append_from_self_def Let_def simp del: of_nat_diff)
      next
        case long: False
        have "?op + unat len \<le> length (w_mem w)" using w fits by (simp add: w_ok_def)
        then obtain m where
          "incremental_copy (w_mem w) (?op - unat offset) ?op (unat len) = Some m"
          "length m = length (w_mem w)"
          "take (?op + unat len) m = copy_self (unat len) (unat offset) (w_out w)"
          using incremental_copy_ok [of "unat offset" ?op "unat len" "w_mem w"]
            cmp(5) fits by (auto simp: w_out_def unat_gt_0)
        moreover have "\<not> w_op_limit w - ?op < unat len" using fits by linarith
        with cmp(1) have "\<not> ?sl < len" by blast
        moreover have "\<not> (len \<le> 16 \<and> 8 \<le> offset \<and> 16 \<le> ?sl)" by (fact False)
        ultimately show ?thesis
          using long range ten fits
          by (intro exI [of _ m]) (auto simp: writer_append_from_self_def Let_def simp del: of_nat_diff)
      qed
    qed
    then show ?thesis using w fits by (auto intro: w_becomesI)
  qed
  show "writer_append_from_self w offset len = Some (False, w)"
    if "\<not> (offset \<noteq> 0 \<and> unat offset \<le> w_op w \<and> w_op w + unat len \<le> w_op_limit w)"
    using that range ten cmp w
    by (auto simp: writer_append_from_self_def Let_def w_ok_def)
qed

end
