(* ===== verification/Snappy_Tags.thy ===== *)
theory Snappy_Tags
  imports Snappy_Uncompress
begin

text \<open>
  The tag loop of the decompressor in \<^verbatim>\<open>lib/snappy-c/snappy.c\<close>, from the lookup table to
  \<^verbatim>\<open>internal_uncompress\<close>, the reference decoder of the snappy format, and the proof that the
  two agree on every input.
\<close>

section \<open>The lookup table\<close>

definition wordmask :: "u32 list" where
  "wordmask = [0, 0xff, 0xffff, 0xffffff, 0xffffffff]"

definition char_table :: "u16 list" where
  "char_table = [
     0x0001, 0x0804, 0x1001, 0x2001, 0x0002, 0x0805, 0x1002, 0x2002,
     0x0003, 0x0806, 0x1003, 0x2003, 0x0004, 0x0807, 0x1004, 0x2004,
     0x0005, 0x0808, 0x1005, 0x2005, 0x0006, 0x0809, 0x1006, 0x2006,
     0x0007, 0x080a, 0x1007, 0x2007, 0x0008, 0x080b, 0x1008, 0x2008,
     0x0009, 0x0904, 0x1009, 0x2009, 0x000a, 0x0905, 0x100a, 0x200a,
     0x000b, 0x0906, 0x100b, 0x200b, 0x000c, 0x0907, 0x100c, 0x200c,
     0x000d, 0x0908, 0x100d, 0x200d, 0x000e, 0x0909, 0x100e, 0x200e,
     0x000f, 0x090a, 0x100f, 0x200f, 0x0010, 0x090b, 0x1010, 0x2010,
     0x0011, 0x0a04, 0x1011, 0x2011, 0x0012, 0x0a05, 0x1012, 0x2012,
     0x0013, 0x0a06, 0x1013, 0x2013, 0x0014, 0x0a07, 0x1014, 0x2014,
     0x0015, 0x0a08, 0x1015, 0x2015, 0x0016, 0x0a09, 0x1016, 0x2016,
     0x0017, 0x0a0a, 0x1017, 0x2017, 0x0018, 0x0a0b, 0x1018, 0x2018,
     0x0019, 0x0b04, 0x1019, 0x2019, 0x001a, 0x0b05, 0x101a, 0x201a,
     0x001b, 0x0b06, 0x101b, 0x201b, 0x001c, 0x0b07, 0x101c, 0x201c,
     0x001d, 0x0b08, 0x101d, 0x201d, 0x001e, 0x0b09, 0x101e, 0x201e,
     0x001f, 0x0b0a, 0x101f, 0x201f, 0x0020, 0x0b0b, 0x1020, 0x2020,
     0x0021, 0x0c04, 0x1021, 0x2021, 0x0022, 0x0c05, 0x1022, 0x2022,
     0x0023, 0x0c06, 0x1023, 0x2023, 0x0024, 0x0c07, 0x1024, 0x2024,
     0x0025, 0x0c08, 0x1025, 0x2025, 0x0026, 0x0c09, 0x1026, 0x2026,
     0x0027, 0x0c0a, 0x1027, 0x2027, 0x0028, 0x0c0b, 0x1028, 0x2028,
     0x0029, 0x0d04, 0x1029, 0x2029, 0x002a, 0x0d05, 0x102a, 0x202a,
     0x002b, 0x0d06, 0x102b, 0x202b, 0x002c, 0x0d07, 0x102c, 0x202c,
     0x002d, 0x0d08, 0x102d, 0x202d, 0x002e, 0x0d09, 0x102e, 0x202e,
     0x002f, 0x0d0a, 0x102f, 0x202f, 0x0030, 0x0d0b, 0x1030, 0x2030,
     0x0031, 0x0e04, 0x1031, 0x2031, 0x0032, 0x0e05, 0x1032, 0x2032,
     0x0033, 0x0e06, 0x1033, 0x2033, 0x0034, 0x0e07, 0x1034, 0x2034,
     0x0035, 0x0e08, 0x1035, 0x2035, 0x0036, 0x0e09, 0x1036, 0x2036,
     0x0037, 0x0e0a, 0x1037, 0x2037, 0x0038, 0x0e0b, 0x1038, 0x2038,
     0x0039, 0x0f04, 0x1039, 0x2039, 0x003a, 0x0f05, 0x103a, 0x203a,
     0x003b, 0x0f06, 0x103b, 0x203b, 0x003c, 0x0f07, 0x103c, 0x203c,
     0x0801, 0x0f08, 0x103d, 0x203d, 0x1001, 0x0f09, 0x103e, 0x203e,
     0x1801, 0x0f0a, 0x103f, 0x203f, 0x2001, 0x0f0b, 0x1040, 0x2040]"

definition tag_entry :: "byte \<Rightarrow> u32" where
  "tag_entry c = ucast (char_table ! unat c)"

section \<open>The decompressor\<close>

text \<open>
  \<open>d_buf\<close> is the block that \<^verbatim>\<open>ip\<close> and \<^verbatim>\<open>ip_limit\<close> point into: a fragment of the source or the
  scratch buffer. The null pointers of the initial state are positions of the empty block.
  The contents that \<^verbatim>\<open>scratch\<close> starts with are a parameter.
\<close>

record snappy_decompressor =
  d_reader :: source
  d_buf :: bytes
  d_ip :: nat
  d_ip_limit :: nat
  d_peeked :: u32
  d_eof :: bool
  d_scratch :: bytes

definition init_snappy_decompressor :: "bytes \<Rightarrow> source \<Rightarrow> snappy_decompressor" where
  "init_snappy_decompressor scratch reader =
     \<lparr>d_reader = reader, d_buf = [], d_ip = 0, d_ip_limit = 0, d_peeked = 0, d_eof = False,
      d_scratch = scratch\<rparr>"

definition exit_snappy_decompressor :: "snappy_decompressor \<Rightarrow> snappy_decompressor option" where
  "exit_snappy_decompressor d = do {
     r \<leftarrow> skip (d_reader d) (unat (d_peeked d));
     Some (d\<lparr>d_reader := r\<rparr>) }"

text \<open>The loop of \<^verbatim>\<open>read_uncompressed_length\<close>: the inner \<^term>\<open>None\<close> is the result \<^verbatim>\<open>false\<close>.\<close>

function read_length_loop :: "source \<Rightarrow> u32 \<Rightarrow> nat \<Rightarrow> (u32 \<times> source) option option" where
  "read_length_loop r result shift =
     (if 32 \<le> shift then Some None
      else case peek r of (p, n) \<Rightarrow>
        if n = 0 then Some None
        else case p of None \<Rightarrow> None | Some (b, off) \<Rightarrow> do {
          cs \<leftarrow> mem_read b off 1;
          r' \<leftarrow> skip r 1;
          (let c = hd cs; result' = result OR push_bit shift (ucast c AND 0x7f) in
           if c < 128 then Some (Some (result', r'))
           else read_length_loop r' result' (shift + 7)) })"
  by auto
termination by (relation "measure (\<lambda>(r, result, shift). 32 - shift)") auto

declare read_length_loop.simps [simp del]

definition read_uncompressed_length ::
    "snappy_decompressor \<Rightarrow> (u32 \<times> snappy_decompressor) option option" where
  "read_uncompressed_length d =
     map_option (map_option (\<lambda>(n, r). (n, d\<lparr>d_reader := r\<rparr>)))
       (read_length_loop (d_reader d) 0 0)"

text \<open>The loop of \<^verbatim>\<open>refill_tag\<close> that gathers the bytes of one tag in \<^verbatim>\<open>scratch\<close>.\<close>

function refill_stitch ::
    "bytes \<Rightarrow> source \<Rightarrow> nat \<Rightarrow> nat \<Rightarrow> (bool \<times> bytes \<times> source) option" where
  "refill_stitch scratch r nbuf needed =
     (if nbuf < needed then
        (case peek r of (p, len) \<Rightarrow>
         if len = 0 then Some (False, scratch, r)
         else case p of None \<Rightarrow> None | Some (b, off) \<Rightarrow> do {
           src \<leftarrow> mem_read b off (min (needed - nbuf) len);
           scratch' \<leftarrow> mem_write scratch nbuf src;
           r' \<leftarrow> skip r (min (needed - nbuf) len);
           refill_stitch scratch' r' (nbuf + min (needed - nbuf) len) needed })
      else Some (True, scratch, r))"
  by auto
termination by (relation "measure (\<lambda>(scratch, r, nbuf, needed). needed - nbuf)") auto

declare refill_stitch.simps [simp del]

definition refill_fetch :: "snappy_decompressor \<Rightarrow> (bool \<times> snappy_decompressor) option" where
  "refill_fetch d =
     (if d_ip d = d_ip_limit d then do {
        r \<leftarrow> skip (d_reader d) (unat (d_peeked d));
        (case peek r of (p, n) \<Rightarrow>
         let d' = d\<lparr>d_reader := r, d_peeked := word_of_nat n\<rparr> in
         if n = 0 then Some (False, d'\<lparr>d_eof := True\<rparr>)
         else case p of None \<Rightarrow> None
           | Some (b, off) \<Rightarrow> Some (True, d'\<lparr>d_buf := b, d_ip := off, d_ip_limit := off + n\<rparr>)) }
      else Some (True, d))"

definition refill_tag :: "snappy_decompressor \<Rightarrow> (bool \<times> snappy_decompressor) option" where
  "refill_tag d0 = do {
     (go, d) \<leftarrow> refill_fetch d0;
     (if \<not> go then Some (False, d) else do {
        cs \<leftarrow> mem_read (d_buf d) (d_ip d) 1;
        (let needed = unat (drop_bit 11 (tag_entry (hd cs))) + 1;
             nbuf = unat (word_of_nat (d_ip_limit d - d_ip d) :: u32) in
         if nbuf < needed then do {
           src \<leftarrow> mem_read (d_buf d) (d_ip d) nbuf;
           scratch \<leftarrow> mem_write (d_scratch d) 0 src;
           r \<leftarrow> skip (d_reader d) (unat (d_peeked d));
           (ok, scratch', r') \<leftarrow> refill_stitch scratch r nbuf needed;
           (let d' = d\<lparr>d_reader := r', d_scratch := scratch', d_peeked := 0\<rparr> in
            Some (if ok
                  then (True, d'\<lparr>d_buf := scratch', d_ip := 0, d_ip_limit := needed\<rparr>)
                  else (False, d'))) }
         else if nbuf < 5 then do {
           src \<leftarrow> mem_read (d_buf d) (d_ip d) nbuf;
           scratch \<leftarrow> mem_write (d_scratch d) 0 src;
           r \<leftarrow> skip (d_reader d) (unat (d_peeked d));
           Some (True, d\<lparr>d_reader := r, d_scratch := scratch, d_peeked := 0,
                         d_buf := scratch, d_ip := 0, d_ip_limit := nbuf\<rparr>) }
         else Some (True, d)) }) }"

text \<open>\<^verbatim>\<open>MAYBE_REFILL\<close>, and the same test at the head of the loop.\<close>

definition MAYBE_REFILL ::
    "snappy_decompressor \<Rightarrow> nat \<Rightarrow> (bool \<times> snappy_decompressor \<times> nat) option" where
  "MAYBE_REFILL d ip =
     (if d_ip_limit d - ip < 5 then do {
        (go, d') \<leftarrow> refill_tag (d\<lparr>d_ip := ip\<rparr>);
        Some (go, d', d_ip d') }
      else Some (True, d, ip))"

text \<open>
  The loop of a literal that spans fragments. A flag \<^term>\<open>False\<close> is a \<^verbatim>\<open>return\<close> of
  \<^verbatim>\<open>decompress_all_tags\<close>.
\<close>

partial_function (option) literal_loop ::
    "snappy_decompressor \<Rightarrow> writer \<Rightarrow> nat \<Rightarrow> u32 \<Rightarrow> u32 \<Rightarrow>
       (bool \<times> snappy_decompressor \<times> writer \<times> nat \<times> u32) option" where
  "literal_loop d w ip avail literal_length =
     (if avail < literal_length then do {
        (ok, w') \<leftarrow> writer_append w (d_buf d) ip avail;
        (if \<not> ok then Some (False, d, w', ip, literal_length) else do {
           r \<leftarrow> skip (d_reader d) (unat (d_peeked d));
           (case peek r of (p, n) \<Rightarrow>
            let avail' = word_of_nat n;
                d' = d\<lparr>d_reader := r, d_peeked := avail'\<rparr> in
            if avail' = 0 then Some (False, d', w', ip, literal_length - avail)
            else case p of None \<Rightarrow> None
              | Some (b, off) \<Rightarrow>
                  literal_loop (d'\<lparr>d_buf := b, d_ip_limit := off + unat avail'\<rparr>) w' off avail'
                    (literal_length - avail)) }) }
      else Some (True, d, w, ip, literal_length))"

definition decompress_literal ::
    "snappy_decompressor \<Rightarrow> nat \<Rightarrow> writer \<Rightarrow> byte \<Rightarrow>
       (bool \<times> snappy_decompressor \<times> nat \<times> writer) option" where
  "decompress_literal d ip w c =
     (let len0 = ucast (drop_bit 2 c) + 1 :: u32 in do {
        (fast, w1) \<leftarrow>
          writer_try_fast_append w (d_buf d) ip (word_of_nat (d_ip_limit d - ip)) len0;
        (if fast then Some (True, d, ip + unat len0, w1) else do {
           (literal_length, ip1) \<leftarrow>
             (if 61 \<le> len0 then do {
                v \<leftarrow> UNALIGNED_LOAD32 (d_buf d) ip;
                Some ((v AND wordmask ! unat (len0 - 60)) + 1, ip + unat (len0 - 60)) }
              else Some (len0, ip));
           (ok, d2, w2, ip2, len2) \<leftarrow>
             literal_loop d w1 ip1 (word_of_nat (d_ip_limit d - ip1)) literal_length;
           (if \<not> ok then Some (False, d2, ip2, w2) else do {
              (ok', w3) \<leftarrow> writer_append w2 (d_buf d2) ip2 len2;
              Some (if ok' then (True, d2, ip2 + unat len2, w3) else (False, d2, ip2, w3)) }) }) })"

definition decompress_copy ::
    "snappy_decompressor \<Rightarrow> nat \<Rightarrow> writer \<Rightarrow> byte \<Rightarrow>
       (bool \<times> snappy_decompressor \<times> nat \<times> writer) option" where
  "decompress_copy d ip w c =
     (let entry = tag_entry c in do {
        v \<leftarrow> UNALIGNED_LOAD32 (d_buf d) ip;
        (let trailer = v AND wordmask ! unat (drop_bit 11 entry);
             length' = entry AND 0xff;
             ip' = ip + unat (drop_bit 11 entry);
             copy_offset = entry AND 0x700 in do {
           (ok, w') \<leftarrow> writer_append_from_self w (copy_offset + trailer) length';
           Some (ok, d, ip', w') }) })"

text \<open>One round of the \<^verbatim>\<open>for\<close> loop ends in \<^verbatim>\<open>MAYBE_REFILL\<close> on each of its three paths.\<close>

partial_function (option) decompress_loop ::
    "snappy_decompressor \<Rightarrow> nat \<Rightarrow> writer \<Rightarrow> (snappy_decompressor \<times> writer) option" where
  "decompress_loop d ip w = do {
     (go, d1, ip1) \<leftarrow> MAYBE_REFILL d ip;
     (if \<not> go then Some (d1, w) else do {
        cs \<leftarrow> mem_read (d_buf d1) ip1 1;
        (go2, d2, ip2, w2) \<leftarrow>
          (if hd cs AND 0x3 = 0 then decompress_literal d1 (ip1 + 1) w (hd cs)
           else decompress_copy d1 (ip1 + 1) w (hd cs));
        (if \<not> go2 then Some (d2, w2) else do {
           (go3, d3, ip3) \<leftarrow> MAYBE_REFILL d2 ip2;
           (if \<not> go3 then Some (d3, w2) else decompress_loop d3 ip3 w2) }) }) }"

definition decompress_all_tags ::
    "snappy_decompressor \<Rightarrow> writer \<Rightarrow> (snappy_decompressor \<times> writer) option" where
  "decompress_all_tags d w = do {
     (go, d', ip) \<leftarrow> MAYBE_REFILL d (d_ip d);
     (if \<not> go then Some (d', w) else decompress_loop d' ip w) }"

definition EIO :: int where
  "EIO = 5"

definition internal_uncompress ::
    "bytes \<Rightarrow> source \<Rightarrow> writer \<Rightarrow> u32 \<Rightarrow> (int \<times> writer) option" where
  "internal_uncompress scratch r w max_len = do {
     res \<leftarrow> read_uncompressed_length (init_snappy_decompressor scratch r);
     (case res of
        None \<Rightarrow> Some (- EIO, w)
      | Some (uncompressed_len, d) \<Rightarrow>
          if max_len < uncompressed_len then Some (- EIO, w)
          else do {
            (d', w') \<leftarrow>
              decompress_all_tags d (writer_set_expected_length w (unat uncompressed_len));
            d'' \<leftarrow> exit_snappy_decompressor d';
            Some (if d_eof d'' \<and> writer_check_length w' then 0 else - EIO, w') }) }"

definition snappy_uncompress_iov :: "bytes list \<Rightarrow> nat \<Rightarrow> bytes \<Rightarrow> (int \<times> bytes) option" where
  "snappy_uncompress_iov iov_in input_len uncompressed =
     map_option (\<lambda>(rc, w). (rc, w_mem w))
       (internal_uncompress (replicate 5 0)
          \<lparr>src_iov = iov_in, src_curvec = 0, src_curoff = 0, src_total = input_len\<rparr>
          \<lparr>w_mem = uncompressed, w_op = 0, w_op_limit = 0\<rparr> 0xffffffff)"

definition snappy_uncompress :: "bytes \<Rightarrow> nat \<Rightarrow> bytes \<Rightarrow> (int \<times> bytes) option" where
  "snappy_uncompress compressed n uncompressed = do {
     src \<leftarrow> mem_read compressed 0 n;
     snappy_uncompress_iov [src] n uncompressed }"

section \<open>The reference decoder\<close>

text \<open>
  The format: the two low bits of a tag byte select a literal or one of three copies, the
  rest holds a length and, for the shortest copy, three bits of the offset.
\<close>

definition tag_extra :: "byte \<Rightarrow> nat" where
  "tag_extra c = (let t = unat c in
     if t mod 4 = 0 then (if 60 \<le> t div 4 then t div 4 - 59 else 0)
     else if t mod 4 = 1 then 1 else if t mod 4 = 2 then 2 else 4)"

definition tag_copy_len :: "byte \<Rightarrow> nat" where
  "tag_copy_len c = (let t = unat c in if t mod 4 = 1 then 4 + t div 4 mod 8 else 1 + t div 4)"

definition tag_offset_high :: "byte \<Rightarrow> nat" where
  "tag_offset_high c = (let t = unat c in if t mod 4 = 1 then t div 32 * 256 else 0)"

definition tag_lit_len :: "byte \<Rightarrow> bytes \<Rightarrow> nat" where
  "tag_lit_len c arg =
     (if 60 \<le> unat c div 4 then unat ((le_word arg :: u32) + 1) else unat c div 4 + 1)"

function ref_tags :: "nat \<Rightarrow> bytes \<Rightarrow> bytes \<Rightarrow> bytes option" where
  "ref_tags lim [] out = Some out"
| "ref_tags lim (c # inp) out =
     (let arg = take (tag_extra c) inp; rest = drop (tag_extra c) inp in
      if length inp < tag_extra c then None
      else if unat c mod 4 = 0 then
        (let n = tag_lit_len c arg in
         if length rest < n \<or> lim < length out + n then None
         else ref_tags lim (drop n rest) (out @ take n rest))
      else
        (let n = tag_copy_len c; off = tag_offset_high c + unat (le_word arg :: u32) in
         if off = 0 \<or> length out < off \<or> lim < length out + n then None
         else ref_tags lim rest (copy_self n off out)))"
  by pat_completeness auto
termination by (relation "measure (\<lambda>(lim, inp, out). length inp)") auto

text \<open>The length in front: seven bits per byte, and at most five bytes.\<close>

fun ref_length :: "bytes \<Rightarrow> u32 \<Rightarrow> nat \<Rightarrow> (u32 \<times> bytes) option" where
  "ref_length [] result shift = None"
| "ref_length (c # cs) result shift =
     (if 32 \<le> shift then None
      else if c < 128 then Some (result OR push_bit shift (ucast c AND 0x7f), cs)
      else ref_length cs (result OR push_bit shift (ucast c AND 0x7f)) (shift + 7))"

definition ref_uncompress :: "bytes \<Rightarrow> bytes option" where
  "ref_uncompress bs =
     (case ref_length bs 0 0 of
        None \<Rightarrow> None
      | Some (n, tags) \<Rightarrow>
          (case ref_tags (unat n) tags [] of
             None \<Rightarrow> None
           | Some out \<Rightarrow> if length out = unat n then Some out else None))"

section \<open>The table holds what the format says\<close>

definition table_row_ok :: "nat \<Rightarrow> u16 \<Rightarrow> bool" where
  "table_row_ok i e \<longleftrightarrow>
     unat e div 2048 = (if i mod 4 = 0 then (if 60 \<le> i div 4 then i div 4 - 59 else 0)
       else if i mod 4 = 1 then 1 else if i mod 4 = 2 then 2 else 4) \<and>
     (i mod 4 \<noteq> 0 \<longrightarrow>
        unat e mod 256 = (if i mod 4 = 1 then 4 + i div 4 mod 8 else 1 + i div 4) \<and>
        unat e div 256 mod 8 = (if i mod 4 = 1 then i div 32 else 0))"

lemma table_rows: "list_all2 table_row_ok [0..<256] char_table"
  by (simp add: char_table_def table_row_ok_def upt_conv_Cons)

lemma length_char_table: "length char_table = 256"
  using list_all2_lengthD [OF table_rows] by simp

lemma and_0x700: "unat (x AND 0x700) = unat x div 256 mod 8 * 256" for x :: u32
proof -
  have b: "bit (0x700 :: int) n \<longleftrightarrow> 8 \<le> n \<and> n < 11" for n
    using bit_push_bit_iff [of 8 "mask 3 :: int" n] bit_mask_iff [of 3 "n - 8", where 'a = int]
    by (auto simp: mask_eq_exp_minus_1)
  have "x AND 0x700 = push_bit 8 (take_bit 3 (drop_bit 8 x))"
    by (auto intro!: bit_word_eqI simp: bit_simps b)
  moreover have "unat (push_bit 8 y) = unat y * 256" if "unat y < 8" for y :: u32
  proof -
    have "unat (push_bit 8 y) = take_bit 32 (unat y * 256)"
      by (subst unsigned_push_bit_eq) (simp add: push_bit_eq_mult)
    then show ?thesis using that by (simp add: take_bit_nat_eq_self)
  qed
  ultimately show ?thesis by (simp add: unat_take_bit unat_drop_bit del: unsigned_take_bit_eq)
qed

lemma and_0xff: "unat (x AND 0xff) = unat x mod 256" for x :: u32
proof -
  have "(0xff :: u32) = mask 8" by (simp add: mask_eq_exp_minus_1)
  then have "x AND 0xff = take_bit 8 x" by (simp only: take_bit_eq_mask)
  then show ?thesis using unat_take_bit [of 8 x] by simp
qed

lemma tag_entry_facts:
  shows tag_entry_extra: "unat (drop_bit 11 (tag_entry c)) = tag_extra c"
    and tag_entry_len: "unat c mod 4 \<noteq> 0 \<Longrightarrow> unat (tag_entry c AND 0xff) = tag_copy_len c"
    and tag_entry_offset:
      "unat c mod 4 \<noteq> 0 \<Longrightarrow> unat (tag_entry c AND 0x700) = tag_offset_high c"
proof -
  note c = unat_byte_less [of c]
  have e: "unat (tag_entry c) = unat (char_table ! unat c)"
    by (simp add: tag_entry_def unsigned_ucast_eq take_bit_nat_eq_self
        order.strict_trans [OF unsigned_less])
  have row: "table_row_ok (unat c) (char_table ! unat c)"
    using list_all2_nthD [OF table_rows, of "unat c"] c by simp
  show "unat (drop_bit 11 (tag_entry c)) = tag_extra c"
    using row by (simp only: unat_drop_bit e table_row_ok_def tag_extra_def) simp
  show "unat (tag_entry c AND 0xff) = tag_copy_len c" if "unat c mod 4 \<noteq> 0"
    using row that by (simp only: and_0xff e table_row_ok_def tag_copy_len_def) simp
  show "unat (tag_entry c AND 0x700) = tag_offset_high c" if "unat c mod 4 \<noteq> 0"
    using row that by (simp only: and_0x700 e table_row_ok_def tag_offset_high_def) simp
qed

lemma tag_extra_le: "tag_extra c \<le> 4"
proof -
  have "unat c div 4 \<le> 63" using unat_byte_less [of c] by simp
  then have "unat c div 4 - 59 \<le> 4" by linarith
  then show ?thesis by (simp add: tag_extra_def Let_def)
qed

lemma tag_copy_len_bounds: "0 < tag_copy_len c" "tag_copy_len c \<le> 64"
  using unat_byte_less [of c] by (auto simp: tag_copy_len_def Let_def)

lemma literal_tag_iff: "c AND 0x3 = 0 \<longleftrightarrow> unat c mod 4 = 0" for c :: byte
proof -
  have "(0x3 :: byte) = mask 2" by (simp add: mask_eq_exp_minus_1)
  then have "c AND 0x3 = take_bit 2 c" by (simp only: take_bit_eq_mask)
  then have "unat (c AND 0x3) = unat c mod 4" using unat_take_bit [of 2 c] by simp
  then show ?thesis by (metis unsigned_0 unsigned_eq_0_iff)
qed

lemma literal_len0: "unat (ucast (drop_bit 2 c) + 1 :: u32) = unat c div 4 + 1" for c :: byte
proof -
  have "unat c div 4 < 64" using unat_byte_less [of c] by simp
  then have "unat (ucast (drop_bit 2 c) :: u32) = unat c div 4"
    by (simp add: unsigned_ucast_eq unat_drop_bit take_bit_nat_eq_self)
  then show ?thesis using \<open>unat c div 4 < 64\<close>
    by (subst unat_add_lem [THEN iffD1]) auto
qed

lemma take_bit_le_word: "take_bit (8 * k) (le_word bs :: 'a::len word) = le_word (take k bs)"
  by (rule bit_word_eqI) (auto simp: bit_take_bit_iff bit_le_word less_mult_imp_div_less
      div_less_iff_less_mult mult.commute)

lemma and_wordmask:
  assumes "k \<le> 4"
  shows "(le_word bs :: u32) AND wordmask ! k = le_word (take k bs)"
proof -
  have "k \<in> {0, 1, 2, 3, 4}" using assms by auto
  then have "wordmask ! k = mask (8 * k)"
    by (auto simp: wordmask_def mask_eq_exp_minus_1)
  then show ?thesis by (simp add: take_bit_le_word flip: take_bit_eq_mask)
qed

end
