(* ===== verification/Snappy_Decode.thy ===== *)
theory Snappy_Decode
  imports Snappy_Tags
begin

text \<open>
  The decompressor implements the reference decoder: on every source the detailed tag loop
  ends, stays inside its blocks and returns what \<open>ref_uncompress\<close> computes.
\<close>

section \<open>The state of the decompressor and the bytes it still has\<close>

definition d_rest :: "snappy_decompressor \<Rightarrow> nat \<Rightarrow> bytes" where
  "d_rest d ip = take (d_ip_limit d - ip) (drop ip (d_buf d)) @
     drop (unat (d_peeked d)) (src_rest (d_reader d))"

text \<open>What \<^verbatim>\<open>exit_snappy_decompressor\<close> needs, and the invariant of the loop.\<close>

definition d_exit_ok :: "snappy_decompressor \<Rightarrow> bool" where
  "d_exit_ok d \<longleftrightarrow> src_ok (d_reader d) \<and> unat (d_peeked d) \<le> snd (peek (d_reader d))"

definition d_ok :: "snappy_decompressor \<Rightarrow> nat \<Rightarrow> bool" where
  "d_ok d ip \<longleftrightarrow> d_exit_ok d \<and> ip \<le> d_ip_limit d \<and> d_ip_limit d \<le> length (d_buf d) \<and>
     length (d_scratch d) = 5 \<and> d_ip_limit d - ip < 2 ^ 32 \<and>
     length (src_rest (d_reader d)) < 2 ^ 32"

text \<open>A whole tag is in the buffer, and the word behind its first byte can be loaded.\<close>

definition d_ready :: "snappy_decompressor \<Rightarrow> nat \<Rightarrow> bool" where
  "d_ready d ip \<longleftrightarrow> ip + 5 \<le> length (d_buf d) \<and> ip < d_ip_limit d \<and>
     ip + tag_extra (d_buf d ! ip) < d_ip_limit d"

lemma d_exit_ok_skip:
  assumes "d_exit_ok d"
  obtains r where "skip (d_reader d) (unat (d_peeked d)) = Some r" "src_ok r"
    "src_rest r = drop (unat (d_peeked d)) (src_rest (d_reader d))"
  using skip_rest assms unfolding d_exit_ok_def by blast

lemma d_rest_nth:
  assumes "ip < d_ip_limit d" "d_ip_limit d \<le> length (d_buf d)"
  shows "d_rest d ip = d_buf d ! ip # d_rest d (Suc ip)"
proof -
  have "take (d_ip_limit d - ip) (drop ip (d_buf d)) =
      d_buf d ! ip # take (d_ip_limit d - Suc ip) (drop (Suc ip) (d_buf d))"
    using assms by (simp add: take_Cons' Cons_nth_drop_Suc [symmetric])
  then show ?thesis by (simp add: d_rest_def)
qed

lemma d_rest_forward:
  assumes "ip + n \<le> d_ip_limit d" "d_ip_limit d \<le> length (d_buf d)"
  shows "d_rest d (ip + n) = drop n (d_rest d ip)"
    and "take n (d_rest d ip) = take n (drop ip (d_buf d))"
proof -
  have n: "n \<le> d_ip_limit d - ip" "n \<le> length (d_buf d) - ip" using assms by linarith+
  then show "d_rest d (ip + n) = drop n (d_rest d ip)"
    using assms by (simp add: d_rest_def drop_take add.commute)
  show "take n (d_rest d ip) = take n (drop ip (d_buf d))"
    using n by (simp add: d_rest_def min_absorb1 min_absorb2)
qed

lemma d_rest_length:
  assumes "d_ip_limit d \<le> length (d_buf d)"
  shows "d_ip_limit d - ip \<le> length (d_rest d ip)"
  using assms by (simp add: d_rest_def)

section \<open>Refilling\<close>

text \<open>The stitching loop gathers the next bytes of the source behind the ones it has.\<close>

lemma refill_stitch_ok:
  assumes "src_ok r" and "nbuf \<le> needed" and "needed \<le> length scratch"
  shows "\<exists>ok scratch' r'. refill_stitch scratch r nbuf needed = Some (ok, scratch', r') \<and>
    src_ok r' \<and> length scratch' = length scratch \<and>
    (ok \<longleftrightarrow> needed - nbuf \<le> length (src_rest r)) \<and>
    (ok \<longrightarrow> take needed scratch' = take nbuf scratch @ take (needed - nbuf) (src_rest r) \<and>
       src_rest r' = drop (needed - nbuf) (src_rest r))"
  using assms
proof (induction "needed - nbuf" arbitrary: scratch r nbuf rule: less_induct)
  case less
  show ?case
  proof (cases "nbuf < needed \<and> snd (peek r) \<noteq> 0")
    case False
    then show ?thesis
      using less.prems peek_rest(1) [OF less.prems(1)]
      by (subst refill_stitch.simps) (auto split: prod.split)
  next
    case True
    define len where "len = snd (peek r)"
    define k where "k = min (needed - nbuf) len"
    obtain b off where p: "peek r = (Some (b, off), len)"
      and b: "off + len = length b" "drop off b = take len (src_rest r)"
      using peek_rest(3) [OF less.prems(1)] True len_def by (metis prod.collapse)
    have len: "0 < len" "len \<le> length (src_rest r)"
      using True peek_rest(2) [OF less.prems(1)] by (simp_all add: len_def)
    have k: "0 < k" "k \<le> len" "nbuf + k \<le> needed" using True len by (auto simp: k_def)
    have rd: "mem_read b off k = Some (take k (src_rest r))"
      using b k by (simp add: mem_read_def min_def)
    obtain sc where wr: "mem_write scratch nbuf (take k (src_rest r)) = Some sc"
      using less.prems k len by (auto simp: mem_write_def)
    have sc: "length sc = length scratch" "take (nbuf + k) sc = take nbuf scratch @ take k (src_rest r)"
      using mem_write_length [OF wr] mem_write_prefix [OF wr] k len by (simp_all add: min_absorb2)
    obtain r' where sk: "skip r k = Some r'" "src_ok r'" "src_rest r' = drop k (src_rest r)"
      using skip_rest [OF less.prems(1), of k] k len_def by auto
    have "\<exists>ok sc' r''. refill_stitch sc r' (nbuf + k) needed = Some (ok, sc', r'') \<and>
      src_ok r'' \<and> length sc' = length sc \<and> (ok \<longleftrightarrow> needed - (nbuf + k) \<le> length (src_rest r')) \<and>
      (ok \<longrightarrow> take needed sc' = take (nbuf + k) sc @ take (needed - (nbuf + k)) (src_rest r') \<and>
         src_rest r'' = drop (needed - (nbuf + k)) (src_rest r'))"
      using True k sk(2) sc(1) less.prems by (intro less.hyps) auto
    then obtain ok sc' r'' where IH: "refill_stitch sc r' (nbuf + k) needed = Some (ok, sc', r'')"
      "src_ok r''" "length sc' = length sc" "ok \<longleftrightarrow> needed - (nbuf + k) \<le> length (src_rest r')"
      "ok \<Longrightarrow> take needed sc' = take (nbuf + k) sc @ take (needed - (nbuf + k)) (src_rest r')"
      "ok \<Longrightarrow> src_rest r'' = drop (needed - (nbuf + k)) (src_rest r')"
      by blast
    have "take (needed - nbuf) (src_rest r) =
        take k (src_rest r) @ take (needed - (nbuf + k)) (drop k (src_rest r))"
      using k by (metis take_add diff_diff_left le_add_diff_inverse add_le_imp_le_diff add.commute)
    moreover have "refill_stitch scratch r nbuf needed = Some (ok, sc', r'')"
      using True p rd wr sk IH(1) len by (subst refill_stitch.simps) (simp flip: k_def)
    ultimately show ?thesis
      using IH(2-) sc sk k len by (auto simp: add.commute)
  qed
qed

lemma refill_fetch_ok:
  assumes "d_ok d (d_ip d)"
  shows "d_rest d (d_ip d) = [] \<Longrightarrow>
      \<exists>d'. refill_fetch d = Some (False, d') \<and> d_eof d' \<and> d_exit_ok d'"
    and "d_rest d (d_ip d) \<noteq> [] \<Longrightarrow>
      \<exists>d'. refill_fetch d = Some (True, d') \<and> d_ok d' (d_ip d') \<and> d_ip d' < d_ip_limit d' \<and>
        d_rest d' (d_ip d') = d_rest d (d_ip d) \<and> d_eof d' = d_eof d"
proof -
  let ?rest = "d_rest d (d_ip d)"
  obtain r where r: "skip (d_reader d) (unat (d_peeked d)) = Some r" "src_ok r"
    "src_rest r = drop (unat (d_peeked d)) (src_rest (d_reader d))"
    using assms d_exit_ok_skip unfolding d_ok_def by blast
  have short: "length (src_rest r) < 2 ^ 32" using r(3) assms by (auto simp: d_ok_def)
  have pk: "unat (word_of_nat (snd (peek r)) :: u32) = snd (peek r)"
    using peek_rest(2) [OF r(2)] short by (intro unat_of_nat32) simp
  show "\<exists>d'. refill_fetch d = Some (False, d') \<and> d_eof d' \<and> d_exit_ok d'" if "?rest = []"
  proof -
    have "d_ip d = d_ip_limit d" "src_rest r = []"
      using that assms r(3) by (auto simp: d_rest_def d_ok_def)
    then show ?thesis
      using r pk peek_rest(1) [OF r(2)]
      by (auto simp: refill_fetch_def d_exit_ok_def Let_def split: prod.split)
  qed
  show "\<exists>d'. refill_fetch d = Some (True, d') \<and> d_ok d' (d_ip d') \<and> d_ip d' < d_ip_limit d' \<and>
        d_rest d' (d_ip d') = ?rest \<and> d_eof d' = d_eof d" if rest: "?rest \<noteq> []"
  proof (cases "d_ip d = d_ip_limit d")
    case False
    then show ?thesis using assms by (auto simp: refill_fetch_def d_ok_def)
  next
    case True
    then have rest': "?rest = src_rest r" using r(3) by (simp add: d_rest_def)
    then have n: "snd (peek r) \<noteq> 0" using rest peek_rest(1) [OF r(2)] by simp
    obtain b off where p: "fst (peek r) = Some (b, off)" "off + snd (peek r) = length b"
      "drop off b = take (snd (peek r)) (src_rest r)"
      using peek_rest(3) [OF r(2) n] by blast
    let ?d = "d\<lparr>d_reader := r, d_peeked := word_of_nat (snd (peek r)), d_buf := b, d_ip := off,
        d_ip_limit := off + snd (peek r)\<rparr>"
    have "refill_fetch d = Some (True, ?d)"
      using True r(1) p(1) n by (cases "peek r") (simp add: refill_fetch_def Let_def)
    moreover have "d_ok ?d (d_ip ?d)"
      using assms r(2) pk p short peek_rest(2) [OF r(2)] by (simp add: d_ok_def d_exit_ok_def)
    moreover have "d_rest ?d (d_ip ?d) = ?rest"
      using rest' pk p(3) by (simp add: d_rest_def)
    ultimately show ?thesis using n by (intro exI [of _ ?d]) simp
  qed
qed

text \<open>
  With no bytes left the refill reports the end of the input; with too few for the next tag
  it fails; otherwise it makes the tag available and keeps the bytes to come.
\<close>

lemma refill_tag_ok:
  assumes ok: "d_ok d (d_ip d)"
  shows "d_rest d (d_ip d) = [] \<Longrightarrow>
      \<exists>d'. refill_tag d = Some (False, d') \<and> d_eof d' \<and> d_exit_ok d'"
    and "d_rest d (d_ip d) = c # inp \<Longrightarrow> length inp < tag_extra c \<Longrightarrow>
      \<exists>d'. refill_tag d = Some (False, d') \<and> d_eof d' = d_eof d \<and> d_exit_ok d'"
    and "d_rest d (d_ip d) = c # inp \<Longrightarrow> tag_extra c \<le> length inp \<Longrightarrow>
      \<exists>d'. refill_tag d = Some (True, d') \<and> d_eof d' = d_eof d \<and> d_ok d' (d_ip d') \<and>
        d_ready d' (d_ip d') \<and> d_rest d' (d_ip d') = c # inp"
proof -
  show "\<exists>d'. refill_tag d = Some (False, d') \<and> d_eof d' \<and> d_exit_ok d'"
    if "d_rest d (d_ip d) = []"
    using refill_fetch_ok(1) [OF ok that] by (auto simp: refill_tag_def)
next
  assume rest: "d_rest d (d_ip d) = c # inp"
  then obtain d1 where d1: "refill_fetch d = Some (True, d1)" "d_ok d1 (d_ip d1)"
    "d_ip d1 < d_ip_limit d1" "d_rest d1 (d_ip d1) = c # inp" "d_eof d1 = d_eof d"
    using refill_fetch_ok(2) [OF ok] by auto
  let ?ip = "d_ip d1" and ?n = "d_ip_limit d1 - d_ip d1" and ?k = "tag_extra c + 1"
  have lim: "d_ip_limit d1 \<le> length (d_buf d1)" and sc: "length (d_scratch d1) = 5"
    and n: "unat (word_of_nat ?n :: u32) = ?n"
    using d1(2) unat_of_nat32 [of ?n] by (auto simp: d_ok_def)
  have c: "d_buf d1 ! ?ip = c" "d_rest d1 (Suc ?ip) = inp"
    using d_rest_nth [OF d1(3) lim] d1(4) by auto
  have cs: "mem_read (d_buf d1) ?ip 1 = Some [c]"
    using d1(3) lim c(1) by (simp add: mem_read_def take_Suc_conv_app_nth)
  obtain r where r: "skip (d_reader d1) (unat (d_peeked d1)) = Some r" "src_ok r"
    "src_rest r = drop (unat (d_peeked d1)) (src_rest (d_reader d1))"
    using d1(2) d_exit_ok_skip unfolding d_ok_def by blast
  have all: "take ?n (drop ?ip (d_buf d1)) @ src_rest r = c # inp"
    using d1(4) r(3) by (simp add: d_rest_def)
  have short: "length (src_rest r) < 2 ^ 32" using r(3) d1(2) by (auto simp: d_ok_def)
  have total: "?n + length (src_rest r) = Suc (length inp)"
    using arg_cong [OF all, of length] lim by simp
  have k: "?k \<le> 5" using tag_extra_le [of c] by simp
  let ?have = "take ?n (drop ?ip (d_buf d1))"
  have rd: "mem_read (d_buf d1) ?ip ?n = Some ?have" and have_len: "length ?have = ?n"
    using lim d1(3) by (simp_all add: mem_read_def)
  have scr: "\<exists>s. mem_write (d_scratch d1) 0 ?have = Some s \<and> length s = 5 \<and> take ?n s = ?have"
    if "?n \<le> 5"
    using that sc have_len by (auto simp: mem_write_def)
  have stitched: "\<exists>d'. refill_tag d = Some (tag_extra c \<le> length inp, d') \<and> d_eof d' = d_eof d \<and>
      d_exit_ok d' \<and> (tag_extra c \<le> length inp \<longrightarrow>
         d_ok d' (d_ip d') \<and> d_ready d' (d_ip d') \<and> d_rest d' (d_ip d') = c # inp)"
    if less: "?n < ?k"
  proof -
    obtain s where s: "mem_write (d_scratch d1) 0 ?have = Some s" "length s = 5" "take ?n s = ?have"
      using scr less k by auto
    obtain ok s' r' where st: "refill_stitch s r ?n ?k = Some (ok, s', r')" "src_ok r'"
      "length s' = 5" "ok \<longleftrightarrow> ?k - ?n \<le> length (src_rest r)"
      "ok \<Longrightarrow> take ?k s' = ?have @ take (?k - ?n) (src_rest r)"
      "ok \<Longrightarrow> src_rest r' = drop (?k - ?n) (src_rest r)"
      using refill_stitch_ok [OF r(2), of ?n ?k s] s less k by auto
    have ok: "ok \<longleftrightarrow> tag_extra c \<le> length inp" using st(4) total less by auto
    let ?d = "d1\<lparr>d_reader := r', d_scratch := s', d_peeked := 0\<rparr>"
    let ?d' = "?d\<lparr>d_buf := s', d_ip := 0, d_ip_limit := ?k\<rparr>"
    have run: "refill_tag d = Some (if ok then (True, ?d') else (False, ?d))"
      using d1(1) cs n rd s(1) r(1) st(1) less
      by (simp add: refill_tag_def Let_def tag_entry_extra del: of_nat_diff)
    have "d_rest ?d' 0 = c # inp \<and> s' ! 0 = c" if "ok"
    proof -
      have rest: "take ?k s' @ src_rest r' = c # inp"
        using st(5,6) that all by simp
      moreover have "hd (take ?k s' @ src_rest r') = s' ! 0"
        using st(3) by (cases s') auto
      ultimately show ?thesis by (simp add: d_rest_def)
    qed
    then show ?thesis
      using run ok st(2,3,6) k short d1(5)
      by (cases ok) (auto simp: d_ok_def d_exit_ok_def d_ready_def)
  qed
  show "\<exists>d'. refill_tag d = Some (False, d') \<and> d_eof d' = d_eof d \<and> d_exit_ok d'"
    if "length inp < tag_extra c"
    using stitched that total by auto
  show "\<exists>d'. refill_tag d = Some (True, d') \<and> d_eof d' = d_eof d \<and> d_ok d' (d_ip d') \<and>
        d_ready d' (d_ip d') \<and> d_rest d' (d_ip d') = c # inp"
    if enough: "tag_extra c \<le> length inp"
  proof -
    consider "?n < ?k" | "?k \<le> ?n" "?n < 5" | "?k \<le> ?n" "5 \<le> ?n" by linarith
    then show ?thesis
    proof cases
      case 1
      then show ?thesis using stitched enough by auto
    next
      case 2
      then obtain s where s: "mem_write (d_scratch d1) 0 ?have = Some s" "length s = 5"
        "take ?n s = ?have"
        using scr by auto
      let ?d = "d1\<lparr>d_reader := r, d_scratch := s, d_peeked := 0, d_buf := s, d_ip := 0,
          d_ip_limit := ?n\<rparr>"
      have "refill_tag d = Some (True, ?d)"
        using d1(1) cs n rd s(1) r(1) 2
        by (simp add: refill_tag_def Let_def tag_entry_extra del: of_nat_diff)
      moreover have rest: "d_rest ?d 0 = c # inp" using all s(3) by (simp add: d_rest_def)
      moreover have "s ! 0 = c"
        using d_rest_nth [of 0 ?d] rest s(2) d1(3) 2 by auto
      ultimately show ?thesis
        using s(2) r(2) sc short d1(5) 2 by (auto simp: d_ok_def d_exit_ok_def d_ready_def)
    next
      case 3
      then have "refill_tag d = Some (True, d1)"
        using d1(1) cs n by (simp add: refill_tag_def Let_def tag_entry_extra del: of_nat_diff)
      then show ?thesis
        using d1 3 c(1) lim by (auto simp: d_ready_def)
    qed
  qed
qed

lemma MAYBE_REFILL_ok:
  assumes ok: "d_ok d ip"
  shows "d_rest d ip = [] \<Longrightarrow>
      \<exists>d' ip'. MAYBE_REFILL d ip = Some (False, d', ip') \<and> d_eof d' \<and> d_exit_ok d'"
    and "d_rest d ip = c # inp \<Longrightarrow> length inp < tag_extra c \<Longrightarrow>
      \<exists>d' ip'. MAYBE_REFILL d ip = Some (False, d', ip') \<and> d_eof d' = d_eof d \<and> d_exit_ok d'"
    and "d_rest d ip = c # inp \<Longrightarrow> tag_extra c \<le> length inp \<Longrightarrow>
      \<exists>d' ip'. MAYBE_REFILL d ip = Some (True, d', ip') \<and> d_eof d' = d_eof d \<and> d_ok d' ip' \<and>
        d_ready d' ip' \<and> d_rest d' ip' = c # inp"
proof -
  let ?d = "d\<lparr>d_ip := ip\<rparr>"
  have ok': "d_ok ?d (d_ip ?d)" and rest': "d_rest ?d (d_ip ?d) = d_rest d ip"
    and eof': "d_eof ?d = d_eof d"
    using ok by (simp_all add: d_ok_def d_exit_ok_def d_rest_def)
  have many: "d_ready d ip \<and> tag_extra (d_buf d ! ip) \<le> length (d_rest d (Suc ip)) \<and>
      d_rest d ip = d_buf d ! ip # d_rest d (Suc ip)"
    if "\<not> d_ip_limit d - ip < 5"
  proof -
    have "tag_extra (d_buf d ! ip) \<le> 4" by (rule tag_extra_le)
    then show ?thesis using that ok d_rest_nth [of ip d]
      by (auto simp: d_ready_def d_ok_def d_rest_def)
  qed
  note refill = refill_tag_ok [OF ok', unfolded rest' eof']
  show "\<exists>d' ip'. MAYBE_REFILL d ip = Some (False, d', ip') \<and> d_eof d' \<and> d_exit_ok d'"
    if "d_rest d ip = []"
    using refill(1) [OF that] many that by (cases "d_ip_limit d - ip < 5") (auto simp: MAYBE_REFILL_def)
  show "\<exists>d' ip'. MAYBE_REFILL d ip = Some (False, d', ip') \<and> d_eof d' = d_eof d \<and> d_exit_ok d'"
    if "d_rest d ip = c # inp" "length inp < tag_extra c"
    using refill(2) [OF that] many that by (cases "d_ip_limit d - ip < 5") (auto simp: MAYBE_REFILL_def)
  show "\<exists>d' ip'. MAYBE_REFILL d ip = Some (True, d', ip') \<and> d_eof d' = d_eof d \<and> d_ok d' ip' \<and>
        d_ready d' ip' \<and> d_rest d' ip' = c # inp"
    if "d_rest d ip = c # inp" "tag_extra c \<le> length inp"
    using refill(3) [OF that] many that ok by (cases "d_ip_limit d - ip < 5") (auto simp: MAYBE_REFILL_def)
qed

section \<open>Literals and copies\<close>

lemma append_take_len:
  assumes "length xs = n"
  shows "take (n + k) (xs @ ys) = xs @ take k ys" "drop (n + k) (xs @ ys) = drop k ys"
  using assms by simp_all

text \<open>
  The loop of a literal writes the bytes of the fragments it exhausts, and stops at the
  fragment that holds the rest of the literal.
\<close>

lemma literal_loop_ok:
  assumes "d_ok d ip" and "w_ok w" and "unat avail = d_ip_limit d - ip"
  shows "\<exists>ok d' w' ip' len'. literal_loop d w ip avail len = Some (ok, d', w', ip', len') \<and>
    d_exit_ok d' \<and> d_eof d' = d_eof d \<and>
    (\<not> ok \<longrightarrow> length (d_rest d ip) < unat len \<or> w_op_limit w < w_op w + unat len) \<and>
    (ok \<longrightarrow> d_ok d' ip' \<and> unat len' \<le> d_ip_limit d' - ip' \<and>
       unat len' \<le> unat len \<and> unat len - unat len' \<le> length (d_rest d ip) \<and>
       d_rest d' ip' = drop (unat len - unat len') (d_rest d ip) \<and>
       w_becomes w w' (w_out w @ take (unat len - unat len') (d_rest d ip)))"
  using assms
proof (induction "length (drop (unat (d_peeked d)) (src_rest (d_reader d)))"
    arbitrary: d w ip avail len rule: less_induct)
  case less
  note ok = less.prems(1) and w = less.prems(2) and av = less.prems(3)
  show ?case
  proof (cases "avail < len")
    case False
    then show ?thesis
      using ok w av
      by (subst literal_loop.simps)
        (auto simp: word_less_nat_alt w_becomes_def w_out_def d_ok_def)
  next
    case True
    have lens: "unat avail < unat len" "unat (len - avail) = unat len - unat avail"
      using True by (auto simp: word_less_nat_alt unat_sub word_le_nat_alt)
    have buf: "ip + unat avail \<le> length (d_buf d)" using ok av by (simp add: d_ok_def)
    obtain r where r: "skip (d_reader d) (unat (d_peeked d)) = Some r" "src_ok r"
      "src_rest r = drop (unat (d_peeked d)) (src_rest (d_reader d))"
      using ok d_exit_ok_skip unfolding d_ok_def by blast
    let ?a = "take (unat avail) (drop ip (d_buf d))"
    have rest: "d_rest d ip = ?a @ src_rest r" "length ?a = unat avail"
      using r(3) av buf by (simp_all add: d_rest_def)
    have short: "length (src_rest r) < 2 ^ 32" using r(3) ok by (auto simp: d_ok_def)
    have pk: "unat (word_of_nat (snd (peek r)) :: u32) = snd (peek r)"
      using peek_rest(2) [OF r(2)] short by (intro unat_of_nat32) simp
    show ?thesis
    proof (cases "w_op w + unat avail \<le> w_op_limit w")
      case False
      then have "writer_append w (d_buf d) ip avail = Some (False, w)"
        using writer_append_ok(2) [OF w buf] by simp
      then show ?thesis
        using True False lens ok by (subst literal_loop.simps) (auto simp: d_ok_def)
    next
      case fits: True
      obtain w1 where w1: "writer_append w (d_buf d) ip avail = Some (True, w1)"
        "w_becomes w w1 (w_out w @ ?a)"
        using writer_append_ok(1) [OF w buf fits] by blast
      then have w1_ok: "w_ok w1" "w_out w1 = w_out w @ ?a" "w_op_limit w1 = w_op_limit w"
        by (simp_all add: w_becomes_def)
      then have w1_op: "w_op w1 = w_op w + unat avail"
        using length_w_out [OF w1_ok(1)] length_w_out [OF w] rest(2) by simp
      show ?thesis
      proof (cases "snd (peek r) = 0")
        case zero: True
        then have "src_rest r = []" using peek_rest(1) [OF r(2)] by simp
        then show ?thesis
          using True w1(1) r zero lens rest
          by (subst literal_loop.simps)
            (cases "peek r", auto simp: d_exit_ok_def Let_def)
      next
        case more: False
        then obtain b off where p: "fst (peek r) = Some (b, off)" "off + snd (peek r) = length b"
          "drop off b = take (snd (peek r)) (src_rest r)"
          using peek_rest(3) [OF r(2)] by blast
        let ?n = "word_of_nat (snd (peek r)) :: u32"
        let ?d = "d\<lparr>d_reader := r, d_peeked := ?n, d_buf := b, d_ip_limit := off + snd (peek r)\<rparr>"
        have n0: "?n \<noteq> 0" using pk more by (metis unsigned_0)
        have step: "literal_loop d w ip avail len = literal_loop ?d w1 off ?n (len - avail)"
          using True w1(1) r(1) p(1) n0 pk
          by (subst literal_loop.simps) (cases "peek r", simp add: Let_def)
        have d_ok': "d_ok ?d off"
          using ok r(2) pk p short peek_rest(2) [OF r(2)] by (simp add: d_ok_def d_exit_ok_def)
        have rest': "d_rest ?d off = src_rest r" using pk p(3) by (simp add: d_rest_def)
        have "length (drop (unat (d_peeked ?d)) (src_rest (d_reader ?d))) <
            length (drop (unat (d_peeked d)) (src_rest (d_reader d)))"
          using r(3) pk more peek_rest(2) [OF r(2)] by (simp flip: r(3))
        from less.hyps [OF this d_ok' w1_ok(1), of ?n "len - avail"] pk
        obtain okk d' w' ip' len' where IH:
          "literal_loop ?d w1 off ?n (len - avail) = Some (okk, d', w', ip', len')"
          "d_exit_ok d'" "d_eof d' = d_eof ?d"
          "\<not> okk \<Longrightarrow> length (src_rest r) < unat (len - avail) \<or>
             w_op_limit w1 < w_op w1 + unat (len - avail)"
          "okk \<Longrightarrow> d_ok d' ip' \<and> unat len' \<le> d_ip_limit d' - ip' \<and> unat len' \<le> unat (len - avail) \<and>
             unat (len - avail) - unat len' \<le> length (src_rest r) \<and>
             d_rest d' ip' = drop (unat (len - avail) - unat len') (src_rest r) \<and>
             w_becomes w1 w' (w_out w1 @ take (unat (len - avail) - unat len') (src_rest r))"
          unfolding rest' by auto
        have bec: "w_becomes w w' x" if "w_becomes w1 w' x" for x
          using that w1(2) by (simp add: w_becomes_def)
        have run: "literal_loop d w ip avail len = Some (okk, d', w', ip', len')"
          using step IH(1) by (rule trans)
        show ?thesis
        proof (cases okk)
          case True
          define k where "k = unat (len - avail) - unat len'"
          note I = IH(5) [OF True, folded k_def]
          have k: "unat len - unat len' = unat avail + k" "unat len' \<le> unat len"
            using I lens k_def by auto
          have "take (unat avail + k) (d_rest d ip) = ?a @ take k (src_rest r)"
            "drop (unat avail + k) (d_rest d ip) = drop k (src_rest r)"
            "unat avail + k \<le> length (d_rest d ip)"
            using I by (simp_all only: rest(1) append_take_len [OF rest(2)] length_append rest(2)) simp
          then show ?thesis
            using I IH(2,3) True bec [of "w_out w @ ?a @ take k (src_rest r)"] w1_ok(2) k(2)
            by (intro exI [of _ True] exI [of _ d'] exI [of _ w'] exI [of _ ip'] exI [of _ len'])
              (simp add: run k(1))
        next
          case False
          then show ?thesis
            using IH(2,3) IH(4) [OF False] lens rest w1_ok w1_op
            by (intro exI [of _ False] exI [of _ d'] exI [of _ w'] exI [of _ ip'] exI [of _ len'])
              (auto simp: run)
        qed
      qed
    qed
  qed
qed

lemma d_ok_forward: "d_ok d ip \<Longrightarrow> ip + n \<le> d_ip_limit d \<Longrightarrow> d_ok d (ip + n)"
  by (auto simp: d_ok_def)

lemma w_becomes_trans:
  "w_becomes w w1 x \<Longrightarrow> w_becomes w1 w2 y \<Longrightarrow> w_becomes w w2 y"
  by (simp add: w_becomes_def)

lemma w_becomes_op:
  assumes "w_becomes w w' x" shows "w_op w' = length x" "w_ok w'" "w_op_limit w' = w_op_limit w"
    "w_out w' = x"
  using assms length_w_out [of w'] by (auto simp: w_becomes_def)

text \<open>The slow path of a literal whose length has been read.\<close>

lemma literal_slow_ok:
  assumes ok: "d_ok d ip" and w: "w_ok w" and avail: "unat avail = d_ip_limit d - ip"
    and n_def: "n = unat len"
  shows "\<exists>okk d' w' ip' len'. literal_loop d w ip avail len = Some (okk, d', w', ip', len') \<and>
    d_exit_ok d' \<and> d_eof d' = d_eof d \<and>
    (\<not> okk \<longrightarrow> length (d_rest d ip) < n \<or> w_op_limit w < w_op w + n) \<and>
    (okk \<longrightarrow> n \<le> length (d_rest d ip) \<and>
       (w_op_limit w < w_op w + n \<longrightarrow>
          (\<exists>w''. writer_append w' (d_buf d') ip' len' = Some (False, w''))) \<and>
       (w_op w + n \<le> w_op_limit w \<longrightarrow>
          (\<exists>w''. writer_append w' (d_buf d') ip' len' = Some (True, w'') \<and>
             w_becomes w w'' (w_out w @ take n (d_rest d ip)))) \<and>
       d_ok d' (ip' + unat len') \<and> d_rest d' (ip' + unat len') = drop n (d_rest d ip))"
proof -
  obtain okk d' w' ip' len' where
    run: "literal_loop d w ip avail len = Some (okk, d', w', ip', len')"
    and ex: "d_exit_ok d'" "d_eof d' = d_eof d"
    and bad: "\<not> okk \<Longrightarrow> length (d_rest d ip) < n \<or> w_op_limit w < w_op w + n"
    and good: "okk \<Longrightarrow> d_ok d' ip' \<and> unat len' \<le> d_ip_limit d' - ip' \<and> unat len' \<le> n \<and>
       n - unat len' \<le> length (d_rest d ip) \<and>
       d_rest d' ip' = drop (n - unat len') (d_rest d ip) \<and>
       w_becomes w w' (w_out w @ take (n - unat len') (d_rest d ip))"
    using literal_loop_ok [OF ok w avail, of len] unfolding n_def by auto
  show ?thesis
  proof (cases okk)
    case False
    then show ?thesis using run ex bad by auto
  next
    case True
    define k where "k = n - unat len'"
    have k: "n = k + unat len'" using good [OF True] by (simp add: k_def)
    note g = good [OF True, folded k_def]
    have lim: "ip' + unat len' \<le> d_ip_limit d'" "d_ip_limit d' \<le> length (d_buf d')"
      using g by (auto simp: d_ok_def)
    have buf: "ip' + unat len' \<le> length (d_buf d')" using lim by simp
    have fwd: "d_rest d' (ip' + unat len') = drop n (d_rest d ip)"
      "take (unat len') (drop ip' (d_buf d')) = take (unat len') (drop k (d_rest d ip))"
      using d_rest_forward [OF lim] g k by (simp_all add: add.commute)
    have whole: "take k (d_rest d ip) @ take (unat len') (drop k (d_rest d ip)) = take n (d_rest d ip)"
      by (simp add: k take_add)
    have "unat len' \<le> length (d_rest d' ip')"
      using d_rest_length [OF lim(2), of ip'] g by simp
    then have enough: "n \<le> length (d_rest d ip)" using g k by auto
    note b = w_becomes_op [of w w' "w_out w @ take k (d_rest d ip)"]
    have op: "w_op w' = w_op w + k" "w_op_limit w' = w_op_limit w"
      using b(1,3) g w by simp_all
    have "\<exists>w''. writer_append w' (d_buf d') ip' len' = Some (True, w'') \<and>
        w_becomes w w'' (w_out w @ take n (d_rest d ip))" if "w_op w + n \<le> w_op_limit w"
    proof -
      have "w_op w' + unat len' \<le> w_op_limit w'" using that op k by simp
      then obtain w'' where "writer_append w' (d_buf d') ip' len' = Some (True, w'')"
        "w_becomes w' w'' (w_out w' @ take (unat len') (drop ip' (d_buf d')))"
        using writer_append_ok(1) [OF b(2) buf] g by blast
      then show ?thesis using g b(4) fwd(2) whole w_becomes_trans by auto
    qed
    moreover have "\<exists>w''. writer_append w' (d_buf d') ip' len' = Some (False, w'')"
      if "w_op_limit w < w_op w + n"
      using writer_append_ok(2) [OF b(2) buf] g that op k by auto
    ultimately show ?thesis
      using run ex True enough fwd(1) d_ok_forward [of d' ip' "unat len'"] g lim by auto
  qed
qed

lemma decompress_literal_ok:
  assumes ok: "d_ok d ip" and rdy: "d_ready d ip" and rest: "d_rest d ip = c # inp"
    and w: "w_ok w" and lit: "unat c mod 4 = 0"
    and n: "n = tag_lit_len c (take (tag_extra c) inp)" and r: "r = drop (tag_extra c) inp"
  shows "length r < n \<or> w_op_limit w < w_op w + n \<Longrightarrow>
      \<exists>d' ip' w'. decompress_literal d (Suc ip) w c = Some (False, d', ip', w') \<and>
        d_exit_ok d' \<and> d_eof d' = d_eof d"
    and "\<not> (length r < n \<or> w_op_limit w < w_op w + n) \<Longrightarrow>
      \<exists>d' ip' w'. decompress_literal d (Suc ip) w c = Some (True, d', ip', w') \<and>
        d_ok d' ip' \<and> d_eof d' = d_eof d \<and> d_rest d' ip' = drop n r \<and>
        w_becomes w w' (w_out w @ take n r)"
proof -
  let ?len0 = "ucast (drop_bit 2 c) + 1 :: u32" and ?k = "tag_extra c" and ?q = "unat c div 4"
  let ?av = "word_of_nat (d_ip_limit d - Suc ip) :: u32"
  have lim: "d_ip_limit d \<le> length (d_buf d)" using ok by (simp add: d_ok_def)
  have c: "d_buf d ! ip = c" "d_rest d (Suc ip) = inp"
    using d_rest_nth [OF _ lim, of ip] rest rdy by (auto simp: d_ready_def)
  have tag: "Suc ip + ?k \<le> d_ip_limit d" "ip + 5 \<le> length (d_buf d)"
    using rdy c(1) by (auto simp: d_ready_def)
  have ok1: "d_ok d (Suc ip)" using d_ok_forward [OF ok, of 1] tag(1) by simp
  have okk: "d_ok d (Suc ip + ?k)" by (rule d_ok_forward [OF ok1 tag(1)])
  have restk: "d_rest d (Suc ip + ?k) = r" "take ?k (drop (Suc ip) (d_buf d)) = take ?k inp"
    using d_rest_forward [OF tag(1) lim] c(2) r by simp_all
  have av: "unat ?av = d_ip_limit d - Suc ip"
    using ok1 by (intro unat_of_nat32) (simp add: d_ok_def)
  have q: "?q \<le> 63" using unat_byte_less [of c] by simp
  have k: "?k = (if 60 \<le> ?q then ?q - 59 else 0)" using lit by (simp add: tag_extra_def Let_def)
  have len0: "unat ?len0 = ?q + 1" by (rule literal_len0)
  have buf: "Suc ip + unat ?av \<le> length (d_buf d)" using av lim tag(1) by simp
  let ?fast = "writer_try_fast_append w (d_buf d) (Suc ip) ?av ?len0"
  have pos: "0 < ?len0" using len0 by (metis Suc_eq_plus1 unat_gt_0 word_neq_0_conv zero_less_Suc)
  consider (fast) w' where "?fast = Some (True, w')" "?len0 \<le> 16" "?len0 \<le> ?av"
      "w_op w + unat ?len0 \<le> w_op_limit w"
      "w_becomes w w' (w_out w @ take (unat ?len0) (drop (Suc ip) (d_buf d)))"
    | (slow) "?fast = Some (False, w)"
    using writer_try_fast_append_ok [OF w buf pos] by blast
  then have "if length r < n \<or> w_op_limit w < w_op w + n
      then \<exists>d' ip' w'. decompress_literal d (Suc ip) w c = Some (False, d', ip', w') \<and>
        d_exit_ok d' \<and> d_eof d' = d_eof d
      else \<exists>d' ip' w'. decompress_literal d (Suc ip) w c = Some (True, d', ip', w') \<and>
        d_ok d' ip' \<and> d_eof d' = d_eof d \<and> d_rest d' ip' = drop n r \<and>
        w_becomes w w' (w_out w @ take n r)"
  proof cases
    case fast
    have "unat ?len0 \<le> 16" using fast(2) by (simp add: word_le_nat_alt)
    then have k0: "?k = 0" and n': "n = unat ?len0"
      using k len0 n by (auto simp: tag_lit_len_def)
    have n_lim: "Suc ip + n \<le> d_ip_limit d"
      using fast(3) av n' tag(1) by (auto simp: word_le_nat_alt)
    have "d_rest d (Suc ip + n) = drop n r" "take n r = take n (drop (Suc ip) (d_buf d))"
      using d_rest_forward [OF n_lim lim] restk(1) k0 by simp_all
    moreover have "n \<le> length r"
      using d_rest_length [OF lim, of "Suc ip"] n_lim restk(1) k0 by simp
    moreover have "decompress_literal d (Suc ip) w c = Some (True, d, Suc ip + n, w')"
      using fast(1) n' by (simp add: decompress_literal_def Let_def)
    ultimately show ?thesis
      using fast(4,5) n' d_ok_forward [OF ok1 n_lim] by auto
  next
    case slow
    define len where "len = (if 60 \<le> ?q then le_word (take ?k inp) + 1 else ?len0)"
    have n': "n = unat len" using n len0 by (simp add: len_def tag_lit_len_def)
    let ?ip = "Suc ip + ?k"
    have avk: "unat (word_of_nat (d_ip_limit d - ?ip) :: u32) = d_ip_limit d - ?ip"
      using okk by (intro unat_of_nat32) (simp add: d_ok_def)
    have long: "61 \<le> ?len0 \<longleftrightarrow> 60 \<le> ?q" using len0 by (simp add: word_le_nat_alt)
    have k': "unat (?len0 - 60) = ?k" if "60 \<le> ?q"
    proof -
      have "unat (x - 60) = unat x - 60" if "60 \<le> unat x" for x :: u32
        using that by (simp add: unat_sub word_le_nat_alt)
      from this [of ?len0] show ?thesis using that k len0 by simp
    qed
    have ld: "UNALIGNED_LOAD32 (d_buf d) (Suc ip) = Some (le_word (take 4 (drop (Suc ip) (d_buf d))))"
      using tag(2) by (intro LOAD32_Some) simp
    have msk: "le_word (take 4 (drop (Suc ip) (d_buf d))) AND wordmask ! ?k = (le_word (take ?k inp) :: u32)"
      using and_wordmask [OF tag_extra_le] restk(2) tag_extra_le [of c] by (simp add: min_absorb1)
    have "decompress_literal d (Suc ip) w c = do {
           (ok, d2, w2, ip2, len2) \<leftarrow>
             literal_loop d w ?ip (word_of_nat (d_ip_limit d - ?ip)) len;
           (if \<not> ok then Some (False, d2, ip2, w2) else do {
              (ok', w3) \<leftarrow> writer_append w2 (d_buf d2) ip2 len2;
              Some (if ok' then (True, d2, ip2 + unat len2, w3) else (False, d2, ip2, w3)) }) }"
    proof (cases "60 \<le> ?q")
      case True
      then show ?thesis
        using slow long k' ld msk
        by (simp add: decompress_literal_def Let_def len_def del: of_nat_diff)
    next
      case False
      then have "?k = 0" using k by simp
      then show ?thesis
        using slow long False
        by (simp add: decompress_literal_def Let_def len_def del: of_nat_diff)
    qed
    then show ?thesis
      using literal_slow_ok [OF okk w avk n', unfolded restk(1)] by fastforce
  qed
  then show "length r < n \<or> w_op_limit w < w_op w + n \<Longrightarrow>
      \<exists>d' ip' w'. decompress_literal d (Suc ip) w c = Some (False, d', ip', w') \<and>
        d_exit_ok d' \<and> d_eof d' = d_eof d"
    and "\<not> (length r < n \<or> w_op_limit w < w_op w + n) \<Longrightarrow>
      \<exists>d' ip' w'. decompress_literal d (Suc ip) w c = Some (True, d', ip', w') \<and>
        d_ok d' ip' \<and> d_eof d' = d_eof d \<and> d_rest d' ip' = drop n r \<and>
        w_becomes w w' (w_out w @ take n r)"
    by (simp_all split: if_splits)
qed

lemma copy_offset_no_overflow:
  assumes "unat c mod 4 \<noteq> 0"
  shows "unat ((tag_entry c AND 0x700) + le_word (take (tag_extra c) inp)) =
    tag_offset_high c + unat (le_word (take (tag_extra c) inp) :: u32)"
proof -
  let ?t = "le_word (take (tag_extra c) inp) :: u32"
  have "tag_offset_high c + unat ?t < 2 ^ 32"
  proof (cases "unat c mod 4 = 1")
    case True
    then have "tag_extra c = 1" by (simp add: tag_extra_def Let_def)
    then have "?t = take_bit 8 (le_word inp)" using take_bit_le_word [of 1 inp, where 'a = 32] by simp
    then have "unat ?t < 256" by (simp add: unat_take_bit del: unsigned_take_bit_eq)
    moreover have "unat c div 32 \<le> 7" using unat_byte_less [of c] by linarith
    then have "tag_offset_high c \<le> 7 * 256" by (simp add: tag_offset_high_def Let_def)
    ultimately show ?thesis by simp
  next
    case False
    then show ?thesis
      using unsigned_less [of ?t, where 'a = nat] by (simp add: tag_offset_high_def Let_def)
  qed
  then show ?thesis
    using tag_entry_offset [OF assms] by (subst unat_add_lem [THEN iffD1]) simp_all
qed

lemma decompress_copy_ok:
  assumes ok: "d_ok d ip" and rdy: "d_ready d ip" and rest: "d_rest d ip = c # inp"
    and w: "w_ok w" and copy: "unat c mod 4 \<noteq> 0" and n: "n = tag_copy_len c"
    and off: "off = tag_offset_high c + unat (le_word (take (tag_extra c) inp) :: u32)"
  shows "off = 0 \<or> w_op w < off \<or> w_op_limit w < w_op w + n \<Longrightarrow>
      \<exists>d' ip' w'. decompress_copy d (Suc ip) w c = Some (False, d', ip', w') \<and>
        d_exit_ok d' \<and> d_eof d' = d_eof d"
    and "\<not> (off = 0 \<or> w_op w < off \<or> w_op_limit w < w_op w + n) \<Longrightarrow>
      \<exists>d' ip' w'. decompress_copy d (Suc ip) w c = Some (True, d', ip', w') \<and>
        d_ok d' ip' \<and> d_eof d' = d_eof d \<and> d_rest d' ip' = drop (tag_extra c) inp \<and>
        w_becomes w w' (copy_self n off (w_out w))"
proof -
  let ?k = "tag_extra c" and ?len = "tag_entry c AND 0xff"
  let ?off = "(tag_entry c AND 0x700) + le_word (take ?k inp)"
  have lim: "d_ip_limit d \<le> length (d_buf d)" using ok by (simp add: d_ok_def)
  have c: "d_buf d ! ip = c" "d_rest d (Suc ip) = inp"
    using d_rest_nth [OF _ lim, of ip] rest rdy by (auto simp: d_ready_def)
  have tag: "Suc ip + ?k \<le> d_ip_limit d" "ip + 5 \<le> length (d_buf d)"
    using rdy c(1) by (auto simp: d_ready_def)
  have restk: "d_rest d (Suc ip + ?k) = drop ?k inp"
    "take ?k (drop (Suc ip) (d_buf d)) = take ?k inp"
    using d_rest_forward [OF tag(1) lim] c(2) by simp_all
  have okk: "d_ok d (Suc ip + ?k)" using d_ok_forward [OF ok, of "Suc ?k"] tag(1) by simp
  have ld: "UNALIGNED_LOAD32 (d_buf d) (Suc ip) = Some (le_word (take 4 (drop (Suc ip) (d_buf d))))"
    using tag(2) by (intro LOAD32_Some) simp
  have msk: "le_word (take 4 (drop (Suc ip) (d_buf d))) AND wordmask ! ?k = (le_word (take ?k inp) :: u32)"
    using and_wordmask [OF tag_extra_le] restk(2) tag_extra_le [of c] by (simp add: min_absorb1)
  have len: "unat ?len = n" using tag_entry_len [OF copy] n by simp
  have offs: "unat ?off = off" using copy_offset_no_overflow [OF copy] off by simp
  have zero: "?off = 0 \<longleftrightarrow> off = 0" using offs by (metis unsigned_0 unsigned_eq_0_iff)
  have run: "decompress_copy d (Suc ip) w c = do {
      (ok, w') \<leftarrow> writer_append_from_self w ?off ?len; Some (ok, d, Suc ip + ?k, w') }"
    using ld msk by (simp add: decompress_copy_def Let_def tag_entry_extra)
  have "0 < ?len" "?len \<le> 64"
    using len n tag_copy_len_bounds [of c] by (simp_all add: word_less_nat_alt word_le_nat_alt)
  note self = writer_append_from_self_ok [OF w this, of ?off, unfolded len offs]
  show "\<exists>d' ip' w'. decompress_copy d (Suc ip) w c = Some (False, d', ip', w') \<and>
        d_exit_ok d' \<and> d_eof d' = d_eof d"
    if "off = 0 \<or> w_op w < off \<or> w_op_limit w < w_op w + n"
    using self(2) that zero ok unfolding run by (auto simp: d_ok_def)
  show "\<exists>d' ip' w'. decompress_copy d (Suc ip) w c = Some (True, d', ip', w') \<and>
        d_ok d' ip' \<and> d_eof d' = d_eof d \<and> d_rest d' ip' = drop ?k inp \<and>
        w_becomes w w' (copy_self n off (w_out w))"
    if "\<not> (off = 0 \<or> w_op w < off \<or> w_op_limit w < w_op w + n)"
    using self(1) that zero restk(1) okk unfolding run by fastforce
qed

section \<open>The tag loop\<close>

text \<open>What a run of the loop from \<open>d\<close>, \<open>ip\<close> and \<open>w\<close> has to deliver.\<close>

definition loop_result ::
    "(snappy_decompressor \<times> writer) option \<Rightarrow> snappy_decompressor \<Rightarrow> nat \<Rightarrow> writer \<Rightarrow> bool" where
  "loop_result res d ip w \<longleftrightarrow> (\<exists>d' w'. res = Some (d', w') \<and> d_exit_ok d' \<and>
     (case ref_tags (w_op_limit w) (d_rest d ip) (w_out w) of
        None \<Rightarrow> \<not> d_eof d'
      | Some out \<Rightarrow> d_eof d' \<and> w_becomes w w' out))"

lemma refill_then_loop:
  assumes ok: "d_ok d ip" and w: "w_ok w" and eof: "\<not> d_eof d"
    and loop: "\<And>d' ip'. d_ok d' ip' \<Longrightarrow> \<not> d_eof d' \<Longrightarrow> d_rest d' ip' = d_rest d ip \<Longrightarrow>
      loop_result (decompress_loop d' ip' w) d' ip' w"
  shows "loop_result
    (do { (go, d', ip') \<leftarrow> MAYBE_REFILL d ip;
          (if \<not> go then Some (d', w) else decompress_loop d' ip' w) }) d ip w"
proof (cases "d_rest d ip")
  case Nil
  moreover have "w_becomes w w (w_out w)" using w by (simp add: w_becomes_def)
  ultimately show ?thesis
    using MAYBE_REFILL_ok(1) [OF ok Nil] by (auto simp: loop_result_def)
next
  case (Cons c inp)
  show ?thesis
  proof (cases "length inp < tag_extra c")
    case True
    then show ?thesis
      using MAYBE_REFILL_ok(2) [OF ok Cons True] eof Cons by (auto simp: loop_result_def Let_def)
  next
    case False
    then obtain d' ip' where "MAYBE_REFILL d ip = Some (True, d', ip')" "d_eof d' = d_eof d"
      "d_ok d' ip'" "d_rest d' ip' = c # inp"
      using MAYBE_REFILL_ok(3) [OF ok Cons] by (auto simp: not_less)
    then show ?thesis
      using loop [of d' ip'] eof Cons by (simp add: loop_result_def)
  qed
qed

lemma decompress_loop_ok:
  assumes "d_ok d ip" and "w_ok w" and "\<not> d_eof d"
  shows "loop_result (decompress_loop d ip w) d ip w"
  using assms
proof (induction "length (d_rest d ip)" arbitrary: d ip w rule: less_induct)
  case less
  note ok = less.prems(1) and w = less.prems(2) and eof = less.prems(3)
  show ?case
  proof (cases "d_rest d ip")
    case Nil
    moreover have "w_becomes w w (w_out w)" using w by (simp add: w_becomes_def)
    ultimately show ?thesis
      using MAYBE_REFILL_ok(1) [OF ok Nil] w
      by (subst decompress_loop.simps) (auto simp: loop_result_def)
  next
    case (Cons c inp)
    show ?thesis
    proof (cases "length inp < tag_extra c")
      case True
      then show ?thesis
        using MAYBE_REFILL_ok(2) [OF ok Cons True] eof Cons
        by (subst decompress_loop.simps) (auto simp: loop_result_def Let_def)
    next
      case False
      then obtain d1 ip1 where d1: "MAYBE_REFILL d ip = Some (True, d1, ip1)"
        "d_eof d1 = d_eof d" "d_ok d1 ip1" "d_ready d1 ip1" "d_rest d1 ip1 = c # inp"
        using MAYBE_REFILL_ok(3) [OF ok Cons] by (auto simp: not_less)
      have "d_ip_limit d1 \<le> length (d_buf d1)" "ip1 < d_ip_limit d1"
        using d1(3,4) by (auto simp: d_ok_def d_ready_def)
      moreover then have "d_buf d1 ! ip1 = c" using d_rest_nth [of ip1 d1] d1(5) by auto
      ultimately have cs: "mem_read (d_buf d1) ip1 1 = Some [c]"
        by (simp add: mem_read_def take_Suc_conv_app_nth)
      let ?step = "if c AND 0x3 = 0 then decompress_literal d1 (ip1 + 1) w c
           else decompress_copy d1 (ip1 + 1) w c"
      have run: "decompress_loop d ip w = do { (go2, d2, ip2, w2) \<leftarrow> ?step;
          (if \<not> go2 then Some (d2, w2) else do {
             (go3, d3, ip3) \<leftarrow> MAYBE_REFILL d2 ip2;
             (if \<not> go3 then Some (d3, w2) else decompress_loop d3 ip3 w2) }) }"
        using d1(1) cs by (subst decompress_loop.simps) simp
      have stop: "loop_result (decompress_loop d ip w) d ip w"
        if "\<exists>d' ip' w'. ?step = Some (False, d', ip', w') \<and> d_exit_ok d' \<and> d_eof d' = d_eof d1"
          "ref_tags (w_op_limit w) (c # inp) (w_out w) = None"
        using that d1(2) eof Cons unfolding run by (auto simp: loop_result_def)
      have go: "loop_result (decompress_loop d ip w) d ip w"
        if step: "\<exists>d' ip' w'. ?step = Some (True, d', ip', w') \<and> d_ok d' ip' \<and>
            d_eof d' = d_eof d1 \<and> d_rest d' ip' = r \<and> w_becomes w w' out"
          and ref: "ref_tags (w_op_limit w) (c # inp) (w_out w) = ref_tags (w_op_limit w) r out"
          and len: "length r < length (c # inp)" for r out
      proof -
        obtain d2 ip2 w2 where d2: "?step = Some (True, d2, ip2, w2)" "d_ok d2 ip2"
          "d_eof d2 = d_eof d1" "d_rest d2 ip2 = r" "w_becomes w w2 out"
          using step by blast
        note w2 = w_becomes_op [OF d2(5)]
        have "loop_result (do { (go3, d3, ip3) \<leftarrow> MAYBE_REFILL d2 ip2;
            (if \<not> go3 then Some (d3, w2) else decompress_loop d3 ip3 w2) }) d2 ip2 w2"
          using less.hyps w2(2) d1(2) d2 eof len Cons
          by (intro refill_then_loop) auto
        then show ?thesis
          using d2(1,4,5) ref w2 Cons unfolding run
          by (auto simp: loop_result_def split: option.splits intro: w_becomes_trans)
      qed
      show ?thesis
      proof (cases "unat c mod 4 = 0")
        case True
        note lit = decompress_literal_ok [OF d1(3-5) w True refl refl]
        show ?thesis
        proof (cases "length (drop (tag_extra c) inp) < tag_lit_len c (take (tag_extra c) inp) \<or>
            w_op_limit w < w_op w + tag_lit_len c (take (tag_extra c) inp)")
          case bad: True
          then show ?thesis
            using lit(1) True literal_tag_iff [of c] w False by (intro stop) (auto simp: Let_def)
        next
          case good: False
          then show ?thesis
            using lit(2) True literal_tag_iff [of c] w False by (intro go) (auto simp: Let_def)
        qed
      next
        case copy: False
        note cp = decompress_copy_ok [OF d1(3-5) w copy refl refl]
        show ?thesis
        proof (cases "tag_offset_high c + unat (le_word (take (tag_extra c) inp) :: u32) = 0 \<or>
            w_op w < tag_offset_high c + unat (le_word (take (tag_extra c) inp) :: u32) \<or>
            w_op_limit w < w_op w + tag_copy_len c")
          case bad: True
          then show ?thesis
            using cp(1) copy literal_tag_iff [of c] w False by (intro stop) (auto simp: Let_def)
        next
          case good: False
          then show ?thesis
            using cp(2) copy literal_tag_iff [of c] w False by (intro go) (auto simp: Let_def)
        qed
      qed
    qed
  qed
qed

lemma decompress_all_tags_ok:
  assumes "d_ok d (d_ip d)" and "w_ok w" and "\<not> d_eof d"
  shows "loop_result (decompress_all_tags d w) d (d_ip d) w"
  unfolding decompress_all_tags_def
  using assms decompress_loop_ok by (intro refill_then_loop) auto

lemma read_length_loop_ok:
  assumes "src_ok r"
  shows "case ref_length (src_rest r) result shift of
      None \<Rightarrow> read_length_loop r result shift = Some None
    | Some (n, tags) \<Rightarrow> \<exists>r'. read_length_loop r result shift = Some (Some (n, r')) \<and>
        src_ok r' \<and> src_rest r' = tags"
  using assms
proof (induction "src_rest r" result shift arbitrary: r rule: ref_length.induct)
  case (1 result shift)
  then have "snd (peek r) = 0" using peek_rest(1) by simp
  then show ?case using 1
    by (subst read_length_loop.simps) (cases "peek r", auto)
next
  case (2 c cs result shift)
  have "snd (peek r) \<noteq> 0" using 2(2) peek_rest(1) [OF 2(3)] by (metis list.distinct(1))
  then obtain b off where p: "fst (peek r) = Some (b, off)" "off + snd (peek r) = length b"
    "drop off b = take (snd (peek r)) (src_rest r)" "snd (peek r) \<noteq> 0"
    using peek_rest(3) [OF 2(3)] by blast
  have "take 1 (drop off b) = [c]"
    using p(3,4) 2(2) [symmetric] by (cases "snd (peek r)") auto
  then have rd: "mem_read b off 1 = Some [c]" using p by (simp add: mem_read_def)
  obtain r' where r': "skip r 1 = Some r'" "src_ok r'" "src_rest r' = cs"
    using skip_rest [OF 2(3), of 1] p(4) 2(2) [symmetric] by auto
  have run: "read_length_loop r result shift =
      (if 32 \<le> shift then Some None
       else if c < 128 then Some (Some (result OR push_bit shift (ucast c AND 0x7f), r'))
       else read_length_loop r' (result OR push_bit shift (ucast c AND 0x7f)) (shift + 7))"
    using p(1,4) rd r'(1) by (subst read_length_loop.simps) (cases "peek r", simp add: Let_def)
  show ?case
    using 2(1) [of r'] 2(2) [symmetric] r' unfolding run by auto
qed

lemma ref_length_shorter: "ref_length bs result shift = Some (n, tags) \<Longrightarrow> length tags \<le> length bs"
  by (induction bs result shift rule: ref_length.induct) (auto split: if_splits)

lemma max_u32: "\<not> 0xffffffff < n" for n :: u32
proof -
  have "unat n < 2 ^ 32" using unsigned_less [of n, where 'a = nat] by simp
  then show ?thesis by (simp add: word_less_nat_alt)
qed

section \<open>The whole decompressor\<close>

lemma internal_uncompress_ok:
  assumes src: "src_ok r" "length (src_rest r) < 2 ^ 32" and scratch: "length scratch = 5"
    and w: "w_op w = 0"
    and room: "\<And>n tags. ref_length (src_rest r) 0 0 = Some (n, tags) \<Longrightarrow> unat n \<le> length (w_mem w)"
  shows "\<exists>rc w'. internal_uncompress scratch r w 0xffffffff = Some (rc, w') \<and>
    (case ref_uncompress (src_rest r) of
       None \<Rightarrow> rc = - EIO
     | Some out \<Rightarrow> rc = 0 \<and> take (length out) (w_mem w') = out \<and>
         length (w_mem w') = length (w_mem w))"
proof (cases "ref_length (src_rest r) 0 0")
  case None
  then show ?thesis
    using read_length_loop_ok [OF src(1), of 0 0]
    by (auto simp: internal_uncompress_def read_uncompressed_length_def
        init_snappy_decompressor_def ref_uncompress_def)
next
  case (Some nt)
  obtain n tags where nt: "nt = (n, tags)" by force
  obtain r' where r': "read_length_loop r 0 0 = Some (Some (n, r'))" "src_ok r'"
    "src_rest r' = tags"
    using read_length_loop_ok [OF src(1), of 0 0] Some nt by auto
  have shorter: "length tags \<le> length (src_rest r)"
    using Some nt ref_length_shorter by auto
  let ?d = "init_snappy_decompressor scratch r\<lparr>d_reader := r'\<rparr>"
  let ?w = "writer_set_expected_length w (unat n)"
  have d: "d_ok ?d (d_ip ?d)" "\<not> d_eof ?d" "d_rest ?d (d_ip ?d) = tags"
    using r'(2,3) scratch shorter src(2)
    by (simp_all add: init_snappy_decompressor_def d_ok_def d_exit_ok_def d_rest_def)
  have n32: "unat n < 2 ^ 32" using unsigned_less [of n, where 'a = nat] by simp
  have w': "w_ok ?w" "w_out ?w = []" "w_op_limit ?w = unat n" "length (w_mem ?w) = length (w_mem w)"
    using w room [OF Some [unfolded nt]] n32
    by (simp_all add: w_ok_def w_out_def writer_set_expected_length_def)
  obtain d2 w2 where res: "decompress_all_tags ?d ?w = Some (d2, w2)" "d_exit_ok d2"
    "case ref_tags (unat n) tags [] of None \<Rightarrow> \<not> d_eof d2
      | Some out \<Rightarrow> d_eof d2 \<and> w_becomes ?w w2 out"
    using decompress_all_tags_ok [OF d(1) w'(1) d(2)] d(3) w'(2,3) by (auto simp: loop_result_def)
  obtain r2 where "skip (d_reader d2) (unat (d_peeked d2)) = Some r2"
    using d_exit_ok_skip [OF res(2)] by blast
  then have run: "internal_uncompress scratch r w 0xffffffff =
      Some (if d_eof d2 \<and> writer_check_length w2 then 0 else - EIO, w2)"
    using r'(1) res(1) max_u32 [of n]
    by (simp add: internal_uncompress_def read_uncompressed_length_def
        exit_snappy_decompressor_def init_snappy_decompressor_def)
  show ?thesis
  proof (cases "ref_tags (unat n) tags []")
    case None
    then show ?thesis using run res(3) Some nt by (simp add: ref_uncompress_def EIO_def)
  next
    case (Some out)
    then have b: "w_becomes ?w w2 out" "d_eof d2" using res(3) by simp_all
    then have "w_op w2 = length out" "w_op_limit w2 = unat n" "take (length out) (w_mem w2) = out"
      "length (w_mem w2) = length (w_mem w)"
      using w_becomes_op [OF b(1)] w'(3,4) by (auto simp: w_becomes_def w_out_def)
    then show ?thesis
      using run b(2) Some \<open>ref_length (src_rest r) 0 0 = Some nt\<close> nt
      by (auto simp: ref_uncompress_def writer_check_length_def)
  qed
qed

text \<open>
  The two readers of the length: wherever \<^verbatim>\<open>varint_parse32_with_limit\<close> succeeds,
  \<^verbatim>\<open>read_uncompressed_length\<close> reads the same value.
\<close>

lemma ref_length_parse:
  assumes "varint_parse32_with_limit p = Some (v, rest)"
  shows "ref_length p 0 0 = Some (v, rest)"
proof -
  have "b < 128" if "b < 16" for b :: byte using that by (rule order.strict_trans) simp
  then show ?thesis
    using assms
    by (auto simp: varint_parse32_with_limit_def Let_def split: list.splits if_splits)
qed

lemma snappy_uncompress_ok:
  assumes "length cs < 2 ^ 32"
    and "\<And>n tags. ref_length cs 0 0 = Some (n, tags) \<Longrightarrow> unat n \<le> length out"
  shows "\<exists>rc out'. snappy_uncompress cs (length cs) out = Some (rc, out') \<and>
    (case ref_uncompress cs of
       None \<Rightarrow> rc = - EIO
     | Some data \<Rightarrow> rc = 0 \<and> take (length data) out' = data \<and> length out' = length out)"
proof -
  let ?r = "\<lparr>src_iov = [cs], src_curvec = 0, src_curoff = 0, src_total = length cs\<rparr>"
  have "src_ok ?r" "src_rest ?r = cs" by (simp_all add: src_ok_def src_rest_def)
  then show ?thesis
    using internal_uncompress_ok [of ?r "replicate 5 0" "\<lparr>w_mem = out, w_op = 0, w_op_limit = 0\<rparr>"]
      assms
    by (fastforce simp: snappy_uncompress_def snappy_uncompress_iov_def mem_read_def
        split: option.splits)
qed

end
