(* ===== verification/Snappy_Compress.thy ===== *)
theory Snappy_Compress
  imports Snappy_Decode "HOL-Library.While_Combinator"
begin

text \<open>
  The compressor of \<^verbatim>\<open>lib/snappy-c/snappy.c\<close>: the emission of literals and copies, the match
  search with its hash table, \<^verbatim>\<open>compress_fragment\<close> and the block loop \<^verbatim>\<open>compress\<close>. What it writes
  is decoded to its input by the reference decoder, and it stays inside an output block of
  \<^verbatim>\<open>snappy_max_compressed_length\<close> bytes.
\<close>

section \<open>Emission\<close>

definition emit_memcpy ::
    "bytes \<Rightarrow> nat \<Rightarrow> bytes \<Rightarrow> nat \<Rightarrow> nat \<Rightarrow> (bytes \<times> nat) option" where
  "emit_memcpy m op input literal len = do {
     bs \<leftarrow> mem_read input literal len;
     m' \<leftarrow> mem_write m op bs;
     Some (m', op + len) }"

function emit_length :: "bytes \<Rightarrow> nat \<Rightarrow> nat \<Rightarrow> nat \<Rightarrow> (bytes \<times> nat \<times> nat) option" where
  "emit_length m op n count =
     (if 0 < n then do {
        m' \<leftarrow> mem_write m op [word_of_nat n];
        emit_length m' (op + 1) (n div 256) (count + 1) }
      else Some (m, op, count))"
  by auto
termination by (relation "measure (\<lambda>(m, op, n, count). n)") auto

declare emit_length.simps [simp del]

definition emit_literal ::
    "bytes \<Rightarrow> nat \<Rightarrow> bytes \<Rightarrow> nat \<Rightarrow> nat \<Rightarrow> bool \<Rightarrow> (bytes \<times> nat) option" where
  "emit_literal m op input literal len allow_fast_path =
     (let n = int len - 1 in
      if n < 60 then do {
        m1 \<leftarrow> mem_write m op [word_of_int (n * 4)];
        (if allow_fast_path \<and> len \<le> 16 then do {
           v \<leftarrow> UNALIGNED_LOAD64 input literal;
           m2 \<leftarrow> UNALIGNED_STORE64 m1 (op + 1) v;
           v' \<leftarrow> UNALIGNED_LOAD64 input (literal + 8);
           m3 \<leftarrow> UNALIGNED_STORE64 m2 (op + 1 + 8) v';
           Some (m3, op + 1 + len) }
         else emit_memcpy m1 (op + 1) input literal len) }
      else do {
        (m1, op', count) \<leftarrow> emit_length m (op + 1) (nat n) 0;
        m2 \<leftarrow> mem_write m1 op [word_of_nat ((59 + count) * 4)];
        emit_memcpy m2 op' input literal len })"

definition emit_copy_less_than64 ::
    "bytes \<Rightarrow> nat \<Rightarrow> nat \<Rightarrow> nat \<Rightarrow> (bytes \<times> nat) option" where
  "emit_copy_less_than64 m op offset len =
     (if len < 12 \<and> offset < 2048 then do {
        m1 \<leftarrow> mem_write m op
          [word_of_nat (1 OR push_bit 2 (len - 4) OR push_bit 5 (drop_bit 8 offset))];
        m2 \<leftarrow> mem_write m1 (op + 1) [word_of_nat offset];
        Some (m2, op + 2) }
      else do {
        m1 \<leftarrow> mem_write m op [word_of_nat (2 OR push_bit 2 (len - 1))];
        m2 \<leftarrow> mem_write m1 (op + 1) (le_bytes 2 (word_of_nat offset :: u16));
        Some (m2, op + 3) })"

fun emit_copy_loop ::
    "bytes \<Rightarrow> nat \<Rightarrow> nat \<Rightarrow> nat \<Rightarrow> (bytes \<times> nat \<times> nat) option" where
  "emit_copy_loop m op offset len =
     (if 68 \<le> len then do {
        (m', op') \<leftarrow> emit_copy_less_than64 m op offset 64;
        emit_copy_loop m' op' offset (len - 64) }
      else Some (m, op, len))"

declare emit_copy_loop.simps [simp del]

definition emit_copy :: "bytes \<Rightarrow> nat \<Rightarrow> nat \<Rightarrow> nat \<Rightarrow> (bytes \<times> nat) option" where
  "emit_copy m op offset len = do {
     (m1, op1, len1) \<leftarrow> emit_copy_loop m op offset len;
     (m2, op2, len2) \<leftarrow>
       (if 64 < len1 then do {
          (m2, op2) \<leftarrow> emit_copy_less_than64 m1 op1 offset 60;
          Some (m2, op2, len1 - 60) }
        else Some (m1, op1, len1));
     emit_copy_less_than64 m2 op2 offset len2 }"

section \<open>The search for matches\<close>

definition hash_bytes :: "u32 \<Rightarrow> nat \<Rightarrow> u32" where
  "hash_bytes bytes shift = drop_bit shift (bytes * 0x1e35a7bd)"

definition hash :: "bytes \<Rightarrow> nat \<Rightarrow> nat \<Rightarrow> u32 option" where
  "hash m p shift = map_option (\<lambda>v. hash_bytes v shift) (UNALIGNED_LOAD32 m p)"

definition kblock_size :: nat where
  "kblock_size = 32768"

definition kmax_hash_table_size :: nat where
  "kmax_hash_table_size = 16384"

text \<open>
  \<^verbatim>\<open>struct snappy_env\<close>: the hash table and the two scratch buffers of the scatter-gather mode.
  \<^verbatim>\<open>snappy_init_env\<close> allocates the table only; its argument \<open>mem\<close> says whether
  \<^verbatim>\<open>vmalloc\<close> succeeds.
\<close>

record snappy_env =
  hash_table :: "u16 list option"
  env_scratch :: "bytes option"
  env_scratch_output :: "bytes option"

definition ENOMEM :: int where
  "ENOMEM = 12"

definition snappy_init_env :: "bool \<Rightarrow> snappy_env \<Rightarrow> int \<times> snappy_env" where
  "snappy_init_env mem env =
     (if mem then (0, env\<lparr>hash_table := Some (replicate kmax_hash_table_size 0)\<rparr>)
      else (- ENOMEM, env\<lparr>hash_table := None\<rparr>))"

definition snappy_free_env :: "snappy_env \<Rightarrow> snappy_env" where
  "snappy_free_env env = env\<lparr>hash_table := None, env_scratch := None, env_scratch_output := None\<rparr>"

text \<open>\<open>mem\<close> has the outcome of the three calls of \<^verbatim>\<open>vmalloc\<close>.\<close>

definition snappy_init_env_sg :: "bool \<times> bool \<times> bool \<Rightarrow> snappy_env \<Rightarrow> bool \<Rightarrow> int \<times> snappy_env" where
  "snappy_init_env_sg mem env sg =
     (case mem of (m1, m2, m3) \<Rightarrow>
      if \<not> m1 \<or> sg \<and> (\<not> m2 \<or> \<not> m3) then (- ENOMEM, snappy_free_env env)
      else
        (0, (if sg then env\<lparr>hash_table := Some (replicate kmax_hash_table_size 0),
                            env_scratch := Some (replicate kblock_size 0),
                            env_scratch_output :=
                              Some (replicate (snappy_max_compressed_length kblock_size) 0)\<rparr>
             else env\<lparr>hash_table := Some (replicate kmax_hash_table_size 0)\<rparr>)))"

text \<open>
  The first \<open>htsize\<close> entries of the table, all cleared. What a run leaves in the table is never
  read by a later one, so the environment is not updated.
\<close>

definition get_hash_table :: "snappy_env \<Rightarrow> nat \<Rightarrow> (u16 list \<times> nat) option" where
  "get_hash_table env input_size =
     (let htsize = while (\<lambda>h. h < kmax_hash_table_size \<and> h < input_size) (\<lambda>h. h * 2) 256 in do {
        table \<leftarrow> hash_table env;
        table' \<leftarrow> mem_write table 0 (replicate htsize 0);
        Some (take htsize table', htsize) })"

text \<open>The two loops of \<^verbatim>\<open>find_match_length\<close>, for a 64-bit little-endian machine.\<close>

function match_bytes :: "bytes \<Rightarrow> nat \<Rightarrow> nat \<Rightarrow> nat \<Rightarrow> nat \<Rightarrow> nat option" where
  "match_bytes m s1 matched s2 s2_limit =
     (if s2 < s2_limit then do {
        a \<leftarrow> mem_read m (s1 + matched) 1;
        b \<leftarrow> mem_read m s2 1;
        (if a = b then match_bytes m s1 (matched + 1) (s2 + 1) s2_limit else Some matched) }
      else Some matched)"
  by auto
termination by (relation "measure (\<lambda>(m, s1, matched, s2, s2_limit). s2_limit - s2)") auto

declare match_bytes.simps [simp del]

function match_words :: "bytes \<Rightarrow> nat \<Rightarrow> nat \<Rightarrow> nat \<Rightarrow> nat \<Rightarrow> nat option" where
  "match_words m s1 matched s2 s2_limit =
     (if s2 + 8 \<le> s2_limit then do {
        a \<leftarrow> UNALIGNED_LOAD64 m s2;
        b \<leftarrow> UNALIGNED_LOAD64 m (s1 + matched);
        (if a = b then match_words m s1 (matched + 8) (s2 + 8) s2_limit
         else Some (matched + find_lsb_set_non_zero64 (a XOR b) div 8)) }
      else match_bytes m s1 matched s2 s2_limit)"
  by auto
termination by (relation "measure (\<lambda>(m, s1, matched, s2, s2_limit). s2_limit - s2)") auto

declare match_words.simps [simp del]

definition find_match_length :: "bytes \<Rightarrow> nat \<Rightarrow> nat \<Rightarrow> nat \<Rightarrow> nat option" where
  "find_match_length m s1 s2 s2_limit = match_words m s1 0 s2 s2_limit"

section \<open>One fragment\<close>

text \<open>
  The three loops of \<^verbatim>\<open>compress_fragment\<close>. Positions are relative to \<^verbatim>\<open>input\<close>, so \<^verbatim>\<open>baseip\<close> is 0.
  Step 1 scans for a candidate; no candidate is the jump to \<^verbatim>\<open>emit_remainder\<close>.
\<close>

partial_function (option) scan_loop ::
    "bytes \<Rightarrow> nat \<Rightarrow> nat \<Rightarrow> u16 list \<Rightarrow> u32 \<Rightarrow> nat \<Rightarrow> nat \<Rightarrow> (u16 list \<times> (nat \<times> nat) option) option"
  where
  "scan_loop input shift ip_limit table next_hash skip_bytes next_ip =
     (let ip = next_ip; hval = unat next_hash; next_ip' = ip + skip_bytes div 32 in
      if ip_limit < next_ip' then Some (table, None)
      else do {
        next_hash' \<leftarrow> hash input next_ip' shift;
        es \<leftarrow> mem_read table hval 1;
        table' \<leftarrow> mem_write table hval [word_of_nat ip];
        a \<leftarrow> UNALIGNED_LOAD32 input ip;
        b \<leftarrow> UNALIGNED_LOAD32 input (unat (hd es));
        (if a \<noteq> b
         then scan_loop input shift ip_limit table' next_hash' (skip_bytes + 1) next_ip'
         else Some (table', Some (ip, unat (hd es)))) })"

text \<open>
  Step 3 emits copies as long as the next four bytes match too. The result has the position
  behind the last copy, and the next hash unless the input is nearly exhausted.
\<close>

partial_function (option) copy_loop ::
    "bytes \<Rightarrow> nat \<Rightarrow> nat \<Rightarrow> bytes \<Rightarrow> nat \<Rightarrow> u16 list \<Rightarrow> nat \<Rightarrow> nat \<Rightarrow>
       (bytes \<times> nat \<times> u16 list \<times> nat \<times> u32 option) option" where
  "copy_loop input shift ip_limit m op table ip candidate = do {
     n \<leftarrow> find_match_length input (candidate + 4) (ip + 4) (length input);
     (m', op') \<leftarrow> emit_copy m op (ip - candidate) (4 + n);
     (let ip' = ip + (4 + n) in
      if ip_limit \<le> ip' then Some (m', op', table, ip', None)
      else do {
        input_bytes \<leftarrow> UNALIGNED_LOAD64 input (ip' - 1);
        table1 \<leftarrow> mem_write table (unat (hash_bytes (get_u32_at_offset input_bytes 0) shift))
          [word_of_nat (ip' - 1)];
        (let cur_hash = unat (hash_bytes (get_u32_at_offset input_bytes 1) shift) in do {
           es \<leftarrow> mem_read table1 cur_hash 1;
           candidate_bytes \<leftarrow> UNALIGNED_LOAD32 input (unat (hd es));
           table2 \<leftarrow> mem_write table1 cur_hash [word_of_nat ip'];
           (if get_u32_at_offset input_bytes 1 = candidate_bytes
            then copy_loop input shift ip_limit m' op' table2 ip' (unat (hd es))
            else Some (m', op', table2, ip',
                   Some (hash_bytes (get_u32_at_offset input_bytes 2) shift))) }) }) }"

partial_function (option) fragment_loop ::
    "bytes \<Rightarrow> nat \<Rightarrow> nat \<Rightarrow> bytes \<Rightarrow> nat \<Rightarrow> u16 list \<Rightarrow> nat \<Rightarrow> u32 \<Rightarrow> nat \<Rightarrow>
       (bytes \<times> nat \<times> nat) option" where
  "fragment_loop input shift ip_limit m op table ip next_hash next_emit = do {
     (table1, found) \<leftarrow> scan_loop input shift ip_limit table next_hash 32 ip;
     (case found of
        None \<Rightarrow> Some (m, op, next_emit)
      | Some (ip1, candidate) \<Rightarrow> do {
          (m1, op1) \<leftarrow> emit_literal m op input next_emit (ip1 - next_emit) True;
          (m2, op2, table2, ip2, more) \<leftarrow> copy_loop input shift ip_limit m1 op1 table1 ip1 candidate;
          (case more of
             None \<Rightarrow> Some (m2, op2, ip2)
           | Some next_hash' \<Rightarrow>
               fragment_loop input shift ip_limit m2 op2 table2 (ip2 + 1) next_hash' ip2) }) }"

definition compress_fragment ::
    "bytes \<Rightarrow> bytes \<Rightarrow> nat \<Rightarrow> u16 list \<Rightarrow> nat \<Rightarrow> (bytes \<times> nat) option" where
  "compress_fragment input m op table table_size =
     (let shift = nat (32 - log2_floor (word_of_nat table_size));
          input_size = length input in do {
        (m1, op1, next_emit) \<leftarrow>
          (if 15 \<le> input_size then do {
             next_hash \<leftarrow> hash input 1 shift;
             fragment_loop input shift (input_size - 15) m op table 1 next_hash 0 }
           else Some (m, op, 0));
        (if next_emit < input_size
         then emit_literal m1 op1 input next_emit (input_size - next_emit) False
         else Some (m1, op1)) })"

section \<open>The scatter-gather sink and the block loop\<close>

text \<open>
  \<^verbatim>\<open>struct sink\<close>: each \<^verbatim>\<open>struct iovec\<close> is the block it points to and its nominal length.
  \<open>in_place\<close> tells that the data already stands at the destination.
\<close>

record sink =
  snk_iov :: "(bytes \<times> nat) list"
  snk_curvec :: nat
  snk_curoff :: nat
  snk_written :: nat

function append_loop :: "sink \<Rightarrow> bytes \<Rightarrow> sink option" where
  "append_loop s data =
     (if data = [] then Some s
      else if length (snk_iov s) \<le> snk_curvec s + 1 then None
      else
        let v = snk_curvec s + 1; nlen = min (snd (snk_iov s ! v)) (length data) in do {
          b \<leftarrow> mem_write (fst (snk_iov s ! v)) 0 (take nlen data);
          append_loop
            (s\<lparr>snk_iov := (snk_iov s)[v := (b, snd (snk_iov s ! v))], snk_curvec := v,
               snk_curoff := nlen\<rparr>) (drop nlen data) })"
  by auto
termination
  by (relation "measure (\<lambda>(s, data). length (snk_iov s) - snk_curvec s)") auto

declare append_loop.simps [simp del]

definition append_sink :: "sink \<Rightarrow> bool \<Rightarrow> bytes \<Rightarrow> sink option" where
  "append_sink s in_place data =
     (if length (snk_iov s) \<le> snk_curvec s then None
      else case snk_iov s ! snk_curvec s of (b, iov_len) \<Rightarrow>
        let nlen = min (iov_len - snk_curoff s) (length data) in do {
          b' \<leftarrow> (if in_place then Some b else mem_write b (snk_curoff s) (take nlen data));
          append_loop
            (s\<lparr>snk_iov := (snk_iov s)[snk_curvec s := (b', iov_len)],
               snk_written := snk_written s + length data,
               snk_curoff := snk_curoff s + nlen\<rparr>) (drop nlen data) })"

text \<open>Whether \<open>n\<close> bytes fit in one piece behind the current position.\<close>

definition sink_peek :: "sink \<Rightarrow> nat \<Rightarrow> bool" where
  "sink_peek s n \<longleftrightarrow> (let iov_len = snd (snk_iov s ! snk_curvec s) in
     snk_curvec s < iov_len \<and> n \<le> iov_len - snk_curoff s)"

partial_function (option) gather_loop ::
    "bytes \<Rightarrow> source \<Rightarrow> nat \<Rightarrow> nat \<Rightarrow> (bytes \<times> source) option" where
  "gather_loop scratch reader bytes_read num_to_read =
     (if bytes_read < num_to_read then
        (case peek reader of (p, fragment_size) \<Rightarrow>
         let n = min fragment_size (num_to_read - bytes_read) in do {
           src \<leftarrow> (case p of None \<Rightarrow> Some [] | Some (b, off) \<Rightarrow> mem_read b off n);
           scratch' \<leftarrow> mem_write scratch bytes_read src;
           reader' \<leftarrow> skip reader n;
           gather_loop scratch' reader' (bytes_read + n) num_to_read })
      else Some (scratch, reader))"

text \<open>
  The next block to compress: its bytes, the source, and how far the source still has to
  move when the block was taken from the fragment in place.
\<close>

definition next_block ::
    "snappy_env \<Rightarrow> source \<Rightarrow> nat \<Rightarrow> nat \<Rightarrow> (bytes \<times> nat) \<Rightarrow> (bytes \<times> source \<times> nat) option" where
  "next_block env reader fragment_size num_to_read p =
     (case p of (b, off) \<Rightarrow>
      if num_to_read \<le> fragment_size then do {
        fragment \<leftarrow> mem_read b off num_to_read;
        Some (fragment, reader, num_to_read) }
      else do {
        scratch \<leftarrow> env_scratch env;
        src \<leftarrow> mem_read b off fragment_size;
        scratch1 \<leftarrow> mem_write scratch 0 src;
        reader1 \<leftarrow> skip reader fragment_size;
        (scratch2, reader2) \<leftarrow> gather_loop scratch1 reader1 fragment_size num_to_read;
        fragment \<leftarrow> mem_read scratch2 0 num_to_read;
        Some (fragment, reader2, 0) })"

definition compress_block :: "snappy_env \<Rightarrow> sink \<Rightarrow> bytes \<Rightarrow> sink option" where
  "compress_block env s fragment =
     do {
       (table, table_size) \<leftarrow> get_hash_table env (length fragment);
       (if length (snk_iov s) \<le> snk_curvec s then None
        else if sink_peek s (snappy_max_compressed_length (length fragment)) then
          (case snk_iov s ! snk_curvec s of (b, iov_len) \<Rightarrow> do {
             (b', end') \<leftarrow> compress_fragment fragment b (snk_curoff s) table table_size;
             append_sink (s\<lparr>snk_iov := (snk_iov s)[snk_curvec s := (b', iov_len)]\<rparr>) True
               (take (end' - snk_curoff s) (drop (snk_curoff s) b')) })
        else do {
          dest \<leftarrow> env_scratch_output env;
          (dest', end') \<leftarrow> compress_fragment fragment dest 0 table table_size;
          append_sink s False (take end' dest') }) }"

partial_function (option) compress_loop ::
    "snappy_env \<Rightarrow> source \<Rightarrow> sink \<Rightarrow> int \<Rightarrow> (int \<times> sink) option" where
  "compress_loop env reader s N =
     (if 0 < N then
        (case peek reader of (p, fragment_size) \<Rightarrow>
         if fragment_size = 0 then Some (- EIO, s)
         else
           let num_to_read = nat (min N (int kblock_size)) in do {
             ptr \<leftarrow> p;
             (fragment, reader1, pending_advance) \<leftarrow>
               next_block env reader fragment_size num_to_read ptr;
             s' \<leftarrow> compress_block env s fragment;
             reader2 \<leftarrow> skip reader1 pending_advance;
             compress_loop env reader2 s' (N - int num_to_read) })
      else Some (0, s))"

definition compress :: "snappy_env \<Rightarrow> source \<Rightarrow> sink \<Rightarrow> (int \<times> sink) option" where
  "compress env reader s =
     (let N = available reader in do {
        s' \<leftarrow> append_sink s False (varint_encode32 (word_of_int N));
        compress_loop env reader s' N })"

definition snappy_compress_iov ::
    "snappy_env \<Rightarrow> bytes list \<Rightarrow> nat \<Rightarrow> (bytes \<times> nat) list \<Rightarrow> (int \<times> sink) option" where
  "snappy_compress_iov env iov_in input_length iov_out =
     compress env
       \<lparr>src_iov = iov_in, src_curvec = 0, src_curoff = 0, src_total = input_length\<rparr>
       \<lparr>snk_iov = iov_out, snk_curvec = 0, snk_curoff = 0, snk_written = 0\<rparr>"

text \<open>The result has the return code, the output block and the compressed length.\<close>

definition snappy_compress ::
    "snappy_env \<Rightarrow> bytes \<Rightarrow> nat \<Rightarrow> bytes \<Rightarrow> (int \<times> bytes \<times> nat) option" where
  "snappy_compress env input input_length compressed = do {
     src \<leftarrow> mem_read input 0 input_length;
     (err, s) \<leftarrow> snappy_compress_iov env [src] input_length [(compressed, 0xffffffff)];
     Some (err, fst (hd (snk_iov s)), snk_written s) }"

end
