(* ===== verification/Snappy_Emit.thy ===== *)
theory Snappy_Emit
  imports Snappy_Compress
begin

text \<open>
  What the emission routines of the compressor write, and that the reference decoder reads
  it back: the encodings of literals and copies, and their decoding.
\<close>

section \<open>Writing at the end of the output\<close>

text \<open>The step from \<open>m\<close>, \<open>op\<close> to \<open>m'\<close>, \<open>op'\<close> appended \<open>code\<close>; what lies behind is unspecified.\<close>

definition wrote :: "bytes \<Rightarrow> nat \<Rightarrow> bytes \<Rightarrow> nat \<Rightarrow> bytes \<Rightarrow> bool" where
  "wrote m op m' op' code \<longleftrightarrow> length m' = length m \<and> op' = op + length code \<and>
     op' \<le> length m \<and> take op' m' = take op m @ code"

lemma wrote_refl: "op \<le> length m \<Longrightarrow> wrote m op m op []"
  by (simp add: wrote_def)

lemma wrote_trans:
  "wrote m op m1 op1 c1 \<Longrightarrow> wrote m1 op1 m2 op2 c2 \<Longrightarrow> wrote m op m2 op2 (c1 @ c2)"
  by (auto simp: wrote_def)

lemma wrote_write:
  assumes "op + length bs \<le> length m"
  shows "\<exists>m'. mem_write m op bs = Some m' \<and> wrote m op m' (op + length bs) bs"
proof -
  obtain m' where m': "mem_write m op bs = Some m'" using assms by (simp add: mem_write_def)
  then show ?thesis
    using mem_write_length [OF m'] mem_write_prefix [OF m'] assms by (simp add: wrote_def)
qed

lemma wrote_length: "wrote m op m' op' c \<Longrightarrow> length m' = length m"
  by (simp add: wrote_def)

text \<open>Writing sixteen bytes where only the first \<open>len\<close> count.\<close>

lemma wrote_16:
  assumes "len \<le> 16" and "q + 16 \<le> length input" and "op + 16 \<le> length m"
  shows "\<exists>m1 m2. UNALIGNED_STORE64 m op (le_word (take 8 (drop q input))) = Some m1 \<and>
    UNALIGNED_STORE64 m1 (op + 8) (le_word (take 8 (drop (q + 8) input))) = Some m2 \<and>
    wrote m op m2 (op + len) (take len (drop q input))"
proof -
  let ?a = "take 8 (drop q input)" and ?b = "take 8 (drop (q + 8) input)"
  have la: "length ?a = 8" "length ?b = 8" using assms(2) by simp_all
  obtain m1 where m1: "mem_write m op ?a = Some m1" "wrote m op m1 (op + 8) ?a"
    using wrote_write [of op ?a m] assms(3) la by auto
  obtain m2 where m2: "mem_write m1 (op + 8) ?b = Some m2" "wrote m1 (op + 8) m2 (op + 8 + 8) ?b"
    using wrote_write [of "op + 8" ?b m1] assms(3) la wrote_length [OF m1(2)] by auto
  have ab: "?a @ ?b = take 16 (drop q input)"
    using take_add [of 8 8 "drop q input"] by (simp add: add.commute)
  have "wrote m op m2 (op + 16) (take 16 (drop q input))"
    using wrote_trans [OF m1(2) m2(2)] ab by (simp add: add.assoc)
  then have all: "length m2 = length m" "take (op + 16) m2 = take op m @ take 16 (drop q input)"
    by (simp_all add: wrote_def)
  have "take (op + len) m2 = take (op + len) (take (op + 16) m2)"
    using assms(1) by (simp add: min_def)
  also have "\<dots> = take op m @ take len (drop q input)"
    using assms all(2) by (simp add: min_def)
  finally have "wrote m op m2 (op + len) (take len (drop q input))"
    using assms all(1) by (simp add: wrote_def)
  then show ?thesis
    using m1(1) m2(1) assms(2) by (auto simp: STORE64_LOAD64)
qed

section \<open>Literals\<close>

fun le_digits :: "nat \<Rightarrow> bytes" where
  "le_digits n = (if 0 < n then word_of_nat n # le_digits (n div 256) else [])"

declare le_digits.simps [simp del]

definition enc_literal :: "bytes \<Rightarrow> bytes" where
  "enc_literal bs = (let n = length bs - 1 in
     if n < 60 then word_of_nat (n * 4) # bs
     else word_of_nat ((59 + length (le_digits n)) * 4) # le_digits n @ bs)"

lemma le_digits_0 [simp]: "le_digits 0 = []"
  by (simp add: le_digits.simps)

lemma le_word_step:
  "(ucast (word_of_nat n :: byte) OR push_bit 8 (word_of_nat (n div 256)) :: 'a::len word) =
     word_of_nat n"
proof (rule bit_word_eqI)
  fix i assume "i < LENGTH('a)"
  have "n div 256 = drop_bit 8 n" by (simp add: drop_bit_eq_div)
  then have "bit (n div 256) (i - 8) \<longleftrightarrow> bit n i" if "8 \<le> i"
    using that by (simp add: bit_drop_bit_eq)
  then show "bit (ucast (word_of_nat n :: byte) OR push_bit 8 (word_of_nat (n div 256)) :: 'a word) i
      \<longleftrightarrow> bit (word_of_nat n :: 'a word) i"
    using \<open>i < LENGTH('a)\<close> by (auto simp: bit_simps)
qed

lemma le_word_digits: "(le_word (le_digits n) :: 'a::len word) = word_of_nat n"
proof (induction n rule: le_digits.induct)
  case (1 n)
  then show ?case by (subst le_digits.simps) (simp add: le_word_step)
qed

lemma length_le_digits: "n < 256 ^ k \<Longrightarrow> length (le_digits n) \<le> k"
proof (induction k arbitrary: n)
  case (Suc k)
  then show ?case by (subst le_digits.simps) (auto simp: less_mult_imp_div_less)
qed simp

lemma length_le_digits_pos: "0 < n \<Longrightarrow> 0 < length (le_digits n)"
  by (subst le_digits.simps) simp

lemma emit_length_ok:
  assumes "op + length (le_digits n) \<le> length m"
  shows "\<exists>m'. emit_length m op n count =
      Some (m', op + length (le_digits n), count + length (le_digits n)) \<and>
    wrote m op m' (op + length (le_digits n)) (le_digits n)"
  using assms
proof (induction n arbitrary: m op count rule: le_digits.induct)
  case (1 n)
  show ?case
  proof (cases "0 < n")
    case True
    have dig: "le_digits n = word_of_nat n # le_digits (n div 256)"
      using True by (subst le_digits.simps) simp
    obtain m1 where m1: "mem_write m op [word_of_nat n] = Some m1" "wrote m op m1 (op + 1) [word_of_nat n]"
      using wrote_write [of op "[word_of_nat n]" m] "1.prems" dig by auto
    obtain m2 where "emit_length m1 (op + 1) (n div 256) (count + 1) =
        Some (m2, op + 1 + length (le_digits (n div 256)), count + 1 + length (le_digits (n div 256)))"
      "wrote m1 (op + 1) m2 (op + 1 + length (le_digits (n div 256))) (le_digits (n div 256))"
      using "1.IH" [OF True, of "op + 1" m1 "count + 1"] "1.prems" dig wrote_length [OF m1(2)] by auto
    then show ?thesis
      using True m1 dig wrote_trans [OF m1(2)] by (subst emit_length.simps) auto
  next
    case False
    then show ?thesis
      using "1.prems" by (subst emit_length.simps) (simp add: wrote_refl)
  qed
qed

lemma emit_memcpy_ok:
  assumes "literal + len \<le> length input" and "op + len \<le> length m"
  shows "\<exists>m'. emit_memcpy m op input literal len = Some (m', op + len) \<and>
    wrote m op m' (op + len) (take len (drop literal input))"
  using wrote_write [of op "take len (drop literal input)" m] assms
  by (auto simp: emit_memcpy_def mem_read_def)

text \<open>A byte that is filled in late, in front of what was written behind it.\<close>

lemma wrote_base:
  assumes "wrote m (op + 1) m1 op1 code" and "op + 1 \<le> length m"
  shows "\<exists>m2. mem_write m1 op [b] = Some m2 \<and> wrote m op m2 op1 (b # code)"
proof -
  have len: "length m1 = length m" and op1: "op1 = op + 1 + length code" "op1 \<le> length m"
    and pre: "take op1 m1 = take (op + 1) m @ code"
    using assms(1) by (auto simp: wrote_def)
  obtain m2 where m2: "mem_write m1 op [b] = Some m2" using assms(2) len by (simp add: mem_write_def)
  have "take op1 m2 = take op m @ b # code"
  proof (rule nth_equalityI)
    show "length (take op1 m2) = length (take op m @ b # code)"
      using mem_write_length [OF m2] len op1 by simp
    fix i assume "i < length (take op1 m2)"
    then have i: "i < op1" "i < length m1" using mem_write_length [OF m2] by simp_all
    have "m1 ! i = (take (op + 1) m @ code) ! i" using pre i by (metis nth_take)
    then show "take op1 m2 ! i = (take op m @ b # code) ! i"
      using mem_write_nth [OF m2 i(2)] i op1 len by (auto simp: nth_append nth_Cons')
  qed
  then show ?thesis
    using m2 mem_write_length [OF m2] len op1 by (simp add: wrote_def)
qed

lemma emit_literal_ok:
  assumes len: "0 < len" and lit: "literal + len \<le> length input"
    and out: "op + length (enc_literal (take len (drop literal input))) \<le> length m"
    and fast: "fast \<Longrightarrow> literal + 16 \<le> length input \<and> op + 17 \<le> length m"
  shows "\<exists>m' op'. emit_literal m op input literal len fast = Some (m', op') \<and>
    wrote m op m' op' (enc_literal (take len (drop literal input)))"
proof -
  let ?bs = "take len (drop literal input)"
  have bs: "length ?bs = len" using lit by simp
  show ?thesis
  proof (cases "len - 1 < 60")
    case True
    let ?t = "word_of_nat ((len - 1) * 4) :: byte"
    have enc: "enc_literal ?bs = ?t # ?bs" using True bs by (simp add: enc_literal_def)
    have "(int len - 1) * 4 = int ((len - 1) * 4)" using len by simp
    then have tag: "word_of_int ((int len - 1) * 4) = ?t" by (simp only: of_int_of_nat_eq)
    obtain m1 where m1: "mem_write m op [?t] = Some m1" "wrote m op m1 (op + 1) [?t]"
      using wrote_write [of op "[?t]" m] out enc by auto
    note l1 = wrote_length [OF m1(2)]
    have small: "int len - 1 < 60" using True len by simp
    show ?thesis
    proof (cases "fast \<and> len \<le> 16")
      case f: True
      then have f': "literal + 16 \<le> length input" "op + 1 + 16 \<le> length m1" using fast l1 by auto
      obtain m2 m3 where m3:
        "UNALIGNED_STORE64 m1 (op + 1) (le_word (take 8 (drop literal input))) = Some m2"
        "UNALIGNED_STORE64 m2 (op + 1 + 8) (le_word (take 8 (drop (literal + 8) input))) = Some m3"
        "wrote m1 (op + 1) m3 (op + 1 + len) ?bs"
        using wrote_16 [of len literal input "op + 1" m1] f f' by auto
      have "emit_literal m op input literal len fast = Some (m3, op + 1 + len)"
        unfolding emit_literal_def Let_def tag using small f f' m1(1) m3 by (simp add: LOAD64_Some)
      then show ?thesis using wrote_trans [OF m1(2) m3(3)] enc by simp
    next
      case f: False
      obtain m2 where m2: "emit_memcpy m1 (op + 1) input literal len = Some (m2, op + 1 + len)"
        "wrote m1 (op + 1) m2 (op + 1 + len) ?bs"
        using emit_memcpy_ok [OF lit, of "op + 1" m1] out enc bs l1 by auto
      have "emit_literal m op input literal len fast = Some (m2, op + 1 + len)"
        unfolding emit_literal_def Let_def tag using small f m1(1) m2(1) by auto
      then show ?thesis using wrote_trans [OF m1(2) m2(2)] enc by simp
    qed
  next
    case False
    let ?n = "len - 1"
    let ?d = "le_digits ?n"
    let ?t = "word_of_nat ((59 + length ?d) * 4) :: byte"
    have enc: "enc_literal ?bs = (?t # ?d) @ ?bs" using False bs by (simp add: enc_literal_def Let_def)
    obtain m1 where m1: "emit_length m (op + 1) ?n 0 = Some (m1, op + 1 + length ?d, length ?d)"
      "wrote m (op + 1) m1 (op + 1 + length ?d) ?d"
      using emit_length_ok [of "op + 1" ?n m 0] out enc by auto
    obtain m2 where m2: "mem_write m1 op [?t] = Some m2"
      "wrote m op m2 (op + 1 + length ?d) (?t # ?d)"
      using wrote_base [OF m1(2)] out enc by auto
    obtain m3 where m3: "emit_memcpy m2 (op + 1 + length ?d) input literal len =
        Some (m3, op + 1 + length ?d + len)"
      "wrote m2 (op + 1 + length ?d) m3 (op + 1 + length ?d + len) ?bs"
      using emit_memcpy_ok [OF lit, of "op + 1 + length ?d" m2] out enc bs wrote_length [OF m2(2)] by auto
    have "emit_literal m op input literal len fast = Some (m3, op + 1 + length ?d + len)"
    proof -
      have "\<not> int len - 1 < 60" "nat (int len - 1) = ?n" using False by auto
      then show ?thesis
        unfolding emit_literal_def Let_def using m1(1) m2(1) m3(1) by simp
    qed
    then show ?thesis using wrote_trans [OF m2(2) m3(2)] enc by simp
  qed
qed

section \<open>Decoding\<close>

text \<open>
  \<open>code\<close>, read behind the output \<open>pre\<close>, appends \<open>data\<close> to it, whatever follows.
\<close>

definition decodes :: "bytes \<Rightarrow> bytes \<Rightarrow> bytes \<Rightarrow> bool" where
  "decodes code pre data \<longleftrightarrow> (\<forall>lim rest. length pre + length data \<le> lim \<longrightarrow>
     ref_tags lim (code @ rest) pre = ref_tags lim rest (pre @ data))"

lemma decodes_Nil: "decodes [] pre []"
  by (simp add: decodes_def)

lemma decodes_append:
  assumes "decodes c1 pre d1" and "decodes c2 (pre @ d1) d2"
  shows "decodes (c1 @ c2) pre (d1 @ d2)"
  unfolding decodes_def
proof (intro allI impI)
  fix lim rest assume "length pre + length (d1 @ d2) \<le> lim"
  then show "ref_tags lim ((c1 @ c2) @ rest) pre = ref_tags lim rest (pre @ d1 @ d2)"
    using assms by (simp add: decodes_def)
qed

lemma unat_byte_of_nat: "n < 256 \<Longrightarrow> unat (word_of_nat n :: byte) = n"
  by (simp add: unsigned_of_nat take_bit_nat_eq_self)

lemma decodes_literal:
  assumes "bs \<noteq> []" and "length bs < 2 ^ 32"
  shows "decodes (enc_literal bs) pre bs"
proof -
  obtain n where n: "length bs = Suc n" using assms(1) by (cases bs) auto
  show ?thesis
  proof (cases "n < 60")
    case True
    let ?c = "word_of_nat (n * 4) :: byte"
    have c: "unat ?c = n * 4" using True by (intro unat_byte_of_nat) simp
    have "tag_extra ?c = 0" "unat ?c mod 4 = 0" "tag_lit_len ?c xs = length bs" for xs
      using True n by (simp_all only: tag_extra_def tag_lit_len_def c Let_def) simp_all
    then show ?thesis
      using True n by (simp add: decodes_def enc_literal_def Let_def)
  next
    case False
    let ?d = "le_digits n"
    let ?c = "word_of_nat ((59 + length ?d) * 4) :: byte"
    have "n < 256 ^ 4" using assms(2) n by simp
    then have k: "length ?d \<le> 4" by (rule length_le_digits)
    have k0: "0 < length ?d" using False by (intro length_le_digits_pos) simp
    have sixty: "60 \<le> 59 + length ?d" using k0 by linarith
    have c: "unat ?c = (59 + length ?d) * 4" using k by (intro unat_byte_of_nat) simp
    have q: "(59 + length ?d) * 4 div 4 = 59 + length ?d" "(59 + length ?d) * 4 mod 4 = 0" by simp_all
    have "unat ((word_of_nat n :: u32) + 1) = length bs"
    proof -
      have "(word_of_nat n :: u32) + 1 = word_of_nat (Suc n)" by simp
      then show ?thesis using n unat_of_nat32 [OF assms(2)] by (simp add: add.commute)
    qed
    then have "tag_extra ?c = length ?d" "unat ?c mod 4 = 0" "tag_lit_len ?c ?d = length bs"
      by (simp_all only: tag_extra_def tag_lit_len_def c q Let_def le_word_digits sixty if_True) simp
    then show ?thesis
      using False n by (simp add: decodes_def enc_literal_def Let_def)
  qed
qed

section \<open>Copies\<close>

definition enc_copy64 :: "nat \<Rightarrow> nat \<Rightarrow> bytes" where
  "enc_copy64 offset len =
     (if len < 12 \<and> offset < 2048
      then [word_of_nat (1 + (len - 4) * 4 + offset div 256 * 32), word_of_nat offset]
      else [word_of_nat (2 + (len - 1) * 4), word_of_nat offset, word_of_nat (offset div 256)])"

lemma copy_tag_1:
  assumes "a < 8"
  shows "(1 :: nat) OR push_bit 2 a OR push_bit 5 b = 1 + a * 4 + b * 32"
proof -
  have "bit (1 :: nat) n \<longleftrightarrow> n = 0" for n using bit_exp_iff [of 0 n, where 'a = nat] by simp
  then have "(1 :: nat) + push_bit 2 a = 1 OR push_bit 2 a"
    by (intro disjunctive_add) (auto simp: bit_push_bit_iff)
  then have 1: "(1 :: nat) OR push_bit 2 a = 1 + a * 4" by (simp add: push_bit_eq_mult)
  have "take_bit 5 (1 + a * 4) = 1 + a * 4"
    using assms by (intro take_bit_nat_eq_self) simp
  then have low: "\<not> bit (1 + a * 4) n" if "5 \<le> n" for n
    using that by (metis bit_take_bit_iff not_le)
  have "(1 + a * 4) + push_bit 5 b = (1 + a * 4) OR push_bit 5 b"
  proof (rule disjunctive_add)
    show "\<not> bit (1 + a * 4) n \<or> \<not> bit (push_bit 5 b) n" for n
      using low [of n] by (cases "5 \<le> n") (simp_all add: bit_push_bit_iff)
  qed
  also have "(1 + a * 4) OR push_bit 5 b = 1 OR push_bit 2 a OR push_bit 5 b"
    by (simp only: 1 [symmetric] or.assoc)
  finally show ?thesis by (simp only: push_bit_eq_mult) simp
qed

lemma copy_tag_fields:
  assumes "(a :: nat) < 8"
  shows "(1 + a * 4 + b * 32) mod 4 = 1" "(1 + a * 4 + b * 32) div 4 mod 8 = a"
    "(1 + a * 4 + b * 32) div 32 = b"
proof -
  have e: "1 + a * 4 + b * 32 = 1 + 4 * (a + 8 * b)" by simp
  have m: "(1 + 4 * x) mod 4 = 1" for x :: nat by simp
  show "(1 + a * 4 + b * 32) mod 4 = 1" unfolding e by (rule m)
  have d: "(1 + 4 * x) div 4 = x" for x :: nat by simp
  show "(1 + a * 4 + b * 32) div 4 mod 8 = a" unfolding e d using assms by simp
  have "(1 + a * 4 + b * 32) div 32 = (1 + 4 * (a + 8 * b)) div 4 div 8"
    unfolding e by (simp add: div_mult2_eq [symmetric])
  then show "(1 + a * 4 + b * 32) div 32 = b" unfolding d using assms by simp
qed

lemma copy_tag_2: "(2 :: nat) OR push_bit 2 a = 2 + a * 4"
proof -
  have "bit (2 :: nat) n \<longleftrightarrow> n = 1" for n using bit_exp_iff [of 1 n, where 'a = nat] by auto
  then have "(2 :: nat) + push_bit 2 a = 2 OR push_bit 2 a"
    by (intro disjunctive_add) (auto simp: bit_push_bit_iff)
  then show ?thesis by (simp add: push_bit_eq_mult)
qed

lemma le_bytes_2: "le_bytes 2 (word_of_nat n :: u16) = [word_of_nat n, word_of_nat (n div 256)]"
proof -
  have "ucast (word_of_nat n :: u16) = (word_of_nat n :: byte)"
    by (rule bit_word_eqI) (simp add: bit_simps)
  moreover have "ucast (drop_bit 8 (word_of_nat n :: u16)) = (word_of_nat (n div 256) :: byte)"
  proof -
    have "n div 256 = drop_bit 8 n" by (simp add: drop_bit_eq_div)
    then show ?thesis by (auto intro!: bit_word_eqI simp: bit_simps)
  qed
  ultimately show ?thesis by (simp add: le_bytes_def upt_rec)
qed

lemma emit_copy_less_than64_ok:
  assumes "op + length (enc_copy64 offset len) \<le> length m"
  shows "\<exists>m' op'. emit_copy_less_than64 m op offset len = Some (m', op') \<and>
    wrote m op m' op' (enc_copy64 offset len)"
proof -
  have two: "\<exists>m1 m2. mem_write m op [t] = Some m1 \<and> mem_write m1 (op + 1) bs = Some m2 \<and>
      wrote m op m2 (op + (1 + length bs)) (t # bs)" if room: "op + (1 + length bs) \<le> length m" for t bs
  proof -
    obtain m1 where m1: "mem_write m op [t] = Some m1" "wrote m op m1 (op + 1) [t]"
      using wrote_write [of op "[t]" m] room by auto
    obtain m2 where m2: "mem_write m1 (op + 1) bs = Some m2" "wrote m1 (op + 1) m2 (op + 1 + length bs) bs"
      using wrote_write [of "op + 1" bs m1] room wrote_length [OF m1(2)] by auto
    show ?thesis using m1(1) m2(1) wrote_trans [OF m1(2) m2(2)] by (simp add: add.assoc)
  qed
  show ?thesis
  proof (cases "len < 12 \<and> offset < 2048")
    case True
    have small: "offset div 256 < 8" "len - 4 < 8" using True by auto
    have tag: "1 OR push_bit 2 (len - 4) OR push_bit 5 (drop_bit 8 offset) =
        1 + (len - 4) * 4 + offset div 256 * 32"
      using copy_tag_1 [OF small(2)] by (simp add: drop_bit_eq_div)
    show ?thesis
      unfolding emit_copy_less_than64_def tag
      using True two [of "[word_of_nat offset]" "word_of_nat (1 + (len - 4) * 4 + offset div 256 * 32)"]
        assms
      by (auto simp: enc_copy64_def)
  next
    case False
    show ?thesis
      unfolding emit_copy_less_than64_def copy_tag_2 le_bytes_2
      using False two [of "[word_of_nat offset, word_of_nat (offset div 256)]"
          "word_of_nat (2 + (len - 1) * 4)"] assms
      by (auto simp: enc_copy64_def numeral_3_eq_3)
  qed
qed

lemma decodes_copy_tag:
  assumes "unat c mod 4 \<noteq> 0" and "length arg = tag_extra c" and "tag_copy_len c = n"
    and "tag_offset_high c + unat (le_word arg :: u32) = off"
    and "0 < off" "off \<le> length pre" and "pre @ data = copy_self n off pre"
  shows "decodes (c # arg) pre data"
proof -
  have "length data = n" using arg_cong [OF assms(7), of length] by simp
  then show ?thesis using assms by (auto simp: decodes_def Let_def)
qed

lemma decodes_copy64:
  assumes len: "4 \<le> len" "len \<le> 64" and off: "0 < off" "off < 65536" "off \<le> length pre"
    and data: "pre @ data = copy_self len off pre"
  shows "decodes (enc_copy64 off len) pre data"
proof -
  show ?thesis
  proof (cases "len < 12 \<and> off < 2048")
    case True
    let ?t = "1 + (len - 4) * 4 + off div 256 * 32"
    let ?c = "word_of_nat ?t :: byte"
    have small: "off div 256 \<le> 7" using True by linarith
    have c: "unat ?c = ?t" using True small by (intro unat_byte_of_nat) linarith
    have "len - 4 < 8" using True by linarith
    note t = copy_tag_fields [OF this, of "off div 256"]
    have "unat (le_word [word_of_nat off] :: u32) = off mod 256"
      by (simp add: unsigned_ucast_eq unsigned_of_nat take_bit_eq_mod)
    then have "tag_extra ?c = 1" "unat ?c mod 4 \<noteq> 0" "tag_copy_len ?c = len"
      "tag_offset_high ?c + unat (le_word [word_of_nat off] :: u32) = off"
      using len by (simp_all only: tag_extra_def tag_copy_len_def tag_offset_high_def c t Let_def) simp_all
    then have "decodes (?c # [word_of_nat off]) pre data"
      using off(1,3) data by (intro decodes_copy_tag) simp_all
    then show ?thesis using True by (simp add: enc_copy64_def)
  next
    case False
    let ?t = "2 + (len - 1) * 4"
    let ?c = "word_of_nat ?t :: byte" and ?d = "[word_of_nat off, word_of_nat (off div 256)] :: bytes"
    have c: "unat ?c = ?t" using len by (intro unat_byte_of_nat) linarith
    have t: "?t mod 4 = 2" "?t div 4 = len - 1" by presburger+
    have "off div 256 < 256" using off(2) by simp
    then have "ucast (word_of_nat (off div 256) :: byte) = (word_of_nat (off div 256) :: u32)"
      by (simp add: word_unat_eq_iff unsigned_ucast_eq unsigned_of_nat take_bit_nat_eq_self)
    then have "(le_word ?d :: u32) = word_of_nat off" using le_word_step [of off, where 'a = 32] by simp
    then have "unat (le_word ?d :: u32) = off" using off(2) unat_of_nat32 [of off] by simp
    then have "tag_extra ?c = 2" "unat ?c mod 4 \<noteq> 0" "tag_copy_len ?c = len"
      "tag_offset_high ?c + unat (le_word ?d :: u32) = off"
      using len by (simp_all only: tag_extra_def tag_copy_len_def tag_offset_high_def c t Let_def) simp_all
    then have "decodes (?c # ?d) pre data"
      using off(1,3) data by (intro decodes_copy_tag) simp_all
    then show ?thesis using False by (auto simp: enc_copy64_def)
  qed
qed

fun enc_copy :: "nat \<Rightarrow> nat \<Rightarrow> bytes" where
  "enc_copy offset len =
     (if 68 \<le> len then enc_copy64 offset 64 @ enc_copy offset (len - 64)
      else if 64 < len then enc_copy64 offset 60 @ enc_copy64 offset (len - 60)
      else enc_copy64 offset len)"

declare enc_copy.simps [simp del]

lemma length_enc_copy64: "length (enc_copy64 offset len) \<le> 3"
  by (simp add: enc_copy64_def)

lemma length_enc_copy: "4 \<le> len \<Longrightarrow> length (enc_copy offset len) < len"
proof (induction offset len rule: enc_copy.induct)
  case (1 offset len)
  show ?case
  proof (cases "68 \<le> len")
    case True
    then have "length (enc_copy offset (len - 64)) < len - 64" by (intro 1) linarith+
    then show ?thesis
      using True length_enc_copy64 [of offset 64] by (subst enc_copy.simps) simp
  next
    case False
    then show ?thesis
      using 1(2) length_enc_copy64 [of offset 60] length_enc_copy64 [of offset "len - 60"]
        length_enc_copy64 [of offset len]
      by (subst enc_copy.simps) auto
  qed
qed

lemma emit_copy_ok:
  assumes "op + length (enc_copy offset len) \<le> length m"
  shows "\<exists>m' op'. emit_copy m op offset len = Some (m', op') \<and>
    wrote m op m' op' (enc_copy offset len)"
  using assms
proof (induction offset len arbitrary: m op rule: enc_copy.induct)
  case (1 offset len)
  show ?case
  proof (cases "68 \<le> len")
    case True
    then have enc: "enc_copy offset len = enc_copy64 offset 64 @ enc_copy offset (len - 64)"
      by (subst enc_copy.simps) simp
    obtain m1 op1 where m1: "emit_copy_less_than64 m op offset 64 = Some (m1, op1)"
      "wrote m op m1 op1 (enc_copy64 offset 64)"
      using emit_copy_less_than64_ok [of op offset 64 m] "1.prems" enc by auto
    have op1: "op1 = op + length (enc_copy64 offset 64)" using m1(2) by (simp add: wrote_def)
    obtain m2 op2 where m2: "emit_copy m1 op1 offset (len - 64) = Some (m2, op2)"
      "wrote m1 op1 m2 op2 (enc_copy offset (len - 64))"
      using "1.IH" [OF True, of op1 m1] "1.prems" enc op1 wrote_length [OF m1(2)] by auto
    have "emit_copy m op offset len = emit_copy m1 op1 offset (len - 64)"
      using True m1(1) by (simp add: emit_copy_def emit_copy_loop.simps [of m op offset len])
    then show ?thesis using m2 wrote_trans [OF m1(2) m2(2)] enc by simp
  next
    case short: False
    have loop: "emit_copy_loop m op offset len = Some (m, op, len)"
      using short by (simp add: emit_copy_loop.simps)
    show ?thesis
    proof (cases "64 < len")
      case True
      then have enc: "enc_copy offset len = enc_copy64 offset 60 @ enc_copy64 offset (len - 60)"
        using short by (subst enc_copy.simps) simp
      obtain m1 op1 where m1: "emit_copy_less_than64 m op offset 60 = Some (m1, op1)"
        "wrote m op m1 op1 (enc_copy64 offset 60)"
        using emit_copy_less_than64_ok [of op offset 60 m] "1.prems" enc by auto
      have op1: "op1 = op + length (enc_copy64 offset 60)" using m1(2) by (simp add: wrote_def)
      obtain m2 op2 where "emit_copy_less_than64 m1 op1 offset (len - 60) = Some (m2, op2)"
        "wrote m1 op1 m2 op2 (enc_copy64 offset (len - 60))"
        using emit_copy_less_than64_ok [of op1 offset "len - 60" m1] "1.prems" enc op1
          wrote_length [OF m1(2)] by auto
      then show ?thesis
        using True loop m1 wrote_trans [OF m1(2)] enc by (simp add: emit_copy_def)
    next
      case False
      then have "enc_copy offset len = enc_copy64 offset len"
        using short by (subst enc_copy.simps) simp
      then show ?thesis
        using False loop emit_copy_less_than64_ok [of op offset len m] "1.prems"
        by (simp add: emit_copy_def)
    qed
  qed
qed

lemma copy_self_prefix: "\<exists>d. copy_self n off pre = pre @ d \<and> length d = n"
proof (induction n arbitrary: pre)
  case (Suc n)
  then show ?case by (metis append_assoc append_Cons append_Nil copy_self.simps(2) length_Cons)
qed simp

lemma decodes_copy:
  assumes "4 \<le> len" and "0 < off" "off < 65536" "off \<le> length pre"
    and "pre @ data = copy_self len off pre"
  shows "decodes (enc_copy off len) pre data"
  using assms
proof (induction off len arbitrary: pre data rule: enc_copy.induct)
  case (1 off len)
  have split: "\<exists>d1 d2. data = d1 @ d2 \<and> pre @ d1 = copy_self k off pre \<and>
      (pre @ d1) @ d2 = copy_self (len - k) off (pre @ d1)" if k: "k \<le> len" for k
  proof -
    obtain d1 where d1: "copy_self k off pre = pre @ d1" using copy_self_prefix by blast
    obtain d2 where d2: "copy_self (len - k) off (pre @ d1) = (pre @ d1) @ d2"
      using copy_self_prefix by blast
    have "pre @ data = (pre @ d1) @ d2"
      using "1.prems"(5) copy_self_add [of k "len - k" off pre] k d1 d2 by simp
    then show ?thesis using d1 d2 by auto
  qed
  consider "68 \<le> len" | "\<not> 68 \<le> len" "64 < len" | "\<not> 68 \<le> len" "\<not> 64 < len" by blast
  then show ?case
  proof cases
    case c: 1
    obtain d1 d2 where d: "data = d1 @ d2" "pre @ d1 = copy_self 64 off pre"
      "(pre @ d1) @ d2 = copy_self (len - 64) off (pre @ d1)"
    proof -
      have "64 \<le> len" using c by linarith
      then show thesis using split [of 64] that by blast
    qed
    have "decodes (enc_copy64 off 64) pre d1"
      using "1.prems" d by (intro decodes_copy64) simp_all
    moreover have "decodes (enc_copy off (len - 64)) (pre @ d1) d2"
      using "1.prems" d c by (intro "1.IH") (simp_all add: le_diff_conv2)
    ultimately show ?thesis
      using c d(1) decodes_append by (subst enc_copy.simps) simp
  next
    case c: 2
    obtain d1 d2 where d: "data = d1 @ d2" "pre @ d1 = copy_self 60 off pre"
      "(pre @ d1) @ d2 = copy_self (len - 60) off (pre @ d1)"
    proof -
      have "60 \<le> len" using c by linarith
      then show thesis using split [of 60] that by blast
    qed
    have "decodes (enc_copy64 off 60) pre d1"
      using "1.prems" d by (intro decodes_copy64) simp_all
    moreover have "decodes (enc_copy64 off (len - 60)) (pre @ d1) d2"
      using "1.prems" d c by (intro decodes_copy64) simp_all
    ultimately show ?thesis
      using c d(1) decodes_append by (subst enc_copy.simps) simp
  next
    case c: 3
    then show ?thesis
      using "1.prems" decodes_copy64 [of len off pre data] by (subst enc_copy.simps) simp
  qed
qed

end
