(* ===== verification/Snappy_Match.thy ===== *)
theory Snappy_Match
  imports Snappy_Emit
begin

text \<open>
  The search for matches: \<^verbatim>\<open>find_match_length\<close>, eight bytes at a time, computes the length of
  the common prefix, and the hash values index the table.
\<close>

section \<open>Common prefixes\<close>

fun match_len :: "bytes \<Rightarrow> bytes \<Rightarrow> nat" where
  "match_len (x # xs) (y # ys) = (if x = y then Suc (match_len xs ys) else 0)"
| "match_len _ _ = 0"

lemma match_len_le: "match_len xs ys \<le> length xs" "match_len xs ys \<le> length ys"
  by (induction xs ys rule: match_len.induct) auto

lemma match_len_nth: "k < match_len xs ys \<Longrightarrow> xs ! k = ys ! k"
  by (induction xs ys arbitrary: k rule: match_len.induct)
    (auto simp: nth_Cons split: nat.splits if_splits)

lemma match_len_eqI:
  assumes "n \<le> length xs" "n \<le> length ys" "\<And>k. k < n \<Longrightarrow> xs ! k = ys ! k"
    and "n < length xs \<Longrightarrow> n < length ys \<Longrightarrow> xs ! n \<noteq> ys ! n"
  shows "match_len xs ys = n"
  using assms
proof (induction xs ys arbitrary: n rule: match_len.induct)
  case (1 x xs y ys)
  show ?case
  proof (cases n)
    case 0
    then show ?thesis using 1(5) by simp
  next
    case (Suc k)
    then have "x = y" using 1(4) [of 0] by simp
    moreover have "match_len xs ys = k"
      using 1(2,3) 1(4) [of "Suc _"] 1(5) Suc \<open>x = y\<close> by (intro 1(1)) auto
    ultimately show ?thesis using Suc by simp
  qed
qed auto

lemma match_len_append:
  "length xs = length ys \<Longrightarrow> xs = ys \<Longrightarrow> match_len (xs @ us) (ys @ vs) = length xs + match_len us vs"
  by (induction xs ys rule: match_len.induct) auto

lemma match_len_mismatch:
  "length xs = length ys \<Longrightarrow> xs \<noteq> ys \<Longrightarrow> match_len (xs @ us) (ys @ vs) = match_len xs ys"
  by (induction xs ys rule: match_len.induct) auto

text \<open>The first bit in which two words differ lies in the first byte in which they differ.\<close>

lemma length_takeWhile_upt:
  fixes n :: nat and P :: "nat \<Rightarrow> bool"
  defines "p \<equiv> length (takeWhile P [0..<n])"
  shows "p \<le> n" "q < p \<Longrightarrow> P q" "p < n \<Longrightarrow> \<not> P p"
proof -
  show le: "p \<le> n" using length_takeWhile_le [of P "[0..<n]"] by (simp add: p_def)
  show "\<not> P p" if "p < n"
    using nth_length_takeWhile [of P "[0..<n]"] that by (simp add: p_def)
  show "P q" if "q < p"
  proof -
    have "takeWhile P [0..<n] ! q = q" using that le by (simp add: p_def takeWhile_nth)
    then have "q \<in> set (takeWhile P [0..<n])"
      using nth_mem [of q "takeWhile P [0..<n]"] that by (simp add: p_def)
    then show ?thesis by (blast dest: set_takeWhileD)
  qed
qed

lemma find_lsb_set:
  assumes "x \<noteq> 0"
  defines "p \<equiv> find_lsb_set_non_zero64 x"
  shows "p < 64" "bit x p" "q < p \<Longrightarrow> \<not> bit x q"
proof -
  note tw = length_takeWhile_upt [where P = "\<lambda>i. \<not> bit x i" and n = 64,
      folded find_lsb_set_non_zero64_def p_def]
  obtain i where i: "bit x i" using assms(1) by (metis bit_0_eq bit_word_eqI bot_apply bot_bool_def)
  then have "i < 64" using bit_imp_le_length [of x i] by simp
  then show less: "p < 64" using tw(1,2) i by (metis le_neq_implies_less)
  show "bit x p" using tw(3) less by blast
  show "\<not> bit x q" if "q < p" using tw(2) that by blast
qed

lemma find_lsb_match_len:
  assumes len: "length xs = 8" "length ys = 8" and neq: "xs \<noteq> ys"
  shows "find_lsb_set_non_zero64 (le_word xs XOR le_word ys) div 8 = match_len xs ys"
proof -
  let ?x = "le_word xs XOR le_word ys :: u64"
  define p where "p = find_lsb_set_non_zero64 ?x"
  have "a = b" if "a XOR b = 0" for a b :: u64
  proof -
    have "a = (a XOR b) XOR b" by (simp add: xor.assoc)
    then show ?thesis using that by simp
  qed
  then have "?x \<noteq> 0" using neq len le_word_inject [of xs ys, where 'a = 64] by auto
  note p = find_lsb_set [OF this, folded p_def]
  have bits: "bit ?x q \<longleftrightarrow> bit (xs ! (q div 8)) (q mod 8) \<noteq> bit (ys ! (q div 8)) (q mod 8)"
    if "q < 64" for q
  proof -
    have "q div 8 < 8" using that by simp
    then show ?thesis using that len by (simp add: bit_xor_iff bit_le_word)
  qed
  have "match_len xs ys = p div 8"
  proof (rule match_len_eqI)
    show "p div 8 \<le> length xs" "p div 8 \<le> length ys" using p(1) len by simp_all
    show "xs ! (p div 8) \<noteq> ys ! (p div 8)" using p(1,2) bits [of p] by auto
    show "xs ! k = ys ! k" if "k < p div 8" for k
    proof (rule bit_word_eqI)
      fix n assume n: "n < LENGTH(8)"
      have kn: "(8 * k + n) div 8 = k" "(8 * k + n) mod 8 = n" "8 * k + n < p"
        using n that by auto
      then have "\<not> bit ?x (8 * k + n)" using p(3) by simp
      then show "bit (xs ! k) n \<longleftrightarrow> bit (ys ! k) n"
        using bits [of "8 * k + n"] kn p(1) by simp
    qed
  qed
  then show ?thesis by (simp add: p_def)
qed

section \<open>find\_match\_length\<close>

lemma match_bytes_ok:
  assumes "s1 + matched \<le> s2" and "s2 \<le> s2_limit" and "s2_limit \<le> length m"
  shows "match_bytes m s1 matched s2 s2_limit =
    Some (matched + match_len (drop (s1 + matched) m) (take (s2_limit - s2) (drop s2 m)))"
  using assms
proof (induction m s1 matched s2 s2_limit rule: match_bytes.induct)
  case (1 m s1 matched s2 s2_limit)
  show ?case
  proof (cases "s2 < s2_limit")
    case True
    let ?a = "m ! (s1 + matched)" and ?b = "m ! s2"
    have bounds: "s1 + matched < length m" "s2 < length m" using True "1.prems" by simp_all
    have rd: "mem_read m (s1 + matched) 1 = Some [?a]" "mem_read m s2 1 = Some [?b]"
      using bounds by (simp_all add: mem_read_def take_Suc_conv_app_nth)
    have da: "drop (s1 + matched) m = ?a # drop (s1 + (matched + 1)) m"
      using bounds(1) by (simp add: Cons_nth_drop_Suc)
    have db: "take (s2_limit - s2) (drop s2 m) = ?b # take (s2_limit - (s2 + 1)) (drop (s2 + 1) m)"
      using bounds(2) True by (simp add: Cons_nth_drop_Suc [symmetric] take_Cons')
    show ?thesis
      unfolding da db using True rd "1.IH" [OF True rd] "1.prems"
      by (subst match_bytes.simps) auto
  next
    case False
    then show ?thesis using "1.prems" by (subst match_bytes.simps) simp
  qed
qed

lemma match_words_ok:
  assumes "s1 + matched \<le> s2" and "s2 \<le> s2_limit" and "s2_limit \<le> length m"
  shows "match_words m s1 matched s2 s2_limit =
    Some (matched + match_len (drop (s1 + matched) m) (take (s2_limit - s2) (drop s2 m)))"
  using assms
proof (induction m s1 matched s2 s2_limit rule: match_words.induct)
  case (1 m s1 matched s2 s2_limit)
  show ?case
  proof (cases "s2 + 8 \<le> s2_limit")
    case True
    let ?a = "take 8 (drop s2 m)" and ?b = "take 8 (drop (s1 + matched) m)"
    have len: "length ?a = 8" "length ?b = 8" using True "1.prems" by simp_all
    have ld: "UNALIGNED_LOAD64 m s2 = Some (le_word ?a)"
      "UNALIGNED_LOAD64 m (s1 + matched) = Some (le_word ?b)"
      using True "1.prems" by (simp_all add: LOAD64_Some)
    have da: "drop (s1 + matched) m = ?b @ drop (s1 + (matched + 8)) m"
      using append_take_drop_id [of 8 "drop (s1 + matched) m"] by (simp add: ac_simps)
    have db: "take (s2_limit - s2) (drop s2 m) = ?a @ take (s2_limit - (s2 + 8)) (drop (s2 + 8) m)"
      using True take_add [of 8 "s2_limit - (s2 + 8)" "drop s2 m"] by (simp add: add.commute)
    note ml = arg_cong2 [OF da db, of match_len]
    have eq: "(le_word ?a :: u64) = le_word ?b \<longleftrightarrow> ?a = ?b"
      using len by (intro le_word_inject) simp_all
    show ?thesis
    proof (cases "?a = ?b")
      case same: True
      let ?u = "drop (s1 + (matched + 8)) m" and ?v = "take (s2_limit - (s2 + 8)) (drop (s2 + 8) m)"
      have "match_words m s1 (matched + 8) (s2 + 8) s2_limit = Some (matched + 8 + match_len ?u ?v)"
        using "1.IH" [OF True ld] eq same "1.prems" True by auto
      moreover have "match_len (?b @ ?u) (?a @ ?v) = 8 + match_len ?u ?v"
        using match_len_append [OF _ same [symmetric], of ?u ?v] len by simp
      moreover have "match_words m s1 matched s2 s2_limit =
          match_words m s1 (matched + 8) (s2 + 8) s2_limit"
        using True ld eq same by (subst match_words.simps) simp
      ultimately show ?thesis unfolding ml by simp
    next
      case False
      have "match_len (?b @ us) (?a @ vs) = match_len ?b ?a" for us vs
        using False len by (intro match_len_mismatch) auto
      moreover have "find_lsb_set_non_zero64 (le_word ?a XOR le_word ?b) div 8 = match_len ?b ?a"
        using find_lsb_match_len [OF len(2,1)] False by (auto simp: xor.commute)
      moreover have "match_words m s1 matched s2 s2_limit =
          Some (matched + find_lsb_set_non_zero64 (le_word ?a XOR le_word ?b) div 8)"
        using True ld False eq by (subst match_words.simps) simp
      ultimately show ?thesis unfolding ml by simp
    qed
  next
    case False
    then show ?thesis
      using "1.prems" match_bytes_ok by (subst match_words.simps) simp
  qed
qed

lemma find_match_length_ok:
  assumes "s1 \<le> s2" and "s2 \<le> s2_limit" and "s2_limit \<le> length m"
  shows "find_match_length m s1 s2 s2_limit =
    Some (match_len (drop s1 m) (take (s2_limit - s2) (drop s2 m)))"
  using match_words_ok [of s1 0 s2 s2_limit m] assms by (simp add: find_match_length_def)

section \<open>The hash table\<close>

definition env_ok :: "snappy_env \<Rightarrow> bool" where
  "env_ok env \<longleftrightarrow> (\<exists>table. hash_table env = Some table \<and> length table = kmax_hash_table_size)"

lemma snappy_init_env_ok: "env_ok (snd (snappy_init_env True env))"
  by (simp add: env_ok_def snappy_init_env_def)

lemma get_hash_table_ok:
  assumes "env_ok env"
  shows "\<exists>k. 8 \<le> k \<and> k \<le> 14 \<and> get_hash_table env n = Some (replicate (2 ^ k) 0, 2 ^ k)"
proof -
  have "\<exists>k. 8 \<le> k \<and> k \<le> 14 \<and>
      while (\<lambda>h. h < kmax_hash_table_size \<and> h < n) (\<lambda>h. h * 2) 256 = (2 :: nat) ^ k"
  proof (rule while_rule [where P = "\<lambda>h. \<exists>k. 8 \<le> k \<and> k \<le> 14 \<and> h = (2 :: nat) ^ k"
        and r = "measure (\<lambda>h. 16384 - h)"])
    show "\<exists>k. 8 \<le> k \<and> k \<le> 14 \<and> (256 :: nat) = 2 ^ k" by (rule exI [of _ 8]) simp
  next
    fix h assume "\<exists>k. 8 \<le> k \<and> k \<le> 14 \<and> h = (2 :: nat) ^ k"
      and b: "h < kmax_hash_table_size \<and> h < n"
    then obtain k where k: "8 \<le> k" "k \<le> 14" "h = 2 ^ k" by blast
    have "k \<noteq> 14" using b k by (auto simp: kmax_hash_table_size_def)
    then show "\<exists>k. 8 \<le> k \<and> k \<le> 14 \<and> h * 2 = (2 :: nat) ^ k"
      using k by (intro exI [of _ "Suc k"]) auto
    show "(h * 2, h) \<in> measure (\<lambda>h. 16384 - h)"
    proof -
      have "0 < h" using k by simp
      then show ?thesis using b by (auto simp: kmax_hash_table_size_def)
    qed
  qed auto
  then obtain k where k: "8 \<le> k" "k \<le> 14"
    "while (\<lambda>h. h < kmax_hash_table_size \<and> h < n) (\<lambda>h. h * 2) 256 = (2 :: nat) ^ k" by blast
  have "(2 :: nat) ^ k \<le> 2 ^ 14" using k(2) by (intro power_increasing) simp_all
  then show ?thesis
    using k assms
    by (auto simp: get_hash_table_def Let_def env_ok_def mem_write_def kmax_hash_table_size_def)
qed

lemma hash_shift:
  assumes "8 \<le> k" "k \<le> 14"
  shows "nat (32 - log2_floor (word_of_nat (2 ^ k))) = 32 - k"
proof -
  have "log2_floor 256 = 8" "log2_floor 512 = 9" "log2_floor 1024 = 10" "log2_floor 2048 = 11"
    "log2_floor 4096 = 12" "log2_floor 8192 = 13" "log2_floor 16384 = 14"
    by code_simp+
  moreover have "k \<in> {8, 9, 10, 11, 12, 13, 14}" using assms by auto
  ultimately show ?thesis by auto
qed

lemma hash_bytes_less:
  assumes "k \<le> 32"
  shows "unat (hash_bytes v (32 - k)) < 2 ^ k"
proof -
  let ?w = "v * 0x1e35a7bd"
  have "unat ?w < 2 ^ 32" using unsigned_less [of ?w, where 'a = nat] by simp
  also have "(2 :: nat) ^ 32 = 2 ^ k * 2 ^ (32 - k)" using assms by (simp flip: power_add)
  finally have "unat ?w div 2 ^ (32 - k) < 2 ^ k" by (simp add: less_mult_imp_div_less)
  then show ?thesis by (simp add: hash_bytes_def unat_drop_bit)
qed

text \<open>A table of \<open>2 ^ k\<close> positions below \<open>b\<close>.\<close>

definition tab_ok :: "nat \<Rightarrow> u16 list \<Rightarrow> nat \<Rightarrow> bool" where
  "tab_ok k table b \<longleftrightarrow> length table = 2 ^ k \<and> (\<forall>e \<in> set table. unat e < b)"

lemma tab_ok_mono: "tab_ok k table b \<Longrightarrow> b \<le> b' \<Longrightarrow> tab_ok k table b'"
  by (force simp: tab_ok_def)

lemma tab_read:
  assumes "tab_ok k table b" and "i < 2 ^ k"
  shows "\<exists>e. mem_read table i 1 = Some [e] \<and> unat e < b"
  using assms by (auto simp: tab_ok_def mem_read_def take_Suc_conv_app_nth)

lemma tab_write:
  assumes "tab_ok k table b" and "i < 2 ^ k" and "v < b'" and "b \<le> b'" and "v < 65536"
  shows "\<exists>table'. mem_write table i [word_of_nat v] = Some table' \<and> tab_ok k table' b'"
proof -
  have v: "unat (word_of_nat v :: u16) = v"
    using assms(5) by (simp add: unsigned_of_nat take_bit_nat_eq_self)
  obtain table' where t: "mem_write table i [word_of_nat v :: u16] = Some table'"
    using assms by (simp add: mem_write_def tab_ok_def)
  have "set table' \<subseteq> insert (word_of_nat v) (set table)"
    using t by (auto simp: mem_write_def split: if_splits dest: in_set_takeD in_set_dropD)
  then show ?thesis
    using t v mem_write_length [OF t] assms by (force simp: tab_ok_def)
qed

end
