(* ===== verification/Snappy_Fragment.thy ===== *)
theory Snappy_Fragment
  imports Snappy_Match
begin

text \<open>
  \<^verbatim>\<open>compress_fragment\<close> and \<^verbatim>\<open>compress\<close>: every loop ends, no access leaves its block, the tags that
  are written decode to the input, and their number is bounded.
\<close>

section \<open>Scanning\<close>

text \<open>The input of one block, its last position for the scan, and the size of the table.\<close>

definition block_ok :: "bytes \<Rightarrow> nat \<Rightarrow> nat \<Rightarrow> bool" where
  "block_ok input ip_limit k \<longleftrightarrow> length input \<le> 32768 \<and> ip_limit + 15 = length input \<and> k \<le> 14"

lemma scan_loop_ok:
  assumes "block_ok input ip_limit k" and "tab_ok k table next_ip" and "unat next_hash < 2 ^ k"
    and "32 \<le> skip_bytes"
  shows "\<exists>table' found.
    scan_loop input (32 - k) ip_limit table next_hash skip_bytes next_ip = Some (table', found) \<and>
    (\<forall>ip cand. found = Some (ip, cand) \<longrightarrow> next_ip \<le> ip \<and> ip < ip_limit \<and> cand < ip \<and>
       take 4 (drop ip input) = take 4 (drop cand input) \<and> tab_ok k table' (ip + 1))"
  using assms
proof (induction "ip_limit - next_ip" arbitrary: table next_hash skip_bytes next_ip
    rule: less_induct)
  case less
  let ?ip = next_ip and ?next = "next_ip + skip_bytes div 32"
  have size: "length input \<le> 32768" "ip_limit + 15 = length input" "k \<le> 14"
    using less.prems(1) by (simp_all add: block_ok_def)
  have step: "next_ip < ?next" using less.prems(4) by auto
  show ?case
  proof (cases "ip_limit < ?next")
    case True
    then show ?thesis by (subst scan_loop.simps) (simp add: Let_def)
  next
    case False
    obtain e where e: "mem_read table (unat next_hash) 1 = Some [e]" "unat e < ?ip"
      using tab_read [OF less.prems(2,3)] by blast
    obtain table1 where t1: "mem_write table (unat next_hash) [word_of_nat ?ip] = Some table1"
      "tab_ok k table1 (?ip + 1)"
      using tab_write [OF less.prems(2,3), of ?ip "?ip + 1"] False size step by auto
    have ld: "UNALIGNED_LOAD32 input p = Some (le_word (take 4 (drop p input)))" if "p \<le> ip_limit" for p
      using that size by (intro LOAD32_Some) simp
    let ?h = "hash_bytes (le_word (take 4 (drop ?next input))) (32 - k)"
    have run: "scan_loop input (32 - k) ip_limit table next_hash skip_bytes next_ip =
        (if le_word (take 4 (drop ?ip input)) \<noteq> (le_word (take 4 (drop (unat e) input)) :: u32)
         then scan_loop input (32 - k) ip_limit table1 ?h (skip_bytes + 1) ?next
         else Some (table1, Some (?ip, unat e)))"
      using False e t1(1) step ld
      by (subst scan_loop.simps) (simp add: Let_def hash_def)
    have eq: "le_word (take 4 (drop ?ip input)) = (le_word (take 4 (drop (unat e) input)) :: u32) \<longleftrightarrow>
        take 4 (drop ?ip input) = take 4 (drop (unat e) input)"
      using False step e(2) size by (intro le_word_inject) auto
    show ?thesis
    proof (cases "take 4 (drop ?ip input) = take 4 (drop (unat e) input)")
      case same: True
      then show ?thesis using run eq e(2) t1(2) False step by auto
    next
      case differ: False
      have "unat ?h < 2 ^ k" using size by (intro hash_bytes_less) simp
      moreover have "tab_ok k table1 ?next" using tab_ok_mono [OF t1(2), of ?next] step by simp
      ultimately have "\<exists>table' found.
          scan_loop input (32 - k) ip_limit table1 ?h (skip_bytes + 1) ?next = Some (table', found) \<and>
          (\<forall>ip cand. found = Some (ip, cand) \<longrightarrow> ?next \<le> ip \<and> ip < ip_limit \<and> cand < ip \<and>
             take 4 (drop ip input) = take 4 (drop cand input) \<and> tab_ok k table' (ip + 1))"
        using less.prems False step by (intro less.hyps) auto
      then show ?thesis using run eq differ step by fastforce
    qed
  qed
qed

section \<open>Copying\<close>

text \<open>A copy of \<open>n\<close> matching bytes extends the output along the input.\<close>

lemma copy_self_match:
  assumes "cand < ip" and "ip + n \<le> length input"
    and "\<And>i. i < n \<Longrightarrow> input ! (cand + i) = input ! (ip + i)"
  shows "copy_self n (ip - cand) (P @ take ip input) = P @ take (ip + n) input"
  using assms(2,3)
proof (induction n)
  case (Suc n)
  have IH: "copy_self n (ip - cand) (P @ take ip input) = P @ take (ip + n) input"
    using Suc by simp
  have "(P @ take (ip + n) input) ! (length P + (cand + n)) = input ! (cand + n)"
    using assms(1) by (simp add: nth_append)
  moreover have "length (P @ take ip input) + n - (ip - cand) = length P + (cand + n)"
    using assms(1) Suc.prems(1) by simp
  moreover have "take (ip + Suc n) input = take (ip + n) input @ [input ! (ip + n)]"
    using Suc.prems(1) by (simp add: take_Suc_conv_app_nth)
  ultimately show ?case
    using Suc.prems(2) [of n] by (simp add: copy_self_Suc IH del: copy_self.simps)
qed simp

text \<open>The code for the input between two positions, whatever was decoded before the block.\<close>

definition codes :: "bytes \<Rightarrow> nat \<Rightarrow> nat \<Rightarrow> bytes \<Rightarrow> bool" where
  "codes input i j code \<longleftrightarrow> i \<le> j \<and> j \<le> length input \<and>
     (\<forall>P. decodes code (P @ take i input) (take (j - i) (drop i input)))"

lemma codes_append:
  assumes "codes input i j c1" and "codes input j l c2"
  shows "codes input i l (c1 @ c2)"
proof -
  have ij: "i \<le> j" "j \<le> l" "l \<le> length input" using assms by (simp_all add: codes_def)
  have 1: "take j input = take i input @ take (j - i) (drop i input)"
    using ij(1) by (metis le_add_diff_inverse take_add)
  have 2: "take (l - i) (drop i input) = take (j - i) (drop i input) @ take (l - j) (drop j input)"
    using ij take_add [of "j - i" "l - j" "drop i input"] by simp
  have "decodes (c1 @ c2) (P @ take i input)
      (take (j - i) (drop i input) @ take (l - j) (drop j input))" for P
    using assms decodes_append 1 unfolding codes_def by (metis append_assoc)
  then show ?thesis using ij 2 by (simp add: codes_def)
qed

lemma codes_copy:
  assumes "cand < ip" "4 \<le> n" "ip + n \<le> length input" "length input \<le> 32768"
    and "\<And>i. i < n \<Longrightarrow> input ! (cand + i) = input ! (ip + i)"
  shows "codes input ip (ip + n) (enc_copy (ip - cand) n)"
  unfolding codes_def
proof (intro conjI allI)
  fix P
  have "P @ take (ip + n) input = (P @ take ip input) @ take n (drop ip input)"
    by (simp add: take_add)
  then show "decodes (enc_copy (ip - cand) n) (P @ take ip input)
      (take (ip + n - ip) (drop ip input))"
    using assms copy_self_match [of cand ip n input P] by (intro decodes_copy) auto
qed (use assms in auto)

lemma codes_literal:
  assumes "i < j" "j \<le> length input" "length input < 2 ^ 32"
  shows "codes input i j (enc_literal (take (j - i) (drop i input)))"
  using assms by (auto simp: codes_def intro!: decodes_literal)

lemma copy_loop_ok:
  assumes "block_ok input ip_limit k" and "tab_ok k table (ip + 1)" and "cand < ip"
    and "ip < length input" and "take 4 (drop ip input) = take 4 (drop cand input)"
    and "ip + 4 \<le> length input" and "op + (length input - ip) \<le> length m"
  shows "\<exists>m' op' table' ip' more code.
    copy_loop input (32 - k) ip_limit m op table ip cand = Some (m', op', table', ip', more) \<and>
    wrote m op m' op' code \<and> codes input ip ip' code \<and> ip + 4 \<le> ip' \<and>
    length code < ip' - ip \<and>
    (\<forall>h. more = Some h \<longrightarrow> ip' < ip_limit \<and> unat h < 2 ^ k \<and> tab_ok k table' (ip' + 1))"
  using assms
proof (induction "length input - ip" arbitrary: m op table ip cand rule: less_induct)
  case less
  let ?size = "length input"
  have size: "?size \<le> 32768" "ip_limit + 15 = ?size" "k \<le> 14"
    using less.prems(1) by (simp_all add: block_ok_def)
  define l where "l = match_len (drop (cand + 4) input) (take (?size - (ip + 4)) (drop (ip + 4) input))"
  define n where "n = 4 + l"
  define ip' where "ip' = ip + n"
  have fm: "find_match_length input (cand + 4) (ip + 4) ?size = Some l"
    unfolding l_def using less.prems(3,6) by (intro find_match_length_ok) simp_all
  have "l \<le> ?size - (ip + 4)"
    using match_len_le(2) [of "drop (cand + 4) input" "take (?size - (ip + 4)) (drop (ip + 4) input)"]
    by (simp add: l_def)
  then have n: "4 \<le> n" "ip + n \<le> ?size" using less.prems(6) by (simp_all add: n_def)
  have match: "input ! (cand + i) = input ! (ip + i)" if "i < n" for i
  proof (cases "i < 4")
    case True
    then have "take 4 (drop ip input) ! i = input ! (ip + i)"
      "take 4 (drop cand input) ! i = input ! (cand + i)"
      using less.prems(3,6) by simp_all
    then show ?thesis using less.prems(5) by simp
  next
    case False
    then have i: "i - 4 < l" using that by (simp add: n_def)
    then have "drop (cand + 4) input ! (i - 4) =
        take (?size - (ip + 4)) (drop (ip + 4) input) ! (i - 4)"
      unfolding l_def by (rule match_len_nth)
    moreover have "ip + i < ?size" using that n(2) by simp
    ultimately show ?thesis using False less.prems(3) by simp
  qed
  have code: "codes input ip ip' (enc_copy (ip - cand) n)"
    unfolding ip'_def using less.prems(3) n size(1) match by (rule codes_copy)
  have short: "length (enc_copy (ip - cand) n) < n" using n(1) by (rule length_enc_copy)
  have "op + length (enc_copy (ip - cand) n) \<le> length m"
    using less.prems(7) short n(2) by linarith
  then obtain m1 op1 where m1: "emit_copy m op (ip - cand) n = Some (m1, op1)"
    "wrote m op m1 op1 (enc_copy (ip - cand) n)"
    using emit_copy_ok by blast
  show ?case
  proof (cases "ip_limit \<le> ip'")
    case True
    have "copy_loop input (32 - k) ip_limit m op table ip cand = Some (m1, op1, table, ip', None)"
      using True fm m1(1) by (subst copy_loop.simps) (simp add: n_def ip'_def Let_def)
    then show ?thesis
      using m1(2) code short n(1) by (auto simp: ip'_def)
  next
    case False
    then have lim: "ip' + 15 < ?size" "0 < ip'" using size(2) n(1) by (simp_all add: ip'_def)
    let ?b = "take 8 (drop (ip' - 1) input)"
    have lb: "length ?b = 8" using lim by simp
    have ld: "UNALIGNED_LOAD64 input (ip' - 1) = Some (le_word ?b)"
      using lim by (intro LOAD64_Some) simp
    have cur: "get_u32_at_offset (le_word ?b) 1 = le_word (take 4 (drop ip' input))"
      using get_u32_at_offset [OF lb, of 1] lim by (simp add: drop_take)
    define h where "h j = hash_bytes (get_u32_at_offset (le_word ?b) j) (32 - k)" for j
    have h: "unat (h j) < 2 ^ k" for j unfolding h_def using size(3) by (intro hash_bytes_less) simp
    have "ip' - 1 < ip'" "ip + 1 \<le> ip'" "ip' - 1 < 65536"
      using n(1) lim size(1) by (auto simp: ip'_def)
    then obtain table1 where
      t1: "mem_write table (unat (h 0)) [word_of_nat (ip' - 1)] = Some table1" "tab_ok k table1 ip'"
      using tab_write [OF less.prems(2) h [of 0]] by blast
    obtain e where e: "mem_read table1 (unat (h 1)) 1 = Some [e]" "unat e < ip'"
      using tab_read [OF t1(2) h] by blast
    obtain table2 where t2: "mem_write table1 (unat (h 1)) [word_of_nat ip'] = Some table2"
      "tab_ok k table2 (ip' + 1)"
      using tab_write [OF t1(2) h [of 1], of ip' "ip' + 1"] lim size(1) by auto
    have lc: "UNALIGNED_LOAD32 input (unat e) = Some (le_word (take 4 (drop (unat e) input)))"
      using e(2) lim by (intro LOAD32_Some) simp
    have eq: "le_word (take 4 (drop ip' input)) = (le_word (take 4 (drop (unat e) input)) :: u32) \<longleftrightarrow>
        take 4 (drop ip' input) = take 4 (drop (unat e) input)"
      using e(2) lim by (intro le_word_inject) auto
    have run: "copy_loop input (32 - k) ip_limit m op table ip cand =
        (if take 4 (drop ip' input) = take 4 (drop (unat e) input)
         then copy_loop input (32 - k) ip_limit m1 op1 table2 ip' (unat e)
         else Some (m1, op1, table2, ip', Some (h 2)))"
      using False fm m1(1) ld t1(1) e(1) t2(1) lc cur eq
      by (subst copy_loop.simps) (simp add: n_def [symmetric] ip'_def [symmetric] Let_def h_def)
    show ?thesis
    proof (cases "take 4 (drop ip' input) = take 4 (drop (unat e) input)")
      case differ: False
      then show ?thesis
        using run m1(2) code short n(1) False h [of 2] t2(2) by (auto simp: ip'_def)
    next
      case same: True
      have op1: "op1 = op + length (enc_copy (ip - cand) n)" using m1(2) by (simp add: wrote_def)
      have "\<exists>m' op' table' ip2 more code.
        copy_loop input (32 - k) ip_limit m1 op1 table2 ip' (unat e) = Some (m', op', table', ip2, more) \<and>
        wrote m1 op1 m' op' code \<and> codes input ip' ip2 code \<and> ip' + 4 \<le> ip2 \<and>
        length code < ip2 - ip' \<and>
        (\<forall>h. more = Some h \<longrightarrow> ip2 < ip_limit \<and> unat h < 2 ^ k \<and> tab_ok k table' (ip2 + 1))"
        using less.prems(1,4,7) t2(2) e(2) same lim n op1 short wrote_length [OF m1(2)]
        by (intro less.hyps) (simp_all add: ip'_def)
      then obtain m' op' table' ip2 more code' where IH:
        "copy_loop input (32 - k) ip_limit m1 op1 table2 ip' (unat e) = Some (m', op', table', ip2, more)"
        "wrote m1 op1 m' op' code'" "codes input ip' ip2 code'" "ip' + 4 \<le> ip2"
        "length code' < ip2 - ip'"
        "\<forall>h. more = Some h \<longrightarrow> ip2 < ip_limit \<and> unat h < 2 ^ k \<and> tab_ok k table' (ip2 + 1)"
        by blast
      have "length (enc_copy (ip - cand) n @ code') < ip2 - ip" "ip + 4 \<le> ip2"
        using short IH(4,5) n(1) by (simp_all add: ip'_def)
      then show ?thesis
        using run same IH(1,6) wrote_trans [OF m1(2) IH(2)] codes_append [OF code IH(3)] by auto
    qed
  qed
qed

section \<open>The fragment\<close>

lemma length_enc_literal:
  assumes "0 < length bs" "length bs \<le> 65536"
  shows "length (enc_literal bs) \<le>
    length bs + (if length bs \<le> 60 then 1 else if length bs \<le> 256 then 2 else 3)"
proof -
  let ?n = "length bs - 1"
  have "?n < 256 ^ 2" using assms by simp
  then have "length (le_digits ?n) \<le> 2" by (rule length_le_digits)
  moreover have "length (le_digits ?n) \<le> 1" if "length bs \<le> 256"
    using that assms(1) length_le_digits [of ?n 1] by simp
  ultimately show ?thesis
    using assms(1) by (auto simp: enc_literal_def Let_def)
qed

text \<open>Sixty input bytes cost at most one byte on top.\<close>

lemma literal_copy_cost:
  fixes L c lit :: nat
  assumes "4 \<le> c" and "lit \<le> L + (if L \<le> 60 then 1 else if L \<le> 256 then 2 else 3)"
  shows "lit + (c - 1) \<le> (L + c) + (L + c) div 60"
proof -
  have "2 \<le> (L + c) div 60" if "256 < L"
  proof -
    have "2 * 60 \<le> L + c" using that by simp
    then show ?thesis by (simp add: less_eq_div_iff_mult_less_eq)
  qed
  moreover have "1 \<le> (L + c) div 60" if "60 < L"
  proof -
    have "1 * 60 \<le> L + c" using that by simp
    then show ?thesis by (simp add: less_eq_div_iff_mult_less_eq)
  qed
  ultimately show ?thesis using assms by (auto split: if_splits)
qed

lemma div_60_add: "a div 60 + b div 60 \<le> (a + b) div (60 :: nat)"
  by (metis div_add1_eq le_add1)

lemma fragment_loop_ok:
  assumes "block_ok input ip_limit k" and "tab_ok k table ip" and "unat next_hash < 2 ^ k"
    and "next_emit < ip" and "next_emit \<le> length input"
    and "op + (length input - next_emit) + (length input - next_emit) div 60 + 17 \<le> length m"
  shows "\<exists>m' op' e code.
    fragment_loop input (32 - k) ip_limit m op table ip next_hash next_emit = Some (m', op', e) \<and>
    wrote m op m' op' code \<and> codes input next_emit e code \<and>
    length code \<le> (e - next_emit) + (e - next_emit) div 60"
  using assms
proof (induction "length input - next_emit" arbitrary: m op table ip next_hash next_emit
    rule: less_induct)
  case less
  let ?size = "length input"
  have size: "?size \<le> 32768" "ip_limit + 15 = ?size" "k \<le> 14"
    using less.prems(1) by (simp_all add: block_ok_def)
  obtain table1 found where sc:
    "scan_loop input (32 - k) ip_limit table next_hash 32 ip = Some (table1, found)"
    "\<And>ip1 cand. found = Some (ip1, cand) \<Longrightarrow> ip \<le> ip1 \<and> ip1 < ip_limit \<and> cand < ip1 \<and>
       take 4 (drop ip1 input) = take 4 (drop cand input) \<and> tab_ok k table1 (ip1 + 1)"
    using scan_loop_ok [OF less.prems(1-3), of 32] by auto
  show ?case
  proof (cases found)
    case None
    have "codes input next_emit next_emit []"
      using less.prems(5) decodes_Nil by (simp add: codes_def)
    moreover have "wrote m op m op []" using less.prems(6) by (intro wrote_refl) linarith
    ultimately show ?thesis
      using sc(1) None by (subst fragment_loop.simps) fastforce
  next
    case (Some p)
    obtain ip1 cand where p: "p = (ip1, cand)" by force
    note s = sc(2) [OF Some [unfolded p]]
    define L where "L = ip1 - next_emit"
    define lit where "lit = enc_literal (take L (drop next_emit input))"
    have L: "0 < L" "next_emit + L = ip1" "ip1 + 15 < ?size"
      using s less.prems(4) size(2) by (simp_all add: L_def)
    have bs: "length (take L (drop next_emit input)) = L" using L by simp
    have cost: "length lit \<le> L + (if L \<le> 60 then 1 else if L \<le> 256 then 2 else 3)"
      unfolding lit_def
      using length_enc_literal [of "take L (drop next_emit input)", unfolded bs] L size(1)
      by linarith
    then have "length lit \<le> L + 3" by (auto split: if_splits)
    then have room: "op + length lit \<le> length m" "op + length lit + (?size - ip1) \<le> length m"
      using less.prems(6) L by linarith+
    obtain m1 op1 where m1: "emit_literal m op input next_emit L True = Some (m1, op1)"
      "wrote m op m1 op1 lit"
      using emit_literal_ok [of L next_emit input op m True] L room(1) less.prems(6)
      unfolding lit_def by auto
    have op1: "op1 = op + length lit" using m1(2) by (simp add: wrote_def)
    have c1: "codes input next_emit ip1 lit"
      unfolding lit_def L_def using L size(1) less.prems(4) s by (intro codes_literal) auto
    obtain m2 op2 table2 ip2 more code where cp:
      "copy_loop input (32 - k) ip_limit m1 op1 table1 ip1 cand = Some (m2, op2, table2, ip2, more)"
      "wrote m1 op1 m2 op2 code" "codes input ip1 ip2 code" "ip1 + 4 \<le> ip2"
      "length code < ip2 - ip1"
      "\<And>h. more = Some h \<Longrightarrow> ip2 < ip_limit \<and> unat h < 2 ^ k \<and> tab_ok k table2 (ip2 + 1)"
      using copy_loop_ok [OF less.prems(1), of table1 ip1 cand op1 m1] s L room(2) op1
        wrote_length [OF m1(2)] by auto
    have w2: "wrote m op m2 op2 (lit @ code)" using m1(2) cp(2) by (rule wrote_trans)
    have c2: "codes input next_emit ip2 (lit @ code)" using c1 cp(3) by (rule codes_append)
    define g where "g = ip2 - next_emit"
    have g: "g = L + (ip2 - ip1)" "0 < g" using L(2) cp(4) by (simp_all add: g_def)
    have ip2: "ip2 \<le> ?size" "next_emit + g = ip2" using cp(3,4) L(2) by (auto simp: codes_def g_def)
    have "length lit + (ip2 - ip1 - 1) \<le> g + g div 60"
      unfolding g(1) using cp(4) cost by (intro literal_copy_cost) simp_all
    then have len: "length (lit @ code) \<le> g + g div 60" using cp(5) by simp
    show ?thesis
    proof (cases more)
      case None
      then show ?thesis
        using sc(1) Some p m1(1) cp(1) w2 c2 len
        by (subst fragment_loop.simps) (auto simp: L_def [symmetric] g_def [symmetric])
    next
      case (Some h)
      note mo = cp(6) [OF Some]
      have op2: "op2 = op + length (lit @ code)" "length m2 = length m"
        using w2 by (simp_all add: wrote_def)
      have "g div 60 + (?size - ip2) div 60 \<le> (?size - next_emit) div 60"
        using div_60_add [of g "?size - ip2"] ip2 by (simp add: g_def)
      then have room2: "op2 + (?size - ip2) + (?size - ip2) div 60 + 17 \<le> length m2"
        using less.prems(6) len op2 ip2 by linarith
      have "\<exists>m' op' e code.
          fragment_loop input (32 - k) ip_limit m2 op2 table2 (ip2 + 1) h ip2 = Some (m', op', e) \<and>
          wrote m2 op2 m' op' code \<and> codes input ip2 e code \<and>
          length code \<le> (e - ip2) + (e - ip2) div 60"
        using mo less.prems(1) ip2 g(2) room2 by (intro less.hyps) auto
      then obtain m' op' e code' where IH:
        "fragment_loop input (32 - k) ip_limit m2 op2 table2 (ip2 + 1) h ip2 = Some (m', op', e)"
        "wrote m2 op2 m' op' code'" "codes input ip2 e code'"
        "length code' \<le> (e - ip2) + (e - ip2) div 60"
        by blast
      have "fragment_loop input (32 - k) ip_limit m op table ip next_hash next_emit = Some (m', op', e)"
        using sc(1) \<open>found = Some p\<close> p m1(1) cp(1) Some IH(1)
        by (subst fragment_loop.simps) (simp add: L_def [symmetric])
      moreover have "length ((lit @ code) @ code') \<le> (e - next_emit) + (e - next_emit) div 60"
      proof -
        have "ip2 \<le> e" using IH(3) by (simp add: codes_def)
        then have "e - next_emit = g + (e - ip2)" using ip2 by simp
        then show ?thesis using len IH(4) div_60_add [of g "e - ip2"] by simp
      qed
      ultimately show ?thesis
        using wrote_trans [OF w2 IH(2)] codes_append [OF c2 IH(3)] by blast
    qed
  qed
qed

lemma compress_fragment_ok:
  assumes size: "length input \<le> 32768" and k: "8 \<le> k" "k \<le> 14"
    and room: "op + length input + length input div 60 + 17 \<le> length m"
  shows "\<exists>m' op' code. compress_fragment input m op (replicate (2 ^ k) 0) (2 ^ k) = Some (m', op') \<and>
    wrote m op m' op' code \<and> codes input 0 (length input) code \<and>
    length code \<le> length input + length input div 60 + 3"
proof -
  let ?size = "length input"
  have "\<exists>m1 op1 e code1.
      (if 15 \<le> ?size then do {
         next_hash \<leftarrow> hash input 1 (32 - k);
         fragment_loop input (32 - k) (?size - 15) m op (replicate (2 ^ k) 0) 1 next_hash 0 }
       else Some (m, op, 0)) = Some (m1, op1, e) \<and>
      wrote m op m1 op1 code1 \<and> codes input 0 e code1 \<and> length code1 \<le> e + e div 60"
  proof (cases "15 \<le> ?size")
    case True
    let ?h = "hash_bytes (le_word (take 4 (drop 1 input))) (32 - k)"
    have "hash input 1 (32 - k) = Some ?h" using True by (simp add: hash_def LOAD32_Some)
    moreover have "unat ?h < 2 ^ k" using k by (intro hash_bytes_less) simp
    moreover have "block_ok input (?size - 15) k" using True size k by (simp add: block_ok_def)
    moreover have "tab_ok k (replicate (2 ^ k) 0) 1" by (simp add: tab_ok_def)
    ultimately show ?thesis
      using fragment_loop_ok [of input "?size - 15" k "replicate (2 ^ k) 0" 1 ?h 0 op m] True room
      by auto
  next
    case False
    have "wrote m op m op []" using room by (intro wrote_refl) linarith
    moreover have "codes input 0 0 []" using decodes_Nil by (simp add: codes_def)
    ultimately show ?thesis using False by (intro exI [of _ "[]"] exI) auto
  qed
  then obtain m1 op1 e code1 where 1:
    "(if 15 \<le> ?size then do {
        next_hash \<leftarrow> hash input 1 (32 - k);
        fragment_loop input (32 - k) (?size - 15) m op (replicate (2 ^ k) 0) 1 next_hash 0 }
      else Some (m, op, 0)) = Some (m1, op1, e)"
    "wrote m op m1 op1 code1" "codes input 0 e code1" "length code1 \<le> e + e div 60"
    by blast
  have e: "e \<le> ?size" using 1(3) by (simp add: codes_def)
  have run: "compress_fragment input m op (replicate (2 ^ k) 0) (2 ^ k) =
      (if e < ?size then emit_literal m1 op1 input e (?size - e) False else Some (m1, op1))"
    using 1(1) k by (simp add: compress_fragment_def Let_def hash_shift [unfolded of_nat_power of_nat_numeral])
  show ?thesis
  proof (cases "e < ?size")
    case False
    then show ?thesis using run 1 e by (auto intro: le_SucI)
  next
    case True
    let ?lit = "enc_literal (take (?size - e) (drop e input))"
    have lit: "length ?lit \<le> ?size - e + 3"
    proof -
      have bs: "length (take (?size - e) (drop e input)) = ?size - e" by simp
      have "0 < ?size - e" "?size - e \<le> 65536" using True size by linarith+
      then show ?thesis
        using length_enc_literal [of "take (?size - e) (drop e input)", unfolded bs]
        by (simp split: if_splits)
    qed
    have op1: "op1 = op + length code1" "length m1 = length m" using 1(2) by (simp_all add: wrote_def)
    have "e div 60 \<le> ?size div 60" using e by (rule div_le_mono)
    then have len: "length (code1 @ ?lit) \<le> ?size + ?size div 60 + 3"
      using 1(4) lit True by simp
    have "op1 + length ?lit \<le> length m1" using len op1 room by simp
    then obtain m2 op2 where m2: "emit_literal m1 op1 input e (?size - e) False = Some (m2, op2)"
      "wrote m1 op1 m2 op2 ?lit"
      using emit_literal_ok [of "?size - e" e input op1 m1 False] True by auto
    have "codes input e ?size ?lit" using True size by (intro codes_literal) simp_all
    then show ?thesis
      using run True m2 wrote_trans [OF 1(2) m2(2)] codes_append [OF 1(3)] len by auto
  qed
qed

end
