(* ===== verification/Snappy.thy ===== *)
theory Snappy
  imports Snappy_Fragment
begin

text \<open>
  The snappy library as its users see it: \<^verbatim>\<open>snappy_compress\<close> fills a block of
  \<^verbatim>\<open>snappy_max_compressed_length\<close> bytes and \<^verbatim>\<open>snappy_uncompress\<close> inverts it.
\<close>

section \<open>The block loop\<close>

text \<open>A sink with the one \<^verbatim>\<open>iovec\<close> of \<^verbatim>\<open>snappy_compress\<close>, filled up to position \<open>p\<close>.\<close>

definition sink_at :: "bytes \<Rightarrow> nat \<Rightarrow> sink" where
  "sink_at b p = \<lparr>snk_iov = [(b, 0xffffffff)], snk_curvec = 0, snk_curoff = p, snk_written = p\<rparr>"

definition source_at :: "bytes \<Rightarrow> nat \<Rightarrow> source" where
  "source_at bs i = \<lparr>src_iov = [bs], src_curvec = 0, src_curoff = i, src_total = length bs\<rparr>"

lemma append_loop_Nil: "append_loop s [] = Some s"
  by (simp add: append_loop.simps)

lemma append_sink_copy:
  assumes "p + length data \<le> length b" and "p + length data \<le> 0xffffffff"
  shows "\<exists>b'. append_sink (sink_at b p) False data = Some (sink_at b' (p + length data)) \<and>
    wrote b p b' (p + length data) data"
proof -
  have "min (0xffffffff - p) (length data) = length data" using assms(2) by linarith
  then show ?thesis
    using wrote_write [OF assms(1)] by (auto simp: append_sink_def sink_at_def append_loop_Nil Let_def)
qed

lemma append_sink_in_place:
  assumes "p + n \<le> 0xffffffff" and "length data = n"
  shows "append_sink (sink_at b p) True data = Some (sink_at b (p + n))"
proof -
  have "min (0xffffffff - p) n = n" using assms(1) by linarith
  then show ?thesis
    using assms(2) by (simp add: append_sink_def sink_at_def append_loop_Nil Let_def)
qed

lemma compress_block_ok:
  assumes "length fragment \<le> 32768"
    and "p + length fragment + length fragment div 60 + 17 \<le> length b"
    and "p + 40000 \<le> 0xffffffff" and env: "env_ok env"
  shows "\<exists>b' code. compress_block env (sink_at b p) fragment = Some (sink_at b' (p + length code)) \<and>
    wrote b p b' (p + length code) code \<and> codes fragment 0 (length fragment) code \<and>
    length code \<le> length fragment + length fragment div 60 + 3"
proof -
  obtain k where k: "8 \<le> k" "k \<le> 14" "get_hash_table env (length fragment) = Some (replicate (2 ^ k) 0, 2 ^ k)"
    using get_hash_table_ok [OF env] by blast
  obtain b' op' code where c:
    "compress_fragment fragment b p (replicate (2 ^ k) 0) (2 ^ k) = Some (b', op')"
    "wrote b p b' op' code" "codes fragment 0 (length fragment) code"
    "length code \<le> length fragment + length fragment div 60 + 3"
    using compress_fragment_ok [OF assms(1) k(1,2) assms(2)] by blast
  have op: "op' = p + length code" "op' \<le> length b'" using c(2) by (simp_all add: wrote_def)
  have "length fragment div 60 \<le> 547" using div_le_mono [OF assms(1), of 60] by simp
  then have small: "p + length code \<le> 0xffffffff" using c(4) assms(1,3) by linarith
  have "length fragment div 6 \<le> 5461" using div_le_mono [OF assms(1), of 6] by simp
  then have "snappy_max_compressed_length (length fragment) \<le> 0xffffffff - p"
    using assms(1,3) unfolding snappy_max_compressed_length_def by linarith
  then have peek: "sink_peek (sink_at b p) (snappy_max_compressed_length (length fragment))"
    by (simp add: sink_peek_def sink_at_def)
  have "compress_block env (sink_at b p) fragment =
      append_sink (sink_at b' p) True (take (op' - p) (drop p b'))"
    using k(3) peek c(1) by (simp add: compress_block_def sink_at_def)
  also have "\<dots> = Some (sink_at b' (p + length code))"
    using op small by (intro append_sink_in_place) simp_all
  finally show ?thesis using c op(1) by blast
qed

text \<open>The output that \<open>R\<close> input bytes may need, block by block.\<close>

definition block_cost :: "nat \<Rightarrow> nat" where
  "block_cost R = R + R div 60 + 3 * ((R + 32767) div 32768)"

lemma block_cost_step:
  assumes "n = min R 32768" "0 < R"
  shows "n + n div 60 + 3 + block_cost (R - n) \<le> block_cost R"
proof -
  have "n div 60 + (R - n) div 60 \<le> R div 60"
    using div_60_add [of n "R - n"] assms by simp
  moreover have "1 + (R - n + 32767) div 32768 \<le> (R + 32767) div 32768"
  proof (cases "R \<le> 32768")
    case True
    then show ?thesis using assms by (simp add: div_le_mono [of "32768" "R + 32767" 32768, simplified])
  next
    case False
    then have "R + 32767 = (R - n + 32767) + 1 * 32768" using assms(1) by simp
    then have "(R + 32767) div 32768 = (R - n + 32767) div 32768 + 1"
      by (metis div_mult_self1 numeral_neq_zero add.commute)
    then show ?thesis by simp
  qed
  moreover have "n \<le> R" using assms(1) by simp
  ultimately show ?thesis unfolding block_cost_def by linarith
qed

lemma compress_loop_ok:
  assumes "i \<le> length bs" and "p + block_cost (length bs - i) \<le> T"
    and "T + 17 \<le> length b" and "T + 40000 \<le> 0xffffffff"
    and env: "env_ok env"
  shows "\<exists>b' code.
    compress_loop env (source_at bs i) (sink_at b p) (int (length bs - i)) =
      Some (0, sink_at b' (p + length code)) \<and>
    wrote b p b' (p + length code) code \<and> decodes code (take i bs) (drop i bs) \<and>
    p + length code \<le> T"
  using assms(1-4)
proof (induction "length bs - i" arbitrary: i b p rule: less_induct)
  case less
  let ?R = "length bs - i"
  show ?case
  proof (cases "?R = 0")
    case True
    then have "drop i bs = []" by simp
    moreover have "wrote b p b p []" using less.prems by (intro wrote_refl) linarith
    ultimately show ?thesis
      using True decodes_Nil less.prems(2)
      by (intro exI [of _ b] exI [of _ "[]"]) (subst compress_loop.simps, simp add: block_cost_def)
  next
    case False
    define n where "n = min ?R 32768"
    define frag where "frag = take n (drop i bs)"
    have n: "0 < n" "i + n \<le> length bs" "n \<le> 32768" using False by (auto simp: n_def)
    have frag: "length frag = n" using n by (simp add: frag_def)
    have cost: "n + n div 60 + 3 + block_cost (?R - n) \<le> block_cost ?R"
      using False by (intro block_cost_step) (simp_all add: n_def)
    have "p + length frag + length frag div 60 + 17 \<le> length b"
      using cost less.prems(2,3) frag by linarith
    moreover have "p + 40000 \<le> 0xffffffff" using less.prems(2,4) by linarith
    ultimately obtain b1 code1 where c1:
      "compress_block env (sink_at b p) frag = Some (sink_at b1 (p + length code1))"
      "wrote b p b1 (p + length code1) code1" "codes frag 0 n code1"
      "length code1 \<le> n + n div 60 + 3"
      using compress_block_ok [of frag p b env] env frag n(3) by auto
    have pk: "peek (source_at bs i) = (Some (bs, i), ?R)"
      using False by (simp add: peek_def source_at_def)
    have nb: "next_block env (source_at bs i) ?R n (bs, i) = Some (frag, source_at bs i, n)"
      using n by (simp add: next_block_def mem_read_def frag_def n_def)
    have sk: "skip (source_at bs i) n = Some (source_at bs (i + n))"
      by (simp add: skip_def source_at_def Let_def)
    have num: "nat (min (int ?R) (int kblock_size)) = n"
      by (simp add: n_def kblock_size_def min_def)
    have rest: "int ?R - int n = int (length bs - (i + n))" using n by simp
    have run: "compress_loop env (source_at bs i) (sink_at b p) (int ?R) =
        compress_loop env (source_at bs (i + n)) (sink_at b1 (p + length code1))
          (int (length bs - (i + n)))"
      using False pk nb c1(1) sk num rest
      by (subst compress_loop.simps) (simp add: Let_def diff_diff_eq)
    have "length bs - (i + n) < ?R" "i + n \<le> length bs" using n False by simp_all
    moreover have "p + length code1 + block_cost (length bs - (i + n)) \<le> T"
      using cost c1(4) less.prems(2) by simp
    moreover have "T + 17 \<le> length b1" using less.prems(3) wrote_length [OF c1(2)] by simp
    ultimately obtain b' code2 where c2:
      "compress_loop env (source_at bs (i + n)) (sink_at b1 (p + length code1))
          (int (length bs - (i + n))) = Some (0, sink_at b' (p + length code1 + length code2))"
      "wrote b1 (p + length code1) b' (p + length code1 + length code2) code2"
      "decodes code2 (take (i + n) bs) (drop (i + n) bs)"
      "p + length code1 + length code2 \<le> T"
      using less.hyps [of "i + n" "p + length code1" b1] less.prems(4) by blast
    have "decodes code1 (take i bs @ take 0 frag) (take (n - 0) (drop 0 frag))"
      using c1(3) unfolding codes_def by blast
    then have d1: "decodes code1 (take i bs) frag" using frag by simp
    have "take (i + n) bs = take i bs @ frag" by (simp add: frag_def take_add)
    moreover have "drop i bs = frag @ drop (i + n) bs"
      using append_take_drop_id [of n "drop i bs"] by (simp add: frag_def add.commute)
    ultimately have "decodes (code1 @ code2) (take i bs) (drop i bs)"
      using decodes_append [OF d1] c2(3) by simp
    then show ?thesis
      using run c2(1,4) wrote_trans [OF c1(2) c2(2)]
      by (intro exI [of _ b'] exI [of _ "code1 @ code2"]) (simp add: add.assoc)
  qed
qed

section \<open>Compression and decompression\<close>

lemma available_small:
  assumes "length bs < 2 ^ 31"
  shows "available (source_at bs i) = int (length bs)"
proof -
  have "take_bit 32 (int (length bs)) = int (length bs)"
    using assms by (intro take_bit_int_eq_self) simp_all
  then have "uint (word_of_nat (length bs) :: u32) = int (length bs)"
    by (simp add: unsigned_of_nat flip: of_nat_take_bit)
  moreover have "signed_take_bit 31 (int (length bs)) = int (length bs)"
    using assms by (intro signed_take_bit_int_eq_self) simp_all
  ultimately show ?thesis by (simp add: available_def source_at_def sint_uint)
qed

lemma length_varint: "length (varint_encode32 v) \<le> 5"
  by (simp add: varint_encode32_def Let_def)

text \<open>The bound that \<^verbatim>\<open>snappy_max_compressed_length\<close> promises.\<close>

lemma block_cost_bound: "5 + block_cost n + 17 \<le> snappy_max_compressed_length n"
proof -
  have "10 * (n div 60) \<le> n div 6"
  proof -
    have "10 * (n div 60) = 10 * (n div 6 div 10)" by (simp add: div_mult2_eq [symmetric])
    also have "\<dots> \<le> n div 6" by simp
    finally show ?thesis .
  qed
  moreover have "n div 32768 \<le> n div 60" by (rule div_le_mono2) simp_all
  moreover have "(n + 32767) div 32768 \<le> n div 32768 + 1"
  proof -
    have "(n + 32767) div 32768 \<le> (n + 1 * 32768) div 32768" by (rule div_le_mono) simp
    also have "\<dots> = n div 32768 + 1" by simp
    finally show ?thesis .
  qed
  ultimately show ?thesis
    unfolding block_cost_def snappy_max_compressed_length_def by linarith
qed

lemma snappy_compress_ok:
  assumes n: "length input < 2 ^ 31"
    and out: "snappy_max_compressed_length (length input) \<le> length out"
    and env: "env_ok env"
  shows "\<exists>out' len. snappy_compress env input (length input) out = Some (0, out', len) \<and>
    length out' = length out \<and> len < snappy_max_compressed_length (length input) \<and>
    (\<exists>code. take len out' = varint_encode32 (word_of_nat (length input)) @ code \<and>
       decodes code [] input)"
proof -
  let ?n = "length input" and ?v = "varint_encode32 (word_of_nat (length input))"
  define T where "T = 5 + block_cost ?n"
  have T: "T + 17 \<le> length out" "T + 17 \<le> snappy_max_compressed_length ?n"
    using block_cost_bound [of ?n] out by (simp_all add: T_def)
  have "?n div 6 \<le> 357913941" using n by simp
  then have T32: "T + 40000 \<le> 0xffffffff"
    using T(2) n unfolding snappy_max_compressed_length_def by simp
  have vT: "length ?v \<le> T" using length_varint [of "word_of_nat ?n"] by (simp add: T_def)
  obtain b1 where b1: "append_sink (sink_at out 0) False ?v = Some (sink_at b1 (length ?v))"
    "wrote out 0 b1 (length ?v) ?v"
    using append_sink_copy [of 0 ?v out] vT T(1) T32 by auto
  have lb1: "length b1 = length out" by (rule wrote_length [OF b1(2)])
  have "length ?v + block_cost (?n - 0) \<le> T"
    using length_varint [of "word_of_nat ?n"] by (simp add: T_def)
  then obtain b2 code where c:
    "compress_loop env (source_at input 0) (sink_at b1 (length ?v)) (int (?n - 0)) =
       Some (0, sink_at b2 (length ?v + length code))"
    "wrote b1 (length ?v) b2 (length ?v + length code) code"
    "decodes code (take 0 input) (drop 0 input)" "length ?v + length code \<le> T"
    using compress_loop_ok [of 0 input "length ?v" T b1 env] env T(1) T32 lb1 by auto
  have "snappy_compress env input ?n out = Some (0, b2, length ?v + length code)"
    using b1(1) c(1) available_small [OF n, of 0]
    by (simp add: snappy_compress_def snappy_compress_iov_def mem_read_def compress_def Let_def
        source_at_def [symmetric] sink_at_def [symmetric])
      (simp add: source_at_def sink_at_def)
  moreover have "take (length ?v + length code) b2 = ?v @ code" "length b2 = length out"
    using wrote_trans [OF b1(2) c(2)] by (simp_all add: wrote_def)
  ultimately show ?thesis using c(3,4) T(2) by auto
qed

lemma decodes_ref_uncompress:
  assumes "decodes code [] input" and "length input < 2 ^ 32"
  shows "ref_uncompress (varint_encode32 (word_of_nat (length input)) @ code) = Some input"
proof -
  have "ref_tags (length input) (code @ []) [] = ref_tags (length input) [] ([] @ input)"
    using assms(1) unfolding decodes_def by (metis add_0 le_refl list.size(3))
  then have "ref_tags (length input) code [] = Some input" by (simp add: ref_tags.simps)
  then show ?thesis
    using assms(2) ref_length_parse [OF varint_roundtrip [of "word_of_nat (length input)" code]]
    by (simp add: ref_uncompress_def unat_of_nat32)
qed

lemma uncompressed_length_ref:
  assumes "snappy_uncompressed_length cs = Some n"
  obtains v tags where "ref_length cs 0 0 = Some (v, tags)" "unat v = n"
  using assms ref_length_parse by (auto simp: snappy_uncompressed_length_def split: option.splits)

text \<open>What the decompressor makes of the output of the compressor.\<close>

lemma uncompress_encoded:
  assumes cs: "cs = varint_encode32 (word_of_nat (length input)) @ code" and "decodes code [] input"
    and "length input < 2 ^ 32" and "length cs < 2 ^ 32" and "length input \<le> length dst"
  shows "snappy_uncompressed_length cs = Some (length input)"
    and "\<exists>dst'. snappy_uncompress cs (length cs) dst = Some (0, dst') \<and> length dst' = length dst \<and>
      take (length input) dst' = input"
proof -
  have parse: "varint_parse32_with_limit cs = Some (word_of_nat (length input), code)"
    unfolding cs by (rule varint_roundtrip)
  then show "snappy_uncompressed_length cs = Some (length input)"
    using assms(3) by (simp add: snappy_uncompressed_length_def unat_of_nat32)
  show "\<exists>dst'. snappy_uncompress cs (length cs) dst = Some (0, dst') \<and> length dst' = length dst \<and>
      take (length input) dst' = input"
    using snappy_uncompress_ok [of cs dst] ref_length_parse [OF parse] assms(3-5)
      decodes_ref_uncompress [OF assms(2,3)]
    by (auto simp: unat_of_nat32 cs [symmetric])
qed

lemma match_len_stop:
  "match_len xs ys < length xs \<Longrightarrow> match_len xs ys < length ys \<Longrightarrow>
    xs ! match_len xs ys \<noteq> ys ! match_len xs ys"
  by (induction xs ys rule: match_len.induct) (auto split: if_splits)

lemma match_len_take: "length ys \<le> n \<Longrightarrow> match_len (take n xs) ys = match_len xs ys"
proof (induction xs ys arbitrary: n rule: match_len.induct)
  case (1 x xs y ys)
  then show ?case by (cases n) auto
qed auto

section \<open>Properties\<close>

text \<open>
  C4: Compression is lossless and stays inside its buffers. For every input shorter than two
  gigabytes and an environment with its hash table, \<^verbatim>\<open>snappy_compress\<close> into a buffer of
  \<^verbatim>\<open>snappy_max_compressed_length\<close> bytes terminates, never touches memory outside the buffer
  and returns 0; \<^verbatim>\<open>snappy_uncompressed_length\<close> reads the length of the input back from what
  it wrote, and \<^verbatim>\<open>snappy_uncompress\<close> into a buffer of that length returns 0 and the input.
\<close>

theorem snappy_roundtrip:
  assumes "length input < 2 ^ 31"
    and "snappy_max_compressed_length (length input) \<le> length out"
    and "length input \<le> length dst" and "env_ok env"
  shows "\<exists>out' len dst'. snappy_compress env input (length input) out = Some (0, out', len) \<and>
    length out' = length out \<and> len < snappy_max_compressed_length (length input) \<and>
    snappy_uncompressed_length (take len out') = Some (length input) \<and>
    snappy_uncompress (take len out') len dst = Some (0, dst') \<and>
    take (length input) dst' = input"
proof -
  let ?v = "varint_encode32 (word_of_nat (length input))"
  obtain out' len code where c: "snappy_compress env input (length input) out = Some (0, out', len)"
    "length out' = length out" "len < snappy_max_compressed_length (length input)"
    "take len out' = ?v @ code" "decodes code [] input"
    using snappy_compress_ok [OF assms(1,2,4)] by blast
  have len: "len \<le> length out'" using c(2,3) assms(2) by simp
  have small: "length input < 2 ^ 32" "len < 2 ^ 32"
    using assms(1) c(3) by (auto simp: snappy_max_compressed_length_def)
  have lt: "length (take len out') = len" using len by simp
  show ?thesis
    using c(1-3) uncompress_encoded [OF c(4,5) small(1) _ assms(3)] small(2) unfolding lt by blast
qed

theorem snappy_roundtrip_witness:
  "\<exists>out' len dst'. snappy_compress \<lparr>hash_table = Some (replicate 16384 0),
      env_scratch = None, env_scratch_output = None\<rparr> [1, 2, 3] (length [1, 2, 3 :: byte]) (replicate 40 0) =
      Some (0, out', len) \<and>
    length out' = length (replicate 40 (0 :: byte)) \<and>
    len < snappy_max_compressed_length (length [1, 2, 3 :: byte]) \<and>
    snappy_uncompressed_length (take len out') = Some (length [1, 2, 3 :: byte]) \<and>
    snappy_uncompress (take len out') len [0, 0, 0] = Some (0, dst') \<and>
    take (length [1, 2, 3 :: byte]) dst' = [1, 2, 3]"
  by (rule snappy_roundtrip)
    (simp_all add: snappy_max_compressed_length_def env_ok_def kmax_hash_table_size_def)

text \<open>
  C12: The decompressor is safe and exact on every input, hostile ones included. Whatever bytes it
  is given, when \<^verbatim>\<open>snappy_uncompressed_length\<close> reads the length n from them and the output
  buffer has n bytes, \<^verbatim>\<open>snappy_uncompress\<close> terminates without reading or writing outside its
  buffers; it accepts exactly the streams that the reference decoder of the format accepts and then
  leaves the decoded data in the buffer; it answers -EIO on every other one.
\<close>

theorem snappy_uncompress_meets_format:
  assumes "length cs < 2 ^ 32"
    and "snappy_uncompressed_length cs = Some n" and "length out = n"
  shows "\<exists>rc out'. snappy_uncompress cs (length cs) out = Some (rc, out') \<and>
    (case ref_uncompress cs of
       None \<Rightarrow> rc = - EIO
     | Some data \<Rightarrow> rc = 0 \<and> out' = data \<and> length data = n)"
proof -
  obtain v tags where v: "ref_length cs 0 0 = Some (v, tags)" "unat v = n"
    using assms(2) by (rule uncompressed_length_ref)
  have "\<exists>rc out'. snappy_uncompress cs (length cs) out = Some (rc, out') \<and>
    (case ref_uncompress cs of
       None \<Rightarrow> rc = - EIO
     | Some data \<Rightarrow> rc = 0 \<and> take (length data) out' = data \<and> length out' = length out)"
    using snappy_uncompress_ok [OF assms(1), of out] v assms(3) by simp
  moreover have "length data = n" if "ref_uncompress cs = Some data" for data
    using that v by (auto simp: ref_uncompress_def split: option.splits if_splits)
  ultimately show ?thesis using assms(3) by (fastforce split: option.splits)
qed

theorem snappy_uncompress_meets_format_witness:
  "\<exists>rc out'. snappy_uncompress [3, 0, 7, 5, 1] (length [3, 0, 7, 5, 1 :: byte]) [0, 0, 0] = Some (rc, out') \<and>
    (case ref_uncompress [3, 0, 7, 5, 1] of
       None \<Rightarrow> rc = - EIO
     | Some data \<Rightarrow> rc = 0 \<and> out' = data \<and> length data = 3)"
  by (rule snappy_uncompress_meets_format)
    (simp_all add: snappy_uncompressed_length_def varint_parse32_with_limit_def Let_def)

text \<open>
  The word-at-a-time search of \<^verbatim>\<open>find_match_length\<close>, with its 64-bit loads and its count of
  trailing zero bits, returns the length of the longest common prefix of the two positions, and
  reads nothing beyond the limit it is given.
\<close>

theorem find_match_length_longest:
  assumes "s1 \<le> s2" and "s2 \<le> s2_limit" and "s2_limit \<le> length m"
  shows "\<exists>n. find_match_length m s1 s2 s2_limit = Some n \<and>
    s2 + n \<le> s2_limit \<and> take n (drop s1 m) = take n (drop s2 m) \<and>
    (s2 + n < s2_limit \<longrightarrow> m ! (s1 + n) \<noteq> m ! (s2 + n)) \<and>
    find_match_length (take s2_limit m) s1 s2 s2_limit = Some n"
proof -
  let ?ys = "take (s2_limit - s2) (drop s2 m)"
  define n where "n = match_len (drop s1 m) ?ys"
  have len: "s2_limit - s2 \<le> length (drop s1 m)" "length ?ys = s2_limit - s2"
    using assms by auto
  have n: "n \<le> s2_limit - s2" using match_len_le(2) [of "drop s1 m" ?ys] by (simp add: n_def)
  have "find_match_length (take s2_limit m) s1 s2 s2_limit =
      Some (match_len (drop s1 (take s2_limit m)) (take (s2_limit - s2) (drop s2 (take s2_limit m))))"
    using assms by (intro find_match_length_ok) simp_all
  also have "\<dots> = Some n"
    using assms(1) by (simp add: n_def drop_take match_len_take)
  finally have "find_match_length (take s2_limit m) s1 s2 s2_limit = Some n" .
  moreover have "find_match_length m s1 s2 s2_limit = Some n"
    unfolding n_def by (rule find_match_length_ok [OF assms])
  moreover have "take n (drop s1 m) = take n (drop s2 m)"
    using assms n match_len_nth [of _ "drop s1 m" ?ys]
    by (intro nth_equalityI) (auto simp: n_def [symmetric])
  moreover have "m ! (s1 + n) \<noteq> m ! (s2 + n)" if "s2 + n < s2_limit"
    using match_len_stop [of "drop s1 m" ?ys] that assms len by (simp add: n_def [symmetric])
  ultimately show ?thesis using n assms(2) by auto
qed

theorem find_match_length_longest_witness:
  "\<exists>n. find_match_length [7, 8, 7, 8, 9] 0 2 5 = Some n \<and>
    2 + n \<le> 5 \<and> take n (drop 0 [7, 8, 7, 8, 9 :: byte]) = take n (drop 2 [7, 8, 7, 8, 9]) \<and>
    (2 + n < 5 \<longrightarrow> [7, 8, 7, 8, 9 :: byte] ! (0 + n) \<noteq> [7, 8, 7, 8, 9] ! (2 + n)) \<and>
    find_match_length (take 5 [7, 8, 7, 8, 9]) 0 2 5 = Some n"
  by (rule find_match_length_longest) simp_all

text \<open>
  The 256-entry table that drives the decompressor holds, for every tag byte, what the
  format says of it: the number of extra bytes that follow, the length of the copy and the high
  bits of its offset.
\<close>

theorem char_table_meets_format:
  "unat (drop_bit 11 (tag_entry c)) = tag_extra c \<and>
    (unat c mod 4 = 0 \<or>
      unat (tag_entry c AND 0xff) = tag_copy_len c \<and>
      unat (tag_entry c AND 0x700) = tag_offset_high c)"
  using tag_entry_facts by blast

text \<open>
  The two readers of the length header disagree. On these five bytes
  \<^verbatim>\<open>snappy_uncompressed_length\<close> reports failure, because the last byte does not fit 32 bits,
  while the decompressor itself drops the excess bits and goes on with a length of 4026531840.
\<close>

theorem length_readers_disagree:
  "snappy_uncompressed_length [0x80, 0x80, 0x80, 0x80, 0x1f] = None \<and>
   ref_length [0x80, 0x80, 0x80, 0x80, 0x1f] 0 0 = Some (4026531840, [])"
  by (simp add: snappy_uncompressed_length_def varint_parse32_with_limit_def Let_def)

end
