(* ===== verification/Lmdb.thy ===== *)
theory Lmdb
  imports FineDB_Prelude "HOL-Library.AList"
begin

text \<open>
  The LMDB library as a parameter. FineDB calls it through the operations of the record
  \<open>lmdb\<close> over an environment of unknown type; \<open>lmdb_ok\<close> states what its interface
  documentation (\<^verbatim>\<open>lib/lmdb/lmdb.h\<close>) promises of them, in terms of the databases a transaction
  sees. A call outside the documented contract (a freed transaction, a handle that is not open,
  closing the handle of a named database that a live transaction has modified) is \<^term>\<open>None\<close>.
  The last section has an in-memory environment that meets the promises, so they are consistent.
\<close>

section \<open>The operations\<close>

text \<open>
  Transactions, database handles and cursors are numbers. Return codes are those of LMDB: 0 is
  success. The Boolean arguments stand for the flags \<^verbatim>\<open>MDB_RDONLY\<close>, \<^verbatim>\<open>MDB_CREATE\<close> and
  \<^verbatim>\<open>MDB_NOOVERWRITE\<close>; a missing name is the unnamed main database.
\<close>

definition MDB_NOTFOUND :: int where
  "MDB_NOTFOUND = -30798"

record 'e lmdb =
  mdb_env_create :: "int \<times> 'e"
  mdb_env_set_mapsize :: "'e \<Rightarrow> nat \<Rightarrow> int \<times> 'e"
  mdb_env_set_maxreaders :: "'e \<Rightarrow> nat \<Rightarrow> int \<times> 'e"
  mdb_env_set_maxdbs :: "'e \<Rightarrow> nat \<Rightarrow> int \<times> 'e"
  mdb_env_open :: "'e \<Rightarrow> bytes \<Rightarrow> int \<times> 'e"
  mdb_env_close :: "'e \<Rightarrow> 'e"
  mdb_txn_begin :: "'e \<Rightarrow> bool \<Rightarrow> int \<times> nat \<times> 'e"
  mdb_txn_commit :: "'e \<Rightarrow> nat \<Rightarrow> (int \<times> 'e) option"
  mdb_txn_abort :: "'e \<Rightarrow> nat \<Rightarrow> 'e option"
  mdb_dbi_open :: "'e \<Rightarrow> nat \<Rightarrow> bytes option \<Rightarrow> bool \<Rightarrow> (int \<times> nat \<times> 'e) option"
  mdb_dbi_close :: "'e \<Rightarrow> nat \<Rightarrow> 'e option"
  mdb_get :: "'e \<Rightarrow> nat \<Rightarrow> nat \<Rightarrow> bytes \<Rightarrow> (int \<times> bytes) option"
  mdb_put :: "'e \<Rightarrow> nat \<Rightarrow> nat \<Rightarrow> bytes \<Rightarrow> bytes \<Rightarrow> bool \<Rightarrow> (int \<times> 'e) option"
  mdb_del :: "'e \<Rightarrow> nat \<Rightarrow> nat \<Rightarrow> bytes \<Rightarrow> (int \<times> 'e) option"
  mdb_drop :: "'e \<Rightarrow> nat \<Rightarrow> nat \<Rightarrow> (int \<times> 'e) option"
  mdb_cursor_open :: "'e \<Rightarrow> nat \<Rightarrow> nat \<Rightarrow> (int \<times> nat \<times> 'e) option"
  mdb_cursor_get :: "'e \<Rightarrow> nat \<Rightarrow> (int \<times> bytes \<times> bytes \<times> 'e) option"
  mdb_cursor_close :: "'e \<Rightarrow> nat \<Rightarrow> 'e option"

section \<open>What is observable of an environment\<close>

type_synonym kv = "bytes \<rightharpoonup> bytes"
type_synonym dbs = "bytes option \<Rightarrow> kv option"

text \<open>A live transaction: whether it only reads, the databases as it sees them, and those it modified.\<close>

record txn_abs =
  readonly :: bool
  view :: dbs
  touched :: "bytes option set"

record mdb_abs =
  committed :: dbs
  txns :: "nat \<rightharpoonup> txn_abs"
  dbis :: "nat \<rightharpoonup> bytes option"
  cursors :: "nat \<rightharpoonup> (bytes \<times> bytes) list"

text \<open>Keys that LMDB accepts.\<close>

definition mdb_key_ok :: "bytes \<Rightarrow> bool" where
  "mdb_key_ok k \<longleftrightarrow> k \<noteq> [] \<and> length k \<le> 511"

section \<open>The promises\<close>

definition txn_begin_law :: "'e lmdb \<Rightarrow> ('e \<Rightarrow> mdb_abs) \<Rightarrow> bool" where
  "txn_begin_law L obs \<longleftrightarrow> (\<forall>e ro. case mdb_txn_begin L e ro of (rc, t, e') \<Rightarrow>
     if rc = 0 then
       txns (obs e) t = None \<and>
       obs e' = (obs e)\<lparr>txns := (txns (obs e))(t \<mapsto>
         \<lparr>readonly = ro, view = committed (obs e), touched = {}\<rparr>)\<rparr>
     else obs e' = obs e)"

text \<open>A commit or an abort frees the transaction in every case.\<close>

definition txn_commit_law :: "'e lmdb \<Rightarrow> ('e \<Rightarrow> mdb_abs) \<Rightarrow> bool" where
  "txn_commit_law L obs \<longleftrightarrow> (\<forall>e t.
     case txns (obs e) t of
       None \<Rightarrow> mdb_txn_commit L e t = None
     | Some x \<Rightarrow> (\<exists>rc e'. mdb_txn_commit L e t = Some (rc, e') \<and>
         obs e' = (obs e)\<lparr>txns := (txns (obs e))(t := None),
           committed := (if rc = 0 \<and> \<not> readonly x then view x else committed (obs e))\<rparr>))"

definition txn_abort_law :: "'e lmdb \<Rightarrow> ('e \<Rightarrow> mdb_abs) \<Rightarrow> bool" where
  "txn_abort_law L obs \<longleftrightarrow> (\<forall>e t.
     case txns (obs e) t of
       None \<Rightarrow> mdb_txn_abort L e t = None
     | Some x \<Rightarrow> (\<exists>e'. mdb_txn_abort L e t = Some e' \<and>
         obs e' = (obs e)\<lparr>txns := (txns (obs e))(t := None)\<rparr>))"

definition dbi_open_law :: "'e lmdb \<Rightarrow> ('e \<Rightarrow> mdb_abs) \<Rightarrow> bool" where
  "dbi_open_law L obs \<longleftrightarrow> (\<forall>e t name create.
     case txns (obs e) t of
       None \<Rightarrow> mdb_dbi_open L e t name create = None
     | Some x \<Rightarrow> (\<exists>rc d e'. mdb_dbi_open L e t name create = Some (rc, d, e') \<and>
         (name = None \<longrightarrow> rc = 0) \<and>
         (if rc = 0 then
            dbis (obs e') = (dbis (obs e))(d \<mapsto> name) \<and>
            (if view x name = None then
               create \<and> \<not> readonly x \<and>
               obs e' = (obs e)\<lparr>dbis := dbis (obs e'), txns := (txns (obs e))(t \<mapsto>
                 x\<lparr>view := (view x)(name \<mapsto> Map.empty), touched := insert name (touched x)\<rparr>)\<rparr>
             else obs e' = (obs e)\<lparr>dbis := dbis (obs e')\<rparr>)
          else obs e' = obs e)))"

text \<open>
  Only handles that are open can be closed, and not the handle of a named database that a live
  transaction has modified. The handle of the main database is permanent.
\<close>

definition dbi_close_law :: "'e lmdb \<Rightarrow> ('e \<Rightarrow> mdb_abs) \<Rightarrow> bool" where
  "dbi_close_law L obs \<longleftrightarrow> (\<forall>e d.
     case dbis (obs e) d of
       None \<Rightarrow> mdb_dbi_close L e d = None
     | Some name \<Rightarrow>
         if name \<noteq> None \<and> (\<exists>t x. txns (obs e) t = Some x \<and> name \<in> touched x)
         then mdb_dbi_close L e d = None
         else (\<exists>e'. mdb_dbi_close L e d = Some e' \<and> obs e' = (obs e)\<lparr>dbis := dbis (obs e')\<rparr>))"

definition get_law :: "'e lmdb \<Rightarrow> ('e \<Rightarrow> mdb_abs) \<Rightarrow> bool" where
  "get_law L obs \<longleftrightarrow> (\<forall>e t d k x name m.
     txns (obs e) t = Some x \<longrightarrow> dbis (obs e) d = Some name \<longrightarrow> view x name = Some m \<longrightarrow>
     (\<exists>rc v. mdb_get L e t d k = Some (rc, v) \<and>
        (rc = 0 \<longrightarrow> m k = Some v) \<and> (rc = MDB_NOTFOUND \<longrightarrow> m k = None) \<and>
        (mdb_key_ok k \<longrightarrow> rc = 0 \<or> rc = MDB_NOTFOUND)))"

text \<open>A failed write leaves the transaction in a state that can only be given up, or still read.\<close>

definition write_failed :: "mdb_abs \<Rightarrow> nat \<Rightarrow> bytes option \<Rightarrow> mdb_abs \<Rightarrow> bool" where
  "write_failed a t name a' \<longleftrightarrow> (\<exists>x x'. txns a t = Some x \<and> readonly x' = readonly x \<and>
     view x' None \<noteq> None \<and> touched x' \<subseteq> insert name (touched x) \<and>
     (readonly x \<longrightarrow> x' = x) \<and> a' = a\<lparr>txns := (txns a)(t \<mapsto> x')\<rparr>)"

definition put_law :: "'e lmdb \<Rightarrow> ('e \<Rightarrow> mdb_abs) \<Rightarrow> bool" where
  "put_law L obs \<longleftrightarrow> (\<forall>e t d k v noover x name m.
     txns (obs e) t = Some x \<longrightarrow> dbis (obs e) d = Some name \<longrightarrow> view x name = Some m \<longrightarrow>
     (\<exists>rc e'. mdb_put L e t d k v noover = Some (rc, e') \<and>
        (if rc = 0 then
           \<not> readonly x \<and> mdb_key_ok k \<and> (noover \<longrightarrow> m k = None) \<and>
           obs e' = (obs e)\<lparr>txns := (txns (obs e))(t \<mapsto>
             x\<lparr>view := (view x)(name \<mapsto> m(k \<mapsto> v)), touched := insert name (touched x)\<rparr>)\<rparr>
         else write_failed (obs e) t name (obs e'))))"

definition del_law :: "'e lmdb \<Rightarrow> ('e \<Rightarrow> mdb_abs) \<Rightarrow> bool" where
  "del_law L obs \<longleftrightarrow> (\<forall>e t d k x name m.
     txns (obs e) t = Some x \<longrightarrow> dbis (obs e) d = Some name \<longrightarrow> view x name = Some m \<longrightarrow>
     (\<exists>rc e'. mdb_del L e t d k = Some (rc, e') \<and>
        (if rc = 0 then
           \<not> readonly x \<and> m k \<noteq> None \<and>
           obs e' = (obs e)\<lparr>txns := (txns (obs e))(t \<mapsto>
             x\<lparr>view := (view x)(name \<mapsto> m(k := None)), touched := insert name (touched x)\<rparr>)\<rparr>
         else write_failed (obs e) t name (obs e'))))"

text \<open>Dropping a named database deletes it and closes its handle; the main one is emptied.\<close>

definition drop_law :: "'e lmdb \<Rightarrow> ('e \<Rightarrow> mdb_abs) \<Rightarrow> bool" where
  "drop_law L obs \<longleftrightarrow> (\<forall>e t d x name m.
     txns (obs e) t = Some x \<longrightarrow> dbis (obs e) d = Some name \<longrightarrow> view x name = Some m \<longrightarrow>
     (\<exists>rc e'. mdb_drop L e t d = Some (rc, e') \<and>
        (if rc = 0 then
           \<not> readonly x \<and>
           obs e' = (obs e)\<lparr>
             dbis := (if name = None then dbis (obs e) else (dbis (obs e))(d := None)),
             txns := (txns (obs e))(t \<mapsto>
               x\<lparr>view := (view x)(name := (if name = None then Some Map.empty else None)),
                 touched := insert name (touched x)\<rparr>)\<rparr>
         else write_failed (obs e) t name (obs e'))))"

text \<open>A cursor runs through every key of the database once.\<close>

definition cursor_law :: "'e lmdb \<Rightarrow> ('e \<Rightarrow> mdb_abs) \<Rightarrow> bool" where
  "cursor_law L obs \<longleftrightarrow>
     (\<forall>e t d x name m.
        txns (obs e) t = Some x \<longrightarrow> dbis (obs e) d = Some name \<longrightarrow> view x name = Some m \<longrightarrow>
        (\<exists>rc c e'. mdb_cursor_open L e t d = Some (rc, c, e') \<and>
           (if rc = 0 then
              cursors (obs e) c = None \<and>
              (\<exists>items. map_of items = m \<and> distinct (map fst items) \<and>
                 obs e' = (obs e)\<lparr>cursors := (cursors (obs e))(c \<mapsto> items)\<rparr>)
            else obs e' = obs e))) \<and>
     (\<forall>e c.
        case cursors (obs e) c of
          None \<Rightarrow> mdb_cursor_get L e c = None \<and> mdb_cursor_close L e c = None
        | Some items \<Rightarrow>
            (case items of
               [] \<Rightarrow> (\<exists>rc k v e'. mdb_cursor_get L e c = Some (rc, k, v, e') \<and> rc \<noteq> 0 \<and> obs e' = obs e)
             | (k, v) # rest \<Rightarrow> (\<exists>e'. mdb_cursor_get L e c = Some (0, k, v, e') \<and>
                 obs e' = (obs e)\<lparr>cursors := (cursors (obs e))(c \<mapsto> rest)\<rparr>)) \<and>
            (\<exists>e'. mdb_cursor_close L e c = Some e' \<and>
               obs e' = (obs e)\<lparr>cursors := (cursors (obs e))(c := None)\<rparr>))"

text \<open>The main database always exists.\<close>

definition main_law :: "('e \<Rightarrow> mdb_abs) \<Rightarrow> bool" where
  "main_law obs \<longleftrightarrow> (\<forall>e. committed (obs e) None \<noteq> None \<and>
     (\<forall>t x. txns (obs e) t = Some x \<longrightarrow> view x None \<noteq> None))"

definition lmdb_ok :: "'e lmdb \<Rightarrow> ('e \<Rightarrow> mdb_abs) \<Rightarrow> bool" where
  "lmdb_ok L obs \<longleftrightarrow>
     txn_begin_law L obs \<and> txn_commit_law L obs \<and> txn_abort_law L obs \<and>
     dbi_open_law L obs \<and> dbi_close_law L obs \<and> get_law L obs \<and> put_law L obs \<and>
     del_law L obs \<and> drop_law L obs \<and> cursor_law L obs \<and> main_law obs"

section \<open>An environment in memory\<close>

type_synonym mem_dbs = "(bytes option \<times> (bytes \<times> bytes) list) list"

record mem_txn =
  mt_readonly :: bool
  mt_view :: mem_dbs
  mt_touched :: "bytes option list"

record mem_env =
  me_dbs :: mem_dbs
  me_txns :: "(nat \<times> mem_txn) list"
  me_dbis :: "(nat \<times> bytes) list"
  me_cursors :: "(nat \<times> (bytes \<times> bytes) list) list"

definition fresh :: "(nat \<times> 'a) list \<Rightarrow> nat" where
  "fresh al = foldr (\<lambda>(k, _) n. max (k + 1) n) al 2"

definition mem_kv :: "mem_dbs \<Rightarrow> bytes option \<Rightarrow> (bytes \<times> bytes) list option" where
  "mem_kv ds name =
     (case map_of ds name of Some al \<Rightarrow> Some al | None \<Rightarrow> if name = None then Some [] else None)"

definition mem_handle :: "mem_env \<Rightarrow> nat \<Rightarrow> bytes option option" where
  "mem_handle e d = (if d = 1 then Some None else map_option Some (map_of (me_dbis e) d))"

definition mem_txn_abs :: "mem_txn \<Rightarrow> txn_abs" where
  "mem_txn_abs x = \<lparr>readonly = mt_readonly x, view = (\<lambda>n. map_option map_of (mem_kv (mt_view x) n)),
     touched = set (mt_touched x)\<rparr>"

definition mem_abs :: "mem_env \<Rightarrow> mdb_abs" where
  "mem_abs e = \<lparr>committed = (\<lambda>n. map_option map_of (mem_kv (me_dbs e) n)),
     txns = (\<lambda>t. map_option mem_txn_abs (map_of (me_txns e) t)),
     dbis = mem_handle e, cursors = map_of (me_cursors e)\<rparr>"

definition mem_set :: "mem_env \<Rightarrow> nat \<Rightarrow> mem_txn \<Rightarrow> mem_env" where
  "mem_set e t x = e\<lparr>me_txns := AList.update t x (me_txns e)\<rparr>"

definition mem_store :: "mem_txn \<Rightarrow> bytes option \<Rightarrow> (bytes \<times> bytes) list \<Rightarrow> mem_txn" where
  "mem_store x name al =
     x\<lparr>mt_view := AList.update name al (mt_view x), mt_touched := name # mt_touched x\<rparr>"

text \<open>The three things a data operation needs: the transaction, the name and the database.\<close>

definition mem_find ::
    "mem_env \<Rightarrow> nat \<Rightarrow> nat \<Rightarrow> (mem_txn \<times> bytes option \<times> (bytes \<times> bytes) list) option" where
  "mem_find e t d = do {
     x \<leftarrow> map_of (me_txns e) t;
     name \<leftarrow> mem_handle e d;
     al \<leftarrow> mem_kv (mt_view x) name;
     Some (x, name, al) }"

definition mem_dbi_open :: "mem_env \<Rightarrow> nat \<Rightarrow> bytes option \<Rightarrow> bool \<Rightarrow> (int \<times> nat \<times> mem_env) option" where
  "mem_dbi_open e t name create = do {
     x \<leftarrow> map_of (me_txns e) t;
     (case name of
        None \<Rightarrow> Some (0, 1, e)
      | Some n \<Rightarrow>
          let d = fresh (me_dbis e); e' = e\<lparr>me_dbis := AList.update d n (me_dbis e)\<rparr> in
          if mem_kv (mt_view x) name \<noteq> None then Some (0, d, e')
          else if create \<and> \<not> mt_readonly x then Some (0, d, mem_set e' t (mem_store x name []))
          else Some (MDB_NOTFOUND, 0, e)) }"

definition mem_dbi_close :: "mem_env \<Rightarrow> nat \<Rightarrow> mem_env option" where
  "mem_dbi_close e d =
     (case mem_handle e d of
        None \<Rightarrow> None
      | Some name \<Rightarrow>
          if name \<noteq> None \<and> (\<exists>(t, y) \<in> set (me_txns e).
               map_of (me_txns e) t = Some y \<and> name \<in> set (mt_touched y)) then None
          else Some (e\<lparr>me_dbis := AList.delete d (me_dbis e)\<rparr>))"

definition mem_lmdb :: "mem_env lmdb" where
  "mem_lmdb = \<lparr>
     mdb_env_create = (0, \<lparr>me_dbs = [], me_txns = [], me_dbis = [], me_cursors = []\<rparr>),
     mdb_env_set_mapsize = (\<lambda>e n. (0, e)),
     mdb_env_set_maxreaders = (\<lambda>e n. (0, e)),
     mdb_env_set_maxdbs = (\<lambda>e n. (0, e)),
     mdb_env_open = (\<lambda>e path. (0, e)),
     mdb_env_close = (\<lambda>e. e),
     mdb_txn_begin = (\<lambda>e ro. (0, fresh (me_txns e), mem_set e (fresh (me_txns e))
       \<lparr>mt_readonly = ro, mt_view = me_dbs e, mt_touched = []\<rparr>)),
     mdb_txn_commit = (\<lambda>e t. do {
       x \<leftarrow> map_of (me_txns e) t;
       Some (0, e\<lparr>me_txns := AList.delete t (me_txns e),
                  me_dbs := (if mt_readonly x then me_dbs e else mt_view x)\<rparr>) }),
     mdb_txn_abort = (\<lambda>e t. do {
       x \<leftarrow> map_of (me_txns e) t;
       Some (e\<lparr>me_txns := AList.delete t (me_txns e)\<rparr>) }),
     mdb_dbi_open = mem_dbi_open,
     mdb_dbi_close = mem_dbi_close,
     mdb_get = (\<lambda>e t d k. do {
       (x, name, al) \<leftarrow> mem_find e t d;
       Some (case map_of al k of None \<Rightarrow> (MDB_NOTFOUND, []) | Some v \<Rightarrow> (0, v)) }),
     mdb_put = (\<lambda>e t d k v noover. do {
       (x, name, al) \<leftarrow> mem_find e t d;
       Some (if mt_readonly x \<or> \<not> mdb_key_ok k \<or> noover \<and> map_of al k \<noteq> None then (22, e)
             else (0, mem_set e t (mem_store x name (AList.update k v al)))) }),
     mdb_del = (\<lambda>e t d k. do {
       (x, name, al) \<leftarrow> mem_find e t d;
       Some (if mt_readonly x \<or> map_of al k = None then (MDB_NOTFOUND, e)
             else (0, mem_set e t (mem_store x name (AList.delete k al)))) }),
     mdb_drop = (\<lambda>e t d. do {
       (x, name, al) \<leftarrow> mem_find e t d;
       Some (if mt_readonly x then (13, e)
             else (0, (mem_set e t (x\<lparr>mt_view := AList.delete name (mt_view x),
                                      mt_touched := name # mt_touched x\<rparr>))
                      \<lparr>me_dbis := AList.delete d (me_dbis e)\<rparr>)) }),
     mdb_cursor_open = (\<lambda>e t d. do {
       (x, name, al) \<leftarrow> mem_find e t d;
       Some (0, fresh (me_cursors e),
         e\<lparr>me_cursors := AList.update (fresh (me_cursors e)) (AList.clearjunk al) (me_cursors e)\<rparr>) }),
     mdb_cursor_get = (\<lambda>e c. do {
       items \<leftarrow> map_of (me_cursors e) c;
       Some (case items of
           [] \<Rightarrow> (MDB_NOTFOUND, [], [], e)
         | (k, v) # rest \<Rightarrow> (0, k, v, e\<lparr>me_cursors := AList.update c rest (me_cursors e)\<rparr>)) }),
     mdb_cursor_close = (\<lambda>e c. do {
       items \<leftarrow> map_of (me_cursors e) c;
       Some (e\<lparr>me_cursors := AList.delete c (me_cursors e)\<rparr>) })\<rparr>"

lemma fresh_bound: "(k, v) \<in> set al \<Longrightarrow> k < fresh al" "2 \<le> fresh al"
  unfolding fresh_def by (induction al) (auto simp: less_max_iff_disj)

lemma fresh_notin: "map_of al (fresh al) = None"
  using fresh_bound(1) [of "fresh al" _ al] by (auto simp: map_of_eq_None_iff)

lemma mem_set_abs:
  "mem_abs (mem_set e t x) = (mem_abs e)\<lparr>txns := (txns (mem_abs e))(t \<mapsto> mem_txn_abs x)\<rparr>"
  by (auto simp: mem_abs_def mem_set_def update_conv' mem_handle_def)

lemma mem_store_abs:
  "mem_txn_abs (mem_store x name al) = (mem_txn_abs x)\<lparr>
     view := (view (mem_txn_abs x))(name \<mapsto> map_of al), touched := insert name (touched (mem_txn_abs x))\<rparr>"
  by (auto simp: mem_txn_abs_def mem_store_def mem_kv_def update_conv')

lemma mem_find_Some:
  assumes "txns (mem_abs e) t = Some x" and "dbis (mem_abs e) d = Some name" and "view x name = Some m"
  obtains y al where "mem_find e t d = Some (y, name, al)" "x = mem_txn_abs y" "m = map_of al"
    "map_of (me_txns e) t = Some y" "mem_handle e d = Some name" "mem_kv (mt_view y) name = Some al"
  using assms by (auto simp: mem_abs_def mem_find_def mem_txn_abs_def)

lemma mem_txns_eq: "txns (mem_abs e) t = map_option mem_txn_abs (map_of (me_txns e) t)"
  by (simp add: mem_abs_def)

lemma mem_refused: "txns (mem_abs e) t = Some x \<Longrightarrow> view x None \<noteq> None \<Longrightarrow>
    write_failed (mem_abs e) t name (mem_abs e)"
  unfolding write_failed_def by (intro exI [of _ x]) (auto simp: fun_upd_idem)

lemma mem_view_main: "view (mem_txn_abs y) None \<noteq> None"
  by (auto simp: mem_txn_abs_def mem_kv_def split: option.split)

lemma mem_begin_law: "txn_begin_law mem_lmdb mem_abs"
  by (auto simp: txn_begin_law_def mem_lmdb_def mem_set_abs mem_txns_eq fresh_notin mem_txn_abs_def)
    (simp add: mem_abs_def)

lemma mem_commit_law: "txn_commit_law mem_lmdb mem_abs"
  by (auto simp: txn_commit_law_def mem_lmdb_def mem_abs_def mem_handle_def delete_conv'
      mem_txn_abs_def split: option.split)

lemma mem_abort_law: "txn_abort_law mem_lmdb mem_abs"
  by (auto simp: txn_abort_law_def mem_lmdb_def mem_abs_def mem_handle_def delete_conv'
      split: option.split)

lemma mem_open_law: "dbi_open_law mem_lmdb mem_abs"
  unfolding dbi_open_law_def
proof (intro allI)
  fix e t name create
  have h: "mem_handle (e\<lparr>me_dbis := AList.update d n (me_dbis e)\<rparr>) = (mem_handle e)(d \<mapsto> Some n)"
    if "2 \<le> d" for d n using that by (auto simp: mem_handle_def update_conv')
  show "case txns (mem_abs e) t of
       None \<Rightarrow> mdb_dbi_open mem_lmdb e t name create = None
     | Some x \<Rightarrow> (\<exists>rc d e'. mdb_dbi_open mem_lmdb e t name create = Some (rc, d, e') \<and>
         (name = None \<longrightarrow> rc = 0) \<and>
         (if rc = 0 then
            dbis (mem_abs e') = (dbis (mem_abs e))(d \<mapsto> name) \<and>
            (if view x name = None then
               create \<and> \<not> readonly x \<and>
               mem_abs e' = (mem_abs e)\<lparr>dbis := dbis (mem_abs e'), txns := (txns (mem_abs e))(t \<mapsto>
                 x\<lparr>view := (view x)(name \<mapsto> Map.empty), touched := insert name (touched x)\<rparr>)\<rparr>
             else mem_abs e' = (mem_abs e)\<lparr>dbis := dbis (mem_abs e')\<rparr>)
          else mem_abs e' = mem_abs e))"
  proof (cases "map_of (me_txns e) t")
    case None
    then show ?thesis by (simp add: mem_txns_eq mem_lmdb_def mem_dbi_open_def)
  next
    case (Some y)
    let ?d = "fresh (me_dbis e)"
    have k: "view (mem_txn_abs y) name = None \<longleftrightarrow> mem_kv (mt_view y) name = None" for name
      by (simp add: mem_txn_abs_def)
    show ?thesis
    proof (cases name)
      case None
      have "mem_handle e = (mem_handle e)(1 \<mapsto> None)" by (auto simp: mem_handle_def)
      then show ?thesis
        using Some None mem_view_main [of y]
        by (auto simp: mem_txns_eq mem_lmdb_def mem_dbi_open_def mem_abs_def)
    next
      case n: (Some n)
      show ?thesis
        using Some n fresh_bound(2) [of "me_dbis e"] k [of name]
        by (auto simp: mem_txns_eq mem_lmdb_def mem_dbi_open_def Let_def mem_set_abs mem_store_abs h
            MDB_NOTFOUND_def)
          (auto simp: mem_abs_def h mem_txn_abs_def)
    qed
  qed
qed


lemma mem_close_law: "dbi_close_law mem_lmdb mem_abs"
  unfolding dbi_close_law_def
proof (intro allI)
  fix e d
  have t: "(\<exists>t x. txns (mem_abs e) t = Some x \<and> name \<in> touched x) \<longleftrightarrow>
      (\<exists>(t, y) \<in> set (me_txns e). map_of (me_txns e) t = Some y \<and> name \<in> set (mt_touched y))" for name
    by (fastforce simp: mem_txns_eq mem_txn_abs_def dest: map_of_SomeD)
  show "case dbis (mem_abs e) d of
       None \<Rightarrow> mdb_dbi_close mem_lmdb e d = None
     | Some name \<Rightarrow>
         if name \<noteq> None \<and> (\<exists>t x. txns (mem_abs e) t = Some x \<and> name \<in> touched x)
         then mdb_dbi_close mem_lmdb e d = None
         else (\<exists>e'. mdb_dbi_close mem_lmdb e d = Some e' \<and>
           mem_abs e' = (mem_abs e)\<lparr>dbis := dbis (mem_abs e')\<rparr>)"
    unfolding t
    by (cases "mem_handle e d") (auto simp: mem_abs_def mem_lmdb_def mem_dbi_close_def split: if_splits)
qed

lemma mem_get_law: "get_law mem_lmdb mem_abs"
  unfolding get_law_def
proof (intro allI impI)
  fix e t d k x name m
  assume "txns (mem_abs e) t = Some x" "dbis (mem_abs e) d = Some name" "view x name = Some m"
  then obtain y al where "mem_find e t d = Some (y, name, al)" "m = map_of al"
    by (rule mem_find_Some)
  then show "\<exists>rc v. mdb_get mem_lmdb e t d k = Some (rc, v) \<and>
      (rc = 0 \<longrightarrow> m k = Some v) \<and> (rc = MDB_NOTFOUND \<longrightarrow> m k = None) \<and>
      (mdb_key_ok k \<longrightarrow> rc = 0 \<or> rc = MDB_NOTFOUND)"
    by (simp add: mem_lmdb_def MDB_NOTFOUND_def split: option.split)
qed

lemma mem_put_law: "put_law mem_lmdb mem_abs"
  unfolding put_law_def
proof (intro allI impI)
  fix e t d k v noover x name m
  assume x: "txns (mem_abs e) t = Some x" and "dbis (mem_abs e) d = Some name" "view x name = Some m"
  then obtain y al where y: "mem_find e t d = Some (y, name, al)" "x = mem_txn_abs y" "m = map_of al"
    by (rule mem_find_Some)
  have ro: "readonly x = mt_readonly y" using y by (simp add: mem_txn_abs_def)
  show "\<exists>rc e'. mdb_put mem_lmdb e t d k v noover = Some (rc, e') \<and>
        (if rc = 0 then
           \<not> readonly x \<and> mdb_key_ok k \<and> (noover \<longrightarrow> m k = None) \<and>
           mem_abs e' = (mem_abs e)\<lparr>txns := (txns (mem_abs e))(t \<mapsto>
             x\<lparr>view := (view x)(name \<mapsto> m(k \<mapsto> v)), touched := insert name (touched x)\<rparr>)\<rparr>
         else write_failed (mem_abs e) t name (mem_abs e'))"
    using y ro mem_refused [OF x] mem_view_main
    by (auto simp: mem_lmdb_def mem_set_abs mem_store_abs update_conv')
qed

lemma mem_del_law: "del_law mem_lmdb mem_abs"
  unfolding del_law_def
proof (intro allI impI)
  fix e t d k x name m
  assume x: "txns (mem_abs e) t = Some x" and "dbis (mem_abs e) d = Some name" "view x name = Some m"
  then obtain y al where y: "mem_find e t d = Some (y, name, al)" "x = mem_txn_abs y" "m = map_of al"
    by (rule mem_find_Some)
  have ro: "readonly x = mt_readonly y" using y by (simp add: mem_txn_abs_def)
  show "\<exists>rc e'. mdb_del mem_lmdb e t d k = Some (rc, e') \<and>
        (if rc = 0 then
           \<not> readonly x \<and> m k \<noteq> None \<and>
           mem_abs e' = (mem_abs e)\<lparr>txns := (txns (mem_abs e))(t \<mapsto>
             x\<lparr>view := (view x)(name \<mapsto> m(k := None)), touched := insert name (touched x)\<rparr>)\<rparr>
         else write_failed (mem_abs e) t name (mem_abs e'))"
    using y ro mem_refused [OF x] mem_view_main
    by (auto simp: mem_lmdb_def mem_set_abs mem_store_abs delete_conv' MDB_NOTFOUND_def)
qed

lemma mem_drop_law: "drop_law mem_lmdb mem_abs"
  unfolding drop_law_def
proof (intro allI impI)
  fix e t d x name m
  assume x: "txns (mem_abs e) t = Some x" and d: "dbis (mem_abs e) d = Some name" "view x name = Some m"
  then obtain y al where y: "mem_find e t d = Some (y, name, al)" "x = mem_txn_abs y" "m = map_of al"
    by (rule mem_find_Some)
  have ro: "readonly x = mt_readonly y" using y by (simp add: mem_txn_abs_def)
  have h: "mem_handle (e\<lparr>me_txns := z, me_dbis := AList.delete d (me_dbis e)\<rparr>) =
      (if name = None then mem_handle e else (mem_handle e)(d := None))" for z
    using d(1) by (auto simp: mem_handle_def mem_abs_def delete_conv' split: if_splits)
  have v: "mem_txn_abs (y\<lparr>mt_view := AList.delete name (mt_view y), mt_touched := name # mt_touched y\<rparr>) =
      x\<lparr>view := (view x)(name := (if name = None then Some Map.empty else None)),
        touched := insert name (touched x)\<rparr>"
    using y(2) by (auto simp: mem_txn_abs_def mem_kv_def delete_conv' split: option.splits if_splits)
  show "\<exists>rc e'. mdb_drop mem_lmdb e t d = Some (rc, e') \<and>
        (if rc = 0 then
           \<not> readonly x \<and>
           mem_abs e' = (mem_abs e)\<lparr>
             dbis := (if name = None then dbis (mem_abs e) else (dbis (mem_abs e))(d := None)),
             txns := (txns (mem_abs e))(t \<mapsto>
               x\<lparr>view := (view x)(name := (if name = None then Some Map.empty else None)),
                 touched := insert name (touched x)\<rparr>)\<rparr>
         else write_failed (mem_abs e) t name (mem_abs e'))"
  proof (cases "mt_readonly y")
    case True
    then show ?thesis using y ro mem_refused [OF x] mem_view_main by (auto simp: mem_lmdb_def)
  next
    case False
    then show ?thesis
      unfolding v [symmetric]
      using y ro by (auto simp: mem_lmdb_def mem_set_def mem_abs_def h update_conv')
  qed
qed

lemma mem_cursor_law: "cursor_law mem_lmdb mem_abs"
  unfolding cursor_law_def
proof (intro conjI allI impI)
  fix e t d x name m
  assume "txns (mem_abs e) t = Some x" "dbis (mem_abs e) d = Some name" "view x name = Some m"
  then obtain y al where y: "mem_find e t d = Some (y, name, al)" "m = map_of al"
    by (rule mem_find_Some)
  then show "\<exists>rc c e'. mdb_cursor_open mem_lmdb e t d = Some (rc, c, e') \<and>
           (if rc = 0 then
              cursors (mem_abs e) c = None \<and>
              (\<exists>items. map_of items = m \<and> distinct (map fst items) \<and>
                 mem_abs e' = (mem_abs e)\<lparr>cursors := (cursors (mem_abs e))(c \<mapsto> items)\<rparr>)
            else mem_abs e' = mem_abs e)"
    by (auto simp: mem_lmdb_def mem_abs_def mem_handle_def update_conv' map_of_clearjunk fresh_notin
        intro!: exI [of _ "AList.clearjunk al"])
next
  fix e c
  show "case cursors (mem_abs e) c of
          None \<Rightarrow> mdb_cursor_get mem_lmdb e c = None \<and> mdb_cursor_close mem_lmdb e c = None
        | Some items \<Rightarrow>
            (case items of
               [] \<Rightarrow> (\<exists>rc k v e'. mdb_cursor_get mem_lmdb e c = Some (rc, k, v, e') \<and> rc \<noteq> 0 \<and>
                 mem_abs e' = mem_abs e)
             | (k, v) # rest \<Rightarrow> (\<exists>e'. mdb_cursor_get mem_lmdb e c = Some (0, k, v, e') \<and>
                 mem_abs e' = (mem_abs e)\<lparr>cursors := (cursors (mem_abs e))(c \<mapsto> rest)\<rparr>)) \<and>
            (\<exists>e'. mdb_cursor_close mem_lmdb e c = Some e' \<and>
               mem_abs e' = (mem_abs e)\<lparr>cursors := (cursors (mem_abs e))(c := None)\<rparr>)"
    by (auto simp: mem_lmdb_def mem_abs_def mem_handle_def update_conv' delete_conv' MDB_NOTFOUND_def
        split: option.split list.split)
qed

lemma mem_main_law: "main_law mem_abs"
  using mem_view_main
  by (auto simp: main_law_def mem_txns_eq) (auto simp: mem_abs_def mem_kv_def split: option.splits)

lemma mem_lmdb_ok: "lmdb_ok mem_lmdb mem_abs"
  by (simp add: lmdb_ok_def mem_begin_law mem_commit_law mem_abort_law mem_open_law mem_close_law
      mem_get_law mem_put_law mem_del_law mem_drop_law mem_cursor_law mem_main_law)

end
