(* ===== verification/Database.thy ===== *)
theory Database
  imports Lmdb Ydynabin
begin

text \<open>
  \<^verbatim>\<open>src/server/database.c\<close>: opening an environment, transactions, and the five data operations,
  each with its own short transaction unless the caller brings one. The operations are written
  over the LMDB parameter of theory \<^theory_text>\<open>Lmdb\<close>; the lemmas give their effect on the committed data,
  on the live transactions and on the result code, for every outcome of the library calls.
  \<^term>\<open>None\<close> is undefined behaviour: a use of a freed transaction or of an unset handle, or a call
  that LMDB forbids.
\<close>

section \<open>Environment and transactions\<close>

definition database_open ::
    "'e lmdb \<Rightarrow> bytes \<Rightarrow> nat \<Rightarrow> nat \<Rightarrow> nat \<Rightarrow> 'e option" where
  "database_open L path mapsize nbr_readers nbr_dbs =
     (case mdb_env_create L of (rc, env) \<Rightarrow>
      if rc \<noteq> 0 then None else
      case mdb_env_set_mapsize L env mapsize of (rc, env) \<Rightarrow>
      if rc \<noteq> 0 then None else
      case (if 126 < nbr_readers then mdb_env_set_maxreaders L env nbr_readers else (0, env)) of (rc, env) \<Rightarrow>
      if rc \<noteq> 0 then None else
      case (if 1 < nbr_dbs then mdb_env_set_maxdbs L env nbr_dbs else (0, env)) of (rc, env) \<Rightarrow>
      if rc \<noteq> 0 then None else
      case mdb_env_open L env path of (rc, env) \<Rightarrow>
      if rc \<noteq> 0 then None else Some env)"

definition database_close :: "'e lmdb \<Rightarrow> 'e \<Rightarrow> 'e" where
  "database_close L env = mdb_env_close L env"

definition database_transaction_start :: "'e lmdb \<Rightarrow> 'e \<Rightarrow> bool \<Rightarrow> nat option \<times> 'e" where
  "database_transaction_start L env ro =
     (case mdb_txn_begin L env ro of (rc, txn, env') \<Rightarrow>
      (if rc \<noteq> 0 then None else Some txn, env'))"

definition database_transaction_commit :: "'e lmdb \<Rightarrow> 'e \<Rightarrow> nat \<Rightarrow> (yerr_t \<times> 'e) option" where
  "database_transaction_commit L env transaction = do {
     (rc, env') \<leftarrow> mdb_txn_commit L env transaction;
     Some (if rc \<noteq> 0 then YEACCESS else YENOERR, env') }"

definition database_transaction_rollback :: "'e lmdb \<Rightarrow> 'e \<Rightarrow> nat \<Rightarrow> 'e option" where
  "database_transaction_rollback L env transaction = mdb_txn_abort L env transaction"

section \<open>Data operations\<close>

text \<open>The transaction of an operation: the caller's, or a new one.\<close>

definition transaction_init :: "'e lmdb \<Rightarrow> 'e \<Rightarrow> nat option \<Rightarrow> bool \<Rightarrow> nat option \<times> 'e" where
  "transaction_init L env transaction ro =
     (case transaction of
        Some txn \<Rightarrow> (Some txn, env)
      | None \<Rightarrow> database_transaction_start L env ro)"

text \<open>
  The common end of the write operations: commit on success, roll back on failure, both only
  when the transaction is the operation's own. A failed commit is followed by a rollback.
\<close>

definition end_of_process ::
    "'e lmdb \<Rightarrow> 'e \<Rightarrow> nat option \<Rightarrow> nat \<Rightarrow> yerr_t \<Rightarrow> (yerr_t \<times> 'e) option" where
  "end_of_process L env transaction txn retval = do {
     (retval1, env1) \<leftarrow>
       (if retval = YENOERR \<and> transaction = None then do {
          (r, env1) \<leftarrow> database_transaction_commit L env txn;
          Some (if r \<noteq> YENOERR then YEACCESS else retval, env1) }
        else Some (retval, env));
     (if retval1 \<noteq> YENOERR \<and> transaction = None then do {
        env2 \<leftarrow> database_transaction_rollback L env1 txn;
        Some (retval1, env2) }
      else Some (retval1, env1)) }"

definition database_put ::
    "'e lmdb \<Rightarrow> 'e \<Rightarrow> nat option \<Rightarrow> bool \<Rightarrow> bytes option \<Rightarrow> bytes \<Rightarrow> bytes \<Rightarrow> (yerr_t \<times> 'e) option" where
  "database_put L env transaction create_only name key data =
     (case transaction_init L env transaction False of
        (None, env1) \<Rightarrow> Some (YEACCESS, env1)
      | (Some txn, env1) \<Rightarrow> do {
          (rc, dbi, env2) \<leftarrow> mdb_dbi_open L env1 txn (map_option cstr name) True;
          (if rc \<noteq> 0 then end_of_process L env2 transaction txn YEACCESS
           else do {
             (rc', env3) \<leftarrow> mdb_put L env2 txn dbi key data create_only;
             env4 \<leftarrow> mdb_dbi_close L env3 dbi;
             end_of_process L env4 transaction txn (if rc' \<noteq> 0 then YEACCESS else YENOERR) }) })"

definition database_del ::
    "'e lmdb \<Rightarrow> 'e \<Rightarrow> nat option \<Rightarrow> bytes option \<Rightarrow> bytes \<Rightarrow> (yerr_t \<times> 'e) option" where
  "database_del L env transaction name key =
     (case transaction_init L env transaction False of
        (None, env1) \<Rightarrow> Some (YEACCESS, env1)
      | (Some txn, env1) \<Rightarrow> do {
          (rc, dbi, env2) \<leftarrow> mdb_dbi_open L env1 txn (map_option cstr name) False;
          (if rc \<noteq> 0 then end_of_process L env2 transaction txn YEACCESS
           else do {
             (rc', env3) \<leftarrow> mdb_del L env2 txn dbi key;
             env4 \<leftarrow> mdb_dbi_close L env3 dbi;
             end_of_process L env4 transaction txn (if rc' \<noteq> 0 then YEACCESS else YENOERR) }) })"

text \<open>
  The result has the data when there are any. When the handle cannot be opened the code closes
  the handle variable it never set, which is undefined.
\<close>

definition database_get ::
    "'e lmdb \<Rightarrow> 'e \<Rightarrow> nat option \<Rightarrow> bytes option \<Rightarrow> bytes \<Rightarrow> (yerr_t \<times> bytes option \<times> 'e) option" where
  "database_get L env transaction name key =
     (case transaction_init L env transaction True of
        (None, env1) \<Rightarrow> Some (YEACCESS, None, env1)
      | (Some txn, env1) \<Rightarrow> do {
          (rc, dbi, env2) \<leftarrow> mdb_dbi_open L env1 txn (map_option cstr name) False;
          (if rc \<noteq> 0 then None
           else do {
             (rc', db_data) \<leftarrow> mdb_get L env2 txn dbi key;
             env3 \<leftarrow> (if transaction = None then database_transaction_rollback L env2 txn else Some env2);
             env4 \<leftarrow> mdb_dbi_close L env3 dbi;
             Some (if rc' = 0 then (YENOERR, Some db_data, env4)
                   else if rc' = MDB_NOTFOUND then (YENODATA, None, env4)
                   else (YEACCESS, None, env4)) }) })"

text \<open>The loop over a cursor: the callback gets its own state and may stop the loop.\<close>

partial_function (option) list_loop ::
    "'e lmdb \<Rightarrow> ('s \<Rightarrow> bytes \<Rightarrow> bytes \<Rightarrow> yerr_t \<times> 's) \<Rightarrow> 'e \<Rightarrow> nat \<Rightarrow> 's \<Rightarrow> ('e \<times> 's) option" where
  "list_loop L cb env cursor s = do {
     (rc, key, data, env') \<leftarrow> mdb_cursor_get L env cursor;
     (if rc \<noteq> 0 then Some (env', s)
      else case cb s key data of (r, s') \<Rightarrow>
        if r \<noteq> YENOERR then Some (env', s') else list_loop L cb env' cursor s') }"

definition database_list ::
    "'e lmdb \<Rightarrow> 'e \<Rightarrow> nat option \<Rightarrow> bytes option \<Rightarrow>
       ('s \<Rightarrow> bytes \<Rightarrow> bytes \<Rightarrow> yerr_t \<times> 's) \<Rightarrow> 's \<Rightarrow> (yerr_t \<times> 'e \<times> 's) option" where
  "database_list L env transaction name cb s =
     (case transaction_init L env transaction True of
        (None, env1) \<Rightarrow> Some (YEACCESS, env1, s)
      | (Some txn, env1) \<Rightarrow> do {
          (rc, dbi, env2) \<leftarrow> mdb_dbi_open L env1 txn (map_option cstr name) False;
          (retval, env3, s') \<leftarrow>
            (if rc \<noteq> 0 then Some (YEACCESS, env2, s)
             else do {
               (rc', cursor, env3) \<leftarrow> mdb_cursor_open L env2 txn dbi;
               (retval, env4, s') \<leftarrow>
                 (if rc' \<noteq> 0 then Some (YEACCESS, env3, s)
                  else do {
                    (env4, s') \<leftarrow> list_loop L cb env3 cursor s;
                    env5 \<leftarrow> mdb_cursor_close L env4 cursor;
                    Some (YENOERR, env5, s') });
               env6 \<leftarrow> mdb_dbi_close L env4 dbi;
               Some (retval, env6, s') });
          env7 \<leftarrow> (if transaction = None then database_transaction_rollback L env3 txn else Some env3);
          Some (retval, env7, s') })"

definition database_drop ::
    "'e lmdb \<Rightarrow> 'e \<Rightarrow> nat option \<Rightarrow> bytes option \<Rightarrow> (yerr_t \<times> 'e) option" where
  "database_drop L env transaction name =
     (case transaction_init L env transaction False of
        (None, env1) \<Rightarrow> Some (YEACCESS, env1)
      | (Some txn, env1) \<Rightarrow> do {
          (rc, dbi, env2) \<leftarrow> mdb_dbi_open L env1 txn (map_option cstr name) False;
          (retval, env3) \<leftarrow>
            (if rc \<noteq> 0 then Some (YEACCESS, env2)
             else do {
               (rc', env3) \<leftarrow> mdb_drop L env2 txn dbi;
               env4 \<leftarrow> mdb_dbi_close L env3 dbi;
               Some (if rc' \<noteq> 0 then YEACCESS else YENOERR, env4) });
          (if retval = YENOERR \<and> transaction = None then do {
             (r, env4) \<leftarrow> database_transaction_commit L env3 txn;
             Some (if r \<noteq> YENOERR then YEACCESS else retval, env4) }
           else if transaction = None then do {
             env4 \<leftarrow> database_transaction_rollback L env3 txn;
             Some (retval, env4) }
           else Some (retval, env3)) })"

section \<open>The promises as rules\<close>

text \<open>Database handles are opened and closed by every operation; all else is compared by this.\<close>

definition same_data :: "mdb_abs \<Rightarrow> mdb_abs \<Rightarrow> bool" where
  "same_data a a' \<longleftrightarrow> a' = a\<lparr>dbis := dbis a'\<rparr>"

lemma same_data_refl [simp]: "same_data a a"
  by (simp add: same_data_def)

lemma same_data_fields:
  assumes "same_data a a'"
  shows "committed a' = committed a" "txns a' = txns a" "cursors a' = cursors a"
proof -
  have "a' = a\<lparr>dbis := dbis a'\<rparr>" using assms by (simp add: same_data_def)
  then show "committed a' = committed a" "txns a' = txns a" "cursors a' = cursors a"
    by (metis mdb_abs.select_convs mdb_abs.surjective mdb_abs.update_convs)+
qed

lemma same_data_iff:
  "same_data a a' \<longleftrightarrow> committed a' = committed a \<and> txns a' = txns a \<and> cursors a' = cursors a"
  unfolding same_data_def by (cases a; cases a') auto

lemma same_data_trans: "same_data a b \<Longrightarrow> same_data b c \<Longrightarrow> same_data a c"
  by (simp add: same_data_iff)

lemma lmdb_okD:
  assumes "lmdb_ok L obs"
  shows "txn_begin_law L obs" "txn_commit_law L obs" "txn_abort_law L obs" "dbi_open_law L obs"
    "dbi_close_law L obs" "get_law L obs" "put_law L obs" "del_law L obs" "drop_law L obs"
    "cursor_law L obs" "main_law obs"
  using assms by (simp_all add: lmdb_ok_def)

lemmas begin_rule = lmdb_okD(1) [unfolded txn_begin_law_def, rule_format]
lemmas commit_rule = lmdb_okD(2) [unfolded txn_commit_law_def, rule_format]
lemmas abort_rule = lmdb_okD(3) [unfolded txn_abort_law_def, rule_format]
lemmas open_rule = lmdb_okD(4) [unfolded dbi_open_law_def, rule_format]
lemmas close_rule = lmdb_okD(5) [unfolded dbi_close_law_def, rule_format]
lemmas get_rule = lmdb_okD(6) [unfolded get_law_def, rule_format]
lemmas put_rule = lmdb_okD(7) [unfolded put_law_def, rule_format]
lemmas del_rule = lmdb_okD(8) [unfolded del_law_def, rule_format]
lemmas drop_rule = lmdb_okD(9) [unfolded drop_law_def, rule_format]

lemma begin_cases:
  assumes "lmdb_ok L obs"
  obtains (begun) t e' where "mdb_txn_begin L e ro = (0, t, e')" "txns (obs e) t = None"
      "obs e' = (obs e)\<lparr>txns := (txns (obs e))(t \<mapsto>
         \<lparr>readonly = ro, view = committed (obs e), touched = {}\<rparr>)\<rparr>"
    | (refused) rc t e' where "mdb_txn_begin L e ro = (rc, t, e')" "rc \<noteq> 0" "obs e' = obs e"
proof -
  obtain rc t e' where b: "mdb_txn_begin L e ro = (rc, t, e')" by (cases "mdb_txn_begin L e ro")
  then show thesis using begin_rule [OF assms, of e ro] begun refused by (cases "rc = 0") auto
qed

lemma commit_live:
  assumes "lmdb_ok L obs" and "txns (obs e) t = Some x"
  obtains rc e' where "mdb_txn_commit L e t = Some (rc, e')"
    "obs e' = (obs e)\<lparr>txns := (txns (obs e))(t := None),
       committed := (if rc = 0 \<and> \<not> readonly x then view x else committed (obs e))\<rparr>"
  using commit_rule [OF assms(1), of e t] assms(2) that by auto

lemma abort_live:
  assumes "lmdb_ok L obs" and "txns (obs e) t = Some x"
  obtains e' where "mdb_txn_abort L e t = Some e'" "obs e' = (obs e)\<lparr>txns := (txns (obs e))(t := None)\<rparr>"
  using abort_rule [OF assms(1), of e t] assms(2) that by auto

lemma abort_dead:
  assumes "lmdb_ok L obs" and "txns (obs e) t = None"
  shows "mdb_txn_abort L e t = None"
  using abort_rule [OF assms(1), of e t] assms(2) by simp

lemma view_main:
  assumes "lmdb_ok L obs"
  shows "committed (obs e) None \<noteq> None" "txns (obs e) t = Some x \<Longrightarrow> view x None \<noteq> None"
  using assms unfolding lmdb_ok_def main_law_def by blast+

text \<open>Opening a handle: the transaction afterwards is \<open>x'\<close>, which sees the database.\<close>

lemma open_cases:
  assumes "lmdb_ok L obs" and "txns (obs e) t = Some x"
  obtains (opened) d e' x' m where "mdb_dbi_open L e t name create = Some (0, d, e')"
      "dbis (obs e') d = Some name" "txns (obs e') = (txns (obs e))(t \<mapsto> x')"
      "committed (obs e') = committed (obs e)" "cursors (obs e') = cursors (obs e)"
      "view x' name = Some m" "readonly x' = readonly x"
      "x' = x \<and> view x name = Some m \<or>
       name \<noteq> None \<and> create \<and> \<not> readonly x \<and> view x name = None \<and> name \<in> touched x'"
    | (failed) rc d e' where "mdb_dbi_open L e t name create = Some (rc, d, e')" "rc \<noteq> 0"
      "obs e' = obs e" "name \<noteq> None"
proof -
  obtain rc d e' where o: "mdb_dbi_open L e t name create = Some (rc, d, e')"
    "name = None \<longrightarrow> rc = 0"
    "if rc = 0 then
        dbis (obs e') = (dbis (obs e))(d \<mapsto> name) \<and>
        (if view x name = None then
           create \<and> \<not> readonly x \<and>
           obs e' = (obs e)\<lparr>dbis := dbis (obs e'), txns := (txns (obs e))(t \<mapsto>
             x\<lparr>view := (view x)(name \<mapsto> Map.empty), touched := insert name (touched x)\<rparr>)\<rparr>
         else obs e' = (obs e)\<lparr>dbis := dbis (obs e')\<rparr>)
      else obs e' = obs e"
    using open_rule [OF assms(1), of e t name create] assms(2) by auto
  consider "rc \<noteq> 0" | "rc = 0" "view x name = None" | m where "rc = 0" "view x name = Some m" by auto
  then show thesis
  proof cases
    case 1
    then show ?thesis using o failed by auto
  next
    case 2
    let ?x = "x\<lparr>view := (view x)(name \<mapsto> Map.empty), touched := insert name (touched x)\<rparr>"
    have e': "obs e' = (obs e)\<lparr>dbis := dbis (obs e'), txns := (txns (obs e))(t \<mapsto> ?x)\<rparr>"
      using o(3) 2 by metis
    have "txns (obs e') = (txns (obs e))(t \<mapsto> ?x)" "committed (obs e') = committed (obs e)"
      "cursors (obs e') = cursors (obs e)"
      by (subst e', simp)+
    moreover have "name \<noteq> None" using 2(2) view_main(2) [OF assms] by (cases name) auto
    ultimately show ?thesis using opened [of d e' ?x Map.empty] o 2 by auto
  next
    case 3
    then have "same_data (obs e) (obs e')" using o(3) unfolding same_data_def by (metis option.distinct(1))
    then show ?thesis
      using opened [of d e' x m] o 3 assms(2) same_data_fields [of "obs e" "obs e'"]
      by (auto simp: fun_upd_idem)
  qed
qed

lemma close_open:
  assumes "lmdb_ok L obs" and "dbis (obs e) d = Some name" and "mdb_dbi_close L e d = Some e'"
  shows "same_data (obs e) (obs e')" "name = None \<or> (\<forall>t x. txns (obs e) t = Some x \<longrightarrow> name \<notin> touched x)"
  using close_rule [OF assms(1), of e d] assms(2,3) by (auto simp: same_data_def split: if_splits)

lemma close_main:
  assumes "lmdb_ok L obs" and "dbis (obs e) d = Some None"
  obtains e' where "mdb_dbi_close L e d = Some e'" "same_data (obs e) (obs e')"
  using close_rule [OF assms(1), of e d] assms(2) that by (auto simp: same_data_def)


lemma get_live:
  assumes "lmdb_ok L obs" and "txns (obs e) t = Some x" and "dbis (obs e) d = Some name"
    and "view x name = Some m"
  obtains rc v where "mdb_get L e t d k = Some (rc, v)" "rc = 0 \<Longrightarrow> m k = Some v"
    "rc = MDB_NOTFOUND \<Longrightarrow> m k = None" "mdb_key_ok k \<Longrightarrow> rc = 0 \<or> rc = MDB_NOTFOUND"
  using get_rule [OF assms, of k] that by blast

lemma put_live:
  assumes "lmdb_ok L obs" and "txns (obs e) t = Some x" and "dbis (obs e) d = Some name"
    and "view x name = Some m"
  shows "\<exists>rc e' x'. mdb_put L e t d k v co = Some (rc, e') \<and> readonly x' = readonly x \<and>
    (readonly x \<longrightarrow> x' = x) \<and> obs e' = (obs e)\<lparr>txns := (txns (obs e))(t \<mapsto> x')\<rparr> \<and>
    (rc = 0 \<longrightarrow> name \<in> touched x' \<and> \<not> readonly x \<and> mdb_key_ok k \<and> (co \<longrightarrow> m k = None) \<and>
       view x' = (view x)(name \<mapsto> m(k \<mapsto> v)))"
proof -
  let ?x = "x\<lparr>view := (view x)(name \<mapsto> m(k \<mapsto> v)), touched := insert name (touched x)\<rparr>"
  obtain rc e' where p: "mdb_put L e t d k v co = Some (rc, e')"
    "if rc = 0 then \<not> readonly x \<and> mdb_key_ok k \<and> (co \<longrightarrow> m k = None) \<and>
           obs e' = (obs e)\<lparr>txns := (txns (obs e))(t \<mapsto> ?x)\<rparr>
         else write_failed (obs e) t name (obs e')"
    using put_rule [OF assms, of k v co] by blast
  show ?thesis
  proof (cases "rc = 0")
    case True
    then show ?thesis using p by (intro exI [of _ rc] exI [of _ e'] exI [of _ ?x]) simp
  next
    case False
    then show ?thesis using p assms(2) unfolding write_failed_def by auto
  qed
qed

lemma del_live:
  assumes "lmdb_ok L obs" and "txns (obs e) t = Some x" and "dbis (obs e) d = Some name"
    and "view x name = Some m"
  shows "\<exists>rc e' x'. mdb_del L e t d k = Some (rc, e') \<and> readonly x' = readonly x \<and>
    (readonly x \<longrightarrow> x' = x) \<and> obs e' = (obs e)\<lparr>txns := (txns (obs e))(t \<mapsto> x')\<rparr> \<and>
    (rc = 0 \<longrightarrow> name \<in> touched x' \<and> \<not> readonly x \<and> m k \<noteq> None \<and>
       view x' = (view x)(name \<mapsto> m(k := None)))"
proof -
  let ?x = "x\<lparr>view := (view x)(name \<mapsto> m(k := None)), touched := insert name (touched x)\<rparr>"
  obtain rc e' where p: "mdb_del L e t d k = Some (rc, e')"
    "if rc = 0 then \<not> readonly x \<and> m k \<noteq> None \<and> obs e' = (obs e)\<lparr>txns := (txns (obs e))(t \<mapsto> ?x)\<rparr>
         else write_failed (obs e) t name (obs e')"
    using del_rule [OF assms, of k] by blast
  show ?thesis
  proof (cases "rc = 0")
    case True
    then show ?thesis using p by (intro exI [of _ rc] exI [of _ e'] exI [of _ ?x]) simp
  next
    case False
    then show ?thesis using p assms(2) unfolding write_failed_def by auto
  qed
qed

section \<open>Effects of the operations\<close>

lemma start_cases:
  assumes "lmdb_ok L obs"
  obtains (begun) t e' where "database_transaction_start L e ro = (Some t, e')" "txns (obs e) t = None"
      "obs e' = (obs e)\<lparr>txns := (txns (obs e))(t \<mapsto>
         \<lparr>readonly = ro, view = committed (obs e), touched = {}\<rparr>)\<rparr>"
    | (refused) e' where "database_transaction_start L e ro = (None, e')" "obs e' = obs e"
  using assms
proof (cases rule: begin_cases [where e = e and ro = ro])
  case (begun t e')
  then show ?thesis using that(1) by (simp add: database_transaction_start_def)
next
  case (refused rc t e')
  then show ?thesis using that(2) by (simp add: database_transaction_start_def)
qed

text \<open>What one write inside a transaction may do to it.\<close>

definition wrote_in ::
    "mdb_abs \<Rightarrow> nat \<Rightarrow> txn_abs \<Rightarrow> mdb_abs \<Rightarrow> txn_abs \<Rightarrow> bool" where
  "wrote_in a t x a' x' \<longleftrightarrow> txns a t = Some x \<and> readonly x' = readonly x \<and>
     txns a' = (txns a)(t \<mapsto> x') \<and> committed a' = committed a \<and> cursors a' = cursors a"

text \<open>The shape that the two write operations share: open, write, close.\<close>

definition with_dbi ::
    "'e lmdb \<Rightarrow> 'e \<Rightarrow> nat \<Rightarrow> bytes option \<Rightarrow> bool \<Rightarrow> ('e \<Rightarrow> nat \<Rightarrow> (int \<times> 'e) option) \<Rightarrow>
       (yerr_t \<times> 'e) option" where
  "with_dbi L e t name create act = do {
     (rc, d, e1) \<leftarrow> mdb_dbi_open L e t (map_option cstr name) create;
     (if rc \<noteq> 0 then Some (YEACCESS, e1)
      else do {
        (rc', e2) \<leftarrow> act e1 d;
        e3 \<leftarrow> mdb_dbi_close L e2 d;
        Some (if rc' \<noteq> 0 then YEACCESS else YENOERR, e3) }) }"

lemma with_dbi_cases:
  assumes ok: "lmdb_ok L obs" and t: "txns (obs e) t = Some x"
    and act: "\<And>e1 d x1 m. txns (obs e1) t = Some x1 \<Longrightarrow> dbis (obs e1) d = Some (map_option cstr name) \<Longrightarrow>
      view x1 (map_option cstr name) = Some m \<Longrightarrow>
      \<exists>rc e2 x2. act e1 d = Some (rc, e2) \<and> readonly x2 = readonly x1 \<and> (readonly x1 \<longrightarrow> x2 = x1) \<and>
        obs e2 = (obs e1)\<lparr>txns := (txns (obs e1))(t \<mapsto> x2)\<rparr> \<and>
        (rc = 0 \<longrightarrow> map_option cstr name \<in> touched x2 \<and> Q (map_option cstr name) m x1 x2)"
  shows "case with_dbi L e t name create act of
      None \<Rightarrow> name \<noteq> None
    | Some (r, e') \<Rightarrow> \<exists>x'. wrote_in (obs e) t x (obs e') x' \<and>
        (if r = YENOERR then name = None \<and> (\<exists>m. view x None = Some m \<and> Q None m x x')
         else r = YEACCESS \<and> (readonly x \<longrightarrow> x' = x))"
  using ok t
proof (cases rule: open_cases [where name = "map_option cstr name" and create = create])
  case (failed rc d e')
  then show ?thesis
    using t by (auto simp: with_dbi_def wrote_in_def fun_upd_idem intro!: exI [of _ x])
next
  case (opened d e1 x1 m)
  obtain rc e2 x2 where w: "act e1 d = Some (rc, e2)" "readonly x2 = readonly x1"
    "readonly x1 \<longrightarrow> x2 = x1" "obs e2 = (obs e1)\<lparr>txns := (txns (obs e1))(t \<mapsto> x2)\<rparr>"
    "rc = 0 \<longrightarrow> map_option cstr name \<in> touched x2 \<and> Q (map_option cstr name) m x1 x2"
    using act [of e1 x1 d m] opened(2,3,6) by auto
  have d2: "dbis (obs e2) d = Some (map_option cstr name)" using opened(2) w(4) by simp
  show ?thesis
  proof (cases "mdb_dbi_close L e2 d")
    case None
    have "name \<noteq> None" using None close_main [OF ok, of e2 d] d2 by (cases name) auto
    then show ?thesis using None opened(1) w(1) by (simp add: with_dbi_def)
  next
    case (Some e3)
    have t2: "txns (obs e2) t = Some x2" using w(4) by simp
    have name: "name = None" if "rc = 0"
      using close_open(2) [OF ok d2 Some] t2 w(5) that by auto
    have "wrote_in (obs e) t x (obs e3) x2"
      using close_open(1) [OF ok d2 Some] opened(3-5,7) w(2,4) t
      by (simp add: wrote_in_def same_data_iff)
    then show ?thesis
      using Some opened w name by (auto simp: with_dbi_def intro!: exI [of _ x2])
  qed
qed

lemma end_in_txn: "end_of_process L e (Some t) t' r = Some (r, e)"
  by (simp add: end_of_process_def)

lemma database_put_in_txn:
  assumes ok: "lmdb_ok L obs" and t: "txns (obs e) t = Some x"
  shows "case database_put L e (Some t) co name k v of
      None \<Rightarrow> name \<noteq> None
    | Some (r, e') \<Rightarrow> \<exists>x'. wrote_in (obs e) t x (obs e') x' \<and>
        (if r = YENOERR then name = None \<and> (\<exists>m. view x None = Some m \<and> \<not> readonly x \<and> mdb_key_ok k \<and>
           (co \<longrightarrow> m k = None) \<and> view x' = (view x)(None \<mapsto> m(k \<mapsto> v)))
         else r = YEACCESS \<and> (readonly x \<longrightarrow> x' = x))"
proof -
  have "database_put L e (Some t) co name k v = with_dbi L e t name True (\<lambda>e d. mdb_put L e t d k v co)"
    unfolding database_put_def with_dbi_def transaction_init_def option.case prod.case end_in_txn ..
  also have "case \<dots> of
      None \<Rightarrow> name \<noteq> None
    | Some (r, e') \<Rightarrow> \<exists>x'. wrote_in (obs e) t x (obs e') x' \<and>
        (if r = YENOERR then name = None \<and> (\<exists>m. view x None = Some m \<and> \<not> readonly x \<and> mdb_key_ok k \<and>
           (co \<longrightarrow> m k = None) \<and> view x' = (view x)(None \<mapsto> m(k \<mapsto> v)))
         else r = YEACCESS \<and> (readonly x \<longrightarrow> x' = x))"
    by (rule with_dbi_cases [OF ok t]) (rule put_live [OF ok])
  finally show ?thesis .
qed

lemma database_del_in_txn:
  assumes ok: "lmdb_ok L obs" and t: "txns (obs e) t = Some x"
  shows "case database_del L e (Some t) name k of
      None \<Rightarrow> name \<noteq> None
    | Some (r, e') \<Rightarrow> \<exists>x'. wrote_in (obs e) t x (obs e') x' \<and>
        (if r = YENOERR then name = None \<and> (\<exists>m. view x None = Some m \<and> \<not> readonly x \<and> m k \<noteq> None \<and>
           view x' = (view x)(None \<mapsto> m(k := None)))
         else r = YEACCESS \<and> (readonly x \<longrightarrow> x' = x))"
proof -
  have "database_del L e (Some t) name k = with_dbi L e t name False (\<lambda>e d. mdb_del L e t d k)"
    unfolding database_del_def with_dbi_def transaction_init_def option.case prod.case end_in_txn ..
  also have "case \<dots> of
      None \<Rightarrow> name \<noteq> None
    | Some (r, e') \<Rightarrow> \<exists>x'. wrote_in (obs e) t x (obs e') x' \<and>
        (if r = YENOERR then name = None \<and> (\<exists>m. view x None = Some m \<and> \<not> readonly x \<and> m k \<noteq> None \<and>
           view x' = (view x)(None \<mapsto> m(k := None)))
         else r = YEACCESS \<and> (readonly x \<longrightarrow> x' = x))"
    by (rule with_dbi_cases [OF ok t]) (rule del_live [OF ok])
  finally show ?thesis .
qed


text \<open>A write with a transaction of its own is a write in a new transaction, and its end.\<close>

lemma database_put_own_eq:
  "database_put L e None co name k v =
     (case database_transaction_start L e False of
        (None, e1) \<Rightarrow> Some (YEACCESS, e1)
      | (Some t, e1) \<Rightarrow> do {
          (r, e2) \<leftarrow> database_put L e1 (Some t) co name k v;
          end_of_process L e2 None t r })"
  by (auto simp: database_put_def transaction_init_def end_in_txn split: prod.split option.split
      Option.bind_split)

lemma database_del_own_eq:
  "database_del L e None name k =
     (case database_transaction_start L e False of
        (None, e1) \<Rightarrow> Some (YEACCESS, e1)
      | (Some t, e1) \<Rightarrow> do {
          (r, e2) \<leftarrow> database_del L e1 (Some t) name k;
          end_of_process L e2 None t r })"
  by (auto simp: database_del_def transaction_init_def end_in_txn split: prod.split option.split
      Option.bind_split)

text \<open>The only way to undefined behaviour in the end is a commit that fails.\<close>

definition commit_fails :: "'e lmdb \<Rightarrow> bool" where
  "commit_fails L \<longleftrightarrow> (\<exists>e t rc e'. mdb_txn_commit L e t = Some (rc, e') \<and> rc \<noteq> 0)"

lemma end_own:
  assumes ok: "lmdb_ok L obs" and t: "txns (obs e) t = Some x"
  shows "case end_of_process L e None t r of
      None \<Rightarrow> r = YENOERR \<and> commit_fails L
    | Some (r', e') \<Rightarrow> r' = r \<and>
        obs e' = (obs e)\<lparr>txns := (txns (obs e))(t := None),
          committed := (if r = YENOERR \<and> \<not> readonly x then view x else committed (obs e))\<rparr>"
proof (cases "r = YENOERR")
  case True
  obtain rc e' where c: "mdb_txn_commit L e t = Some (rc, e')"
    "obs e' = (obs e)\<lparr>txns := (txns (obs e))(t := None),
       committed := (if rc = 0 \<and> \<not> readonly x then view x else committed (obs e))\<rparr>"
    using commit_live [OF ok t] by blast
  have dead: "mdb_txn_abort L e' t = None" using abort_dead [OF ok, of e' t] c(2) by simp
  show ?thesis
  proof (cases "rc = 0")
    case True
    then show ?thesis
      using c \<open>r = YENOERR\<close> by (simp add: end_of_process_def database_transaction_commit_def)
  next
    case False
    then have "commit_fails L" using c(1) unfolding commit_fails_def by blast
    then show ?thesis
      using c(1) \<open>r = YENOERR\<close> dead False
      by (simp add: end_of_process_def database_transaction_commit_def database_transaction_rollback_def)
  qed
next
  case False
  obtain e' where "mdb_txn_abort L e t = Some e'" "obs e' = (obs e)\<lparr>txns := (txns (obs e))(t := None)\<rparr>"
    using abort_live [OF ok t] by blast
  then show ?thesis using False by (simp add: end_of_process_def database_transaction_rollback_def)
qed

lemma own_write:
  assumes ok: "lmdb_ok L obs"
    and body: "\<And>e1 t x. txns (obs e1) t = Some x \<Longrightarrow>
      case act e1 t of
        None \<Rightarrow> B
      | Some (r, e') \<Rightarrow> \<exists>x'. wrote_in (obs e1) t x (obs e') x' \<and>
          (if r = YENOERR then P x x' else r = YEACCESS \<and> (readonly x \<longrightarrow> x' = x))"
  shows "case (case database_transaction_start L e False of
        (None, e1) \<Rightarrow> Some (YEACCESS, e1)
      | (Some t, e1) \<Rightarrow> do { (r, e2) \<leftarrow> act e1 t; end_of_process L e2 None t r }) of
      None \<Rightarrow> B \<or> commit_fails L
    | Some (r, e') \<Rightarrow>
        if r = YENOERR then
          (\<exists>x'. P \<lparr>readonly = False, view = committed (obs e), touched = {}\<rparr> x' \<and>
             same_data ((obs e)\<lparr>committed := view x'\<rparr>) (obs e'))
        else r = YEACCESS \<and> same_data (obs e) (obs e')"
  using ok
proof (cases rule: start_cases [where e = e and ro = False])
  case (refused e')
  then show ?thesis by simp
next
  case (begun t e1)
  define x where "x = \<lparr>readonly = False, view = committed (obs e), touched = {}\<rparr>"
  have t1: "txns (obs e1) t = Some x" using begun(3) by (simp add: x_def)
  show ?thesis
  proof (cases "act e1 t")
    case None
    then show ?thesis using body [OF t1] begun(1) by simp
  next
    case (Some p)
    then obtain r e2 where p: "act e1 t = Some (r, e2)" by (cases p) simp
    then obtain x' where x': "wrote_in (obs e1) t x (obs e2) x'"
      "if r = YENOERR then P x x' else r = YEACCESS \<and> (readonly x \<longrightarrow> x' = x)"
      using body [OF t1] by auto
    then have t2: "txns (obs e2) t = Some x'" by (simp add: wrote_in_def)
    have "txns (obs e) = (txns (obs e))(t := None)" using begun(2) by (simp add: fun_upd_idem)
    then show ?thesis
      using end_own [OF ok t2, of r] begun p x'
      by (auto simp: wrote_in_def same_data_iff x_def split: option.splits prod.splits)
  qed
qed

lemma database_put_own:
  assumes ok: "lmdb_ok L obs"
  shows "case database_put L e None co name k v of
      None \<Rightarrow> name \<noteq> None \<or> commit_fails L
    | Some (r, e') \<Rightarrow>
        if r = YENOERR then name = None \<and> mdb_key_ok k \<and> (\<exists>m. committed (obs e) None = Some m \<and>
          (co \<longrightarrow> m k = None) \<and>
          same_data ((obs e)\<lparr>committed := (committed (obs e))(None \<mapsto> m(k \<mapsto> v))\<rparr>) (obs e'))
        else r = YEACCESS \<and> same_data (obs e) (obs e')"
  unfolding database_put_own_eq
  using own_write [OF ok database_put_in_txn [OF ok, where co = co and name = name and k = k and v = v],
      where e = e]
  by (auto split: option.splits prod.splits if_splits)

lemma database_del_own:
  assumes ok: "lmdb_ok L obs"
  shows "case database_del L e None name k of
      None \<Rightarrow> name \<noteq> None \<or> commit_fails L
    | Some (r, e') \<Rightarrow>
        if r = YENOERR then name = None \<and> (\<exists>m. committed (obs e) None = Some m \<and> m k \<noteq> None \<and>
          same_data ((obs e)\<lparr>committed := (committed (obs e))(None \<mapsto> m(k := None))\<rparr>) (obs e'))
        else r = YEACCESS \<and> same_data (obs e) (obs e')"
  unfolding database_del_own_eq
  using own_write [OF ok database_del_in_txn [OF ok, where name = name and k = k], where e = e]
  by (auto split: option.splits prod.splits if_splits)

text \<open>Reading, from the snapshot of a transaction or from the committed data.\<close>

definition read_result :: "kv \<Rightarrow> bytes \<Rightarrow> yerr_t \<Rightarrow> bytes option \<Rightarrow> bool" where
  "read_result m k r d \<longleftrightarrow>
     r = YENOERR \<and> d \<noteq> None \<and> m k = d \<or> r = YENODATA \<and> d = None \<and> m k = None \<or>
     r = YEACCESS \<and> d = None \<and> \<not> mdb_key_ok k"

lemma database_get_in_txn:
  assumes ok: "lmdb_ok L obs" and t: "txns (obs e) t = Some x" and m: "view x None = Some m"
  shows "\<exists>r d e'. database_get L e (Some t) None k = Some (r, d, e') \<and>
    read_result m k r d \<and> same_data (obs e) (obs e')"
  using ok t
proof (cases rule: open_cases [where name = None and create = False])
  case (opened d e1 x1 m1)
  have x1: "x1 = x" "m1 = m" using opened(6,8) m by auto
  then have t1: "txns (obs e1) t = Some x" using opened(3) by simp
  obtain rc v where g: "mdb_get L e1 t d k = Some (rc, v)" "rc = 0 \<Longrightarrow> m k = Some v"
    "rc = MDB_NOTFOUND \<Longrightarrow> m k = None" "mdb_key_ok k \<Longrightarrow> rc = 0 \<or> rc = MDB_NOTFOUND"
    using get_live [OF ok t1 opened(2) m] by blast
  obtain e2 where c: "mdb_dbi_close L e1 d = Some e2" "same_data (obs e1) (obs e2)"
    using close_main [OF ok opened(2)] by blast
  have "same_data (obs e) (obs e2)"
    using c(2) opened(3-5) x1(1) t by (simp add: same_data_iff fun_upd_idem)
  then show ?thesis
    using opened(1) g c(1)
    by (auto simp: database_get_def transaction_init_def read_result_def)
qed simp

lemma database_get_own:
  assumes ok: "lmdb_ok L obs" and m: "committed (obs e) None = Some m"
  shows "\<exists>r d e'. database_get L e None None k = Some (r, d, e') \<and> same_data (obs e) (obs e') \<and>
    (if fst (database_transaction_start L e True) = None then r = YEACCESS \<and> d = None
     else read_result m k r d)"
  using ok
proof (cases rule: start_cases [where e = e and ro = True])
  case (refused e')
  then show ?thesis by (simp add: database_get_def transaction_init_def)
next
  case (begun t e0)
  define x where "x = \<lparr>readonly = True, view = committed (obs e), touched = {}\<rparr>"
  have t0: "txns (obs e0) t = Some x" using begun(3) by (simp add: x_def)
  have vx: "view x None = Some m" using m by (simp add: x_def)
  from ok t0 show ?thesis
  proof (cases rule: open_cases [where name = None and create = False])
    case (opened d e1 x1 m1)
    have x1: "x1 = x" "m1 = m" using opened(6,8) vx by auto
    then have t1: "txns (obs e1) t = Some x" using opened(3) by simp
    obtain rc v where g: "mdb_get L e1 t d k = Some (rc, v)" "rc = 0 \<Longrightarrow> m k = Some v"
      "rc = MDB_NOTFOUND \<Longrightarrow> m k = None" "mdb_key_ok k \<Longrightarrow> rc = 0 \<or> rc = MDB_NOTFOUND"
      using get_live [OF ok t1 opened(2) vx] by blast
    obtain e2 where a: "mdb_txn_abort L e1 t = Some e2"
      "obs e2 = (obs e1)\<lparr>txns := (txns (obs e1))(t := None)\<rparr>"
      using abort_live [OF ok t1] by blast
    have "dbis (obs e2) d = Some None" using a(2) opened(2) by simp
    then obtain e3 where c: "mdb_dbi_close L e2 d = Some e3" "same_data (obs e2) (obs e3)"
      using close_main [OF ok] by blast
    have "same_data (obs e) (obs e3)"
      using c(2) a(2) opened(3-5) begun(2,3) by (simp add: same_data_iff fun_upd_idem)
    then show ?thesis
      using begun(1) opened(1) g a(1) c(1)
      by (auto simp: database_get_def transaction_init_def database_transaction_rollback_def
          read_result_def)
  qed simp
qed


lemma database_get_missing:
  assumes ok: "lmdb_ok L obs" and "committed (obs e) (Some (cstr n)) = None"
    and "fst (database_transaction_start L e True) \<noteq> None"
  shows "database_get L e None (Some n) k = None"
  using ok
proof (cases rule: start_cases [where e = e and ro = True])
  case (refused e')
  then show ?thesis using assms(3) by simp
next
  case (begun t e0)
  have "txns (obs e0) t = Some \<lparr>readonly = True, view = committed (obs e), touched = {}\<rparr>"
    using begun(3) by simp
  from ok this show ?thesis
  proof (cases rule: open_cases [where name = "Some (cstr n)" and create = False])
    case (failed rc d e')
    then show ?thesis using begun(1) by (simp add: database_get_def transaction_init_def)
  qed (use assms(2) in auto)
qed

lemma handle_then_get:
  assumes ok: "lmdb_ok L obs" and t: "txns (obs e) t = Some x" and ro: "readonly x"
    and o: "mdb_dbi_open L e t name False = Some (0, d, e1)"
  shows "same_data (obs e) (obs e1) \<and> dbis (obs e1) d = Some name"
  using ok t
proof (cases rule: open_cases [where name = name and create = False])
  case (opened d' e' x' m)
  then have "x' = x" "d' = d" "e' = e1" using ro o by auto
  then show ?thesis using opened(2-5) t by (simp add: same_data_iff fun_upd_idem)
qed (use o in simp)

text \<open>A read leaves everything but the handles as it was, whatever its name and its result.\<close>

lemma database_get_frame:
  assumes ok: "lmdb_ok L obs"
    and own: "\<And>t. transaction = Some t \<Longrightarrow> \<exists>x. txns (obs e) t = Some x \<and> readonly x"
    and get: "database_get L e transaction name k = Some (r, d, e')"
  shows "same_data (obs e) (obs e')"
proof (cases transaction)
  case (Some t)
  then obtain x where x: "txns (obs e) t = Some x" "readonly x" using own by blast
  obtain dbi e1 where o: "mdb_dbi_open L e t (map_option cstr name) False = Some (0, dbi, e1)"
    "mdb_dbi_close L e1 dbi = Some e'"
    using get Some by (auto simp: database_get_def transaction_init_def bind_eq_Some_conv split: if_splits)
  have "same_data (obs e) (obs e1)" "dbis (obs e1) dbi = Some (map_option cstr name)"
    using handle_then_get [OF ok x o(1)] by simp_all
  then show ?thesis using close_open(1) [OF ok _ o(2)] same_data_trans by blast
next
  case None
  from ok show ?thesis
  proof (cases rule: start_cases [where e = e and ro = True])
    case (refused e1)
    then show ?thesis using get None by (simp add: database_get_def transaction_init_def)
  next
    case (begun t e0)
    then have x: "txns (obs e0) t = Some \<lparr>readonly = True, view = committed (obs e), touched = {}\<rparr>" by simp
    obtain dbi e1 e2 where o: "mdb_dbi_open L e0 t (map_option cstr name) False = Some (0, dbi, e1)"
      "mdb_txn_abort L e1 t = Some e2" "mdb_dbi_close L e2 dbi = Some e'"
      using get None begun(1)
      by (auto simp: database_get_def transaction_init_def database_transaction_rollback_def
          bind_eq_Some_conv split: if_splits)
    have s1: "same_data (obs e0) (obs e1)" "dbis (obs e1) dbi = Some (map_option cstr name)"
      using handle_then_get [OF ok x _ o(1)] by simp_all
    then have "txns (obs e1) t \<noteq> None" using x by (simp add: same_data_iff)
    then have e2: "obs e2 = (obs e1)\<lparr>txns := (txns (obs e1))(t := None)\<rparr>"
      using abort_live [OF ok] o(2) by (metis not_None_eq option.inject)
    then have "same_data (obs e2) (obs e')" using s1(2) by (intro close_open(1) [OF ok _ o(3)]) simp
    then show ?thesis using e2 s1(1) begun(2,3) by (simp add: same_data_iff fun_upd_idem)
  qed
qed

text \<open>Listing: the callback sees the items of the database one after the other.\<close>

fun run_cb :: "('s \<Rightarrow> bytes \<Rightarrow> bytes \<Rightarrow> yerr_t \<times> 's) \<Rightarrow> (bytes \<times> bytes) list \<Rightarrow> 's \<Rightarrow> 's" where
  "run_cb cb [] s = s"
| "run_cb cb ((k, v) # items) s =
     (case cb s k v of (r, s') \<Rightarrow> if r \<noteq> YENOERR then s' else run_cb cb items s')"

lemmas cursor_open_rule = lmdb_okD(10) [unfolded cursor_law_def, THEN conjunct1, rule_format]
lemmas cursor_rule = lmdb_okD(10) [unfolded cursor_law_def, THEN conjunct2, rule_format]

lemma list_loop_ok:
  assumes ok: "lmdb_ok L obs" and "cursors (obs e) c = Some items"
  shows "\<exists>e' items'. list_loop L cb e c s = Some (e', run_cb cb items s) \<and>
    obs e' = (obs e)\<lparr>cursors := (cursors (obs e))(c \<mapsto> items')\<rparr>"
  using assms(2)
proof (induction items arbitrary: e s)
  case Nil
  obtain rc k v e' where "mdb_cursor_get L e c = Some (rc, k, v, e')" "rc \<noteq> 0" "obs e' = obs e"
    using cursor_rule [OF ok, of e c] Nil by auto
  then show ?case
    using Nil by (intro exI [of _ e'] exI [of _ "[]"], subst list_loop.simps) (simp add: fun_upd_idem)
next
  case (Cons p items)
  obtain k v where p: "p = (k, v)" by (cases p)
  obtain e1 where g: "mdb_cursor_get L e c = Some (0, k, v, e1)"
    "obs e1 = (obs e)\<lparr>cursors := (cursors (obs e))(c \<mapsto> items)\<rparr>"
    using cursor_rule [OF ok, of e c] Cons.prems p by auto
  obtain r s' where cb: "cb s k v = (r, s')" by (cases "cb s k v")
  show ?case
  proof (cases "r = YENOERR")
    case True
    have "cursors (obs e1) c = Some items" using g(2) by simp
    then obtain e' items' where "list_loop L cb e1 c s' = Some (e', run_cb cb items s')"
      "obs e' = (obs e1)\<lparr>cursors := (cursors (obs e1))(c \<mapsto> items')\<rparr>"
      using Cons.IH by blast
    then show ?thesis
      using g cb p True by (intro exI [of _ e'] exI [of _ items'], subst list_loop.simps) simp
  next
    case False
    then show ?thesis
      using g cb p by (intro exI [of _ e1] exI [of _ items], subst list_loop.simps) simp
  qed
qed

lemma close_and_abort:
  assumes ok: "lmdb_ok L obs" and "dbis (obs e) d = Some None" and "txns (obs e) t = Some x"
  shows "\<exists>e1 e2. mdb_dbi_close L e d = Some e1 \<and> mdb_txn_abort L e1 t = Some e2 \<and>
    same_data ((obs e)\<lparr>txns := (txns (obs e))(t := None)\<rparr>) (obs e2)"
proof -
  obtain e1 where e1: "mdb_dbi_close L e d = Some e1" "same_data (obs e) (obs e1)"
    using close_main [OF ok assms(2)] by blast
  then have "txns (obs e1) t = Some x" using assms(3) by (simp add: same_data_iff)
  then obtain e2 where "mdb_txn_abort L e1 t = Some e2"
    "obs e2 = (obs e1)\<lparr>txns := (txns (obs e1))(t := None)\<rparr>"
    using abort_live [OF ok] by blast
  then show ?thesis using e1 by (simp add: same_data_iff)
qed

lemma database_list_own:
  assumes ok: "lmdb_ok L obs" and m: "committed (obs e) None = Some m"
  shows "\<exists>r e' s'. database_list L e None None cb s = Some (r, e', s') \<and> same_data (obs e) (obs e') \<and>
    (if r = YENOERR then \<exists>items. map_of items = m \<and> distinct (map fst items) \<and> s' = run_cb cb items s
     else r = YEACCESS \<and> s' = s)"
  using ok
proof (cases rule: start_cases [where e = e and ro = True])
  case (refused e')
  then show ?thesis by (simp add: database_list_def transaction_init_def)
next
  case (begun t e0)
  define x where "x = \<lparr>readonly = True, view = committed (obs e), touched = {}\<rparr>"
  have t0: "txns (obs e0) t = Some x" using begun(3) by (simp add: x_def)
  have vx: "view x None = Some m" using m by (simp add: x_def)
  from ok t0 show ?thesis
  proof (cases rule: open_cases [where name = None and create = False])
    case (opened d e1 x1 m1)
    have x1: "x1 = x" using opened(8) by auto
    have t1: "txns (obs e1) t = Some x" using opened(3) x1 by simp
    have "same_data (obs e0) (obs e1)"
      using opened(3-5) x1 t0 by (simp add: same_data_iff fun_upd_idem)
    have finish: "\<exists>e3 e4. mdb_dbi_close L e2 d = Some e3 \<and> mdb_txn_abort L e3 t = Some e4 \<and>
        same_data (obs e) (obs e4)"
      if "obs e2 = (obs e1)\<lparr>cursors := cursors (obs e)\<rparr>" for e2
      using close_and_abort [OF ok, of e2 d t x] that opened(2) t1
        \<open>same_data (obs e0) (obs e1)\<close> begun(2,3)
      by (auto simp: same_data_iff fun_upd_idem)
    have cur: "cursors (obs e1) = cursors (obs e)"
      using \<open>same_data (obs e0) (obs e1)\<close> begun(3) by (simp add: same_data_iff)
    note defs = database_list_def transaction_init_def database_transaction_rollback_def
    obtain rc c e2 where o: "mdb_cursor_open L e1 t d = Some (rc, c, e2)"
      "if rc = 0 then cursors (obs e1) c = None \<and> (\<exists>items. map_of items = m \<and> distinct (map fst items) \<and>
          obs e2 = (obs e1)\<lparr>cursors := (cursors (obs e1))(c \<mapsto> items)\<rparr>)
       else obs e2 = obs e1"
      using cursor_open_rule [OF ok t1 opened(2) vx] by blast
    show ?thesis
    proof (cases "rc = 0")
      case False
      then have "obs e2 = (obs e1)\<lparr>cursors := cursors (obs e)\<rparr>" using o(2) cur by simp
      then show ?thesis
        using finish [of e2] begun(1) opened(1) o(1) False by (auto simp: defs)
    next
      case True
      then obtain items where it: "map_of items = m" "distinct (map fst items)"
        "obs e2 = (obs e1)\<lparr>cursors := (cursors (obs e1))(c \<mapsto> items)\<rparr>" "cursors (obs e1) c = None"
        using o(2) by auto
      have "cursors (obs e2) c = Some items" using it(3) by simp
      then obtain e3 items' where l: "list_loop L cb e2 c s = Some (e3, run_cb cb items s)"
        "obs e3 = (obs e2)\<lparr>cursors := (cursors (obs e2))(c \<mapsto> items')\<rparr>"
        using list_loop_ok [OF ok, of e2 c items cb s] by auto
      have "cursors (obs e3) c = Some items'" using l(2) by simp
      then obtain e4 where c: "mdb_cursor_close L e3 c = Some e4"
        "obs e4 = (obs e3)\<lparr>cursors := (cursors (obs e3))(c := None)\<rparr>"
        using cursor_rule [OF ok, of e3 c] by auto
      have "obs e4 = (obs e1)\<lparr>cursors := cursors (obs e)\<rparr>"
        using c(2) l(2) it(3,4) cur by (simp add: fun_upd_idem)
      then show ?thesis
        using finish [of e4] begun(1) opened(1) o(1) True l(1) c(1) it(1,2)
        by (auto simp: defs intro!: exI [of _ items])
    qed
  qed simp
qed

section \<open>Properties\<close>

definition mem_empty :: mem_env where
  "mem_empty = \<lparr>me_dbs = [], me_txns = [], me_dbis = [], me_cursors = []\<rparr>"

lemma mem_commits: "\<not> commit_fails mem_lmdb"
  by (auto simp: commit_fails_def mem_lmdb_def bind_eq_Some_conv)



text \<open>
  C22: What was written is read back. After a successful \<^verbatim>\<open>database_put\<close>, \<^verbatim>\<open>database_get\<close> of the same
  key returns the value written, and of any other key what it returned before.
\<close>

theorem database_put_get:
  assumes "lmdb_ok L obs" and "committed (obs e) None = Some m"
    and "database_put L e None create_only None key data = Some (YENOERR, e1)"
    and "fst (database_transaction_start L e1 True) \<noteq> None" and "mdb_key_ok k"
  shows "\<exists>e2. database_get L e1 None None k =
    Some (if k = key then (YENOERR, Some data, e2)
          else case m k of Some v \<Rightarrow> (YENOERR, Some v, e2) | None \<Rightarrow> (YENODATA, None, e2))"
proof -
  have "committed (obs e1) None = Some (m(key \<mapsto> data))"
    using database_put_own [OF assms(1), where e = e and co = create_only and name = None and k = key
        and v = data] assms(2,3)
    by (auto simp: same_data_iff)
  then show ?thesis
    using database_get_own [OF assms(1), of e1 _ k] assms(4,5)
    by (auto simp: read_result_def split: option.splits)
qed

theorem database_put_get_witness:
  "\<exists>e1 e2. database_put mem_lmdb mem_empty None False None [1] [2] = Some (YENOERR, e1) \<and>
     database_get mem_lmdb e1 None None [1] = Some (YENOERR, Some [2], e2)"
proof -
  define e1 where "e1 = mem_empty\<lparr>me_dbs := [(None, [([1], [2])])]\<rparr>"
  have put: "database_put mem_lmdb mem_empty None False None [1] [2] = Some (YENOERR, e1)"
    unfolding e1_def by code_simp
  have "fst (database_transaction_start mem_lmdb e1 True) \<noteq> None" "mdb_key_ok [1]"
    "committed (mem_abs mem_empty) None = Some Map.empty"
    by (simp_all add: database_transaction_start_def mem_lmdb_def mdb_key_ok_def mem_abs_def
        mem_empty_def mem_kv_def)
  then show ?thesis
    using database_put_get [OF mem_lmdb_ok _ put, of Map.empty "[1]"] put by auto
qed





text \<open>
  When the commit of a write fails, the code rolls back the transaction that the commit has
  already freed: the end of \<^verbatim>\<open>database_put\<close> and \<^verbatim>\<open>database_del\<close> is undefined.
\<close>

theorem failed_commit_undefined:
  assumes "lmdb_ok L obs" and "txns (obs e) t = Some x"
    and "mdb_txn_commit L e t = Some (rc, e')" and "rc \<noteq> 0"
  shows "end_of_process L e None t YENOERR = None"
proof -
  have "txns (obs e') t = None" using commit_live [OF assms(1,2)] assms(3) by (metis (no_types, lifting)
      fun_upd_same mdb_abs.select_convs(2) mdb_abs.surjective mdb_abs.update_convs(1,2) option.inject prod.inject)
  then have "mdb_txn_abort L e' t = None" by (rule abort_dead [OF assms(1)])
  then show ?thesis
    using assms(3,4)
    by (simp add: end_of_process_def database_transaction_commit_def database_transaction_rollback_def)
qed

text \<open>A full disk: the memory environment with commits that fail.\<close>

definition mem_full :: "mem_env lmdb" where
  "mem_full = mem_lmdb\<lparr>mdb_txn_commit := (\<lambda>e t. do {
     x \<leftarrow> map_of (me_txns e) t;
     Some (28, e\<lparr>me_txns := AList.delete t (me_txns e)\<rparr>) })\<rparr>"

lemma mem_full_ok: "lmdb_ok mem_full mem_abs"
proof -
  have commit: "txn_commit_law mem_full mem_abs"
    by (auto simp: txn_commit_law_def mem_full_def mem_abs_def mem_handle_def delete_conv'
        split: option.split intro!: exI [of _ 28])
  have same: "mdb_txn_begin mem_full = mdb_txn_begin mem_lmdb" "mdb_txn_abort mem_full = mdb_txn_abort mem_lmdb"
    "mdb_dbi_open mem_full = mdb_dbi_open mem_lmdb" "mdb_dbi_close mem_full = mdb_dbi_close mem_lmdb"
    "mdb_get mem_full = mdb_get mem_lmdb" "mdb_put mem_full = mdb_put mem_lmdb"
    "mdb_del mem_full = mdb_del mem_lmdb" "mdb_drop mem_full = mdb_drop mem_lmdb"
    "mdb_cursor_open mem_full = mdb_cursor_open mem_lmdb" "mdb_cursor_get mem_full = mdb_cursor_get mem_lmdb"
    "mdb_cursor_close mem_full = mdb_cursor_close mem_lmdb"
    by (simp_all add: mem_full_def)
  have txn_begin: "txn_begin_law mem_full mem_abs"
    using lmdb_okD(1) [OF mem_lmdb_ok] unfolding txn_begin_law_def same .
  have txn_abort: "txn_abort_law mem_full mem_abs"
    using lmdb_okD(3) [OF mem_lmdb_ok] unfolding txn_abort_law_def same .
  have dbi_open: "dbi_open_law mem_full mem_abs"
    using lmdb_okD(4) [OF mem_lmdb_ok] unfolding dbi_open_law_def same .
  have dbi_close: "dbi_close_law mem_full mem_abs"
    using lmdb_okD(5) [OF mem_lmdb_ok] unfolding dbi_close_law_def same .
  have get: "get_law mem_full mem_abs"
    using lmdb_okD(6) [OF mem_lmdb_ok] unfolding get_law_def same .
  have put: "put_law mem_full mem_abs"
    using lmdb_okD(7) [OF mem_lmdb_ok] unfolding put_law_def same .
  have del: "del_law mem_full mem_abs"
    using lmdb_okD(8) [OF mem_lmdb_ok] unfolding del_law_def same .
  have drop: "drop_law mem_full mem_abs"
    using lmdb_okD(9) [OF mem_lmdb_ok] unfolding drop_law_def same .
  have cursor: "cursor_law mem_full mem_abs"
    using lmdb_okD(10) [OF mem_lmdb_ok] unfolding cursor_law_def same .
  show ?thesis
    unfolding lmdb_ok_def
    by (intro conjI commit mem_main_law txn_begin txn_abort dbi_open dbi_close get put del drop cursor)
qed

theorem failed_commit_undefined_witness:
  "end_of_process mem_full
     (mem_empty\<lparr>me_txns := [(2, \<lparr>mt_readonly = False, mt_view = [], mt_touched = []\<rparr>)]\<rparr>)
     None 2 YENOERR = None"
  by (rule failed_commit_undefined [OF mem_full_ok,
        where x = "mem_txn_abs \<lparr>mt_readonly = False, mt_view = [], mt_touched = []\<rparr>" and rc = 28
          and e' = mem_empty])
    (simp_all add: mem_full_def mem_txns_eq mem_empty_def)

text \<open>
  \<^verbatim>\<open>database_list\<close> on the default database hands every key with its value to the callback exactly
  once, until the callback refuses, and leaves data and transactions as they were.
\<close>

theorem database_list_complete:
  assumes "lmdb_ok L obs" and "committed (obs e) None = Some m"
  shows "\<exists>r e' s'. database_list L e None None cb s = Some (r, e', s') \<and>
    committed (obs e') = committed (obs e) \<and> txns (obs e') = txns (obs e) \<and>
    (if r = YENOERR
     then \<exists>items. map_of items = m \<and> distinct (map fst items) \<and> s' = run_cb cb items s
     else r = YEACCESS \<and> s' = s)"
  using database_list_own [OF assms, of cb s] unfolding same_data_iff by blast

theorem database_list_complete_witness:
  "\<exists>r e' s'. database_list mem_lmdb (mem_empty\<lparr>me_dbs := [(None, [([1], [2])])]\<rparr>) None None
      (\<lambda>s k v. (YENOERR, s @ [k])) [] = Some (r, e', s') \<and>
    committed (mem_abs e') = committed (mem_abs (mem_empty\<lparr>me_dbs := [(None, [([1], [2])])]\<rparr>)) \<and>
    txns (mem_abs e') = txns (mem_abs (mem_empty\<lparr>me_dbs := [(None, [([1], [2])])]\<rparr>)) \<and>
    (if r = YENOERR
     then \<exists>items. map_of items = Map.empty([1] \<mapsto> [2]) \<and> distinct (map fst items) \<and>
       s' = run_cb (\<lambda>s k v. (YENOERR, s @ [k])) items []
     else r = YEACCESS \<and> s' = [])"
  by (rule database_list_complete [OF mem_lmdb_ok]) (simp add: mem_abs_def mem_empty_def mem_kv_def)

end
