(* ===== verification/Socket.thy ===== *)
theory Socket
  imports Ydynabin
begin

text \<open>
  A connected TCP socket as its two ends see it, and the loop that fills a dynamic buffer from it.
  The server (\<^verbatim>\<open>connection_read_data\<close>) and the client library (\<^verbatim>\<open>_read_data\<close>) have the same loop; it is
  modelled once, over every record that extends \<open>chan\<close>. The locale \<open>reader\<close> is what the
  parsers of requests and of responses rely on.
\<close>

section \<open>Sockets\<close>

text \<open>
  What the network and the allocator will do is part of the state. \<open>inp\<close> lists what the next
  calls of \<^verbatim>\<open>recv\<close> find: an error (a timeout is one), or bytes, where no bytes is the end of the
  connection. Nothing left is a timeout. \<open>sends\<close> lists the outcome of the next calls of
  \<^verbatim>\<open>sendmsg\<close> and \<^verbatim>\<open>write\<close>, and \<open>mem\<close> that of the next allocations; an empty list is success from
  then on.
\<close>

datatype recv_event = RecvErr | RecvData bytes

datatype send_event = SendErr | SendSome nat

record chan =
  inp :: "recv_event list"
  outp :: bytes
  sends :: "send_event list"
  mem :: "bool list"

definition alloc :: "'a chan_scheme \<Rightarrow> bool \<times> 'a chan_scheme" where
  "alloc ch = (case mem ch of [] \<Rightarrow> (True, ch) | b # bs \<Rightarrow> (b, ch\<lparr>mem := bs\<rparr>))"

definition recv :: "'a chan_scheme \<Rightarrow> nat \<Rightarrow> bytes option \<times> 'a chan_scheme" where
  "recv ch n =
     (case inp ch of
        [] \<Rightarrow> (None, ch)
      | RecvErr # r \<Rightarrow> (None, ch\<lparr>inp := r\<rparr>)
      | RecvData d # r \<Rightarrow>
          if d = [] then (Some [], ch)
          else (Some (take n d), ch\<lparr>inp := (if length d \<le> n then r else RecvData (drop n d) # r)\<rparr>))"

definition sendmsg :: "'a chan_scheme \<Rightarrow> bytes \<Rightarrow> int \<times> 'a chan_scheme" where
  "sendmsg ch msg =
     (case sends ch of
        [] \<Rightarrow> (int (length msg), ch\<lparr>outp := outp ch @ msg\<rparr>)
      | SendErr # r \<Rightarrow> (-1, ch\<lparr>sends := r\<rparr>)
      | SendSome k # r \<Rightarrow>
          (int (length (take k msg)), ch\<lparr>sends := r, outp := outp ch @ take k msg\<rparr>))"

text \<open>The bytes that can still be received before an error or the end.\<close>

fun arriving :: "recv_event list \<Rightarrow> bytes" where
  "arriving [] = []"
| "arriving (RecvErr # r) = []"
| "arriving (RecvData d # r) = (if d = [] then [] else d @ arriving r)"

fun event_size :: "recv_event \<Rightarrow> nat" where
  "event_size RecvErr = 1"
| "event_size (RecvData d) = Suc (length d)"

definition pending :: "'a chan_scheme \<Rightarrow> nat" where
  "pending ch = sum_list (map event_size (inp ch))"

lemma recv_cases:
  assumes "recv ch n = (res, ch')" and "0 < n"
  shows "\<exists>i. ch' = ch\<lparr>inp := i\<rparr>"
    and "res = None \<Longrightarrow> arriving (inp ch) = []"
    and "res = Some [] \<Longrightarrow> arriving (inp ch) = []"
    and "res = Some bs \<Longrightarrow> bs \<noteq> [] \<Longrightarrow>
      arriving (inp ch) = bs @ arriving (inp ch') \<and> pending ch' < pending ch \<and> length bs \<le> n"
  using assms
  by (cases ch; auto simp: recv_def pending_def split: list.splits recv_event.splits if_splits)+

lemma alloc_frame: "alloc ch = (b, ch') \<Longrightarrow> \<exists>m. ch' = ch\<lparr>mem := m\<rparr>"
  by (cases ch) (auto simp: alloc_def split: list.splits)

lemma alloc_ok [simp]: "mem ch = [] \<Longrightarrow> alloc ch = (True, ch)"
  by (simp add: alloc_def)

lemma recv_segment:
  assumes "inp ch = RecvData d # r" and "d \<noteq> []" and "length d \<le> n"
  shows "recv ch n = (Some d, ch\<lparr>inp := r\<rparr>)"
  using assms by (simp add: recv_def)

section \<open>Filling a buffer\<close>

function read_loop ::
    "'a chan_scheme \<Rightarrow> ydynabin_t \<Rightarrow> size_t \<Rightarrow> (yerr_t \<times> ydynabin_t \<times> 'a chan_scheme) option" where
  "read_loop ch container sz =
     (if dyn_len container < sz then
        (case recv ch 8196 of
           (None, ch1) \<Rightarrow> Some (YEACCESS, container, ch1)
         | (Some bs, ch1) \<Rightarrow>
             if bs = [] then Some (YECONNRESET, container, ch1)
             else (case alloc ch1 of (ok, ch2) \<Rightarrow> do {
               (dynaerr, container') \<leftarrow>
                 ydynabin_expand ok container (Some bs) (word_of_nat (length bs));
               (if dynaerr \<noteq> YENOERR then Some (dynaerr, container', ch2)
                else read_loop ch2 container' sz) }))
      else Some (YENOERR, container, ch))"
  by auto
termination
proof (relation "measure (\<lambda>(ch, c, n). pending ch)")
  fix ch ch1 ch2 :: "'a chan_scheme" and c c' :: ydynabin_t and sz res bs ok a r
  assume a: "(res, ch1) = recv ch 8196" "res = Some bs" "bs \<noteq> []" "(ok, ch2) = alloc ch1"
  show "((ch2, c', sz), (ch, c, sz)) \<in> measure (\<lambda>(ch, c, n). pending ch)"
    using recv_cases(4) [OF a(1) [symmetric] _ a(2,3)] alloc_frame [OF a(4) [symmetric]]
    by (auto simp: pending_def)
qed auto

declare read_loop.simps [simp del]

lemma expand_Some:
  assumes inv: "dyn_inv c" and "unat len \<le> length d"
    and e: "ydynabin_expand ok c (Some d) len = Some (r, c')"
  shows "dyn_inv c' \<and> (if r = YENOERR then dyn_content c' = dyn_content c @ take (unat len) d
    else r = YENOMEM \<and> c' = c)"
proof (cases "\<not> ok \<and> len \<noteq> 0 \<and> dyn_free c < len")
  case True
  then show ?thesis using e inv by (simp add: ydynabin_expand_def)
next
  case False
  then have e': "ydynabin_expand True c (Some d) len = Some (r, c')"
    using e by (auto simp: ydynabin_expand_def)
  then have "dyn_room c len" using ydynabin_expand_None_iff [OF assms(1,2)] by auto
  then show ?thesis using ydynabin_expand_ok [OF inv _ assms(2)] e' by auto
qed

text \<open>
  What the loop guarantees when it returns: the received bytes stand behind the old ones, none is
  lost, and on success there are enough.
\<close>

lemma read_loop_stream:
  assumes "dyn_inv c" and "read_loop ch c sz = Some (r, c', ch')"
  shows "(\<exists>i m. ch' = ch\<lparr>inp := i, mem := m\<rparr>) \<and> dyn_inv c' \<and> pending ch' \<le> pending ch \<and>
    (r = YENOERR \<longrightarrow> unat sz \<le> length (dyn_content c') \<and>
       dyn_content c' @ arriving (inp ch') = dyn_content c @ arriving (inp ch))"
  using assms
proof (induction ch c sz rule: read_loop.induct)
  case (1 ch c sz)
  show ?case
  proof (cases "dyn_len c < sz")
    case False
    then have "r = YENOERR" "c' = c" "ch' = ch" using "1.prems"(2) by (simp_all add: read_loop.simps)
    then show ?thesis
      using "1.prems"(1) False length_dyn_content [of c]
      by (cases ch) (auto simp: unat_less_iff intro!: exI)
  next
    case True
    obtain res ch1 where rc: "recv ch 8196 = (res, ch1)" by (cases "recv ch 8196")
    note rcv = recv_cases [OF rc, simplified]
    obtain ok ch2 where al: "alloc ch1 = (ok, ch2)" by (cases "alloc ch1")
    obtain i where ch1: "ch1 = ch\<lparr>inp := i\<rparr>" using rcv(1) by blast
    obtain m where ch2: "ch2 = ch1\<lparr>mem := m\<rparr>" using alloc_frame [OF al] by blast
    show ?thesis
    proof (cases "res = None \<or> res = Some []")
      case fail: True
      then have "r \<noteq> YENOERR" "c' = c" "ch' = ch1"
        using "1.prems"(2) True rc by (subst (asm) read_loop.simps; auto)+
      moreover have "pending ch1 \<le> pending ch"
        using rc fail by (auto simp: recv_def pending_def split: list.splits recv_event.splits if_splits)
      ultimately show ?thesis using "1.prems"(1) ch1 by (cases ch) auto
    next
      case False
      then obtain bs where bs: "res = Some bs" "bs \<noteq> []" by auto
      have len: "unat (word_of_nat (length bs) :: size_t) = length bs"
        using rcv(4) [OF bs] by (simp add: unat_of_nat take_bit_nat_eq_self)
      obtain de cn where ex: "ydynabin_expand ok c (Some bs) (word_of_nat (length bs)) = Some (de, cn)"
        and rest: "(if de \<noteq> YENOERR then Some (de, cn, ch2) else read_loop ch2 cn sz) = Some (r, c', ch')"
        using "1.prems"(2) True rc bs al by (subst (asm) read_loop.simps) (auto simp: bind_eq_Some_conv)
      note es = expand_Some [OF "1.prems"(1) _ ex, simplified len]
      have pend: "pending ch2 < pending ch" using rcv(4) [OF bs] ch2 by (simp add: pending_def)
      show ?thesis
      proof (cases "de = YENOERR")
        case False
        then show ?thesis using rest es pend ch1 ch2 by (cases ch) auto
      next
        case ok: True
        then have go: "read_loop ch2 cn sz = Some (r, c', ch')" using rest by simp
        have "dyn_inv cn" "dyn_content cn = dyn_content c @ bs" using es ok by simp_all
        moreover have "arriving (inp ch) = bs @ arriving (inp ch2)" using rcv(4) [OF bs] ch2 by simp
        ultimately show ?thesis
          using "1.IH" [OF True rc [symmetric] bs al [symmetric] ex refl _ _ go] pend ch1 ch2 ok
          by (cases ch) auto
      qed
    qed
  qed
qed

text \<open>A request that arrives in one segment is read in one go.\<close>

lemma dyn_room_empty:
  assumes "dyn_inv c" and "dyn_content c = []" and "unat len \<le> 8196"
  shows "dyn_room c len"
proof -
  have zero: "unat (dyn_len c) = 0" using assms(1,2) length_dyn_content by fastforce
  have "unat len \<le> unat (dyn_new_size len)"
  proof (cases "len = 0")
    case False
    have l2: "unat (len * 2) = unat len * 2"
      using assms(3) by (simp add: unat_word_ariths)
    have "len < 100 * MB" using assms(3) by (simp add: unat_less_iff MB_def)
    then have s: "YDYNABIN_SIZE len = len * 2" using False by (simp add: YDYNABIN_SIZE_def)
    have "unat (len * 2 mod 8192) < 8192" by (simp add: unat_mod)
    then have "unat (len * 2 + len * 2 mod 8192) = unat (len * 2) + unat (len * 2 mod 8192)"
      using assms(3) l2 by (intro unat_add_bound) simp
    then show ?thesis by (simp add: dyn_new_size_def YDYNABIN_RNDSZ_def s l2)
  qed simp
  then show ?thesis using zero by (simp add: dyn_room_def)
qed

lemma read_loop_segment:
  assumes c: "dyn_inv c" "dyn_content c = []" and "mem ch = []"
    and i: "inp ch = RecvData d # r" "d \<noteq> []" "length d \<le> 8196"
    and sz: "0 < sz" "unat sz \<le> length d"
  shows "\<exists>c'. read_loop ch c sz = Some (YENOERR, c', ch\<lparr>inp := r\<rparr>) \<and> dyn_inv c' \<and> dyn_content c' = d"
proof -
  let ?n = "word_of_nat (length d) :: size_t"
  have len: "unat ?n = length d" using i(3) by (simp add: unat_of_nat take_bit_nat_eq_self)
  have zero: "dyn_len c < sz"
    using c sz(1) length_dyn_content [of c] by (simp add: unat_less_iff)
  obtain c' where c': "ydynabin_expand True c (Some d) ?n = Some (YENOERR, c')" "dyn_inv c'"
    "dyn_content c' = d"
    using ydynabin_expand_ok [OF c(1) dyn_room_empty [OF c, of ?n], of d] len i(3) c(2) by auto
  have "\<not> dyn_len c' < sz"
    using c'(2,3) sz(2) length_dyn_content [of c'] by (simp add: unat_less_iff)
  then have "read_loop (ch\<lparr>inp := r\<rparr>) c' sz = Some (YENOERR, c', ch\<lparr>inp := r\<rparr>)"
    by (subst read_loop.simps) simp
  then have "read_loop ch c sz = Some (YENOERR, c', ch\<lparr>inp := r\<rparr>)"
    using zero recv_segment [OF i] c'(1) assms(3) i(2)
    by (subst read_loop.simps) simp
  then show ?thesis using c' by blast
qed

section \<open>Reading fields\<close>

text \<open>
  The contract of a function that makes sure enough bytes are buffered, and what follows for the
  step every parser repeats: read \<open>n\<close> bytes, move the buffer forward, look at them.
\<close>

locale reader =
  fixes buf :: "'s \<Rightarrow> ydynabin_t"
    and set_buf :: "ydynabin_t \<Rightarrow> 's \<Rightarrow> 's"
    and arr :: "'s \<Rightarrow> bytes"
    and ready :: "'s \<Rightarrow> bool"
    and read_data :: "'s \<Rightarrow> size_t \<Rightarrow> (yerr_t \<times> 's) option"
    and field :: "'s \<Rightarrow> size_t \<Rightarrow> (bytes option \<times> 's) option"
  assumes buf_set: "buf (set_buf c s) = c"
    and arr_set: "arr (set_buf c s) = arr s"
    and ready_set: "ready (set_buf c s) = ready s"
    and read_stream: "dyn_inv (buf s) \<Longrightarrow> read_data s n = Some (r, s') \<Longrightarrow>
      dyn_inv (buf s') \<and> (r = YENOERR \<longrightarrow> unat n \<le> length (dyn_content (buf s')) \<and>
        dyn_content (buf s') @ arr s' = dyn_content (buf s) @ arr s)"
    and read_buffered: "dyn_inv (buf s) \<Longrightarrow> ready s \<Longrightarrow> unat n \<le> length (dyn_content (buf s)) \<Longrightarrow>
      read_data s n = Some (YENOERR, s)"
    and field_eq: "field s n = do {
      (r, s') \<leftarrow> read_data s n;
      (if r \<noteq> YENOERR then Some (None, s')
       else (case ydynabin_forward (buf s') n of (p, c) \<Rightarrow> do {
         bs \<leftarrow> dyn_deref c p (unat n);
         Some (Some bs, set_buf c s') })) }"
begin

lemma field_stream:
  assumes "dyn_inv (buf s)" and "field s n = Some (res, s')"
  shows "dyn_inv (buf s') \<and> (\<forall>bs. res = Some bs \<longrightarrow> length bs = unat n \<and>
    dyn_content (buf s) @ arr s = bs @ dyn_content (buf s') @ arr s')"
proof -
  obtain r s1 where r: "read_data s n = Some (r, s1)"
    using assms(2) by (auto simp: field_eq bind_eq_Some_conv)
  note st = read_stream [OF assms(1) r]
  show ?thesis
  proof (cases "r = YENOERR")
    case False
    then show ?thesis using assms(2) r st by (auto simp: field_eq)
  next
    case True
    then obtain p c where "ydynabin_forward (buf s1) n = (p, c)" "dyn_inv c"
      "dyn_content c = drop (unat n) (dyn_content (buf s1))"
      "dyn_deref c p (unat n) = Some (take (unat n) (dyn_content (buf s1)))"
      using dyn.forward_ok [of "buf s1" n] st by auto
    moreover from this True r have "field s n = Some (Some (take (unat n) (dyn_content (buf s1))), set_buf c s1)"
      by (simp add: field_eq)
    ultimately show ?thesis
      using assms(2) st True by (auto simp: buf_set arr_set) (metis append.assoc append_take_drop_id)
  qed
qed

text \<open>A field that is already buffered is taken off the front.\<close>

lemma field_buffered:
  assumes "dyn_inv (buf s)" and "ready s" and "dyn_content (buf s) = f @ rest" and "length f = unat n"
  shows "\<exists>c. field s n = Some (Some f, set_buf c s) \<and> dyn_inv c \<and> dyn_content c = rest"
proof -
  obtain p c where "ydynabin_forward (buf s) n = (p, c)" "dyn_inv c" "dyn_content c = rest"
    "dyn_deref c p (unat n) = Some f"
    using dyn.fetch_prefix [OF assms(1,3,4)] by auto
  then show ?thesis
    using read_buffered [OF assms(1,2), of n] assms(3,4) by (auto simp: field_eq)
qed

end

end
