(* ===== verification/Connection.thy ===== *)
theory Connection
  imports Socket Protocol Database
begin

text \<open>
  The connection layer of the server, \<^verbatim>\<open>src/server/connection_thread.c\<close> without the request loop:
  the thread structure, reading from and answering to a client, disconnecting. The thread record
  extends the socket of theory \<^theory_text>\<open>Socket\<close> with the fields of \<^verbatim>\<open>tcp_thread_t\<close> and the buffer that
  \<^verbatim>\<open>connection_thread_execution\<close> keeps for it. Logging and socket timeouts have no counterpart.
\<close>

section \<open>Threads\<close>

text \<open>
  \<open>dbname\<close> is the block that \<^verbatim>\<open>thread->dbname\<close> points to; LMDB reads it as a C string.
  \<open>transaction\<close> is the handle of the running transaction.
\<close>

record tcp_thread_t = chan +
  fd :: int
  dbname :: "bytes option"
  transaction :: "nat option"
  buff :: ydynabin_t

text \<open>
  A new thread: the arguments say whether its structure is allocated, which is not checked, and
  whether \<^verbatim>\<open>pthread_create\<close> succeeds. The inner option is the null pointer.
\<close>

definition connection_thread_new :: "bool \<Rightarrow> bool \<Rightarrow> tcp_thread_t option option" where
  "connection_thread_new allocated created =
     (if \<not> allocated then None
      else Some (if created
        then Some \<lparr>inp = [], outp = [], sends = [], mem = [],
               fd = -1, dbname = None, transaction = None, buff = ydynabin_zero\<rparr>
        else None))"

section \<open>Reading and answering\<close>

definition connection_read_data ::
    "tcp_thread_t \<Rightarrow> size_t \<Rightarrow> (yerr_t \<times> tcp_thread_t) option" where
  "connection_read_data thread sz =
     (if fd thread < 0 then Some (YECONNRESET, thread)
      else if sz \<le> dyn_len (buff thread) then Some (YENOERR, thread)
      else do {
        (r, c, thread') \<leftarrow> read_loop thread (buff thread) sz;
        Some (r, thread'\<lparr>buff := c\<rparr>) })"

text \<open>
  The step that every command repeats: \<^verbatim>\<open>connection_read_data\<close>, \<^verbatim>\<open>ydynabin_forward\<close>, and a look at
  the bytes behind the pointer. No bytes is the jump to the error label.
\<close>

definition read_field :: "tcp_thread_t \<Rightarrow> size_t \<Rightarrow> (bytes option \<times> tcp_thread_t) option" where
  "read_field thread n = do {
     (r, thread') \<leftarrow> connection_read_data thread n;
     (if r \<noteq> YENOERR then Some (None, thread')
      else (case ydynabin_forward (buff thread') n of (p, c) \<Rightarrow> do {
        bs \<leftarrow> dyn_deref c p (unat n);
        Some (Some bs, thread'\<lparr>buff := c\<rparr>) })) }"

definition response_code :: "protocol_response_t \<Rightarrow> bool \<Rightarrow> bool \<Rightarrow> byte" where
  "response_code code serialized compressed =
     (let b1 = resp_code code;
          b2 = (if serialized then RESPONSE_ADD_SERIALIZED b1 else b1) in
      if compressed then RESPONSE_ADD_COMPRESSED b2 else b2)"

definition response_bytes :: "protocol_response_t \<Rightarrow> bool \<Rightarrow> bool \<Rightarrow> bytes option \<Rightarrow> bytes" where
  "response_bytes code serialized compressed data =
     response_code code serialized compressed #
       (case data of None \<Rightarrow> [] | Some d \<Rightarrow> htonl (word_of_nat (length d)) @ d)"

definition connection_send_response ::
    "tcp_thread_t \<Rightarrow> protocol_response_t \<Rightarrow> bool \<Rightarrow> bool \<Rightarrow> bytes option \<Rightarrow> yerr_t \<times> tcp_thread_t" where
  "connection_send_response thread code serialized compressed data =
     (let msg = response_bytes code serialized compressed data in
      case sendmsg thread msg of (rc, thread') \<Rightarrow>
        (if rc < 0 then YEIO else if rc \<noteq> int (length msg) then YEIO else YENOERR, thread'))"

definition CONNECTION_SEND_OK :: "tcp_thread_t \<Rightarrow> yerr_t \<times> tcp_thread_t" where
  "CONNECTION_SEND_OK thread = connection_send_response thread RESP_OK False False None"

definition CONNECTION_SEND_ERROR :: "tcp_thread_t \<Rightarrow> protocol_response_t \<Rightarrow> yerr_t \<times> tcp_thread_t" where
  "CONNECTION_SEND_ERROR thread err = connection_send_response thread err False False None"

definition connection_thread_disconnect ::
    "'e lmdb \<Rightarrow> tcp_thread_t \<Rightarrow> 'e \<Rightarrow> (tcp_thread_t \<times> 'e) option" where
  "connection_thread_disconnect L thread env =
     (if fd thread = -1 then Some (thread, env)
      else do {
        (thread1, env1) \<leftarrow>
          (case transaction thread of
             None \<Rightarrow> Some (thread, env)
           | Some txn \<Rightarrow> do {
               env1 \<leftarrow> database_transaction_rollback L env txn;
               Some (thread\<lparr>transaction := None\<rparr>, env1) });
        Some (thread1\<lparr>fd := -1, dbname := None\<rparr>, env1) })"

section \<open>The contract of the reader\<close>

text \<open>What a read may change of a thread.\<close>

definition read_only :: "tcp_thread_t \<Rightarrow> tcp_thread_t \<Rightarrow> bool" where
  "read_only th th' \<longleftrightarrow> (\<exists>i m c. th' = th\<lparr>inp := i, mem := m, buff := c\<rparr>)"

lemma read_only_refl [simp]: "read_only th th"
  unfolding read_only_def by (cases th) auto

lemma read_only_trans: "read_only a b \<Longrightarrow> read_only b c \<Longrightarrow> read_only a c"
  unfolding read_only_def by (cases a) auto

lemma read_only_fields:
  assumes "read_only th th'"
  shows "fd th' = fd th" "dbname th' = dbname th" "transaction th' = transaction th"
    "outp th' = outp th" "sends th' = sends th"
proof -
  obtain i m c where "th' = th\<lparr>inp := i, mem := m, buff := c\<rparr>" using assms unfolding read_only_def by blast
  then show "fd th' = fd th" "dbname th' = dbname th" "transaction th' = transaction th"
    "outp th' = outp th" "sends th' = sends th"
    by simp_all
qed

text \<open>Every byte that is still to be parsed.\<close>

definition stream :: "tcp_thread_t \<Rightarrow> bytes" where
  "stream th = dyn_content (buff th) @ arriving (inp th)"

lemma connection_read_data_ok:
  assumes inv: "dyn_inv (buff th)" and rd: "connection_read_data th n = Some (r, th')"
  shows "read_only th th' \<and> dyn_inv (buff th') \<and> pending th' \<le> pending th \<and>
    (r = YENOERR \<longrightarrow> unat n \<le> length (dyn_content (buff th')) \<and> stream th' = stream th)"
proof (cases "fd th < 0 \<or> n \<le> dyn_len (buff th)")
  case True
  then have "th' = th" "r = YENOERR \<Longrightarrow> n \<le> dyn_len (buff th)"
    using rd by (auto simp: connection_read_data_def split: if_splits)
  then show ?thesis using inv length_dyn_content [OF inv] by (auto simp: unat_le_iff)
next
  case False
  then obtain c ch where l: "read_loop th (buff th) n = Some (r, c, ch)" "th' = ch\<lparr>buff := c\<rparr>"
    using rd by (auto simp: connection_read_data_def bind_eq_Some_conv)
  note st = read_loop_stream [OF inv l(1)]
  then obtain i m where ch: "ch = th\<lparr>inp := i, mem := m\<rparr>" by blast
  have "read_only th th'" unfolding read_only_def l(2) ch by auto
  then show ?thesis using st l(2) by (simp add: stream_def pending_def)
qed

interpretation srv: reader buff "\<lambda>c th. th\<lparr>buff := c\<rparr>" "\<lambda>th. arriving (inp th)" "\<lambda>th. 0 \<le> fd th"
  connection_read_data read_field
proof unfold_locales
  fix s s' :: tcp_thread_t and n r
  assume "dyn_inv (buff s)" "connection_read_data s n = Some (r, s')"
  from connection_read_data_ok [OF this]
  show "dyn_inv (buff s') \<and> (r = YENOERR \<longrightarrow> unat n \<le> length (dyn_content (buff s')) \<and>
      dyn_content (buff s') @ arriving (inp s') = dyn_content (buff s) @ arriving (inp s))"
    by (simp add: stream_def)
next
  fix s :: tcp_thread_t and n :: size_t
  assume "dyn_inv (buff s)" "0 \<le> fd s" "unat n \<le> length (dyn_content (buff s))"
  then show "connection_read_data s n = Some (YENOERR, s)"
    by (simp add: connection_read_data_def unat_le_iff length_dyn_content)
qed (simp_all add: read_field_def)

lemma read_field_ok:
  assumes inv: "dyn_inv (buff th)" and rd: "read_field th n = Some (res, th')"
  shows "read_only th th' \<and> dyn_inv (buff th') \<and> pending th' \<le> pending th \<and>
    (\<forall>bs. res = Some bs \<longrightarrow> length bs = unat n \<and> stream th = bs @ stream th')"
proof -
  obtain r th1 where r: "connection_read_data th n = Some (r, th1)"
    using rd by (auto simp: read_field_def bind_eq_Some_conv)
  note ok = connection_read_data_ok [OF inv r]
  have "read_only th1 th' \<and> pending th' = pending th1"
    using rd r unfolding read_field_def read_only_def
    by (cases th1) (auto simp: bind_eq_Some_conv pending_def split: if_splits prod.splits)
  then show ?thesis
    using ok srv.field_stream [OF inv rd] read_only_trans [of th th1 th'] by (auto simp: stream_def)
qed

text \<open>The first field of a request that arrives in one segment, and the fields behind it.\<close>

lemma read_field_segment:
  assumes th: "dyn_inv (buff th)" "dyn_content (buff th) = []" "mem th = []" "0 \<le> fd th"
    and i: "inp th = RecvData (f @ rest) # r" "length (f @ rest) \<le> 8196"
    and n: "length f = unat n" "0 < n"
  shows "\<exists>c. read_field th n = Some (Some f, th\<lparr>inp := r, buff := c\<rparr>) \<and> dyn_inv c \<and> dyn_content c = rest"
proof -
  have pos: "0 < unat n" using n(2) by (simp add: word_less_nat_alt)
  then have f: "f @ rest \<noteq> []" using n(1) by auto
  obtain c where c: "read_loop th (buff th) n = Some (YENOERR, c, th\<lparr>inp := r\<rparr>)" "dyn_inv c"
    "dyn_content c = f @ rest"
    using read_loop_segment [OF th(1-3) i(1) f i(2) n(2)] n(1) by auto
  have "\<not> n \<le> dyn_len (buff th)"
    using th(1,2) pos length_dyn_content [of "buff th"] by (simp add: unat_le_iff)
  then have "connection_read_data th n = Some (YENOERR, th\<lparr>inp := r, buff := c\<rparr>)"
    using c(1) th(4) by (simp add: connection_read_data_def)
  moreover obtain p c' where "ydynabin_forward c n = (p, c')" "dyn_inv c'" "dyn_content c' = rest"
    "dyn_deref c' p (unat n) = Some f"
    using dyn.fetch_prefix [OF c(2,3) n(1)] by auto
  ultimately show ?thesis by (intro exI [of _ c']) (simp add: read_field_def)
qed

lemma read_field_buffered:
  assumes "dyn_inv (buff th)" and "0 \<le> fd th" and "dyn_content (buff th) = f @ rest"
    and "length f = unat n"
  shows "\<exists>c. read_field th n = Some (Some f, th\<lparr>buff := c\<rparr>) \<and> dyn_inv c \<and> dyn_content c = rest"
  by (rule srv.field_buffered [OF assms])

lemma length_response_pos: "0 < length (response_bytes code s c d)"
  by (simp add: response_bytes_def)

lemma send_ok:
  "sends th = [] \<Longrightarrow> connection_send_response th code s c d =
    (YENOERR, th\<lparr>outp := outp th @ response_bytes code s c d\<rparr>)"
  by (simp add: connection_send_response_def sendmsg_def Let_def)

lemma send_frame:
  assumes "connection_send_response th code s c d = (r, th')"
  shows "\<exists>o' s' n. th' = th\<lparr>outp := outp th @ o', sends := s'\<rparr> \<and> o' = take n (response_bytes code s c d) \<and>
    (r = YENOERR \<longrightarrow> o' = response_bytes code s c d) \<and> (r \<noteq> YENOERR \<longrightarrow> r = YEIO)"
proof -
  let ?m = "response_bytes code s c d"
  show ?thesis
  proof (cases "sends th")
    case Nil
    then have "r = YENOERR" "th' = th\<lparr>outp := outp th @ ?m\<rparr>" using assms send_ok by simp_all
    then show ?thesis
      using Nil by (intro exI [of _ ?m] exI [of _ "[]"] exI [of _ "length ?m"]) (cases th, simp)
  next
    case (Cons ev r')
    show ?thesis
    proof (cases ev)
      case SendErr
      then have "r = YEIO" "th' = th\<lparr>sends := r'\<rparr>"
        using assms Cons by (simp_all add: connection_send_response_def sendmsg_def Let_def)
      then show ?thesis by (intro exI [of _ "[]"] exI [of _ r'] exI [of _ 0]) (cases th, simp)
    next
      case (SendSome k)
      then have "th' = th\<lparr>outp := outp th @ take k ?m, sends := r'\<rparr>"
        "r = (if length (take k ?m) \<noteq> length ?m then YEIO else YENOERR)"
        using assms Cons by (auto simp: connection_send_response_def sendmsg_def Let_def)
      then show ?thesis
        by (intro exI [of _ "take k ?m"] exI [of _ r'] exI [of _ k]) auto
    qed
  qed
qed

end
