(* ===== verification/Commands.thy ===== *)
theory Commands
  imports Connection Snappy
begin

text \<open>
  The command handlers of the server, \<^verbatim>\<open>src/server/command_*.c\<close>, and the messages they send to the
  writer thread. A handler takes the thread and the shared state, and returns its result code with
  both; \<^term>\<open>None\<close> is undefined behaviour. Errors jump to a label that answers with a code and ends
  the connection; each such jump is a call of \<open>server_error\<close>.
\<close>

section \<open>Shared state\<close>

datatype writer_action_t = WRITE_PUT | WRITE_DEL | WRITE_DROP

record writer_msg_t =
  msg_type :: writer_action_t
  msg_dbname :: "bytes option"
  msg_name :: bytes
  msg_data :: bytes
  msg_create_only :: bool

text \<open>
  What the threads share of \<^verbatim>\<open>finedb_t\<close>: the environment and the queue to the writer thread, a
  nanomsg pipeline. \<open>nn_sends\<close> lists the outcome of the next sends on it; an empty list is
  success from then on.
\<close>

record 'e finedb_t =
  database :: 'e
  wqueue :: "writer_msg_t list"
  nn_sends :: "bool list"

definition nn_send :: "'e finedb_t \<Rightarrow> writer_msg_t \<Rightarrow> bool \<times> 'e finedb_t" where
  "nn_send db msg =
     (case nn_sends db of
        [] \<Rightarrow> (True, db\<lparr>wqueue := wqueue db @ [msg]\<rparr>)
      | b # bs \<Rightarrow>
          if b then (True, db\<lparr>wqueue := wqueue db @ [msg], nn_sends := bs\<rparr>)
          else (False, db\<lparr>nn_sends := bs\<rparr>))"

type_synonym 'e handler_result = "(yerr_t \<times> tcp_thread_t \<times> 'e finedb_t) option"

definition server_error :: "tcp_thread_t \<Rightarrow> 'e finedb_t \<Rightarrow> 'e handler_result" where
  "server_error thread db = Some (YEIO, snd (CONNECTION_SEND_ERROR thread RESP_ERR_SERVER), db)"

section \<open>Fields of a request\<close>

text \<open>A key: two bytes of length, the bytes, and a copy of them. None is the jump to the error label.\<close>

definition read_name :: "tcp_thread_t \<Rightarrow> (bytes option \<times> tcp_thread_t) option" where
  "read_name thread = do {
     (pname_len, th1) \<leftarrow> read_field thread 2;
     (case pname_len of
        None \<Rightarrow> Some (None, th1)
      | Some l \<Rightarrow> do {
          (ptr, th2) \<leftarrow> read_field th1 (ucast (ntohs l));
          (case ptr of
             None \<Rightarrow> Some (None, th2)
           | Some name \<Rightarrow> (case alloc th2 of (ok, th3) \<Rightarrow> Some (if ok then Some name else None, th3))) }) }"

text \<open>A value: four bytes of length and, unless it is zero, the bytes and a copy of them.\<close>

definition read_value :: "tcp_thread_t \<Rightarrow> (bytes option \<times> tcp_thread_t) option" where
  "read_value thread = do {
     (pdata_len, th1) \<leftarrow> read_field thread 4;
     (case pdata_len of
        None \<Rightarrow> Some (None, th1)
      | Some l \<Rightarrow>
          if 0 < ntohl l then do {
            (ptr, th2) \<leftarrow> read_field th1 (ucast (ntohl l));
            (case ptr of
               None \<Rightarrow> Some (None, th2)
             | Some data \<Rightarrow> (case alloc th2 of (ok, th3) \<Rightarrow> Some (if ok then Some data else None, th3))) }
          else Some (Some [], th1)) }"

text \<open>\<^verbatim>\<open>strdup(thread->dbname)\<close>; a failure to allocate is not noticed and leaves the null pointer.\<close>

definition dup_dbname :: "tcp_thread_t \<Rightarrow> bytes option \<times> tcp_thread_t" where
  "dup_dbname thread =
     (case dbname thread of
        None \<Rightarrow> (None, thread)
      | Some n \<Rightarrow> (case alloc thread of (ok, th1) \<Rightarrow> (if ok then Some (cstr n @ [0]) else None, th1)))"

section \<open>PUT\<close>

definition zip_value :: "tcp_thread_t \<Rightarrow> bytes \<Rightarrow> (bytes option \<times> tcp_thread_t) option" where
  "zip_value thread data =
     (case alloc thread of (mem1, th1) \<Rightarrow>
      case snappy_init_env mem1 \<lparr>hash_table = None, env_scratch = None, env_scratch_output = None\<rparr> of
        (rc, zip_env) \<Rightarrow>
      if rc \<noteq> 0 then Some (None, th1)
      else case alloc th1 of (mem2, th2) \<Rightarrow>
        if \<not> mem2 then Some (None, th2)
        else do {
          (rc', zip_data, zip_len) \<leftarrow> snappy_compress zip_env data (length data)
            (YMALLOC (snappy_max_compressed_length (length data)));
          (if rc' \<noteq> 0 then Some (None, th2)
           else do {
             zip_data' \<leftarrow> mem_write zip_data zip_len [0];
             Some (Some (take zip_len zip_data'), th2) }) })"

definition put_async ::
    "tcp_thread_t \<Rightarrow> 'e finedb_t \<Rightarrow> bool \<Rightarrow> bytes \<Rightarrow> bytes \<Rightarrow> 'e handler_result" where
  "put_async thread db create_only name data =
     (case dup_dbname thread of (dbn, th1) \<Rightarrow>
      case nn_send db \<lparr>msg_type = WRITE_PUT, msg_dbname = dbn, msg_name = name, msg_data = data,
                       msg_create_only = create_only\<rparr> of
        (True, db1) \<Rightarrow> Some (YENOERR, th1, db1)
      | (False, db1) \<Rightarrow> server_error th1 db1)"

definition put_answer :: "tcp_thread_t \<Rightarrow> 'e finedb_t \<Rightarrow> bool \<Rightarrow> 'e handler_result" where
  "put_answer thread db answer =
     (case connection_send_response thread (if answer then RESP_OK else RESP_ERR_BAD_NAME)
             False False None of
        (r, th1) \<Rightarrow> Some (r, th1, db))"

text \<open>The write itself, and for an update the commit of the transaction that checked the key.\<close>

definition put_write ::
    "'e lmdb \<Rightarrow> tcp_thread_t \<Rightarrow> 'e finedb_t \<Rightarrow> 'e \<Rightarrow> nat option \<Rightarrow> bool \<Rightarrow> bool \<Rightarrow> bytes \<Rightarrow> bytes \<Rightarrow>
       'e handler_result" where
  "put_write L thread db env txn create_only update_only name data = do {
     (r, env1) \<leftarrow> database_put L env txn create_only (dbname thread) name data;
     (if update_only \<and> transaction thread = None then
        (case txn of None \<Rightarrow> None | Some t \<Rightarrow> do {
           (r', env2) \<leftarrow> database_transaction_commit L env1 t;
           (if r' \<noteq> YENOERR then server_error thread (db\<lparr>database := env2\<rparr>)
            else put_answer thread (db\<lparr>database := env2\<rparr>) (r = YENOERR)) })
      else put_answer thread (db\<lparr>database := env1\<rparr>) (r = YENOERR)) }"

definition put_sync ::
    "'e lmdb \<Rightarrow> tcp_thread_t \<Rightarrow> 'e finedb_t \<Rightarrow> bool \<Rightarrow> bool \<Rightarrow> bytes \<Rightarrow> bytes \<Rightarrow> 'e handler_result" where
  "put_sync L thread db create_only update_only name data =
     (if update_only then
        (case transaction_init L (database db) (transaction thread) False of
           (None, env1) \<Rightarrow> server_error thread (db\<lparr>database := env1\<rparr>)
         | (Some txn, env1) \<Rightarrow> do {
             (rc, _, env2) \<leftarrow> database_get L env1 (Some txn) (dbname thread) name;
             (if rc \<noteq> YENOERR then do {
                env3 \<leftarrow> (if transaction thread = None then database_transaction_rollback L env2 txn
                         else Some env2);
                (if rc = YENODATA then put_answer thread (db\<lparr>database := env3\<rparr>) False
                 else server_error thread (db\<lparr>database := env3\<rparr>)) }
              else put_write L thread db env2 (Some txn) create_only update_only name data) })
      else put_write L thread db (database db) (transaction thread) create_only update_only name data)"

text \<open>\<^verbatim>\<open>command_put\<close> after its fields have been read.\<close>

definition put_tail ::
    "bool \<Rightarrow> bool \<Rightarrow> 'e lmdb \<Rightarrow> tcp_thread_t \<Rightarrow> 'e finedb_t \<Rightarrow> bool \<Rightarrow> bool \<Rightarrow> bytes \<Rightarrow> bytes \<Rightarrow>
       'e handler_result" where
  "put_tail create_only update_only L th2 db sync compressed name data =
     (let th3 = (if \<not> sync \<and> \<not> update_only then snd (CONNECTION_SEND_OK th2) else th2) in
      case alloc th3 of (ok, th4) \<Rightarrow>
      if \<not> ok then server_error th4 db
      else do {
        (zdata, th5) \<leftarrow> (if compressed then Some (Some data, th4) else zip_value th4 data);
        (case zdata of
           None \<Rightarrow> server_error th5 db
         | Some md \<Rightarrow>
             if \<not> sync \<and> \<not> update_only then put_async th5 db create_only name md
             else put_sync L th5 db create_only update_only name md) })"

definition put_with ::
    "bool \<Rightarrow> bool \<Rightarrow> 'e lmdb \<Rightarrow> tcp_thread_t \<Rightarrow> bool \<Rightarrow> bool \<Rightarrow> 'e finedb_t \<Rightarrow> 'e handler_result" where
  "put_with create_only update_only L thread sync0 compressed db =
     (let sync = (update_only \<or> sync0) in do {
        (name, th1) \<leftarrow> read_name thread;
        (case name of
           None \<Rightarrow> server_error th1 db
         | Some name' \<Rightarrow> do {
             (data, th2) \<leftarrow> read_value th1;
             (case data of
                None \<Rightarrow> server_error th2 db
              | Some data' \<Rightarrow> put_tail create_only update_only L th2 db sync compressed name' data') }) })"

text \<open>Both modes are constants of the function.\<close>

definition command_put ::
    "'e lmdb \<Rightarrow> tcp_thread_t \<Rightarrow> bool \<Rightarrow> bool \<Rightarrow> bool \<Rightarrow> 'e finedb_t \<Rightarrow> 'e handler_result" where
  "command_put L thread sync compressed serialized db = put_with False False L thread sync compressed db"

section \<open>GET and DEL\<close>

text \<open>
  \<^verbatim>\<open>command_get\<close> ignores whether \<^verbatim>\<open>snappy_uncompressed_length\<close> succeeds; when it does not, the length
  it allocates is an unset variable. It does not check the allocation either: without memory the
  decompressor writes through the null pointer, a block without cells.
\<close>

definition get_unzip ::
    "tcp_thread_t \<Rightarrow> 'e finedb_t \<Rightarrow> bool \<Rightarrow> bytes \<Rightarrow> 'e handler_result" where
  "get_unzip thread db serialized d = do {
     unzip_len \<leftarrow> snappy_uncompressed_length d;
     (case alloc thread of (ok, th1) \<Rightarrow> do {
        (rc, unzip_data) \<leftarrow> snappy_uncompress d (length d) (if ok then YMALLOC unzip_len else []);
        (if rc \<noteq> 0 then server_error th1 db
         else (case connection_send_response th1 RESP_OK serialized False
                 (if ok then Some unzip_data else None) of
            (r, th2) \<Rightarrow> Some (r, th2, db))) }) }"

definition command_get ::
    "'e lmdb \<Rightarrow> tcp_thread_t \<Rightarrow> bool \<Rightarrow> bool \<Rightarrow> bool \<Rightarrow> 'e finedb_t \<Rightarrow> 'e handler_result" where
  "command_get L thread sync compressed serialized db = do {
     (name, th1) \<leftarrow> read_name thread;
     (case name of
        None \<Rightarrow> server_error th1 db
      | Some bin_key \<Rightarrow> do {
          (result, bin_data, env) \<leftarrow>
            database_get L (database db) (transaction th1) (dbname th1) bin_key;
          (let db1 = db\<lparr>database := env\<rparr> in
           if result = YENODATA
           then Some (YENOERR, snd (CONNECTION_SEND_ERROR th1 RESP_ERR_BAD_NAME), db1)
           else if result \<noteq> YENOERR then server_error th1 db1
           else (case bin_data of
              None \<Rightarrow> None
            | Some d \<Rightarrow>
                if d \<noteq> [] \<and> \<not> compressed then get_unzip th1 db1 serialized d
                else (case connection_send_response th1 RESP_OK serialized compressed (Some d) of
                  (r, th2) \<Rightarrow> Some (r, th2, db1)))) }) }"

definition del_async :: "tcp_thread_t \<Rightarrow> 'e finedb_t \<Rightarrow> bytes \<Rightarrow> 'e handler_result" where
  "del_async thread db key =
     (case dup_dbname thread of (dbn, th1) \<Rightarrow>
      case nn_send db \<lparr>msg_type = WRITE_DEL, msg_dbname = dbn, msg_name = key, msg_data = [],
                       msg_create_only = False\<rparr> of
        (True, db1) \<Rightarrow> Some (YENOERR, th1, db1)
      | (False, db1) \<Rightarrow> server_error th1 db1)"

definition command_del ::
    "'e lmdb \<Rightarrow> tcp_thread_t \<Rightarrow> bool \<Rightarrow> bool \<Rightarrow> bool \<Rightarrow> 'e finedb_t \<Rightarrow> 'e handler_result" where
  "command_del L thread sync compressed serialized db = do {
     (key, th1) \<leftarrow> read_name thread;
     (case key of
        None \<Rightarrow> server_error th1 db
      | Some key' \<Rightarrow>
          let th2 = (if \<not> sync then snd (CONNECTION_SEND_OK th1) else th1) in
          case alloc th2 of (ok, th3) \<Rightarrow>
          if \<not> ok then server_error th3 db
          else if \<not> sync then del_async th3 db key'
          else do {
            (r, env1) \<leftarrow> database_del L (database db) (transaction th3) (dbname th3) key';
            put_answer th3 (db\<lparr>database := env1\<rparr>) (r = YENOERR) }) }"

section \<open>PING, SETDB, START and STOP\<close>

definition command_ping ::
    "'e lmdb \<Rightarrow> tcp_thread_t \<Rightarrow> bool \<Rightarrow> bool \<Rightarrow> bool \<Rightarrow> 'e finedb_t \<Rightarrow> 'e handler_result" where
  "command_ping L thread sync compressed serialized db =
     (case CONNECTION_SEND_OK thread of (r, th1) \<Rightarrow> Some (r, th1, db))"

text \<open>The name behind a length byte: read, copied into a new block, and selected. False is the jump to the error label.\<close>

definition select_dbname :: "tcp_thread_t \<Rightarrow> byte \<Rightarrow> (bool \<times> tcp_thread_t) option" where
  "select_dbname thread dbname_len =
     (if 0 < dbname_len then do {
        (ptr, th1) \<leftarrow> read_field thread (ucast dbname_len);
        (case ptr of
           None \<Rightarrow> Some (False, th1)
         | Some name \<Rightarrow>
             (case alloc th1 of (ok, th2) \<Rightarrow>
              if \<not> ok then Some (False, th2)
              else do {
                block \<leftarrow> mem_write (YMALLOC (unat dbname_len + 1)) 0 name;
                Some (True, th2\<lparr>dbname := Some block\<rparr>) })) }
      else Some (True, thread))"

definition command_setdb ::
    "'e lmdb \<Rightarrow> tcp_thread_t \<Rightarrow> bool \<Rightarrow> bool \<Rightarrow> bool \<Rightarrow> 'e finedb_t \<Rightarrow> 'e handler_result" where
  "command_setdb L thread sync compressed serialized db = do {
     (pdbname_len, th1) \<leftarrow> read_field thread 1;
     (case pdbname_len of
        None \<Rightarrow> server_error th1 db
      | Some l \<Rightarrow> do {
          (ok, th2) \<leftarrow> select_dbname (th1\<lparr>dbname := None\<rparr>) (hd l);
          (if ok then Some (YENOERR, snd (CONNECTION_SEND_OK th2), db)
           else server_error th2 db) }) }"

definition command_start ::
    "'e lmdb \<Rightarrow> tcp_thread_t \<Rightarrow> bool \<Rightarrow> bool \<Rightarrow> bool \<Rightarrow> 'e finedb_t \<Rightarrow> 'e handler_result" where
  "command_start L thread sync compressed serialized db = do {
     env1 \<leftarrow> (case transaction thread of
               None \<Rightarrow> Some (database db)
             | Some t \<Rightarrow> database_transaction_rollback L (database db) t);
     (case database_transaction_start L env1 True of (txn, env2) \<Rightarrow>
      let th1 = thread\<lparr>transaction := txn\<rparr>; db1 = db\<lparr>database := env2\<rparr> in
      if txn = None
      then Some (YEACCESS, snd (CONNECTION_SEND_ERROR th1 RESP_ERR_TRANSACTION), db1)
      else Some (YENOERR, snd (CONNECTION_SEND_OK th1), db1)) }"

definition command_stop ::
    "'e lmdb \<Rightarrow> tcp_thread_t \<Rightarrow> bool \<Rightarrow> bool \<Rightarrow> bool \<Rightarrow> 'e finedb_t \<Rightarrow> 'e handler_result" where
  "command_stop L thread sync compressed serialized db =
     (case transaction thread of
        None \<Rightarrow> Some (YEACCESS, snd (CONNECTION_SEND_ERROR thread RESP_ERR_TRANSACTION), db)
      | Some t \<Rightarrow> do {
          env1 \<leftarrow> database_transaction_rollback L (database db) t;
          Some (YENOERR, snd (CONNECTION_SEND_OK (thread\<lparr>transaction := None\<rparr>)),
                db\<lparr>database := env1\<rparr>) })"

section \<open>DROP and LIST, which no request reaches\<close>

definition command_drop ::
    "'e lmdb \<Rightarrow> tcp_thread_t \<Rightarrow> bool \<Rightarrow> bool \<Rightarrow> bool \<Rightarrow> 'e finedb_t \<Rightarrow> 'e handler_result" where
  "command_drop L thread sync compressed serialized db =
     (if dbname thread = None then server_error thread db
      else
        let th1 = (if \<not> sync then snd (CONNECTION_SEND_OK thread) else thread) in
        case alloc th1 of (ok, th2) \<Rightarrow>
        if \<not> ok then server_error th2 db
        else if \<not> sync then
          (case dup_dbname th2 of (dbn, th3) \<Rightarrow>
           case nn_send db \<lparr>msg_type = WRITE_DROP, msg_dbname = dbn, msg_name = [], msg_data = [],
                            msg_create_only = False\<rparr> of
             (True, db1) \<Rightarrow> Some (YENOERR, th3, db1)
           | (False, db1) \<Rightarrow> server_error th3 db1)
        else do {
          (r, env1) \<leftarrow> database_drop L (database db) (transaction th2) (dbname th2);
          put_answer th2 (db\<lparr>database := env1\<rparr>) (r = YENOERR) })"

definition command_list_loop :: "tcp_thread_t \<Rightarrow> bytes \<Rightarrow> bytes \<Rightarrow> yerr_t \<times> tcp_thread_t" where
  "command_list_loop thread key data =
     (let msg = htons (word_of_nat (length key)) @ key in
      case sendmsg thread msg of (rc, th1) \<Rightarrow>
        (if rc < 0 then YEIO else if rc < int (length msg) then YEIO else YENOERR, th1))"

definition command_list ::
    "'e lmdb \<Rightarrow> tcp_thread_t \<Rightarrow> bool \<Rightarrow> bool \<Rightarrow> bool \<Rightarrow> 'e finedb_t \<Rightarrow> 'e handler_result" where
  "command_list L thread sync compressed serialized db =
     (case CONNECTION_SEND_OK thread of (result, th1) \<Rightarrow>
      if result \<noteq> YENOERR then server_error th1 db
      else do {
        (r, env1, th2) \<leftarrow>
          database_list L (database db) (transaction th1) (dbname th1) command_list_loop th1;
        (let db1 = db\<lparr>database := env1\<rparr> in
         if r \<noteq> YENOERR then server_error th2 db1
         else (case sendmsg th2 [0] of (rc, th3) \<Rightarrow>
           if rc \<noteq> 1 then server_error th3 db1 else Some (result, th3, db1))) })"

end
