(* ===== verification/Contract.thy ===== *)
theory Contract
  imports Commands
begin

text \<open>
  The contract of a command handler, whatever the client sends and whatever fails: it keeps the
  buffer of the thread well formed, it touches no transaction but the thread's own, the thread's
  own transaction is live and reads only, messages to the writer are only added behind the
  others, and a handler that reports success has parsed a prefix of what the client sent.
\<close>

section \<open>Parts of a handler\<close>

text \<open>What answers and allocations may change of a thread.\<close>

definition quiet :: "tcp_thread_t \<Rightarrow> tcp_thread_t \<Rightarrow> bool" where
  "quiet th th' \<longleftrightarrow> (\<exists>out s m. th' = th\<lparr>outp := out, sends := s, mem := m\<rparr>)"

lemma quiet_refl [simp]: "quiet th th"
  unfolding quiet_def by (cases th) auto

lemma quiet_trans: "quiet a b \<Longrightarrow> quiet b c \<Longrightarrow> quiet a c"
  unfolding quiet_def by (cases a) auto

lemma quiet_fields:
  assumes "quiet th th'"
  shows "fd th' = fd th" "dbname th' = dbname th" "transaction th' = transaction th"
    "buff th' = buff th" "inp th' = inp th" "stream th' = stream th"
proof -
  obtain out s m where "th' = th\<lparr>outp := out, sends := s, mem := m\<rparr>" using assms unfolding quiet_def by blast
  then show "fd th' = fd th" "dbname th' = dbname th" "transaction th' = transaction th"
    "buff th' = buff th" "inp th' = inp th" "stream th' = stream th"
    by (simp_all add: stream_def)
qed

lemma quiet_alloc: "alloc th = (b, th') \<Longrightarrow> quiet th th'"
  using alloc_frame [of th b th'] unfolding quiet_def by (cases th) auto

lemma quiet_send: "connection_send_response th code s c d = (r, th') \<Longrightarrow> quiet th th'"
  using send_frame [of th code s c d r th'] unfolding quiet_def by (cases th) auto

lemma quiet_macros:
  "quiet th (snd (CONNECTION_SEND_OK th))" "quiet th (snd (CONNECTION_SEND_ERROR th err))"
  using quiet_send by (auto simp: CONNECTION_SEND_OK_def CONNECTION_SEND_ERROR_def prod_eq_iff)

lemma quiet_dup: "dup_dbname th = (n, th') \<Longrightarrow> quiet th th'"
  by (auto simp: dup_dbname_def quiet_alloc split: option.splits prod.splits)

lemma quiet_zip: "zip_value th data = Some (z, th') \<Longrightarrow> quiet th th'"
  by (auto simp: zip_value_def bind_eq_Some_conv split: prod.splits if_splits
      dest!: quiet_alloc intro: quiet_trans)

lemma unat_ucast_size [simp]:
  "unat (ucast (w :: u16) :: size_t) = unat w" "unat (ucast (v :: u32) :: size_t) = unat v"
  "unat (ucast (b :: byte) :: size_t) = unat b"
  using unsigned_less [of w, where ?'a = nat] unsigned_less [of v, where ?'a = nat]
    unsigned_less [of b, where ?'a = nat]
  by (simp_all add: unsigned_ucast_eq take_bit_nat_eq_self)

text \<open>The bytes behind a length field, and their copy.\<close>

lemma read_copy_ok:
  assumes inv: "dyn_inv (buff th)"
    and rd: "do { (ptr, th2) \<leftarrow> read_field th n;
       (case ptr of
          None \<Rightarrow> Some (None, th2)
        | Some d \<Rightarrow> (case alloc th2 of (ok, th3) \<Rightarrow> Some (if ok then Some d else None, th3))) } =
      Some (res, th')"
  shows "read_only th th' \<and> dyn_inv (buff th') \<and>
    (\<forall>k. res = Some k \<longrightarrow> length k = unat n \<and> stream th = k @ stream th')"
proof -
  obtain p th2 where p: "read_field th n = Some (p, th2)" using rd by (auto simp: bind_eq_Some_conv)
  note r2 = read_field_ok [OF inv p]
  show ?thesis
  proof (cases p)
    case None
    then show ?thesis using rd p r2 by auto
  next
    case (Some d)
    obtain ok th3 where a: "alloc th2 = (ok, th3)" by (cases "alloc th2")
    have res: "res = (if ok then Some d else None)" "th' = th3" using rd p a Some by simp_all
    obtain m where m: "th3 = th2\<lparr>mem := m\<rparr>" using alloc_frame [OF a] by blast
    have "read_only th2 th3" unfolding read_only_def m by (cases th2) auto
    moreover have "stream th3 = stream th2" "buff th3 = buff th2" by (simp_all add: m stream_def)
    ultimately show ?thesis using r2 Some res read_only_trans by (auto split: if_splits)
  qed
qed

lemma read_name_ok:
  assumes inv: "dyn_inv (buff th)" and rd: "read_name th = Some (res, th')"
  shows "read_only th th' \<and> dyn_inv (buff th') \<and>
    (\<forall>k. res = Some k \<longrightarrow> (\<exists>l. length l = 2 \<and> length k = unat (ntohs l) \<and> stream th = l @ k @ stream th'))"
proof -
  obtain l th1 where l: "read_field th 2 = Some (l, th1)"
    using rd by (auto simp: read_name_def bind_eq_Some_conv)
  note r1 = read_field_ok [OF inv l]
  show ?thesis
  proof (cases l)
    case None
    then show ?thesis using rd l r1 by (auto simp: read_name_def)
  next
    case (Some lb)
    have "read_only th1 th' \<and> dyn_inv (buff th') \<and>
      (\<forall>k. res = Some k \<longrightarrow> length k = unat (ntohs lb) \<and> stream th1 = k @ stream th')"
      using read_copy_ok [of th1 "ucast (ntohs lb)" res th'] rd l Some r1 by (simp add: read_name_def)
    then show ?thesis using r1 Some read_only_trans [of th th1 th'] by auto
  qed
qed

lemma read_value_ok:
  assumes inv: "dyn_inv (buff th)" and rd: "read_value th = Some (res, th')"
  shows "read_only th th' \<and> dyn_inv (buff th') \<and>
    (\<forall>d. res = Some d \<longrightarrow> (\<exists>l. length l = 4 \<and> length d = unat (ntohl l) \<and> stream th = l @ d @ stream th'))"
proof -
  obtain l th1 where l: "read_field th 4 = Some (l, th1)"
    using rd by (auto simp: read_value_def bind_eq_Some_conv)
  note r1 = read_field_ok [OF inv l]
  show ?thesis
  proof (cases l)
    case None
    then show ?thesis using rd l r1 by (auto simp: read_value_def)
  next
    case (Some lb)
    show ?thesis
    proof (cases "0 < ntohl lb")
      case False
      then have "ntohl lb = 0" by (metis word_neq_0_conv)
      then show ?thesis using rd l Some r1 by (auto simp: read_value_def)
    next
      case True
      have "read_only th1 th' \<and> dyn_inv (buff th') \<and>
        (\<forall>k. res = Some k \<longrightarrow> length k = unat (ntohl lb) \<and> stream th1 = k @ stream th')"
        using read_copy_ok [of th1 "ucast (ntohl lb)" res th'] rd l Some r1 True
        by (simp add: read_value_def)
      then show ?thesis using r1 Some read_only_trans [of th th1 th'] by auto
    qed
  qed
qed

section \<open>Transactions and progress\<close>

text \<open>The thread's own transaction is live and reads only; \<open>others\<close> are those of other threads.\<close>

definition owned :: "('e \<Rightarrow> mdb_abs) \<Rightarrow> tcp_thread_t \<Rightarrow> 'e \<Rightarrow> bool" where
  "owned obs th e \<longleftrightarrow> (\<forall>t. transaction th = Some t \<longrightarrow> (\<exists>x. txns (obs e) t = Some x \<and> readonly x))"

definition others :: "('e \<Rightarrow> mdb_abs) \<Rightarrow> tcp_thread_t \<Rightarrow> 'e \<Rightarrow> nat \<rightharpoonup> txn_abs" where
  "others obs th e = (\<lambda>t. if transaction th = Some t then None else txns (obs e) t)"

definition handled ::
    "('e \<Rightarrow> mdb_abs) \<Rightarrow> tcp_thread_t \<Rightarrow> 'e finedb_t \<Rightarrow> yerr_t \<Rightarrow> tcp_thread_t \<Rightarrow> 'e finedb_t \<Rightarrow> bool" where
  "handled obs th db r th' db' \<longleftrightarrow>
     dyn_inv (buff th') \<and> fd th' = fd th \<and> owned obs th' (database db') \<and>
     others obs th' (database db') = others obs th (database db) \<and>
     (\<exists>msgs. wqueue db' = wqueue db @ msgs) \<and>
     (r = YENOERR \<longrightarrow> (\<exists>bs. stream th = bs @ stream th'))"

lemma handled_refl: "dyn_inv (buff th) \<Longrightarrow> owned obs th (database db) \<Longrightarrow> handled obs th db r th db"
  by (simp add: handled_def)

lemma handled_trans:
  assumes "handled obs th db r th1 db1" and "handled obs th1 db1 r' th' db'"
    and "r' = YENOERR \<Longrightarrow> r = YENOERR"
  shows "handled obs th db r' th' db'"
  using assms unfolding handled_def by auto

lemma handled_read:
  assumes "read_only th th'" and "dyn_inv (buff th')" and "owned obs th (database db)"
    and "r = YENOERR \<Longrightarrow> \<exists>bs. stream th = bs @ stream th'"
  shows "handled obs th db r th' db"
  using assms read_only_fields [OF assms(1)] by (auto simp: handled_def owned_def others_def)

lemma handled_quiet:
  assumes "quiet th th'" and "dyn_inv (buff th)" and "owned obs th (database db)"
  shows "handled obs th db r th' db"
  using assms quiet_fields [OF assms(1)] by (auto simp: handled_def owned_def others_def)

lemma handled_db:
  assumes "dyn_inv (buff th)" and "owned obs th (database db)" and "txns (obs e) = txns (obs (database db))"
  shows "handled obs th db r th (db\<lparr>database := e\<rparr>)"
  using assms by (auto simp: handled_def owned_def others_def)

lemma handledD: "handled obs th db r th' db' \<Longrightarrow> dyn_inv (buff th') \<and> owned obs th' (database db')"
  by (simp add: handled_def)

lemma handled_nn_send:
  assumes "nn_send db msg = (b, db')" and "dyn_inv (buff th)" and "owned obs th (database db)"
  shows "handled obs th db r th db'"
  using assms by (auto simp: nn_send_def handled_def owned_def others_def split: list.splits if_splits)

lemma server_error_handled:
  assumes "server_error th db = Some (r, th', db')" and "dyn_inv (buff th)" and "owned obs th (database db)"
  shows "handled obs th db r th' db'"
  using assms handled_quiet [OF quiet_macros(2) [of th RESP_ERR_SERVER]] by (auto simp: server_error_def)

lemma failed_read:
  assumes "server_error th1 db = Some (r, th', db')" and "read_only th th1" and "dyn_inv (buff th1)"
    and "owned obs th (database db)"
  shows "handled obs th db r th' db'"
proof -
  have h: "handled obs th db YEIO th1 db" using assms(2-4) by (intro handled_read) auto
  have "r = YEIO" using assms(1) by (simp add: server_error_def)
  then show ?thesis
    using handled_trans [OF h server_error_handled [OF assms(1)]] handledD [OF h] by simp
qed

lemma send_handled:
  assumes "connection_send_response th code s c d = (r, th')" and "dyn_inv (buff th)"
    and "owned obs th (database db)"
  shows "handled obs th db r' th' db"
  using assms by (intro handled_quiet quiet_send)

lemma answer_handled:
  assumes "(case connection_send_response th code s c d of (r, th1) \<Rightarrow> Some (r, th1, db)) = Some (r, th', db')"
    and "dyn_inv (buff th)" and "owned obs th (database db)"
  shows "handled obs th db r th' db'"
  using assms send_handled by (cases "connection_send_response th code s c d") auto

lemma put_answer_handled:
  assumes "put_answer th db b = Some (r, th', db')" and "dyn_inv (buff th)" and "owned obs th (database db)"
  shows "handled obs th db r th' db'"
  using answer_handled [OF _ assms(2,3)] assms(1) unfolding put_answer_def .

section \<open>The handlers\<close>

locale command_handler =
  fixes handler :: "'e lmdb \<Rightarrow> tcp_thread_t \<Rightarrow> bool \<Rightarrow> bool \<Rightarrow> bool \<Rightarrow> 'e finedb_t \<Rightarrow> 'e handler_result"
  assumes handled: "lmdb_ok L obs \<Longrightarrow> dyn_inv (buff th) \<Longrightarrow> owned obs th (database db) \<Longrightarrow>
    handler L th sync compressed serialized db = Some (r, th', db') \<Longrightarrow> handled obs th db r th' db'"
begin

lemma progress:
  assumes "lmdb_ok L obs" and "dyn_inv (buff th)" and "owned obs th (database db)"
    and "handler L th sync compressed serialized db = Some (YENOERR, th', db')"
  shows "length (stream th') \<le> length (stream th)"
  using handled [OF assms] by (auto simp: handled_def)

lemma keeps_others:
  assumes "lmdb_ok L obs" and "dyn_inv (buff th)" and "owned obs th (database db)"
    and "handler L th sync compressed serialized db = Some (r, th', db')"
    and "transaction th \<noteq> Some t" and "txns (obs (database db)) t = Some x"
  shows "txns (obs (database db')) t = Some x"
proof -
  have "others obs th' (database db') t = others obs th (database db) t"
    using handled [OF assms(1-4)] by (simp add: handled_def)
  then show ?thesis using assms(5,6) by (simp add: others_def split: if_splits)
qed

lemma no_leak:
  assumes "lmdb_ok L obs" and "dyn_inv (buff th)" and "transaction th = None"
    and "handler L th sync compressed serialized db = Some (r, th', db')" and "transaction th' = None"
  shows "txns (obs (database db')) = txns (obs (database db))"
  using handled [OF assms(1,2) _ assms(4)] assms(3,5) by (simp add: handled_def owned_def others_def)

end

lemma get_unzip_handled:
  assumes "get_unzip th db s d = Some (r, th', db')" and "dyn_inv (buff th)"
    and "owned obs th (database db)"
  shows "handled obs th db r th' db'"
proof -
  obtain ok th1 where a: "alloc th = (ok, th1)" by (cases "alloc th")
  have h1: "handled obs th db YENOERR th1 db" by (rule handled_quiet [OF quiet_alloc [OF a] assms(2,3)])
  note inv = handledD [OF h1, THEN conjunct1] handledD [OF h1, THEN conjunct2]
  have "handled obs th1 db r th' db'"
    using assms(1) a server_error_handled [OF _ inv] answer_handled [OF _ inv]
    by (auto simp: get_unzip_def bind_eq_Some_conv split: if_splits)
  then show ?thesis using handled_trans [OF h1] by simp
qed

lemma own_get_same:
  assumes "lmdb_ok L obs" and "owned obs th (database db)"
    and "database_get L (database db) (transaction th) name k = Some (r, d, e)"
  shows "txns (obs e) = txns (obs (database db))"
  using database_get_frame [OF assms(1) _ assms(3)] assms(2) by (simp add: owned_def same_data_iff)

interpretation get: command_handler command_get
proof unfold_locales
  fix L :: "'e lmdb" and obs th db sync c s r th' db'
  assume ok: "lmdb_ok L obs" and pre: "dyn_inv (buff th)" "owned obs th (database db)"
    and run: "command_get L th sync c s db = Some (r, th', db')"
  obtain res th1 where rd: "read_name th = Some (res, th1)"
    using run by (auto simp: command_get_def bind_eq_Some_conv)
  note r1 = read_name_ok [OF pre(1) rd]
  show "handled obs th db r th' db'"
  proof (cases res)
    case None
    then have "server_error th1 db = Some (r, th', db')" using run rd by (simp add: command_get_def)
    then show ?thesis using failed_read r1 pre(2) by blast
  next
    case (Some k)
    have h1: "handled obs th db YENOERR th1 db" using r1 pre(2) Some by (intro handled_read) auto
    obtain r0 d e where g: "database_get L (database db) (transaction th1) (dbname th1) k = Some (r0, d, e)"
      using run rd Some by (auto simp: command_get_def bind_eq_Some_conv)
    have h2: "handled obs th db YENOERR th1 (db\<lparr>database := e\<rparr>)"
      using handled_trans [OF h1 handled_db] handledD [OF h1] own_get_same [OF ok _ g] by simp
    note inv = handledD [OF h2, THEN conjunct1] handledD [OF h2, THEN conjunct2]
    have "handled obs th1 (db\<lparr>database := e\<rparr>) r th' db'"
    proof (cases "r0 = YENODATA")
      case True
      then show ?thesis
        using run rd Some g handled_quiet [OF quiet_macros(2) inv] by (auto simp: command_get_def)
    next
      case nd: False
      show ?thesis
      proof (cases "r0 = YENOERR")
        case False
        then show ?thesis using run rd Some g nd server_error_handled [OF _ inv] by (simp add: command_get_def)
      next
        case True
        then show ?thesis
          using run rd Some g nd get_unzip_handled [OF _ inv] answer_handled [OF _ inv]
          by (auto simp: command_get_def Let_def split: option.splits if_splits)
      qed
    qed
    then show ?thesis using handled_trans [OF h2] by simp
  qed
qed

lemma own_put_same:
  assumes ok: "lmdb_ok L obs" and own: "owned obs th e"
    and put: "database_put L e (transaction th) co name k v = Some (r, e')"
  shows "txns (obs e') = txns (obs e)"
proof (cases "transaction th")
  case None
  then show ?thesis
    using database_put_own [OF ok, where e = e and co = co and name = name and k = k and v = v] put
    by (auto simp: same_data_iff split: if_splits)
next
  case (Some t)
  then obtain x where "txns (obs e) t = Some x" "readonly x" using own by (auto simp: owned_def)
  then show ?thesis
    using database_put_in_txn [OF ok, where e = e and t = t and co = co and name = name and k = k and v = v]
      put Some
    by (auto simp: wrote_in_def fun_upd_idem split: if_splits)
qed

lemma own_del_same:
  assumes ok: "lmdb_ok L obs" and own: "owned obs th e"
    and del: "database_del L e (transaction th) name k = Some (r, e')"
  shows "txns (obs e') = txns (obs e)"
proof (cases "transaction th")
  case None
  then show ?thesis
    using database_del_own [OF ok, where e = e and name = name and k = k] del
    by (auto simp: same_data_iff split: if_splits)
next
  case (Some t)
  then obtain x where "txns (obs e) t = Some x" "readonly x" using own by (auto simp: owned_def)
  then show ?thesis
    using database_del_in_txn [OF ok, where e = e and t = t and name = name and k = k] del Some
    by (auto simp: wrote_in_def fun_upd_idem split: if_splits)
qed

text \<open>The end of an asynchronous write, and of a synchronous one.\<close>

lemma queue_handled:
  assumes run: "(case dup_dbname th of (dbn, th1) \<Rightarrow>
      case nn_send db (msg dbn) of
        (True, db1) \<Rightarrow> Some (YENOERR, th1, db1)
      | (False, db1) \<Rightarrow> server_error th1 db1) = Some (r, th', db')"
    and pre: "dyn_inv (buff th)" "owned obs th (database db)"
  shows "handled obs th db r th' db'"
proof -
  obtain dbn th1 where d: "dup_dbname th = (dbn, th1)" by (cases "dup_dbname th")
  obtain b db1 where n: "nn_send db (msg dbn) = (b, db1)" by (cases "nn_send db (msg dbn)")
  have h1: "handled obs th db YENOERR th1 db" by (rule handled_quiet [OF quiet_dup [OF d] pre])
  have h2: "handled obs th1 db YENOERR th1 db1" using handled_nn_send [OF n] handledD [OF h1] by blast
  have "handled obs th1 db1 r th' db'"
  proof (cases b)
    case True
    then show ?thesis using run d n handledD [OF h2] by (auto intro: handled_refl)
  next
    case False
    then show ?thesis using run d n handledD [OF h2] by (auto intro: server_error_handled)
  qed
  with handled_trans [OF h1 h2] show ?thesis by (blast intro: handled_trans)
qed

lemma write_handled:
  assumes run: "do { (r0, e) \<leftarrow> act; put_answer th (db\<lparr>database := e\<rparr>) (r0 = YENOERR) } = Some (r, th', db')"
    and act: "\<And>r0 e. act = Some (r0, e) \<Longrightarrow> txns (obs e) = txns (obs (database db))"
    and pre: "dyn_inv (buff th)" "owned obs th (database db)"
  shows "handled obs th db r th' db'"
proof -
  obtain r0 e where a: "act = Some (r0, e)" using run by (auto simp: bind_eq_Some_conv)
  have h: "handled obs th db YENOERR th (db\<lparr>database := e\<rparr>)" by (rule handled_db [OF pre act [OF a]])
  have "put_answer th (db\<lparr>database := e\<rparr>) (r0 = YENOERR) = Some (r, th', db')" using run a by simp
  then show ?thesis using handled_trans [OF h put_answer_handled] handledD [OF h] by blast
qed

lemma quiet_ok_if: "quiet th (if b then snd (CONNECTION_SEND_OK th) else th)"
  using quiet_macros by simp

interpretation del: command_handler command_del
proof unfold_locales
  fix L :: "'e lmdb" and obs th db sync c s r th' db'
  assume ok: "lmdb_ok L obs" and pre: "dyn_inv (buff th)" "owned obs th (database db)"
    and run: "command_del L th sync c s db = Some (r, th', db')"
  obtain res th1 where rd: "read_name th = Some (res, th1)"
    using run by (auto simp: command_del_def bind_eq_Some_conv)
  note r1 = read_name_ok [OF pre(1) rd]
  show "handled obs th db r th' db'"
  proof (cases res)
    case None
    then have "server_error th1 db = Some (r, th', db')" using run rd by (simp add: command_del_def)
    then show ?thesis using failed_read r1 pre(2) by blast
  next
    case (Some k)
    let ?th2 = "if \<not> sync then snd (CONNECTION_SEND_OK th1) else th1"
    have h1: "handled obs th db YENOERR th1 db" using r1 pre(2) Some by (intro handled_read) auto
    obtain b th3 where a: "alloc ?th2 = (b, th3)" by (cases "alloc ?th2")
    have "quiet th1 th3" using quiet_trans [OF quiet_ok_if quiet_alloc [OF a]] .
    then have h3: "handled obs th db YENOERR th3 db"
      using handled_trans [OF h1 handled_quiet] handledD [OF h1] by simp
    note inv = handledD [OF h3, THEN conjunct1] handledD [OF h3, THEN conjunct2]
    have "handled obs th3 db r th' db'"
    proof (cases "\<not> b \<or> \<not> sync")
      case True
      then show ?thesis
        using run rd Some a server_error_handled [OF _ inv] queue_handled [OF _ inv]
        by (auto simp: command_del_def Let_def del_async_def split: if_splits)
    next
      case False
      then show ?thesis
        using run rd Some a write_handled [OF _ own_del_same [OF ok inv(2)] inv]
        by (simp add: command_del_def)
    qed
    then show ?thesis using handled_trans [OF h3] by simp
  qed
qed


lemma put_tail_handled:
  assumes ok: "lmdb_ok L obs" and run: "put_tail False False L th2 db sync c k d = Some (r, th', db')"
    and pre: "dyn_inv (buff th2)" "owned obs th2 (database db)"
  shows "handled obs th2 db r th' db'"
proof -
  let ?th3 = "if \<not> sync then snd (CONNECTION_SEND_OK th2) else th2"
  obtain b th4 where a: "alloc ?th3 = (b, th4)" by (cases "alloc ?th3")
  have "quiet th2 th4" using quiet_trans [OF quiet_ok_if quiet_alloc [OF a]] .
  then have h4: "handled obs th2 db YENOERR th4 db" by (rule handled_quiet [OF _ pre])
  note inv = handledD [OF h4, THEN conjunct1] handledD [OF h4, THEN conjunct2]
  have "handled obs th4 db r th' db'"
  proof (cases b)
    case False
    then show ?thesis using run a server_error_handled [OF _ inv] by (simp add: put_tail_def)
  next
    case True
    obtain z th5 where z: "(if c then Some (Some d, th4) else zip_value th4 d) = Some (z, th5)"
      using run a True by (auto simp: put_tail_def bind_eq_Some_conv)
    have "quiet th4 th5" using z quiet_zip by (auto split: if_splits)
    then have h5: "handled obs th4 db YENOERR th5 db" by (rule handled_quiet [OF _ inv])
    note inv5 = handledD [OF h5, THEN conjunct1] handledD [OF h5, THEN conjunct2]
    have run5: "(case z of
           None \<Rightarrow> server_error th5 db
         | Some md \<Rightarrow> if \<not> sync then put_async th5 db False k md
             else put_sync L th5 db False False k md) = Some (r, th', db')"
      using run a True z unfolding put_tail_def by (cases z) simp_all
    have "handled obs th5 db r th' db'"
    proof (cases "z = None \<or> \<not> sync")
      case True
      then show ?thesis
        using run5 server_error_handled [OF _ inv5] queue_handled [OF _ inv5]
        by (auto simp: put_async_def split: option.splits if_splits)
    next
      case False
      then show ?thesis
        using run5 write_handled [OF _ own_put_same [OF ok inv5(2)] inv5]
        by (auto simp: put_sync_def put_write_def)
    qed
    then show ?thesis using handled_trans [OF h5] by simp
  qed
  then show ?thesis using handled_trans [OF h4] by simp
qed

interpretation put: command_handler command_put
proof unfold_locales
  fix L :: "'e lmdb" and obs th db sync c s r th' db'
  assume ok: "lmdb_ok L obs" and pre: "dyn_inv (buff th)" "owned obs th (database db)"
    and run: "command_put L th sync c s db = Some (r, th', db')"
  obtain res th1 where rd: "read_name th = Some (res, th1)"
    using run by (auto simp: command_put_def put_with_def bind_eq_Some_conv)
  note r1 = read_name_ok [OF pre(1) rd]
  show "handled obs th db r th' db'"
  proof (cases res)
    case None
    then have "server_error th1 db = Some (r, th', db')"
      using run rd by (simp add: command_put_def put_with_def)
    then show ?thesis using failed_read r1 pre(2) by blast
  next
    case (Some k)
    have h1: "handled obs th db YENOERR th1 db" using r1 pre(2) Some by (intro handled_read) auto
    obtain dres th2 where rv: "read_value th1 = Some (dres, th2)"
      using run rd Some by (auto simp: command_put_def put_with_def bind_eq_Some_conv)
    have inv1: "dyn_inv (buff th1)" "owned obs th1 (database db)" using handledD [OF h1] by simp_all
    note r2 = read_value_ok [OF inv1(1) rv]
    have "handled obs th1 db r th' db'"
    proof (cases dres)
      case None
      then have "server_error th2 db = Some (r, th', db')"
        using run rd Some rv by (simp add: command_put_def put_with_def)
      then show ?thesis using failed_read r2 inv1(2) by blast
    next
      case (Some d)
      then have h2: "handled obs th1 db YENOERR th2 db" using r2 inv1 by (intro handled_read) auto
      have run2: "put_tail False False L th2 db sync c k d = Some (r, th', db')"
        using run rd \<open>res = Some k\<close> rv Some by (simp add: command_put_def put_with_def)
      show ?thesis
        using handled_trans [OF h2 put_tail_handled [OF ok run2]] handledD [OF h2] by simp
    qed
    then show ?thesis using handled_trans [OF h1] by simp
  qed
qed

interpretation ping: command_handler command_ping
  by unfold_locales (auto simp: command_ping_def CONNECTION_SEND_OK_def intro: answer_handled)

lemma handled_dbname:
  assumes "dyn_inv (buff th)" and "owned obs th (database db)"
  shows "handled obs th db r (th\<lparr>dbname := n\<rparr>) db"
  using assms by (auto simp: handled_def owned_def others_def stream_def)

lemma handled_ok:
  assumes "Some (YENOERR, snd (CONNECTION_SEND_OK th), db) = Some (r, th', db')"
    and "dyn_inv (buff th)" and "owned obs th (database db)"
  shows "handled obs th db r th' db'"
  using assms handled_quiet [OF quiet_macros(1)] by auto

lemma select_handled:
  assumes run: "select_dbname th n = Some (ok, th')" and pre: "dyn_inv (buff th)" "owned obs th (database db)"
  shows "handled obs th db (if ok then YENOERR else YEIO) th' db"
proof (cases "0 < n")
  case False
  then show ?thesis using run handled_refl [OF pre] by (simp add: select_dbname_def)
next
  case True
  then obtain p th1 where rd: "read_field th (ucast n) = Some (p, th1)"
    using run by (auto simp: select_dbname_def bind_eq_Some_conv)
  note r1 = read_field_ok [OF pre(1) rd]
  show ?thesis
  proof (cases p)
    case None
    then show ?thesis using run rd True r1 pre(2) by (auto simp: select_dbname_def intro: handled_read)
  next
    case (Some name)
    then have h1: "handled obs th db YENOERR th1 db" using r1 pre(2) by (intro handled_read) auto
    obtain b th2 where a: "alloc th1 = (b, th2)" by (cases "alloc th1")
    have h2: "handled obs th db YENOERR th2 db"
      using handled_trans [OF h1 handled_quiet [OF quiet_alloc [OF a]]] handledD [OF h1] by simp
    have "handled obs th2 db (if ok then YENOERR else YEIO) th' db"
      using run rd True Some a handledD [OF h2]
      by (auto simp: select_dbname_def bind_eq_Some_conv split: if_splits
          intro: handled_refl handled_dbname)
    then show ?thesis using handled_trans [OF h2] by simp
  qed
qed

interpretation setdb: command_handler command_setdb
proof unfold_locales
  fix L :: "'e lmdb" and obs th db sync c s r th' db'
  assume pre: "dyn_inv (buff th)" "owned obs th (database db)"
    and run: "command_setdb L th sync c s db = Some (r, th', db')"
  obtain res th1 where rd: "read_field th 1 = Some (res, th1)"
    using run by (auto simp: command_setdb_def bind_eq_Some_conv)
  note r1 = read_field_ok [OF pre(1) rd]
  show "handled obs th db r th' db'"
  proof (cases res)
    case None
    then have "server_error th1 db = Some (r, th', db')" using run rd by (simp add: command_setdb_def)
    then show ?thesis using failed_read r1 pre(2) by blast
  next
    case (Some l)
    then obtain ok th2 where sel: "select_dbname (th1\<lparr>dbname := None\<rparr>) (hd l) = Some (ok, th2)"
      using run rd by (auto simp: command_setdb_def bind_eq_Some_conv)
    have h1: "handled obs th db YENOERR th1 db" using r1 pre(2) Some by (intro handled_read) auto
    have h2: "handled obs th db YENOERR (th1\<lparr>dbname := None\<rparr>) db"
      using handled_trans [OF h1 handled_dbname] handledD [OF h1] by simp
    have h3: "handled obs th db (if ok then YENOERR else YEIO) th2 db"
      using handled_trans [OF h2 select_handled [OF sel]] handledD [OF h2] by simp
    note inv = handledD [OF h3, THEN conjunct1] handledD [OF h3, THEN conjunct2]
    have "handled obs th2 db r th' db'" "r = YENOERR \<Longrightarrow> ok"
      using run rd Some sel handled_ok [OF _ inv] server_error_handled [OF _ inv]
      by (simp_all add: command_setdb_def server_error_def split: if_splits)
    then show ?thesis using handled_trans [OF h3] by simp
  qed
qed

text \<open>Giving up the thread's own transaction.\<close>

lemma rollback_own:
  assumes ok: "lmdb_ok L obs" and "transaction th = Some t" and "owned obs th e"
    and "database_transaction_rollback L e t = Some e'"
  shows "txns (obs e') = others obs th e"
proof -
  obtain x where "txns (obs e) t = Some x" using assms(2,3) by (auto simp: owned_def)
  then have "obs e' = (obs e)\<lparr>txns := (txns (obs e))(t := None)\<rparr>"
    using abort_live [OF ok] assms(4) by (metis database_transaction_rollback_def option.inject)
  then show ?thesis using assms(2) by (auto simp: others_def)
qed

interpretation stop: command_handler command_stop
proof unfold_locales
  fix L :: "'e lmdb" and obs th db sync c s r th' db'
  assume ok: "lmdb_ok L obs" and pre: "dyn_inv (buff th)" "owned obs th (database db)"
    and run: "command_stop L th sync c s db = Some (r, th', db')"
  show "handled obs th db r th' db'"
  proof (cases "transaction th")
    case None
    then show ?thesis using run handled_quiet [OF quiet_macros(2) pre] by (auto simp: command_stop_def)
  next
    case (Some t)
    then obtain e where e: "database_transaction_rollback L (database db) t = Some e"
      using run by (auto simp: command_stop_def bind_eq_Some_conv)
    let ?th = "th\<lparr>transaction := None\<rparr>" and ?db = "db\<lparr>database := e\<rparr>"
    have "txns (obs e) = others obs th (database db)" by (rule rollback_own [OF ok Some pre(2) e])
    then have h: "handled obs th db YENOERR ?th ?db"
      using pre by (auto simp: handled_def owned_def others_def stream_def)
    have "Some (YENOERR, snd (CONNECTION_SEND_OK ?th), ?db) = Some (r, th', db')"
      using run Some e by (simp add: command_stop_def)
    then show ?thesis using handled_trans [OF h handled_ok] handledD [OF h] by blast
  qed
qed

interpretation start: command_handler command_start
proof unfold_locales
  fix L :: "'e lmdb" and obs th db sync c s r th' db'
  assume ok: "lmdb_ok L obs" and pre: "dyn_inv (buff th)" "owned obs th (database db)"
    and run: "command_start L th sync c s db = Some (r, th', db')"
  obtain e1 where e1: "(case transaction th of None \<Rightarrow> Some (database db)
      | Some t \<Rightarrow> database_transaction_rollback L (database db) t) = Some e1"
    using run by (auto simp: command_start_def bind_eq_Some_conv)
  have t1: "txns (obs e1) = others obs th (database db)"
    using e1 rollback_own [OF ok _ pre(2)] by (auto simp: others_def split: option.splits)
  obtain txn e2 where st: "database_transaction_start L e1 True = (txn, e2)"
    by (cases "database_transaction_start L e1 True")
  let ?th = "th\<lparr>transaction := txn\<rparr>" and ?db = "db\<lparr>database := e2\<rparr>"
  have h: "handled obs th db YENOERR ?th ?db"
    using ok
  proof (cases rule: start_cases [where e = e1 and ro = True])
    case (begun t e')
    then show ?thesis
      using st t1 pre(1) by (auto simp: handled_def owned_def others_def stream_def fun_eq_iff)
  next
    case (refused e')
    then show ?thesis using st t1 pre(1) by (auto simp: handled_def owned_def others_def stream_def)
  qed
  note inv = handledD [OF h, THEN conjunct1] handledD [OF h, THEN conjunct2]
  have "handled obs ?th ?db r th' db'"
  proof (cases "txn = None")
    case True
    then show ?thesis
      using run e1 st handled_quiet [OF quiet_macros(2) inv] by (auto simp: command_start_def)
  next
    case False
    then show ?thesis using run e1 st handled_ok [OF _ inv] by (auto simp: command_start_def)
  qed
  then show "handled obs th db r th' db'" using handled_trans [OF h] by simp
qed

end
