(* ===== verification/Server.thy ===== *)
theory Server
  imports Contract
begin

text \<open>
  The request loop of a connection thread (\<^verbatim>\<open>connection_thread_execution\<close> in
  \<^verbatim>\<open>src/server/connection_thread.c\<close>), the loop of the writer thread (\<^verbatim>\<open>src/server/writer_thread.c\<close>),
  and the lemmas about one request that hold for every handler of the dispatch table.
\<close>

section \<open>The connection thread\<close>

definition commands ::
    "('e lmdb \<Rightarrow> tcp_thread_t \<Rightarrow> bool \<Rightarrow> bool \<Rightarrow> bool \<Rightarrow> 'e finedb_t \<Rightarrow> 'e handler_result) option list" where
  "commands = [Some command_ping, Some command_get, Some command_del, Some command_put,
     Some command_setdb, Some command_start, Some command_stop, None, None, None, None, None, None,
     None, None, None]"

text \<open>The execution of one request byte. The Boolean says whether the inner loop goes on.\<close>

definition execute ::
    "'e lmdb \<Rightarrow> tcp_thread_t \<Rightarrow> 'e finedb_t \<Rightarrow> byte \<Rightarrow> (bool \<times> tcp_thread_t \<times> 'e finedb_t) option" where
  "execute L thread db request =
     (let command = REQUEST_COMMAND request;
          sync = (transaction thread \<noteq> None \<or> REQUEST_HAS_SYNC request);
          compressed = REQUEST_HAS_COMPRESSED request;
          serialized = REQUEST_HAS_SERIALIZED request in
      case commands ! unat command of
        None \<Rightarrow> Some (False, snd (CONNECTION_SEND_ERROR thread RESP_ERR_PROTOCOL), db)
      | Some func \<Rightarrow> do {
          (r, th1, db1) \<leftarrow> func L thread sync compressed serialized db;
          Some (r = YENOERR, th1, db1) })"

text \<open>One round of the inner loop.\<close>

definition request_step ::
    "'e lmdb \<Rightarrow> tcp_thread_t \<Rightarrow> 'e finedb_t \<Rightarrow> (bool \<times> tcp_thread_t \<times> 'e finedb_t) option" where
  "request_step L thread db = do {
     (request, th1) \<leftarrow> read_field thread 1;
     (case request of
        None \<Rightarrow> Some (False, th1, db)
      | Some bs \<Rightarrow> execute L th1 db (hd bs)) }"

text \<open>The inner loop with a bound on its rounds; True in the result says that the bound was reached.\<close>

primrec serve ::
    "nat \<Rightarrow> 'e lmdb \<Rightarrow> tcp_thread_t \<Rightarrow> 'e finedb_t \<Rightarrow> (bool \<times> tcp_thread_t \<times> 'e finedb_t) option" where
  "serve 0 L thread db = Some (True, thread, db)"
| "serve (Suc n) L thread db = do {
     (go, th1, db1) \<leftarrow> request_step L thread db;
     (if go then serve n L th1 db1 else Some (False, th1, db1)) }"

text \<open>
  One round of the outer loop: a connection from its arrival on the socket \<open>new_fd\<close> to its end. A
  buffer that cannot be allocated is not noticed, and the first read goes through the null pointer.
\<close>

definition connection_round ::
    "nat \<Rightarrow> 'e lmdb \<Rightarrow> tcp_thread_t \<Rightarrow> int \<Rightarrow> recv_event list \<Rightarrow> 'e finedb_t \<Rightarrow>
       (bool \<times> tcp_thread_t \<times> 'e finedb_t) option" where
  "connection_round n L thread new_fd input db =
     (let th0 = thread\<lparr>fd := new_fd, inp := input, outp := []\<rparr> in
      if fd th0 < 0 then Some (False, th0, db)
      else case alloc th0 of (ok, th1) \<Rightarrow> do {
        b \<leftarrow> ydynabin_new ok True None 0 False;
        buff0 \<leftarrow> b;
        (running, th2, db2) \<leftarrow> serve n L (th1\<lparr>buff := buff0\<rparr>) db;
        (if running then Some (True, th2, db2)
         else do {
           (th3, env) \<leftarrow> connection_thread_disconnect L th2 (database db2);
           Some (False, th3\<lparr>buff := ydynabin_zero\<rparr>, db2\<lparr>database := env\<rparr>) }) })"

section \<open>The writer thread\<close>

definition writer_step :: "'e lmdb \<Rightarrow> 'e finedb_t \<Rightarrow> 'e finedb_t option" where
  "writer_step L db =
     (case wqueue db of
        [] \<Rightarrow> Some db
      | msg # rest \<Rightarrow> do {
          env \<leftarrow> (case msg_type msg of
              WRITE_PUT \<Rightarrow> map_option snd (database_put L (database db) None (msg_create_only msg)
                (msg_dbname msg) (msg_name msg) (msg_data msg))
            | WRITE_DEL \<Rightarrow> map_option snd (database_del L (database db) None (msg_dbname msg) (msg_name msg))
            | WRITE_DROP \<Rightarrow> Some (database db));
          Some (db\<lparr>database := env, wqueue := rest\<rparr>) })"

primrec writer_loop :: "nat \<Rightarrow> 'e lmdb \<Rightarrow> 'e finedb_t \<Rightarrow> 'e finedb_t option" where
  "writer_loop 0 L db = Some db"
| "writer_loop (Suc n) L db = do { db1 \<leftarrow> writer_step L db; writer_loop n L db1 }"

section \<open>One request\<close>

lemma commands_cases:
  fixes func :: "'a lmdb \<Rightarrow> tcp_thread_t \<Rightarrow> bool \<Rightarrow> bool \<Rightarrow> bool \<Rightarrow> 'a finedb_t \<Rightarrow> 'a handler_result"
  assumes "commands ! n = Some func" and "n < 16"
  obtains "func = command_ping" | "func = command_get" | "func = command_del" | "func = command_put"
    | "func = command_setdb" | "func = command_start" | "func = command_stop"
proof -
  have "n < length (commands :: ('a lmdb \<Rightarrow> tcp_thread_t \<Rightarrow> bool \<Rightarrow> bool \<Rightarrow> bool \<Rightarrow> 'a finedb_t \<Rightarrow>
      'a handler_result) option list)"
    using assms(2) by (simp add: commands_def)
  then have "Some func \<in> set commands" using assms(1) nth_mem by metis
  then show thesis using that by (auto simp: commands_def)
qed

lemma execute_handled:
  fixes L :: "'e lmdb"
  assumes ok: "lmdb_ok L obs" and pre: "dyn_inv (buff th)" "owned obs th (database db)"
    and run: "execute L th db b = Some (go, th', db')"
  shows "handled obs th db (if go then YENOERR else YEIO) th' db'"
proof (cases "commands ! unat (REQUEST_COMMAND b) ::
    ('e lmdb \<Rightarrow> tcp_thread_t \<Rightarrow> bool \<Rightarrow> bool \<Rightarrow> bool \<Rightarrow> 'e finedb_t \<Rightarrow> 'e handler_result) option")
  case None
  then have "go = False" "th' = snd (CONNECTION_SEND_ERROR th RESP_ERR_PROTOCOL)" "db' = db"
    using run by (simp_all add: execute_def)
  then show ?thesis using handled_quiet [OF quiet_macros(2) pre] by simp
next
  case (Some func)
  then obtain r y c s where f: "func L th y c s db = Some (r, th', db')" "go \<longleftrightarrow> r = YENOERR"
    using run by (auto simp: execute_def Let_def bind_eq_Some_conv)
  from Some command_less_16 have "handled obs th db r th' db'"
  proof (rule commands_cases)
    show "func = command_ping \<Longrightarrow> ?thesis" using f(1) ping.handled [OF ok pre] by simp
    show "func = command_get \<Longrightarrow> ?thesis" using f(1) get.handled [OF ok pre] by simp
    show "func = command_del \<Longrightarrow> ?thesis" using f(1) del.handled [OF ok pre] by simp
    show "func = command_put \<Longrightarrow> ?thesis" using f(1) put.handled [OF ok pre] by simp
    show "func = command_setdb \<Longrightarrow> ?thesis" using f(1) setdb.handled [OF ok pre] by simp
    show "func = command_start \<Longrightarrow> ?thesis" using f(1) start.handled [OF ok pre] by simp
    show "func = command_stop \<Longrightarrow> ?thesis" using f(1) stop.handled [OF ok pre] by simp
  qed
  then show ?thesis using f(2) by (auto simp: handled_def)
qed

lemma request_handled:
  assumes ok: "lmdb_ok L obs" and pre: "dyn_inv (buff th)" "owned obs th (database db)"
    and run: "request_step L th db = Some (go, th', db')"
  shows "handled obs th db (if go then YENOERR else YEIO) th' db' \<and>
    (go \<longrightarrow> length (stream th') < length (stream th))"
proof -
  obtain res th1 where rd: "read_field th 1 = Some (res, th1)"
    using run by (auto simp: request_step_def bind_eq_Some_conv)
  note r1 = read_field_ok [OF pre(1) rd]
  show ?thesis
  proof (cases res)
    case None
    then have "go = False" "th' = th1" "db' = db" using run rd by (simp_all add: request_step_def)
    then show ?thesis using r1 pre(2) by (auto intro!: handled_read)
  next
    case (Some bs)
    have h1: "handled obs th db YENOERR th1 db" using r1 pre(2) Some by (intro handled_read) auto
    have less: "length (stream th1) < length (stream th)" using r1 Some by auto
    have "execute L th1 db (hd bs) = Some (go, th', db')" using run rd Some by (simp add: request_step_def)
    then have h2: "handled obs th1 db (if go then YENOERR else YEIO) th' db'"
      using execute_handled [OF ok] handledD [OF h1] by blast
    then have "length (stream th') \<le> length (stream th1)" if go using that by (auto simp: handled_def)
    then show ?thesis using less handled_trans [OF h1 h2] by auto
  qed
qed

lemma serve_handled:
  assumes ok: "lmdb_ok L obs"
  shows "dyn_inv (buff th) \<Longrightarrow> owned obs th (database db) \<Longrightarrow>
    serve n L th db = Some (running, th', db') \<Longrightarrow>
    handled obs th db (if running then YENOERR else YEIO) th' db' \<and>
    (running \<longrightarrow> length (stream th') + n \<le> length (stream th))"
proof (induction n arbitrary: th db)
  case 0
  then show ?case by (simp add: handled_refl)
next
  case (Suc n)
  then obtain go th1 db1 where st: "request_step L th db = Some (go, th1, db1)"
    by (auto simp: bind_eq_Some_conv)
  note h1 = request_handled [OF ok Suc.prems(1,2) st]
  show ?case
  proof (cases go)
    case False
    then show ?thesis using Suc.prems(3) st h1 by auto
  next
    case True
    have inv: "dyn_inv (buff th1)" "owned obs th1 (database db1)" using h1 handledD by blast+
    have "serve n L th1 db1 = Some (running, th', db')" using Suc.prems(3) st True by simp
    note h2 = Suc.IH [OF inv this]
    show ?thesis using h1 h2 True handled_trans [of obs th db YENOERR th1 db1] by auto
  qed
qed

end
