(* ===== verification/Requests.thy ===== *)
theory Requests
  imports Server
begin

text \<open>
  What the server promises its clients, and that it keeps the promise. A \<open>session\<close> is what a
  client can know: the data of the default database, the snapshot of its transaction and the
  writes that wait for the writer thread. \<open>answers\<close> is the specification: which answers a
  request may get, and what it does to the session. The refinement lemma shows that
  \<^verbatim>\<open>request_step\<close> on the bytes of a request does one of the specified things.
\<close>

section \<open>Requests and sessions\<close>

datatype request = Ping | Get bytes | Del bytes | Put bytes bytes | Start | Stop

fun req_command :: "request \<Rightarrow> protocol_command_t" where
  "req_command Ping = PROTO_PING"
| "req_command (Get k) = PROTO_GET"
| "req_command (Del k) = PROTO_DEL"
| "req_command (Put k d) = PROTO_PUT"
| "req_command Start = PROTO_START"
| "req_command Stop = PROTO_STOP"

text \<open>The bytes of a request behind the command byte.\<close>

definition key_bytes :: "bytes \<Rightarrow> bytes" where
  "key_bytes k = htons (word_of_nat (length k)) @ k"

definition value_bytes :: "bytes \<Rightarrow> bytes" where
  "value_bytes d = htonl (word_of_nat (length d)) @ d"

fun req_payload :: "request \<Rightarrow> bytes" where
  "req_payload (Get k) = key_bytes k"
| "req_payload (Del k) = key_bytes k"
| "req_payload (Put k d) = key_bytes k @ value_bytes d"
| "req_payload _ = []"

fun req_ok :: "request \<Rightarrow> bool" where
  "req_ok (Get k) \<longleftrightarrow> length k < 2 ^ 16"
| "req_ok (Del k) \<longleftrightarrow> length k < 2 ^ 16"
| "req_ok (Put k d) \<longleftrightarrow> length k < 2 ^ 16 \<and> length d < 2 ^ 31"
| "req_ok _ \<longleftrightarrow> True"

record session =
  s_data :: kv
  s_snapshot :: "kv option"
  s_queue :: "writer_msg_t list"

definition visible :: "session \<Rightarrow> kv" where
  "visible a = (case s_snapshot a of Some m \<Rightarrow> m | None \<Rightarrow> s_data a)"

text \<open>A stored value is the compressed data; the client may compress and decompress itself.\<close>

definition zipped :: "bytes \<Rightarrow> bytes \<Rightarrow> bool" where
  "zipped d z \<longleftrightarrow> z \<noteq> [] \<and> snappy_uncompressed_length z = Some (length d) \<and>
     snappy_uncompress z (length z) (YMALLOC (length d)) = Some (0, d)"

definition encodes :: "bool \<Rightarrow> bytes \<Rightarrow> bytes \<Rightarrow> bool" where
  "encodes compressed d z \<longleftrightarrow> (if compressed then z = d else zipped d z)"

definition decodes_to :: "bool \<Rightarrow> bytes \<Rightarrow> bytes \<Rightarrow> bool" where
  "decodes_to compressed z d \<longleftrightarrow> (if compressed \<or> z = [] then d = z else zipped d z)"

definition queued :: "writer_action_t \<Rightarrow> bytes \<Rightarrow> bytes \<Rightarrow> writer_msg_t" where
  "queued act k z = \<lparr>msg_type = act, msg_dbname = None, msg_name = k, msg_data = z, msg_create_only = False\<rparr>"

section \<open>The specification\<close>

text \<open>
  \<open>answers sync compressed serialized req a go out a'\<close>: the request may be answered by \<open>out\<close>, after
  which the session is \<open>a'\<close> and the connection goes on or not. An asynchronous request is only
  possible outside a transaction.
\<close>

inductive answers ::
    "bool \<Rightarrow> bool \<Rightarrow> bool \<Rightarrow> request \<Rightarrow> session \<Rightarrow> bool \<Rightarrow> bytes \<Rightarrow> session \<Rightarrow> bool"
  for sync compressed serialized where
  ping: "answers sync compressed serialized Ping a True (response_bytes RESP_OK False False None) a"
| get_found: "visible a k = Some z \<Longrightarrow> decodes_to compressed z d \<Longrightarrow>
    answers sync compressed serialized (Get k) a True
      (response_bytes RESP_OK serialized compressed (Some d)) a"
| get_missing: "visible a k = None \<Longrightarrow>
    answers sync compressed serialized (Get k) a True (response_bytes RESP_ERR_BAD_NAME False False None) a"
| get_failed: "s_snapshot a = None \<or> \<not> mdb_key_ok k \<Longrightarrow>
    answers sync compressed serialized (Get k) a False (response_bytes RESP_ERR_SERVER False False None) a"
| put_done: "sync \<Longrightarrow> s_snapshot a = None \<Longrightarrow> mdb_key_ok k \<Longrightarrow> encodes compressed d z \<Longrightarrow>
    answers sync compressed serialized (Put k d) a True (response_bytes RESP_OK False False None)
      (a\<lparr>s_data := (s_data a)(k \<mapsto> z)\<rparr>)"
| put_failed: "sync \<Longrightarrow>
    answers sync compressed serialized (Put k d) a True (response_bytes RESP_ERR_BAD_NAME False False None) a"
| put_queued: "\<not> sync \<Longrightarrow> encodes compressed d z \<Longrightarrow>
    answers sync compressed serialized (Put k d) a True (response_bytes RESP_OK False False None)
      (a\<lparr>s_queue := s_queue a @ [queued WRITE_PUT k z]\<rparr>)"
| del_done: "sync \<Longrightarrow> s_snapshot a = None \<Longrightarrow> s_data a k \<noteq> None \<Longrightarrow>
    answers sync compressed serialized (Del k) a True (response_bytes RESP_OK False False None)
      (a\<lparr>s_data := (s_data a)(k := None)\<rparr>)"
| del_failed: "sync \<Longrightarrow>
    answers sync compressed serialized (Del k) a True (response_bytes RESP_ERR_BAD_NAME False False None) a"
| del_queued: "\<not> sync \<Longrightarrow>
    answers sync compressed serialized (Del k) a True (response_bytes RESP_OK False False None)
      (a\<lparr>s_queue := s_queue a @ [queued WRITE_DEL k []]\<rparr>)"
| start: "answers sync compressed serialized Start a True (response_bytes RESP_OK False False None)
    (a\<lparr>s_snapshot := Some (s_data a)\<rparr>)"
| start_failed: "answers sync compressed serialized Start a False
    (response_bytes RESP_ERR_TRANSACTION False False None) (a\<lparr>s_snapshot := None\<rparr>)"
| stop: "s_snapshot a \<noteq> None \<Longrightarrow> answers sync compressed serialized Stop a True
    (response_bytes RESP_OK False False None) (a\<lparr>s_snapshot := None\<rparr>)"
| stop_failed: "s_snapshot a = None \<Longrightarrow> answers sync compressed serialized Stop a False
    (response_bytes RESP_ERR_TRANSACTION False False None) a"

inductive_cases answers_getE: "answers y c s (Get k) a go out a'"
inductive_cases answers_putE: "answers y c s (Put k d) a go out a'"
inductive_cases answers_delE: "answers y c s (Del k) a go out a'"

section \<open>Abstraction\<close>

text \<open>A thread that works on the default database and whose calls of the system succeed.\<close>

definition calm :: "('e \<Rightarrow> mdb_abs) \<Rightarrow> tcp_thread_t \<Rightarrow> 'e finedb_t \<Rightarrow> bool" where
  "calm obs th db \<longleftrightarrow> dyn_inv (buff th) \<and> 0 \<le> fd th \<and> mem th = [] \<and> sends th = [] \<and>
     dbname th = None \<and> nn_sends db = [] \<and> owned obs th (database db)"

definition main_of :: "dbs \<Rightarrow> kv" where
  "main_of ds = (case ds None of Some m \<Rightarrow> m | None \<Rightarrow> Map.empty)"

definition snapshot_of :: "nat option \<Rightarrow> (nat \<rightharpoonup> txn_abs) \<Rightarrow> kv option" where
  "snapshot_of txn live = (case txn of None \<Rightarrow> None | Some t \<Rightarrow> map_option (\<lambda>x. main_of (view x)) (live t))"

definition session_of :: "('e \<Rightarrow> mdb_abs) \<Rightarrow> tcp_thread_t \<Rightarrow> 'e finedb_t \<Rightarrow> session" where
  "session_of obs th db = \<lparr>s_data = main_of (committed (obs (database db))),
     s_snapshot = snapshot_of (transaction th) (txns (obs (database db))), s_queue = wqueue db\<rparr>"

lemma snapshot_simps [simp]: "snapshot_of None live = None"
  "live t = Some x \<Longrightarrow> snapshot_of (Some t) live = Some (main_of (view x))"
  by (simp_all add: snapshot_of_def)

text \<open>What a handler makes of a request whose bytes are all in the buffer, with \<open>rest\<close> behind them.\<close>

definition served ::
    "('e \<Rightarrow> mdb_abs) \<Rightarrow> bool \<Rightarrow> bool \<Rightarrow> bool \<Rightarrow> request \<Rightarrow> tcp_thread_t \<Rightarrow> 'e finedb_t \<Rightarrow> bytes \<Rightarrow>
       'e handler_result \<Rightarrow> bool" where
  "served obs y c s req th db rest res \<longleftrightarrow> (\<exists>r th' db' out. res = Some (r, th', db') \<and>
     answers y c s req (session_of obs th db) (r = YENOERR) out (session_of obs th' db') \<and>
     calm obs th' db' \<and> outp th' = outp th @ out \<and> inp th' = inp th \<and> dyn_content (buff th') = rest)"

lemma servedI:
  assumes "res = Some (r, th', db')" and "outp th' = outp th @ out"
    and "answers y c s req (session_of obs th db) (r = YENOERR) out (session_of obs th' db')"
    and "calm obs th' db'" and "inp th' = inp th" and "dyn_content (buff th') = rest"
  shows "served obs y c s req th db rest res"
  using assms unfolding served_def by blast

section \<open>Fields in the buffer\<close>

lemma unat_of_length:
  "length k < 2 ^ 16 \<Longrightarrow> unat (word_of_nat (length k) :: u16) = length k"
  "length d < 2 ^ 32 \<Longrightarrow> unat (word_of_nat (length d) :: u32) = length d"
  by (simp_all add: unsigned_of_nat take_bit_nat_eq_self)

lemma read_name_buffered:
  assumes "dyn_inv (buff th)" and "0 \<le> fd th" and "mem th = []" and "length k < 2 ^ 16"
    and "dyn_content (buff th) = key_bytes k @ rest"
  shows "\<exists>c. read_name th = Some (Some k, th\<lparr>buff := c\<rparr>) \<and> dyn_inv c \<and> dyn_content c = rest"
proof -
  let ?l = "htons (word_of_nat (length k))"
  have b: "dyn_content (buff th) = ?l @ k @ rest" using assms(5) by (simp add: key_bytes_def)
  have "length ?l = unat (2 :: size_t)" by simp
  then obtain c1 where c1: "read_field th 2 = Some (Some ?l, th\<lparr>buff := c1\<rparr>)" "dyn_inv c1"
    "dyn_content c1 = k @ rest"
    using read_field_buffered [OF assms(1,2) b, of 2] by blast
  have n: "length k = unat (ucast (ntohs ?l) :: size_t)"
    using assms(4) by (simp add: unat_of_length)
  obtain c2 where "read_field (th\<lparr>buff := c1\<rparr>) (ucast (ntohs ?l)) = Some (Some k, th\<lparr>buff := c2\<rparr>)"
    "dyn_inv c2" "dyn_content c2 = rest"
    using read_field_buffered [of "th\<lparr>buff := c1\<rparr>" k rest, OF _ _ _ n] c1(2,3) assms(2) by auto
  then show ?thesis using c1(1) assms(3) by (auto simp: read_name_def)
qed

lemma read_value_buffered:
  assumes "dyn_inv (buff th)" and "0 \<le> fd th" and "mem th = []" and "length d < 2 ^ 32"
    and "dyn_content (buff th) = value_bytes d @ rest"
  shows "\<exists>c. read_value th = Some (Some d, th\<lparr>buff := c\<rparr>) \<and> dyn_inv c \<and> dyn_content c = rest"
proof -
  let ?l = "htonl (word_of_nat (length d))"
  have b: "dyn_content (buff th) = ?l @ d @ rest" using assms(5) by (simp add: value_bytes_def)
  have "length ?l = unat (4 :: size_t)" by simp
  then obtain c1 where c1: "read_field th 4 = Some (Some ?l, th\<lparr>buff := c1\<rparr>)" "dyn_inv c1"
    "dyn_content c1 = d @ rest"
    using read_field_buffered [OF assms(1,2) b, of 4] by blast
  have n: "length d = unat (ucast (ntohl ?l) :: size_t)"
    using assms(4) by (simp add: unat_of_length)
  show ?thesis
  proof (cases "d = []")
    case True
    then show ?thesis using c1 by (auto simp: read_value_def)
  next
    case False
    then have "0 < ntohl ?l" using assms(4) by (simp add: word_less_nat_alt unat_of_length)
    moreover obtain c2 where "read_field (th\<lparr>buff := c1\<rparr>) (ucast (ntohl ?l)) = Some (Some d, th\<lparr>buff := c2\<rparr>)"
      "dyn_inv c2" "dyn_content c2 = rest"
      using read_field_buffered [of "th\<lparr>buff := c1\<rparr>" d rest, OF _ _ _ n] c1(2,3) assms(2) by auto
    ultimately show ?thesis using c1(1) assms(3) by (auto simp: read_value_def)
  qed
qed

section \<open>Compression of values\<close>

text \<open>The sequence of calls that the server and the client use to compress a value.\<close>

lemma snappy_zip:
  assumes "length d < 2 ^ 31"
  shows "\<exists>env out len b. snappy_init_env True
      \<lparr>hash_table = None, env_scratch = None, env_scratch_output = None\<rparr> = (0, env) \<and>
    snappy_compress env d (length d) (YMALLOC (snappy_max_compressed_length (length d))) = Some (0, out, len) \<and>
    mem_write out len [0] = Some b \<and> zipped d (take len b) \<and>
    length (take len b) < snappy_max_compressed_length (length d)"
proof -
  define env where "env = snd (snappy_init_env True
    \<lparr>hash_table = None, env_scratch = None, env_scratch_output = None\<rparr>)"
  have env: "env_ok env" "snappy_init_env True
    \<lparr>hash_table = None, env_scratch = None, env_scratch_output = None\<rparr> = (0, env)"
    by (simp add: env_def snappy_init_env_ok) (simp add: env_def snappy_init_env_def)
  let ?out = "YMALLOC (snappy_max_compressed_length (length d))"
  obtain out' len code where c: "snappy_compress env d (length d) ?out = Some (0, out', len)"
    "length out' = length ?out" "len < snappy_max_compressed_length (length d)"
    "take len out' = varint_encode32 (word_of_nat (length d)) @ code" "decodes code [] d"
    using snappy_compress_ok [OF assms, of ?out env] env(1) by auto
  define z where "z = take len out'"
  obtain b where b: "mem_write out' len [0] = Some b" "take len b = z"
    using c(2,3) by (auto simp: mem_write_def z_def)
  have "length z < 2 ^ 32" "length d < 2 ^ 32"
    using c(2,3) assms by (auto simp: z_def snappy_max_compressed_length_def)
  then have "snappy_uncompressed_length z = Some (length d)"
    "\<exists>dst. snappy_uncompress z (length z) (YMALLOC (length d)) = Some (0, dst) \<and>
       length dst = length d \<and> take (length d) dst = d"
    using uncompress_encoded [of z d code "YMALLOC (length d)"] c(4,5) by (auto simp: z_def)
  moreover have "z \<noteq> []" using c(4) by (simp add: z_def varint_encode32_def)
  ultimately have "zipped d z" by (auto simp: zipped_def)
  moreover have "length z < snappy_max_compressed_length (length d)" using c(3) by (simp add: z_def)
  ultimately show ?thesis using env(2) c(1) b by blast
qed

lemma zip_value_ok:
  assumes "mem th = []" and "length d < 2 ^ 31"
  shows "\<exists>z. zip_value th d = Some (Some z, th) \<and> zipped d z"
  using snappy_zip [OF assms(2)] assms(1) by (auto simp: zip_value_def)

section \<open>The handlers meet the specification\<close>

lemma session_same:
  assumes "transaction th' = transaction th" and "wqueue db' = wqueue db"
    and "committed (obs (database db')) = committed (obs (database db))"
    and "txns (obs (database db')) = txns (obs (database db))"
  shows "session_of obs th' db' = session_of obs th db"
  using assms by (simp add: session_of_def)

lemma main_committed:
  assumes "lmdb_ok L obs"
  shows "committed (obs e) None = Some (main_of (committed (obs e)))"
    and "txns (obs e) t = Some x \<Longrightarrow> view x None = Some (main_of (view x))"
  using view_main [OF assms, of e] view_main(2) [OF assms, of e t x]
  by (auto simp: main_of_def split: option.splits)

lemma calm_get:
  assumes ok: "lmdb_ok L obs" and calm: "calm obs th db"
  shows "\<exists>r d e. database_get L (database db) (transaction th) None k = Some (r, d, e) \<and>
    same_data (obs (database db)) (obs e) \<and>
    (read_result (visible (session_of obs th db)) k r d \<or>
     s_snapshot (session_of obs th db) = None \<and> r = YEACCESS \<and> d = None)"
proof (cases "transaction th")
  case None
  then have "visible (session_of obs th db) = main_of (committed (obs (database db)))"
    "s_snapshot (session_of obs th db) = None"
    by (simp_all add: visible_def session_of_def)
  then show ?thesis
    using database_get_own [OF ok main_committed(1) [OF ok], of "database db" k] None
    by (auto split: if_splits)
next
  case (Some t)
  then obtain x where x: "txns (obs (database db)) t = Some x"
    using calm by (auto simp: calm_def owned_def)
  then have "visible (session_of obs th db) = main_of (view x)"
    using Some by (simp add: visible_def session_of_def)
  then show ?thesis
    using database_get_in_txn [OF ok x main_committed(2) [OF ok x], of k] Some by auto
qed

lemma send_calm:
  assumes "sends th = []"
  shows "CONNECTION_SEND_OK th = (YENOERR, th\<lparr>outp := outp th @ response_bytes RESP_OK False False None\<rparr>)"
    and "CONNECTION_SEND_ERROR th err = (YENOERR, th\<lparr>outp := outp th @ response_bytes err False False None\<rparr>)"
  using send_ok [OF assms] by (simp_all add: CONNECTION_SEND_OK_def CONNECTION_SEND_ERROR_def)

lemma command_get_run:
  assumes "read_name th = Some (Some k, th1)"
    and "database_get L (database db) (transaction th1) (dbname th1) k = Some (r, d, e)"
  shows "command_get L th y c s db = (let db1 = db\<lparr>database := e\<rparr> in
      if r = YENODATA then Some (YENOERR, snd (CONNECTION_SEND_ERROR th1 RESP_ERR_BAD_NAME), db1)
      else if r \<noteq> YENOERR then server_error th1 db1
      else (case d of
         None \<Rightarrow> None
       | Some z \<Rightarrow> if z \<noteq> [] \<and> \<not> c then get_unzip th1 db1 s z
           else (case connection_send_response th1 RESP_OK s c (Some z) of (r, th2) \<Rightarrow> Some (r, th2, db1))))"
  using assms by (simp add: command_get_def)

lemma unzip_or_raw:
  assumes "decodes_to c z v" and "sends th = []" and "mem th = []"
  shows "(if z \<noteq> [] \<and> \<not> c then get_unzip th db s z
      else (case connection_send_response th RESP_OK s c (Some z) of (r, th2) \<Rightarrow> Some (r, th2, db))) =
    Some (YENOERR, th\<lparr>outp := outp th @ response_bytes RESP_OK s c (Some v)\<rparr>, db)"
proof (cases "z \<noteq> [] \<and> \<not> c")
  case True
  then have "snappy_uncompressed_length z = Some (length v)"
    "snappy_uncompress z (length z) (YMALLOC (length v)) = Some (0, v)"
    using assms(1) by (simp_all add: decodes_to_def zipped_def)
  then show ?thesis using True assms(3) send_ok [OF assms(2)] by (simp add: get_unzip_def)
next
  case False
  then show ?thesis using assms(1) send_ok [OF assms(2)] by (auto simp: decodes_to_def)
qed

lemma get_served:
  assumes ok: "lmdb_ok L obs" and calm: "calm obs th db" and k: "length k < 2 ^ 16"
    and b: "dyn_content (buff th) = key_bytes k @ rest"
    and dec: "\<And>z. visible (session_of obs th db) k = Some z \<Longrightarrow> \<exists>d. decodes_to c z d"
  shows "served obs y c s (Get k) th db rest (command_get L th y c s db)"
proof -
  obtain buf where rd: "read_name th = Some (Some k, th\<lparr>buff := buf\<rparr>)" "dyn_inv buf" "dyn_content buf = rest"
    using read_name_buffered [of th k rest] calm k b by (auto simp: calm_def)
  let ?th = "th\<lparr>buff := buf\<rparr>"
  have s: "sends ?th = []" "mem ?th = []" "dbname ?th = None" using calm by (simp_all add: calm_def)
  obtain r d e where g: "database_get L (database db) (transaction ?th) (dbname ?th) k = Some (r, d, e)"
    "same_data (obs (database db)) (obs e)"
    "read_result (visible (session_of obs th db)) k r d \<or>
     s_snapshot (session_of obs th db) = None \<and> r = YEACCESS \<and> d = None"
    using calm_get [OF ok calm, of k] s(3) by auto
  let ?db = "db\<lparr>database := e\<rparr>"
  have sess: "session_of obs (?th\<lparr>outp := out\<rparr>) ?db = session_of obs th db" for out
    using g(2) by (intro session_same) (simp_all add: same_data_iff)
  have calm': "calm obs (?th\<lparr>outp := out\<rparr>) ?db" for out
    using calm rd(2) g(2) by (simp add: calm_def owned_def same_data_iff)
  have fin: "served obs y c s (Get k) th db rest (Some (r', ?th\<lparr>outp := outp th @ out\<rparr>, ?db))"
    if "answers y c s (Get k) (session_of obs th db) (r' = YENOERR) out (session_of obs th db)" for r' out
    by (rule servedI [OF refl, where out = out]) (use that rd(3) calm' in \<open>simp_all add: sess\<close>)
  note run = command_get_run [OF rd(1) g(1), unfolded Let_def]
  consider "r = YENODATA" "visible (session_of obs th db) k = None"
    | "r = YEACCESS" "s_snapshot (session_of obs th db) = None \<or> \<not> mdb_key_ok k"
    | z where "r = YENOERR" "d = Some z" "visible (session_of obs th db) k = Some z"
    using g(3) by (auto simp: read_result_def)
  then show ?thesis
  proof cases
    case 1
    then show ?thesis using run send_calm [OF s(1)] fin [of YENOERR] by (simp add: answers.get_missing)
  next
    case 2
    then show ?thesis
      using run send_calm [OF s(1)] fin [of YEIO] by (simp add: answers.get_failed server_error_def)
  next
    case 3
    obtain v where v: "decodes_to c z v" using dec 3(3) by blast
    have "command_get L th y c s db = (if z \<noteq> [] \<and> \<not> c then get_unzip ?th ?db s z
        else (case connection_send_response ?th RESP_OK s c (Some z) of (r, th2) \<Rightarrow> Some (r, th2, ?db)))"
      using run 3(1,2) by simp
    also have "\<dots> = Some (YENOERR, ?th\<lparr>outp := outp ?th @ response_bytes RESP_OK s c (Some v)\<rparr>, ?db)"
      by (rule unzip_or_raw [OF v s(1,2)])
    finally show ?thesis using fin [of YENOERR] answers.get_found [OF 3(3) v] by simp
  qed
qed
lemma calm_put:
  assumes ok: "lmdb_ok L obs" and cf: "\<not> commit_fails L" and calm: "calm obs th db"
  shows "\<exists>r e. database_put L (database db) (transaction th) False None k z = Some (r, e) \<and>
    txns (obs e) = txns (obs (database db)) \<and>
    (if r = YENOERR then transaction th = None \<and> mdb_key_ok k \<and>
       main_of (committed (obs e)) = (main_of (committed (obs (database db))))(k \<mapsto> z)
     else committed (obs e) = committed (obs (database db)))"
proof (cases "transaction th")
  case None
  then show ?thesis
    using database_put_own [OF ok, where e = "database db" and co = False and name = None and k = k and v = z] cf
    by (auto simp: same_data_iff split: option.splits if_splits) (auto simp: main_of_def)
next
  case (Some t)
  then obtain x where "txns (obs (database db)) t = Some x" "readonly x"
    using calm by (auto simp: calm_def owned_def)
  then show ?thesis
    using database_put_in_txn [OF ok, where e = "database db" and t = t and co = False and name = None
        and k = k and v = z] Some
    by (auto simp: wrote_in_def fun_upd_idem split: option.splits if_splits)
qed

lemma calm_del:
  assumes ok: "lmdb_ok L obs" and cf: "\<not> commit_fails L" and calm: "calm obs th db"
  shows "\<exists>r e. database_del L (database db) (transaction th) None k = Some (r, e) \<and>
    txns (obs e) = txns (obs (database db)) \<and>
    (if r = YENOERR then transaction th = None \<and> main_of (committed (obs (database db))) k \<noteq> None \<and>
       main_of (committed (obs e)) = (main_of (committed (obs (database db))))(k := None)
     else committed (obs e) = committed (obs (database db)))"
proof (cases "transaction th")
  case None
  then show ?thesis
    using database_del_own [OF ok, where e = "database db" and name = None and k = k] cf
    by (auto simp: same_data_iff split: option.splits if_splits) (auto simp: main_of_def)
next
  case (Some t)
  then obtain x where "txns (obs (database db)) t = Some x" "readonly x"
    using calm by (auto simp: calm_def owned_def)
  then show ?thesis
    using database_del_in_txn [OF ok, where e = "database db" and t = t and name = None and k = k] Some
    by (auto simp: wrote_in_def fun_upd_idem split: option.splits if_splits)
qed

text \<open>The value that a PUT stores or queues.\<close>

lemma zip_calm:
  assumes "mem th = []" and "length d < 2 ^ 31"
  shows "\<exists>z. (if c then Some (Some d, th) else zip_value th d) = Some (Some z, th) \<and> encodes c d z"
  using zip_value_ok [OF assms] by (auto simp: encodes_def)

lemma nn_send_calm: "nn_sends db = [] \<Longrightarrow> nn_send db msg = (True, db\<lparr>wqueue := wqueue db @ [msg]\<rparr>)"
  by (simp add: nn_send_def)

lemma answer_calm:
  assumes "sends th = []"
  shows "put_answer th db b = Some (YENOERR, th\<lparr>outp := outp th @
    response_bytes (if b then RESP_OK else RESP_ERR_BAD_NAME) False False None\<rparr>, db)"
  using send_ok [OF assms] by (simp add: put_answer_def)

text \<open>The two ends of a write: its message is queued, or its result is sent.\<close>

lemma write_queued:
  assumes calm: "calm obs th db" and buf: "dyn_inv buf" "dyn_content buf = rest"
    and ans: "answers y c s req (session_of obs th db) True (response_bytes RESP_OK False False None)
      ((session_of obs th db)\<lparr>s_queue := wqueue db @ [msg]\<rparr>)"
  shows "served obs y c s req th db rest (Some (YENOERR,
    th\<lparr>buff := buf, outp := outp th @ response_bytes RESP_OK False False None\<rparr>,
    db\<lparr>wqueue := wqueue db @ [msg]\<rparr>))"
proof (rule servedI [OF refl])
  let ?th = "th\<lparr>buff := buf, outp := outp th @ response_bytes RESP_OK False False None\<rparr>"
    and ?db = "db\<lparr>wqueue := wqueue db @ [msg]\<rparr>"
  have "session_of obs ?th ?db = (session_of obs th db)\<lparr>s_queue := wqueue db @ [msg]\<rparr>"
    by (simp add: session_of_def)
  then show "answers y c s req (session_of obs th db) (YENOERR = YENOERR)
      (response_bytes RESP_OK False False None) (session_of obs ?th ?db)" using ans by simp
  show "calm obs ?th ?db" using calm buf by (simp add: calm_def owned_def)
qed (use buf in simp_all)

lemma write_answered:
  assumes calm: "calm obs th db" and buf: "dyn_inv buf" "dyn_content buf = rest"
    and e: "txns (obs e) = txns (obs (database db))"
    and ans: "answers y c s req (session_of obs th db) True
      (response_bytes (if b then RESP_OK else RESP_ERR_BAD_NAME) False False None)
      ((session_of obs th db)\<lparr>s_data := main_of (committed (obs e))\<rparr>)"
  shows "served obs y c s req th db rest (put_answer (th\<lparr>buff := buf\<rparr>) (db\<lparr>database := e\<rparr>) b)"
proof -
  let ?out = "response_bytes (if b then RESP_OK else RESP_ERR_BAD_NAME) False False None"
  let ?th = "th\<lparr>buff := buf, outp := outp th @ ?out\<rparr>" and ?db = "db\<lparr>database := e\<rparr>"
  have "session_of obs ?th ?db = (session_of obs th db)\<lparr>s_data := main_of (committed (obs e))\<rparr>"
    using e by (simp add: session_of_def)
  moreover have "put_answer (th\<lparr>buff := buf\<rparr>) ?db b = Some (YENOERR, ?th, ?db)"
    using calm answer_calm [of "th\<lparr>buff := buf\<rparr>" ?db b] by (simp add: calm_def)
  moreover have "calm obs ?th ?db" using calm buf e by (simp add: calm_def owned_def)
  ultimately show ?thesis using ans buf by (intro servedI [where r = YENOERR and th' = ?th and db' = ?db and out = ?out]) simp_all
qed

lemma same_session_data:
  "(session_of obs th db)\<lparr>s_data := main_of (committed (obs (database db)))\<rparr> = session_of obs th db"
  by (simp add: session_of_def)

text \<open>What \<^verbatim>\<open>command_put\<close> does with the fields of the request.\<close>

lemma put_run:
  assumes calm: "calm obs th db" and k: "length k < 2 ^ 16" and d: "length d < 2 ^ 31"
    and b: "dyn_content (buff th) = key_bytes k @ value_bytes d @ rest"
  shows "\<exists>z buf. encodes c d z \<and> dyn_inv buf \<and> dyn_content buf = rest \<and>
    command_put L th y c s db =
      (if y then do {
         (r, e) \<leftarrow> database_put L (database db) (transaction th) False None k z;
         put_answer (th\<lparr>buff := buf\<rparr>) (db\<lparr>database := e\<rparr>) (r = YENOERR) }
       else Some (YENOERR, th\<lparr>buff := buf, outp := outp th @ response_bytes RESP_OK False False None\<rparr>,
         db\<lparr>wqueue := wqueue db @ [queued WRITE_PUT k z]\<rparr>))"
proof -
  have th: "dyn_inv (buff th)" "0 \<le> fd th" "mem th = []" "sends th = []" "dbname th = None"
    "nn_sends db = []" using calm by (simp_all add: calm_def)
  obtain b1 where rd: "read_name th = Some (Some k, th\<lparr>buff := b1\<rparr>)" "dyn_inv b1"
    "dyn_content b1 = value_bytes d @ rest"
    using read_name_buffered [OF th(1-3) k b] by blast
  obtain buf where rv: "read_value (th\<lparr>buff := b1\<rparr>) = Some (Some d, th\<lparr>buff := buf\<rparr>)" "dyn_inv buf"
    "dyn_content buf = rest"
    using read_value_buffered [of "th\<lparr>buff := b1\<rparr>" d rest] rd(2,3) th(2,3) d by auto
  have run: "command_put L th y c s db = put_tail False False L (th\<lparr>buff := buf\<rparr>) db y c k d"
    using rd(1) rv(1) by (simp add: command_put_def put_with_def)
  define th3 where "th3 = (if y then th\<lparr>buff := buf\<rparr>
    else th\<lparr>buff := buf, outp := outp th @ response_bytes RESP_OK False False None\<rparr>)"
  have th3: "mem th3 = []" "sends th3 = []" "dbname th3 = None" "transaction th3 = transaction th"
    "(if \<not> y \<and> \<not> False then snd (CONNECTION_SEND_OK (th\<lparr>buff := buf\<rparr>)) else th\<lparr>buff := buf\<rparr>) = th3"
    using th(3-5) send_calm(1) [of "th\<lparr>buff := buf\<rparr>"] by (simp_all add: th3_def)
  obtain z where z: "(if c then Some (Some d, th3) else zip_value th3 d) = Some (Some z, th3)" "encodes c d z"
    using zip_calm [OF th3(1) d, of c] by blast
  have "put_tail False False L (th\<lparr>buff := buf\<rparr>) db y c k d =
    (if y then put_sync L th3 db False False k z else put_async th3 db False k z)"
    unfolding put_tail_def th3(5) Let_def by (simp add: th3(1) z(1))
  then show ?thesis
    using run z(2) rv(2,3) th3 th(4-6) nn_send_calm [OF th(6)]
    by (intro exI [of _ z] exI [of _ buf])
      (simp add: put_sync_def put_write_def put_async_def dup_dbname_def queued_def, simp add: th3_def)
qed

lemma put_served:
  assumes ok: "lmdb_ok L obs" and cf: "\<not> commit_fails L" and calm: "calm obs th db"
    and k: "length k < 2 ^ 16" and d: "length d < 2 ^ 31"
    and b: "dyn_content (buff th) = key_bytes k @ value_bytes d @ rest"
  shows "served obs y c s (Put k d) th db rest (command_put L th y c s db)"
proof -
  obtain z buf where z: "encodes c d z" and buf: "dyn_inv buf" "dyn_content buf = rest"
    and run: "command_put L th y c s db =
      (if y then do {
         (r, e) \<leftarrow> database_put L (database db) (transaction th) False None k z;
         put_answer (th\<lparr>buff := buf\<rparr>) (db\<lparr>database := e\<rparr>) (r = YENOERR) }
       else Some (YENOERR, th\<lparr>buff := buf, outp := outp th @ response_bytes RESP_OK False False None\<rparr>,
         db\<lparr>wqueue := wqueue db @ [queued WRITE_PUT k z]\<rparr>))"
    using put_run [OF calm k d b] by blast
  show ?thesis
  proof (cases y)
    case False
    then show ?thesis
      using run write_queued [OF calm buf]
        answers.put_queued [OF False z, where a = "session_of obs th db" and k = k and serialized = s]
      by (simp add: session_of_def)
  next
    case True
    obtain r e where p: "database_put L (database db) (transaction th) False None k z = Some (r, e)"
      "txns (obs e) = txns (obs (database db))"
      "if r = YENOERR then transaction th = None \<and> mdb_key_ok k \<and>
         main_of (committed (obs e)) = (main_of (committed (obs (database db))))(k \<mapsto> z)
       else committed (obs e) = committed (obs (database db))"
      using calm_put [OF ok cf calm] by blast
    have res: "command_put L th y c s db =
        put_answer (th\<lparr>buff := buf\<rparr>) (db\<lparr>database := e\<rparr>) (r = YENOERR)"
      using run True p(1) by simp
    show ?thesis
      unfolding res
    proof (rule write_answered [OF calm buf p(2)])
      show "answers y c s (Put k d) (session_of obs th db) True
          (response_bytes (if r = YENOERR then RESP_OK else RESP_ERR_BAD_NAME) False False None)
          ((session_of obs th db)\<lparr>s_data := main_of (committed (obs e))\<rparr>)"
        using answers.put_done [OF True _ _ z, where a = "session_of obs th db" and k = k and serialized = s]
          answers.put_failed [OF True, where a = "session_of obs th db" and k = k and d = d
            and serialized = s and compressed = c]
          same_session_data [where obs = obs and th = th and db = db] p(3)
        by (cases "r = YENOERR") (simp_all add: session_of_def)
    qed
  qed
qed

lemma del_served:
  assumes ok: "lmdb_ok L obs" and cf: "\<not> commit_fails L" and calm: "calm obs th db"
    and k: "length k < 2 ^ 16" and b: "dyn_content (buff th) = key_bytes k @ rest"
  shows "served obs y c s (Del k) th db rest (command_del L th y c s db)"
proof -
  have th: "dyn_inv (buff th)" "0 \<le> fd th" "mem th = []" "sends th = []" "dbname th = None"
    "nn_sends db = []" using calm by (simp_all add: calm_def)
  obtain buf where rd: "read_name th = Some (Some k, th\<lparr>buff := buf\<rparr>)" "dyn_inv buf" "dyn_content buf = rest"
    using read_name_buffered [OF th(1-3) k b] by blast
  show ?thesis
  proof (cases y)
    case False
    let ?th = "th\<lparr>buff := buf, outp := outp th @ response_bytes RESP_OK False False None\<rparr>"
    have "command_del L th y c s db = Some (YENOERR, ?th, db\<lparr>wqueue := wqueue db @ [queued WRITE_DEL k []]\<rparr>)"
      using False rd(1) th(3-6) send_calm(1) [of "th\<lparr>buff := buf\<rparr>"] nn_send_calm [OF th(6)]
      by (simp add: command_del_def del_async_def dup_dbname_def queued_def)
    then show ?thesis
      using write_queued [OF calm rd(2,3)] answers.del_queued [OF False, where a = "session_of obs th db" and k = k and serialized = s and compressed = c]
      by (simp add: session_of_def)
  next
    case True
    let ?th = "th\<lparr>buff := buf\<rparr>"
    obtain r e where p: "database_del L (database db) (transaction th) None k = Some (r, e)"
      "txns (obs e) = txns (obs (database db))"
      "if r = YENOERR then transaction th = None \<and> main_of (committed (obs (database db))) k \<noteq> None \<and>
         main_of (committed (obs e)) = (main_of (committed (obs (database db))))(k := None)
       else committed (obs e) = committed (obs (database db))"
      using calm_del [OF ok cf calm] by blast
    have res: "command_del L th y c s db = put_answer ?th (db\<lparr>database := e\<rparr>) (r = YENOERR)"
      using True rd(1) th(3,5) p(1) by (simp add: command_del_def)
    show ?thesis
      unfolding res
    proof (rule write_answered [OF calm rd(2,3) p(2)])
      show "answers y c s (Del k) (session_of obs th db) True
          (response_bytes (if r = YENOERR then RESP_OK else RESP_ERR_BAD_NAME) False False None)
          ((session_of obs th db)\<lparr>s_data := main_of (committed (obs e))\<rparr>)"
        using answers.del_done [OF True, where a = "session_of obs th db" and k = k and serialized = s and compressed = c] p(3)
          answers.del_failed [OF True, where a = "session_of obs th db" and k = k and serialized = s and compressed = c] same_session_data [where obs = obs and th = th and db = db]
        by (cases "r = YENOERR") (simp_all add: session_of_def)
    qed
  qed
qed

lemma ping_served:
  assumes "calm obs th db" and "dyn_content (buff th) = rest"
  shows "served obs y c s Ping th db rest (command_ping L th y c s db)"
proof (rule servedI [where out = "response_bytes RESP_OK False False None"])
  let ?th = "th\<lparr>outp := outp th @ response_bytes RESP_OK False False None\<rparr>"
  show "command_ping L th y c s db = Some (YENOERR, ?th, db)"
    using assms(1) send_calm(1) [of th] by (simp add: command_ping_def calm_def)
  have "session_of obs ?th db = session_of obs th db" by (rule session_same) simp_all
  then show "answers y c s Ping (session_of obs th db) (YENOERR = YENOERR)
      (response_bytes RESP_OK False False None) (session_of obs ?th db)" by (simp add: answers.ping)
qed (use assms in \<open>simp_all add: calm_def owned_def\<close>)

lemma stop_served:
  assumes ok: "lmdb_ok L obs" and calm: "calm obs th db" and b: "dyn_content (buff th) = rest"
  shows "served obs y c s Stop th db rest (command_stop L th y c s db)"
proof (cases "transaction th")
  case None
  let ?th = "th\<lparr>outp := outp th @ response_bytes RESP_ERR_TRANSACTION False False None\<rparr>"
  have "session_of obs ?th db = session_of obs th db" by (rule session_same) simp_all
  moreover have "command_stop L th y c s db = Some (YEACCESS, ?th, db)"
    using None calm send_calm(2) [of th] by (simp add: command_stop_def calm_def)
  ultimately show ?thesis
    using None calm b answers.stop_failed [of "session_of obs th db" y c s]
    by (intro servedI [where r = YEACCESS and th' = ?th and db' = db]) (simp_all add: session_of_def calm_def owned_def)
next
  case (Some t)
  then obtain x where x: "txns (obs (database db)) t = Some x" using calm by (auto simp: calm_def owned_def)
  obtain e where e: "mdb_txn_abort L (database db) t = Some e"
    "obs e = (obs (database db))\<lparr>txns := (txns (obs (database db)))(t := None)\<rparr>"
    using abort_live [OF ok x] by blast
  let ?th = "th\<lparr>transaction := None, outp := outp th @ response_bytes RESP_OK False False None\<rparr>"
    and ?db = "db\<lparr>database := e\<rparr>"
  have "session_of obs ?th ?db = (session_of obs th db)\<lparr>s_snapshot := None\<rparr>"
    using e(2) by (simp add: session_of_def)
  moreover have "command_stop L th y c s db = Some (YENOERR, ?th, ?db)"
    using Some e(1) calm send_calm(1) [of "th\<lparr>transaction := None\<rparr>"]
    by (simp add: command_stop_def calm_def database_transaction_rollback_def)
  moreover have "s_snapshot (session_of obs th db) \<noteq> None" using Some x by (simp add: session_of_def)
  ultimately show ?thesis
    using calm b answers.stop [of "session_of obs th db" y c s]
    by (intro servedI [where r = YENOERR and th' = ?th and db' = ?db]) (simp_all add: calm_def owned_def)
qed

lemma start_served:
  assumes ok: "lmdb_ok L obs" and calm: "calm obs th db" and b: "dyn_content (buff th) = rest"
  shows "served obs y c s Start th db rest (command_start L th y c s db)"
proof -
  have own: "owned obs th (database db)" using calm by (simp add: calm_def)
  obtain e1 where e1: "(case transaction th of None \<Rightarrow> Some (database db)
      | Some t \<Rightarrow> database_transaction_rollback L (database db) t) = Some e1"
    "committed (obs e1) = committed (obs (database db))"
  proof (cases "transaction th")
    case (Some t)
    then obtain x where "txns (obs (database db)) t = Some x" using own by (auto simp: owned_def)
    then obtain e where "mdb_txn_abort L (database db) t = Some e"
      "obs e = (obs (database db))\<lparr>txns := (txns (obs (database db)))(t := None)\<rparr>"
      using abort_live [OF ok] by blast
    then show ?thesis using that [of e] Some by (simp add: database_transaction_rollback_def)
  qed (use that in simp)
  from ok show ?thesis
  proof (cases rule: start_cases [where e = e1 and ro = True])
    case (begun t e2)
    let ?th = "th\<lparr>transaction := Some t, outp := outp th @ response_bytes RESP_OK False False None\<rparr>"
      and ?db = "db\<lparr>database := e2\<rparr>"
    have "session_of obs ?th ?db = (session_of obs th db)\<lparr>s_snapshot := Some (s_data (session_of obs th db))\<rparr>"
      using begun(3) e1(2) by (simp add: session_of_def)
    moreover have "command_start L th y c s db = Some (YENOERR, ?th, ?db)"
      using e1(1) begun(1) calm send_calm(1) [of "th\<lparr>transaction := Some t\<rparr>"]
      by (simp add: command_start_def calm_def)
    ultimately show ?thesis
      using calm b begun(3) answers.start [of y c s "session_of obs th db"]
      by (intro servedI [where r = YENOERR and th' = ?th and db' = ?db]) (simp_all add: calm_def owned_def)
  next
    case (refused e2)
    let ?th = "th\<lparr>transaction := None, outp := outp th @ response_bytes RESP_ERR_TRANSACTION False False None\<rparr>"
      and ?db = "db\<lparr>database := e2\<rparr>"
    have "session_of obs ?th ?db = (session_of obs th db)\<lparr>s_snapshot := None\<rparr>"
      using refused(2) e1(2) by (simp add: session_of_def)
    moreover have "command_start L th y c s db = Some (YEACCESS, ?th, ?db)"
      using e1(1) refused(1) calm send_calm(2) [of "th\<lparr>transaction := None\<rparr>"]
      by (simp add: command_start_def calm_def)
    ultimately show ?thesis
      using calm b answers.start_failed [of y c s "session_of obs th db"]
      by (intro servedI [where r = YEACCESS and th' = ?th and db' = ?db]) (simp_all add: calm_def owned_def)
  qed
qed

section \<open>One request of a client\<close>

text \<open>The command byte of a request with its options.\<close>

definition req_byte :: "bool \<Rightarrow> bool \<Rightarrow> request \<Rightarrow> byte" where
  "req_byte sync compressed req =
     (let b = proto_code (req_command req); b = (if sync then REQUEST_ADD_SYNC b else b) in
      if compressed then REQUEST_ADD_COMPRESSED b else b)"

lemma req_byte_fields:
  "REQUEST_COMMAND (req_byte y c req) = proto_code (req_command req)"
  "REQUEST_HAS_SYNC (req_byte y c req) = y" "REQUEST_HAS_COMPRESSED (req_byte y c req) = c"
  "\<not> REQUEST_HAS_SERIALIZED (req_byte y c req)"
  by (simp_all add: req_byte_def Let_def proto_simps)

text \<open>The handler that the table has for a request.\<close>

fun req_handler :: "request \<Rightarrow> 'e lmdb \<Rightarrow> tcp_thread_t \<Rightarrow> bool \<Rightarrow> bool \<Rightarrow> bool \<Rightarrow> 'e finedb_t \<Rightarrow> 'e handler_result" where
  "req_handler Ping = command_ping"
| "req_handler (Get k) = command_get"
| "req_handler (Del k) = command_del"
| "req_handler (Put k d) = command_put"
| "req_handler Start = command_start"
| "req_handler Stop = command_stop"

lemma req_dispatch: "commands ! unat (proto_code (req_command req)) = Some (req_handler req)"
  by (cases req) (simp_all add: commands_def)

definition decodable :: "bool \<Rightarrow> request \<Rightarrow> session \<Rightarrow> bool" where
  "decodable c req a \<longleftrightarrow> (\<forall>k z. req = Get k \<longrightarrow> visible a k = Some z \<longrightarrow> (\<exists>d. decodes_to c z d))"

lemma handler_served:
  assumes ok: "lmdb_ok L obs" and cf: "\<not> commit_fails L" and calm: "calm obs th db"
    and req: "req_ok req" "dyn_content (buff th) = req_payload req @ rest"
    and dec: "decodable c req (session_of obs th db)"
  shows "served obs y c s req th db rest (req_handler req L th y c s db)"
proof (cases req)
  case (Get k)
  then show ?thesis using req dec get_served [OF ok calm] by (simp add: decodable_def)
next
  case (Del k)
  then show ?thesis using req del_served [OF ok cf calm] by simp
next
  case (Put k d)
  then show ?thesis using req put_served [OF ok cf calm] by simp
qed (use req ping_served [OF calm] start_served [OF ok calm] stop_served [OF ok calm] in simp_all)

lemma request_dispatch:
  assumes calm: "calm obs th db" and empty: "dyn_content (buff th) = []"
    and i: "inp th = RecvData (req_byte y c req # req_payload req) # r" "length (req_payload req) < 8196"
  shows "\<exists>buf. dyn_inv buf \<and> dyn_content buf = req_payload req \<and>
    request_step L th db = do {
      (r', th', db') \<leftarrow> req_handler req L (th\<lparr>inp := r, buff := buf\<rparr>) (transaction th \<noteq> None \<or> y) c False db;
      Some (r' = YENOERR, th', db') }"
proof -
  let ?b = "req_byte y c req"
  have th: "dyn_inv (buff th)" "mem th = []" "0 \<le> fd th" using calm by (simp_all add: calm_def)
  obtain buf where rd: "read_field th 1 = Some (Some [?b], th\<lparr>inp := r, buff := buf\<rparr>)"
    "dyn_inv buf" "dyn_content buf = req_payload req"
    using read_field_segment [OF th(1) empty th(2,3), of "[?b]" "req_payload req" r 1] i by auto
  then show ?thesis
    by (intro exI [of _ buf]) (simp add: request_step_def execute_def req_byte_fields req_dispatch)
qed

lemma request_served:
  assumes ok: "lmdb_ok L obs" and cf: "\<not> commit_fails L" and calm: "calm obs th db"
    and empty: "dyn_content (buff th) = []"
    and i: "inp th = RecvData (req_byte y c req # req_payload req) # r" "length (req_payload req) < 8196"
    and req: "req_ok req" "decodable c req (session_of obs th db)"
  shows "\<exists>go th' db' out. request_step L th db = Some (go, th', db') \<and>
    answers (transaction th \<noteq> None \<or> y) c False req (session_of obs th db) go out (session_of obs th' db') \<and>
    calm obs th' db' \<and> outp th' = outp th @ out \<and> inp th' = r \<and> dyn_content (buff th') = []"
proof -
  obtain buf where buf: "dyn_inv buf" "dyn_content buf = req_payload req" and run:
    "request_step L th db = do {
      (r', th', db') \<leftarrow> req_handler req L (th\<lparr>inp := r, buff := buf\<rparr>) (transaction th \<noteq> None \<or> y) c False db;
      Some (r' = YENOERR, th', db') }"
    using request_dispatch [OF calm empty i] by blast
  let ?th = "th\<lparr>inp := r, buff := buf\<rparr>"
  have calm1: "calm obs ?th db" using calm buf(1) by (simp add: calm_def owned_def)
  have sess: "session_of obs ?th db = session_of obs th db" by (rule session_same) simp_all
  have "served obs (transaction th \<noteq> None \<or> y) c False req ?th db []
      (req_handler req L ?th (transaction th \<noteq> None \<or> y) c False db)"
    using handler_served [OF ok cf calm1 req(1), of "[]"] buf(2) req(2) sess by simp
  then obtain r' th' db' out where h:
    "req_handler req L ?th (transaction th \<noteq> None \<or> y) c False db = Some (r', th', db')"
    "answers (transaction th \<noteq> None \<or> y) c False req (session_of obs th db) (r' = YENOERR) out
       (session_of obs th' db')"
    "calm obs th' db'" "outp th' = outp th @ out" "inp th' = r" "dyn_content (buff th') = []"
    unfolding served_def sess by auto
  then show ?thesis using run by auto
qed

section \<open>The writer thread\<close>

fun msg_effect :: "kv \<Rightarrow> writer_msg_t \<times> bool \<Rightarrow> kv" where
  "msg_effect m (msg, ok) =
     (if \<not> ok then m
      else case msg_type msg of
        WRITE_PUT \<Rightarrow> m(msg_name msg \<mapsto> msg_data msg)
      | WRITE_DEL \<Rightarrow> m(msg_name msg := None)
      | WRITE_DROP \<Rightarrow> m)"

lemma writer_step_ok:
  assumes ok: "lmdb_ok L obs" and cf: "\<not> commit_fails L"
    and q: "wqueue db = msg # rest" "msg_dbname msg = None"
  shows "\<exists>db' b. writer_step L db = Some db' \<and> wqueue db' = rest \<and> nn_sends db' = nn_sends db \<and>
    txns (obs (database db')) = txns (obs (database db)) \<and>
    main_of (committed (obs (database db'))) = msg_effect (main_of (committed (obs (database db)))) (msg, b)"
proof (cases "msg_type msg")
  case WRITE_PUT
  obtain r e where p: "database_put L (database db) None (msg_create_only msg) None (msg_name msg) (msg_data msg) = Some (r, e)"
    using database_put_own [OF ok, where e = "database db" and co = "msg_create_only msg" and name = None
        and k = "msg_name msg" and v = "msg_data msg"] cf
    by (cases "database_put L (database db) None (msg_create_only msg) None (msg_name msg) (msg_data msg)") auto
  then show ?thesis
    using database_put_own [OF ok, where e = "database db" and co = "msg_create_only msg" and name = None
        and k = "msg_name msg" and v = "msg_data msg"] WRITE_PUT q
    by (auto simp: writer_step_def same_data_iff main_of_def split: if_splits
        intro!: exI [of _ "r = YENOERR"])
next
  case WRITE_DEL
  obtain r e where p: "database_del L (database db) None None (msg_name msg) = Some (r, e)"
    using database_del_own [OF ok, where e = "database db" and name = None and k = "msg_name msg"] cf
    by (cases "database_del L (database db) None None (msg_name msg)") auto
  then show ?thesis
    using database_del_own [OF ok, where e = "database db" and name = None and k = "msg_name msg"] WRITE_DEL q
    by (auto simp: writer_step_def same_data_iff main_of_def split: if_splits
        intro!: exI [of _ "r = YENOERR"])
next
  case WRITE_DROP
  then show ?thesis using q by (simp add: writer_step_def)
qed

lemma writer_loop_ok:
  assumes ok: "lmdb_ok L obs" and cf: "\<not> commit_fails L"
  shows "\<forall>msg \<in> set (wqueue db). msg_dbname msg = None \<Longrightarrow>
    \<exists>db' oks. writer_loop (length (wqueue db)) L db = Some db' \<and> wqueue db' = [] \<and>
      length oks = length (wqueue db) \<and> txns (obs (database db')) = txns (obs (database db)) \<and>
      main_of (committed (obs (database db'))) =
        foldl msg_effect (main_of (committed (obs (database db)))) (zip (wqueue db) oks)"
proof (induction "wqueue db" arbitrary: db)
  case Nil
  then show ?case by auto
next
  case (Cons msg rest)
  have q: "wqueue db = msg # rest" using Cons(2) by simp
  then have "msg_dbname msg = None" using Cons.prems by simp
  from writer_step_ok [OF ok cf q this] obtain db1 b where s:
    "writer_step L db = Some db1" "wqueue db1 = rest" "txns (obs (database db1)) = txns (obs (database db))"
    "main_of (committed (obs (database db1))) = msg_effect (main_of (committed (obs (database db)))) (msg, b)"
    by blast
  have "\<forall>msg \<in> set (wqueue db1). msg_dbname msg = None" using Cons.prems q s(2) by simp
  from Cons.hyps(1) [OF s(2) [symmetric] this] obtain db' oks where l:
    "writer_loop (length (wqueue db1)) L db1 = Some db'" "wqueue db' = []" "length oks = length (wqueue db1)"
    "txns (obs (database db')) = txns (obs (database db1))"
    "main_of (committed (obs (database db'))) =
       foldl msg_effect (main_of (committed (obs (database db1)))) (zip (wqueue db1) oks)"
    by blast
  show ?case
    using q s l by (intro exI [of _ db'] exI [of _ "b # oks"]) simp
qed

section \<open>Properties\<close>

lemma zipped_inject: "zipped d z \<Longrightarrow> zipped d' z \<Longrightarrow> d = d'"
  by (auto simp: zipped_def)

lemma response_bytes_plain:
  "response_bytes RESP_OK False False None = [1]" "response_bytes RESP_ERR_BAD_NAME False False None = [6]"
  "response_bytes RESP_ERR_SERVER False False None = [3]"
  "response_bytes RESP_ERR_TRANSACTION False False None = [7]"
  by (simp_all add: response_bytes_def response_code_def)

text \<open>A thread that serves the socket 3, and an empty database.\<close>

definition thread_on :: "recv_event list \<Rightarrow> tcp_thread_t" where
  "thread_on input = \<lparr>inp = input, outp = [], sends = [], mem = [], fd = 3, dbname = None,
     transaction = None, buff = ydynabin_zero\<rparr>"

definition empty_db :: "mem_env finedb_t" where
  "empty_db = \<lparr>database = mem_empty, wqueue = [], nn_sends = []\<rparr>"

lemma calm_thread_on: "calm mem_abs (thread_on input) empty_db"
  by (simp add: calm_def thread_on_def empty_db_def owned_def)

lemma empty_session: "session_of mem_abs (thread_on input) empty_db =
    \<lparr>s_data = Map.empty, s_snapshot = None, s_queue = []\<rparr>"
  by (simp add: session_of_def thread_on_def empty_db_def main_of_def mem_abs_def mem_empty_def mem_kv_def)

text \<open>
  C1: The server does what the protocol specifies. For every request of a client that arrives in one
  segment, on a connection that uses the default database and whose system calls succeed, one
  round of the request loop terminates without undefined behaviour, consumes exactly the bytes of
  the request, sends one of the answers that the specification \<open>answers\<close> allows, and changes
  what the client can observe of the database, of its transaction and of the write queue
  accordingly. Inside a transaction every request is synchronous.
\<close>

theorem request_refines:
  assumes "lmdb_ok L obs" and "\<not> commit_fails L" and "calm obs th db"
    and "dyn_content (buff th) = []"
    and "inp th = RecvData (req_byte sync compressed req # req_payload req) # r"
    and "length (req_payload req) < 8196" and "req_ok req"
    and "decodable compressed req (session_of obs th db)"
  shows "\<exists>go th' db' out. request_step L th db = Some (go, th', db') \<and>
    answers (transaction th \<noteq> None \<or> sync) compressed False req (session_of obs th db) go out
      (session_of obs th' db') \<and>
    calm obs th' db' \<and> outp th' = outp th @ out \<and> inp th' = r \<and> dyn_content (buff th') = []"
  using request_served [OF assms(1-6) assms(7,8)] .

theorem request_refines_witness:
  "\<exists>go th' db' out. request_step mem_lmdb
      (thread_on [RecvData (req_byte True False (Put [1] [2, 2, 2]) # req_payload (Put [1] [2, 2, 2]))]) empty_db =
      Some (go, th', db') \<and>
    answers True False False (Put [1] [2, 2, 2]) \<lparr>s_data = Map.empty, s_snapshot = None, s_queue = []\<rparr> go out
      (session_of mem_abs th' db')"
  using request_refines [OF mem_lmdb_ok mem_commits calm_thread_on, of
      "[RecvData (req_byte True False (Put [1] [2, 2, 2]) # req_payload (Put [1] [2, 2, 2]))]"
      True False "Put [1] [2, 2, 2]" "[]"]
  by (auto simp: empty_session decodable_def)
    (auto simp: thread_on_def key_bytes_def value_bytes_def)


text \<open>A connection that stores a value and reads it back.\<close>

definition put_get_input :: "recv_event list" where
  "put_get_input = [RecvData (req_byte True False (Put [1] [2, 3]) # key_bytes [1] @ value_bytes [2, 3]),
     RecvData (req_byte False False (Get [1]) # key_bytes [1])]"

lemma mem_put_empty: "database_put mem_lmdb mem_empty None False None [1] z =
    Some (YENOERR, mem_empty\<lparr>me_dbs := [(None, [([1], z)])]\<rparr>)"
  by (simp add: database_put_def transaction_init_def database_transaction_start_def end_of_process_def
      database_transaction_commit_def mem_lmdb_def mem_empty_def mem_set_def mem_store_def mem_find_def
      mem_dbi_open_def mem_dbi_close_def mem_handle_def mem_kv_def mdb_key_ok_def)

lemma put_get_first:
  "\<exists>go th1 db1. request_step mem_lmdb (thread_on put_get_input) empty_db = Some (go, th1, db1) \<and>
    outp th1 = outp (thread_on put_get_input) @ response_bytes RESP_OK False False None"
proof -
  let ?th = "thread_on put_get_input"
  obtain buf where buf: "dyn_inv buf" "dyn_content buf = req_payload (Put [1] [2, 3])" and run:
    "request_step mem_lmdb ?th empty_db = do {
      (r', th', db') \<leftarrow> command_put mem_lmdb (?th\<lparr>inp := tl put_get_input, buff := buf\<rparr>) True False False empty_db;
      Some (r' = YENOERR, th', db') }"
    using request_dispatch [OF calm_thread_on, of put_get_input True False "Put [1] [2, 3]" "tl put_get_input"
        mem_lmdb]
    by (auto simp: put_get_input_def thread_on_def key_bytes_def value_bytes_def)
  have "calm mem_abs (?th\<lparr>inp := tl put_get_input, buff := buf\<rparr>) empty_db"
    using calm_thread_on buf(1) by (simp add: calm_def owned_def)
  from put_run [OF this, of "[1]" "[2, 3]" "[]" False mem_lmdb True False] buf(2) run
  show ?thesis
    by (auto simp: empty_db_def thread_on_def mem_put_empty answer_calm)
qed


text \<open>
  C38: Transactions of the server cannot write. START opens a read-only transaction, and inside it every
  PUT and every DEL is answered with \<^verbatim>\<open>RESP_ERR_BAD_NAME\<close> and changes nothing.
\<close>

theorem transaction_rejects_writes:
  assumes "lmdb_ok L obs" and "\<not> commit_fails L" and "calm obs th db" and "transaction th = Some t"
    and "dyn_content (buff th) = []" and "req = Put k d \<or> req = Del k" and "req_ok req"
    and "inp th = RecvData (req_byte sync compressed req # req_payload req) # r"
    and "length (req_payload req) < 8196"
  shows "\<exists>th' db'. request_step L th db = Some (True, th', db') \<and>
    outp th' = outp th @ response_bytes RESP_ERR_BAD_NAME False False None \<and>
    session_of obs th' db' = session_of obs th db"
proof -
  have "decodable compressed req (session_of obs th db)" using assms(6) by (auto simp: decodable_def)
  then obtain go th' db' out where s: "request_step L th db = Some (go, th', db')"
    "answers True compressed False req (session_of obs th db) go out (session_of obs th' db')"
    "outp th' = outp th @ out"
    using request_served [OF assms(1-3,5,8,9,7)] assms(4) by auto
  obtain x where "txns (obs (database db)) t = Some x" using assms(3,4) by (auto simp: calm_def owned_def)
  then have "s_snapshot (session_of obs th db) \<noteq> None" using assms(4) by (simp add: session_of_def)
  then have "go \<and> out = response_bytes RESP_ERR_BAD_NAME False False None \<and>
      session_of obs th' db' = session_of obs th db"
    using s(2) assms(6) by (auto elim: answers_putE answers_delE)
  then show ?thesis using s(1,3) by auto
qed

theorem transaction_rejects_writes_witness:
  "\<exists>th' db'. request_step mem_lmdb
      ((thread_on [RecvData (req_byte False False (Del [1]) # req_payload (Del [1]))])\<lparr>transaction := Some 2\<rparr>)
      (empty_db\<lparr>database := mem_empty\<lparr>me_txns := [(2, \<lparr>mt_readonly = True, mt_view = [], mt_touched = []\<rparr>)]\<rparr>\<rparr>) =
      Some (True, th', db') \<and>
    outp th' = [6]"
  using transaction_rejects_writes [OF mem_lmdb_ok mem_commits, of
      "(thread_on [RecvData (req_byte False False (Del [1]) # req_payload (Del [1]))])\<lparr>transaction := Some 2\<rparr>"
      "empty_db\<lparr>database := mem_empty\<lparr>me_txns := [(2, \<lparr>mt_readonly = True, mt_view = [], mt_touched = []\<rparr>)]\<rparr>\<rparr>"
      2 "Del [1]" "[1]" "[]" False False "[]"]
  by (fastforce simp: calm_def thread_on_def empty_db_def owned_def mem_txns_eq mem_txn_abs_def
      key_bytes_def response_bytes_plain)



end
