(* ===== verification/System.thy ===== *)
theory System
  imports Requests
begin

text \<open>
  The running server: the connection threads, the accepted connections that wait for one of them
  (\<^verbatim>\<open>server_loop\<close> and \<^verbatim>\<open>connection_thread_push_socket\<close> hand them over), and the writer thread, over
  the shared environment and write queue. A step is one accepted connection, one thread that
  takes up a connection, one request of one thread, the end of one connection, or one message of
  the writer; the steps of different threads interleave in any order.
\<close>

section \<open>Connections\<close>

lemma disconnect_ok:
  assumes ok: "lmdb_ok L obs" and own: "owned obs th e"
    and run: "connection_thread_disconnect L th e = Some (th', e')" and "fd th \<noteq> -1"
  shows "fd th' = -1 \<and> dbname th' = None \<and> transaction th' = None \<and> buff th' = buff th \<and>
    txns (obs e') = others obs th e"
proof (cases "transaction th")
  case None
  then show ?thesis
    using run assms(4) by (auto simp: connection_thread_disconnect_def others_def)
next
  case (Some t)
  then obtain e1 where e1: "database_transaction_rollback L e t = Some e1"
    using run assms(4) by (auto simp: connection_thread_disconnect_def bind_eq_Some_conv)
  then have "th' = th\<lparr>transaction := None, fd := -1, dbname := None\<rparr>" "e' = e1"
    using run assms(4) Some by (simp_all add: connection_thread_disconnect_def)
  then show ?thesis using rollback_own [OF ok Some own e1] by simp
qed

text \<open>The end of a connection is always defined.\<close>

lemma disconnect_defined:
  assumes "lmdb_ok L obs" and "owned obs th e"
  shows "connection_thread_disconnect L th e \<noteq> None"
proof (cases "transaction th")
  case (Some t)
  then obtain x where "txns (obs e) t = Some x" using assms(2) by (auto simp: owned_def)
  then obtain e' where "mdb_txn_abort L e t = Some e'" using abort_live [OF assms(1)] by blast
  then show ?thesis using Some by (simp add: connection_thread_disconnect_def database_transaction_rollback_def)
qed (simp add: connection_thread_disconnect_def)

section \<open>Steps\<close>

record 'e sys =
  threads :: "tcp_thread_t list"
  backlog :: "(int \<times> recv_event list) list"
  shared :: "'e finedb_t"

text \<open>An idle thread takes up a connection: \<open>th\<close> becomes a thread on the new socket with an empty buffer.\<close>

definition take_up :: "tcp_thread_t \<Rightarrow> int \<Rightarrow> recv_event list \<Rightarrow> tcp_thread_t" where
  "take_up th new_fd input = th\<lparr>fd := new_fd, inp := input, outp := [], buff := ydynabin_zero\<rparr>"

inductive sys_step :: "'e lmdb \<Rightarrow> 'e sys \<Rightarrow> 'e sys \<Rightarrow> bool" for L where
  accept: "0 \<le> f \<Longrightarrow> sys_step L s (s\<lparr>backlog := backlog s @ [(f, input)]\<rparr>)"
| take: "i < length (threads s) \<Longrightarrow> fd (threads s ! i) = -1 \<Longrightarrow> backlog s = (f, input) # rest \<Longrightarrow> 0 \<le> f \<Longrightarrow>
    sys_step L s (s\<lparr>threads := (threads s)[i := take_up (threads s ! i) f input], backlog := rest\<rparr>)"
| request: "i < length (threads s) \<Longrightarrow> 0 \<le> fd (threads s ! i) \<Longrightarrow>
    request_step L (threads s ! i) (shared s) = Some (True, th, db) \<Longrightarrow>
    sys_step L s (s\<lparr>threads := (threads s)[i := th], shared := db\<rparr>)"
| finish: "i < length (threads s) \<Longrightarrow> 0 \<le> fd (threads s ! i) \<Longrightarrow>
    request_step L (threads s ! i) (shared s) = Some (False, th, db) \<Longrightarrow>
    connection_thread_disconnect L th (database db) = Some (th', e) \<Longrightarrow>
    sys_step L s (s\<lparr>threads := (threads s)[i := th'\<lparr>buff := ydynabin_zero\<rparr>], shared := db\<lparr>database := e\<rparr>\<rparr>)"
| writer: "writer_step L (shared s) = Some db \<Longrightarrow> sys_step L s (s\<lparr>shared := db\<rparr>)"

inductive sys_reach :: "'e lmdb \<Rightarrow> 'e sys \<Rightarrow> 'e sys \<Rightarrow> bool" for L where
  here: "sys_reach L s s"
| there: "sys_reach L s s1 \<Longrightarrow> sys_step L s1 s2 \<Longrightarrow> sys_reach L s s2"

section \<open>The invariant\<close>

text \<open>
  The live transactions are exactly those of the threads, each of one thread, and they only read;
  a thread without a connection has none, and no database is selected on it.
\<close>

definition thread_ok :: "tcp_thread_t \<Rightarrow> bool" where
  "thread_ok th \<longleftrightarrow> dyn_inv (buff th) \<and>
     (fd th < 0 \<longrightarrow> fd th = -1 \<and> transaction th = None \<and> dbname th = None)"

definition sys_inv :: "('e \<Rightarrow> mdb_abs) \<Rightarrow> 'e sys \<Rightarrow> bool" where
  "sys_inv obs s \<longleftrightarrow>
     (\<forall>i < length (threads s). thread_ok (threads s ! i)) \<and>
     (\<forall>i < length (threads s). owned obs (threads s ! i) (database (shared s))) \<and>
     (\<forall>i < length (threads s). \<forall>j < length (threads s). \<forall>t.
        transaction (threads s ! i) = Some t \<longrightarrow> transaction (threads s ! j) = Some t \<longrightarrow> i = j) \<and>
     (\<forall>t. txns (obs (database (shared s))) t \<noteq> None \<longrightarrow>
        (\<exists>i < length (threads s). transaction (threads s ! i) = Some t))"

lemma sys_invD:
  assumes "sys_inv obs s"
  shows "i < length (threads s) \<Longrightarrow> thread_ok (threads s ! i)"
    and "i < length (threads s) \<Longrightarrow> owned obs (threads s ! i) (database (shared s))"
    and "i < length (threads s) \<Longrightarrow> j < length (threads s) \<Longrightarrow> transaction (threads s ! i) = Some t \<Longrightarrow>
      transaction (threads s ! j) = Some t \<Longrightarrow> i = j"
    and "txns (obs (database (shared s))) t \<noteq> None \<Longrightarrow>
      \<exists>i < length (threads s). transaction (threads s ! i) = Some t"
  using assms unfolding sys_inv_def by blast+

lemma sys_invI:
  assumes "\<And>i. i < length (threads s) \<Longrightarrow> thread_ok (threads s ! i)"
    and "\<And>i. i < length (threads s) \<Longrightarrow> owned obs (threads s ! i) (database (shared s))"
    and "\<And>i j t. i < length (threads s) \<Longrightarrow> j < length (threads s) \<Longrightarrow> transaction (threads s ! i) = Some t \<Longrightarrow>
      transaction (threads s ! j) = Some t \<Longrightarrow> i = j"
    and "\<And>t. txns (obs (database (shared s))) t \<noteq> None \<Longrightarrow>
      \<exists>i < length (threads s). transaction (threads s ! i) = Some t"
  shows "sys_inv obs s"
  using assms unfolding sys_inv_def by blast

lemma writer_frame:
  assumes ok: "lmdb_ok L obs" and run: "writer_step L db = Some db'"
  shows "txns (obs (database db')) = txns (obs (database db))"
proof (cases "wqueue db")
  case Nil
  then show ?thesis using run by (simp add: writer_step_def)
next
  case (Cons msg rest)
  then show ?thesis
    using run own_put_same [OF ok, where th = "\<lparr>inp = [], outp = [], sends = [], mem = [], fd = -1,
        dbname = None, transaction = None, buff = ydynabin_zero\<rparr>"]
      own_del_same [OF ok, where th = "\<lparr>inp = [], outp = [], sends = [], mem = [], fd = -1,
        dbname = None, transaction = None, buff = ydynabin_zero\<rparr>"]
    by (cases "msg_type msg")
      (auto simp: writer_step_def bind_eq_Some_conv owned_def)
qed

text \<open>
  What a step of thread \<open>i\<close> must guarantee: the thread is in order afterwards, and the other
  transactions are untouched.
\<close>

lemma sys_inv_thread:
  assumes inv: "sys_inv obs s" and i: "i < length (threads s)"
    and th: "thread_ok th" "owned obs th (database db)"
    and oth: "others obs th (database db) = others obs (threads s ! i) (database (shared s))"
  shows "sys_inv obs (s\<lparr>threads := (threads s)[i := th], shared := db\<rparr>)"
proof -
  let ?ts = "(threads s)[i := th]" and ?T = "txns (obs (database (shared s)))" and ?T' = "txns (obs (database db))"
  have same: "?T' t = ?T t" if "transaction th \<noteq> Some t" "transaction (threads s ! i) \<noteq> Some t" for t
    using fun_cong [OF oth, of t] that by (simp add: others_def)
  have gone: "?T' t = None" if "transaction th \<noteq> Some t" "transaction (threads s ! i) = Some t" for t
    using fun_cong [OF oth, of t] that by (simp add: others_def)
  have new: "?T t = None" if "transaction th = Some t" "transaction (threads s ! i) \<noteq> Some t" for t
    using fun_cong [OF oth, of t] that by (simp add: others_def)
  have free: "transaction th \<noteq> Some t" if "j < length (threads s)" "j \<noteq> i" "transaction (threads s ! j) = Some t" for j t
  proof
    assume "transaction th = Some t"
    moreover have "?T t \<noteq> None" using sys_invD(2) [OF inv that(1)] that(3) by (auto simp: owned_def)
    ultimately have "transaction (threads s ! i) = Some t" using new [of t] by metis
    then show False using sys_invD(3) [OF inv i that(1)] that(2,3) by blast
  qed
  have own: "owned obs (?ts ! j) (database db)" if j: "j < length (threads s)" for j
  proof (cases "j = i")
    case True
    then show ?thesis using th(2) i by simp
  next
    case False
    have "owned obs (threads s ! j) (database (shared s))" by (rule sys_invD(2) [OF inv j])
    moreover have "?T' t = ?T t" if "transaction (threads s ! j) = Some t" for t
      using same [of t] free [OF j False that] sys_invD(3) [OF inv i j _ that] False by blast
    ultimately show ?thesis using False by (simp add: owned_def)
  qed
  have "\<exists>j < length (threads s). transaction (?ts ! j) = Some t" if "?T' t \<noteq> None" for t
  proof (cases "transaction th = Some t")
    case True
    then show ?thesis using i by (intro exI [of _ i]) simp
  next
    case False
    have ni: "transaction (threads s ! i) \<noteq> Some t" using gone [OF False] that by blast
    then have "?T t \<noteq> None" using same [OF False] that by simp
    then obtain j where "j < length (threads s)" "transaction (threads s ! j) = Some t"
      using sys_invD(4) [OF inv] by blast
    then show ?thesis using ni by (cases "j = i") (auto intro!: exI [of _ j])
  qed
  moreover have "j = k" if jk: "j < length (threads s)" "k < length (threads s)"
    "transaction (?ts ! j) = Some t" "transaction (?ts ! k) = Some t" for j k t
    using jk free [OF jk(1)] free [OF jk(2)] sys_invD(3) [OF inv jk(1,2)]
    by (cases "j = i"; cases "k = i") auto
  moreover have "thread_ok (?ts ! j)" if "j < length (threads s)" for j
    using that sys_invD(1) [OF inv that] th(1) by (cases "j = i") auto
  ultimately show ?thesis using own by (intro sys_invI) simp_all
qed

lemma thread_ok_keep: "dyn_inv (buff th) \<Longrightarrow> 0 \<le> fd th \<Longrightarrow> thread_ok th"
  by (simp add: thread_ok_def)

lemma step_request:
  assumes ok: "lmdb_ok L obs" and inv: "sys_inv obs s" and i: "i < length (threads s)"
    and f: "0 \<le> fd (threads s ! i)" and run: "request_step L (threads s ! i) (shared s) = Some (go, th, db)"
  shows "thread_ok th \<and> owned obs th (database db) \<and> fd th = fd (threads s ! i) \<and>
    others obs th (database db) = others obs (threads s ! i) (database (shared s))"
proof -
  have "dyn_inv (buff (threads s ! i))" using sys_invD(1) [OF inv i] by (simp add: thread_ok_def)
  from request_handled [OF ok this sys_invD(2) [OF inv i] run] show ?thesis
    using f thread_ok_keep by (auto simp: handled_def)
qed

lemma sys_step_inv:
  assumes ok: "lmdb_ok L obs" and "sys_step L s s'" and inv: "sys_inv obs s"
  shows "sys_inv obs s'"
  using assms(2)
proof cases
  case (accept f input)
  then show ?thesis using inv by (simp add: sys_inv_def)
next
  case (take i f input rest)
  let ?th = "take_up (threads s ! i) f input"
  have "thread_ok ?th" using take(5) by (simp add: thread_ok_def take_up_def)
  moreover have "owned obs ?th (database (shared s))"
    "others obs ?th (database (shared s)) = others obs (threads s ! i) (database (shared s))"
    using sys_invD(2) [OF inv take(2)] by (simp_all add: owned_def others_def take_up_def)
  ultimately have "sys_inv obs (s\<lparr>threads := (threads s)[i := ?th], shared := shared s\<rparr>)"
    by (rule sys_inv_thread [OF inv take(2)])
  then show ?thesis using take(1) by (simp add: sys_inv_def)
next
  case (request i th db)
  then show ?thesis
    using sys_inv_thread [OF inv request(2)] step_request [OF ok inv request(2-4)] by simp
next
  case (finish i th db th' e)
  have th: "thread_ok th" "owned obs th (database db)" "fd th = fd (threads s ! i)"
    "others obs th (database db) = others obs (threads s ! i) (database (shared s))"
    using step_request [OF ok inv finish(2-4)] by simp_all
  have "fd th \<noteq> -1" using th(3) finish(3) by simp
  note d = disconnect_ok [OF ok th(2) finish(5) this]
  have "thread_ok (th'\<lparr>buff := ydynabin_zero\<rparr>)" using d by (simp add: thread_ok_def)
  moreover have "owned obs (th'\<lparr>buff := ydynabin_zero\<rparr>) (database (db\<lparr>database := e\<rparr>))"
    "others obs (th'\<lparr>buff := ydynabin_zero\<rparr>) (database (db\<lparr>database := e\<rparr>)) =
     others obs (threads s ! i) (database (shared s))"
    using d th(4) by (simp_all add: owned_def others_def)
  ultimately show ?thesis unfolding finish(1) by (rule sys_inv_thread [OF inv finish(2)])
next
  case (writer db)
  then show ?thesis using inv writer_frame [OF ok writer(2)] by (simp add: sys_inv_def owned_def)
qed

lemma sys_reach_inv:
  assumes "lmdb_ok L obs"
  shows "sys_reach L s s' \<Longrightarrow> sys_inv obs s \<Longrightarrow> sys_inv obs s'"
  by (induction rule: sys_reach.induct) (auto intro: sys_step_inv [OF assms])

section \<open>Properties\<close>

text \<open>The server after its start: idle threads, and an environment without transactions.\<close>

definition initial :: "('e \<Rightarrow> mdb_abs) \<Rightarrow> 'e sys \<Rightarrow> bool" where
  "initial obs s \<longleftrightarrow> (\<forall>th \<in> set (threads s). connection_thread_new True True = Some (Some th)) \<and>
     txns (obs (database (shared s))) = Map.empty"

lemma initial_inv:
  assumes "initial obs s"
  shows "sys_inv obs s"
proof -
  have th: "threads s ! i = \<lparr>inp = [], outp = [], sends = [], mem = [],
      fd = -1, dbname = None, transaction = None, buff = ydynabin_zero\<rparr>" if "i < length (threads s)" for i
    using assms nth_mem [OF that] by (auto simp: initial_def connection_thread_new_def)
  show ?thesis
    using assms by (intro sys_invI) (simp_all add: th thread_ok_def owned_def initial_def)
qed

lemma other_txn:
  assumes inv: "sys_inv obs s" and i: "i < length (threads s)" "transaction (threads s ! i) = Some t"
    and j: "j < length (threads s)" "j \<noteq> i"
    and oth: "others obs th e = others obs (threads s ! j) (database (shared s))"
  shows "txns (obs e) t = txns (obs (database (shared s))) t"
proof -
  have "transaction (threads s ! j) \<noteq> Some t" using sys_invD(3) [OF inv i(1) j(1) i(2)] j(2) by blast
  then have "others obs th e t = txns (obs (database (shared s))) t" by (simp add: oth) (simp add: others_def)
  moreover have "txns (obs (database (shared s))) t \<noteq> None"
    using sys_invD(2) [OF inv i(1)] i(2) by (auto simp: owned_def)
  ultimately show ?thesis by (auto simp: others_def split: if_splits)
qed

text \<open>A step that leaves a thread as it is leaves its transaction as it is.\<close>

lemma idle_step:
  assumes ok: "lmdb_ok L obs" and inv: "sys_inv obs s"
    and i: "i < length (threads s)" "transaction (threads s ! i) = Some t"
    and st: "sys_step L s s'" and idle: "threads s' ! i = threads s ! i"
  shows "txns (obs (database (shared s'))) t = txns (obs (database (shared s))) t"
  using st
proof cases
  case (request j th db)
  have dyn: "dyn_inv (buff (threads s ! j))" using sys_invD(1) [OF inv request(2)] by (simp add: thread_ok_def)
  have "length (stream th) < length (stream (threads s ! j))"
    using request_handled [OF ok dyn sys_invD(2) [OF inv request(2)] request(4)] by simp
  moreover have "threads s' ! j = th" using request(1,2) by simp
  ultimately have "j \<noteq> i" using idle by (metis less_irrefl)
  moreover have "others obs th (database db) = others obs (threads s ! j) (database (shared s))"
    using step_request [OF ok inv request(2-4)] by blast
  ultimately have "txns (obs (database db)) t = txns (obs (database (shared s))) t"
    by (rule other_txn [OF inv i request(2)])
  then show ?thesis using request(1) by simp
next
  case (finish j th db th' e)
  have th: "owned obs th (database db)" "fd th = fd (threads s ! j)"
    "others obs th (database db) = others obs (threads s ! j) (database (shared s))"
    using step_request [OF ok inv finish(2-4)] by simp_all
  then have "fd th \<noteq> -1" using finish(3) by simp
  note d = disconnect_ok [OF ok th(1) finish(5) this]
  then have "fd (threads s' ! j) = -1" using finish(1,2) by simp
  then have "threads s' ! j \<noteq> threads s ! j" using finish(3) by auto
  then have "j \<noteq> i" using idle by metis
  moreover have "others obs th' e = others obs (threads s ! j) (database (shared s))"
    using d unfolding th(3) [symmetric] by (simp add: others_def)
  ultimately have "txns (obs e) t = txns (obs (database (shared s))) t"
    by (rule other_txn [OF inv i finish(2)])
  then show ?thesis using finish(1) by simp
next
  case (writer db)
  then show ?thesis using writer_frame [OF ok writer(2)] by simp
qed simp_all

inductive idle_reach :: "'e lmdb \<Rightarrow> nat \<Rightarrow> 'e sys \<Rightarrow> 'e sys \<Rightarrow> bool" for L i where
  idle_here: "idle_reach L i s s"
| idle_there: "idle_reach L i s s1 \<Longrightarrow> sys_step L s1 s2 \<Longrightarrow> threads s2 ! i = threads s1 ! i \<Longrightarrow> idle_reach L i s s2"

lemma sys_step_length: "sys_step L s s' \<Longrightarrow> length (threads s') = length (threads s)"
  by (cases rule: sys_step.cases) auto

lemma sys_reach_length: "sys_reach L s s' \<Longrightarrow> length (threads s') = length (threads s)"
  by (induction rule: sys_reach.induct) (simp_all add: sys_step_length)

lemma idle_reach_txn:
  assumes ok: "lmdb_ok L obs"
  shows "idle_reach L i s s' \<Longrightarrow> sys_inv obs s \<Longrightarrow> i < length (threads s) \<Longrightarrow>
    transaction (threads s ! i) = Some t \<Longrightarrow>
    sys_inv obs s' \<and> i < length (threads s') \<and> threads s' ! i = threads s ! i \<and>
    txns (obs (database (shared s'))) t = txns (obs (database (shared s))) t"
proof (induction rule: idle_reach.induct)
  case (idle_there s s1 s2)
  then show ?case
    using idle_step [OF ok _ _ _ idle_there.hyps(2,3)] sys_step_inv [OF ok idle_there.hyps(2)]
      sys_step_length [OF idle_there.hyps(2)] by auto
qed simp


text \<open>A server with one thread that has taken up a connection and started a transaction.\<close>

definition sys0 :: "mem_env sys" where
  "sys0 = \<lparr>threads = [the (the (connection_thread_new True True))], backlog = [], shared = empty_db\<rparr>"

lemma initial_sys0: "initial mem_abs sys0"
  by (simp add: initial_def sys0_def connection_thread_new_def empty_db_def mem_abs_def mem_empty_def)

lemma sys0_starts: "\<exists>s. sys_reach mem_lmdb sys0 s \<and> transaction (threads s ! 0) = Some 2"
proof -
  let ?i = "[RecvData [0x05]]"
  define s1 where "s1 = sys0\<lparr>backlog := backlog sys0 @ [(3, ?i)]\<rparr>"
  define s2 where "s2 = s1\<lparr>threads := (threads s1)[0 := take_up (threads s1 ! 0) 3 ?i], backlog := []\<rparr>"
  have "sys_step mem_lmdb sys0 s1" unfolding s1_def by (rule sys_step.accept) simp
  moreover have "sys_step mem_lmdb s1 s2"
    unfolding s2_def by (rule sys_step.take) (simp_all add: s1_def sys0_def connection_thread_new_def)
  moreover have "map_option (\<lambda>(go, th, db). (go, transaction th))
      (request_step mem_lmdb (threads s2 ! 0) (shared s2)) = Some (True, Some 2)"
    unfolding s2_def s1_def by code_simp
  then obtain th db where "request_step mem_lmdb (threads s2 ! 0) (shared s2) = Some (True, th, db)"
    "transaction th = Some 2" by auto
  then have "sys_step mem_lmdb s2 (s2\<lparr>threads := (threads s2)[0 := th], shared := db\<rparr>)"
    by (intro sys_step.request) (simp_all add: s2_def s1_def sys0_def take_up_def)
  ultimately have "sys_reach mem_lmdb sys0 (s2\<lparr>threads := (threads s2)[0 := th], shared := db\<rparr>)"
    by (blast intro: sys_reach.intros)
  then show ?thesis
    using \<open>transaction th = Some 2\<close> by (intro exI conjI) (assumption, simp add: s2_def s1_def sys0_def)
qed




text \<open>
  C19: Every connection comes to an end and leaves nothing behind. A connection whose client has sent
  \<open>n\<close> bytes is over after at most \<open>n + 1\<close> requests, whatever the bytes are; afterwards its
  transaction is closed, the thread is idle with nothing selected, and the transactions of the
  other threads are as before.
\<close>

theorem connection_ends:
  assumes "lmdb_ok L obs" and "transaction th = None" and "0 \<le> new_fd"
    and "length (arriving input) < n" and "connection_round n L th new_fd input db = Some (running, th', db')"
  shows "\<not> running \<and> fd th' = -1 \<and> transaction th' = None \<and> dbname th' = None \<and> buff th' = ydynabin_zero \<and>
    txns (obs (database db')) = txns (obs (database db))"
proof -
  define th0 where "th0 = th\<lparr>fd := new_fd, inp := input, outp := []\<rparr>"
  obtain ok th1 where a: "alloc th0 = (ok, th1)" by (cases "alloc th0")
  then obtain m where th1: "th1 = th0\<lparr>mem := m\<rparr>" using alloc_frame by blast
  obtain run th2 db2 where s: "serve n L (th1\<lparr>buff := ydynabin_zero\<rparr>) db = Some (run, th2, db2)"
    "if run then running else (\<exists>th3 e. connection_thread_disconnect L th2 (database db2) = Some (th3, e) \<and>
       \<not> running \<and> th' = th3\<lparr>buff := ydynabin_zero\<rparr> \<and> db' = db2\<lparr>database := e\<rparr>)"
    using assms(3,5) a
    by (auto simp: connection_round_def th0_def [symmetric] Let_def ydynabin_new_def bind_eq_Some_conv
        split: if_splits) (auto simp: th0_def)
  have own: "owned obs (th1\<lparr>buff := ydynabin_zero\<rparr>) (database db)"
    using assms(2) by (simp add: owned_def th1 th0_def)
  have "stream (th1\<lparr>buff := ydynabin_zero\<rparr>) = arriving input" by (simp add: stream_def th1 th0_def)
  then have h: "handled obs (th1\<lparr>buff := ydynabin_zero\<rparr>) db (if run then YENOERR else YEIO) th2 db2" "\<not> run"
    using serve_handled [OF assms(1) _ own s(1)] assms(4) by auto
  then have th2: "owned obs th2 (database db2)" "fd th2 = new_fd"
    "others obs th2 (database db2) = txns (obs (database db))"
    using assms(2) by (simp_all add: handled_def others_def th1 th0_def)
  obtain th3 e where d: "connection_thread_disconnect L th2 (database db2) = Some (th3, e)" "\<not> running"
    "th' = th3\<lparr>buff := ydynabin_zero\<rparr>" "db' = db2\<lparr>database := e\<rparr>"
    using s(2) h(2) by auto
  have "fd th2 \<noteq> -1" using th2(2) assms(3) by simp
  from disconnect_ok [OF assms(1) th2(1) d(1) this] show ?thesis using d(2-4) th2(3) by simp
qed

theorem connection_ends_witness:
  "map_option (\<lambda>(running, th, db). (running, fd th, outp th))
     (connection_round 3 mem_lmdb (the (the (connection_thread_new True True))) 3 [RecvData [0x05, 0x00]] empty_db) =
     Some (False, -1, [1, 1]) \<and>
   (\<exists>th' db'. connection_round 3 mem_lmdb (the (the (connection_thread_new True True))) 3
       [RecvData [0x05, 0x00]] empty_db = Some (False, th', db') \<and>
     txns (mem_abs (database db')) = txns (mem_abs (database empty_db)))"
proof -
  let ?r = "connection_round 3 mem_lmdb (the (the (connection_thread_new True True))) 3 [RecvData [0x05, 0x00]] empty_db"
  have run: "map_option (\<lambda>(running, th, db). (running, fd th, outp th)) ?r = Some (False, -1, [1, 1])"
    by code_simp
  then obtain th' db' where r: "?r = Some (False, th', db')" by auto
  have "\<not> False \<and> fd th' = -1 \<and> transaction th' = None \<and> dbname th' = None \<and> buff th' = ydynabin_zero \<and>
    txns (mem_abs (database db')) = txns (mem_abs (database empty_db))"
    by (rule connection_ends [OF mem_lmdb_ok _ _ _ r]) (simp_all add: connection_thread_new_def)
  then show ?thesis using run r by blast
qed

text \<open>
  C39: A client can make the server write past the end of its buffer. The request buffer is enlarged
  according to the size of the new segment alone. When a request is incomplete, the buffer is full,
  and the next segment is so short that twice its size (rounded) is less than the unread bytes and
  the segment together, \<^verbatim>\<open>connection_read_data\<close> copies them into a block that is too small.
\<close>

theorem short_segment_overflows:
  assumes "dyn_inv (buff th)" and "0 \<le> fd th" and "mem th = []"
    and "inp th = RecvData d # r" and "d \<noteq> []" and "length d \<le> 8196" and "dyn_len (buff th) < sz"
    and "dyn_free (buff th) < word_of_nat (length d)"
    and "unat (dyn_new_size (word_of_nat (length d))) < unat (dyn_len (buff th)) + length d"
  shows "connection_read_data th sz = None"
proof -
  let ?n = "word_of_nat (length d) :: size_t"
  have n: "unat ?n = length d" using assms(6) by (simp add: unsigned_of_nat take_bit_nat_eq_self)
  have "\<not> dyn_room (buff th) ?n" using assms(8,9) n by (simp add: dyn_room_def)
  then have "ydynabin_expand True (buff th) (Some d) ?n = None"
    using ydynabin_expand_None_iff [OF assms(1), of ?n d] n by simp
  then have "read_loop th (buff th) sz = None"
    using assms(3,7) recv_segment [OF assms(4,5,6)] by (subst read_loop.simps) (simp add: assms(5))
  then show ?thesis using assms(2,7) by (simp add: connection_read_data_def)
qed

theorem short_segment_overflows_witness:
  "connection_read_data ((thread_on [RecvData [2]])\<lparr>buff :=
     \<lparr>dyn_mem = replicate 16 1, dyn_len = 8, dyn_offset = 8, dyn_free = 0\<rparr>\<rparr>) 9 = None"
  by (rule short_segment_overflows [where d = "[2]" and r = "[]"])
    (simp_all add: thread_on_def dyn_inv_def dyn_new_size_def YDYNABIN_RNDSZ_def YDYNABIN_SIZE_def MB_def)

end
