(* ===== verification/Startup.thy ===== *)
theory Startup
  imports System
begin

text \<open>
  Start and end of the server: \<^verbatim>\<open>src/server/main.c\<close>, \<^verbatim>\<open>finedb.c\<close>, \<^verbatim>\<open>server.c\<close> and the Linux part of
  \<^verbatim>\<open>self_path.c\<close>. Outcomes of system calls and of nanomsg calls are arguments. \<^term>\<open>None\<close> is
  undefined behaviour; a call of \<^verbatim>\<open>exit\<close> is the value \<open>Inl\<close> of its code. The lemmas connect the
  start to the initial states of theory \<^theory_text>\<open>System\<close>.
\<close>

section \<open>Paths and options\<close>

definition SLASH :: byte where
  "SLASH = 47"

text \<open>The directory of the executable: everything before the last slash of the resolved path.\<close>

definition get_self_path :: "bytes option \<Rightarrow> bytes option" where
  "get_self_path resolved =
     map_option (\<lambda>path.
       if SLASH \<in> set path
       then rev (tl (dropWhile (\<lambda>c. c \<noteq> SLASH) (rev path)))
       else path) resolved"

text \<open>\<^verbatim>\<open>"../var/database"\<close>\<close>

definition DEFAULT_DB_PATH :: bytes where
  "DEFAULT_DB_PATH = [46, 46, 47, 118, 97, 114, 47, 100, 97, 116, 97, 98, 97, 115, 101]"

definition default_path :: "bytes option \<Rightarrow> bytes option" where
  "default_path resolved = map_option (\<lambda>base. base @ [SLASH] @ DEFAULT_DB_PATH) (get_self_path resolved)"

record config =
  nbr_threads :: u16
  nbr_dbs :: u32
  mapsize :: size_t
  port :: u16
  timeout :: u16
  db_path :: "bytes option"

definition default_config :: config where
  "default_config = \<lparr>nbr_threads = 15, nbr_dbs = 1, mapsize = 10485760, port = 11138, timeout = 30,
     db_path = None\<rparr>"

text \<open>
  One option that \<^verbatim>\<open>getopt\<close> has found, with its argument. \<open>Inl\<close> is the end of the program for
  \<^verbatim>\<open>-h\<close>; debug mode and unknown options change nothing here.
\<close>

datatype server_opt =
  Opt_t bytes | Opt_n bytes | Opt_s bytes | Opt_p bytes | Opt_f bytes | Opt_i bytes | Opt_d | Opt_h | Opt_unknown

fun parse_option :: "config \<Rightarrow> server_opt \<Rightarrow> (int + config) option" where
  "parse_option c (Opt_t a) = map_option (\<lambda>n. Inr (c\<lparr>nbr_threads := word_of_int n\<rparr>)) (atoi a)"
| "parse_option c (Opt_n a) = map_option (\<lambda>n. Inr (c\<lparr>nbr_dbs := word_of_int n\<rparr>)) (atoi a)"
| "parse_option c (Opt_s a) = map_option (\<lambda>n. Inr (c\<lparr>mapsize := word_of_int n\<rparr>)) (atoi a)"
| "parse_option c (Opt_p a) = map_option (\<lambda>n. Inr (c\<lparr>port := word_of_int n\<rparr>)) (atoi a)"
| "parse_option c (Opt_f a) = Some (Inr (c\<lparr>db_path := Some (cstr a)\<rparr>))"
| "parse_option c (Opt_i a) = map_option (\<lambda>n. Inr (c\<lparr>timeout := word_of_int n\<rparr>)) (atoi a)"
| "parse_option c Opt_d = Some (Inr c)"
| "parse_option c Opt_h = Some (Inl 0)"
| "parse_option c Opt_unknown = Some (Inr c)"

fun parse_options :: "config \<Rightarrow> server_opt list \<Rightarrow> (int + config) option" where
  "parse_options c [] = Some (Inr c)"
| "parse_options c (x # xs) = do {
     r \<leftarrow> parse_option c x;
     (case r of Inl code \<Rightarrow> Some (Inl code) | Inr c' \<Rightarrow> parse_options c' xs) }"

section \<open>Initialisation\<close>

text \<open>The listening socket: what \<^verbatim>\<open>socket\<close>, \<^verbatim>\<open>bind\<close> and \<^verbatim>\<open>listen\<close> return.\<close>

definition server_create_listening_socket :: "int \<Rightarrow> int \<Rightarrow> int \<Rightarrow> yerr_t \<times> int" where
  "server_create_listening_socket sock bind_rc listen_rc =
     (if sock < 0 then (YEIO, sock)
      else if bind_rc < 0 then (YEBADF, sock)
      else if listen_rc \<noteq> 0 then (YEBADF, sock)
      else (YENOERR, sock))"

text \<open>
  The outcomes of the calls of \<^verbatim>\<open>finedb_init\<close>: the allocation of the structure, the path of the
  executable, the nanomsg socket and its endpoint, the writer thread, the connection threads, and
  the listening socket.
\<close>

record startup =
  su_alloc :: bool
  su_self :: "bytes option"
  su_nn :: bool
  su_writer :: bool
  su_threads :: "(bool \<times> bool) list"
  su_sock :: int
  su_bind :: int
  su_listen :: int

text \<open>The threads that could be created; a creation that is not in the list succeeds.\<close>

fun create_threads :: "nat \<Rightarrow> (bool \<times> bool) list \<Rightarrow> tcp_thread_t list option" where
  "create_threads 0 outcomes = Some []"
| "create_threads (Suc n) outcomes = do {
     t \<leftarrow> (case outcomes of [] \<Rightarrow> connection_thread_new True True | (a, c) # _ \<Rightarrow> connection_thread_new a c);
     ts \<leftarrow> create_threads n (tl outcomes);
     Some (case t of None \<Rightarrow> ts | Some th \<Rightarrow> th # ts) }"

definition finedb_init ::
    "'e lmdb \<Rightarrow> startup \<Rightarrow> config \<Rightarrow> (int + int \<times> 'e sys) option" where
  "finedb_init L su c =
     (if \<not> su_alloc su then None
      else do {
        path \<leftarrow> (case db_path c of Some p \<Rightarrow> Some p | None \<Rightarrow> default_path (su_self su));
        (case database_open L path (unat (mapsize c)) (unat (nbr_threads c)) (unat (nbr_dbs c)) of
           None \<Rightarrow> Some (Inl 1)
         | Some env \<Rightarrow>
             if \<not> su_nn su then Some (Inl 2)
             else if \<not> su_writer su then Some (Inl 3)
             else do {
               ts \<leftarrow> create_threads (unat (nbr_threads c)) (su_threads su);
               (case server_create_listening_socket (su_sock su) (su_bind su) (su_listen su) of
                  (r, sock) \<Rightarrow>
                    if r \<noteq> YENOERR then Some (Inl 4)
                    else Some (Inr (sock, \<lparr>threads = ts, backlog = [],
                      shared = \<lparr>database = env, wqueue = [], nn_sends = []\<rparr>\<rparr>))) }) })"

text \<open>
  \<^verbatim>\<open>server_loop\<close>: each round finds the flag \<^verbatim>\<open>run\<close> set or not, and \<^verbatim>\<open>accept\<close> returns a descriptor or
  fails. The result is the list of descriptors handed to the connection threads.
\<close>

fun server_loop :: "(bool \<times> int) list \<Rightarrow> int list" where
  "server_loop [] = []"
| "server_loop ((run, fd') # rest) =
     (if run then (if fd' < 0 then server_loop rest else fd' # server_loop rest) else [])"

definition finedb_start :: "(bool \<times> int) list \<Rightarrow> int list" where
  "finedb_start rounds = server_loop rounds"

text \<open>The signal handler stops the server, which closes the environment under the running threads.\<close>

definition finedb_stop :: "'e lmdb \<Rightarrow> 'e sys \<Rightarrow> 'e sys" where
  "finedb_stop L s = s\<lparr>shared := (shared s)\<lparr>database := database_close L (database (shared s))\<rparr>\<rparr>"

definition main ::
    "'e lmdb \<Rightarrow> startup \<Rightarrow> server_opt list \<Rightarrow> (bool \<times> int) list \<Rightarrow> (int + int list \<times> 'e sys) option" where
  "main L su opts rounds = do {
     r \<leftarrow> parse_options default_config opts;
     (case r of
        Inl code \<Rightarrow> Some (Inl code)
      | Inr c \<Rightarrow> do {
          i \<leftarrow> finedb_init L su c;
          (case i of
             Inl code \<Rightarrow> Some (Inl code)
           | Inr (sock, s) \<Rightarrow> Some (Inr (finedb_start rounds, s))) }) }"

section \<open>Properties\<close>

text \<open>An environment that has just been opened has no transactions.\<close>

definition open_law :: "'e lmdb \<Rightarrow> ('e \<Rightarrow> mdb_abs) \<Rightarrow> bool" where
  "open_law L obs \<longleftrightarrow> (\<forall>path ms nr nd e. database_open L path ms nr nd = Some e \<longrightarrow> txns (obs e) = Map.empty)"

lemma mem_fresh_open: "open_law mem_lmdb mem_abs"
  by (auto simp: open_law_def database_open_def mem_lmdb_def mem_abs_def split: if_splits)

lemma create_threads_new:
  "create_threads n outcomes = Some ts \<Longrightarrow>
     length ts \<le> n \<and> (\<forall>th \<in> set ts. connection_thread_new True True = Some (Some th))"
proof (induction n arbitrary: outcomes ts)
  case (Suc n)
  then obtain t ts' where t: "(case outcomes of [] \<Rightarrow> connection_thread_new True True
      | (a, c) # _ \<Rightarrow> connection_thread_new a c) = Some t"
    "create_threads n (tl outcomes) = Some ts'" "ts = (case t of None \<Rightarrow> ts' | Some th \<Rightarrow> th # ts')"
    by (auto simp: bind_eq_Some_conv)
  have "t = None \<or> connection_thread_new True True = Some t"
    using t(1) by (auto simp: connection_thread_new_def split: list.splits if_splits)
  then show ?case using Suc.IH [OF t(2)] t(3) by (auto split: option.splits)
qed simp

lemma finedb_init_initial:
  assumes "open_law L obs" and "finedb_init L su c = Some (Inr (sock, s))"
  shows "initial obs s" and "length (threads s) \<le> unat (nbr_threads c)" and "0 \<le> sock"
proof -
  obtain path env ts where i: "database_open L path (unat (mapsize c)) (unat (nbr_threads c)) (unat (nbr_dbs c)) = Some env"
    "create_threads (unat (nbr_threads c)) (su_threads su) = Some ts" "0 \<le> sock"
    "s = \<lparr>threads = ts, backlog = [], shared = \<lparr>database = env, wqueue = [], nn_sends = []\<rparr>\<rparr>"
    using assms(2)
    by (auto simp: finedb_init_def bind_eq_Some_conv server_create_listening_socket_def
        split: if_splits option.splits)
  show "initial obs s" "length (threads s) \<le> unat (nbr_threads c)" "0 \<le> sock"
    using i create_threads_new [OF i(2)] assms(1) by (auto simp: initial_def open_law_def)
qed

lemma live_transactions_bound:
  assumes "sys_inv obs s"
  shows "finite (dom (txns (obs (database (shared s)))))"
    and "card (dom (txns (obs (database (shared s))))) \<le> length (threads s)"
proof -
  let ?f = "\<lambda>i. the (transaction (threads s ! i))"
  have sub: "dom (txns (obs (database (shared s)))) \<subseteq> ?f ` {..<length (threads s)}"
    using sys_invD(4) [OF assms] by (force simp: image_iff)
  then show "finite (dom (txns (obs (database (shared s)))))" by (rule finite_subset) simp
  have "card (dom (txns (obs (database (shared s))))) \<le> card (?f ` {..<length (threads s)})"
    by (rule card_mono [OF _ sub]) simp
  also have "\<dots> \<le> length (threads s)" using card_image_le [of "{..<length (threads s)}" ?f] by simp
  finally show "card (dom (txns (obs (database (shared s))))) \<le> length (threads s)" .
qed


definition good_startup :: startup where
  "good_startup = \<lparr>su_alloc = True, su_self = Some [47, 120], su_nn = True, su_writer = True,
     su_threads = [], su_sock = 5, su_bind = 0, su_listen = 0\<rparr>"


end
