(* ===== verification/Client.thy ===== *)
theory Client
  imports Socket Protocol Snappy
begin

text \<open>
  The client library, \<^verbatim>\<open>src/lib/libfinedb.c\<close>. The client record extends the socket of theory
  \<^theory_text>\<open>Socket\<close>; \<open>opened\<close> says whether the descriptor in \<open>sock\<close> is open, which the library itself does
  not record: \<^verbatim>\<open>finedb_disconnect\<close> closes the descriptor and keeps its number. Reads and writes on a
  descriptor that is not open fail. \<^term>\<open>None\<close> is undefined behaviour.
\<close>

section \<open>The client\<close>

datatype finedb_result_t =
  FINEDB_OK | FINEDB_ERR_NETWORK | FINEDB_ERR_SERVER | FINEDB_ERR_FILE | FINEDB_ERR_MEMORY | FINEDB_ERR_ZIP

fun result_code :: "finedb_result_t \<Rightarrow> int" where
  "result_code FINEDB_OK = 0"
| "result_code FINEDB_ERR_NETWORK = 1"
| "result_code FINEDB_ERR_SERVER = 2"
| "result_code FINEDB_ERR_FILE = 3"
| "result_code FINEDB_ERR_MEMORY = 4"
| "result_code FINEDB_ERR_ZIP = 5"

record finedb_client_t = chan +
  hostname :: bytes
  cl_port :: u16
  sock :: int
  cl_sync :: bool
  opened :: bool

text \<open>The allocations of the structure and of the host name may fail; the result is then the null pointer.\<close>

definition finedb_create :: "bool \<Rightarrow> bool \<Rightarrow> bytes \<Rightarrow> u16 \<Rightarrow> finedb_client_t option" where
  "finedb_create ok1 ok2 host p =
     (if \<not> ok1 then None
      else if \<not> ok2 then None
      else Some \<lparr>inp = [], outp = [], sends = [], mem = [], hostname = cstr host, cl_port = p, sock = -1,
             cl_sync = False, opened = False\<rparr>)"

definition finedb_disconnect :: "finedb_client_t \<Rightarrow> finedb_client_t" where
  "finedb_disconnect client = (if -1 < sock client then client\<lparr>opened := False\<rparr> else client)"

text \<open>
  The outcomes of \<^verbatim>\<open>socket\<close>, \<^verbatim>\<open>gethostbyname\<close> and \<^verbatim>\<open>connect\<close>, and what the server will send on the
  new connection. When the name cannot be resolved or the connection is refused, the new
  descriptor is forgotten without being closed.
\<close>

definition finedb_connect ::
    "finedb_client_t \<Rightarrow> int \<Rightarrow> bool \<Rightarrow> int \<Rightarrow> recv_event list \<Rightarrow> finedb_result_t \<times> finedb_client_t" where
  "finedb_connect client sockfd resolved rc input =
     (let client1 = finedb_disconnect client in
      if \<not> resolved then (FINEDB_ERR_NETWORK, client1\<lparr>sock := -1\<rparr>)
      else if rc < 0 then (FINEDB_ERR_NETWORK, client1\<lparr>sock := -1\<rparr>)
      else (FINEDB_OK, client1\<lparr>sock := sockfd, opened := True, inp := input, outp := []\<rparr>))"

definition finedb_delete :: "finedb_client_t \<Rightarrow> finedb_client_t" where
  "finedb_delete client = finedb_disconnect client"

definition finedb_sync :: "finedb_client_t \<Rightarrow> finedb_client_t" where
  "finedb_sync client = client\<lparr>cl_sync := True\<rparr>"

definition finedb_async :: "finedb_client_t \<Rightarrow> finedb_client_t" where
  "finedb_async client = client\<lparr>cl_sync := False\<rparr>"

section \<open>Sending and receiving\<close>

definition connected :: "finedb_client_t \<Rightarrow> bool" where
  "connected client \<longleftrightarrow> -1 < sock client \<and> opened client"

definition client_write :: "finedb_client_t \<Rightarrow> bytes \<Rightarrow> int \<times> finedb_client_t" where
  "client_write client msg = (if connected client then sendmsg client msg else (-1, client))"

text \<open>\<^verbatim>\<open>read(client->sock, &res, 1)\<close>: one byte, or none when it does not return 1.\<close>

definition client_read1 :: "finedb_client_t \<Rightarrow> byte option \<times> finedb_client_t" where
  "client_read1 client =
     (if connected client
      then (case recv client 1 of
         (Some [b], client') \<Rightarrow> (Some b, client')
       | (_, client') \<Rightarrow> (None, client'))
      else (None, client))"

definition read_data :: "finedb_client_t \<times> ydynabin_t \<Rightarrow> size_t \<Rightarrow> (yerr_t \<times> finedb_client_t \<times> ydynabin_t) option" where
  "read_data s sz =
     (case s of (client, container) \<Rightarrow>
      if sz \<le> dyn_len container then Some (YENOERR, client, container)
      else if \<not> connected client then Some (YEACCESS, client, container)
      else do {
        (r, container', client') \<leftarrow> read_loop client container sz;
        Some (r, client', container') })"

text \<open>The step that the parser of responses repeats: read, move forward, look at the bytes.\<close>

definition client_field ::
    "finedb_client_t \<times> ydynabin_t \<Rightarrow> size_t \<Rightarrow> (bytes option \<times> finedb_client_t \<times> ydynabin_t) option" where
  "client_field s n = do {
     (r, client, container) \<leftarrow> read_data s n;
     (if r \<noteq> YENOERR then Some (None, client, container)
      else (case ydynabin_forward container n of (p, c) \<Rightarrow> do {
        bs \<leftarrow> dyn_deref c p (unat n);
        Some (Some bs, client, c) })) }"

text \<open>The end that the requests with a one-byte answer share.\<close>

definition read_status :: "finedb_client_t \<Rightarrow> finedb_result_t \<times> finedb_client_t" where
  "read_status client =
     (case client_read1 client of
        (None, client') \<Rightarrow> (FINEDB_ERR_NETWORK, client')
      | (Some code, client') \<Rightarrow>
          (if RESPONSE_STATUS code \<noteq> resp_code RESP_OK then FINEDB_ERR_SERVER else FINEDB_OK, client'))"

definition send_and_wait :: "finedb_client_t \<Rightarrow> bytes \<Rightarrow> finedb_result_t \<times> finedb_client_t" where
  "send_and_wait client msg =
     (case client_write client msg of (rc, client') \<Rightarrow>
      if rc \<noteq> int (length msg) then (FINEDB_ERR_NETWORK, client') else read_status client')"

section \<open>Requests\<close>

text \<open>A missing name selects the default database. The allocation of the message is not checked.\<close>

definition finedb_setdb :: "finedb_client_t \<Rightarrow> bytes option \<Rightarrow> (finedb_result_t \<times> finedb_client_t) option" where
  "finedb_setdb client name =
     (case alloc client of (ok, client1) \<Rightarrow>
      if \<not> ok then None
      else
        let n = (case name of None \<Rightarrow> [] | Some d \<Rightarrow> cstr d) in
        Some (send_and_wait client1 (proto_code PROTO_SETDB # word_of_nat (length n) # n)))"

definition send_simple_request ::
    "finedb_client_t \<Rightarrow> protocol_command_t \<Rightarrow> finedb_result_t \<times> finedb_client_t" where
  "send_simple_request client code = send_and_wait client [proto_code code]"

definition finedb_client_start :: "finedb_client_t \<Rightarrow> finedb_result_t \<times> finedb_client_t" where
  "finedb_client_start client = send_simple_request client PROTO_START"

definition finedb_client_stop :: "finedb_client_t \<Rightarrow> finedb_result_t \<times> finedb_client_t" where
  "finedb_client_stop client = send_simple_request client PROTO_STOP"

definition finedb_ping :: "finedb_client_t \<Rightarrow> finedb_result_t \<times> finedb_client_t" where
  "finedb_ping client = send_simple_request client PROTO_PING"

text \<open>The length field of a key has sixteen bits; the key itself is sent whole.\<close>

definition key_field :: "bytes \<Rightarrow> bytes" where
  "key_field key = htons (word_of_nat (length key)) @ key"

definition finedb_del :: "finedb_client_t \<Rightarrow> bytes \<Rightarrow> finedb_result_t \<times> finedb_client_t" where
  "finedb_del client key =
     (let code = proto_code PROTO_DEL;
          code = (if cl_sync client then REQUEST_ADD_SYNC code else code) in
      send_and_wait client (code # key_field key))"

text \<open>Compression of the value; an error code, or the compressed bytes.\<close>

definition client_zip :: "finedb_client_t \<Rightarrow> bytes \<Rightarrow> ((finedb_result_t + bytes) \<times> finedb_client_t) option" where
  "client_zip client data =
     (case alloc client of (mem1, client1) \<Rightarrow>
      case snappy_init_env mem1 \<lparr>hash_table = None, env_scratch = None, env_scratch_output = None\<rparr> of
        (rc, zip_env) \<Rightarrow>
      if rc \<noteq> 0 then Some (Inl FINEDB_ERR_NETWORK, client1)
      else case alloc client1 of (mem2, client2) \<Rightarrow>
        if \<not> mem2 then Some (Inl FINEDB_ERR_MEMORY, client2)
        else do {
          (rc', zip_data, zip_len) \<leftarrow> snappy_compress zip_env data (length data)
            (YMALLOC (snappy_max_compressed_length (length data)));
          (if rc' \<noteq> 0 then Some (Inl FINEDB_ERR_ZIP, client2)
           else do {
             zip_data' \<leftarrow> mem_write zip_data zip_len [0];
             Some (Inr (take zip_len zip_data'), client2) }) })"

text \<open>ADD and UPDATE have no code of their own: both flags are ignored.\<close>

definition send_key_data ::
    "finedb_client_t \<Rightarrow> bool \<Rightarrow> bool \<Rightarrow> bytes \<Rightarrow> bytes \<Rightarrow> (finedb_result_t \<times> finedb_client_t) option" where
  "send_key_data client create_only update_only key data = do {
     (z, client1) \<leftarrow> client_zip client data;
     Some (case z of
        Inl err \<Rightarrow> (err, client1)
      | Inr zdata \<Rightarrow>
          let code = REQUEST_ADD_COMPRESSED (proto_code PROTO_PUT);
              code = (if cl_sync client1 then REQUEST_ADD_SYNC code else code) in
          send_and_wait client1 (code # key_field key @ htonl (word_of_nat (length zdata)) @ zdata)) }"

definition finedb_put :: "finedb_client_t \<Rightarrow> bytes \<Rightarrow> bytes \<Rightarrow> (finedb_result_t \<times> finedb_client_t) option" where
  "finedb_put client key data = send_key_data client False False key data"

definition finedb_add :: "finedb_client_t \<Rightarrow> bytes \<Rightarrow> bytes \<Rightarrow> (finedb_result_t \<times> finedb_client_t) option" where
  "finedb_add client key data = send_key_data client True False key data"

definition finedb_update :: "finedb_client_t \<Rightarrow> bytes \<Rightarrow> bytes \<Rightarrow> (finedb_result_t \<times> finedb_client_t) option" where
  "finedb_update client key data = send_key_data client False True key data"

section \<open>GET\<close>

type_synonym get_result = "(finedb_result_t \<times> bytes option \<times> finedb_client_t) option"

text \<open>
  The value of a response, which is decompressed when the response code says so. As in the server,
  a length that cannot be read leaves the variable unset. The result has no value when the
  caller's is left as it was.
\<close>

definition get_value :: "finedb_client_t \<Rightarrow> byte \<Rightarrow> bytes \<Rightarrow> get_result" where
  "get_value client code data =
     (if \<not> REQUEST_HAS_COMPRESSED code then Some (FINEDB_OK, Some data, client)
      else do {
        unzip_len \<leftarrow> snappy_uncompressed_length data;
        (case alloc client of (ok, client1) \<Rightarrow>
         if \<not> ok then Some (FINEDB_ERR_MEMORY, None, client1)
         else do {
           (rc, unzip_data) \<leftarrow> snappy_uncompress data (length data) (YMALLOC unzip_len);
           Some (if rc \<noteq> 0 then (FINEDB_ERR_ZIP, None, client1)
                 else (FINEDB_OK, Some unzip_data, client1)) }) })"

definition get_response :: "finedb_client_t \<times> ydynabin_t \<Rightarrow> get_result" where
  "get_response s = do {
     (pt, s1) \<leftarrow> client_field s 1;
     (case pt of
        None \<Rightarrow> Some (FINEDB_ERR_NETWORK, None, fst s1)
      | Some cb \<Rightarrow>
          let code = hd cb in
          if RESPONSE_STATUS code \<noteq> resp_code RESP_OK then Some (FINEDB_ERR_SERVER, None, fst s1)
          else do {
            (pdata_len, s2) \<leftarrow> client_field s1 4;
            (case pdata_len of
               None \<Rightarrow> Some (FINEDB_ERR_NETWORK, None, fst s2)
             | Some l \<Rightarrow>
                 if 0 < ntohl l then do {
                   (ptr, s3) \<leftarrow> client_field s2 (ucast (ntohl l));
                   (case ptr of
                      None \<Rightarrow> Some (FINEDB_ERR_NETWORK, None, fst s3)
                    | Some d \<Rightarrow>
                        (case alloc (fst s3) of (ok, client) \<Rightarrow>
                         if \<not> ok then Some (FINEDB_ERR_MEMORY, None, client)
                         else get_value client code d)) }
                 else Some (FINEDB_OK, Some [], fst s2)) }) }"

definition finedb_get :: "finedb_client_t \<Rightarrow> bytes \<Rightarrow> get_result" where
  "finedb_get client key =
     (let code = REQUEST_ADD_COMPRESSED (proto_code PROTO_GET); msg = code # key_field key in
      case client_write client msg of (rc, client1) \<Rightarrow>
      if rc \<noteq> int (length msg) then Some (FINEDB_ERR_NETWORK, None, client1)
      else case alloc client1 of (ok, client2) \<Rightarrow> do {
        b \<leftarrow> ydynabin_new ok True None 0 False;
        buff0 \<leftarrow> b;
        get_response (client2, buff0) })"

section \<open>The contract of the reader\<close>

interpretation cli: reader snd "\<lambda>c s. (fst s, c)" "\<lambda>s. arriving (inp (fst s))" "\<lambda>s. True" read_data client_field
proof unfold_locales
  fix s s' :: "finedb_client_t \<times> ydynabin_t" and n r
  assume inv: "dyn_inv (snd s)" and rd: "read_data s n = Some (r, s')"
  obtain client container where s: "s = (client, container)" by (cases s)
  show "dyn_inv (snd s') \<and> (r = YENOERR \<longrightarrow> unat n \<le> length (dyn_content (snd s')) \<and>
      dyn_content (snd s') @ arriving (inp (fst s')) = dyn_content (snd s) @ arriving (inp (fst s)))"
  proof (cases "n \<le> dyn_len container \<or> \<not> connected client")
    case True
    then show ?thesis
      using rd inv length_dyn_content [of container] by (auto simp: read_data_def s unat_le_iff split: if_splits)
  next
    case False
    then obtain c ch where "read_loop client container n = Some (r, c, ch)" "s' = (ch, c)"
      using rd by (auto simp: read_data_def s bind_eq_Some_conv)
    then show ?thesis using read_loop_stream [of container client n r c ch] inv by (auto simp: s)
  qed
next
  fix s :: "finedb_client_t \<times> ydynabin_t" and n :: size_t
  assume "dyn_inv (snd s)" "unat n \<le> length (dyn_content (snd s))"
  then show "read_data s n = Some (YENOERR, s)"
    by (cases s) (simp add: read_data_def unat_le_iff length_dyn_content)
next
  fix s :: "finedb_client_t \<times> ydynabin_t" and n :: size_t
  show "client_field s n = do {
      (r, s') \<leftarrow> read_data s n;
      (if r \<noteq> YENOERR then Some (None, s')
       else (case ydynabin_forward (snd s') n of (p, c) \<Rightarrow> do {
         bs \<leftarrow> dyn_deref c p (unat n);
         Some (Some bs, (fst s', c)) })) }"
    by (auto simp: client_field_def bind_eq_Some_conv split: Option.bind_split prod.splits)
qed auto

end
