(* ===== verification/Cli.thy ===== *)
theory Cli
  imports Client
begin

text \<open>
  The command line client, \<^verbatim>\<open>src/cli/finedb-cli.c\<close>. Its state is the structure \<^verbatim>\<open>cli_t\<close>, together with
  what it has written on the terminal, the outcomes of the next calls of \<^verbatim>\<open>finedb_connect\<close>, and the
  memory that follows the blocks whose end the program runs over (\<open>behind\<close>; with \<^term>\<open>[]\<close> such a
  read is undefined). A pointer into a line is the rest of its block. \<^term>\<open>None\<close> is
  undefined behaviour. linenoise is the list of lines that it returns; the history has no
  counterpart.
\<close>

section \<open>Text\<close>

definition lit :: "string \<Rightarrow> bytes" where
  "lit s = map of_char s"

definition IS_SPACE :: "byte \<Rightarrow> bool" where
  "IS_SPACE c \<longleftrightarrow> c = 32 \<or> c = 9 \<or> c = 10 \<or> c = 13"

definition tolower :: "byte \<Rightarrow> byte" where
  "tolower c = (if 65 \<le> c \<and> c \<le> 90 then c + 32 else c)"

text \<open>\<^verbatim>\<open>!strcasecmp(a, b)\<close>\<close>

definition strcaseeq :: "bytes \<Rightarrow> bytes \<Rightarrow> bool" where
  "strcaseeq a b \<longleftrightarrow> map tolower (cstr a) = map tolower (cstr b)"

text \<open>\<^verbatim>\<open>*pt\<close>\<close>

definition deref :: "bytes \<Rightarrow> byte option" where
  "deref p = (case p of [] \<Rightarrow> None | c # _ \<Rightarrow> Some c)"

fun LTRIM :: "bytes \<Rightarrow> bytes option" where
  "LTRIM [] = None"
| "LTRIM (c # p) = (if c \<noteq> 0 \<and> IS_SPACE c then LTRIM p else Some (c # p))"

text \<open>The loop that finds the end of the command: the word, and the pointer behind it.\<close>

fun get_word :: "bytes \<Rightarrow> (bytes \<times> bytes) option" where
  "get_word [] = None"
| "get_word (c # p) =
     (if c \<noteq> 0 \<and> \<not> IS_SPACE c then map_option (\<lambda>(w, q). (c # w, q)) (get_word p) else Some ([], c # p))"

text \<open>
  \<^verbatim>\<open>strchr\<close>: \<open>Some None\<close> is the null pointer; otherwise the characters that were skipped and the
  pointer to the one that was found.
\<close>

fun strchr :: "byte \<Rightarrow> bytes \<Rightarrow> (bytes \<times> bytes) option option" where
  "strchr x [] = None"
| "strchr x (c # p) =
     (if c = x then Some (Some ([], c # p))
      else if c = 0 then Some None
      else map_option (map_option (\<lambda>(w, q). (c # w, q))) (strchr x p))"

text \<open>A string that a function reads up to its NUL.\<close>

fun cstring :: "bytes \<Rightarrow> bytes option" where
  "cstring [] = None"
| "cstring (c # p) = (if c = 0 then Some [] else map_option ((#) c) (cstring p))"

section \<open>State and output\<close>

record cli_t =
  client :: finedb_client_t
  cli_dbname :: "bytes option"
  in_transaction :: bool
  autocheck :: bool
  screen :: bytes
  reconnects :: "(int \<times> bool \<times> int \<times> recv_event list) list"
  behind :: bytes

definition DEFAULT_HOST :: bytes where
  "DEFAULT_HOST = lit ''localhost''"

definition cli_commands :: "bytes list" where
  "cli_commands = map lit [''help'', ''use'', ''get'', ''del'', ''put'', ''add'', ''update'', ''inc'', ''dec'',
     ''start'', ''commit'', ''rollback'', ''ping'', ''sync'', ''async'', ''autocheck'']"

definition print :: "bytes \<Rightarrow> cli_t \<Rightarrow> cli_t" where
  "print s cli = cli\<lparr>screen := screen cli @ s\<rparr>"

definition newline :: "cli_t \<Rightarrow> cli_t" where
  "newline cli = print [10] cli"

text \<open>The texts are what \<^verbatim>\<open>vprintf\<close> makes of the format. An unknown type leaves the number unset.\<close>

definition printf_decorated :: "bytes \<Rightarrow> bytes \<Rightarrow> cli_t \<Rightarrow> cli_t option" where
  "printf_decorated typ s cli = do {
     i \<leftarrow> (if strcaseeq typ (lit ''bold'') then Some (lit ''1'')
           else if strcaseeq typ (lit ''faint'') then Some (lit ''2'')
           else if strcaseeq typ (lit ''underline'') then Some (lit ''4'')
           else if strcaseeq typ (lit ''negative'') then Some (lit ''7'')
           else None);
     Some (print (27 # lit ''['' @ i @ lit ''m'' @ s @ 27 # lit ''[0m'') cli) }"

definition printf_color :: "bytes \<Rightarrow> bytes \<Rightarrow> cli_t \<Rightarrow> cli_t option" where
  "printf_color color s cli = do {
     i \<leftarrow> (if strcaseeq color (lit ''black'') then Some (lit ''0'')
           else if strcaseeq color (lit ''red'') then Some (lit ''1'')
           else if strcaseeq color (lit ''green'') then Some (lit ''2'')
           else if strcaseeq color (lit ''yellow'') then Some (lit ''3'')
           else if strcaseeq color (lit ''blue'') then Some (lit ''4'')
           else if strcaseeq color (lit ''magenta'') then Some (lit ''5'')
           else if strcaseeq color (lit ''cyan'') then Some (lit ''6'')
           else if strcaseeq color (lit ''white'') then Some (lit ''7'')
           else None);
     Some (print (27 # lit ''[9'' @ i @ lit ''m'' @ s @ 27 # lit ''[0m'') cli) }"

definition faint :: "bytes \<Rightarrow> cli_t \<Rightarrow> cli_t option" where
  "faint s cli = map_option newline (printf_decorated (lit ''faint'') s cli)"

definition red :: "bytes \<Rightarrow> cli_t \<Rightarrow> cli_t option" where
  "red s cli = map_option newline (printf_color (lit ''red'') s cli)"

text \<open>\<^verbatim>\<open>%d\<close> of a result code, which has one digit.\<close>

definition show_rc :: "finedb_result_t \<Rightarrow> bytes" where
  "show_rc r = [48 + word_of_int (result_code r)]"

definition cli_completion :: "bytes \<Rightarrow> bytes list" where
  "cli_completion buf =
     filter (\<lambda>cmd. \<not> length cmd < length (cstr buf) \<and>
       map tolower (cstr buf) = map tolower (take (length (cstr buf)) cmd)) cli_commands"

section \<open>Connection\<close>

text \<open>Without a further outcome the server cannot be reached.\<close>

definition cli_connect :: "cli_t \<Rightarrow> finedb_result_t \<times> cli_t" where
  "cli_connect cli =
     (case reconnects cli of
        [] \<Rightarrow> (case finedb_connect (client cli) (-1) False 0 [] of (r, cl) \<Rightarrow> (r, cli\<lparr>client := cl\<rparr>))
      | (fd, resolved, rc, input) # rest \<Rightarrow>
          (case finedb_connect (client cli) fd resolved rc input of (r, cl) \<Rightarrow>
             (r, cli\<lparr>client := cl, reconnects := rest\<rparr>)))"

definition check_connection :: "cli_t \<Rightarrow> (bool \<times> cli_t) option" where
  "check_connection cli =
     (if \<not> autocheck cli then Some (True, cli)
      else case finedb_ping (client cli) of (r, cl) \<Rightarrow>
        let cli1 = cli\<lparr>client := cl\<rparr> in
        if r = FINEDB_OK then Some (True, cli1)
        else case cli_connect cli1 of (r', cli2) \<Rightarrow>
          if r' \<noteq> FINEDB_OK then do {
            cli3 \<leftarrow> red (lit ''Lost connection to server.'') cli2;
            Some (False, cli3) }
          else if in_transaction cli2 then do {
            cli3 \<leftarrow> faint (lit ''Reconnected to server. Transaction is lost.'') (cli2\<lparr>in_transaction := False\<rparr>);
            Some (True, cli3) }
          else do {
            cli3 \<leftarrow> faint (lit ''Reconnected to server.'') cli2;
            Some (True, cli3) })"

text \<open>The commands check the connection and stop when there is none.\<close>

definition when_connected :: "cli_t \<Rightarrow> (cli_t \<Rightarrow> cli_t option) \<Rightarrow> cli_t option" where
  "when_connected cli f = do {
     (ok, cli1) \<leftarrow> check_connection cli;
     (if \<not> ok then Some cli1 else f cli1) }"

section \<open>Commands\<close>

definition command_help :: "cli_t \<Rightarrow> cli_t option" where
  "command_help cli = faint (concat (map (\<lambda>s. lit s @ [10])
     [''Usage:    finedb-cli [hostname]'', ''Commands:'', ''    get \"key1\"'', ''    put \"key\" \"data\"'',
      ''    add \"key\" \"data\"'', ''    update \"key\" \"data\"'', ''    del \"key\"'', ''    use \"dbname\"'',
      ''    start'', ''    commit'', ''    rollback'', ''    ping'', ''    sync'', ''    async'',
      ''    autocheck [on|off]'', ''    quit''])) cli"

text \<open>
  A refused name is printed with a format that has two arguments and a call that has one: undefined.
  The copy of the name may fail.
\<close>

definition command_use :: "cli_t \<Rightarrow> bytes \<Rightarrow> cli_t option" where
  "command_use cli pt = when_connected cli (\<lambda>cli. do {
     name \<leftarrow> cstring pt;
     (if name = [] \<or> strcaseeq name (lit ''default'') then do {
        (rc, cl) \<leftarrow> finedb_setdb (client cli) None;
        (if rc \<noteq> FINEDB_OK
         then red (lit ''Unable to use the default database ('' @ show_rc rc @ lit '').'') (cli\<lparr>client := cl\<rparr>)
         else faint (lit ''Use the default database'') (cli\<lparr>client := cl, cli_dbname := None\<rparr>)) }
      else do {
        (rc, cl) \<leftarrow> finedb_setdb (client cli) (Some name);
        (if rc \<noteq> FINEDB_OK then None
         else case alloc cl of (ok, cl') \<Rightarrow>
           faint (lit ''Use the '' @ [39] @ name @ [39] @ lit '' database'')
             (cli\<lparr>client := cl', cli_dbname := (if ok then Some name else None)\<rparr>)) }) })"

definition command_sync :: "cli_t \<Rightarrow> cli_t option" where
  "command_sync cli = faint (lit ''Set synchronous mode.'') (cli\<lparr>client := finedb_sync (client cli)\<rparr>)"

definition command_async :: "cli_t \<Rightarrow> cli_t option" where
  "command_async cli = faint (lit ''Set asynchronous mode.'') (cli\<lparr>client := finedb_async (client cli)\<rparr>)"

text \<open>
  The key between quotes that GET, DEL, PUT, ADD and UPDATE start with: the message of the error, or
  the key and the pointer behind its closing quote.
\<close>

definition parse_key :: "bytes \<Rightarrow> (bytes + bytes \<times> bytes) option" where
  "parse_key pt = do {
     p \<leftarrow> LTRIM pt;
     c \<leftarrow> deref p;
     (if c \<noteq> 34 then Some (Inl (lit ''Bad key format (no quote)''))
      else do {
        c1 \<leftarrow> deref (tl p);
        (if c1 = 0 then Some (Inl (lit ''Bad key''))
         else do {
           r \<leftarrow> strchr 34 (tl p);
           Some (case r of
              None \<Rightarrow> Inl (lit ''Bad key format (no trailing quote)'')
            | Some (key, q) \<Rightarrow> Inr (key, tl q)) }) }) }"

text \<open>
  The value has no NUL behind its block. Without a value the program prints a null pointer, or an
  empty block: undefined.
\<close>

definition cli_command_get :: "cli_t \<Rightarrow> bytes \<Rightarrow> cli_t option" where
  "cli_command_get cli pt = do {
     k \<leftarrow> parse_key pt;
     (case k of
        Inl err \<Rightarrow> faint err cli
      | Inr (key, _) \<Rightarrow> when_connected cli (\<lambda>cli. do {
          (rc, value, cl) \<leftarrow> finedb_get (client cli) key;
          (let cli1 = cli\<lparr>client := cl\<rparr> in
           if rc \<noteq> FINEDB_OK
           then red (lit ''Unable to get key '' @ [39] @ key @ [39] @ lit '' ('' @ show_rc rc @ lit '').'') cli1
           else (case value of
              None \<Rightarrow> None
            | Some data \<Rightarrow>
                if data = [] then None
                else do {
                  text \<leftarrow> cstring (data @ behind cli1);
                  Some (newline (print text cli1)) })) })) }"

text \<open>The missing braces make the last three calls unconditional.\<close>

definition cli_command_del :: "cli_t \<Rightarrow> bytes \<Rightarrow> cli_t option" where
  "cli_command_del cli pt = do {
     k \<leftarrow> parse_key pt;
     (case k of
        Inl err \<Rightarrow> faint err cli
      | Inr (key, _) \<Rightarrow> when_connected cli (\<lambda>cli.
          case finedb_del (client cli) key of (rc, cl) \<Rightarrow> do {
            cli1 \<leftarrow> (if rc \<noteq> FINEDB_OK
                      then printf_color (lit ''red'') (lit ''Unable to delete key '' @ [39] @ key @ [39] @ lit ''.'')
                             (cli\<lparr>client := cl\<rparr>)
                      else Some (cli\<lparr>client := cl\<rparr>));
            faint (lit ''OK'') (newline cli1) })) }"

text \<open>The value behind the key: one character is skipped, then spaces, then quotes around the rest of the line.\<close>

definition parse_data :: "bytes \<Rightarrow> (bytes + bytes) option" where
  "parse_data pt2 = do {
     c \<leftarrow> deref pt2;
     (if c = 0 then Some (Inl (lit ''Missing data''))
      else do {
        data \<leftarrow> LTRIM (tl pt2);
        d \<leftarrow> deref data;
        (if d \<noteq> 34 then Some (Inl (lit ''Bad data format (no quote)''))
         else do {
           text \<leftarrow> cstring (tl data);
           Some (if text = [] then Inl (lit ''Missing data'')
                 else if last text \<noteq> 34 then Inl (lit ''Bad data format (no trailing quote)'')
                 else Inr (butlast text)) }) }) }"

definition command_send_data :: "cli_t \<Rightarrow> bytes \<Rightarrow> bool \<Rightarrow> bool \<Rightarrow> cli_t option" where
  "command_send_data cli pt create_only update_only = do {
     k \<leftarrow> parse_key pt;
     (case k of
        Inl err \<Rightarrow> faint err cli
      | Inr (key, pt2) \<Rightarrow> do {
          d \<leftarrow> parse_data pt2;
          (case d of
             Inl err \<Rightarrow> faint err cli
           | Inr data \<Rightarrow> when_connected cli (\<lambda>cli. do {
               (rc, cl) \<leftarrow> (if create_only then finedb_add (client cli) key data
                             else if update_only then finedb_update (client cli) key data
                             else finedb_put (client cli) key data);
               (if rc \<noteq> FINEDB_OK
                then red (lit ''Unable to '' @
                       (if create_only then lit ''add'' else if update_only then lit ''update'' else lit ''put'') @
                       lit '' key '' @ [39] @ key @ [39] @ lit ''.'') (cli\<lparr>client := cl\<rparr>)
                else faint (lit ''OK'') (cli\<lparr>client := cl\<rparr>)) })) }) }"

definition command_inc :: "cli_t \<Rightarrow> bytes \<Rightarrow> cli_t option" where
  "command_inc cli pt = Some cli"

definition command_dec :: "cli_t \<Rightarrow> bytes \<Rightarrow> cli_t option" where
  "command_dec cli pt = Some cli"

definition cli_command_start :: "cli_t \<Rightarrow> cli_t option" where
  "cli_command_start cli = when_connected cli (\<lambda>cli. do {
     cli1 \<leftarrow> (if in_transaction cli
               then red (lit ''A transaction is already open. It will be rollbacked.'') cli else Some cli);
     (case finedb_client_start (client cli1) of (rc, cl) \<Rightarrow>
      if rc \<noteq> FINEDB_OK then red (lit ''Server error.'') (cli1\<lparr>client := cl\<rparr>)
      else do {
        cli2 \<leftarrow> faint (lit ''Transaction started.'') (cli1\<lparr>client := cl\<rparr>);
        Some (cli2\<lparr>in_transaction := True\<rparr>) }) })"

definition cli_command_stop :: "cli_t \<Rightarrow> cli_t option" where
  "cli_command_stop cli = when_connected cli (\<lambda>cli.
     if \<not> in_transaction cli then red (lit ''No opened transaction.'') cli
     else case finedb_client_stop (client cli) of (rc, cl) \<Rightarrow>
       if rc \<noteq> FINEDB_OK then red (lit ''Server error.'') (cli\<lparr>client := cl\<rparr>)
       else do {
         cli1 \<leftarrow> faint (lit ''Transaction stopped.'') (cli\<lparr>client := cl\<rparr>);
         Some (cli1\<lparr>in_transaction := False\<rparr>) })"

definition cli_command_ping :: "cli_t \<Rightarrow> cli_t option" where
  "cli_command_ping cli =
     (case finedb_ping (client cli) of (rc, cl) \<Rightarrow>
      if rc \<noteq> FINEDB_OK then red (lit ''Server error.'') (cli\<lparr>client := cl\<rparr>)
      else faint (lit ''OK'') (cli\<lparr>client := cl\<rparr>))"

definition command_autocheck :: "cli_t \<Rightarrow> bytes \<Rightarrow> cli_t option" where
  "command_autocheck cli pt = do {
     arg \<leftarrow> cstring pt;
     (let cli1 = (if arg = [] then cli
                  else cli\<lparr>autocheck := strcaseeq arg (lit ''on'') \<or> strcaseeq arg (lit ''yes'') \<or>
                         strcaseeq arg (lit ''true'') \<or> arg = lit ''1''\<rparr>) in
      faint (lit ''autocheck option is '' @ (if autocheck cli1 then lit ''activated'' else lit ''deactivated'')) cli1) }"

section \<open>The main loop\<close>

text \<open>The commands that need a connection.\<close>

definition run_command :: "cli_t \<Rightarrow> bytes \<Rightarrow> bytes \<Rightarrow> cli_t option" where
  "run_command cli cmd pt =
     (if strcaseeq cmd (lit ''use'') then command_use cli pt
      else if strcaseeq cmd (lit ''get'') then cli_command_get cli pt
      else if strcaseeq cmd (lit ''del'') then cli_command_del cli pt
      else if strcaseeq cmd (lit ''put'') then command_send_data cli pt False False
      else if strcaseeq cmd (lit ''add'') then command_send_data cli pt True False
      else if strcaseeq cmd (lit ''update'') then command_send_data cli pt False True
      else if strcaseeq cmd (lit ''inc'') then command_inc cli pt
      else if strcaseeq cmd (lit ''dec'') then command_dec cli pt
      else if strcaseeq cmd (lit ''start'') then cli_command_start cli
      else if strcaseeq cmd (lit ''stop'') then cli_command_stop cli
      else if strcaseeq cmd (lit ''ping'') then cli_command_ping cli
      else if strcaseeq cmd (lit ''autocheck'') then command_autocheck cli pt
      else red (lit ''Bad command.'') cli)"

text \<open>
  One line, in the block that holds it. The pointer behind the command moves over the NUL when the
  line ends there. The result says whether the program goes on.
\<close>

definition cli_line :: "cli_t \<Rightarrow> bytes \<Rightarrow> (bool \<times> cli_t) option" where
  "cli_line cli line = do {
     p \<leftarrow> LTRIM line;
     (cmd, q) \<leftarrow> get_word p;
     pt \<leftarrow> LTRIM (tl q);
     (if cmd = [] then Some (True, cli)
      else if strcaseeq cmd (lit ''exit'') \<or> strcaseeq cmd (lit ''quit'') then Some (False, cli)
      else do {
        cli' \<leftarrow> (if strcaseeq cmd (lit ''help'') \<or> hd cmd = 63 then command_help cli
                  else if strcaseeq cmd (lit ''sync'') then command_sync cli
                  else if strcaseeq cmd (lit ''async'') then command_async cli
                  else run_command cli cmd pt);
        Some (True, cli') }) }"

text \<open>The interactive loop, on the lines that \<^verbatim>\<open>linenoise\<close> returns before it returns the null pointer.\<close>

fun cli_loop :: "cli_t \<Rightarrow> bytes list \<Rightarrow> (int \<times> cli_t) option" where
  "cli_loop cli [] = Some (0, cli)"
| "cli_loop cli (line # lines) = do {
     (go, cli') \<leftarrow> cli_line cli line;
     (if go then cli_loop cli' lines else Some (0, cli')) }"

text \<open>
  The other mode takes the whole standard input for one line. At its end the next round has no line,
  and uses the null pointer.
\<close>

definition cli_batch :: "cli_t \<Rightarrow> bytes \<Rightarrow> (int \<times> cli_t) option" where
  "cli_batch cli input =
     (if input = [] then None
      else do {
        (go, cli') \<leftarrow> cli_line cli (input @ [0]);
        (if go then None else Some (0, cli')) })"

text \<open>
  The start. \<open>argv\<close> are the arguments without the name of the program; \<open>outcomes\<close> are those of
  the calls of \<^verbatim>\<open>finedb_connect\<close>. The message about an unreachable server prints \<^verbatim>\<open>argv[1]\<close> even
  when there is none.
\<close>

definition cli_main ::
    "bool \<Rightarrow> bool \<Rightarrow> bytes list \<Rightarrow> (int \<times> bool \<times> int \<times> recv_event list) list \<Rightarrow> bytes \<Rightarrow> bytes list \<Rightarrow> bytes \<Rightarrow>
       (int \<times> bytes) option" where
  "cli_main ok1 ok2 argv outcomes after lines input =
     (let host = (if length argv = 1 \<and> (cstr (argv ! 0) = [] \<or> hd (argv ! 0) \<noteq> 45) then argv ! 0 else DEFAULT_HOST);
          interactive_mode = \<not> (length argv = 2 \<and> cstr (argv ! 1) = lit ''-'') in
      case finedb_create ok1 ok2 host 11138 of
        None \<Rightarrow> Some (1, 27 # lit ''[91mMemory error.'' @ 27 # lit ''[0m'' @ [10])
      | Some cl \<Rightarrow>
          let cli0 = \<lparr>client = cl, cli_dbname = None, in_transaction = False, autocheck = True, screen = [],
                reconnects = outcomes, behind = after\<rparr> in
          (case cli_connect cli0 of (r, cli) \<Rightarrow>
           if r \<noteq> FINEDB_OK then
             (if argv = [] then None
              else map_option (\<lambda>c. (2, screen c))
                (red (lit ''Unable to connect to server '' @ [39] @ cstr (argv ! 0) @ [39] @ lit '' on port '' @ [39] @
                   lit ''11138'' @ [39] @ lit ''.'') cli))
           else map_option (\<lambda>(code, c). (code, screen c))
             (if interactive_mode then cli_loop cli lines else cli_batch cli input)))"

section \<open>Output and pointers\<close>

definition faint_text :: "bytes \<Rightarrow> bytes" where
  "faint_text s = 27 # lit ''[2m'' @ s @ 27 # lit ''[0m'' @ [10]"

definition red_text :: "bytes \<Rightarrow> bytes" where
  "red_text s = 27 # lit ''[91m'' @ s @ 27 # lit ''[0m'' @ [10]"

lemma types_differ: "\<not> strcaseeq (lit ''faint'') (lit ''bold'')" "strcaseeq (lit ''faint'') (lit ''faint'')"
  "\<not> strcaseeq (lit ''red'') (lit ''black'')" "strcaseeq (lit ''red'') (lit ''red'')"
  by code_simp+

lemma faint_print [simp]: "faint s cli = Some (print (faint_text s) cli)"
  by (simp add: faint_def printf_decorated_def types_differ newline_def print_def faint_text_def)
    (simp add: lit_def)

lemma red_print [simp]: "red s cli = Some (print (red_text s) cli)"
  by (simp add: red_def printf_color_def types_differ newline_def print_def red_text_def)
    (simp add: lit_def)

lemma IS_SPACE_0 [simp]: "\<not> IS_SPACE 0" "\<not> IS_SPACE 34"
  by (simp_all add: IS_SPACE_def)

lemma LTRIM_spaces: "list_all IS_SPACE sp \<Longrightarrow> LTRIM (sp @ p) = LTRIM p"
  by (induction sp) auto

lemma LTRIM_stop: "\<not> IS_SPACE c \<Longrightarrow> LTRIM (c # p) = Some (c # p)"
  by simp

lemma get_word_word:
  assumes "\<And>c. c \<in> set w \<Longrightarrow> c \<noteq> 0 \<and> \<not> IS_SPACE c" and "c = 0 \<or> IS_SPACE c"
  shows "get_word (w @ c # p) = Some (w, c # p)"
  using assms(1) by (induction w) (auto simp: assms(2))

lemma strchr_found:
  assumes "x \<notin> set w" and "0 \<notin> set w"
  shows "strchr x (w @ x # p) = Some (Some (w, x # p))"
  using assms by (induction w) auto

lemma cstring_nul: "0 \<notin> set w \<Longrightarrow> cstring (w @ 0 # p) = Some w"
  by (induction w) auto

lemma parse_key_quoted:
  assumes "list_all IS_SPACE sp" and "key \<noteq> []" and "34 \<notin> set key" and "0 \<notin> set key"
  shows "parse_key (sp @ 34 # key @ 34 # p) = Some (Inr (key, p))"
proof -
  have "deref (key @ 34 # p) = Some (hd key)" "hd key \<noteq> 0"
    using assms(2,4) by (cases key; simp add: deref_def)+
  then show ?thesis
    using LTRIM_spaces [OF assms(1), of "34 # key @ 34 # p"] strchr_found [OF assms(3,4)]
    by (simp add: parse_key_def) (simp add: deref_def)
qed

lemma parse_data_quoted:
  assumes "list_all IS_SPACE sp" and "c \<noteq> 0" and "0 \<notin> set data"
  shows "parse_data (c # sp @ 34 # data @ 34 # 0 # p) = Some (Inr data)"
proof -
  have "cstring (data @ 34 # 0 # p) = Some (data @ [34])"
    using cstring_nul [of "data @ [34]" p] assms(3) by simp
  then show ?thesis
    using LTRIM_spaces [OF assms(1), of "34 # data @ 34 # 0 # p"] assms(2)
    by (simp add: parse_data_def deref_def)
qed

text \<open>A line with a command and something behind it.\<close>

lemma cli_line_command:
  assumes "list_all IS_SPACE sp0" and "IS_SPACE b" and "list_all IS_SPACE sp1"
    and "w \<noteq> []" and w: "\<And>c. c \<in> set w \<Longrightarrow> c \<noteq> 0 \<and> \<not> IS_SPACE c" and "\<not> IS_SPACE d"
  shows "cli_line cli (sp0 @ w @ b # sp1 @ d # p) =
    (if strcaseeq w (lit ''exit'') \<or> strcaseeq w (lit ''quit'') then Some (False, cli)
     else map_option (Pair True)
       (if strcaseeq w (lit ''help'') \<or> hd w = 63 then command_help cli
        else if strcaseeq w (lit ''sync'') then command_sync cli
        else if strcaseeq w (lit ''async'') then command_async cli
        else run_command cli w (d # p)))"
proof -
  obtain c w' where cw: "w = c # w'" using assms(4) by (cases w) auto
  then have "LTRIM (sp0 @ w @ b # sp1 @ d # p) = Some (w @ b # sp1 @ d # p)"
    using LTRIM_spaces [OF assms(1)] w by simp
  moreover have "get_word (w @ b # sp1 @ d # p) = Some (w, b # sp1 @ d # p)"
    by (rule get_word_word) (use w assms(2) in auto)
  moreover have "LTRIM (sp1 @ d # p) = Some (d # p)" using LTRIM_spaces [OF assms(3)] assms(6) by simp
  ultimately show ?thesis
    using assms(4) by (simp add: cli_line_def) (auto simp: map_option_case split: option.splits)
qed

lemma when_connected_off [simp]: "\<not> autocheck cli \<Longrightarrow> when_connected cli f = f cli"
  by (simp add: when_connected_def check_connection_def)

section \<open>Properties\<close>

text \<open>What PUT does once its line is parsed.\<close>

definition put_result :: "bytes \<Rightarrow> finedb_result_t \<Rightarrow> bytes" where
  "put_result key rc =
     (if rc = FINEDB_OK then faint_text (lit ''OK'') else red_text (lit ''Unable to put key '' @ [39] @ key @ [39] @ lit ''.''))"

lemma put_answer_text:
  "(if rc \<noteq> FINEDB_OK
    then red (lit ''Unable to '' @ lit ''put'' @ lit '' key '' @ [39] @ key @ [39] @ lit ''.'') cli
    else faint (lit ''OK'') cli) = Some (print (put_result key rc) cli)"
  by (simp add: put_result_def) (simp add: lit_def)

lemma put_is_run:
  assumes "strcaseeq w (lit ''put'')"
  shows "run_command cli w p = command_send_data cli p False False" "\<not> strcaseeq w (lit ''exit'')"
    "\<not> strcaseeq w (lit ''quit'')" "\<not> strcaseeq w (lit ''help'')" "\<not> strcaseeq w (lit ''sync'')"
    "\<not> strcaseeq w (lit ''async'')"
proof -
  have "strcaseeq w x \<longleftrightarrow> strcaseeq (lit ''put'') x" for x using assms by (simp add: strcaseeq_def)
  moreover have "\<not> strcaseeq (lit ''put'') (lit ''use'')" "\<not> strcaseeq (lit ''put'') (lit ''get'')"
    "\<not> strcaseeq (lit ''put'') (lit ''del'')" "strcaseeq (lit ''put'') (lit ''put'')"
    "\<not> strcaseeq (lit ''put'') (lit ''exit'')" "\<not> strcaseeq (lit ''put'') (lit ''quit'')"
    "\<not> strcaseeq (lit ''put'') (lit ''help'')" "\<not> strcaseeq (lit ''put'') (lit ''sync'')"
    "\<not> strcaseeq (lit ''put'') (lit ''async'')"
    by code_simp+
  ultimately show "run_command cli w p = command_send_data cli p False False" "\<not> strcaseeq w (lit ''exit'')"
    "\<not> strcaseeq w (lit ''quit'')" "\<not> strcaseeq w (lit ''help'')" "\<not> strcaseeq w (lit ''sync'')"
    "\<not> strcaseeq w (lit ''async'')"
    by (simp_all add: run_command_def)
qed

lemma send_data_put:
  assumes "list_all IS_SPACE sp" and "key \<noteq> []" and "34 \<notin> set key" and "0 \<notin> set key" and "0 \<notin> set data"
    and "s \<noteq> 0"
  shows "command_send_data cli (34 # key @ 34 # s # sp @ 34 # data @ 34 # 0 # rest) False False =
    when_connected cli (\<lambda>cli. do {
      (rc, cl) \<leftarrow> finedb_put (client cli) key data;
      Some (print (put_result key rc) (cli\<lparr>client := cl\<rparr>)) })"
  using parse_key_quoted [of "[]" key] parse_data_quoted [of sp s data] assms
  by (simp add: command_send_data_def put_answer_text)

text \<open>
  A line of the form \<^verbatim>\<open>put "key" "data"\<close>, with the command in any case, any spaces before the
  command, the key and the data, and any memory behind the line, makes the client check the connection
  and then store exactly the bytes between the quotes; the value may contain quotes, the key may not.
\<close>

theorem put_line_parsed:
  assumes "list_all IS_SPACE (sp0 @ b # sp1 @ sp2)" and "strcaseeq w (lit ''put'')"
    and "\<forall>c \<in> set w. c \<noteq> 0 \<and> \<not> IS_SPACE c"
    and "key \<noteq> []" and "34 \<notin> set key" and "0 \<notin> set key" and "0 \<notin> set data" and "s \<noteq> 0"
  shows "cli_line cli (sp0 @ w @ b # sp1 @ 34 # key @ 34 # s # sp2 @ 34 # data @ 34 # 0 # rest) =
    map_option (Pair True) (when_connected cli (\<lambda>cli. do {
      (rc, cl) \<leftarrow> finedb_put (client cli) key data;
      Some (print (put_result key rc) (cli\<lparr>client := cl\<rparr>)) }))"
proof -
  have w: "w \<noteq> []"
    using assms(2) by (auto simp: strcaseeq_def cstr_def lit_def)
  have "hd w \<noteq> 63"
  proof
    assume "hd w = 63"
    then obtain w' where "w = 63 # w'" using w by (cases w) auto
    then have "hd (map tolower (cstr w)) = 63" by (simp add: cstr_def tolower_def)
    moreover have "hd (map tolower (cstr w)) = 112"
      using assms(2) by (simp add: strcaseeq_def) (simp add: cstr_def tolower_def lit_def)
    ultimately show False by simp
  qed
  show ?thesis
    using cli_line_command [of sp0 b sp1 w 34 cli] send_data_put [of sp2 key data s cli rest] assms(1,3-8) w
      \<open>hd w \<noteq> 63\<close> put_is_run [OF assms(2)]
    by simp
qed

definition wit_cli :: cli_t where
  "wit_cli = \<lparr>client = \<lparr>inp = [], outp = [], sends = [], mem = [], hostname = [], cl_port = 11138, sock = 4,
     cl_sync = True, opened = True\<rparr>, cli_dbname = None, in_transaction = False, autocheck = False, screen = [],
     reconnects = [], behind = [0]\<rparr>"

theorem put_line_parsed_witness:
  "cli_line wit_cli (lit ''PUT \"k\"  \"a\"b\"'' @ [0]) =
    map_option (Pair True) (when_connected wit_cli (\<lambda>cli. do {
      (rc, cl) \<leftarrow> finedb_put (client cli) (lit ''k'') (lit ''a\"b'');
      Some (print (put_result (lit ''k'') rc) (cli\<lparr>client := cl\<rparr>)) }))"
proof -
  have "strcaseeq (lit ''PUT'') (lit ''put'')" "\<forall>c \<in> set (lit ''PUT''). c \<noteq> 0 \<and> \<not> IS_SPACE c"
    by code_simp+
  then show ?thesis
    using put_line_parsed [of "[]" 32 "[]" "[32]" "lit ''PUT''" "lit ''k''" "lit ''a\"b''" 32 wit_cli "[]"]
    by (simp add: lit_def IS_SPACE_def)
qed

text \<open>The words of a line, and where the pointer of the main loop goes.\<close>

lemma LTRIM_Some: "LTRIM p = Some q \<Longrightarrow> \<exists>sp. p = sp @ q \<and> list_all IS_SPACE sp"
proof (induction p arbitrary: q)
  case (Cons c p)
  show ?case
  proof (cases "c \<noteq> 0 \<and> IS_SPACE c")
    case True
    then obtain sp where "p = sp @ q" "list_all IS_SPACE sp" using Cons by auto
    then show ?thesis using True by (intro exI [of _ "c # sp"]) simp
  next
    case False
    then show ?thesis using Cons.prems by (intro exI [of _ "[]"]) (auto split: if_splits)
  qed
qed simp

lemma get_word_Some: "get_word p = Some (w, q) \<Longrightarrow> p = w @ q"
  by (induction p arbitrary: w) (auto split: if_splits)

text \<open>
  A line with nothing behind its command, in a block of its own size (as \<^verbatim>\<open>linenoise\<close> returns
  it), is read past its end: the main loop writes the NUL over the NUL and goes on behind it. Every
  command without an argument, \<^verbatim>\<open>ping\<close>, \<^verbatim>\<open>start\<close> or \<^verbatim>\<open>quit\<close>, is such a line.
\<close>

theorem lone_word_overreads:
  assumes "\<forall>c \<in> set w. c \<noteq> 0 \<and> \<not> IS_SPACE c"
  shows "cli_line cli (w @ [0]) = None"
proof -
  have "LTRIM (w @ [0]) = Some (w @ [0])" using assms by (cases w) auto
  moreover have "get_word (w @ [0]) = Some (w, [0])" using get_word_word [of w 0 "[]"] assms by auto
  ultimately show ?thesis by (simp add: cli_line_def)
qed

theorem lone_word_overreads_witness: "cli_line wit_cli (lit ''ping'' @ [0]) = None"
  by (rule lone_word_overreads) code_simp

text \<open>
  In batch mode the program ends properly only when the first word of its input is \<^verbatim>\<open>exit\<close> or
  \<^verbatim>\<open>quit\<close>: then it has done nothing. With every other input, the empty one included, it
  uses the null pointer after the first line at the latest.
\<close>

theorem batch_runs_no_command:
  assumes "cli_batch cli input = Some (code, cli')"
  shows "cli' = cli \<and> code = 0 \<and> (\<exists>sp w rest. input @ [0] = sp @ w @ rest \<and> list_all IS_SPACE sp \<and>
    (strcaseeq w (lit ''exit'') \<or> strcaseeq w (lit ''quit'')))"
proof -
  have line: "cli_line cli (input @ [0]) = Some (False, cli')" and "code = 0"
    using assms by (auto simp: cli_batch_def bind_eq_Some_conv split: if_splits)
  from line obtain p w q where p: "LTRIM (input @ [0]) = Some p" "get_word p = Some (w, q)"
    and e: "cli' = cli" "strcaseeq w (lit ''exit'') \<or> strcaseeq w (lit ''quit'')"
    unfolding cli_line_def by (auto simp: bind_eq_Some_conv split: if_splits)
  then show ?thesis
    using LTRIM_Some [OF p(1)] get_word_Some [OF p(2)] \<open>code = 0\<close> by auto
qed

theorem batch_runs_no_command_witness:
  "cli_batch wit_cli (lit ''quit '') = Some (0, wit_cli) \<and>
    (\<exists>sp w rest. lit ''quit '' @ [0] = sp @ w @ rest \<and> list_all IS_SPACE sp \<and>
      (strcaseeq w (lit ''exit'') \<or> strcaseeq w (lit ''quit'')))"
proof -
  have "cli_batch wit_cli (lit ''quit '') = Some (0, wit_cli)"
    by (simp add: cli_batch_def cli_line_def lit_def IS_SPACE_def strcaseeq_def cstr_def tolower_def)
  then show ?thesis using batch_runs_no_command by blast
qed

end
