(* ===== verification/EndToEnd.thy ===== *)
theory EndToEnd
  imports Client Requests
begin

text \<open>
  The client library and the server together. \<open>remote\<close> runs an operation of the client against
  one round of the server: the bytes that the client sends arrive at the server in one segment,
  and the bytes that the server answers arrive at the client.
\<close>

section \<open>A call over the network\<close>

text \<open>
  What an operation sends does not depend on the answer, so it is found by running the operation
  without one.
\<close>

definition remote ::
    "(finedb_client_t \<Rightarrow> ('r \<times> finedb_client_t) option) \<Rightarrow> 'e lmdb \<Rightarrow> finedb_client_t \<Rightarrow> tcp_thread_t \<Rightarrow>
       'e finedb_t \<Rightarrow> ('r \<times> finedb_client_t \<times> tcp_thread_t \<times> 'e finedb_t) option" where
  "remote oper L cl th db = do {
     (_, cl0) \<leftarrow> oper (cl\<lparr>inp := []\<rparr>);
     (go, th1, db1) \<leftarrow> request_step L (th\<lparr>inp := [RecvData (drop (length (outp cl)) (outp cl0))]\<rparr>) db;
     (r, cl1) \<leftarrow> oper (cl\<lparr>inp := [RecvData (drop (length (outp th)) (outp th1))]\<rparr>);
     Some (r, cl1, th1, db1) }"

definition get_op :: "bytes \<Rightarrow> finedb_client_t \<Rightarrow> ((finedb_result_t \<times> bytes option) \<times> finedb_client_t) option" where
  "get_op k cl = map_option (\<lambda>(r, v, cl'). ((r, v), cl')) (finedb_get cl k)"

definition put_op :: "bytes \<Rightarrow> bytes \<Rightarrow> finedb_client_t \<Rightarrow> (finedb_result_t \<times> finedb_client_t) option" where
  "put_op k d cl = finedb_put cl k d"

definition ready_client :: "finedb_client_t \<Rightarrow> bool" where
  "ready_client cl \<longleftrightarrow> connected cl \<and> sends cl = [] \<and> mem cl = []"

lemma ready_client_inp [simp]: "ready_client (cl\<lparr>inp := i\<rparr>) = ready_client cl"
  "ready_client (cl\<lparr>outp := out\<rparr>) = ready_client cl"
  by (simp_all add: ready_client_def connected_def)

lemma inp_outp: "(cl :: finedb_client_t)\<lparr>inp := i, outp := out\<rparr> = cl\<lparr>outp := out, inp := i\<rparr>"
  by (cases cl) simp

section \<open>The client's side\<close>

lemma client_write_ready:
  "ready_client cl \<Longrightarrow> client_write cl msg = (int (length msg), cl\<lparr>outp := outp cl @ msg\<rparr>)"
  by (simp add: client_write_def ready_client_def sendmsg_def)

lemma send_and_wait_ready:
  assumes "ready_client cl"
  shows "send_and_wait cl msg = read_status (cl\<lparr>outp := outp cl @ msg\<rparr>)"
  using client_write_ready [OF assms] by (simp add: send_and_wait_def)

lemma read_status_none: "read_status (cl\<lparr>inp := []\<rparr>) = (FINEDB_ERR_NETWORK, cl\<lparr>inp := []\<rparr>)"
  by (simp add: read_status_def client_read1_def recv_def)

lemma read_status_one:
  "ready_client cl \<Longrightarrow> read_status (cl\<lparr>inp := [RecvData [b]]\<rparr>) =
     (if RESPONSE_STATUS b \<noteq> 1 then FINEDB_ERR_SERVER else FINEDB_OK, cl\<lparr>inp := []\<rparr>)"
  by (simp add: read_status_def client_read1_def recv_def ready_client_def connected_def)

text \<open>The server's view of the client's messages.\<close>

lemma key_field_bytes: "key_field k = key_bytes k"
  by (simp add: key_field_def key_bytes_def)

lemma add_commute: "REQUEST_ADD_SYNC (REQUEST_ADD_COMPRESSED b) = REQUEST_ADD_COMPRESSED (REQUEST_ADD_SYNC b)"
  by (simp add: REQUEST_ADD_SYNC_def REQUEST_ADD_COMPRESSED_def or.assoc or.commute or.left_commute)

lemma client_zip_ok:
  assumes "mem cl = []" and "length d < 2 ^ 31"
  shows "\<exists>z. zipped d z \<and> length z < snappy_max_compressed_length (length d) \<and>
    (\<forall>i. client_zip (cl\<lparr>inp := i\<rparr>) d = Some (Inr z, cl\<lparr>inp := i\<rparr>))"
proof -
  obtain env out len b where z: "snappy_init_env True
      \<lparr>hash_table = None, env_scratch = None, env_scratch_output = None\<rparr> = (0, env)"
    "snappy_compress env d (length d) (YMALLOC (snappy_max_compressed_length (length d))) = Some (0, out, len)"
    "mem_write out len [0] = Some b" "zipped d (take len b)"
    "length (take len b) < snappy_max_compressed_length (length d)"
    using snappy_zip [OF assms(2)] by blast
  have "client_zip (cl\<lparr>inp := i\<rparr>) d = Some (Inr (take len b), cl\<lparr>inp := i\<rparr>)" for i
    using z(1-3) assms(1) by (simp add: client_zip_def)
  then show ?thesis using z(4,5) by blast
qed

lemma put_message:
  assumes "ready_client cl" and "length d < 2 ^ 31"
  shows "\<exists>z. zipped d z \<and> length z < snappy_max_compressed_length (length d) \<and>
    (\<forall>i. put_op k d (cl\<lparr>inp := i\<rparr>) = Some (read_status (cl\<lparr>outp := outp cl @
      req_byte (cl_sync cl) True (Put k z) # req_payload (Put k z), inp := i\<rparr>)))"
proof -
  obtain z where z: "zipped d z" "length z < snappy_max_compressed_length (length d)"
    "\<And>i. client_zip (cl\<lparr>inp := i\<rparr>) d = Some (Inr z, cl\<lparr>inp := i\<rparr>)"
    using client_zip_ok [of cl d] assms by (auto simp: ready_client_def)
  have "put_op k d (cl\<lparr>inp := i\<rparr>) = Some (read_status (cl\<lparr>outp := outp cl @
      req_byte (cl_sync cl) True (Put k z) # req_payload (Put k z), inp := i\<rparr>))" for i
    using z(3) [of i] send_and_wait_ready [of "cl\<lparr>inp := i\<rparr>"] assms(1)
    by (simp add: put_op_def finedb_put_def send_key_data_def key_field_bytes value_bytes_def req_byte_def
        add_commute inp_outp)
  then show ?thesis using z(1,2) by blast
qed

lemma get_message:
  assumes "ready_client cl"
  shows "get_op k (cl\<lparr>inp := i\<rparr>) = map_option (\<lambda>(r, v, cl'). ((r, v), cl'))
    (get_response (cl\<lparr>outp := outp cl @ req_byte False True (Get k) # req_payload (Get k), inp := i\<rparr>,
       ydynabin_zero))"
proof -
  have "mem cl = []" using assms by (simp add: ready_client_def)
  then show ?thesis
    using client_write_ready [of "cl\<lparr>inp := i\<rparr>"] assms
    by (simp add: get_op_def finedb_get_def key_field_bytes req_byte_def ydynabin_new_def inp_outp)
qed

section \<open>Parsing a response\<close>

lemma client_field_segment:
  assumes "connected cl" and "mem cl = []" and c: "dyn_inv c" "dyn_content c = []"
    and i: "inp cl = RecvData (f @ rest) # r" "length (f @ rest) \<le> 8196" and n: "length f = unat n" "0 < n"
  shows "\<exists>c'. client_field (cl, c) n = Some (Some f, cl\<lparr>inp := r\<rparr>, c') \<and> dyn_inv c' \<and> dyn_content c' = rest"
proof -
  have pos: "0 < unat n" using n(2) by (simp add: word_less_nat_alt)
  then have f: "f @ rest \<noteq> []" using n(1) by auto
  obtain c1 where c1: "read_loop cl c n = Some (YENOERR, c1, cl\<lparr>inp := r\<rparr>)" "dyn_inv c1" "dyn_content c1 = f @ rest"
    using read_loop_segment [OF c assms(2) i(1) f i(2) n(2)] n(1) by auto
  have "\<not> n \<le> dyn_len c" using c pos length_dyn_content [of c] by (simp add: unat_le_iff)
  then have "read_data (cl, c) n = Some (YENOERR, cl\<lparr>inp := r\<rparr>, c1)"
    using c1(1) assms(1) by (simp add: read_data_def)
  moreover obtain p c' where "ydynabin_forward c1 n = (p, c')" "dyn_inv c'" "dyn_content c' = rest"
    "dyn_deref c' p (unat n) = Some f"
    using dyn.fetch_prefix [OF c1(2,3) n(1)] by auto
  ultimately show ?thesis by (intro exI [of _ c']) (simp add: client_field_def)
qed

lemma get_response_none: "get_response (cl\<lparr>inp := []\<rparr>, ydynabin_zero) = Some (FINEDB_ERR_NETWORK, None, cl\<lparr>inp := []\<rparr>)"
proof -
  have "read_loop (cl\<lparr>inp := []\<rparr>) ydynabin_zero 1 = Some (YEACCESS, ydynabin_zero, cl\<lparr>inp := []\<rparr>)"
    by (subst read_loop.simps) (simp add: recv_def ydynabin_zero_def)
  then show ?thesis
    by (simp add: get_response_def client_field_def read_data_def) (simp add: ydynabin_zero_def)
qed

lemma get_response_error:
  assumes "ready_client cl" and "RESPONSE_STATUS b \<noteq> 1"
  shows "\<exists>cl'. get_response (cl\<lparr>inp := [RecvData [b]]\<rparr>, ydynabin_zero) = Some (FINEDB_ERR_SERVER, None, cl')"
  using client_field_segment [of "cl\<lparr>inp := [RecvData [b]]\<rparr>" ydynabin_zero "[b]" "[]" "[]" 1] assms
  by (auto simp: get_response_def ready_client_def connected_def)

lemma get_response_waits:
  assumes "ready_client cl" and "RESPONSE_STATUS b = 1"
  shows "\<exists>cl'. get_response (cl\<lparr>inp := [RecvData [b]]\<rparr>, ydynabin_zero) = Some (FINEDB_ERR_NETWORK, None, cl')"
proof -
  obtain c where c: "client_field (cl\<lparr>inp := [RecvData [b]]\<rparr>, ydynabin_zero) 1 = Some (Some [b], cl\<lparr>inp := []\<rparr>, c)"
    "dyn_inv c" "dyn_content c = []"
    using client_field_segment [of "cl\<lparr>inp := [RecvData [b]]\<rparr>" ydynabin_zero "[b]" "[]" "[]" 1] assms(1)
    by (auto simp: ready_client_def connected_def)
  have "dyn_len c = 0" using length_dyn_content [OF c(2)] c(3) by (simp add: unat_eq_0)
  then have "read_loop (cl\<lparr>inp := []\<rparr>) c 4 = Some (YEACCESS, c, cl\<lparr>inp := []\<rparr>)"
    by (subst read_loop.simps) (simp add: recv_def)
  then have "client_field (cl\<lparr>inp := []\<rparr>, c) 4 = Some (None, cl\<lparr>inp := []\<rparr>, c)"
    using \<open>dyn_len c = 0\<close> by (simp add: client_field_def read_data_def)
  then show ?thesis using c(1) assms(2) by (simp add: get_response_def)
qed

lemma get_response_found:
  assumes cl: "ready_client cl" and z: "zipped d z" "length z < 8192"
    and resp: "inp cl = [RecvData (response_bytes RESP_OK False True (Some z))]"
  shows "\<exists>cl'. get_response (cl, ydynabin_zero) = Some (FINEDB_OK, Some d, cl') \<and> ready_client cl' \<and>
    cl_sync cl' = cl_sync cl \<and> outp cl' = outp cl"
proof -
  have con: "connected cl" "mem cl = []" using cl by (simp_all add: ready_client_def)
  let ?b = "response_code RESP_OK False True" and ?l = "htonl (word_of_nat (length z))"
  have b: "RESPONSE_STATUS ?b = 1" "REQUEST_HAS_COMPRESSED ?b"
    by (simp_all add: response_code_def response_macros)
  have "inp cl = [RecvData ([?b] @ ?l @ z)]" using resp by (simp add: response_bytes_def)
  then obtain c1 where c1: "client_field (cl, ydynabin_zero) 1 = Some (Some [?b], cl\<lparr>inp := []\<rparr>, c1)"
    "dyn_inv c1" "dyn_content c1 = ?l @ z"
    using client_field_segment [OF con, of ydynabin_zero "[?b]" "?l @ z" "[]" 1] z(2) by auto
  obtain c2 where c2: "client_field (cl\<lparr>inp := []\<rparr>, c1) 4 = Some (Some ?l, cl\<lparr>inp := []\<rparr>, c2)"
    "dyn_inv c2" "dyn_content c2 = z"
    using cli.field_buffered [of "(cl\<lparr>inp := []\<rparr>, c1)" ?l z 4] c1 by auto
  have l: "ntohl ?l = word_of_nat (length z)" "unat (word_of_nat (length z) :: u32) = length z"
    using z(2) by (simp_all add: unat_of_length)
  have pos: "0 < (word_of_nat (length z) :: u32)"
    using z(1) l(2) by (simp add: word_less_nat_alt zipped_def)
  obtain c3 where c3: "client_field (cl\<lparr>inp := []\<rparr>, c2) (ucast (word_of_nat (length z) :: u32)) =
      Some (Some z, cl\<lparr>inp := []\<rparr>, c3)"
    using cli.field_buffered [of "(cl\<lparr>inp := []\<rparr>, c2)" z "[]" "ucast (word_of_nat (length z) :: u32)"] c2 l(2) by auto
  have "get_value (cl\<lparr>inp := []\<rparr>) ?b z = Some (FINEDB_OK, Some d, cl\<lparr>inp := []\<rparr>)"
    using b(2) z(1) con(2) by (simp add: get_value_def zipped_def)
  then have "get_response (cl, ydynabin_zero) = Some (FINEDB_OK, Some d, cl\<lparr>inp := []\<rparr>)"
    using c1(1) b(1) c2(1) l(1) pos c3 con(2) by (simp add: get_response_def)
  then show ?thesis using cl by simp
qed

section \<open>Operations through the server\<close>

text \<open>A connection between a client and a thread that is waiting for a request.\<close>

definition linked :: "('e \<Rightarrow> mdb_abs) \<Rightarrow> finedb_client_t \<Rightarrow> tcp_thread_t \<Rightarrow> 'e finedb_t \<Rightarrow> bool" where
  "linked obs cl th db \<longleftrightarrow> ready_client cl \<and> calm obs th db \<and> dyn_content (buff th) = []"

lemma linked_request:
  assumes "lmdb_ok L obs" and "\<not> commit_fails L" and l: "linked obs cl th db" and req: "req_ok req"
    "length (req_payload req) < 8196" "decodable c req (session_of obs th db)"
  shows "\<exists>go th1 db1 out. request_step L (th\<lparr>inp := [RecvData (req_byte y c req # req_payload req)]\<rparr>) db =
      Some (go, th1, db1) \<and>
    answers (transaction th \<noteq> None \<or> y) c False req (session_of obs th db) go out (session_of obs th1 db1) \<and>
    drop (length (outp th)) (outp th1) = out \<and> calm obs th1 db1 \<and> dyn_content (buff th1) = []"
proof -
  let ?th = "th\<lparr>inp := [RecvData (req_byte y c req # req_payload req)]\<rparr>"
  have "calm obs ?th db" using l by (simp add: linked_def calm_def owned_def)
  moreover have "session_of obs ?th db = session_of obs th db" by (rule session_same) simp_all
  ultimately show ?thesis
    using request_served [OF assms(1,2), where th = ?th and db = db and y = y and c = c and req = req and r = "[]"] l req by (fastforce simp: linked_def)
qed

lemma remote_put:
  assumes ok: "lmdb_ok L obs" "\<not> commit_fails L" and l: "linked obs cl th db"
    and k: "length k < 2 ^ 16" "length k + snappy_max_compressed_length (length d) < 8180"
  shows "\<exists>z r cl1 th1 db1 go out. zipped d z \<and> length z < 8192 \<and>
    remote (put_op k d) L cl th db = Some (r, cl1, th1, db1) \<and> linked obs cl1 th1 db1 \<and>
    answers (transaction th \<noteq> None \<or> cl_sync cl) True False (Put k z) (session_of obs th db) go out
      (session_of obs th1 db1) \<and>
    (r = FINEDB_OK \<longleftrightarrow> out = response_bytes RESP_OK False False None)"
proof -
  have d: "length d < 2 ^ 31" using k(2) by (simp add: snappy_max_compressed_length_def)
  have cl: "ready_client cl" using l by (simp add: linked_def)
  obtain z where z: "zipped d z" "length z < snappy_max_compressed_length (length d)" and
    msg: "\<And>i. put_op k d (cl\<lparr>inp := i\<rparr>) = Some (read_status (cl\<lparr>outp := outp cl @
      req_byte (cl_sync cl) True (Put k z) # req_payload (Put k z), inp := i\<rparr>))"
    using put_message [OF cl d] by blast
  have "length (req_payload (Put k z)) < 8196" "length z < 8192" "req_ok (Put k z)"
    using z(2) k by (simp_all add: key_bytes_def value_bytes_def)
  then obtain go th1 db1 out where s:
    "request_step L (th\<lparr>inp := [RecvData (req_byte (cl_sync cl) True (Put k z) # req_payload (Put k z))]\<rparr>) db =
      Some (go, th1, db1)"
    "answers (transaction th \<noteq> None \<or> cl_sync cl) True False (Put k z) (session_of obs th db) go out
      (session_of obs th1 db1)"
    "drop (length (outp th)) (outp th1) = out" "calm obs th1 db1" "dyn_content (buff th1) = []"
    using linked_request [OF ok l, of "Put k z" True "cl_sync cl"] by (auto simp: decodable_def)
  let ?cl = "cl\<lparr>outp := outp cl @ req_byte (cl_sync cl) True (Put k z) # req_payload (Put k z)\<rparr>"
  have out: "out = [1] \<or> out = [6]" using s(2) by (auto elim!: answers_putE simp: response_bytes_plain)
  have "remote (put_op k d) L cl th db = Some (if out = [1] then FINEDB_OK else FINEDB_ERR_SERVER,
      ?cl\<lparr>inp := []\<rparr>, th1, db1)"
    using msg [of "[]"] msg [of "[RecvData out]"] read_status_none [of ?cl] s(1,3) out
      read_status_one [of ?cl 1] read_status_one [of ?cl 6] cl
    by (auto simp: remote_def RESPONSE_STATUS_def)
  moreover have "linked obs (?cl\<lparr>inp := []\<rparr>) th1 db1" using cl s(4,5) by (simp add: linked_def)
  ultimately show ?thesis
    using z(1) \<open>length z < 8192\<close> s(2) out
    by (intro exI [of _ z] exI [of _ "if out = [1] then FINEDB_OK else FINEDB_ERR_SERVER"]
        exI [of _ "?cl\<lparr>inp := []\<rparr>"] exI [of _ th1] exI [of _ db1] exI [of _ go] exI [of _ out])
      (simp add: response_bytes_plain)
qed

lemma remote_get:
  assumes ok: "lmdb_ok L obs" "\<not> commit_fails L" and l: "linked obs cl th db" and k: "length k < 8180"
    and v: "visible (session_of obs th db) k = Some z" "zipped d z" "length z < 8192"
  shows "\<exists>r cl1 th1 db1. remote (get_op k) L cl th db = Some (r, cl1, th1, db1) \<and>
    (r = (FINEDB_OK, Some d) \<or> r = (FINEDB_ERR_NETWORK, None))"
proof -
  have cl: "ready_client cl" using l by (simp add: linked_def)
  let ?m = "req_byte False True (Get k) # req_payload (Get k)"
  have "decodable True (Get k) (session_of obs th db)" by (simp add: decodable_def decodes_to_def)
  then obtain go th1 db1 out where s: "request_step L (th\<lparr>inp := [RecvData ?m]\<rparr>) db = Some (go, th1, db1)"
    "answers (transaction th \<noteq> None \<or> False) True False (Get k) (session_of obs th db) go out (session_of obs th1 db1)"
    "drop (length (outp th)) (outp th1) = out"
    using linked_request [OF ok l, of "Get k" True False] k by (auto simp: key_bytes_def)
  let ?cl = "cl\<lparr>outp := outp cl @ ?m\<rparr>"
  have msg: "get_op k (cl\<lparr>inp := i\<rparr>) = map_option (\<lambda>(r, v, cl'). ((r, v), cl')) (get_response (?cl\<lparr>inp := i\<rparr>, ydynabin_zero))" for i
    using get_message [OF cl, of k i] by simp
  have "out = response_bytes RESP_OK False True (Some z) \<or> out = [3]"
    using s(2) v by (auto elim!: answers_getE simp: response_bytes_plain decodes_to_def)
  then obtain r v' cl1 where "get_response (?cl\<lparr>inp := [RecvData out]\<rparr>, ydynabin_zero) = Some (r, v', cl1)"
    "r = FINEDB_OK \<and> v' = Some d \<or> r = FINEDB_ERR_NETWORK \<and> v' = None"
    using get_response_found [of "?cl\<lparr>inp := [RecvData out]\<rparr>" d z] get_response_waits [of ?cl 3] cl v(2,3)
    by (fastforce simp: RESPONSE_STATUS_def)
  then show ?thesis
    using msg [of "[]"] msg [of "[RecvData out]"] get_response_none [of ?cl] s(1,3)
    by (auto simp: remote_def)
qed

text \<open>After a synchronous put that succeeded the stored value can be seen and decompresses to what was put.\<close>

lemma remote_put_visible:
  assumes "lmdb_ok L obs" and "\<not> commit_fails L" and "linked obs cl th db" and "transaction th = None"
    and "cl_sync cl" and "length k + snappy_max_compressed_length (length d) < 8180"
    and "remote (put_op k d) L cl th db = Some (FINEDB_OK, cl1, th1, db1)"
  shows "\<exists>z. zipped d z \<and> length z < 8192 \<and> linked obs cl1 th1 db1 \<and> visible (session_of obs th1 db1) k = Some z"
proof -
  have k: "length k < 2 ^ 16" using assms(6) by simp
  obtain z go out where z: "zipped d z" "length z < 8192" and l: "linked obs cl1 th1 db1"
    and a: "answers True True False (Put k z) (session_of obs th db) go out (session_of obs th1 db1)"
      "out = response_bytes RESP_OK False False None"
    using remote_put [OF assms(1-3) k assms(6)] assms(5,7) by auto
  from a(1) [unfolded a(2)] have "session_of obs th1 db1 = (session_of obs th db)\<lparr>s_data := (s_data (session_of obs th db))(k \<mapsto> z)\<rparr> \<and>
      s_snapshot (session_of obs th db) = None"
    by (rule answers_putE) (simp_all add: response_bytes_plain encodes_def)
  then have "visible (session_of obs th1 db1) k = Some z" by (simp add: visible_def)
  then show ?thesis using z l by blast
qed

section \<open>Properties\<close>


definition wit_client :: finedb_client_t where
  "wit_client = \<lparr>inp = [], outp = [], sends = [], mem = [], hostname = [], cl_port = 11138, sock = 4,
     cl_sync = True, opened = True\<rparr>"

lemma wit_linked: "linked mem_abs wit_client (thread_on []) empty_db"
  using calm_thread_on by (simp add: linked_def ready_client_def connected_def wit_client_def thread_on_def)

text \<open>On the empty database in memory a put succeeds.\<close>

lemma wit_put: "\<exists>cl1 th1 db1. remote (put_op [1] [2, 3]) mem_lmdb wit_client (thread_on []) empty_db =
    Some (FINEDB_OK, cl1, th1, db1)"
proof -
  have k: "length [1 :: byte] < 2 ^ 16" "length [1 :: byte] + snappy_max_compressed_length (length [2, 3 :: byte]) < 8180"
    by (simp_all add: snappy_max_compressed_length_def)
  have cl: "ready_client wit_client" "length [2, 3 :: byte] < 2 ^ 31" "cl_sync wit_client"
    using wit_linked by (simp_all add: linked_def wit_client_def)
  obtain z where z: "zipped [2, 3] z" "length z < snappy_max_compressed_length (length [2, 3 :: byte])" and
    msg: "\<And>i. put_op [1] [2, 3] (wit_client\<lparr>inp := i\<rparr>) = Some (read_status (wit_client\<lparr>outp := outp wit_client @
      req_byte True True (Put [1] z) # req_payload (Put [1] z), inp := i\<rparr>))"
    using put_message [OF cl(1,2), of "[1]"] cl(3) by auto
  let ?m = "req_byte True True (Put [1] z) # req_payload (Put [1] z)"
  let ?th = "(thread_on [])\<lparr>inp := [RecvData ?m]\<rparr>" and ?cl = "wit_client\<lparr>outp := outp wit_client @ ?m\<rparr>"
  have small: "length (req_payload (Put [1] z)) < 8196" "length z < 2 ^ 31"
    using z(2) by (simp_all add: key_bytes_def value_bytes_def snappy_max_compressed_length_def)
  have calm: "calm mem_abs ?th empty_db" using calm_thread_on by (simp add: calm_def owned_def)
  obtain buf where buf: "dyn_inv buf" "dyn_content buf = req_payload (Put [1] z)" and run:
    "request_step mem_lmdb ?th empty_db = do {
      (r', th', db') \<leftarrow> command_put mem_lmdb (?th\<lparr>inp := [], buff := buf\<rparr>) True True False empty_db;
      Some (r' = YENOERR, th', db') }"
    using request_dispatch [OF calm, of True True "Put [1] z" "[]" mem_lmdb] small by (auto simp: thread_on_def)
  have "calm mem_abs (?th\<lparr>inp := [], buff := buf\<rparr>) empty_db" using calm buf(1) by (simp add: calm_def owned_def)
  then have "\<exists>th' db'. request_step mem_lmdb ?th empty_db = Some (True, th', db') \<and> outp th' = [1]"
    using put_run [of mem_abs "?th\<lparr>inp := [], buff := buf\<rparr>" empty_db "[1]" z "[]" True mem_lmdb True False]
      buf(2) run small
    by (auto simp: empty_db_def thread_on_def mem_put_empty answer_calm encodes_def response_bytes_plain)
  then show ?thesis
    using msg [of "[]"] msg [of "[RecvData [1]]"] read_status_none [of ?cl] read_status_one [of ?cl 1] cl(1)
    by (auto simp: remote_def RESPONSE_STATUS_def thread_on_def)
qed


inductive_cases answers_stopE: "answers y c s Stop a go out a'"

text \<open>
  The client takes server errors for success. \<^verbatim>\<open>finedb_stop\<close> outside a transaction makes the
  server answer \<^verbatim>\<open>RESP_ERR_TRANSACTION\<close> and end the connection, and the client returns \<^verbatim>\<open>FINEDB_OK\<close>:
  \<^verbatim>\<open>RESPONSE_STATUS\<close> looks at the lowest bit of the code only.
\<close>

theorem stop_error_reported_ok:
  assumes "lmdb_ok L obs" and "\<not> commit_fails L" and "linked obs cl th db" and "transaction th = None"
  shows "\<exists>cl1 th1 db1. remote (\<lambda>cl. Some (finedb_client_stop cl)) L cl th db = Some (FINEDB_OK, cl1, th1, db1) \<and>
    request_step L (th\<lparr>inp := [RecvData [proto_code PROTO_STOP]]\<rparr>) db = Some (False, th1, db1) \<and>
    drop (length (outp th)) (outp th1) = response_bytes RESP_ERR_TRANSACTION False False None"
proof -
  have cl: "ready_client cl" using assms(3) by (simp add: linked_def)
  let ?m = "[proto_code PROTO_STOP]" and ?cl = "cl\<lparr>outp := outp cl @ [proto_code PROTO_STOP]\<rparr>"
  have msg: "finedb_client_stop (cl\<lparr>inp := i\<rparr>) = read_status (?cl\<lparr>inp := i\<rparr>)" for i
    using send_and_wait_ready [of "cl\<lparr>inp := i\<rparr>"] cl
    by (simp add: finedb_client_stop_def send_simple_request_def inp_outp)
  obtain go th1 db1 out where s: "request_step L (th\<lparr>inp := [RecvData ?m]\<rparr>) db = Some (go, th1, db1)"
    "answers False False False Stop (session_of obs th db) go out (session_of obs th1 db1)"
    "drop (length (outp th)) (outp th1) = out"
    using linked_request [OF assms(1-3), of Stop False False] assms(4)
    by (auto simp: decodable_def req_byte_def)
  have "s_snapshot (session_of obs th db) = None" using assms(4) by (simp add: session_of_def)
  with s(2) have out: "out = [7]" "\<not> go" by (auto elim!: answers_stopE simp: response_bytes_plain)
  have "remote (\<lambda>cl. Some (finedb_client_stop cl)) L cl th db = Some (FINEDB_OK, ?cl\<lparr>inp := []\<rparr>, th1, db1)"
    using msg [of "[]"] msg [of "[RecvData [7]]"] read_status_none [of ?cl] read_status_one [of ?cl 7] cl s(1,3) out
    by (simp add: remote_def RESPONSE_STATUS_def)
  then show ?thesis using s(1,3) out by (simp add: response_bytes_plain)
qed

theorem stop_error_reported_ok_witness:
  "\<exists>cl1 th1 db1. remote (\<lambda>cl. Some (finedb_client_stop cl)) mem_lmdb wit_client (thread_on []) empty_db =
      Some (FINEDB_OK, cl1, th1, db1) \<and>
    request_step mem_lmdb ((thread_on [])\<lparr>inp := [RecvData [proto_code PROTO_STOP]]\<rparr>) empty_db = Some (False, th1, db1) \<and>
    drop (length (outp (thread_on []))) (outp th1) = response_bytes RESP_ERR_TRANSACTION False False None"
  by (rule stop_error_reported_ok [OF mem_lmdb_ok mem_commits wit_linked]) (simp add: thread_on_def)


definition long_key :: bytes where
  "long_key = replicate 65537 7"


end
