(* ===== verification/Terminal.thy ===== *)
theory Terminal
  imports Cli EndToEnd
begin

text \<open>
  The command line client and the server together: what a user sees on the terminal after typing
  commands. \<open>typed\<close> is a line as an operation of the client library, so that \<open>remote\<close> of theory
  \<^theory_text>\<open>EndToEnd\<close> runs it against the server.
\<close>

section \<open>Lines as operations\<close>

definition typed :: "cli_t \<Rightarrow> bytes \<Rightarrow> finedb_client_t \<Rightarrow> (bytes \<times> finedb_client_t) option" where
  "typed c line cl = map_option (\<lambda>(go, c'). (screen c', client c')) (cli_line (c\<lparr>client := cl\<rparr>) line)"

definition put_line :: "bytes \<Rightarrow> bytes \<Rightarrow> bytes" where
  "put_line k d = lit ''put \"'' @ k @ lit ''\" \"'' @ d @ lit ''\"'' @ [0]"

definition get_line :: "bytes \<Rightarrow> bytes" where
  "get_line k = lit ''get \"'' @ k @ lit ''\"'' @ [0]"

text \<open>An operation whose result is turned into something else, against the server.\<close>

lemma remote_then:
  assumes "remote oper L cl th db = Some (r, cl1, th1, db1)"
    and "\<And>r cl'. oper (cl\<lparr>inp := []\<rparr>) = Some (r, cl') \<Longrightarrow> h r \<noteq> None"
    and "\<And>i. oper' (cl\<lparr>inp := i\<rparr>) = do { (r, cl') \<leftarrow> oper (cl\<lparr>inp := i\<rparr>); t \<leftarrow> h r; Some (t, cl') }"
    and "h r = Some t"
  shows "remote oper' L cl th db = Some (t, cl1, th1, db1)"
proof -
  obtain r0 cl0 go where o1: "oper (cl\<lparr>inp := []\<rparr>) = Some (r0, cl0)"
    "request_step L (th\<lparr>inp := [RecvData (drop (length (outp cl)) (outp cl0))]\<rparr>) db = Some (go, th1, db1)"
    "oper (cl\<lparr>inp := [RecvData (drop (length (outp th)) (outp th1))]\<rparr>) = Some (r, cl1)"
    using assms(1) by (auto simp: remote_def bind_eq_Some_conv)
  obtain t0 where "h r0 = Some t0" using assms(2) [OF o1(1)] by auto
  then show ?thesis using o1 assms(3,4) by (simp add: remote_def)
qed

lemma remote_then_inv:
  assumes "remote oper' L cl th db = Some (t, cl1, th1, db1)"
    and "\<And>i. oper' (cl\<lparr>inp := i\<rparr>) = do { (r, cl') \<leftarrow> oper (cl\<lparr>inp := i\<rparr>); t \<leftarrow> h r; Some (t, cl') }"
  shows "\<exists>r. remote oper L cl th db = Some (r, cl1, th1, db1) \<and> h r = Some t"
  using assms(1) by (auto simp: remote_def assms(2) bind_eq_Some_conv)

section \<open>The typed commands\<close>

lemma typed_put:
  assumes "\<not> autocheck c" and "k \<noteq> []" "34 \<notin> set k" "0 \<notin> set k" and "0 \<notin> set d"
  shows "typed c (put_line k d) cl = do {
    (r, cl') \<leftarrow> put_op k d cl;
    t \<leftarrow> Some (screen c @ put_result k r);
    Some (t, cl') }"
proof -
  have w: "\<And>c. c \<in> set (lit ''put'') \<Longrightarrow> c \<noteq> 0 \<and> \<not> IS_SPACE c" "IS_SPACE 32" "strcaseeq (lit ''put'') (lit ''put'')"
    by (auto simp: lit_def IS_SPACE_def strcaseeq_def)
  have "cli_line cli (put_line k d) = map_option (Pair True) (when_connected cli (\<lambda>cli. do {
      (rc, cl) \<leftarrow> finedb_put (client cli) k d;
      Some (print (put_result k rc) (cli\<lparr>client := cl\<rparr>)) }))" for cli
    using cli_line_command [of "[]" 32 "[]" "lit ''put''" 34 cli "k @ 34 # 32 # 34 # d @ 34 # 0 # []"] w
      put_is_run [OF w(3)] send_data_put [of "[]" k d 32 cli "[]"] assms
    by (simp add: put_line_def lit_def)
  then show ?thesis
    using assms(1) by (cases "finedb_put cl k d") (auto simp: typed_def put_op_def print_def)
qed

definition get_result :: "bytes \<Rightarrow> bytes \<Rightarrow> finedb_result_t \<times> bytes option \<Rightarrow> bytes option" where
  "get_result k m rv =
     (case rv of (rc, v) \<Rightarrow>
      if rc \<noteq> FINEDB_OK
      then Some (red_text (lit ''Unable to get key '' @ [39] @ k @ [39] @ lit '' ('' @ show_rc rc @ lit '').''))
      else (case v of None \<Rightarrow> None
       | Some d \<Rightarrow> if d = [] then None else map_option (\<lambda>t. t @ [10]) (cstring (d @ m))))"

lemma get_is_run:
  shows "run_command cli (lit ''get'') p = cli_command_get cli p" "\<not> strcaseeq (lit ''get'') (lit ''exit'')"
    "\<not> strcaseeq (lit ''get'') (lit ''quit'')" "\<not> strcaseeq (lit ''get'') (lit ''help'')"
    "\<not> strcaseeq (lit ''get'') (lit ''sync'')" "\<not> strcaseeq (lit ''get'') (lit ''async'')"
proof -
  have "\<not> strcaseeq (lit ''get'') (lit ''use'')" "strcaseeq (lit ''get'') (lit ''get'')" by code_simp+
  then show "run_command cli (lit ''get'') p = cli_command_get cli p" by (simp add: run_command_def)
qed code_simp+

lemma typed_get:
  assumes "\<not> autocheck c" and "k \<noteq> []" "34 \<notin> set k" "0 \<notin> set k"
  shows "typed c (get_line k) cl = do {
    (r, cl') \<leftarrow> get_op k cl;
    t \<leftarrow> map_option ((@) (screen c)) (get_result k (behind c) r);
    Some (t, cl') }"
proof -
  have w: "\<And>c. c \<in> set (lit ''get'') \<Longrightarrow> c \<noteq> 0 \<and> \<not> IS_SPACE c" "IS_SPACE 32"
    by (auto simp: lit_def IS_SPACE_def)
  have "cli_line cli (get_line k) = map_option (Pair True) (cli_command_get cli (34 # k @ 34 # 0 # []))" for cli
    using cli_line_command [of "[]" 32 "[]" "lit ''get''" 34 cli "k @ 34 # 0 # []"] w get_is_run
    by (simp add: get_line_def lit_def)
  then show ?thesis
    using assms(1) parse_key_quoted [of "[]" k "[0]"] assms(2-4)
    by (auto simp: typed_def cli_command_get_def get_op_def print_def
        newline_def get_result_def bind_eq_Some_conv Let_def split: option.splits prod.splits Option.bind_splits)
qed

section \<open>Properties\<close>



end
