(* ===== verification/Ymem.thy ===== *)
theory Ymem
  imports FineDB_Prelude
begin

text \<open>
  What the containers of ylib share: single cells of a block, the loops that shift its cells up or
  down, the sizes of new blocks, which \<^verbatim>\<open>ystr.c\<close> and \<^verbatim>\<open>yvect.c\<close> compute in the same way, and the
  contract of a double-ended sequence, which the vectors and the linked lists both meet.
\<close>

section \<open>Cells\<close>

definition get_cell :: "'a list \<Rightarrow> nat \<Rightarrow> 'a option" where
  "get_cell xs i = (if i < length xs then Some (xs ! i) else None)"

definition set_cell :: "'a list \<Rightarrow> nat \<Rightarrow> 'a \<Rightarrow> 'a list option" where
  "set_cell xs i v = (if i < length xs then Some (xs[i := v]) else None)"

lemma get_cell_Some [mem_simps]: "i < length xs \<Longrightarrow> get_cell xs i = Some (xs ! i)"
  by (simp add: get_cell_def)

lemma set_cell_Some [mem_simps]: "i < length xs \<Longrightarrow> set_cell xs i v = Some (xs[i := v])"
  by (simp add: set_cell_def)

text \<open>\<^verbatim>\<open>for (i = n; i >= 0; --i) p[i + k] = p[i];\<close>\<close>

fun copy_up :: "'a list \<Rightarrow> nat \<Rightarrow> nat \<Rightarrow> 'a list option" where
  "copy_up xs k 0 = do { c \<leftarrow> get_cell xs 0; set_cell xs k c }"
| "copy_up xs k (Suc n) = do {
     c \<leftarrow> get_cell xs (Suc n);
     xs' \<leftarrow> set_cell xs (Suc n + k) c;
     copy_up xs' k n }"

text \<open>\<^verbatim>\<open>for (; i < n; ++i) p[i] = p[i + 1];\<close>\<close>

function copy_down :: "'a list \<Rightarrow> nat \<Rightarrow> nat \<Rightarrow> 'a list option" where
  "copy_down xs i n =
     (if i < n then do {
        c \<leftarrow> get_cell xs (Suc i);
        xs' \<leftarrow> set_cell xs i c;
        copy_down xs' (Suc i) n }
      else Some xs)"
  by auto
termination by (relation "measure (\<lambda>(xs, i, n). n - i)") auto

declare copy_down.simps [simp del]

lemma copy_up_eq:
  "n + k < length xs \<Longrightarrow> copy_up xs k n = Some (take k xs @ take (Suc n) xs @ drop (Suc n + k) xs)"
proof (induction n arbitrary: xs)
  case 0
  then show ?case by (cases xs; cases k) (simp_all add: mem_simps upd_conv_take_nth_drop)
next
  case (Suc n)
  let ?ys = "xs[Suc n + k := xs ! Suc n]"
  have "copy_up xs k (Suc n) = copy_up ?ys k n" using Suc.prems by (simp add: mem_simps)
  also have "\<dots> = Some (take k ?ys @ take (Suc n) ?ys @ drop (Suc n + k) ?ys)"
    using Suc.prems by (intro Suc.IH) simp
  also have "take k ?ys = take k xs" by (simp add: take_update_cancel)
  also have "take (Suc n) ?ys = take (Suc n) xs" by (simp add: take_update_cancel)
  also have "drop (Suc n + k) ?ys = xs ! Suc n # drop (Suc (Suc n) + k) xs"
    using Suc.prems by (simp add: drop_update_swap Cons_nth_drop_Suc [symmetric])
  also have "take k xs @ take (Suc n) xs @ xs ! Suc n # drop (Suc (Suc n) + k) xs =
      take k xs @ take (Suc (Suc n)) xs @ drop (Suc (Suc n) + k) xs"
    using Suc.prems by (simp add: take_Suc_conv_app_nth)
  finally show ?case .
qed

lemma copy_down_eq:
  "i \<le> n \<Longrightarrow> n < length xs \<Longrightarrow> copy_down xs i n = Some (take i xs @ take (n - i) (drop (Suc i) xs) @ drop n xs)"
proof (induction xs i n rule: copy_down.induct)
  case (1 xs i n)
  show ?case
  proof (cases "i < n")
    case False
    then show ?thesis using "1.prems" by (simp add: copy_down.simps)
  next
    case True
    let ?ys = "xs[i := xs ! Suc i]"
    have "copy_down xs i n = copy_down ?ys (Suc i) n"
      using True "1.prems" by (subst copy_down.simps) (simp add: mem_simps)
    also have "\<dots> = Some (take (Suc i) ?ys @ take (n - Suc i) (drop (Suc (Suc i)) ?ys) @ drop n ?ys)"
      using True "1.prems" by (intro "1.IH") (auto simp: mem_simps)
    also have "take (Suc i) ?ys = take i xs @ [xs ! Suc i]"
      using True "1.prems" by (simp add: take_Suc_conv_app_nth take_update_cancel)
    also have "take (n - Suc i) (drop (Suc (Suc i)) ?ys) = take (n - Suc i) (drop (Suc (Suc i)) xs)"
      by (simp add: drop_update_cancel)
    also have "drop n ?ys = drop n xs" using True by (simp add: drop_update_cancel)
    also have "(take i xs @ [xs ! Suc i]) @ take (n - Suc i) (drop (Suc (Suc i)) xs) @ drop n xs =
        take i xs @ take (n - i) (drop (Suc i) xs) @ drop n xs"
      using True "1.prems" by (simp add: Cons_nth_drop_Suc [symmetric] take_Cons' Suc_diff_Suc)
    finally show ?thesis .
  qed
qed

section \<open>Sizes\<close>

text \<open>
  The leap and the size of a new block. The constants are the same for strings (\<^verbatim>\<open>YSTR_SIZE\<close>) and
  vectors (\<^verbatim>\<open>YVECT_SIZE_DEFAULT\<close>); all the variables are \<^verbatim>\<open>unsigned int\<close>.
\<close>

definition size_leap :: "u32 \<Rightarrow> u32" where
  "size_leap sz = (if sz < 65536 then 4096 else if sz < 1048576 then 65536 else 1048576)"

definition size_total :: "u32 \<Rightarrow> u32 \<Rightarrow> u32" where
  "size_total sz extra = ((sz + extra) div size_leap sz + 1) * size_leap sz"

lemma size_total_room:
  assumes "unat sz < 2 ^ 31" and "unat extra \<le> 2"
  shows "unat sz + unat extra < unat (size_total sz extra)"
    and "unat (size_total sz extra) \<le> unat sz + unat extra + 2 ^ 20"
proof -
  let ?l = "unat (size_leap sz)"
  have l: "?l = 4096 \<or> ?l = 65536 \<or> ?l = 1048576" by (simp add: size_leap_def)
  have s: "unat (sz + extra) = unat sz + unat extra"
    using assms by (subst unat_add_lem [THEN iffD1]) auto
  let ?q = "(unat sz + unat extra) div ?l"
  have q: "unat ((sz + extra) div size_leap sz) = ?q" by (simp add: unat_div s)
  have ql: "?q * ?l \<le> unat sz + unat extra" "unat sz + unat extra < (?q + 1) * ?l"
    using l by (auto simp: div_times_less_eq_dividend dividend_less_div_times)
  have "?q < 2 ^ 20" using l assms by auto
  then have q1: "unat ((sz + extra) div size_leap sz + 1) = ?q + 1"
    by (subst unat_add_lem [THEN iffD1]) (auto simp: q)
  have "(?q + 1) * ?l < 2 ^ 32" using ql(1) l assms by auto
  then have t: "unat (size_total sz extra) = (?q + 1) * ?l"
    unfolding size_total_def by (subst unat_mult_lem [THEN iffD1]) (auto simp: q1)
  show "unat sz + unat extra < unat (size_total sz extra)" using ql(2) t by simp
  show "unat (size_total sz extra) \<le> unat sz + unat extra + 2 ^ 20" using ql(1) l t by auto
qed

text \<open>A small \<^verbatim>\<open>size_t\<close> read as an \<^verbatim>\<open>unsigned\<close> or an \<^verbatim>\<open>int\<close>.\<close>

lemma ucast_used:
  assumes "unat (u :: size_t) < 2 ^ 31"
  shows "unat (ucast u :: u32) = unat u" and "sint (ucast u :: u32) = int (unat u)"
proof -
  show u: "unat (ucast u :: u32) = unat u" using assms by (simp add: unsigned_ucast_eq take_bit_nat_eq_self)
  have "int (unat u) < int (2 ^ 31)" using assms by (rule iffD2 [OF of_nat_less_iff])
  also have "int (2 ^ 31) = 2 ^ 31" by simp
  finally have "signed_take_bit 31 (int (unat u)) = int (unat u)"
    by (rule signed_take_bit_int_eq_self [OF order_trans [OF _ of_nat_0_le_iff], rotated]) simp
  moreover have "uint (ucast u :: u32) = int (unat u)" using u by (metis uint_nat)
  ultimately show "sint (ucast u :: u32) = int (unat u)" by (simp add: sint_uint)
qed

section \<open>Double-ended sequences\<close>

text \<open>
  The contract of a container that grows and shrinks at both ends. \<open>fits\<close> bounds the number
  of elements; \<open>null\<close> is what the removal from an empty container returns.
\<close>

datatype 'p seq_op = AddLast 'p | AddFirst 'p | TakeFirst | TakeLast

text \<open>A sequence of operations on a list: what the removals return, and the list at the end.\<close>

fun list_run :: "'p \<Rightarrow> 'p list \<Rightarrow> 'p seq_op list \<Rightarrow> 'p list \<times> 'p list" where
  "list_run null xs [] = ([], xs)"
| "list_run null xs (AddLast x # ops) = list_run null (xs @ [x]) ops"
| "list_run null xs (AddFirst x # ops) = list_run null (x # xs) ops"
| "list_run null xs (TakeFirst # ops) =
     (case list_run null (tl xs) ops of (out, ys) \<Rightarrow> ((if xs = [] then null else hd xs) # out, ys))"
| "list_run null xs (TakeLast # ops) =
     (case list_run null (butlast xs) ops of (out, ys) \<Rightarrow> ((if xs = [] then null else last xs) # out, ys))"

text \<open>The same on a container with its four operations.\<close>

fun seq_run :: "('s \<Rightarrow> 'p \<Rightarrow> 's option) \<Rightarrow> ('s \<Rightarrow> 'p \<Rightarrow> 's option) \<Rightarrow> ('s \<Rightarrow> ('p \<times> 's) option) \<Rightarrow>
    ('s \<Rightarrow> ('p \<times> 's) option) \<Rightarrow> 's \<Rightarrow> 'p seq_op list \<Rightarrow> ('p list \<times> 's) option" where
  "seq_run al af tf tn s [] = Some ([], s)"
| "seq_run al af tf tn s (AddLast x # ops) = do { s' \<leftarrow> al s x; seq_run al af tf tn s' ops }"
| "seq_run al af tf tn s (AddFirst x # ops) = do { s' \<leftarrow> af s x; seq_run al af tf tn s' ops }"
| "seq_run al af tf tn s (TakeFirst # ops) = do {
     (x, s') \<leftarrow> tf s; (out, s'') \<leftarrow> seq_run al af tf tn s' ops; Some (x # out, s'') }"
| "seq_run al af tf tn s (TakeLast # ops) = do {
     (x, s') \<leftarrow> tn s; (out, s'') \<leftarrow> seq_run al af tf tn s' ops; Some (x # out, s'') }"

locale sequence =
  fixes inv :: "'s \<Rightarrow> bool"
    and elems :: "'s \<Rightarrow> 'p list"
    and fits :: "nat \<Rightarrow> bool"
    and null :: 'p
    and add_last add_first :: "'s \<Rightarrow> 'p \<Rightarrow> 's option"
    and take_first take_last :: "'s \<Rightarrow> ('p \<times> 's) option"
  assumes fits_less: "m \<le> n \<Longrightarrow> fits n \<Longrightarrow> fits m"
    and add_last_ok: "inv s \<Longrightarrow> fits (length (elems s)) \<Longrightarrow>
      \<exists>s'. add_last s x = Some s' \<and> inv s' \<and> elems s' = elems s @ [x]"
    and add_first_ok: "inv s \<Longrightarrow> fits (length (elems s)) \<Longrightarrow>
      \<exists>s'. add_first s x = Some s' \<and> inv s' \<and> elems s' = x # elems s"
    and take_first_ok: "inv s \<Longrightarrow>
      \<exists>s'. take_first s = Some (if elems s = [] then null else hd (elems s), s') \<and> inv s' \<and> elems s' = tl (elems s)"
    and take_last_ok: "inv s \<Longrightarrow>
      \<exists>s'. take_last s = Some (if elems s = [] then null else last (elems s), s') \<and> inv s' \<and> elems s' = butlast (elems s)"
begin

text \<open>Every container with this contract behaves like a list under all sequences of operations.\<close>

lemma runs_like_list:
  "inv s \<Longrightarrow> fits (length (elems s) + length ops) \<Longrightarrow>
     \<exists>s'. seq_run add_last add_first take_first take_last s ops = Some (fst (list_run null (elems s) ops), s') \<and>
       inv s' \<and> elems s' = snd (list_run null (elems s) ops)"
proof (induction ops arbitrary: s)
  case (Cons a ops)
  have fit: "fits (length (elems s))" by (rule fits_less [OF _ Cons.prems(2)]) simp
  have less: "fits (m + length ops)" if "m \<le> Suc (length (elems s))" for m
    by (rule fits_less [OF _ Cons.prems(2)]) (use that in simp)
  show ?case
  proof (cases a)
    case (AddLast x)
    obtain s1 where s1: "add_last s x = Some s1" "inv s1" "elems s1 = elems s @ [x]"
      using add_last_ok [OF Cons.prems(1) fit] by blast
    then show ?thesis using Cons.IH [of s1] less [of "length (elems s1)"] AddLast by simp
  next
    case (AddFirst x)
    obtain s1 where s1: "add_first s x = Some s1" "inv s1" "elems s1 = x # elems s"
      using add_first_ok [OF Cons.prems(1) fit] by blast
    then show ?thesis using Cons.IH [of s1] less [of "length (elems s1)"] AddFirst by simp
  next
    case TakeFirst
    obtain s1 where s1: "take_first s = Some (if elems s = [] then null else hd (elems s), s1)" "inv s1"
      "elems s1 = tl (elems s)"
      using take_first_ok [OF Cons.prems(1)] by blast
    then show ?thesis using Cons.IH [of s1] less [of "length (elems s1)"] TakeFirst by (auto split: prod.splits)
  next
    case TakeLast
    obtain s1 where s1: "take_last s = Some (if elems s = [] then null else last (elems s), s1)" "inv s1"
      "elems s1 = butlast (elems s)"
      using take_last_ok [OF Cons.prems(1)] by blast
    then show ?thesis using Cons.IH [of s1] less [of "length (elems s1)"] TakeLast by (auto split: prod.splits)
  qed
qed simp

end

end
