(* ===== verification/Yvect.thy ===== *)
theory Yvect
  imports Ymem
begin

text \<open>
  Vectors of pointers, \<^verbatim>\<open>lib/ylib/yvect.c\<close>. A vector is its header and its slots; the null pointer is
  \<^term>\<open>None\<close>, for an element as for a vector. An outer \<^term>\<open>None\<close> is undefined behaviour. The
  argument \<open>ok\<close> of an operation that allocates says whether the allocation succeeds. Operations that
  call a function on the elements return the elements it is called on.
\<close>

section \<open>The structure\<close>

record 'a yvect_t =
  vtotal :: size_t
  vused :: size_t
  slots :: "'a option list"

definition YVECT_SIZE_DEFAULT :: u32 where
  "YVECT_SIZE_DEFAULT = 4096"

definition yv_create :: "bool \<Rightarrow> u32 \<Rightarrow> 'a yvect_t option option" where
  "yv_create ok n =
     (if \<not> ok then Some None
      else do {
        nv \<leftarrow> set_cell (replicate (unat n) None) 0 None;
        Some (Some \<lparr>vtotal = ucast n, vused = 0, slots = nv\<rparr>) })"

definition yv_new :: "bool \<Rightarrow> 'a yvect_t option option" where
  "yv_new ok = yv_create ok YVECT_SIZE_DEFAULT"

definition yv_del :: "'a yvect_t option \<Rightarrow> bool \<Rightarrow> ('a option list \<times> 'a yvect_t option) option" where
  "yv_del v f =
     (case v of
        None \<Rightarrow> Some ([], None)
      | Some y \<Rightarrow> do {
          calls \<leftarrow> (if f then mem_read (slots y) 0 (unat (vused y)) else Some []);
          Some (calls, None) })"

text \<open>
  The header is looked for in front of the first element instead of in front of the vector:
  undefined, unless the first slot is null, where the function returns early.
\<close>

definition yv_trunc :: "'a yvect_t option \<Rightarrow> bool \<Rightarrow> ('a option list \<times> 'a yvect_t option) option" where
  "yv_trunc v f =
     (case v of
        None \<Rightarrow> Some ([], None)
      | Some y \<Rightarrow> do {
          first \<leftarrow> get_cell (slots y) 0;
          (if first = None then Some ([], v) else None) })"

text \<open>The same mistake: the header would be in front of what the first slot points to, null or not.\<close>

definition yv_setsz :: "bool \<Rightarrow> 'a yvect_t option \<Rightarrow> size_t \<Rightarrow> (int \<times> 'a yvect_t option) option" where
  "yv_setsz ok v sz = (case v of None \<Rightarrow> Some (0, None) | Some y \<Rightarrow> None)"

definition yv_len :: "'a yvect_t option \<Rightarrow> size_t" where
  "yv_len v = (case v of None \<Rightarrow> 0 | Some y \<Rightarrow> vused y)"

section \<open>Growing\<close>

text \<open>The new block that the operations allocate when there is no room: room for \<open>vectsz\<close> elements.\<close>

definition yv_block :: "u32 \<Rightarrow> 'a option list" where
  "yv_block vectsz = replicate (unat (size_total vectsz 1)) None"

definition yv_grown :: "u32 \<Rightarrow> 'a option list \<Rightarrow> 'a yvect_t" where
  "yv_grown vectsz nv = \<lparr>vtotal = ucast (size_total vectsz 1), vused = ucast vectsz, slots = nv\<rparr>"

definition yv_cat :: "bool \<Rightarrow> 'a yvect_t option \<Rightarrow> 'a yvect_t option \<Rightarrow> (int \<times> 'a yvect_t option) option" where
  "yv_cat ok dest src =
     (let srcsz = ucast (yv_len src) :: u32 in
      case (src, dest) of
        (Some s, Some y) \<Rightarrow>
          if srcsz = 0 then Some (1, dest)
          else if vused y + 1 + ucast srcsz \<le> vtotal y then do {
            es \<leftarrow> mem_read (slots s) 0 (unat srcsz + 1);
            sl \<leftarrow> mem_write (slots y) (unat (vused y)) es;
            Some (1, Some (y\<lparr>slots := sl, vused := vused y + ucast srcsz\<rparr>)) }
          else if \<not> ok then Some (0, dest)
          else do {
            old \<leftarrow> mem_read (slots y) 0 (unat (vused y));
            nv1 \<leftarrow> mem_write (yv_block (ucast (vused y) + srcsz)) 0 old;
            es \<leftarrow> mem_read (slots s) 0 (unat srcsz + 1);
            nv2 \<leftarrow> mem_write nv1 (unat (vused y)) es;
            Some (1, Some (yv_grown (ucast (vused y) + srcsz) nv2)) }
      | _ \<Rightarrow> Some (1, dest))"

definition yv_ncat :: "bool \<Rightarrow> 'a yvect_t option \<Rightarrow> 'a yvect_t option \<Rightarrow> u32 \<Rightarrow> (int \<times> 'a yvect_t option) option" where
  "yv_ncat ok dest src n =
     (case (src, dest) of
        (Some s, Some y) \<Rightarrow>
          if n = 0 then Some (1, dest)
          else if vused y + 1 + ucast n \<le> vtotal y then do {
            es \<leftarrow> mem_read (slots s) 0 (unat n);
            sl \<leftarrow> mem_write (slots y) (unat (vused y)) es;
            sl' \<leftarrow> set_cell sl (unat (vused y + ucast n)) None;
            Some (1, Some (y\<lparr>slots := sl', vused := vused y + ucast n\<rparr>)) }
          else if \<not> ok then Some (0, dest)
          else do {
            old \<leftarrow> mem_read (slots y) 0 (unat (vused y));
            nv1 \<leftarrow> mem_write (yv_block (ucast (vused y) + n)) 0 old;
            es \<leftarrow> mem_read (slots s) 0 (unat n);
            nv2 \<leftarrow> mem_write nv1 (unat (vused y)) es;
            nv3 \<leftarrow> set_cell nv2 (unat (ucast (vused y) + n)) None;
            Some (1, Some (yv_grown (ucast (vused y) + n) nv3)) }
      | _ \<Rightarrow> Some (1, dest))"

definition yv_dup :: "bool \<Rightarrow> 'a yvect_t option \<Rightarrow> 'a yvect_t option option" where
  "yv_dup ok v =
     (case v of
        None \<Rightarrow> Some None
      | Some y \<Rightarrow>
          if \<not> ok then Some None
          else do {
            es \<leftarrow> mem_read (slots y) 0 (unat (vused y) + 1);
            nv \<leftarrow> mem_write (replicate (unat (vtotal y)) None) 0 es;
            Some (Some \<lparr>vtotal = vtotal y, vused = vused y, slots = nv\<rparr>) })"

definition yv_concat :: "bool \<Rightarrow> bool \<Rightarrow> 'a yvect_t option \<Rightarrow> 'a yvect_t option \<Rightarrow> 'a yvect_t option option" where
  "yv_concat ok1 ok2 v1 v2 = do {
     nv \<leftarrow> yv_dup ok1 v1;
     (_, nv') \<leftarrow> yv_cat ok2 nv v2;
     Some nv' }"

text \<open>The counter of the loop is an \<^verbatim>\<open>int\<close>.\<close>

definition yv_put :: "bool \<Rightarrow> 'a yvect_t option \<Rightarrow> 'a option \<Rightarrow> (int \<times> 'a yvect_t option) option" where
  "yv_put ok v e =
     (case v of
        None \<Rightarrow> Some (0, v)
      | Some y \<Rightarrow>
          if vused y + 2 \<le> vtotal y then do {
            sl \<leftarrow> (let i = sint (ucast (vused y) :: u32) in
                    if i < 0 then Some (slots y) else copy_up (slots y) 1 (nat i));
            sl' \<leftarrow> set_cell sl 0 e;
            Some (1, Some (y\<lparr>slots := sl', vused := vused y + 1\<rparr>)) }
          else if \<not> ok then Some (0, v)
          else do {
            nv1 \<leftarrow> set_cell (yv_block (ucast (vused y) + 1)) 0 e;
            old \<leftarrow> mem_read (slots y) 0 (unat (vused y) + 1);
            nv2 \<leftarrow> mem_write nv1 1 old;
            Some (1, Some (yv_grown (ucast (vused y) + 1) nv2)) })"

definition yv_ins :: "bool \<Rightarrow> 'a yvect_t option \<Rightarrow> 'a option \<Rightarrow> size_t \<Rightarrow> (int \<times> 'a yvect_t option) option" where
  "yv_ins ok v e i =
     (case v of
        None \<Rightarrow> Some (0, v)
      | Some y \<Rightarrow> do {
          (rc, v') \<leftarrow> yv_setsz ok v (vused y + 2);
          (if rc = 0 then Some (0, v')
           else if vused y < i then Some (0, v')
           else (case v' of
              None \<Rightarrow> None
            | Some y' \<Rightarrow> do {
                sl \<leftarrow> fold (\<lambda>j sl. do { sl' \<leftarrow> sl; c \<leftarrow> get_cell sl' j; set_cell sl' (Suc j) c })
                        [unat i..<unat (vused y) + 1] (Some (slots y'));
                sl' \<leftarrow> set_cell sl (unat i) e;
                Some (1, Some (y'\<lparr>slots := sl', vused := vused y' + 1\<rparr>)) })) })"

definition yv_add :: "bool \<Rightarrow> 'a yvect_t option \<Rightarrow> 'a option \<Rightarrow> (int \<times> 'a yvect_t option) option" where
  "yv_add ok v e =
     (case v of
        None \<Rightarrow> Some (0, v)
      | Some y \<Rightarrow>
          if vused y + 2 \<le> vtotal y then do {
            sl \<leftarrow> set_cell (slots y) (unat (vused y)) e;
            sl' \<leftarrow> set_cell sl (unat (vused y + 1)) None;
            Some (1, Some (y\<lparr>slots := sl', vused := vused y + 1\<rparr>)) }
          else if \<not> ok then Some (0, v)
          else do {
            old \<leftarrow> mem_read (slots y) 0 (unat (vused y));
            nv1 \<leftarrow> mem_write (yv_block (ucast (vused y) + 1)) 0 old;
            nv2 \<leftarrow> set_cell nv1 (unat (vused y)) e;
            nv3 \<leftarrow> set_cell nv2 (unat (ucast (vused y) + 1 :: u32)) None;
            Some (1, Some (yv_grown (ucast (vused y) + 1) nv3)) })"

section \<open>Shrinking\<close>

definition yv_pop :: "'a yvect_t option \<Rightarrow> ('a option \<times> 'a yvect_t option) option" where
  "yv_pop v =
     (case v of
        None \<Rightarrow> Some (None, v)
      | Some y \<Rightarrow>
          if vused y = 0 then Some (None, v)
          else do {
            res \<leftarrow> get_cell (slots y) 0;
            sl \<leftarrow> copy_down (slots y) 0 (unat (vused y));
            Some (res, Some (y\<lparr>slots := sl, vused := vused y - 1\<rparr>)) })"

definition yv_get :: "'a yvect_t option \<Rightarrow> ('a option \<times> 'a yvect_t option) option" where
  "yv_get v =
     (case v of
        None \<Rightarrow> Some (None, v)
      | Some y \<Rightarrow>
          if vused y = 0 then Some (None, v)
          else do {
            res \<leftarrow> get_cell (slots y) (unat (vused y - 1));
            sl \<leftarrow> set_cell (slots y) (unat (vused y - 1)) None;
            Some (res, Some (y\<lparr>slots := sl, vused := vused y - 1\<rparr>)) })"

definition yv_ext :: "'a yvect_t option \<Rightarrow> size_t \<Rightarrow> ('a option \<times> 'a yvect_t option) option" where
  "yv_ext v i =
     (case v of
        None \<Rightarrow> Some (None, v)
      | Some y \<Rightarrow>
          if vused y \<le> i then Some (None, v)
          else do {
            res \<leftarrow> get_cell (slots y) (unat i);
            sl \<leftarrow> copy_down (slots y) (unat i) (unat (vused y));
            Some (res, Some (y\<lparr>slots := sl, vused := vused y - 1\<rparr>)) })"

text \<open>The loop over \<open>j\<close>; it shifts the slots behind the one after the duplicate.\<close>

function uniq_from :: "'a option list \<Rightarrow> nat \<Rightarrow> nat \<Rightarrow> nat \<Rightarrow> ('a option list \<times> nat) option" where
  "uniq_from sl used i j =
     (if j < used then do {
        a \<leftarrow> get_cell sl i;
        b \<leftarrow> get_cell sl j;
        (if a = b then do {
           sl' \<leftarrow> copy_down sl (Suc j) (used - 1);
           uniq_from sl' (used - 1) i (Suc j) }
         else uniq_from sl used i (Suc j)) }
      else Some (sl, used))"
  by auto
termination by (relation "measure (\<lambda>(sl, used, i, j). used - j)") auto

declare uniq_from.simps [simp del]

lemma uniq_from_used: "uniq_from sl used i j = Some (sl', used') \<Longrightarrow> used' \<le> used"
proof (induction sl used i j arbitrary: sl' used' rule: uniq_from.induct)
  case (1 sl used i j)
  show ?case
  proof (cases "j < used")
    case False
    then show ?thesis using "1.prems" by (subst (asm) uniq_from.simps) simp
  next
    case True
    then obtain a b where ab: "get_cell sl i = Some a" "get_cell sl j = Some b"
      using "1.prems" by (subst (asm) uniq_from.simps) (auto simp: bind_eq_Some_conv)
    show ?thesis
    proof (cases "a = b")
      case eq: True
      then obtain sl1 where "copy_down sl (Suc j) (used - 1) = Some sl1" "uniq_from sl1 (used - 1) i (Suc j) = Some (sl', used')"
        using "1.prems" True ab by (subst (asm) uniq_from.simps) (auto simp: bind_eq_Some_conv)
      then show ?thesis using "1.IH"(1) [OF True ab eq] by fastforce
    next
      case False
      then have "uniq_from sl used i (Suc j) = Some (sl', used')"
        using "1.prems" True ab by (subst (asm) uniq_from.simps) simp
      then show ?thesis using "1.IH"(2) [OF True ab False] by blast
    qed
  qed
qed

function uniq_loop :: "'a option list \<Rightarrow> nat \<Rightarrow> nat \<Rightarrow> ('a option list \<times> nat) option" where
  "uniq_loop sl used i =
     (if i < used then
        (case uniq_from sl used i (Suc i) of
           None \<Rightarrow> None
         | Some (sl', used') \<Rightarrow> uniq_loop sl' used' (Suc i))
      else Some (sl, used))"
  by auto
termination
  by (relation "measure (\<lambda>(sl, used, i). used - i)") (auto dest!: uniq_from_used)

declare uniq_loop.simps [simp del]

definition yv_uniq :: "'a yvect_t option \<Rightarrow> 'a yvect_t option option" where
  "yv_uniq v =
     (case v of
        None \<Rightarrow> Some None
      | Some y \<Rightarrow> do {
          (sl, used) \<leftarrow> uniq_loop (slots y) (unat (vused y)) 0;
          Some (Some (y\<lparr>slots := sl, vused := word_of_nat used\<rparr>)) })"

section \<open>Sorting and searching\<close>

text \<open>
  \<^verbatim>\<open>qsort\<close>, as a stable sort. (\<^verbatim>\<open>qsort\<close> passes the addresses of the slots to the comparison, and \<^verbatim>\<open>yv_search\<close>
  the elements; here the comparison is always one of elements.)
\<close>

fun qsort_insert :: "('b \<Rightarrow> 'b \<Rightarrow> int) \<Rightarrow> 'b \<Rightarrow> 'b list \<Rightarrow> 'b list" where
  "qsort_insert f x [] = [x]"
| "qsort_insert f x (y # ys) = (if f x y \<le> 0 then x # y # ys else y # qsort_insert f x ys)"

definition qsort :: "('b \<Rightarrow> 'b \<Rightarrow> int) \<Rightarrow> 'b list \<Rightarrow> 'b list" where
  "qsort f xs = foldr (qsort_insert f) xs []"

definition yv_sort :: "'a yvect_t option \<Rightarrow> ('a option \<Rightarrow> 'a option \<Rightarrow> int) \<Rightarrow> 'a yvect_t option option" where
  "yv_sort v f =
     (case v of
        None \<Rightarrow> Some None
      | Some y \<Rightarrow> do {
          es \<leftarrow> mem_read (slots y) 0 (unat (vused y));
          sl \<leftarrow> mem_write (slots y) 0 (qsort f es);
          Some (Some (y\<lparr>slots := sl\<rparr>)) })"

text \<open>\<^verbatim>\<open>v[i]\<close> for an \<^verbatim>\<open>int\<close>, and division by two, which rounds towards zero.\<close>

definition get_slot :: "'a option list \<Rightarrow> int \<Rightarrow> 'a option option" where
  "get_slot sl i = (if i < 0 then None else get_cell sl (nat i))"

definition half :: "int \<Rightarrow> int" where
  "half i = (if i < 0 then - ((- i) div 2) else i div 2)"

text \<open>The loop has no other exit: where it does not return, its value is \<^term>\<open>None\<close>. The sum must not overflow.\<close>

partial_function (option) search_loop ::
    "'a option list \<Rightarrow> 'a option \<Rightarrow> ('a option \<Rightarrow> 'a option \<Rightarrow> int) \<Rightarrow> int \<Rightarrow> int \<Rightarrow> int option" where
  "search_loop sl e f o_start o_end =
     (if 2 ^ 31 \<le> o_end + o_start then None
      else do {
        p \<leftarrow> get_slot sl (half (o_end + o_start));
        (if f e p = 0 then Some (half (o_end + o_start))
         else if f e p < 0 then
           (if half (o_end + o_start) = o_start + 1 then do {
              s \<leftarrow> get_slot sl o_start;
              Some (if f e s = 0 then o_start else -1) }
            else search_loop sl e f o_start (half (o_end + o_start)))
         else
           (if half (o_end + o_start) = o_end - 1 then do {
              s \<leftarrow> get_slot sl o_end;
              Some (if f e s = 0 then o_end else -1) }
            else search_loop sl e f (half (o_end + o_start)) o_end)) })"

definition yv_search :: "'a yvect_t option \<Rightarrow> 'a option \<Rightarrow> ('a option \<Rightarrow> 'a option \<Rightarrow> int) option \<Rightarrow> int option" where
  "yv_search v e f =
     (case (v, f) of
        (Some y, Some g) \<Rightarrow> search_loop (slots y) e g 0 (sint (ucast (vused y - 1) :: u32))
      | _ \<Rightarrow> Some (-1))"

section \<open>Vectors as lists\<close>

definition yv_inv :: "'a yvect_t \<Rightarrow> bool" where
  "yv_inv y \<longleftrightarrow> length (slots y) = unat (vtotal y) \<and> unat (vused y) < unat (vtotal y) \<and>
     slots y ! unat (vused y) = None"

definition yv_elems :: "'a yvect_t \<Rightarrow> 'a option list" where
  "yv_elems y = take (unat (vused y)) (slots y)"

lemma length_yv_elems [simp]: "yv_inv y \<Longrightarrow> length (yv_elems y) = unat (vused y)"
  by (simp add: yv_inv_def yv_elems_def)

text \<open>A vector whose slots begin with a list and a null.\<close>

lemma yv_slots:
  assumes "length (slots y) = unat (vtotal y)" and "slots y = es @ None # r" and "unat (vused y) = length es"
  shows "yv_inv y" and "yv_elems y = es"
  using assms by (simp_all add: yv_inv_def yv_elems_def)

lemma yv_inv_slots:
  assumes "yv_inv y"
  shows "\<exists>r. slots y = yv_elems y @ None # r"
  using assms id_take_nth_drop [of "unat (vused y)" "slots y"] by (auto simp: yv_inv_def yv_elems_def)

lemma yv_grown_slots:
  assumes "unat (n :: u32) < 2 ^ 31" and "length es = unat n" and "length sl = unat (size_total n 1)"
    and "take (Suc (unat n)) sl = es @ [None]"
  shows "yv_inv (yv_grown n sl)" and "yv_elems (yv_grown n sl) = es"
proof -
  have "unat n + 1 < unat (size_total n 1)" using size_total_room(1) [of n 1] assms(1) by simp
  moreover have "sl = es @ None # drop (Suc (unat n)) sl"
    using assms(4) append_take_drop_id [of "Suc (unat n)" sl] by simp
  moreover have "unat (ucast n :: size_t) = unat n" "unat (ucast (size_total n 1) :: size_t) = unat (size_total n 1)"
    by (rule unat_ucast_u32)+
  ultimately show "yv_inv (yv_grown n sl)" "yv_elems (yv_grown n sl) = es"
    using yv_slots [of "yv_grown n sl" es "drop (Suc (unat n)) sl"] assms(2,3) by (simp_all add: yv_grown_def)
qed

lemma yv_add_ok:
  assumes inv: "yv_inv y" and n: "unat (vused y) < 2 ^ 31 - 1"
  shows "\<exists>y'. yv_add True (Some y) e = Some (1, Some y') \<and> yv_inv y' \<and> yv_elems y' = yv_elems y @ [e]"
proof -
  obtain r where r: "slots y = yv_elems y @ None # r" using yv_inv_slots [OF inv] by blast
  have l: "length (yv_elems y) = unat (vused y)" "length (slots y) = unat (vtotal y)"
    using inv by (simp_all add: yv_inv_def yv_elems_def)
  have u: "unat (vused y + 1) = unat (vused y) + 1" "unat (vused y + 2) = unat (vused y) + 2"
    using n by (simp_all add: unat_add_bound)
  show ?thesis
  proof (cases "vused y + 2 \<le> vtotal y")
    case True
    then have "r \<noteq> []" using r l u by (auto simp: unat_le_iff)
    then obtain x r' where r': "r = x # r'" by (cases r) auto
    let ?y = "y\<lparr>slots := yv_elems y @ e # None # r', vused := vused y + 1\<rparr>"
    have "yv_add True (Some y) e = Some (1, Some ?y)"
      using True u l by (simp add: yv_add_def r r' set_cell_def list_update_append)
    then show ?thesis
      using yv_slots [of ?y "yv_elems y @ [e]" r'] l u r r' by auto
  next
    case False
    let ?n = "ucast (vused y) + 1 :: u32"
    have n1: "unat ?n = unat (vused y) + 1"
      using ucast_used(1) [of "vused y"] n by (subst unat_add_lem [THEN iffD1]) auto
    have room: "unat (vused y) + 2 < unat (size_total ?n 1)" using size_total_room(1) [of ?n 1] n1 n by simp
    let ?sl = "(yv_elems y @ drop (unat (vused y)) (yv_block ?n)) [unat (vused y) := e, Suc (unat (vused y)) := None]"
    have "yv_add True (Some y) e = Some (1, Some (yv_grown ?n ?sl))"
      using False l room n1 inv
      by (simp add: yv_add_def mem_simps yv_block_def yv_elems_def [symmetric] yv_inv_def)
    moreover have "take (Suc (unat ?n)) ?sl = (yv_elems y @ [e]) @ [None]"
      using l room n1 by (auto simp: yv_block_def list_eq_iff_nth_eq nth_append nth_list_update)
    ultimately show ?thesis
      using yv_grown_slots [of ?n "yv_elems y @ [e]" ?sl] n n1 l room by (auto simp: yv_block_def)
  qed
qed

lemma yv_put_ok:
  assumes inv: "yv_inv y" and n: "unat (vused y) < 2 ^ 31 - 1"
  shows "\<exists>y'. yv_put True (Some y) e = Some (1, Some y') \<and> yv_inv y' \<and> yv_elems y' = e # yv_elems y"
proof -
  obtain r where r: "slots y = yv_elems y @ None # r" using yv_inv_slots [OF inv] by blast
  have l: "length (yv_elems y) = unat (vused y)" "length (slots y) = unat (vtotal y)"
    using inv by (simp_all add: yv_inv_def yv_elems_def)
  have u: "unat (vused y + 1) = unat (vused y) + 1" "unat (vused y + 2) = unat (vused y) + 2"
    using n by (simp_all add: unat_add_bound)
  show ?thesis
  proof (cases "vused y + 2 \<le> vtotal y")
    case True
    then have len: "unat (vused y) + 1 < length (slots y)" using l u by (simp add: unat_le_iff)
    then obtain x r' where r': "r = x # r'" using r l by (cases r) auto
    have "copy_up (slots y) 1 (length (yv_elems y)) = Some (hd (slots y) # (yv_elems y @ [None]) @ r')"
    proof -
      have "copy_up (slots y) 1 (length (yv_elems y)) = Some (take 1 (slots y) @ take (Suc (length (yv_elems y))) (slots y) @
          drop (Suc (length (yv_elems y)) + 1) (slots y))"
        using len l(1) by (intro copy_up_eq) simp
      moreover have "take 1 (slots y) = [hd (slots y)]" using len by (cases "slots y") auto
      ultimately show ?thesis using r r' by simp
    qed
    then have "yv_put True (Some y) e = Some (1, Some (y\<lparr>slots := e # yv_elems y @ None # r', vused := vused y + 1\<rparr>))"
      using True ucast_used(2) [of "vused y"] n l(1) by (simp add: yv_put_def set_cell_def)
    then show ?thesis
      using yv_slots [of "y\<lparr>slots := e # yv_elems y @ None # r', vused := vused y + 1\<rparr>" "e # yv_elems y" r'] l u r r' by auto
  next
    case False
    let ?n = "ucast (vused y) + 1 :: u32"
    have n1: "unat ?n = unat (vused y) + 1"
      using ucast_used(1) [of "vused y"] n by (subst unat_add_lem [THEN iffD1]) auto
    have room: "unat (vused y) + 2 < unat (size_total ?n 1)" using size_total_room(1) [of ?n 1] n1 n by simp
    let ?b = "(yv_block ?n)[0 := e]"
    let ?sl = "take 1 ?b @ (yv_elems y @ [None]) @ drop (1 + length (yv_elems y @ [None])) ?b"
    have old: "mem_read (slots y) 0 (Suc (unat (vused y))) = Some (yv_elems y @ [None])"
      using r l by (simp add: mem_read_def)
    have "yv_put True (Some y) e = Some (1, Some (yv_grown ?n ?sl))"
      using False room old l by (simp add: yv_put_def yv_block_def set_cell_def mem_write_def)
    moreover have "take (Suc (unat ?n)) ?sl = (e # yv_elems y) @ [None]"
    proof -
      have "take 1 ?b = [e]" using room by (cases "unat (size_total ?n 1)") (auto simp: yv_block_def)
      then show ?thesis using l(1) n1 by simp
    qed
    ultimately show ?thesis
      using yv_grown_slots [of ?n "e # yv_elems y" ?sl] n n1 l room by (auto simp: yv_block_def)
  qed
qed

text \<open>Removing an element shifts the rest, and the null with it.\<close>

lemma yv_ext_ok:
  assumes inv: "yv_inv y" and i: "i < vused y"
  shows "\<exists>y'. yv_ext (Some y) i = Some (yv_elems y ! unat i, Some y') \<and> yv_inv y' \<and>
    yv_elems y' = take (unat i) (yv_elems y) @ drop (Suc (unat i)) (yv_elems y)"
proof -
  obtain r where r: "slots y = yv_elems y @ None # r" using yv_inv_slots [OF inv] by blast
  have l: "length (yv_elems y) = unat (vused y)" "length (slots y) = unat (vtotal y)"
    using inv by (simp_all add: yv_inv_def yv_elems_def)
  have iu: "unat i < unat (vused y)" using i by (simp add: unat_less_iff)
  then have u: "unat (vused y - 1) = unat (vused y) - 1" using unat_sub_bound [of 1 "vused y"] by (simp add: unat_le_iff)
  let ?es = "take (unat i) (yv_elems y) @ drop (Suc (unat i)) (yv_elems y)"
  let ?y = "y\<lparr>slots := ?es @ None # None # r, vused := vused y - 1\<rparr>"
  have "copy_down (slots y) (unat i) (unat (vused y)) = Some (?es @ None # None # r)"
    using copy_down_eq [of "unat i" "unat (vused y)" "slots y"] iu l r by (simp add: Suc_diff_Suc)
  then have "yv_ext (Some y) i = Some (yv_elems y ! unat i, Some ?y)"
    using i iu l r by (simp add: yv_ext_def get_cell_def nth_append linorder_not_le [symmetric])
  moreover have "yv_inv ?y" "yv_elems ?y = ?es"
    using yv_slots [of ?y ?es "None # r"] l u iu r by auto
  ultimately show ?thesis by blast
qed

lemma yv_pop_ok:
  assumes inv: "yv_inv y"
  shows "\<exists>y'. yv_pop (Some y) = Some (if yv_elems y = [] then None else hd (yv_elems y), Some y') \<and> yv_inv y' \<and>
    yv_elems y' = tl (yv_elems y)"
proof (cases "vused y = 0")
  case True
  then show ?thesis using inv by (auto simp: yv_pop_def yv_elems_def)
next
  case False
  then have "0 < vused y" by (simp add: word_neq_0_conv)
  moreover have "yv_pop (Some y) = yv_ext (Some y) 0" using False by (simp add: yv_pop_def yv_ext_def)
  moreover have "yv_elems y \<noteq> []" using False length_yv_elems [OF inv] by (metis list.size(3) unat_eq_0)
  ultimately show ?thesis using yv_ext_ok [OF inv, of 0] by (simp add: hd_conv_nth drop_Suc)
qed

lemma yv_get_ok:
  assumes inv: "yv_inv y"
  shows "\<exists>y'. yv_get (Some y) = Some (if yv_elems y = [] then None else last (yv_elems y), Some y') \<and> yv_inv y' \<and>
    yv_elems y' = butlast (yv_elems y)"
proof (cases "vused y = 0")
  case True
  then show ?thesis using inv by (auto simp: yv_get_def yv_elems_def)
next
  case False
  obtain r where r: "slots y = yv_elems y @ None # r" using yv_inv_slots [OF inv] by blast
  have l: "length (yv_elems y) = unat (vused y)" "length (slots y) = unat (vtotal y)"
    using inv by (simp_all add: yv_inv_def yv_elems_def)
  have pos: "0 < unat (vused y)" using False by (simp add: unat_gt_0)
  then have u: "unat (vused y - 1) = unat (vused y) - 1" using unat_sub_bound [of 1 "vused y"] by (simp add: unat_le_iff)
  obtain es e where es: "yv_elems y = es @ [e]" using pos l by (cases "yv_elems y" rule: rev_cases) auto
  let ?y = "y\<lparr>slots := es @ None # None # r, vused := vused y - 1\<rparr>"
  have u': "unat (vused y - 1) = length es" using u es l by simp
  have "yv_get (Some y) = Some (e, Some ?y)"
    using False es r by (simp add: yv_get_def get_cell_def set_cell_def u')
  moreover have "yv_inv ?y" "yv_elems ?y = es" using yv_slots [of ?y es "None # r"] l u es r by auto
  ultimately show ?thesis using es by auto
qed

lemma yv_cat_ok:
  assumes inv: "yv_inv y" "yv_inv s" and n: "unat (vused y) + unat (vused s) < 2 ^ 31"
  shows "\<exists>y'. yv_cat True (Some y) (Some s) = Some (1, Some y') \<and> yv_inv y' \<and> yv_elems y' = yv_elems y @ yv_elems s"
proof (cases "vused s = 0")
  case True
  then show ?thesis using inv by (simp add: yv_cat_def yv_len_def yv_elems_def)
next
  case False
  let ?m = "ucast (vused s) :: u32"
  have m: "unat ?m = unat (vused s)" using ucast_used(1) n by simp
  then have m0: "?m \<noteq> 0" using False by (metis unat_eq_0)
  have m64: "ucast ?m = vused s" using m unat_ucast_u32 [of ?m] by (metis word_unat_eq_iff)
  obtain r where r: "slots y = yv_elems y @ None # r" using yv_inv_slots [OF inv(1)] by blast
  have l: "length (yv_elems y) = unat (vused y)" "length (slots y) = unat (vtotal y)"
    using inv(1) by (simp_all add: yv_inv_def yv_elems_def)
  have src: "mem_read (slots s) 0 (unat ?m + 1) = Some (yv_elems s @ [None])"
  proof -
    obtain rs where "slots s = yv_elems s @ None # rs" using yv_inv_slots [OF inv(2)] by blast
    then show ?thesis using length_yv_elems [OF inv(2)] m by (simp add: mem_read_def)
  qed
  have ls: "length (yv_elems s) = unat (vused s)" using inv(2) by simp
  have u: "unat (vused y + 1 + vused s) = unat (vused y) + 1 + unat (vused s)"
    "unat (vused y + vused s) = unat (vused y) + unat (vused s)"
    using n by (simp_all add: unat_add_bound)
  show ?thesis
  proof (cases "vused y + 1 + vused s \<le> vtotal y")
    case True
    then have fit: "unat (vused y) + Suc (unat (vused s)) \<le> length (slots y)" using u l by (simp add: unat_le_iff)
    let ?r = "drop (unat (vused s)) r"
    let ?y = "y\<lparr>slots := yv_elems y @ (yv_elems s @ [None]) @ ?r, vused := vused y + vused s\<rparr>"
    have "mem_write (slots y) (unat (vused y)) (yv_elems s @ [None]) = Some (yv_elems y @ (yv_elems s @ [None]) @ ?r)"
      using fit r l ls by (simp add: mem_write_def)
    then have "yv_cat True (Some y) (Some s) = Some (1, Some ?y)"
      using True m0 m64 src by (simp add: yv_cat_def yv_len_def)
    moreover have "yv_inv ?y" "yv_elems ?y = yv_elems y @ yv_elems s"
      using yv_slots [of ?y "yv_elems y @ yv_elems s" ?r] fit l ls u r by auto
    ultimately show ?thesis by blast
  next
    case False
    let ?n = "ucast (vused y) + ?m :: u32"
    have n1: "unat ?n = unat (vused y) + unat (vused s)"
      using ucast_used(1) [of "vused y"] n m by (subst unat_add_lem [THEN iffD1]) auto
    have room: "unat (vused y) + unat (vused s) + 1 < unat (size_total ?n 1)" using size_total_room(1) [of ?n 1] n1 n by simp
    let ?b = "yv_elems y @ drop (unat (vused y)) (yv_block ?n)"
    let ?sl = "yv_elems y @ (yv_elems s @ [None]) @ drop (Suc (unat (vused y) + unat (vused s))) (yv_block ?n)"
    have "mem_write (yv_block ?n) 0 (yv_elems y) = Some ?b" using room l by (simp add: mem_write_def yv_block_def)
    moreover have "mem_write ?b (unat (vused y)) (yv_elems s @ [None]) = Some ?sl"
      using room l ls by (simp add: mem_write_def yv_block_def)
    moreover have "mem_read (slots y) 0 (unat (vused y)) = Some (yv_elems y)"
      using inv(1) by (simp add: mem_read_def yv_inv_def yv_elems_def)
    ultimately have "yv_cat True (Some y) (Some s) = Some (1, Some (yv_grown ?n ?sl))"
      using False m0 m64 src by (simp add: yv_cat_def yv_len_def Let_def)
    then show ?thesis
      using yv_grown_slots [of ?n "yv_elems y @ yv_elems s" ?sl] n n1 l ls room by (auto simp: yv_block_def)
  qed
qed

lemma yv_create_ok:
  assumes "n \<noteq> 0"
  shows "\<exists>y. yv_create True n = Some (Some y) \<and> yv_inv y \<and> yv_elems y = []"
proof -
  have "0 < unat n" using assms by (simp add: unat_gt_0)
  then show ?thesis
    by (simp add: yv_create_def set_cell_def yv_inv_def yv_elems_def unat_ucast_u32)
qed

section \<open>The contract\<close>

text \<open>The operations of the contract, with memory.\<close>

definition vec_grow :: "('a yvect_t option \<Rightarrow> 'a option \<Rightarrow> (int \<times> 'a yvect_t option) option) \<Rightarrow>
    'a yvect_t \<Rightarrow> 'a option \<Rightarrow> 'a yvect_t option" where
  "vec_grow f y e = do { (rc, v) \<leftarrow> f (Some y) e; (if rc = 1 then v else None) }"

definition vec_shrink :: "('a yvect_t option \<Rightarrow> ('a option \<times> 'a yvect_t option) option) \<Rightarrow>
    'a yvect_t \<Rightarrow> ('a option \<times> 'a yvect_t) option" where
  "vec_shrink f y = do { (e, v) \<leftarrow> f (Some y); y' \<leftarrow> v; Some (e, y') }"

interpretation vec: sequence yv_inv yv_elems "\<lambda>n. n < 2 ^ 31 - 1" None
  "vec_grow (yv_add True)" "vec_grow (yv_put True)" "vec_shrink yv_pop" "vec_shrink yv_get"
proof unfold_locales
  fix s :: "'a yvect_t" and x
  assume s: "yv_inv s"
  { assume "length (yv_elems s) < 2 ^ 31 - 1"
    then have n: "unat (vused s) < 2 ^ 31 - 1" using s by simp
    show "\<exists>s'. vec_grow (yv_add True) s x = Some s' \<and> yv_inv s' \<and> yv_elems s' = yv_elems s @ [x]"
      using yv_add_ok [OF s n, of x] by (auto simp: vec_grow_def)
    show "\<exists>s'. vec_grow (yv_put True) s x = Some s' \<and> yv_inv s' \<and> yv_elems s' = x # yv_elems s"
      using yv_put_ok [OF s n, of x] by (auto simp: vec_grow_def) }
  show "\<exists>s'. vec_shrink yv_pop s = Some (if yv_elems s = [] then None else hd (yv_elems s), s') \<and> yv_inv s' \<and>
      yv_elems s' = tl (yv_elems s)"
    using yv_pop_ok [OF s] by (auto simp: vec_shrink_def)
  show "\<exists>s'. vec_shrink yv_get s = Some (if yv_elems s = [] then None else last (yv_elems s), s') \<and> yv_inv s' \<and>
      yv_elems s' = butlast (yv_elems s)"
    using yv_get_ok [OF s] by (auto simp: vec_shrink_def)
qed simp

section \<open>Binary search\<close>

text \<open>
  What \<^verbatim>\<open>yv_search\<close> needs of a sorted vector: the sign of the comparison with the element falls
  along the vector.
\<close>

definition search_sorted :: "('b \<Rightarrow> 'b \<Rightarrow> int) \<Rightarrow> 'b \<Rightarrow> 'b list \<Rightarrow> bool" where
  "search_sorted f e xs \<longleftrightarrow> (\<forall>i j. i \<le> j \<and> j < length xs \<longrightarrow>
     (f e (xs ! i) < 0 \<longrightarrow> f e (xs ! j) < 0) \<and> (0 < f e (xs ! j) \<longrightarrow> 0 < f e (xs ! i)))"

lemma search_sortedD:
  assumes "search_sorted f e xs" and "i \<le> j" and "j < length xs"
  shows "f e (xs ! i) < 0 \<Longrightarrow> f e (xs ! j) < 0" and "0 < f e (xs ! j) \<Longrightarrow> 0 < f e (xs ! i)"
  using assms by (auto simp: search_sorted_def)

definition search_result :: "('b \<Rightarrow> 'b \<Rightarrow> int) \<Rightarrow> 'b \<Rightarrow> 'b list \<Rightarrow> int \<Rightarrow> bool" where
  "search_result f e xs r \<longleftrightarrow>
     (if \<exists>x \<in> set xs. f e x = 0 then 0 \<le> r \<and> nat r < length xs \<and> f e (xs ! nat r) = 0 else r = -1)"

lemma search_resultI:
  assumes "i < length xs" and "\<And>j. j < length xs \<Longrightarrow> f e (xs ! j) = 0 \<Longrightarrow> j = i"
  shows "search_result f e xs (if f e (xs ! i) = 0 then int i else -1)"
proof (cases "f e (xs ! i) = 0")
  case True
  then show ?thesis using assms(1) nth_mem by (auto simp: search_result_def)
next
  case False
  then have "\<not> (\<exists>x \<in> set xs. f e x = 0)" using assms(2) by (metis in_set_conv_nth)
  then show ?thesis using False by (simp add: search_result_def)
qed

lemma search_found: "i < length xs \<Longrightarrow> f e (xs ! i) = 0 \<Longrightarrow> search_result f e xs (int i)"
  by (auto simp: search_result_def)

text \<open>The loop on an interval of three slots or more, outside of which the element is not.\<close>

lemma search_loop_ok:
  assumes "search_sorted f e xs" and "length xs \<le> 2 ^ 30" and "s + 2 \<le> t" and "t < length xs"
    and "s = 0 \<or> 0 < f e (xs ! s)" and "Suc t = length xs \<or> f e (xs ! t) < 0"
  shows "\<exists>r. search_loop (xs @ rest) e f (int s) (int t) = Some r \<and> search_result f e xs r"
  using assms(3-6)
proof (induction "t - s" arbitrary: s t rule: less_induct)
  case less
  note srt = search_sortedD [OF assms(1)]
  let ?p = "(t + s) div 2"
  have p: "half (int t + int s) = int ?p" "s < ?p" "?p < t" using less.prems(1) by (auto simp: half_def)
  have cell: "get_slot (xs @ rest) (int i) = Some (xs ! i)" if "i < length xs" for i
    using that by (simp add: get_slot_def get_cell_def nth_append)
  have sum: "\<not> 2 ^ 31 \<le> int t + int s" using less.prems(1,2) assms(2) by simp
  have pl: "?p < length xs" using p(3) less.prems(2) by simp
  note step = search_loop.simps [of "xs @ rest" e f "int s" "int t"]
  consider (eq) "f e (xs ! ?p) = 0" | (lo) "f e (xs ! ?p) < 0" | (hi) "0 < f e (xs ! ?p)" by linarith
  then show ?case
  proof cases
    case eq
    then show ?thesis using step sum p(1) cell [OF pl] search_found [of ?p xs f e] pl eq by simp
  next
    case lo
    show ?thesis
    proof (cases "?p = s + 1")
      case True
      have only: "j = s" if "j < length xs" "f e (xs ! j) = 0" for j
      proof (rule ccontr)
        assume "j \<noteq> s"
        then consider "?p \<le> j" | "j < s" using True by linarith
        then show False using srt(1) [of ?p j] srt(2) [of j s] that lo less.prems(1-3) by cases auto
      qed
      have sl: "s < length xs" using less.prems by simp
      have "search_loop (xs @ rest) e f (int s) (int t) = Some (if f e (xs ! s) = 0 then int s else -1)"
        using step sum p(1) cell [OF pl] cell [OF sl] lo True by simp
      then show ?thesis using search_resultI [of s xs f e] sl only by blast
    next
      case False
      then have "\<exists>r. search_loop (xs @ rest) e f (int s) (int ?p) = Some r \<and> search_result f e xs r"
        using less.hyps [of ?p s] less.prems(3) p lo pl by simp
      moreover have "search_loop (xs @ rest) e f (int s) (int t) = search_loop (xs @ rest) e f (int s) (int ?p)"
        using step sum p(1) cell [OF pl] lo False by simp
      ultimately show ?thesis by simp
    qed
  next
    case hi
    show ?thesis
    proof (cases "?p = t - 1")
      case True
      have only: "j = t" if "j < length xs" "f e (xs ! j) = 0" for j
      proof (rule ccontr)
        assume "j \<noteq> t"
        then consider "j \<le> ?p" | "t < j" using True p(3) by linarith
        then show False using srt(2) [of j ?p] srt(1) [of t j] that hi pl less.prems(2,4) by cases auto
      qed
      have "int ?p = int t - 1" using True p(3) by simp
      then have "search_loop (xs @ rest) e f (int s) (int t) = Some (if f e (xs ! t) = 0 then int t else -1)"
        using step sum p(1) cell [OF pl] cell [OF less.prems(2)] hi by simp
      then show ?thesis using search_resultI [of t xs f e] less.prems(2) only by blast
    next
      case False
      then have "\<exists>r. search_loop (xs @ rest) e f (int ?p) (int t) = Some r \<and> search_result f e xs r"
        using less.hyps [of t ?p] less.prems(2,4) p hi by simp
      moreover have "int ?p \<noteq> int t - 1" using False p(3) by simp
      then have "search_loop (xs @ rest) e f (int s) (int t) = search_loop (xs @ rest) e f (int ?p) (int t)"
        using step sum p(1) cell [OF pl] hi by simp
      ultimately show ?thesis by simp
    qed
  qed
qed

section \<open>Properties\<close>

text \<open>
  C28: A vector behaves like a list. Starting from \<^verbatim>\<open>yv_new\<close>, every sequence of less than
  \<open>2 ^ 31\<close> calls of \<^verbatim>\<open>yv_add\<close>, \<^verbatim>\<open>yv_put\<close>, \<^verbatim>\<open>yv_pop\<close> and \<^verbatim>\<open>yv_get\<close> for which memory suffices stays inside
  the vector's blocks, returns what the operations on a list return, and leaves the vector with the
  elements of that list, through every reallocation.
\<close>

theorem vector_runs_like_list:
  assumes "length ops < 2 ^ 31 - 1"
  shows "\<exists>y y'. yv_new True = Some (Some y) \<and>
    seq_run (vec_grow (yv_add True)) (vec_grow (yv_put True)) (vec_shrink yv_pop) (vec_shrink yv_get) y ops =
      Some (fst (list_run None [] ops), y') \<and>
    yv_inv y' \<and> yv_elems y' = snd (list_run None [] ops)"
proof -
  obtain y :: "'a yvect_t" where y: "yv_new True = Some (Some y)" "yv_inv y" "yv_elems y = []"
    using yv_create_ok [of YVECT_SIZE_DEFAULT] by (auto simp: yv_new_def YVECT_SIZE_DEFAULT_def)
  then show ?thesis using vec.runs_like_list [OF y(2), of ops] assms by auto
qed

theorem vector_runs_like_list_witness:
  "\<exists>y y'. yv_new True = Some (Some y) \<and>
    seq_run (vec_grow (yv_add True)) (vec_grow (yv_put True)) (vec_shrink yv_pop) (vec_shrink yv_get) y
      [AddLast (Some (1 :: nat)), AddFirst (Some 2), TakeLast, TakeLast, TakeFirst] = Some ([Some 1, Some 2, None], y') \<and>
    yv_inv y' \<and> yv_elems y' = []"
  using vector_runs_like_list [of "[AddLast (Some (1 :: nat)), AddFirst (Some 2), TakeLast, TakeLast, TakeFirst]"] by simp

text \<open>
  C31: \<^verbatim>\<open>yv_search\<close> ends and is right on a sorted vector of at least three elements: it returns the index
  of an element that compares equal when there is one, and -1 when there is none.
\<close>

theorem yv_search_finds:
  assumes "yv_inv y" and "3 \<le> unat (vused y)" and "unat (vused y) \<le> 2 ^ 30" and "search_sorted f e (yv_elems y)"
  shows "\<exists>r. yv_search (Some y) e (Some f) = Some r \<and> search_result f e (yv_elems y) r"
proof -
  obtain r where r: "slots y = yv_elems y @ None # r" using yv_inv_slots [OF assms(1)] by blast
  have l: "length (yv_elems y) = unat (vused y)" using assms(1) by simp
  have u: "unat (vused y - 1) = unat (vused y) - 1"
    using unat_sub_bound [of 1 "vused y"] assms(2) by (simp add: unat_le_iff)
  have "sint (ucast (vused y - 1) :: u32) = int (unat (vused y) - 1)"
    using ucast_used(2) [of "vused y - 1"] assms(3) u by simp
  then show ?thesis
    using search_loop_ok [OF assms(4), of 0 "unat (vused y) - 1" "None # r"] assms(2,3) l r
    by (simp add: yv_search_def)
qed

definition wit_compare :: "nat option \<Rightarrow> nat option \<Rightarrow> int" where
  "wit_compare a b = (case (a, b) of (Some m, Some n) \<Rightarrow> int m - int n | _ \<Rightarrow> 0)"

definition wit_vector :: "nat option list \<Rightarrow> nat yvect_t" where
  "wit_vector es = \<lparr>vtotal = word_of_nat (Suc (length es)), vused = word_of_nat (length es), slots = es @ [None]\<rparr>"

theorem yv_search_finds_witness:
  "\<exists>r. yv_search (Some (wit_vector [Some 2, Some 3, Some 5])) (Some 5) (Some wit_compare) = Some r \<and>
    search_result wit_compare (Some 5) [Some 2, Some 3, Some 5] r"
proof -
  let ?y = "wit_vector [Some 2, Some 3, Some 5]"
  have e: "yv_elems ?y = [Some 2, Some 3, Some 5]" by (simp add: yv_elems_def wit_vector_def)
  have "search_sorted wit_compare (Some 5) (yv_elems ?y)"
    by (auto simp: e search_sorted_def wit_compare_def less_Suc_eq le_Suc_eq)
  then show ?thesis
    using yv_search_finds [of ?y wit_compare "Some 5"] e by (simp add: yv_inv_def wit_vector_def)
qed

lemma search_loop_stuck:
  assumes "search_loop sl e f 0 0 = Some r" and "get_slot sl 0 = Some a"
  shows "f e a = 0"
proof -
  have "0 = (0 :: int) \<longrightarrow> 0 = (0 :: int) \<longrightarrow> (\<forall>a. get_slot sl 0 = Some a \<longrightarrow> f e a = 0)"
    by (rule search_loop.raw_induct [where P = "\<lambda>sl e f s t r. s = 0 \<longrightarrow> t = 0 \<longrightarrow>
          (\<forall>a. get_slot sl 0 = Some a \<longrightarrow> f e a = 0)", OF _ assms(1)])
      (auto simp: half_def bind_eq_Some_conv split: if_splits)
  then show ?thesis using assms(2) by blast
qed

text \<open>
  In a vector of one element, \<^verbatim>\<open>yv_search\<close> never returns when the element is not there, and in a
  vector of two it never returns when the element is smaller than both: the interval does not shrink any
  more and neither exit of the loop is reached.
\<close>

theorem yv_search_stuck:
  assumes "f e a \<noteq> 0" and "f e b < 0"
  shows "yv_search (Some \<lparr>vtotal = t, vused = 1, slots = a # r\<rparr>) e (Some f) = None \<and>
    yv_search (Some \<lparr>vtotal = t, vused = 2, slots = b # r\<rparr>) e (Some f) = None"
proof -
  have cell: "get_slot (x # r) 0 = Some x" for x :: "'a option" by (simp add: get_slot_def get_cell_def)
  have stuck: "search_loop (x # r) e f 0 0 = None" if "f e x \<noteq> 0" for x
    using search_loop_stuck [OF _ cell, of x e f] that by (cases "search_loop (x # r) e f 0 0") auto
  have "search_loop (b # r) e f 0 1 = search_loop (b # r) e f 0 0"
    using search_loop.simps [of "b # r" e f 0 1] cell [of b] assms(2) by (simp add: half_def)
  then show ?thesis using stuck [of a] stuck [of b] assms by (simp add: yv_search_def)
qed

theorem yv_search_stuck_witness:
  "yv_search (Some \<lparr>vtotal = 4, vused = 1, slots = [Some 7, None, None, None]\<rparr>) (Some 5) (Some wit_compare) = None \<and>
   yv_search (Some \<lparr>vtotal = 4, vused = 2, slots = [Some 7, None, None, None]\<rparr>) (Some 5) (Some wit_compare) = None"
  by (rule yv_search_stuck) (simp_all add: wit_compare_def)

end
