(* ===== verification/Ylist.thy ===== *)
theory Ylist
  imports Ymem
begin

text \<open>
  Doubly linked lists, \<^verbatim>\<open>lib/ylib/ylist.c\<close>, in an explicit heap: addresses are numbers, the null pointer
  is \<^term>\<open>None\<close>, and a use of an address that holds nothing is undefined (an outer \<^term>\<open>None\<close>). An
  operation that allocates takes what \<^verbatim>\<open>YMALLOC\<close> returns. The predicate \<open>ylist_rep\<close> says which elements a
  list has in the heap; the lemmas show that the operations change these as they change a list.
\<close>

section \<open>The heap\<close>

record ylist_t =
  lfirst :: "nat option"
  llast :: "nat option"

record 'd ylist_elem_t =
  edata :: "'d option"
  eprev :: "nat option"
  enext :: "nat option"
  elist :: nat

record 'd yheap =
  hlists :: "nat \<Rightarrow> ylist_t option"
  helems :: "nat \<Rightarrow> 'd ylist_elem_t option"

definition set_list :: "nat \<Rightarrow> ylist_t option \<Rightarrow> 'd yheap \<Rightarrow> 'd yheap" where
  "set_list l v h = h\<lparr>hlists := (hlists h)(l := v)\<rparr>"

definition set_elem :: "nat \<Rightarrow> 'd ylist_elem_t option \<Rightarrow> 'd yheap \<Rightarrow> 'd yheap" where
  "set_elem a v h = h\<lparr>helems := (helems h)(a := v)\<rparr>"

text \<open>Assignments to a field of what a pointer points to.\<close>

definition upd_list :: "nat \<Rightarrow> (ylist_t \<Rightarrow> ylist_t) \<Rightarrow> 'd yheap \<Rightarrow> 'd yheap option" where
  "upd_list l f h = do { x \<leftarrow> hlists h l; Some (set_list l (Some (f x)) h) }"

definition upd_elem :: "nat \<Rightarrow> ('d ylist_elem_t \<Rightarrow> 'd ylist_elem_t) \<Rightarrow> 'd yheap \<Rightarrow> 'd yheap option" where
  "upd_elem a f h = do { e \<leftarrow> helems h a; Some (set_elem a (Some (f e)) h) }"

section \<open>The operations\<close>

definition ylist_new :: "nat option \<Rightarrow> 'd yheap \<Rightarrow> nat option \<times> 'd yheap" where
  "ylist_new l h =
     (case l of None \<Rightarrow> (None, h) | Some l' \<Rightarrow> (l, set_list l' (Some \<lparr>lfirst = None, llast = None\<rparr>) h))"

text \<open>The loop of \<^verbatim>\<open>ylist_delete\<close>, with the data that the function is called on.\<close>

partial_function (option) delete_loop ::
    "'d yheap \<Rightarrow> nat option \<Rightarrow> ('d option list \<times> 'd yheap) option" where
  "delete_loop h p =
     (case p of
        None \<Rightarrow> Some ([], h)
      | Some a \<Rightarrow> do {
          e \<leftarrow> helems h a;
          (calls, h') \<leftarrow> delete_loop (set_elem a None h) (enext e);
          Some (edata e # calls, h') })"

definition ylist_delete :: "nat \<Rightarrow> bool \<Rightarrow> 'd yheap \<Rightarrow> ('d option list \<times> 'd yheap) option" where
  "ylist_delete l delete_function h = do {
     x \<leftarrow> hlists h l;
     (calls, h') \<leftarrow> delete_loop h (lfirst x);
     Some (if delete_function then calls else [], set_list l None h') }"

definition ylist_add :: "nat \<Rightarrow> nat option \<Rightarrow> 'd option \<Rightarrow> 'd yheap \<Rightarrow> (nat \<times> 'd yheap) option" where
  "ylist_add l addr d h = do {
     a \<leftarrow> addr;
     x \<leftarrow> hlists h l;
     h2 \<leftarrow> (let h1 = set_elem a (Some \<lparr>edata = d, eprev = llast x, enext = None, elist = l\<rparr>) h in
             case llast x of
               Some p \<Rightarrow> upd_elem p (\<lambda>e. e\<lparr>enext := Some a\<rparr>) h1
             | None \<Rightarrow> upd_list l (\<lambda>x. x\<lparr>llast := Some a, lfirst := Some a\<rparr>) h1);
     h3 \<leftarrow> upd_list l (\<lambda>x. x\<lparr>llast := Some a\<rparr>) h2;
     Some (a, h3) }"

definition ylist_push :: "nat \<Rightarrow> nat option \<Rightarrow> 'd option \<Rightarrow> 'd yheap \<Rightarrow> (nat \<times> 'd yheap) option" where
  "ylist_push l addr d h = do {
     a \<leftarrow> addr;
     x \<leftarrow> hlists h l;
     h2 \<leftarrow> (let h1 = set_elem a (Some \<lparr>edata = d, eprev = None, enext = lfirst x, elist = l\<rparr>) h in
             case lfirst x of
               Some p \<Rightarrow> upd_elem p (\<lambda>e. e\<lparr>eprev := Some a\<rparr>) h1
             | None \<Rightarrow> upd_list l (\<lambda>x. x\<lparr>lfirst := Some a, llast := Some a\<rparr>) h1);
     h3 \<leftarrow> upd_list l (\<lambda>x. x\<lparr>lfirst := Some a\<rparr>) h2;
     Some (a, h3) }"

definition ylist_remove :: "nat \<Rightarrow> 'd yheap \<Rightarrow> ('d option \<times> 'd yheap) option" where
  "ylist_remove l h = do {
     x \<leftarrow> hlists h l;
     (case llast x of
        None \<Rightarrow> Some (None, h)
      | Some a \<Rightarrow> do {
          e \<leftarrow> helems h a;
          h1 \<leftarrow> upd_list l (\<lambda>x. x\<lparr>llast := eprev e\<rparr>) h;
          h2 \<leftarrow> (case eprev e of
                   Some p \<Rightarrow> upd_elem p (\<lambda>e. e\<lparr>enext := None\<rparr>) h1
                 | None \<Rightarrow> upd_list l (\<lambda>x. x\<lparr>lfirst := None\<rparr>) h1);
          Some (edata e, set_elem a None h2) }) }"

definition ylist_pop :: "nat \<Rightarrow> 'd yheap \<Rightarrow> ('d option \<times> 'd yheap) option" where
  "ylist_pop l h = do {
     x \<leftarrow> hlists h l;
     (case lfirst x of
        None \<Rightarrow> Some (None, h)
      | Some a \<Rightarrow> do {
          e \<leftarrow> helems h a;
          h1 \<leftarrow> upd_list l (\<lambda>x. x\<lparr>lfirst := enext e\<rparr>) h;
          h2 \<leftarrow> (case enext e of
                   Some p \<Rightarrow> upd_elem p (\<lambda>e. e\<lparr>eprev := None\<rparr>) h1
                 | None \<Rightarrow> upd_list l (\<lambda>x. x\<lparr>llast := None\<rparr>) h1);
          Some (edata e, set_elem a None h2) }) }"

text \<open>The first half of \<^verbatim>\<open>ylist_swap\<close>, which takes the element out of its list.\<close>

definition swap_out :: "nat \<Rightarrow> 'd yheap \<Rightarrow> 'd yheap option" where
  "swap_out a h = do {
     e \<leftarrow> helems h a;
     src \<leftarrow> hlists h (elist e);
     h1 \<leftarrow> (if lfirst src = Some a then upd_list (elist e) (\<lambda>x. x\<lparr>lfirst := enext e\<rparr>) h
             else if llast src = Some a then upd_list (elist e) (\<lambda>x. x\<lparr>llast := eprev e\<rparr>) h
             else Some h);
     h2 \<leftarrow> (case enext e of None \<Rightarrow> Some h1 | Some n \<Rightarrow> upd_elem n (\<lambda>x. x\<lparr>eprev := eprev e\<rparr>) h1);
     (case eprev e of None \<Rightarrow> Some h2 | Some p \<Rightarrow> upd_elem p (\<lambda>x. x\<lparr>enext := enext e\<rparr>) h2) }"

definition ylist_swap :: "nat \<Rightarrow> nat \<Rightarrow> 'd yheap \<Rightarrow> 'd yheap option" where
  "ylist_swap a dest h = do {
     h1 \<leftarrow> swap_out a h;
     h2 \<leftarrow> upd_elem a (\<lambda>e. e\<lparr>elist := dest\<rparr>) h1;
     d \<leftarrow> hlists h2 dest;
     (case llast d of
        Some q \<Rightarrow> do {
          h3 \<leftarrow> upd_elem a (\<lambda>e. e\<lparr>eprev := llast d\<rparr>) h2;
          upd_elem q (\<lambda>e. e\<lparr>enext := Some a\<rparr>) h3 }
      | None \<Rightarrow> do {
          h3 \<leftarrow> upd_elem a (\<lambda>e. e\<lparr>eprev := None, enext := None\<rparr>) h2;
          upd_list dest (\<lambda>x. x\<lparr>lfirst := Some a, llast := Some a\<rparr>) h3 }) }"

section \<open>Lists in the heap\<close>

text \<open>A chain of elements of list \<open>l\<close>, with what stands before and behind it.\<close>

fun chain :: "(nat \<Rightarrow> 'd ylist_elem_t option) \<Rightarrow> nat \<Rightarrow> nat option \<Rightarrow> nat list \<Rightarrow> nat option \<Rightarrow> bool" where
  "chain E l p [] q \<longleftrightarrow> True"
| "chain E l p (a # as) q \<longleftrightarrow>
     (\<exists>e. E a = Some e \<and> eprev e = p \<and> enext e = (if as = [] then q else Some (hd as)) \<and> elist e = l) \<and>
     chain E l (Some a) as q"

definition hd_opt :: "nat list \<Rightarrow> nat option" where
  "hd_opt as = (if as = [] then None else Some (hd as))"

definition last_opt :: "nat list \<Rightarrow> nat option" where
  "last_opt as = (if as = [] then None else Some (last as))"

definition ylist_rep :: "'d yheap \<Rightarrow> nat \<Rightarrow> nat list \<Rightarrow> bool" where
  "ylist_rep h l as \<longleftrightarrow> hlists h l = Some \<lparr>lfirst = hd_opt as, llast = last_opt as\<rparr> \<and> distinct as \<and>
     chain (helems h) l None as None"

definition ylist_data :: "'d yheap \<Rightarrow> nat list \<Rightarrow> 'd option list" where
  "ylist_data h as = map (\<lambda>a. case helems h a of None \<Rightarrow> None | Some e \<Rightarrow> edata e) as"

lemma heap_simps [simp]:
  "hlists (set_list l x h) = (hlists h)(l := x)" "helems (set_list l x h) = helems h"
  "hlists (set_elem a e h) = hlists h" "helems (set_elem a e h) = (helems h)(a := e)"
  by (simp_all add: set_list_def set_elem_def)

lemma upd_simps [simp]:
  "hlists h l = Some x \<Longrightarrow> upd_list l f h = Some (set_list l (Some (f x)) h)"
  "helems h a = Some e \<Longrightarrow> upd_elem a g h = Some (set_elem a (Some (g e)) h)"
  by (simp_all add: upd_list_def upd_elem_def)

lemma opt_simps [simp]: "hd_opt [] = None" "last_opt [] = None" "hd_opt (a # as) = Some a" "last_opt (as @ [a]) = Some a"
  "last_opt [a] = Some a"
  by (simp_all add: hd_opt_def last_opt_def)

lemma chain_append:
  "chain E l p (as @ bs) q \<longleftrightarrow>
     chain E l p as (if bs = [] then q else Some (hd bs)) \<and> chain E l (if as = [] then p else Some (last as)) bs q"
  by (induction as arbitrary: p) auto

lemma chain_upd [simp]: "a \<notin> set as \<Longrightarrow> chain (E(a := e)) l p as q = chain E l p as q"
  by (induction as arbitrary: p) auto

lemma chain_allocated: "chain E l p as q \<Longrightarrow> a \<in> set as \<Longrightarrow> \<exists>e. E a = Some e \<and> elist e = l"
  by (induction as arbitrary: p) auto

lemma data_upd [simp]: "a \<notin> set as \<Longrightarrow> ylist_data (set_elem a e h) as = ylist_data h as"
  "ylist_data (set_list l x h) as = ylist_data h as"
  by (auto simp: ylist_data_def)

lemma data_append: "ylist_data h (as @ bs) = ylist_data h as @ ylist_data h bs"
  by (simp add: ylist_data_def)

lemma data_Cons: "ylist_data h (a # as) = (case helems h a of None \<Rightarrow> None | Some e \<Rightarrow> edata e) # ylist_data h as"
  by (simp add: ylist_data_def)

lemma data_Nil [simp]: "ylist_data h [] = []" "ylist_data h as = [] \<longleftrightarrow> as = []"
  by (simp_all add: ylist_data_def)

text \<open>An operation changes only its list and the elements of that list.\<close>

definition heap_frame :: "'d yheap \<Rightarrow> 'd yheap \<Rightarrow> nat \<Rightarrow> nat set \<Rightarrow> bool" where
  "heap_frame h h' l A \<longleftrightarrow> (\<forall>m. m \<noteq> l \<longrightarrow> hlists h' m = hlists h m) \<and> (\<forall>b. b \<notin> A \<longrightarrow> helems h' b = helems h b)"

lemma ylist_add_ok:
  assumes "ylist_rep h l as" and "a \<notin> set as"
  shows "\<exists>h'. ylist_add l (Some a) d h = Some (a, h') \<and> ylist_rep h' l (as @ [a]) \<and>
    ylist_data h' (as @ [a]) = ylist_data h as @ [d] \<and> heap_frame h h' l (insert a (set as))"
proof (cases as rule: rev_cases)
  case Nil
  then show ?thesis
    using assms by (simp add: ylist_add_def ylist_rep_def heap_frame_def ylist_data_def)
next
  case (snoc bs p)
  then obtain e where e: "helems h p = Some e" "eprev e = (if bs = [] then None else Some (last bs))" "elist e = l"
    using assms(1) by (auto simp: ylist_rep_def chain_append)
  let ?e = "\<lparr>edata = d, eprev = Some p, enext = None, elist = l\<rparr>"
  let ?h = "set_list l (Some \<lparr>lfirst = hd_opt as, llast = Some a\<rparr>)
      (set_elem p (Some (e\<lparr>enext := Some a\<rparr>)) (set_elem a (Some ?e) h))"
  have ap: "a \<noteq> p" "a \<notin> set bs" "p \<notin> set bs" using assms snoc by (auto simp: ylist_rep_def)
  have "ylist_add l (Some a) d h = Some (a, ?h)"
    using assms(1) snoc e ap by (simp add: ylist_add_def ylist_rep_def)
  moreover have "ylist_rep ?h l (as @ [a])"
    using assms snoc e ap by (auto simp: ylist_rep_def chain_append hd_opt_def last_opt_def hd_append)
  moreover have "ylist_data ?h (as @ [a]) = ylist_data h as @ [d]"
    using snoc e ap by (simp add: data_append data_Cons)
  ultimately show ?thesis using snoc by (auto simp: heap_frame_def)
qed

lemma ylist_push_ok:
  assumes "ylist_rep h l as" and "a \<notin> set as"
  shows "\<exists>h'. ylist_push l (Some a) d h = Some (a, h') \<and> ylist_rep h' l (a # as) \<and>
    ylist_data h' (a # as) = d # ylist_data h as \<and> heap_frame h h' l (insert a (set as))"
proof (cases as)
  case Nil
  then show ?thesis
    using assms by (simp add: ylist_push_def ylist_rep_def heap_frame_def ylist_data_def)
next
  case (Cons p bs)
  then obtain e where e: "helems h p = Some e" "eprev e = None" "enext e = hd_opt bs" "elist e = l"
    using assms(1) by (auto simp: ylist_rep_def hd_opt_def)
  let ?e = "\<lparr>edata = d, eprev = None, enext = Some p, elist = l\<rparr>"
  let ?h = "set_list l (Some \<lparr>lfirst = Some a, llast = last_opt as\<rparr>)
      (set_elem p (Some (e\<lparr>eprev := Some a\<rparr>)) (set_elem a (Some ?e) h))"
  have ap: "a \<noteq> p" "a \<notin> set bs" "p \<notin> set bs" using assms Cons by (auto simp: ylist_rep_def)
  have "ylist_push l (Some a) d h = Some (a, ?h)"
    using assms(1) Cons e ap by (simp add: ylist_push_def ylist_rep_def)
  moreover have "ylist_rep ?h l (a # as)"
    using assms Cons e ap by (auto simp: ylist_rep_def last_opt_def hd_opt_def)
  moreover have "ylist_data ?h (a # as) = d # ylist_data h as"
    using Cons e ap by (simp add: data_Cons)
  ultimately show ?thesis using Cons by (auto simp: heap_frame_def)
qed

lemma ylist_pop_ok:
  assumes "ylist_rep h l as"
  shows "\<exists>h'. ylist_pop l h = Some (if as = [] then None else hd (ylist_data h as), h') \<and> ylist_rep h' l (tl as) \<and>
    ylist_data h' (tl as) = tl (ylist_data h as) \<and> heap_frame h h' l (set as)"
proof (cases as)
  case Nil
  then show ?thesis using assms by (simp add: ylist_pop_def ylist_rep_def heap_frame_def)
next
  case (Cons a bs)
  then obtain e where e: "helems h a = Some e" "eprev e = None" "enext e = hd_opt bs" "elist e = l"
    and l: "hlists h l = Some \<lparr>lfirst = Some a, llast = last_opt as\<rparr>"
    using assms by (auto simp: ylist_rep_def hd_opt_def)
  show ?thesis
  proof (cases bs)
    case Nil
    then show ?thesis
      using e l \<open>as = a # bs\<close> by (simp add: ylist_pop_def ylist_rep_def heap_frame_def data_Cons)
  next
    case (Cons p cs)
    then obtain f where f: "helems h p = Some f" "enext f = hd_opt cs" "elist f = l" "chain (helems h) l (Some p) cs None"
      using assms \<open>as = a # bs\<close> by (auto simp: ylist_rep_def hd_opt_def)
    let ?h = "set_elem a None (set_elem p (Some (f\<lparr>eprev := None\<rparr>))
        (set_list l (Some \<lparr>lfirst = Some p, llast = last_opt as\<rparr>) h))"
    have ap: "a \<noteq> p" "a \<notin> set cs" "p \<notin> set cs" "distinct cs"
      using assms Cons \<open>as = a # bs\<close> by (auto simp: ylist_rep_def)
    have "ylist_pop l h = Some (edata e, ?h)"
      using e l f Cons ap by (simp add: ylist_pop_def)
    moreover have "ylist_rep ?h l bs"
      using f Cons ap \<open>as = a # bs\<close> by (auto simp: ylist_rep_def last_opt_def hd_opt_def)
    moreover have "ylist_data ?h bs = tl (ylist_data h as)"
      using f Cons ap \<open>as = a # bs\<close> by (simp add: data_Cons)
    ultimately show ?thesis using Cons \<open>as = a # bs\<close> e by (auto simp: heap_frame_def data_Cons)
  qed
qed

lemma ylist_remove_ok:
  assumes "ylist_rep h l as"
  shows "\<exists>h'. ylist_remove l h = Some (if as = [] then None else last (ylist_data h as), h') \<and> ylist_rep h' l (butlast as) \<and>
    ylist_data h' (butlast as) = butlast (ylist_data h as) \<and> heap_frame h h' l (set as)"
proof (cases as rule: rev_cases)
  case Nil
  then show ?thesis using assms by (simp add: ylist_remove_def ylist_rep_def heap_frame_def)
next
  case (snoc bs a)
  then obtain e where e: "helems h a = Some e" "eprev e = last_opt bs" "enext e = None" "elist e = l"
    and l: "hlists h l = Some \<lparr>lfirst = hd_opt as, llast = Some a\<rparr>"
    using assms by (auto simp: ylist_rep_def last_opt_def chain_append)
  show ?thesis
  proof (cases bs rule: rev_cases)
    case Nil
    then show ?thesis
      using e l \<open>as = bs @ [a]\<close> by (simp add: ylist_remove_def ylist_rep_def heap_frame_def data_append data_Cons)
  next
    case (snoc cs p)
    then obtain f where f: "helems h p = Some f" "eprev f = last_opt cs" "elist f = l" "chain (helems h) l None cs (Some p)"
      using assms \<open>as = bs @ [a]\<close> by (auto simp: ylist_rep_def last_opt_def chain_append)
    let ?h = "set_elem a None (set_elem p (Some (f\<lparr>enext := None\<rparr>))
        (set_list l (Some \<lparr>lfirst = hd_opt as, llast = Some p\<rparr>) h))"
    have ap: "a \<noteq> p" "a \<notin> set cs" "p \<notin> set cs" "distinct cs"
      using assms snoc \<open>as = bs @ [a]\<close> by (auto simp: ylist_rep_def)
    have "ylist_remove l h = Some (edata e, ?h)"
      using e l f snoc ap by (simp add: ylist_remove_def)
    moreover have "ylist_rep ?h l bs"
      using f snoc ap \<open>as = bs @ [a]\<close> by (auto simp: ylist_rep_def last_opt_def hd_opt_def chain_append hd_append)
    moreover have "ylist_data ?h bs = butlast (ylist_data h as)"
      using f snoc ap \<open>as = bs @ [a]\<close> by (simp add: data_append data_Cons butlast_append)
    moreover have "butlast as = bs" "last (ylist_data h as) = edata e" "heap_frame h ?h l (set as)"
      using snoc \<open>as = bs @ [a]\<close> e by (auto simp: heap_frame_def data_append data_Cons butlast_append)
    ultimately show ?thesis using \<open>as = bs @ [a]\<close> by auto
  qed
qed

section \<open>The contract\<close>

text \<open>
  For the contract of a sequence the state is the heap, the next address of an allocator that never
  gives an address twice, and the addresses of the elements of list \<open>l\<close>.
\<close>

type_synonym 'd lstate = "'d yheap \<times> nat \<times> nat list"

definition lst_inv :: "nat \<Rightarrow> 'd lstate \<Rightarrow> bool" where
  "lst_inv l s \<longleftrightarrow> (case s of (h, n, as) \<Rightarrow> ylist_rep h l as \<and> (\<forall>a \<in> set as. a < n))"

definition lst_elems :: "'d lstate \<Rightarrow> 'd option list" where
  "lst_elems s = (case s of (h, n, as) \<Rightarrow> ylist_data h as)"

definition lst_add :: "nat \<Rightarrow> 'd lstate \<Rightarrow> 'd option \<Rightarrow> 'd lstate option" where
  "lst_add l s d = (case s of (h, n, as) \<Rightarrow> do { (a, h') \<leftarrow> ylist_add l (Some n) d h; Some (h', Suc n, as @ [a]) })"

definition lst_push :: "nat \<Rightarrow> 'd lstate \<Rightarrow> 'd option \<Rightarrow> 'd lstate option" where
  "lst_push l s d = (case s of (h, n, as) \<Rightarrow> do { (a, h') \<leftarrow> ylist_push l (Some n) d h; Some (h', Suc n, a # as) })"

definition lst_pop :: "nat \<Rightarrow> 'd lstate \<Rightarrow> ('d option \<times> 'd lstate) option" where
  "lst_pop l s = (case s of (h, n, as) \<Rightarrow> do { (d, h') \<leftarrow> ylist_pop l h; Some (d, h', n, tl as) })"

definition lst_remove :: "nat \<Rightarrow> 'd lstate \<Rightarrow> ('d option \<times> 'd lstate) option" where
  "lst_remove l s = (case s of (h, n, as) \<Rightarrow> do { (d, h') \<leftarrow> ylist_remove l h; Some (d, h', n, butlast as) })"

lemma in_set_tl: "a \<in> set (tl as) \<Longrightarrow> a \<in> set as"
  by (cases as) auto

interpretation lst: sequence "lst_inv l" lst_elems "\<lambda>n. True" None "lst_add l" "lst_push l" "lst_pop l" "lst_remove l"
  for l :: nat
proof unfold_locales
  fix s :: "'a lstate" and x
  assume inv: "lst_inv l s"
  obtain h n as where s: "s = (h, n, as)" by (cases s)
  have rep: "ylist_rep h l as" and fresh: "n \<notin> set as" "\<And>a. a \<in> set as \<Longrightarrow> a < Suc n"
    using inv by (auto simp: lst_inv_def s less_Suc_eq)
  show "\<exists>s'. lst_add l s x = Some s' \<and> lst_inv l s' \<and> lst_elems s' = lst_elems s @ [x]"
    using ylist_add_ok [OF rep fresh(1), of x] fresh(2) by (auto simp: lst_inv_def lst_add_def lst_elems_def s)
  show "\<exists>s'. lst_push l s x = Some s' \<and> lst_inv l s' \<and> lst_elems s' = x # lst_elems s"
    using ylist_push_ok [OF rep fresh(1), of x] fresh(2) by (auto simp: lst_inv_def lst_push_def lst_elems_def s)
  show "\<exists>s'. lst_pop l s = Some (if lst_elems s = [] then None else hd (lst_elems s), s') \<and> lst_inv l s' \<and>
      lst_elems s' = tl (lst_elems s)"
    using ylist_pop_ok [OF rep] inv in_set_tl [of _ as] by (fastforce simp: lst_inv_def lst_pop_def lst_elems_def s)
  show "\<exists>s'. lst_remove l s = Some (if lst_elems s = [] then None else last (lst_elems s), s') \<and> lst_inv l s' \<and>
      lst_elems s' = butlast (lst_elems s)"
    using ylist_remove_ok [OF rep] inv in_set_butlastD [of _ as] by (fastforce simp: lst_inv_def lst_remove_def lst_elems_def s)
qed simp

section \<open>Deleting\<close>

lemma delete_loop_ok:
  "chain (helems h) l p as None \<Longrightarrow> distinct as \<Longrightarrow>
     \<exists>h'. delete_loop h (hd_opt as) = Some (ylist_data h as, h') \<and> hlists h' = hlists h \<and>
       helems h' = (\<lambda>b. if b \<in> set as then None else helems h b)"
proof (induction as arbitrary: h p)
  case Nil
  then show ?case by (simp add: delete_loop.simps)
next
  case (Cons a as)
  then obtain e where e: "helems h a = Some e" "enext e = hd_opt as" and c: "chain (helems h) l (Some a) as None"
    by (auto simp: hd_opt_def)
  let ?h = "set_elem a None h"
  have c': "chain (helems ?h) l (Some a) as None" using c Cons.prems(2) by simp
  obtain h' where h': "delete_loop ?h (hd_opt as) = Some (ylist_data ?h as, h')" "hlists h' = hlists h"
    "helems h' = (\<lambda>b. if b \<in> set as then None else helems ?h b)"
    using Cons.IH [OF c'] Cons.prems(2) by auto
  have "delete_loop h (hd_opt (a # as)) = Some (ylist_data h (a # as), h')"
    using h'(1) e Cons.prems(2) by (subst delete_loop.simps) (simp add: data_Cons)
  then show ?case using h'(2,3) by (auto intro!: exI [of _ h'])
qed

section \<open>Properties\<close>

text \<open>
  C29: A linked list behaves like a list. Starting from \<^verbatim>\<open>ylist_new\<close>, every sequence of calls of
  \<^verbatim>\<open>ylist_add\<close>, \<^verbatim>\<open>ylist_push\<close>, \<^verbatim>\<open>ylist_pop\<close> and \<^verbatim>\<open>ylist_remove\<close> for which memory suffices follows only valid
  pointers, returns what the operations on a list return, and \<^verbatim>\<open>ylist_delete\<close> then calls its function
  on exactly the remaining data, in order, and frees every element.
\<close>

theorem linked_list_runs_like_list:
  assumes "ylist_new (Some l) h = (Some l, h0)"
  shows "\<exists>h' n as h''. seq_run (lst_add l) (lst_push l) (lst_pop l) (lst_remove l) (h0, n0, []) ops =
      Some (fst (list_run None [] ops), h', n, as) \<and>
    ylist_rep h' l as \<and> ylist_data h' as = snd (list_run None [] ops) \<and>
    ylist_delete l True h' = Some (snd (list_run None [] ops), h'') \<and> hlists h'' l = None \<and>
    (\<forall>a \<in> set as. helems h'' a = None)"
proof -
  have "lst_inv l (h0, n0, [])" using assms by (auto simp: ylist_new_def lst_inv_def ylist_rep_def)
  then obtain h' n as where r: "seq_run (lst_add l) (lst_push l) (lst_pop l) (lst_remove l) (h0, n0, []) ops =
      Some (fst (list_run None [] ops), h', n, as)" "lst_inv l (h', n, as)"
    "lst_elems (h', n, as) = snd (list_run None [] ops)"
    using lst.runs_like_list [of l "(h0, n0, [])" ops] by (auto simp: lst_elems_def)
  then have rep: "ylist_rep h' l as" "ylist_data h' as = snd (list_run None [] ops)"
    by (simp_all add: lst_inv_def lst_elems_def)
  obtain h1 where "delete_loop h' (hd_opt as) = Some (ylist_data h' as, h1)"
    "helems h1 = (\<lambda>b. if b \<in> set as then None else helems h' b)"
    using delete_loop_ok [of h' l None as] rep(1) by (auto simp: ylist_rep_def)
  then have "ylist_delete l True h' = Some (ylist_data h' as, set_list l None h1)" "\<forall>a \<in> set as. helems h1 a = None"
    using rep(1) by (simp_all add: ylist_delete_def ylist_rep_def)
  then show ?thesis using r(1) rep by auto
qed

definition wit_heap :: "nat yheap" where
  "wit_heap = \<lparr>hlists = (\<lambda>_. None), helems = (\<lambda>_. None)\<rparr>"

theorem linked_list_runs_like_list_witness:
  "\<exists>h' n as h''. seq_run (lst_add 9) (lst_push 9) (lst_pop 9) (lst_remove 9) (snd (ylist_new (Some 9) wit_heap), 1, [])
      [AddLast (Some 5), AddFirst (Some 6), AddLast (Some 7), TakeFirst] = Some ([Some 6], h', n, as) \<and>
    ylist_rep h' 9 as \<and> ylist_data h' as = [Some 5, Some 7] \<and>
    ylist_delete 9 True h' = Some ([Some 5, Some 7], h'') \<and> hlists h'' 9 = None \<and> (\<forall>a \<in> set as. helems h'' a = None)"
  using linked_list_runs_like_list [of 9 wit_heap "snd (ylist_new (Some 9) wit_heap)" 1
      "[AddLast (Some 5), AddFirst (Some 6), AddLast (Some 7), TakeFirst]"]
  by (simp add: ylist_new_def)

section \<open>Moving an element\<close>

lemma chain_cong: "(\<And>a. a \<in> set as \<Longrightarrow> E' a = E a) \<Longrightarrow> chain E' l p as q = chain E l p as q"
  by (induction as arbitrary: p) auto

lemma ylist_rep_cong:
  assumes "ylist_rep h l as" and "hlists h' l = hlists h l" and "\<And>a. a \<in> set as \<Longrightarrow> helems h' a = helems h a"
  shows "ylist_rep h' l as"
  using assms chain_cong [of as "helems h'" "helems h"] by (simp add: ylist_rep_def)

text \<open>Taking an element out of a list of at least two, at its front, at its end and in its middle.\<close>

lemma swap_out_ok:
  assumes rep: "ylist_rep h l (as @ a # bs)" and two: "as \<noteq> [] \<or> bs \<noteq> []"
  shows "\<exists>h'. swap_out a h = Some h' \<and> ylist_rep h' l (as @ bs) \<and> heap_frame h h' l (set as \<union> set bs)"
proof -
  have d: "a \<notin> set as" "a \<notin> set bs" "distinct as" "distinct bs" "set as \<inter> set bs = {}"
    using rep by (auto simp: ylist_rep_def)
  obtain e where e: "helems h a = Some e" "eprev e = last_opt as" "enext e = hd_opt bs" "elist e = l"
    and l: "hlists h l = Some \<lparr>lfirst = hd_opt (as @ a # bs), llast = last_opt (as @ a # bs)\<rparr>"
    and ch: "chain (helems h) l None as (Some a)" "chain (helems h) l (Some a) bs None"
    using rep by (auto simp: ylist_rep_def chain_append last_opt_def hd_opt_def)
  consider (front) b cs where "as = []" "bs = b # cs" | (rear) cs p where "as = cs @ [p]" "bs = []"
    | (mid) cs p b ds where "as = cs @ [p]" "bs = b # ds"
    using two by (cases as rule: rev_cases; cases bs) auto
  then show ?thesis
  proof cases
    case front
    then obtain f where f: "helems h b = Some f" "enext f = hd_opt cs" "elist f = l" "chain (helems h) l (Some b) cs None"
      using ch(2) by (auto simp: hd_opt_def)
    let ?h = "set_elem b (Some (f\<lparr>eprev := None\<rparr>)) (set_list l (Some \<lparr>lfirst = Some b, llast = last_opt bs\<rparr>) h)"
    have "swap_out a h = Some ?h"
      using e l f front d by (simp add: swap_out_def last_opt_def)
    moreover have "ylist_rep ?h l (as @ bs)" using f front d by (auto simp: ylist_rep_def hd_opt_def)
    ultimately show ?thesis using front by (auto simp: heap_frame_def)
  next
    case rear
    then obtain f where f: "helems h p = Some f" "eprev f = last_opt cs" "elist f = l" "chain (helems h) l None cs (Some p)"
      using ch(1) by (auto simp: last_opt_def chain_append)
    let ?h = "set_elem p (Some (f\<lparr>enext := None\<rparr>)) (set_list l (Some \<lparr>lfirst = hd_opt as, llast = Some p\<rparr>) h)"
    have "hd_opt (as @ [a]) = hd_opt as" "hd_opt as \<noteq> Some a" using rear d by (auto simp: hd_opt_def hd_append)
    then have "swap_out a h = Some ?h"
      using e l f rear d by (simp add: swap_out_def last_opt_def)
    moreover have "ylist_rep ?h l (as @ bs)" using f rear d by (auto simp: ylist_rep_def last_opt_def chain_append)
    ultimately show ?thesis using rear by (auto simp: heap_frame_def)
  next
    case mid
    then obtain f g where f: "helems h p = Some f" "eprev f = last_opt cs" "elist f = l" "chain (helems h) l None cs (Some p)"
      and g: "helems h b = Some g" "enext g = hd_opt ds" "elist g = l" "chain (helems h) l (Some b) ds None"
      using ch by (auto simp: last_opt_def hd_opt_def chain_append)
    let ?h = "set_elem p (Some (f\<lparr>enext := Some b\<rparr>)) (set_elem b (Some (g\<lparr>eprev := Some p\<rparr>)) h)"
    have hd: "hd_opt (as @ a # bs) = hd_opt (as @ bs)" "hd_opt (as @ bs) \<noteq> Some a" "last_opt (as @ a # bs) = last_opt (as @ bs)"
      "last_opt (as @ bs) \<noteq> Some a"
      using mid d by (auto simp: hd_opt_def hd_append last_opt_def)
    have pb: "p \<noteq> b" "p \<notin> set ds" "b \<notin> set cs" "p \<notin> set cs" "b \<notin> set ds" using mid d by auto
    have "swap_out a h = Some ?h"
      using e l f g mid hd pb by (simp add: swap_out_def)
    moreover have "ylist_rep ?h l (as @ bs)"
      using f g mid d pb l hd by (auto simp: ylist_rep_def chain_append last_opt_def hd_opt_def)
    ultimately show ?thesis using mid by (auto simp: heap_frame_def)
  qed
qed

lemma swap_out_single:
  assumes "ylist_rep h l [a]"
  shows "swap_out a h = Some (set_list l (Some \<lparr>lfirst = None, llast = Some a\<rparr>) h)"
  using assms by (auto simp: swap_out_def ylist_rep_def)

text \<open>Putting the element into the other list.\<close>

lemma swap_in_ok:
  assumes "swap_out a h = Some h1" and "helems h1 a = Some e" and "ylist_rep h1 dest qs" and "a \<notin> set qs"
  shows "\<exists>h'. ylist_swap a dest h = Some h' \<and> heap_frame h1 h' dest (insert a (set qs)) \<and>
    (if qs = [] then ylist_rep h' dest [a] else hlists h' dest = hlists h1 dest)"
proof (cases qs rule: rev_cases)
  case Nil
  then show ?thesis
    using assms by (auto simp: ylist_swap_def ylist_rep_def heap_frame_def)
next
  case (snoc rs q)
  then obtain f where "helems h1 q = Some f" "q \<noteq> a"
    using assms(3,4) by (auto simp: ylist_rep_def chain_append)
  then show ?thesis
    using assms(1-3) snoc by (auto simp: ylist_swap_def ylist_rep_def heap_frame_def)
qed

text \<open>
  \<^verbatim>\<open>ylist_swap\<close> moves an element to the end of another list as documented if and only if its list
  has another element and the other list is empty. In all other cases a pointer is left stale: the only
  element of a list stays its last one, and the last element of a list that was not empty stays the old
  one, so that the next \<^verbatim>\<open>ylist_add\<close> cuts the moved element off.
\<close>

theorem ylist_swap_moves_iff:
  assumes "ylist_rep h src (as @ a # bs)" and "ylist_rep h dest qs" and "src \<noteq> dest"
    and "set (as @ a # bs) \<inter> set qs = {}"
  shows "\<exists>h'. ylist_swap a dest h = Some h' \<and>
    (ylist_rep h' src (as @ bs) \<and> ylist_rep h' dest (qs @ [a]) \<longleftrightarrow> (as \<noteq> [] \<or> bs \<noteq> []) \<and> qs = [])"
proof -
  have a: "a \<notin> set qs" "a \<notin> set as \<union> set bs" using assms(1,4) by (auto simp: ylist_rep_def)
  obtain e where e: "helems h a = Some e" using chain_allocated assms(1) by (fastforce simp: ylist_rep_def)
  have "\<exists>h1. swap_out a h = Some h1 \<and> heap_frame h h1 src (set as \<union> set bs) \<and>
      (if as \<noteq> [] \<or> bs \<noteq> [] then ylist_rep h1 src (as @ bs) else hlists h1 src = Some \<lparr>lfirst = None, llast = Some a\<rparr>)"
  proof (cases "as \<noteq> [] \<or> bs \<noteq> []")
    case True
    then show ?thesis using swap_out_ok [OF assms(1)] by auto
  next
    case False
    then show ?thesis using swap_out_single [of h src a] assms(1) by (simp add: heap_frame_def)
  qed
  then obtain h1 where h1: "swap_out a h = Some h1" "heap_frame h h1 src (set as \<union> set bs)"
    "if as \<noteq> [] \<or> bs \<noteq> [] then ylist_rep h1 src (as @ bs) else hlists h1 src = Some \<lparr>lfirst = None, llast = Some a\<rparr>"
    by blast
  have "ylist_rep h1 dest qs"
    by (rule ylist_rep_cong [OF assms(2)]) (use h1(2) assms(3,4) in \<open>auto simp: heap_frame_def\<close>)
  moreover have "helems h1 a = Some e" using h1(2) a(2) e by (simp add: heap_frame_def)
  ultimately obtain h' where h': "ylist_swap a dest h = Some h'" "heap_frame h1 h' dest (insert a (set qs))"
    "if qs = [] then ylist_rep h' dest [a] else hlists h' dest = hlists h1 dest"
    using swap_in_ok [OF h1(1) _ _ a(1)] by blast
  have src: "ylist_rep h' src (as @ bs) = ylist_rep h1 src (as @ bs)"
  proof -
    have "hlists h' src = hlists h1 src" "\<And>b. b \<in> set (as @ bs) \<Longrightarrow> helems h' b = helems h1 b"
      using h'(2) assms(3,4) a(2) by (auto simp: heap_frame_def)
    then show ?thesis using ylist_rep_cong [of h1 src "as @ bs" h'] ylist_rep_cong [of h' src "as @ bs" h1] by auto
  qed
  have "\<not> ylist_rep h1 src (as @ bs)" if "as = []" "bs = []"
    using h1(3) that by (simp add: ylist_rep_def)
  moreover have "\<not> ylist_rep h' dest (qs @ [a])" if "qs \<noteq> []"
    using h'(3) that \<open>ylist_rep h1 dest qs\<close> a(1) by (auto simp: ylist_rep_def last_opt_def)
  ultimately show ?thesis using h'(1,3) h1(3) src by (auto split: if_splits)
qed

definition wit_swap :: "nat yheap" where
  "wit_swap = \<lparr>hlists = [7 \<mapsto> \<lparr>lfirst = Some 1, llast = Some 2\<rparr>, 8 \<mapsto> \<lparr>lfirst = None, llast = None\<rparr>],
     helems = [1 \<mapsto> \<lparr>edata = Some 5, eprev = None, enext = Some 2, elist = 7\<rparr>,
               2 \<mapsto> \<lparr>edata = Some 6, eprev = Some 1, enext = None, elist = 7\<rparr>]\<rparr>"

theorem ylist_swap_moves_iff_witness:
  "\<exists>h'. ylist_swap 2 8 wit_swap = Some h' \<and> ylist_rep h' 7 [1] \<and> ylist_rep h' 8 [2]"
proof -
  have "ylist_rep wit_swap 7 ([1] @ 2 # [])" "ylist_rep wit_swap 8 []"
    by (simp_all add: ylist_rep_def wit_swap_def hd_opt_def last_opt_def)
  then show ?thesis using ylist_swap_moves_iff [of wit_swap 7 "[1]" 2 "[]" 8 "[]"] by auto
qed

end
