(* ===== verification/Ystr.thy ===== *)
theory Ystr
  imports Ymem
begin

text \<open>
  Buffered strings, \<^verbatim>\<open>lib/ylib/ystr.c\<close>. A string is its header and the block behind it; the null
  pointer is \<^term>\<open>None\<close>, and an outer \<^term>\<open>None\<close> is undefined behaviour. Arguments that are C strings are
  given by their characters, which end at the first NUL. What the next allocations return is a list of
  outcomes that the operations pass on; an empty list is success from then on.
\<close>

section \<open>The structure\<close>

record ystr_t =
  stotal :: u32
  sused :: u32
  chars :: bytes

definition YSTR_SIZE :: u32 where
  "YSTR_SIZE = 4096"

definition ymalloc :: "bool list \<Rightarrow> bool \<times> bool list" where
  "ymalloc m = (case m of [] \<Rightarrow> (True, []) | b # bs \<Rightarrow> (b, bs))"

text \<open>\<^verbatim>\<open>strlen\<close>, cut to an \<^verbatim>\<open>unsigned int\<close>; the null pointer counts as empty.\<close>

definition str_size :: "bytes option \<Rightarrow> u32" where
  "str_size s = (case s of None \<Rightarrow> 0 | Some t \<Rightarrow> word_of_nat (length (cstr t)))"

text \<open>A new block with a copy of a string.\<close>

definition ys_fill :: "u32 \<Rightarrow> bytes option \<Rightarrow> ystr_t option" where
  "ys_fill totalsz s = do {
     cs \<leftarrow> mem_write (YMALLOC (unat totalsz)) 0
             (if str_size s = 0 then [0] else (case s of None \<Rightarrow> [0] | Some t \<Rightarrow> cstr t @ [0]));
     Some \<lparr>stotal = totalsz, sused = str_size s, chars = cs\<rparr> }"

definition ys_new :: "bool list \<Rightarrow> bytes option \<Rightarrow> (ystr_t option \<times> bool list) option" where
  "ys_new m s =
     (case ymalloc m of (ok, m') \<Rightarrow>
      if \<not> ok then Some (None, m')
      else do {
        y \<leftarrow> ys_fill (if str_size s < YSTR_SIZE then YSTR_SIZE else size_total (str_size s) 1) s;
        Some (Some y, m') })"

definition ys_copy :: "bool list \<Rightarrow> bytes option \<Rightarrow> (ystr_t option \<times> bool list) option" where
  "ys_copy m s =
     (case ymalloc m of (ok, m') \<Rightarrow>
      if \<not> ok then Some (None, m')
      else do {
        y \<leftarrow> ys_fill (str_size s + 1) s;
        Some (Some y, m') })"

definition ys_del :: "ystr_t option \<Rightarrow> ystr_t option" where
  "ys_del s = None"

definition ys_trunc :: "ystr_t option \<Rightarrow> ystr_t option option" where
  "ys_trunc s =
     (case s of
        None \<Rightarrow> Some None
      | Some y \<Rightarrow> do {
          cs \<leftarrow> set_cell (chars y) 0 0;
          Some (Some (y\<lparr>chars := cs, sused := 0\<rparr>)) })"

text \<open>
  The old characters are copied from the address of the pointer, not from where it points: \<open>var\<close> are the
  bytes of the pointer variable. Its caller always passes the address of a variable, so the early return
  for the null address is not a case of the model.
\<close>

definition ys_setsz ::
    "bool list \<Rightarrow> bytes \<Rightarrow> ystr_t option \<Rightarrow> u32 \<Rightarrow> (int \<times> ystr_t option \<times> bool list) option" where
  "ys_setsz m var s sz =
     (case s of
        None \<Rightarrow> None
      | Some y \<Rightarrow>
          if sz \<le> stotal y then Some (1, s, m)
          else case ymalloc m of (ok, m') \<Rightarrow>
            if \<not> ok then Some (0, s, m')
            else do {
              old \<leftarrow> mem_read var 0 (unat (sused y) + 1);
              ns \<leftarrow> mem_write (YMALLOC (unat (size_total sz 1))) 0 old;
              Some (1, Some \<lparr>stotal = size_total sz 1, sused = sused y, chars = ns\<rparr>, m') })"

definition ys_len :: "ystr_t option \<Rightarrow> u32" where
  "ys_len s = (case s of None \<Rightarrow> 0 | Some y \<Rightarrow> sused y)"

section \<open>Appending and prepending\<close>

type_synonym ys_result = "(int \<times> ystr_t option \<times> bool list) option"

definition ys_cat :: "bool list \<Rightarrow> ystr_t option \<Rightarrow> bytes option \<Rightarrow> ys_result" where
  "ys_cat m dest src =
     (let srcsz = str_size src; txt = (case src of None \<Rightarrow> [] | Some t \<Rightarrow> cstr t) in
      if src = None \<or> srcsz = 0 then Some (1, dest, m)
      else (case dest of
         None \<Rightarrow> do { (d, m') \<leftarrow> ys_new m src; Some (1, d, m') }
       | Some y \<Rightarrow>
           if sused y + 1 + srcsz \<le> stotal y then do {
             new \<leftarrow> mem_read (txt @ [0]) 0 (unat srcsz + 1);
             cs \<leftarrow> mem_write (chars y) (unat (sused y)) new;
             Some (1, Some (y\<lparr>chars := cs, sused := sused y + srcsz\<rparr>), m) }
           else case ymalloc m of (ok, m') \<Rightarrow>
             if \<not> ok then Some (0, dest, m')
             else do {
               old \<leftarrow> mem_read (chars y) 0 (unat (sused y));
               ns1 \<leftarrow> mem_write (YMALLOC (unat (size_total (sused y + srcsz) 1))) 0 old;
               new \<leftarrow> mem_read (txt @ [0]) 0 (unat srcsz + 1);
               ns2 \<leftarrow> mem_write ns1 (unat (sused y)) new;
               Some (1, Some \<lparr>stotal = size_total (sused y + srcsz) 1, sused = sused y + srcsz, chars = ns2\<rparr>, m') }))"

text \<open>The common part of \<^verbatim>\<open>ys_tac\<close> and \<^verbatim>\<open>ys_ntac\<close>: the first \<open>n\<close> characters go in front.\<close>

definition ys_prepend :: "bool list \<Rightarrow> ystr_t \<Rightarrow> bytes \<Rightarrow> u32 \<Rightarrow> ys_result" where
  "ys_prepend m y txt n =
     (if sused y + 1 + n \<le> stotal y then do {
        cs \<leftarrow> copy_up (chars y) (unat n) (unat (sused y));
        new \<leftarrow> mem_read txt 0 (unat n);
        cs' \<leftarrow> mem_write cs 0 new;
        Some (1, Some (y\<lparr>chars := cs', sused := sused y + n\<rparr>), m) }
      else case ymalloc m of (ok, m') \<Rightarrow>
        if \<not> ok then Some (0, Some y, m')
        else do {
          new \<leftarrow> mem_read txt 0 (unat n);
          ns1 \<leftarrow> mem_write (YMALLOC (unat (size_total (sused y + n) 1))) 0 new;
          old \<leftarrow> mem_read (chars y) 0 (unat (sused y) + 1);
          ns2 \<leftarrow> mem_write ns1 (unat n) old;
          Some (1, Some \<lparr>stotal = size_total (sused y + n) 1, sused = sused y + n, chars = ns2\<rparr>, m') })"

definition ys_tac :: "bool list \<Rightarrow> ystr_t option \<Rightarrow> bytes option \<Rightarrow> ys_result" where
  "ys_tac m dest src =
     (case src of
        None \<Rightarrow> Some (1, dest, m)
      | Some t \<Rightarrow>
          if str_size src = 0 then Some (1, dest, m)
          else (case dest of
             None \<Rightarrow> do { (d, m') \<leftarrow> ys_new m src; Some (1, d, m') }
           | Some y \<Rightarrow> ys_prepend m y (cstr t) (str_size src)))"

text \<open>\<^verbatim>\<open>strncpy\<close> writes exactly \<open>n\<close> characters and pads with NULs.\<close>

definition strncpy :: "bytes \<Rightarrow> nat \<Rightarrow> bytes" where
  "strncpy t n = take n (cstr t @ replicate n 0)"

text \<open>What a function that takes a C string reads from a block: it has to find a NUL.\<close>

definition c_text :: "bytes \<Rightarrow> bytes option" where
  "c_text cs = (if 0 \<in> set cs then Some (cstr cs) else None)"

definition ys_ncat :: "bool list \<Rightarrow> ystr_t option \<Rightarrow> bytes option \<Rightarrow> u32 \<Rightarrow> ys_result" where
  "ys_ncat m dest src n =
     (case src of
        None \<Rightarrow> Some (1, dest, m)
      | Some t \<Rightarrow>
          if n = 0 then Some (1, dest, m)
          else (case dest of
             None \<Rightarrow> do { (d, m') \<leftarrow> ys_new m src; Some (1, d, m') }
           | Some y \<Rightarrow>
               if sused y + 1 + n \<le> stotal y then do {
                 cs \<leftarrow> mem_write (chars y) (unat (sused y)) (strncpy t (unat n));
                 cs' \<leftarrow> set_cell cs (unat (sused y + n)) 0;
                 Some (1, Some (y\<lparr>chars := cs', sused := sused y + n\<rparr>), m) }
               else case ymalloc m of (ok, m') \<Rightarrow>
                 if \<not> ok then Some (0, dest, m')
                 else do {
                   old \<leftarrow> c_text (chars y);
                   ns1 \<leftarrow> mem_write (YMALLOC (unat (size_total (sused y + n) 1))) 0 (old @ [0]);
                   ns2 \<leftarrow> mem_write ns1 (unat (sused y)) (strncpy t (unat n));
                   ns3 \<leftarrow> set_cell ns2 (unat (sused y + n)) 0;
                   Some (1, Some \<lparr>stotal = size_total (sused y + n) 1, sused = sused y + n, chars = ns3\<rparr>, m') }))"

definition ys_ntac :: "bool list \<Rightarrow> ystr_t option \<Rightarrow> bytes option \<Rightarrow> u32 \<Rightarrow> ys_result" where
  "ys_ntac m dest src n =
     (case src of
        None \<Rightarrow> Some (1, dest, m)
      | Some t \<Rightarrow>
          if n = 0 then Some (1, dest, m)
          else (case dest of
             None \<Rightarrow> do { (d, m') \<leftarrow> ys_new m src; Some (1, d, m') }
           | Some y \<Rightarrow>
               ys_prepend m y (cstr t) (if length (cstr t) < unat n then word_of_nat (length (cstr t)) else n)))"

definition ys_dup :: "bool list \<Rightarrow> ystr_t option \<Rightarrow> (ystr_t option \<times> bool list) option" where
  "ys_dup m s =
     (case s of
        None \<Rightarrow> ys_new m (Some [])
      | Some y \<Rightarrow>
          case ymalloc m of (ok, m') \<Rightarrow>
          if \<not> ok then Some (None, m')
          else do {
            old \<leftarrow> mem_read (chars y) 0 (unat (sused y));
            ns \<leftarrow> mem_write (YMALLOC (unat (stotal y))) 0 old;
            ns' \<leftarrow> set_cell ns (unat (sused y)) 0;
            Some (Some \<lparr>stotal = stotal y, sused = sused y, chars = ns'\<rparr>, m') })"

definition ys_string :: "bool list \<Rightarrow> ystr_t option \<Rightarrow> (bytes option \<times> bool list) option" where
  "ys_string m s =
     (case s of
        None \<Rightarrow> Some (None, m)
      | Some y \<Rightarrow>
          case ymalloc m of (ok, m') \<Rightarrow>
          if \<not> ok then Some (None, m')
          else do {
            old \<leftarrow> mem_read (chars y) 0 (unat (sused y + 1));
            res \<leftarrow> mem_write (YMALLOC (unat (sused y + 1))) 0 old;
            Some (Some res, m') })"

definition ys_concat :: "bool list \<Rightarrow> bytes option \<Rightarrow> bytes option \<Rightarrow> (ystr_t option \<times> bool list) option" where
  "ys_concat m s1 s2 = do {
     (ns, m1) \<leftarrow> ys_new m s1;
     (_, ns', m2) \<leftarrow> ys_cat m1 ns s2;
     Some (ns', m2) }"

definition ys_putc :: "bool list \<Rightarrow> ystr_t option \<Rightarrow> byte \<Rightarrow> ys_result" where
  "ys_putc m s c =
     (if c = 0 then Some (1, s, m)
      else (case s of
         None \<Rightarrow> do { (d, m') \<leftarrow> ys_new m (Some [c]); Some (1, d, m') }
       | Some y \<Rightarrow>
           if sused y + 2 \<le> stotal y then do {
             cs \<leftarrow> copy_up (chars y) 1 (unat (sused y));
             cs' \<leftarrow> set_cell cs 0 c;
             Some (1, Some (y\<lparr>chars := cs', sused := sused y + 1\<rparr>), m) }
           else case ymalloc m of (ok, m') \<Rightarrow>
             if \<not> ok then Some (0, s, m')
             else do {
               ns1 \<leftarrow> set_cell (YMALLOC (unat (size_total (sused y) 2))) 0 c;
               old \<leftarrow> mem_read (chars y) 0 (unat (sused y) + 1);
               ns2 \<leftarrow> mem_write ns1 1 old;
               Some (1, Some \<lparr>stotal = size_total (sused y) 2, sused = sused y + 1, chars = ns2\<rparr>, m') }))"

definition ys_addc :: "bool list \<Rightarrow> ystr_t option \<Rightarrow> byte \<Rightarrow> ys_result" where
  "ys_addc m s c = ys_cat m s (Some [c])"

section \<open>Trimming\<close>

definition blank :: "byte \<Rightarrow> bool" where
  "blank c \<longleftrightarrow> c = 32 \<or> c = 9 \<or> c = 10 \<or> c = 13"

text \<open>The first loop of \<^verbatim>\<open>ys_ltrim\<close>: how far the pointer moves.\<close>

fun skip_blank :: "bytes \<Rightarrow> nat option" where
  "skip_blank [] = None"
| "skip_blank (c # cs) = (if blank c then map_option Suc (skip_blank cs) else Some 0)"

text \<open>\<^verbatim>\<open>for (; *pt; ++pt, ++s) *s = *pt; *s = '\0';\<close> with \<open>pt\<close> at \<open>j\<close> and \<open>s\<close> at \<open>i\<close>.\<close>

function move_text :: "bytes \<Rightarrow> nat \<Rightarrow> nat \<Rightarrow> bytes option" where
  "move_text cs i j =
     (if j < length cs then
        (if cs ! j = 0 then set_cell cs i 0
         else if i < length cs then move_text (cs[i := cs ! j]) (Suc i) (Suc j)
         else None)
      else None)"
  by auto
termination by (relation "measure (\<lambda>(cs, i, j). length cs - j)") auto

declare move_text.simps [simp del]

definition ys_ltrim :: "ystr_t option \<Rightarrow> ystr_t option option" where
  "ys_ltrim s =
     (case s of
        None \<Rightarrow> None
      | Some y \<Rightarrow> do {
          n \<leftarrow> skip_blank (chars y);
          (if n = 0 then Some s
           else do {
             cs \<leftarrow> move_text (chars y) 0 n;
             Some (Some (y\<lparr>chars := cs, sused := sused y - word_of_nat n\<rparr>)) }) })"

text \<open>
  The loop of \<^verbatim>\<open>ys_rtrim\<close> with \<open>pt\<close> at index \<open>i\<close>: it stops at a character that is no blank, or has seen
  the first one. The result is the number of characters that stay.
\<close>

fun rtrim_loop :: "bytes \<Rightarrow> nat \<Rightarrow> nat option" where
  "rtrim_loop cs 0 = do { c \<leftarrow> get_cell cs 0; Some (if blank c then 0 else 1) }"
| "rtrim_loop cs (Suc i) = do {
     c \<leftarrow> get_cell cs (Suc i);
     (if blank c then rtrim_loop cs i else Some (Suc (Suc i))) }"

text \<open>
  For an empty string the pointer starts at the last byte of the header, the highest byte of the
  length, which is zero and no blank.
\<close>

definition ys_rtrim :: "ystr_t option \<Rightarrow> ystr_t option option" where
  "ys_rtrim s =
     (case s of
        None \<Rightarrow> None
      | Some y \<Rightarrow>
          if sused y = 0 then Some s
          else do {
            n \<leftarrow> rtrim_loop (chars y) (unat (sused y) - 1);
            (if n = unat (sused y) then Some s
             else do {
               cs \<leftarrow> set_cell (chars y) n 0;
               Some (Some (y\<lparr>chars := cs, sused := word_of_nat n\<rparr>)) }) })"

definition ys_trim :: "ystr_t option \<Rightarrow> ystr_t option option" where
  "ys_trim s = do { s' \<leftarrow> ys_ltrim s; ys_rtrim s' }"

definition ys_lshift :: "ystr_t option \<Rightarrow> (byte \<times> ystr_t option) option" where
  "ys_lshift s =
     (case s of
        None \<Rightarrow> Some (0, s)
      | Some y \<Rightarrow> do {
          c \<leftarrow> get_cell (chars y) 0;
          (if c = 0 then Some (0, s)
           else do {
             cs \<leftarrow> set_cell (chars y) 0 32;
             s' \<leftarrow> ys_ltrim (Some (y\<lparr>chars := cs\<rparr>));
             Some (c, s') }) })"

definition ys_rshift :: "ystr_t option \<Rightarrow> (byte \<times> ystr_t option) option" where
  "ys_rshift s =
     (case s of
        None \<Rightarrow> Some (0, s)
      | Some y \<Rightarrow> do {
          c0 \<leftarrow> get_cell (chars y) 0;
          (if c0 = 0 then Some (0, s)
           else do {
             c \<leftarrow> get_cell (chars y) (unat (sused y - 1));
             cs \<leftarrow> set_cell (chars y) (unat (sused y - 1)) 0;
             Some (c, Some (y\<lparr>chars := cs, sused := sused y - 1\<rparr>)) }) })"

section \<open>Conversions\<close>

fun ys_upcase :: "bytes \<Rightarrow> bytes option" where
  "ys_upcase [] = None"
| "ys_upcase (c # cs) =
     (if c = 0 then Some (c # cs)
      else map_option ((#) (if 97 \<le> c \<and> c \<le> 122 then 65 + (c - 97) else c)) (ys_upcase cs))"

fun ys_lowcase :: "bytes \<Rightarrow> bytes option" where
  "ys_lowcase [] = None"
| "ys_lowcase (c # cs) =
     (if c = 0 then Some (c # cs)
      else map_option ((#) (if 65 \<le> c \<and> c \<le> 90 then 97 + (c - 65) else c)) (ys_lowcase cs))"

text \<open>\<open>out\<close> is the text that the format makes, \<^term>\<open>None\<close> for an error of \<^verbatim>\<open>vsnprintf\<close>.\<close>

definition vsnprintf :: "bytes \<Rightarrow> nat \<Rightarrow> bytes \<Rightarrow> bytes option" where
  "vsnprintf cs n out = (if n = 0 then Some cs else mem_write cs 0 (take (n - 1) out @ [0]))"

definition ys_printf :: "bool list \<Rightarrow> ystr_t option \<Rightarrow> bytes option \<Rightarrow> ys_result" where
  "ys_printf m s out =
     (case s of
        None \<Rightarrow> None
      | Some y \<Rightarrow>
          case ymalloc m of (ok, m') \<Rightarrow>
          if \<not> ok then Some (0, s, m')
          else (case out of
             None \<Rightarrow> Some (0, s, m')
           | Some txt \<Rightarrow> do {
               ns \<leftarrow> vsnprintf (YMALLOC (unat (stotal y))) (unat (stotal y)) txt;
               Some (1, Some \<lparr>stotal = stotal y, sused = word_of_nat (length txt), chars = ns\<rparr>, m') }))"

definition ys_vprintf :: "ystr_t option \<Rightarrow> bytes option \<Rightarrow> (int \<times> ystr_t option) option" where
  "ys_vprintf s out =
     (case s of
        None \<Rightarrow> None
      | Some y \<Rightarrow>
          (case out of
             None \<Rightarrow> do {
               cs \<leftarrow> set_cell (chars y) 0 0;
               Some (0, Some (y\<lparr>chars := cs, sused := 0\<rparr>)) }
           | Some txt \<Rightarrow> do {
               cs \<leftarrow> vsnprintf (chars y) (unat (stotal y)) txt;
               Some (1, Some (y\<lparr>chars := cs, sused := 1\<rparr>)) }))"

text \<open>The first two characters of \<^verbatim>\<open>"%x"\<close> of a \<^verbatim>\<open>char\<close>, which is signed.\<close>

definition hex_digit :: "nat \<Rightarrow> byte" where
  "hex_digit n = (if n < 10 then 48 + word_of_nat n else 87 + word_of_nat n)"

definition hex2 :: "byte \<Rightarrow> bytes" where
  "hex2 c =
     (if 128 \<le> c then [102, 102]
      else if c < 16 then [hex_digit (unat c)]
      else [hex_digit (unat c div 16), hex_digit (unat c mod 16)])"

text \<open>The loops that append to a string, whose results they ignore.\<close>

fun hexa_loop :: "bool list \<Rightarrow> ystr_t option \<Rightarrow> bytes \<Rightarrow> (ystr_t option \<times> bool list) option" where
  "hexa_loop m ys [] = Some (ys, m)"
| "hexa_loop m ys (c # pt) = do {
     (_, ys', m') \<leftarrow> ys_cat m ys (Some (hex2 c));
     hexa_loop m' ys' pt }"

definition ys_str2hexa :: "bool list \<Rightarrow> bytes option \<Rightarrow> (ystr_t option \<times> bool list) option" where
  "ys_str2hexa m str =
     (case str of
        None \<Rightarrow> Some (None, m)
      | Some t \<Rightarrow> do {
          (ys, m') \<leftarrow> ys_new m (Some []);
          (if ys = None then Some (None, m') else hexa_loop m' ys (cstr t)) })"

text \<open>The loop of \<^verbatim>\<open>ys_subs\<close> and \<^verbatim>\<open>ys_casesubs\<close>, which compare characters in different ways.\<close>

function subs_loop ::
    "(byte \<Rightarrow> byte) \<Rightarrow> bytes \<Rightarrow> bytes option \<Rightarrow> bool list \<Rightarrow> ystr_t option \<Rightarrow> bytes \<Rightarrow> (ystr_t option \<times> bool list) option" where
  "subs_loop f from to m ys pt =
     (if pt = [] then Some (ys, m)
      else if from \<noteq> [] \<and> map f (take (length from) pt) = map f from then do {
        (_, ys', m') \<leftarrow> ys_cat m ys to;
        subs_loop f from to m' ys' (drop (length from) pt) }
      else do {
        (_, ys', m') \<leftarrow> ys_addc m ys (hd pt);
        subs_loop f from to m' ys' (tl pt) })"
  by auto
termination by (relation "measure (\<lambda>(f, from, to, m, ys, pt). length pt)") auto

declare subs_loop.simps [simp del]

text \<open>The length of the pattern is an \<^verbatim>\<open>unsigned int\<close>.\<close>

definition subs_pattern :: "bytes option \<Rightarrow> bytes" where
  "subs_pattern from = (case from of None \<Rightarrow> [] | Some t \<Rightarrow> take (unat (str_size from)) (cstr t))"

definition ys_subs :: "bool list \<Rightarrow> bytes option \<Rightarrow> bytes option \<Rightarrow> bytes option \<Rightarrow> (ystr_t option \<times> bool list) option" where
  "ys_subs m orig from to =
     (case orig of
        None \<Rightarrow> Some (None, m)
      | Some t \<Rightarrow> do {
          (ys, m') \<leftarrow> ys_new m (Some []);
          (if ys = None then Some (None, m') else subs_loop (\<lambda>c. c) (subs_pattern from) to m' ys (cstr t)) })"

definition ylower :: "byte \<Rightarrow> byte" where
  "ylower c = (if 65 \<le> c \<and> c \<le> 90 then c + 32 else c)"

definition ys_casesubs :: "bool list \<Rightarrow> bytes option \<Rightarrow> bytes option \<Rightarrow> bytes option \<Rightarrow> (ystr_t option \<times> bool list) option" where
  "ys_casesubs m orig from to =
     (case orig of
        None \<Rightarrow> Some (None, m)
      | Some t \<Rightarrow> do {
          (ys, m') \<leftarrow> ys_new m (Some []);
          (if ys = None then Some (None, m') else subs_loop ylower (subs_pattern from) to m' ys (cstr t)) })"

section \<open>XML entities\<close>

definition xml_entity :: "byte \<Rightarrow> bytes" where
  "xml_entity c =
     (if c = 60 then [38, 108, 116, 59]
      else if c = 62 then [38, 103, 116, 59]
      else if c = 34 then [38, 113, 117, 111, 116, 59]
      else if c = 39 then [38, 97, 112, 111, 115, 59]
      else if c = 38 then [38, 97, 109, 112, 59]
      else [c])"

fun xml_loop :: "bool list \<Rightarrow> ystr_t option \<Rightarrow> bytes \<Rightarrow> (ystr_t option \<times> bool list) option" where
  "xml_loop m res [] = Some (res, m)"
| "xml_loop m res (c # pt) = do {
     (_, res', m') \<leftarrow> ys_cat m res (Some (xml_entity c));
     xml_loop m' res' pt }"

definition str2xmlentity :: "bool list \<Rightarrow> bytes option \<Rightarrow> (bytes option \<times> bool list) option" where
  "str2xmlentity m str =
     (case str of
        None \<Rightarrow> Some (None, m)
      | Some t \<Rightarrow> do {
          (res, m1) \<leftarrow> ys_new m (Some []);
          (if res = None then Some (None, m1)
           else do {
             (res', m2) \<leftarrow> xml_loop m1 res (cstr t);
             ys_string m2 res' }) })"

text \<open>What stands at the pointer: the character to append and how far to go on.\<close>

definition xml_char :: "bytes \<Rightarrow> (byte \<times> nat) option" where
  "xml_char pt =
     (if hd pt \<noteq> 38 then Some (hd pt, 1)
      else if take 5 pt = [38, 97, 109, 112, 59] then Some (38, 5)
      else if take 4 pt = [38, 108, 116, 59] then Some (60, 4)
      else if take 4 pt = [38, 103, 116, 59] then Some (62, 4)
      else if take 6 pt = [38, 113, 117, 111, 116, 59] then Some (34, 6)
      else if take 6 pt = [38, 97, 112, 111, 115, 59] then Some (39, 6)
      else if take 1 (tl pt) = [35] \<and> 59 \<in> set (drop 2 pt) then
        map_option (\<lambda>n. (word_of_int n, length (takeWhile (\<lambda>c. c \<noteq> 59) (drop 2 pt)) + 3)) (atoi (drop 2 pt))
      else Some (38, 1))"

function unxml_loop :: "bool list \<Rightarrow> ystr_t option \<Rightarrow> bytes \<Rightarrow> (ystr_t option \<times> bool list) option" where
  "unxml_loop m res pt =
     (if pt = [] then Some (res, m)
      else (case xml_char pt of
         None \<Rightarrow> None
       | Some (c, i) \<Rightarrow> do {
           (_, res', m') \<leftarrow> ys_addc m res c;
           unxml_loop m' res' (drop i pt) }))"
  by auto
termination
  by (relation "measure (\<lambda>(m, res, pt). length pt)") (auto simp: xml_char_def split: if_splits)

declare unxml_loop.simps [simp del]

definition xmlentity2str :: "bool list \<Rightarrow> bytes option \<Rightarrow> (bytes option \<times> bool list) option" where
  "xmlentity2str m str =
     (case str of
        None \<Rightarrow> Some (None, m)
      | Some t \<Rightarrow> do {
          (res, m1) \<leftarrow> ys_new m (Some []);
          (if res = None then Some (None, m1)
           else do {
             (res', m2) \<leftarrow> unxml_loop m1 res (cstr t);
             ys_string m2 res' }) })"

section \<open>Strings as lists of characters\<close>

definition ys_inv :: "ystr_t \<Rightarrow> bool" where
  "ys_inv y \<longleftrightarrow> length (chars y) = unat (stotal y) \<and> unat (sused y) < unat (stotal y) \<and>
     chars y ! unat (sused y) = 0 \<and> 0 \<notin> set (take (unat (sused y)) (chars y))"

definition ys_text :: "ystr_t \<Rightarrow> bytes" where
  "ys_text y = take (unat (sused y)) (chars y)"

lemma length_ys_text [simp]: "ys_inv y \<Longrightarrow> length (ys_text y) = unat (sused y)"
  by (simp add: ys_inv_def ys_text_def)

text \<open>A string whose block begins with a text and its NUL.\<close>

lemma ys_block:
  assumes "length (chars y) = unat (stotal y)" and "chars y = t @ 0 # r" and "unat (sused y) = length t" and "0 \<notin> set t"
  shows "ys_inv y" and "ys_text y = t"
  using assms by (simp_all add: ys_inv_def ys_text_def)

lemma ys_inv_block:
  assumes "ys_inv y"
  shows "\<exists>r. chars y = ys_text y @ 0 # r" and "0 \<notin> set (ys_text y)" and "length (chars y) = unat (stotal y)"
  using assms id_take_nth_drop [of "unat (sused y)" "chars y"] by (auto simp: ys_inv_def ys_text_def)

lemma unat_add32: "unat (a :: u32) + unat b < 2 ^ 32 \<Longrightarrow> unat (a + b) = unat a + unat b"
  by (simp add: unat_word_ariths)

lemma str_size_unat [simp]: "0 \<notin> set t \<Longrightarrow> length t < 2 ^ 31 \<Longrightarrow> unat (str_size (Some t)) = length t"
  by (simp add: str_size_def unat_of_nat take_bit_nat_eq_self)

lemma str_size_0: "0 \<notin> set t \<Longrightarrow> length t < 2 ^ 31 \<Longrightarrow> str_size (Some t) = 0 \<longleftrightarrow> t = []"
  using str_size_unat [of t] by (metis length_0_conv unat_eq_0)

lemma ymalloc_Nil [simp]: "ymalloc [] = (True, [])"
  by (simp add: ymalloc_def)

text \<open>A result of an operation: it has done its work, or memory was short and the string is as before.\<close>

definition ys_done :: "bool list \<Rightarrow> ystr_t \<Rightarrow> bytes \<Rightarrow> ys_result \<Rightarrow> bool" where
  "ys_done m y t r \<longleftrightarrow> (\<exists>y' m'. ys_inv y' \<and>
     (r = Some (1, Some y', m') \<and> ys_text y' = t \<and> (m = [] \<longrightarrow> m' = []) \<or>
      r = Some (0, Some y, m') \<and> y' = y \<and> m \<noteq> [] \<and> \<not> hd m))"

lemma ys_doneI: "ys_inv y' \<Longrightarrow> ys_text y' = t \<Longrightarrow> (m = [] \<longrightarrow> m' = []) \<Longrightarrow> ys_done m y t (Some (1, Some y', m'))"
  unfolding ys_done_def by blast

lemma ys_done_short: "ys_inv y \<Longrightarrow> ymalloc m = (False, m') \<Longrightarrow> ys_done m y t (Some (0, Some y, m'))"
  by (auto simp: ys_done_def ymalloc_def split: list.splits)

lemma ymalloc_keep: "ymalloc m = (ok, m') \<Longrightarrow> m = [] \<longrightarrow> m' = []"
  by (auto simp: ymalloc_def)

lemma ys_cat_done:
  assumes inv: "ys_inv y" and t: "0 \<notin> set t" "unat (sused y) + length t < 2 ^ 31"
  shows "ys_done m y (ys_text y @ t) (ys_cat m (Some y) (Some t))"
proof (cases "t = []")
  case True
  then show ?thesis using ys_doneI [OF inv refl] by (simp add: ys_cat_def str_size_def cstr_def)
next
  case False
  let ?n = "str_size (Some t)"
  have n: "unat ?n = length t" "?n \<noteq> 0" using t False by (simp_all add: str_size_0)
  obtain r where r: "chars y = ys_text y @ 0 # r" using ys_inv_block(1) [OF inv] by blast
  note b = ys_inv_block(2,3) [OF inv] length_ys_text [OF inv]
  have u: "unat (sused y + ?n) = unat (sused y) + length t" "unat (sused y + 1 + ?n) = unat (sused y) + 1 + length t"
    using t(2) n by (simp_all add: unat_add32)
  have new: "mem_read (t @ [0]) 0 (unat ?n + 1) = Some (t @ [0])" using n by (simp add: mem_read_def)
  show ?thesis
  proof (cases "sused y + 1 + ?n \<le> stotal y")
    case True
    then have fit: "unat (sused y) + Suc (length t) \<le> length (chars y)" using u b by (simp add: word_le_nat_alt)
    let ?y = "y\<lparr>chars := ys_text y @ (t @ [0]) @ drop (length t) r, sused := sused y + ?n\<rparr>"
    have "mem_write (chars y) (unat (sused y)) (t @ [0]) = Some (ys_text y @ (t @ [0]) @ drop (length t) r)"
      using fit r b by (simp add: mem_write_def)
    then have "ys_cat m (Some y) (Some t) = Some (1, Some ?y, m)"
      using True n(2) new t(1) by (simp add: ys_cat_def)
    moreover have "ys_inv ?y" "ys_text ?y = ys_text y @ t"
      using ys_block [of ?y "ys_text y @ t" "drop (length t) r"] fit b u r t(1) by auto
    ultimately show ?thesis using ys_doneI by simp
  next
    case False
    obtain ok m' where m': "ymalloc m = (ok, m')" by (cases "ymalloc m")
    show ?thesis
    proof (cases ok)
      case False
      then have "ys_cat m (Some y) (Some t) = Some (0, Some y, m')"
        using m' n(2) \<open>\<not> sused y + 1 + ?n \<le> stotal y\<close> by (simp add: ys_cat_def)
      then show ?thesis using ys_done_short [OF inv] m' False by simp
    next
      case True
      let ?s = "size_total (sused y + ?n) 1"
      have room: "unat (sused y) + length t + 1 < unat ?s" using size_total_room(1) [of "sused y + ?n" 1] u t(2) by simp
      let ?b = "ys_text y @ drop (unat (sused y)) (YMALLOC (unat ?s))"
      let ?c = "ys_text y @ (t @ [0]) @ drop (Suc (unat (sused y) + length t)) (YMALLOC (unat ?s))"
      let ?y = "\<lparr>stotal = ?s, sused = sused y + ?n, chars = ?c\<rparr>"
      have "mem_read (chars y) 0 (unat (sused y)) = Some (ys_text y)" using r b by (simp add: mem_read_def)
      moreover have "mem_write (YMALLOC (unat ?s)) 0 (ys_text y) = Some ?b" using room b by (simp add: mem_write_def)
      moreover have "mem_write ?b (unat (sused y)) (t @ [0]) = Some ?c" using room b by (simp add: mem_write_def add.commute)
      ultimately have "ys_cat m (Some y) (Some t) = Some (1, Some ?y, m')"
        using m' True n(2) new t(1) \<open>\<not> sused y + 1 + ?n \<le> stotal y\<close> by (simp add: ys_cat_def Let_def)
      moreover have "ys_inv ?y" "ys_text ?y = ys_text y @ t"
        using ys_block [of ?y "ys_text y @ t" "drop (Suc (unat (sused y) + length t)) (YMALLOC (unat ?s))"] room b u t(1) by auto
      ultimately show ?thesis using ys_doneI [of ?y] ymalloc_keep [OF m'] by simp
    qed
  qed
qed

lemma ys_prepend_done:
  assumes inv: "ys_inv y" and t: "0 \<notin> set t" "unat n \<le> length t" "unat (sused y) + unat n < 2 ^ 31"
  shows "ys_done m y (take (unat n) t @ ys_text y) (ys_prepend m y t n)"
proof -
  obtain r where r: "chars y = ys_text y @ 0 # r" using ys_inv_block(1) [OF inv] by blast
  note b = ys_inv_block(2,3) [OF inv] length_ys_text [OF inv]
  have u: "unat (sused y + n) = unat (sused y) + unat n" "unat (sused y + 1 + n) = unat (sused y) + 1 + unat n"
    using t(3) by (simp_all add: unat_add32)
  have new: "mem_read t 0 (unat n) = Some (take (unat n) t)" using t(2) by (simp add: mem_read_def)
  have z: "0 \<notin> set (take (unat n) t @ ys_text y)" using t(1) b(1) by (auto dest: in_set_takeD)
  show ?thesis
  proof (cases "sused y + 1 + n \<le> stotal y")
    case True
    then have fit: "length (ys_text y) + unat n < length (chars y)" using u b by (simp add: word_le_nat_alt)
    let ?r = "drop (unat n) r"
    let ?y = "y\<lparr>chars := take (unat n) t @ (ys_text y @ [0]) @ ?r, sused := sused y + n\<rparr>"
    have "copy_up (chars y) (unat n) (length (ys_text y)) = Some (take (unat n) (chars y) @ (ys_text y @ [0]) @ ?r)"
      using copy_up_eq [OF fit] r by simp
    then have "ys_prepend m y t n = Some (1, Some ?y, m)"
      using True new b(3) t(2) fit by (simp add: ys_prepend_def mem_write_def min_absorb2)
    moreover have "ys_inv ?y" "ys_text ?y = take (unat n) t @ ys_text y"
      using ys_block [of ?y "take (unat n) t @ ys_text y" ?r] fit b u r t(2) z by auto
    ultimately show ?thesis using ys_doneI by simp
  next
    case False
    obtain ok m' where m': "ymalloc m = (ok, m')" by (cases "ymalloc m")
    show ?thesis
    proof (cases ok)
      case False
      then have "ys_prepend m y t n = Some (0, Some y, m')"
        using m' \<open>\<not> sused y + 1 + n \<le> stotal y\<close> by (simp add: ys_prepend_def)
      then show ?thesis using ys_done_short [OF inv] m' False by simp
    next
      case True
      let ?s = "size_total (sused y + n) 1"
      have room: "unat (sused y) + unat n + 1 < unat ?s" using size_total_room(1) [of "sused y + n" 1] u t(3) by simp
      let ?b = "take (unat n) t @ drop (unat n) (YMALLOC (unat ?s))"
      let ?r = "drop (Suc (unat n + unat (sused y))) (YMALLOC (unat ?s))"
      let ?c = "take (unat n) t @ (ys_text y @ [0]) @ ?r"
      let ?y = "\<lparr>stotal = ?s, sused = sused y + n, chars = ?c\<rparr>"
      have "mem_read (chars y) 0 (unat (sused y) + 1) = Some (ys_text y @ [0])" using r b by (simp add: mem_read_def)
      moreover have "mem_write (YMALLOC (unat ?s)) 0 (take (unat n) t) = Some ?b" using room t(2) by (simp add: mem_write_def)
      moreover have "mem_write ?b (unat n) (ys_text y @ [0]) = Some ?c" using room b t(2) by (simp add: mem_write_def add.commute)
      ultimately have "ys_prepend m y t n = Some (1, Some ?y, m')"
        using m' True new \<open>\<not> sused y + 1 + n \<le> stotal y\<close> by (simp add: ys_prepend_def)
      moreover have "ys_inv ?y" "ys_text ?y = take (unat n) t @ ys_text y"
        using ys_block [of ?y "take (unat n) t @ ys_text y" ?r] room b u t(2) z by auto
      ultimately show ?thesis using ys_doneI [of ?y] ymalloc_keep [OF m'] by simp
    qed
  qed
qed

text \<open>One character in front is a prepended string of one character, but for the size of a new block.\<close>

lemma ys_putc_done:
  assumes inv: "ys_inv y" and c: "c \<noteq> 0" "unat (sused y) + 1 < 2 ^ 31"
  shows "ys_done m y (c # ys_text y) (ys_putc m (Some y) c)"
proof -
  obtain r where r: "chars y = ys_text y @ 0 # r" using ys_inv_block(1) [OF inv] by blast
  note b = ys_inv_block(2,3) [OF inv] length_ys_text [OF inv]
  have u: "unat (sused y + 1) = unat (sused y) + 1" "unat (sused y + 2) = unat (sused y) + 2"
    using c(2) by (simp_all add: unat_add32)
  show ?thesis
  proof (cases "sused y + 2 \<le> stotal y")
    case True
    then have fit: "length (ys_text y) + 1 < length (chars y)" using u b by (simp add: word_le_nat_alt)
    then obtain x r' where r': "r = x # r'" using r by (cases r) auto
    let ?y = "y\<lparr>chars := c # ys_text y @ 0 # r', sused := sused y + 1\<rparr>"
    have "take 1 (chars y) = [hd (chars y)]" using fit by (cases "chars y") auto
    then have "copy_up (chars y) 1 (length (ys_text y)) = Some (hd (chars y) # (ys_text y @ [0]) @ r')"
      using copy_up_eq [OF fit] r r' by simp
    then have "ys_putc m (Some y) c = Some (1, Some ?y, m)"
      using True c(1) b(3) by (simp add: ys_putc_def set_cell_def)
    moreover have "ys_inv ?y" "ys_text ?y = c # ys_text y"
      using ys_block [of ?y "c # ys_text y" r'] b u r r' c(1) by auto
    ultimately show ?thesis using ys_doneI by simp
  next
    case False
    obtain ok m' where m': "ymalloc m = (ok, m')" by (cases "ymalloc m")
    show ?thesis
    proof (cases ok)
      case False
      then have "ys_putc m (Some y) c = Some (0, Some y, m')"
        using m' c(1) \<open>\<not> sused y + 2 \<le> stotal y\<close> by (simp add: ys_putc_def)
      then show ?thesis using ys_done_short [OF inv] m' False by simp
    next
      case True
      let ?s = "size_total (sused y) 2"
      have room: "unat (sused y) + 2 < unat ?s" using size_total_room(1) [of "sused y" 2] c(2) by simp
      let ?r = "drop (Suc (Suc (unat (sused y)))) (YMALLOC (unat ?s))"
      let ?y = "\<lparr>stotal = ?s, sused = sused y + 1, chars = c # (ys_text y @ [0]) @ ?r\<rparr>"
      have "mem_read (chars y) 0 (unat (sused y) + 1) = Some (ys_text y @ [0])" using r b by (simp add: mem_read_def)
      moreover have "take 1 ((YMALLOC (unat ?s))[0 := c]) = [c]"
        using room by (cases "YMALLOC (unat ?s)") (auto simp: YMALLOC_def)
      then have "mem_write ((YMALLOC (unat ?s))[0 := c]) 1 (ys_text y @ [0]) = Some (c # (ys_text y @ [0]) @ ?r)"
        using room b by (simp add: mem_write_def)
      ultimately have "ys_putc m (Some y) c = Some (1, Some ?y, m')"
        using m' True c(1) room \<open>\<not> sused y + 2 \<le> stotal y\<close> by (simp add: ys_putc_def set_cell_def)
      moreover have "ys_inv ?y" "ys_text ?y = c # ys_text y"
        using ys_block [of ?y "c # ys_text y" ?r] room b u c(1) by auto
      ultimately show ?thesis using ys_doneI [of ?y] ymalloc_keep [OF m'] by simp
    qed
  qed
qed

lemma ys_new_ok:
  assumes t: "0 \<notin> set t" "length t < 2 ^ 31" and m: "ymalloc m = (True, m')"
  shows "\<exists>y. ys_new m (Some t) = Some (Some y, m') \<and> ys_inv y \<and> ys_text y = t"
proof -
  let ?s = "if str_size (Some t) < YSTR_SIZE then YSTR_SIZE else size_total (str_size (Some t)) 1"
  have room: "length t < unat ?s"
    using t size_total_room(1) [of "str_size (Some t)" 1] str_size_unat [OF t]
    by (auto simp: word_less_nat_alt YSTR_SIZE_def)
  let ?c = "t @ 0 # drop (Suc (length t)) (YMALLOC (unat ?s))"
  let ?y = "\<lparr>stotal = ?s, sused = str_size (Some t), chars = ?c\<rparr>"
  have "(if str_size (Some t) = 0 then [0] else (case Some t of None \<Rightarrow> [0] | Some t \<Rightarrow> cstr t @ [0])) = t @ [0]"
    using t str_size_0 [OF t] by simp
  moreover have "mem_write (YMALLOC (unat ?s)) 0 (t @ [0]) = Some ?c" using room by (simp add: mem_write_def)
  ultimately have "ys_fill ?s (Some t) = Some ?y" by (simp only: ys_fill_def Option.bind.simps)
  then have "ys_new m (Some t) = Some (Some ?y, m')" using m by (simp add: ys_new_def)
  moreover have "ys_inv ?y" "ys_text ?y = t"
    using ys_block [of ?y t "drop (Suc (length t)) (YMALLOC (unat ?s))"] room t by simp_all
  ultimately show ?thesis by blast
qed

section \<open>Trimming\<close>

lemma skip_blank_eq: "\<exists>c \<in> set cs. \<not> blank c \<Longrightarrow> skip_blank cs = Some (length (takeWhile blank cs))"
  by (induction cs) auto

lemma move_text_eq:
  assumes "cs = a @ d @ t @ 0 # r" and "0 \<notin> set t"
  shows "\<exists>r'. move_text cs (length a) (length a + length d) = Some (a @ t @ 0 # r') \<and> length (a @ t @ 0 # r') = length cs"
  using assms
proof (induction t arbitrary: cs a d)
  case Nil
  then show ?case
    by (cases d) (auto simp: move_text.simps [of _ "length a"] set_cell_def nth_append intro: exI)
next
  case (Cons c t)
  have nth: "cs ! (length a + length d) = c" using Cons.prems(1) by (simp add: nth_append)
  have ex: "\<exists>d'. cs[length a := c] = (a @ [c]) @ d' @ t @ 0 # r \<and> length d' = length d"
  proof (cases d)
    case Nil
    then show ?thesis using Cons.prems(1) by (intro exI [of _ "[]"]) simp
  next
    case (Cons x d')
    then show ?thesis using \<open>cs = _\<close> by (intro exI [of _ "d' @ [c]"]) simp
  qed
  then obtain d' where d': "cs[length a := c] = (a @ [c]) @ d' @ t @ 0 # r" "length d' = length d" by blast
  have "move_text cs (length a) (length a + length d) = move_text (cs[length a := c]) (Suc (length a)) (Suc (length a + length d))"
    using Cons.prems nth by (subst move_text.simps) auto
  then show ?case
    using Cons.IH [OF d'(1)] Cons.prems d'(2) by (auto simp: Cons.prems(1))
qed

definition strip_end :: "bytes \<Rightarrow> bytes" where
  "strip_end t = rev (dropWhile blank (rev t))"

lemma blank_0 [simp]: "\<not> blank 0"
  by (simp add: blank_def)

lemma ys_ltrim_ok:
  assumes inv: "ys_inv y"
  shows "\<exists>y'. ys_ltrim (Some y) = Some (Some y') \<and> ys_inv y' \<and> ys_text y' = dropWhile blank (ys_text y)"
proof -
  obtain r where r: "chars y = ys_text y @ 0 # r" using ys_inv_block(1) [OF inv] by blast
  note b = ys_inv_block(2,3) [OF inv] length_ys_text [OF inv]
  let ?d = "takeWhile blank (ys_text y)" and ?t = "dropWhile blank (ys_text y)"
  have dt: "ys_text y = ?d @ ?t" by simp
  have "skip_blank (chars y) = Some (length (takeWhile blank (chars y)))"
    using r by (intro skip_blank_eq) (auto intro: bexI [of _ 0])
  moreover have "takeWhile blank (chars y) = ?d" using r by (auto simp: takeWhile_append takeWhile_eq_all_conv [THEN iffD2])
  ultimately have skip: "skip_blank (chars y) = Some (length ?d)" by simp
  show ?thesis
  proof (cases "?d = []")
    case True
    then have "?t = ys_text y" using dt by (metis append_Nil)
    then show ?thesis using skip True inv by (simp add: ys_ltrim_def)
  next
    case False
    have "0 \<notin> set ?t" using b(1) by (auto dest: set_dropWhileD)
    moreover have "chars y = [] @ ?d @ ?t @ 0 # r" using r dt by simp
    ultimately obtain r' where r': "move_text (chars y) 0 (length ?d) = Some (?t @ 0 # r')"
      "length (?t @ 0 # r') = length (chars y)"
      using move_text_eq [of "chars y" "[]" ?d ?t r] by auto
    have dl: "length ?d \<le> unat (sused y)" using b(3) length_takeWhile_le [of blank "ys_text y"] by simp
    have "unat (word_of_nat (length ?d) :: u32) = length ?d"
      using dl unsigned_less [of "sused y", where ?'a = nat] by (simp add: unat_of_nat take_bit_nat_eq_self)
    then have u: "unat (sused y - word_of_nat (length ?d)) = unat (sused y) - length ?d"
      using dl by (simp add: unat_sub word_le_nat_alt)
    have tl: "length ?t = unat (sused y) - length ?d" using dt b(3) by (metis length_append diff_add_inverse)
    let ?y = "y\<lparr>chars := ?t @ 0 # r', sused := sused y - word_of_nat (length ?d)\<rparr>"
    have "ys_ltrim (Some y) = Some (Some ?y)" using skip r'(1) False by (simp add: ys_ltrim_def)
    moreover have "ys_inv ?y" "ys_text ?y = ?t"
      using ys_block [of ?y ?t r'] r'(2) b u tl \<open>0 \<notin> set ?t\<close> by auto
    ultimately show ?thesis by blast
  qed
qed

lemma rtrim_loop_eq: "i < length cs \<Longrightarrow> rtrim_loop cs i = Some (length (strip_end (take (Suc i) cs)))"
  by (induction i) (auto simp: get_cell_def strip_end_def take_Suc_conv_app_nth)

lemma strip_end_prefix: "\<exists>s. t = strip_end t @ s"
  unfolding strip_end_def by (metis rev_append rev_rev_ident takeWhile_dropWhile_id)

lemma ys_rtrim_ok:
  assumes inv: "ys_inv y"
  shows "\<exists>y'. ys_rtrim (Some y) = Some (Some y') \<and> ys_inv y' \<and> ys_text y' = strip_end (ys_text y)"
proof -
  obtain r where r: "chars y = ys_text y @ 0 # r" using ys_inv_block(1) [OF inv] by blast
  note b = ys_inv_block(2,3) [OF inv] length_ys_text [OF inv]
  obtain s where s: "ys_text y = strip_end (ys_text y) @ s" using strip_end_prefix by blast
  let ?t = "strip_end (ys_text y)"
  have tl: "length ?t + length s = unat (sused y)" using s b(3) by (metis length_append)
  show ?thesis
  proof (cases "sused y = 0")
    case True
    then have "ys_text y = []" using b(3) by simp
    then show ?thesis using True inv by (simp add: ys_rtrim_def strip_end_def)
  next
    case False
    then have pos: "0 < unat (sused y)" by (simp add: unat_gt_0)
    then have loop: "rtrim_loop (chars y) (unat (sused y) - 1) = Some (length ?t)"
      using rtrim_loop_eq [of "unat (sused y) - 1" "chars y"] r b(3) by simp
    show ?thesis
    proof (cases "s = []")
      case True
      then have "?t = ys_text y" "length ?t = unat (sused y)" using s tl by simp_all
      then show ?thesis using loop inv \<open>sused y \<noteq> 0\<close> by (simp add: ys_rtrim_def)
    next
      case False
      obtain r' where r': "(chars y)[length ?t := 0] = ?t @ 0 # r'" "length (?t @ 0 # r') = length (chars y)"
      proof -
        have "chars y = ?t @ s @ 0 # r" using r s by simp
        then show thesis using that False by (cases s) (auto simp: list_update_append)
      qed
      have u: "unat (word_of_nat (length ?t) :: u32) = length ?t"
        using tl unsigned_less [of "sused y", where ?'a = nat] by (simp add: unat_of_nat take_bit_nat_eq_self)
      let ?y = "y\<lparr>chars := ?t @ 0 # r', sused := word_of_nat (length ?t)\<rparr>"
      have "length ?t < length (chars y)" "length ?t \<noteq> unat (sused y)" using r'(2) tl False by auto
      then have "ys_rtrim (Some y) = Some (Some ?y)"
        using loop \<open>sused y \<noteq> 0\<close> r'(1) by (simp add: ys_rtrim_def set_cell_def)
      moreover have "0 \<notin> set ?t" using b(1) s by (metis Un_iff set_append)
      then have "ys_inv ?y" "ys_text ?y = ?t" using ys_block [of ?y ?t r'] r'(2) b u by auto
      ultimately show ?thesis by blast
    qed
  qed
qed

lemma ys_trim_ok:
  assumes "ys_inv y"
  shows "\<exists>y'. ys_trim (Some y) = Some (Some y') \<and> ys_inv y' \<and> ys_text y' = strip_end (dropWhile blank (ys_text y))"
  using ys_ltrim_ok [OF assms] ys_rtrim_ok by (fastforce simp: ys_trim_def)

lemma ys_trunc_ok:
  assumes "ys_inv y"
  shows "\<exists>y'. ys_trunc (Some y) = Some (Some y') \<and> ys_inv y' \<and> ys_text y' = []"
  using assms by (auto simp: ys_trunc_def set_cell_def ys_inv_def ys_text_def)

lemma ys_rshift_ok:
  assumes inv: "ys_inv y" and "ys_text y = t @ [c]"
  shows "\<exists>y'. ys_rshift (Some y) = Some (c, Some y') \<and> ys_inv y' \<and> ys_text y' = t"
proof -
  obtain r where r: "chars y = ys_text y @ 0 # r" using ys_inv_block(1) [OF inv] by blast
  note b = ys_inv_block(2,3) [OF inv] length_ys_text [OF inv]
  have l: "unat (sused y) = Suc (length t)" using b(3) assms(2) by simp
  then have u: "unat (sused y - 1) = length t" by (simp add: unat_sub word_le_nat_alt)
  let ?y = "y\<lparr>chars := t @ 0 # 0 # r, sused := sused y - 1\<rparr>"
  have "chars y ! 0 \<noteq> 0" using r b(1) assms(2) by (cases t) auto
  then have "ys_rshift (Some y) = Some (c, Some ?y)"
    using r assms(2) u by (simp add: ys_rshift_def get_cell_def set_cell_def list_update_append)
  moreover have "ys_inv ?y" "ys_text ?y = t" using ys_block [of ?y t "0 # r"] r assms(2) b u by auto
  ultimately show ?thesis by blast
qed

section \<open>Building strings\<close>

text \<open>With memory, an operation on a string returns 1 and the new string.\<close>

lemma ys_done_Nil: "ys_done [] y t r \<Longrightarrow> \<exists>y'. r = Some (1, Some y', []) \<and> ys_inv y' \<and> ys_text y' = t"
  by (auto simp: ys_done_def)

lemma ys_cat_ok:
  assumes "ys_inv y" and "0 \<notin> set t" and "length (ys_text y) + length t < 2 ^ 31"
  shows "\<exists>y'. ys_cat [] (Some y) (Some t) = Some (1, Some y', []) \<and> ys_inv y' \<and> ys_text y' = ys_text y @ t"
  using ys_done_Nil [OF ys_cat_done [OF assms(1,2)]] assms(1,3) by simp

lemma ys_string_ok:
  assumes inv: "ys_inv y" and "unat (sused y) < 2 ^ 31"
  shows "ys_string [] (Some y) = Some (Some (ys_text y @ [0]), [])"
proof -
  obtain r where r: "chars y = ys_text y @ 0 # r" using ys_inv_block(1) [OF inv] by blast
  have u: "unat (sused y + 1) = Suc (unat (sused y))" using assms(2) by (simp add: unat_add32)
  have "mem_read (chars y) 0 (Suc (unat (sused y))) = Some (ys_text y @ [0])"
    using r length_ys_text [OF inv] by (simp add: mem_read_def)
  moreover have "mem_write (YMALLOC (Suc (unat (sused y)))) 0 (ys_text y @ [0]) = Some (ys_text y @ [0])"
    using length_ys_text [OF inv] by (simp add: mem_write_def)
  ultimately show ?thesis by (simp add: ys_string_def u)
qed

lemma ys_new_empty: "\<exists>y. ys_new [] (Some []) = Some (Some y, []) \<and> ys_inv y \<and> ys_text y = []"
  using ys_new_ok [of "[]" "[]" "[]"] by simp

subsection \<open>XML entities\<close>

lemma xml_entity_length: "length (xml_entity c) \<le> 6" and xml_entity_nul: "c \<noteq> 0 \<Longrightarrow> 0 \<notin> set (xml_entity c)"
  by (auto simp: xml_entity_def)

lemma xml_loop_ok:
  "ys_inv y \<Longrightarrow> 0 \<notin> set t \<Longrightarrow> length (ys_text y) + 6 * length t < 2 ^ 31 \<Longrightarrow>
     \<exists>y'. xml_loop [] (Some y) t = Some (Some y', []) \<and> ys_inv y' \<and> ys_text y' = ys_text y @ concat (map xml_entity t)"
proof (induction t arbitrary: y)
  case (Cons c t)
  have c: "0 \<notin> set (xml_entity c)" "length (ys_text y) + length (xml_entity c) < 2 ^ 31"
    using Cons.prems xml_entity_nul xml_entity_length [of c] by auto
  obtain y1 where y1: "ys_cat [] (Some y) (Some (xml_entity c)) = Some (1, Some y1, [])" "ys_inv y1"
    "ys_text y1 = ys_text y @ xml_entity c"
    using ys_cat_ok [OF Cons.prems(1) c] by blast
  then show ?case using Cons.IH [OF y1(2)] Cons.prems(2,3) xml_entity_length [of c] by auto
qed simp

lemma xml_char_entity: "xml_char (xml_entity c @ rest) = Some (c, length (xml_entity c))"
  by (simp add: xml_char_def xml_entity_def)

lemma unxml_loop_ok:
  "ys_inv y \<Longrightarrow> 0 \<notin> set t \<Longrightarrow> length (ys_text y) + length t < 2 ^ 31 \<Longrightarrow>
     \<exists>y'. unxml_loop [] (Some y) (concat (map xml_entity t)) = Some (Some y', []) \<and> ys_inv y' \<and> ys_text y' = ys_text y @ t"
proof (induction t arbitrary: y)
  case Nil
  then show ?case by (simp add: unxml_loop.simps)
next
  case (Cons c t)
  obtain y1 where y1: "ys_addc [] (Some y) c = Some (1, Some y1, [])" "ys_inv y1" "ys_text y1 = ys_text y @ [c]"
    using ys_cat_ok [OF Cons.prems(1), of "[c]"] Cons.prems(2,3) by (auto simp: ys_addc_def)
  have "xml_entity c \<noteq> []" by (simp add: xml_entity_def)
  then have "unxml_loop [] (Some y) (concat (map xml_entity (c # t))) = unxml_loop [] (Some y1) (concat (map xml_entity t))"
    using y1(1) xml_char_entity [of c] by (subst unxml_loop.simps) simp
  then show ?case using Cons.IH [OF y1(2)] Cons.prems(2,3) y1(3) by simp
qed

subsection \<open>Substitution\<close>

fun join :: "'b list \<Rightarrow> 'b list list \<Rightarrow> 'b list" where
  "join s [] = []"
| "join s [p] = p"
| "join s (p # q # ps) = p @ s @ join s (q # ps)"

definition occurs :: "'b list \<Rightarrow> 'b list \<Rightarrow> bool" where
  "occurs f p \<longleftrightarrow> (\<exists>a b. p = a @ f @ b)"

text \<open>The pieces between the occurrences of a pattern, taken from the left.\<close>

function pieces :: "bytes \<Rightarrow> bytes \<Rightarrow> bytes list" where
  "pieces f t =
     (if t = [] then [[]]
      else if f \<noteq> [] \<and> take (length f) t = f then [] # pieces f (drop (length f) t)
      else (case pieces f (tl t) of [] \<Rightarrow> [] | p # ps \<Rightarrow> (hd t # p) # ps))"
  by auto
termination by (relation "measure (\<lambda>(f, t). length t)") auto

declare pieces.simps [simp del]

lemma pieces_Cons: "\<exists>p ps. pieces f t = p # ps"
proof (induction f t rule: pieces.induct)
  case (1 f t)
  show ?case
  proof (cases "t \<noteq> [] \<and> \<not> (f \<noteq> [] \<and> take (length f) t = f)")
    case True
    then obtain p ps where "pieces f (tl t) = p # ps" using 1(2) by blast
    then show ?thesis using True by (subst pieces.simps) auto
  qed (subst pieces.simps, auto)
qed

lemma join_Cons: "ps \<noteq> [] \<Longrightarrow> join s (p # ps) = p @ s @ join s ps"
  by (cases ps) auto

lemma join_head: "join s ((c # p) # ps) = c # join s (p # ps)"
  by (cases ps) auto

lemma join_pieces: "join f (pieces f t) = t"
proof (induction f t rule: pieces.induct)
  case (1 f t)
  consider "t = []" | "t \<noteq> []" "f \<noteq> [] \<and> take (length f) t = f" | "t \<noteq> []" "\<not> (f \<noteq> [] \<and> take (length f) t = f)" by blast
  then show ?case
  proof cases
    case 1
    then show ?thesis by (simp add: pieces.simps)
  next
    case 2
    then have "pieces f t = [] # pieces f (drop (length f) t)" by (subst pieces.simps) simp
    moreover have "pieces f (drop (length f) t) \<noteq> []" using pieces_Cons [of f "drop (length f) t"] by auto
    ultimately show ?thesis
      using "1.IH"(1) [OF 2] 2(2) append_take_drop_id [of "length f" t] by (simp add: join_Cons)
  next
    case 3
    obtain p ps where p: "pieces f (tl t) = p # ps" using pieces_Cons by blast
    then have "pieces f t = (hd t # p) # ps" using 3 by (subst pieces.simps) auto
    then show ?thesis using "1.IH"(2) [OF 3] p 3(1) by (simp add: join_head)
  qed
qed

lemma occurs_Cons: "occurs f (c # p) \<longleftrightarrow> (\<exists>b. c # p = f @ b) \<or> occurs f p"
proof
  assume "occurs f (c # p)"
  then obtain a b where "c # p = a @ f @ b" by (auto simp: occurs_def)
  then show "(\<exists>b. c # p = f @ b) \<or> occurs f p" by (cases a) (auto simp: occurs_def)
next
  assume "(\<exists>b. c # p = f @ b) \<or> occurs f p"
  then show "occurs f (c # p)"
  proof
    assume "\<exists>b. c # p = f @ b"
    then show ?thesis unfolding occurs_def by (metis append_Nil)
  next
    assume "occurs f p"
    then show ?thesis unfolding occurs_def by (metis append_Cons)
  qed
qed

lemma occurs_short: "occurs f p \<Longrightarrow> length f \<le> length p"
  by (auto simp: occurs_def)

text \<open>The pieces are the leftmost ones: a piece and the pattern after it hold the pattern only at
  their end, and the last piece does not hold it.\<close>

fun leftmost :: "bytes \<Rightarrow> bytes list \<Rightarrow> bool" where
  "leftmost f [] \<longleftrightarrow> True"
| "leftmost f [p] \<longleftrightarrow> \<not> occurs f p"
| "leftmost f (p # q # ps) \<longleftrightarrow> \<not> occurs f (butlast (p @ f)) \<and> leftmost f (q # ps)"

lemma leftmost_head:
  assumes f: "f \<noteq> []" and l: "leftmost f (p # ps)" and n: "take (length f) (c # join f (p # ps)) \<noteq> f"
  shows "leftmost f ((c # p) # ps)"
proof -
  have no: "c # join f (p # ps) \<noteq> f @ b" for b using n by auto
  show ?thesis
  proof (cases ps)
    case Nil
    then show ?thesis using l no by (simp add: occurs_Cons)
  next
    case (Cons q qs)
    have "c # butlast (p @ f) \<noteq> f @ b" for b
    proof
      assume e: "c # butlast (p @ f) = f @ b"
      have "c # join f (p # ps) = (c # butlast (p @ f)) @ [last f] @ join f (q # qs)"
        using f Cons by (simp add: butlast_append)
      then show False using no e by simp
    qed
    then show ?thesis using l Cons f by (simp add: occurs_Cons)
  qed
qed

lemma pieces_leftmost: "f \<noteq> [] \<Longrightarrow> leftmost f (pieces f t)"
proof (induction f t rule: pieces.induct)
  case (1 f t)
  consider "t = []" | "t \<noteq> []" "f \<noteq> [] \<and> take (length f) t = f" | "t \<noteq> []" "\<not> (f \<noteq> [] \<and> take (length f) t = f)" by blast
  then show ?case
  proof cases
    case 1
    then show ?thesis using "1.prems" by (auto simp: pieces.simps occurs_def)
  next
    case 2
    obtain p ps where p: "pieces f (drop (length f) t) = p # ps" using pieces_Cons by blast
    have "pieces f t = [] # p # ps" using 2 p by (subst pieces.simps) simp
    moreover have "\<not> occurs f (butlast f)" using "1.prems" occurs_short [of f "butlast f"] by (cases f) auto
    ultimately show ?thesis using "1.IH"(1) [OF 2 "1.prems"] p by simp
  next
    case 3
    obtain p ps where p: "pieces f (tl t) = p # ps" using pieces_Cons by blast
    then have e: "pieces f t = (hd t # p) # ps" using 3 by (subst pieces.simps) auto
    have j: "hd t # join f (p # ps) = t" using p join_pieces [of f "tl t"] 3(1) by simp
    then have "take (length f) (hd t # join f (p # ps)) \<noteq> f" using 3(2) "1.prems" by simp
    then show ?thesis unfolding e
      using leftmost_head [OF "1.prems"] "1.IH"(2) [OF 3 "1.prems"] p by simp
  qed
qed

lemma ys_addc_ok:
  assumes "ys_inv y" and "c \<noteq> 0" and "length (ys_text y) + 1 < 2 ^ 31"
  shows "\<exists>y'. ys_addc [] (Some y) c = Some (1, Some y', []) \<and> ys_inv y' \<and> ys_text y' = ys_text y @ [c]"
  using ys_cat_ok [of y "[c]"] assms by (simp add: ys_addc_def)

lemma subs_size: "a + (d + Suc k) * (u + 1) < N \<Longrightarrow> a + u < N \<and> a + u + d * (u + 1) < (N :: nat)"
  by (simp add: add_mult_distrib)

lemma subs_loop_ok:
  "ys_inv y \<Longrightarrow> 0 \<notin> set t \<Longrightarrow> 0 \<notin> set u \<Longrightarrow> length (ys_text y) + length t * (length u + 1) < 2 ^ 31 \<Longrightarrow>
     \<exists>y'. subs_loop (\<lambda>c. c) f (Some u) [] (Some y) t = Some (Some y', []) \<and> ys_inv y' \<and>
          ys_text y' = ys_text y @ join u (pieces f t)"
proof (induction f t arbitrary: y rule: pieces.induct)
  case (1 f t)
  consider "t = []" | "t \<noteq> []" "f \<noteq> [] \<and> take (length f) t = f" | "t \<noteq> []" "\<not> (f \<noteq> [] \<and> take (length f) t = f)" by blast
  then show ?case
  proof cases
    case 1
    then show ?thesis using "1.prems"(1) by (simp add: pieces.simps subs_loop.simps)
  next
    case 2
    have "length f \<le> length t" using arg_cong [OF conjunct2 [OF 2(2)], of length] by (simp add: min_def split: if_splits)
    then obtain k where k: "length t = length (drop (length f) t) + Suc k"
      using 2(2) that [of "length f - 1"] by (cases f) simp_all
    have n: "length (ys_text y) + length u < 2 ^ 31"
      "length (ys_text y) + length u + length (drop (length f) t) * (length u + 1) < 2 ^ 31"
      using subs_size [OF "1.prems"(4) [unfolded k]] by blast+
    obtain y1 where y1: "ys_cat [] (Some y) (Some u) = Some (1, Some y1, [])" "ys_inv y1" "ys_text y1 = ys_text y @ u"
      using ys_cat_ok [OF "1.prems"(1,3) n(1)] by blast
    have z: "0 \<notin> set (drop (length f) t)" using "1.prems"(2) by (meson in_set_dropD)
    have "subs_loop (\<lambda>c. c) f (Some u) [] (Some y) t = subs_loop (\<lambda>c. c) f (Some u) [] (Some y1) (drop (length f) t)"
      using 2 y1(1) by (subst subs_loop.simps) simp
    moreover have "pieces f t = [] # pieces f (drop (length f) t)" using 2 by (subst pieces.simps) simp
    moreover have "pieces f (drop (length f) t) \<noteq> []" using pieces_Cons [of f "drop (length f) t"] by auto
    ultimately show ?thesis
      using "1.IH"(1) [OF 2 y1(2) z "1.prems"(3)] n(2) y1(3) by (simp add: join_Cons)
  next
    case 3
    obtain c t' where t: "t = c # t'" using 3(1) by (cases t) auto
    have n: "length (ys_text y) + 1 + length t' * (length u + 1) < 2 ^ 31" using "1.prems"(4) t by simp
    obtain y1 where y1: "ys_addc [] (Some y) c = Some (1, Some y1, [])" "ys_inv y1" "ys_text y1 = ys_text y @ [c]"
      using ys_addc_ok [OF "1.prems"(1), of c] "1.prems"(2) n t by auto
    have "subs_loop (\<lambda>c. c) f (Some u) [] (Some y) t = subs_loop (\<lambda>c. c) f (Some u) [] (Some y1) t'"
      using 3 y1(1) t by (subst subs_loop.simps) auto
    moreover obtain p ps where p: "pieces f t' = p # ps" using pieces_Cons by blast
    moreover have "pieces f t = (c # p) # ps" using 3 p t by (subst pieces.simps) auto
    ultimately show ?thesis
      using "1.IH"(2) [OF 3 y1(2)] "1.prems"(2,3) n y1(3) t by (simp add: join_head)
  qed
qed

section \<open>Strings refine lists of characters\<close>

datatype str_op =
    Cat bytes | Tac bytes | NTac bytes u32 | Putc byte | Addc byte | Trunc | Ltrim | Rtrim | Trim

text \<open>An operation of the library; those that cannot fail give no code, read here as 1.\<close>

fun ys_step :: "bool list \<Rightarrow> ystr_t \<Rightarrow> str_op \<Rightarrow> ys_result" where
  "ys_step m y (Cat t) = ys_cat m (Some y) (Some t)"
| "ys_step m y (Tac t) = ys_tac m (Some y) (Some t)"
| "ys_step m y (NTac t n) = ys_ntac m (Some y) (Some t) n"
| "ys_step m y (Putc c) = ys_putc m (Some y) c"
| "ys_step m y (Addc c) = ys_addc m (Some y) c"
| "ys_step m y Trunc = do { s \<leftarrow> ys_trunc (Some y); Some (1, s, m) }"
| "ys_step m y Ltrim = do { s \<leftarrow> ys_ltrim (Some y); Some (1, s, m) }"
| "ys_step m y Rtrim = do { s \<leftarrow> ys_rtrim (Some y); Some (1, s, m) }"
| "ys_step m y Trim = do { s \<leftarrow> ys_trim (Some y); Some (1, s, m) }"

fun str_step :: "bytes \<Rightarrow> str_op \<Rightarrow> bytes" where
  "str_step s (Cat t) = s @ t"
| "str_step s (Tac t) = t @ s"
| "str_step s (NTac t n) = take (unat n) t @ s"
| "str_step s (Putc c) = c # s"
| "str_step s (Addc c) = s @ [c]"
| "str_step s Trunc = []"
| "str_step s Ltrim = dropWhile blank s"
| "str_step s Rtrim = strip_end s"
| "str_step s Trim = strip_end (dropWhile blank s)"

text \<open>The characters an operation may add, and its arguments as C strings.\<close>

fun op_chars :: "str_op \<Rightarrow> bytes" where
  "op_chars (Cat t) = t"
| "op_chars (Tac t) = t"
| "op_chars (NTac t n) = t"
| "op_chars (Putc c) = [c]"
| "op_chars (Addc c) = [c]"
| "op_chars _ = []"

fun ys_run :: "bool list \<Rightarrow> ystr_t \<Rightarrow> str_op list \<Rightarrow> (int list \<times> ystr_t \<times> bool list) option" where
  "ys_run m y [] = Some ([], y, m)"
| "ys_run m y (p # ps) = do {
     (rc, s, m') \<leftarrow> ys_step m y p;
     y' \<leftarrow> s;
     (rcs, y'', m'') \<leftarrow> ys_run m' y' ps;
     Some (rc # rcs, y'', m'') }"

text \<open>On lists, an operation that answered 0 is skipped.\<close>

fun str_run :: "bytes \<Rightarrow> (str_op \<times> int) list \<Rightarrow> bytes" where
  "str_run s [] = s"
| "str_run s ((p, rc) # ps) = str_run (if rc = 0 then s else str_step s p) ps"

lemma strip_end_length: "length (strip_end s) \<le> length s"
  using strip_end_prefix [of s] by (metis le_add1 length_append)

lemma str_step_length: "length (str_step s p) \<le> length s + length (op_chars p)"
  by (cases p) (auto intro: order_trans [OF strip_end_length] simp: length_dropWhile_le min_def)

lemma ys_ntac_done:
  assumes inv: "ys_inv y" and t: "0 \<notin> set t" "length (ys_text y) + length t < 2 ^ 31"
  shows "ys_done m y (take (unat n) t @ ys_text y) (ys_ntac m (Some y) (Some t) n)"
proof (cases "n = 0")
  case True
  then show ?thesis using ys_doneI [OF inv refl] by (simp add: ys_ntac_def)
next
  case False
  let ?n = "if length t < unat n then word_of_nat (length t) else n"
  have n: "unat ?n \<le> length t" "take (unat ?n) t = take (unat n) t"
    using t(2) by (simp_all add: unat_of_nat take_bit_nat_eq_self)
  have "ys_ntac m (Some y) (Some t) n = ys_prepend m y t ?n" using False t(1) by (simp add: ys_ntac_def)
  then show ?thesis using ys_prepend_done [OF inv t(1) n(1), of m] n t(2) inv by simp
qed

lemma ys_tac_done:
  assumes inv: "ys_inv y" and t: "0 \<notin> set t" "length (ys_text y) + length t < 2 ^ 31"
  shows "ys_done m y (t @ ys_text y) (ys_tac m (Some y) (Some t))"
proof (cases "t = []")
  case True
  then show ?thesis using ys_doneI [OF inv refl] by (simp add: ys_tac_def str_size_def cstr_def)
next
  case False
  have "unat (str_size (Some t)) = length t" using t by simp
  then show ?thesis
    using ys_prepend_done [OF inv t(1), of "str_size (Some t)" m] t inv False str_size_0 [OF t(1)]
    by (simp add: ys_tac_def)
qed

lemma ys_step_done:
  assumes inv: "ys_inv y" and p: "0 \<notin> set (op_chars p)" "length (ys_text y) + length (op_chars p) < 2 ^ 31"
  shows "ys_done m y (str_step (ys_text y) p) (ys_step m y p)"
proof (cases p)
  case (Cat t)
  then show ?thesis using ys_cat_done [OF inv] p inv by simp
next
  case (Tac t)
  then show ?thesis using ys_tac_done [OF inv] p by simp
next
  case (NTac t n)
  then show ?thesis using ys_ntac_done [OF inv] p by simp
next
  case (Putc c)
  then show ?thesis using ys_putc_done [OF inv] p inv by simp
next
  case (Addc c)
  then show ?thesis using ys_cat_done [OF inv, of "[c]"] p inv by (simp add: ys_addc_def)
next
  case Trunc
  then show ?thesis using ys_trunc_ok [OF inv] by (auto intro: ys_doneI)
next
  case Ltrim
  then show ?thesis using ys_ltrim_ok [OF inv] by (auto intro: ys_doneI)
next
  case Rtrim
  then show ?thesis using ys_rtrim_ok [OF inv] by (auto intro: ys_doneI)
next
  case Trim
  then show ?thesis using ys_trim_ok [OF inv] by (auto intro: ys_doneI)
qed

lemma ys_run_done:
  "ys_inv y \<Longrightarrow> 0 \<notin> set (concat (map op_chars ps)) \<Longrightarrow>
   length (ys_text y) + length (concat (map op_chars ps)) < 2 ^ 31 \<Longrightarrow>
     \<exists>rcs y' m'. ys_run m y ps = Some (rcs, y', m') \<and> ys_inv y' \<and> length rcs = length ps \<and> set rcs \<subseteq> {0, 1} \<and>
       ys_text y' = str_run (ys_text y) (zip ps rcs) \<and> (m = [] \<longrightarrow> 0 \<notin> set rcs)"
proof (induction ps arbitrary: y m)
  case (Cons p ps)
  have p: "0 \<notin> set (op_chars p)" "length (ys_text y) + length (op_chars p) < 2 ^ 31" using Cons.prems by auto
  obtain y1 m1 rc where s: "ys_step m y p = Some (rc, Some y1, m1)" "ys_inv y1" "rc \<in> {0, 1}"
    "ys_text y1 = (if rc = 0 then ys_text y else str_step (ys_text y) p)" "m = [] \<Longrightarrow> rc = 1 \<and> m1 = []"
    using ys_step_done [OF Cons.prems(1) p, of m] unfolding ys_done_def by fastforce
  have "length (ys_text y1) \<le> length (ys_text y) + length (op_chars p)"
    using s(4) str_step_length [of "ys_text y" p] by simp
  then obtain rcs y2 m2 where r: "ys_run m1 y1 ps = Some (rcs, y2, m2)" "ys_inv y2" "length rcs = length ps"
    "set rcs \<subseteq> {0, 1}" "ys_text y2 = str_run (ys_text y1) (zip ps rcs)" "m1 = [] \<longrightarrow> 0 \<notin> set rcs"
    using Cons.IH [OF s(2), of m1] Cons.prems(2,3) by auto
  have "ys_run m y (p # ps) = Some (rc # rcs, y2, m2)" using s(1) r(1) by simp
  then show ?case using s r by (intro exI [of _ "rc # rcs"] exI [of _ y2] exI [of _ m2]) auto
qed simp

text \<open>
  C30: A string behaves like a list of characters. Starting from \<^verbatim>\<open>ys_new\<close> on a C string, every sequence
  of \<^verbatim>\<open>ys_cat\<close>, \<^verbatim>\<open>ys_tac\<close>, \<^verbatim>\<open>ys_ntac\<close>, \<^verbatim>\<open>ys_putc\<close>, \<^verbatim>\<open>ys_addc\<close>, \<^verbatim>\<open>ys_trunc\<close>,
  \<^verbatim>\<open>ys_ltrim\<close>, \<^verbatim>\<open>ys_rtrim\<close> and \<^verbatim>\<open>ys_trim\<close> whose arguments hold less than \<open>2 ^ 31\<close> characters
  together runs without a fault. Each call answers 1 or 0. The string then holds what the same
  operations make of the list of characters, where a call that answered 0 (memory was short) is left
  out, its \<open>used\<close> counter is the number of characters, and the final NUL is in the block. With memory
  at every allocation no call answers 0.
\<close>

theorem string_runs_like_list:
  assumes "0 \<notin> set t" and "0 \<notin> set (concat (map op_chars ps))"
    and "length t + length (concat (map op_chars ps)) < 2 ^ 31" and "ymalloc m = (True, m0)"
  shows "\<exists>y rcs y' m'. ys_new m (Some t) = Some (Some y, m0) \<and> ys_run m0 y ps = Some (rcs, y', m') \<and>
    length rcs = length ps \<and> set rcs \<subseteq> {0, 1} \<and> (m0 = [] \<longrightarrow> 0 \<notin> set rcs) \<and>
    ys_text y' = str_run t (zip ps rcs) \<and> unat (ys_len (Some y')) = length (ys_text y') \<and>
    ys_inv y'"
proof -
  obtain y where y: "ys_new m (Some t) = Some (Some y, m0)" "ys_inv y" "ys_text y = t"
    using ys_new_ok [OF assms(1) _ assms(4)] assms(3) by auto
  moreover obtain rcs y' m' where r: "ys_run m0 y ps = Some (rcs, y', m')" "ys_inv y'" "length rcs = length ps"
    "set rcs \<subseteq> {0, 1}" "ys_text y' = str_run (ys_text y) (zip ps rcs)" "m0 = [] \<longrightarrow> 0 \<notin> set rcs"
    using ys_run_done [OF y(2) assms(2), of m0] assms(3) y(3) by auto
  moreover have "unat (ys_len (Some y')) = length (ys_text y')" using length_ys_text [OF r(2)] by (simp add: ys_len_def)
  ultimately show ?thesis by blast
qed

theorem string_runs_like_list_witness:
  "\<exists>y y' m'. ys_new [] (Some [97, 32]) = Some (Some y, []) \<and>
     ys_run [] y [Putc 98, Trim, Tac [99], NTac [100, 101] 1] = Some ([1, 1, 1, 1], y', m') \<and> ys_text y' = [100, 99, 98, 97]"
proof -
  let ?ps = "[Putc 98, Trim, Tac [99], NTac [100, 101] 1]"
  obtain y rcs y' m' where r: "ys_new [] (Some [97, 32]) = Some (Some y, [])" "ys_run [] y ?ps = Some (rcs, y', m')"
    "length rcs = 4" "set rcs \<subseteq> {0, 1}" "0 \<notin> set rcs" "ys_text y' = str_run [97, 32] (zip ?ps rcs)"
    using string_runs_like_list [of "[97, 32]" ?ps "[]" "[]"] by auto
  have "rcs = [1, 1, 1, 1]" using r(3,4,5) by (auto simp: numeral_eq_Suc length_Suc_conv)
  then show ?thesis using r by (simp del: ys_run.simps add: blank_def strip_end_def)
qed

text \<open>
  C33: \<^verbatim>\<open>ys_subs\<close> replaces the occurrences of a pattern, from the left. With memory, on C strings whose
  lengths keep the result below \<open>2 ^ 31\<close> characters, the text is cut at the leftmost, non-overlapping
  occurrences of the pattern, and the result is the same pieces with the replacement between them: no
  piece but the last, with the pattern after it, holds an earlier occurrence, and the last holds none.
\<close>

theorem ys_subs_replaces:
  assumes "0 \<notin> set t" and "0 \<notin> set f" and "f \<noteq> []" and "0 \<notin> set u" and "length f < 2 ^ 31"
    and "length t * (length u + 1) < 2 ^ 31"
  shows "\<exists>ps y. t = join f ps \<and> leftmost f ps \<and>
    ys_subs [] (Some t) (Some f) (Some u) = Some (Some y, []) \<and> ys_text y = join u ps \<and> ys_inv y"
proof -
  obtain y0 where y0: "ys_new [] (Some []) = Some (Some y0, [])" "ys_inv y0" "ys_text y0 = []"
    using ys_new_empty by blast
  have "subs_pattern (Some f) = f" using assms(2,5) by (simp add: subs_pattern_def)
  then show ?thesis
    using subs_loop_ok [OF y0(2) assms(1,4), of f] assms(1,6) y0 join_pieces [of f t] pieces_leftmost [OF assms(3)]
    by (intro exI [of _ "pieces f t"]) (auto simp: ys_subs_def)
qed

theorem ys_subs_replaces_witness:
  "\<exists>ps y. [97, 98, 97, 98, 97] = join [97, 98] ps \<and> leftmost [97, 98] ps \<and>
     ys_subs [] (Some [97, 98, 97, 98, 97]) (Some [97, 98]) (Some [120]) = Some (Some y, []) \<and> ys_text y = join [120] ps"
  using ys_subs_replaces [of "[97, 98, 97, 98, 97]" "[97, 98]" "[120]"] by auto

text \<open>
  C34: Escaping text for XML and reading it back gives the text. With memory, \<^verbatim>\<open>str2xmlentity\<close> of a C
  string of less than \<open>2 ^ 31 div 6\<close> characters is a C string in which no character but the ampersand
  of an entity has a meaning in XML, and \<^verbatim>\<open>xmlentity2str\<close> of it is the original text.
\<close>

theorem xml_roundtrip:
  assumes "0 \<notin> set t" and "6 * length t < 2 ^ 31"
  shows "\<exists>x. str2xmlentity [] (Some t) = Some (Some (x @ [0]), []) \<and> set x \<inter> {0, 60, 62, 34, 39} = {} \<and>
    xmlentity2str [] (Some x) = Some (Some (t @ [0]), [])"
proof -
  let ?x = "concat (map xml_entity t)"
  obtain y0 where y0: "ys_new [] (Some []) = Some (Some y0, [])" "ys_inv y0" "ys_text y0 = []"
    using ys_new_empty by blast
  have x: "set ?x \<inter> {0, 60, 62, 34, 39} = {}" using assms(1) by (auto simp: xml_entity_def split: if_splits)
  obtain y1 where y1: "xml_loop [] (Some y0) t = Some (Some y1, [])" "ys_inv y1" "ys_text y1 = ?x"
    using xml_loop_ok [OF y0(2) assms(1)] assms(2) y0(3) by auto
  have "length ?x \<le> 6 * length t" using xml_entity_length by (induction t) (auto intro: add_mono)
  then have n: "unat (sused y1) < 2 ^ 31" using y1(2,3) assms(2) length_ys_text [OF y1(2)] by simp
  obtain y2 where y2: "unxml_loop [] (Some y0) ?x = Some (Some y2, [])" "ys_inv y2" "ys_text y2 = t"
    using unxml_loop_ok [OF y0(2) assms(1)] assms(2) y0(3) by auto
  have n2: "unat (sused y2) < 2 ^ 31" using y2(3) assms(2) length_ys_text [OF y2(2)] by simp
  have "0 \<notin> set ?x" using x by blast
  then show ?thesis
    using x y0(1) y1 y2 assms(1) ys_string_ok [OF y1(2) n] ys_string_ok [OF y2(2) n2]
    by (intro exI [of _ ?x]) (simp add: str2xmlentity_def xmlentity2str_def)
qed

theorem xml_roundtrip_witness:
  "\<exists>x. str2xmlentity [] (Some [97, 38, 60]) = Some (Some (x @ [0]), []) \<and> set x \<inter> {0, 60, 62, 34, 39} = {} \<and>
    xmlentity2str [] (Some x) = Some (Some [97, 38, 60, 0], [])"
  using xml_roundtrip [of "[97, 38, 60]"] by simp

end
