(* ===== verification/Midl.thy ===== *)
theory Midl
  imports Ymem "HOL-Library.Multiset"
begin

text \<open>
  ID lists of the storage library, \<^verbatim>\<open>lib/lmdb/midl.c\<close>: arrays of page numbers that grow by reallocation
  and are sorted in descending order by a quicksort with an explicit stack, and arrays of number and
  pointer pairs that are kept sorted in ascending order. Cell 0 of an array holds its number of
  elements. An access outside a block is \<^term>\<open>None\<close>. Indices are natural numbers: a run in which one of
  them becomes negative is \<^term>\<open>None\<close> as well.
\<close>

section \<open>Growing lists\<close>

type_synonym mdb_id = size_t

text \<open>
  The block of an \<^verbatim>\<open>MDB_IDL\<close>: the cell before the pointer, which is the room of the list, and the cells
  from the pointer on. The allocator supplies the contents of new cells; it gives \<^term>\<open>None\<close> when memory
  is short.
\<close>

record midl =
  iroom :: mdb_id
  icells :: "mdb_id list"

definition MDB_IDL_UM_MAX :: nat where
  "MDB_IDL_UM_MAX = 2 ^ 17 - 1"

definition mdb_midl_alloc :: "int \<Rightarrow> (nat \<Rightarrow> mdb_id list option) \<Rightarrow> midl option" where
  "mdb_midl_alloc num alloc =
     (case alloc (nat (num + 2)) of
        None \<Rightarrow> None
      | Some blk \<Rightarrow> Some \<lparr>iroom = word_of_int num, icells = tl blk\<rparr>)"

text \<open>\<^verbatim>\<open>realloc\<close> of a block to \<open>n\<close> cells: the old cells that fit stay.\<close>

definition resize :: "mdb_id list \<Rightarrow> nat \<Rightarrow> mdb_id list \<Rightarrow> mdb_id list" where
  "resize old n new = take n (old @ drop (length old) new)"

definition mdb_midl_shrink :: "(nat \<Rightarrow> mdb_id list option) \<Rightarrow> midl \<Rightarrow> (int \<times> midl) option" where
  "mdb_midl_shrink alloc ids =
     (if MDB_IDL_UM_MAX < unat (iroom ids) then
        (case alloc (MDB_IDL_UM_MAX + 1) of
           None \<Rightarrow> None
         | Some blk \<Rightarrow>
             Some (1, \<lparr>iroom = word_of_nat MDB_IDL_UM_MAX,
               icells = tl (resize (iroom ids # icells ids) (MDB_IDL_UM_MAX + 1) blk)\<rparr>))
      else Some (0, ids))"

definition ENOMEM :: int where
  "ENOMEM = 12"

definition mdb_midl_grow :: "(nat \<Rightarrow> mdb_id list option) \<Rightarrow> midl \<Rightarrow> int \<Rightarrow> int \<times> midl" where
  "mdb_midl_grow alloc ids num =
     (let n = unat (iroom ids + word_of_int num + 2) in
      case alloc n of
        None \<Rightarrow> (ENOMEM, ids)
      | Some blk \<Rightarrow>
          (0, \<lparr>iroom = iroom ids + word_of_int num, icells = tl (resize (iroom ids # icells ids) n blk)\<rparr>))"

definition mdb_midl_append :: "(nat \<Rightarrow> mdb_id list option) \<Rightarrow> midl \<Rightarrow> mdb_id \<Rightarrow> (int \<times> midl) option" where
  "mdb_midl_append alloc idp i = do {
     n \<leftarrow> get_cell (icells idp) 0;
     (case (if iroom idp \<le> n then mdb_midl_grow alloc idp (int MDB_IDL_UM_MAX) else (0, idp)) of (rc, ids) \<Rightarrow>
        if rc \<noteq> 0 then Some (ENOMEM, ids)
        else do {
          cs \<leftarrow> set_cell (icells ids) 0 (n + 1);
          cs' \<leftarrow> set_cell cs (unat (n + 1)) i;
          Some (0, ids\<lparr>icells := cs'\<rparr>) }) }"

definition mdb_midl_append_list :: "(nat \<Rightarrow> mdb_id list option) \<Rightarrow> midl \<Rightarrow> mdb_id list \<Rightarrow> (int \<times> midl) option" where
  "mdb_midl_append_list alloc idp app = do {
     n \<leftarrow> get_cell (icells idp) 0;
     k \<leftarrow> get_cell app 0;
     (case (if iroom idp \<le> n + k then mdb_midl_grow alloc idp (sint (ucast k :: u32)) else (0, idp)) of (rc, ids) \<Rightarrow>
        if rc \<noteq> 0 then Some (ENOMEM, ids)
        else if unat k < length app \<and> unat n + unat k < length (icells ids) then
          Some (0, ids\<lparr>icells := (take (unat n + 1) (icells ids) @ take (unat k) (drop 1 app) @
            drop (unat n + 1 + unat k) (icells ids))[0 := n + k]\<rparr>)
        else None) }"

section \<open>Sorting\<close>

text \<open>The inner loop of the insertion sort, with \<open>i\<close> going down, and the store after it.\<close>

fun insert_loop :: "mdb_id list \<Rightarrow> mdb_id \<Rightarrow> nat \<Rightarrow> mdb_id list option" where
  "insert_loop ids a 0 = set_cell ids 1 a"
| "insert_loop ids a (Suc i) = do {
     c \<leftarrow> get_cell ids (Suc i);
     (if a \<le> c then set_cell ids (Suc i + 1) a
      else do {
        ids' \<leftarrow> set_cell ids (Suc i + 1) c;
        insert_loop ids' a i }) }"

function insertion_sort :: "mdb_id list \<Rightarrow> nat \<Rightarrow> nat \<Rightarrow> mdb_id list option" where
  "insertion_sort ids j ir =
     (if j \<le> ir then do {
        a \<leftarrow> get_cell ids j;
        ids' \<leftarrow> insert_loop ids a (j - 1);
        insertion_sort ids' (j + 1) ir }
      else Some ids)"
  by auto
termination by (relation "measure (\<lambda>(ids, j, ir). Suc ir - j)") auto

declare insertion_sort.simps [simp del]

definition swap_cells :: "mdb_id list \<Rightarrow> nat \<Rightarrow> nat \<Rightarrow> mdb_id list option" where
  "swap_cells ids i j = do {
     x \<leftarrow> get_cell ids i;
     y \<leftarrow> get_cell ids j;
     ids' \<leftarrow> set_cell ids i y;
     set_cell ids' j x }"

definition swap_less :: "mdb_id list \<Rightarrow> nat \<Rightarrow> nat \<Rightarrow> mdb_id list option" where
  "swap_less ids i j = do {
     x \<leftarrow> get_cell ids i;
     y \<leftarrow> get_cell ids j;
     (if x < y then swap_cells ids i j else Some ids) }"

text \<open>\<^verbatim>\<open>do i++; while (ids[i] > a)\<close> and \<^verbatim>\<open>do j--; while (ids[j] < a)\<close>.\<close>

function scan_up :: "mdb_id list \<Rightarrow> mdb_id \<Rightarrow> nat \<Rightarrow> nat option" where
  "scan_up ids a i =
     (if i + 1 < length ids then (if a < ids ! (i + 1) then scan_up ids a (i + 1) else Some (i + 1)) else None)"
  by auto
termination by (relation "measure (\<lambda>(ids, a, i). length ids - i)") auto

declare scan_up.simps [simp del]

fun scan_down :: "mdb_id list \<Rightarrow> mdb_id \<Rightarrow> nat \<Rightarrow> nat option" where
  "scan_down ids a 0 = None"
| "scan_down ids a (Suc j) = do {
     c \<leftarrow> get_cell ids j;
     (if c < a then scan_down ids a j else Some j) }"

lemma scan_down_less: "scan_down ids a j = Some j' \<Longrightarrow> j' < j"
  by (induction j) (auto simp: get_cell_def less_SucI split: if_splits)

function partition_loop :: "mdb_id list \<Rightarrow> mdb_id \<Rightarrow> nat \<Rightarrow> nat \<Rightarrow> (mdb_id list \<times> nat \<times> nat) option" where
  "partition_loop ids a i j =
     (case scan_up ids a i of
        None \<Rightarrow> None
      | Some i' \<Rightarrow>
          (case scan_down ids a j of
             None \<Rightarrow> None
           | Some j' \<Rightarrow>
               if j' < i' then Some (ids, i', j')
               else (case swap_cells ids i' j' of
                  None \<Rightarrow> None
                | Some ids' \<Rightarrow> partition_loop ids' a i' j')))"
  by pat_completeness auto
termination by (relation "measure (\<lambda>(ids, a, i, j). j)") (auto dest: scan_down_less)

declare partition_loop.simps [simp del]

text \<open>The median of three, the partition and the return of the pivot to its place.\<close>

definition split_segment :: "mdb_id list \<Rightarrow> nat \<Rightarrow> nat \<Rightarrow> (mdb_id list \<times> nat \<times> nat) option" where
  "split_segment ids l ir = do {
     ids1 \<leftarrow> swap_cells ids ((l + ir) div 2) (l + 1);
     ids2 \<leftarrow> swap_less ids1 l ir;
     ids3 \<leftarrow> swap_less ids2 (l + 1) ir;
     ids4 \<leftarrow> swap_less ids3 l (l + 1);
     a \<leftarrow> get_cell ids4 (l + 1);
     (ids5, i, j) \<leftarrow> partition_loop ids4 a (l + 1) ir;
     c \<leftarrow> get_cell ids5 j;
     ids6 \<leftarrow> set_cell ids5 (l + 1) c;
     ids7 \<leftarrow> set_cell ids6 j a;
     Some (ids7, i, j) }"

definition SMALL :: nat where
  "SMALL = 8"

text \<open>The outer loop. A sum of indices beyond the range of \<^verbatim>\<open>int\<close> is undefined behaviour.\<close>

partial_function (option) sort_loop :: "mdb_id list \<Rightarrow> nat list \<Rightarrow> nat \<Rightarrow> nat \<Rightarrow> nat \<Rightarrow> mdb_id list option" where
  "sort_loop ids istack jstack l ir =
     (if ir < l + SMALL then do {
        ids' \<leftarrow> insertion_sort ids (l + 1) ir;
        (if jstack = 0 then Some ids'
         else do {
           ir' \<leftarrow> get_cell istack jstack;
           l' \<leftarrow> get_cell istack (jstack - 1);
           sort_loop ids' istack (jstack - 2) l' ir' }) }
      else if 2 ^ 31 \<le> l + ir then None
      else do {
        (ids', i, j) \<leftarrow> split_segment ids l ir;
        (if j = 0 then None
         else if int j - int l \<le> int ir - int i + 1 then do {
           st \<leftarrow> set_cell istack (jstack + 2) ir;
           st' \<leftarrow> set_cell st (jstack + 1) i;
           sort_loop ids' st' (jstack + 2) l (j - 1) }
         else do {
           st \<leftarrow> set_cell istack (jstack + 2) (j - 1);
           st' \<leftarrow> set_cell st (jstack + 1) l;
           sort_loop ids' st' (jstack + 2) i ir }) })"

text \<open>
  The stack has \<^verbatim>\<open>sizeof(int) * CHAR_BIT * 2\<close> cells, \<open>istack\<close> are their contents at the start. A count
  that is negative as an \<^verbatim>\<open>int\<close> leaves nothing to do.
\<close>

definition mdb_midl_sort :: "nat list \<Rightarrow> mdb_id list \<Rightarrow> mdb_id list option" where
  "mdb_midl_sort istack ids = do {
     n \<leftarrow> get_cell ids 0;
     (let ir = sint (ucast n :: u32) in
      if ir < 0 then Some ids else sort_loop ids istack 0 1 (nat ir)) }"

section \<open>Lists of pairs\<close>

record MDB_ID2 =
  mid :: mdb_id
  mptr :: nat

text \<open>The binary search. \<open>base\<close>, \<open>cursor\<close> and \<open>n\<close> stay below the count of the list.\<close>

function mid2l_search_loop :: "MDB_ID2 list \<Rightarrow> mdb_id \<Rightarrow> nat \<Rightarrow> nat \<Rightarrow> int \<Rightarrow> nat \<Rightarrow> nat option" where
  "mid2l_search_loop ids i base cursor val n =
     (if 0 < n then
        (let pivot = n div 2; cursor = base + pivot + 1 in
         case get_cell ids cursor of
           None \<Rightarrow> None
         | Some e \<Rightarrow>
             if i < mid e then mid2l_search_loop ids i base cursor (-1) pivot
             else if mid e < i then mid2l_search_loop ids i cursor cursor 1 (n - (pivot + 1))
             else Some cursor)
      else Some (if 0 < val then (cursor + 1) mod 2 ^ 32 else cursor))"
  by auto
termination by (relation "measure (\<lambda>(ids, i, base, cursor, val, n). n)") auto

declare mid2l_search_loop.simps [simp del]

definition mdb_mid2l_search :: "MDB_ID2 list \<Rightarrow> mdb_id \<Rightarrow> nat option" where
  "mdb_mid2l_search ids i = do {
     h \<leftarrow> get_cell ids 0;
     mid2l_search_loop ids i 0 1 0 (unat (ucast (mid h) :: u32)) }"

text \<open>\<^verbatim>\<open>for (i = n; i > x; i--) ids[i] = ids[i-1];\<close>\<close>

fun shift_pairs :: "MDB_ID2 list \<Rightarrow> nat \<Rightarrow> nat \<Rightarrow> MDB_ID2 list option" where
  "shift_pairs ids x 0 = Some ids"
| "shift_pairs ids x (Suc i) =
     (if x < Suc i then do {
        c \<leftarrow> get_cell ids i;
        ids' \<leftarrow> set_cell ids (Suc i) c;
        shift_pairs ids' x i }
      else Some ids)"

text \<open>A failed assertion stops the program.\<close>

definition mdb_mid2l_insert :: "MDB_ID2 list \<Rightarrow> MDB_ID2 \<Rightarrow> (int \<times> MDB_ID2 list) option" where
  "mdb_mid2l_insert ids e = do {
     x \<leftarrow> mdb_mid2l_search ids (mid e);
     h \<leftarrow> get_cell ids 0;
     (if x = 0 then None
      else do {
        dup \<leftarrow> (if x \<le> unat (mid h) then do { c \<leftarrow> get_cell ids x; Some (mid c = mid e) } else Some False);
        (if dup then Some (-1, ids)
         else if MDB_IDL_UM_MAX \<le> unat (mid h) then Some (-2, ids)
         else do {
           ids1 \<leftarrow> set_cell ids 0 (h\<lparr>mid := mid h + 1\<rparr>);
           ids2 \<leftarrow> shift_pairs ids1 x (unat (ucast (mid h + 1) :: u32));
           ids3 \<leftarrow> set_cell ids2 x e;
           Some (0, ids3) }) }) }"

definition mdb_mid2l_append :: "MDB_ID2 list \<Rightarrow> MDB_ID2 \<Rightarrow> (int \<times> MDB_ID2 list) option" where
  "mdb_mid2l_append ids e = do {
     h \<leftarrow> get_cell ids 0;
     (if MDB_IDL_UM_MAX \<le> unat (mid h) then Some (-2, ids)
      else do {
        ids1 \<leftarrow> set_cell ids 0 (h\<lparr>mid := mid h + 1\<rparr>);
        ids2 \<leftarrow> set_cell ids1 (unat (mid h + 1)) e;
        Some (0, ids2) }) }"

section \<open>Permuting a segment\<close>

text \<open>\<open>ids'\<close> holds the same numbers as \<open>ids\<close>, and only the cells from \<open>l\<close> to \<open>r\<close> have moved, among themselves.\<close>

definition perm_in :: "nat \<Rightarrow> nat \<Rightarrow> 'b list \<Rightarrow> 'b list \<Rightarrow> bool" where
  "perm_in l r xs ys \<longleftrightarrow> length ys = length xs \<and> mset ys = mset xs \<and> (\<forall>k. k < l \<or> r < k \<longrightarrow> ys ! k = xs ! k) \<and>
     (\<forall>k. l \<le> k \<and> k \<le> r \<longrightarrow> (\<exists>k'. l \<le> k' \<and> k' \<le> r \<and> ys ! k = xs ! k'))"

lemma perm_in_refl [simp]: "perm_in l r xs xs"
  by (auto simp: perm_in_def)

lemma perm_in_trans:
  assumes "perm_in l r xs ys" and "perm_in l r ys zs"
  shows "perm_in l r xs zs"
  unfolding perm_in_def
proof (intro conjI allI impI)
  fix k assume "l \<le> k \<and> k \<le> r"
  then obtain k1 where k1: "l \<le> k1 \<and> k1 \<le> r" "zs ! k = ys ! k1" using assms(2) unfolding perm_in_def by blast
  then obtain k2 where "l \<le> k2 \<and> k2 \<le> r" "ys ! k1 = xs ! k2" using assms(1) unfolding perm_in_def by blast
  then show "\<exists>k'. l \<le> k' \<and> k' \<le> r \<and> zs ! k = xs ! k'" using k1(2) by auto
qed (use assms in \<open>auto simp: perm_in_def\<close>)

lemma perm_in_length: "perm_in l r xs ys \<Longrightarrow> length ys = length xs"
  by (simp add: perm_in_def)

lemma perm_in_out: "perm_in l r xs ys \<Longrightarrow> k < l \<or> r < k \<Longrightarrow> ys ! k = xs ! k"
  by (auto simp: perm_in_def)

lemma perm_in_in: "perm_in l r xs ys \<Longrightarrow> l \<le> k \<Longrightarrow> k \<le> r \<Longrightarrow> \<exists>k'. l \<le> k' \<and> k' \<le> r \<and> ys ! k = xs ! k'"
  by (simp add: perm_in_def)

lemma perm_in_mono: "perm_in l r xs ys \<Longrightarrow> l' \<le> l \<Longrightarrow> r \<le> r' \<Longrightarrow> perm_in l' r' xs ys"
  unfolding perm_in_def by (metis le_less_trans less_le_trans linorder_not_le order.trans)

lemma perm_in_swap:
  assumes "l \<le> i" "i \<le> r" "l \<le> j" "j \<le> r" "r < length xs"
  shows "perm_in l r xs (xs[i := xs ! j, j := xs ! i])"
  unfolding perm_in_def
proof (intro conjI allI impI)
  show "mset (xs[i := xs ! j, j := xs ! i]) = mset xs" using assms by (intro mset_swap) auto
  fix k assume k: "l \<le> k \<and> k \<le> r"
  have "(xs[i := xs ! j, j := xs ! i]) ! k = xs ! (if k = j then i else if k = i then j else k)"
    using assms k by (simp add: nth_list_update)
  then show "\<exists>k'. l \<le> k' \<and> k' \<le> r \<and> (xs[i := xs ! j, j := xs ! i]) ! k = xs ! k'"
    using assms k by (intro exI [of _ "if k = j then i else if k = i then j else k"]) auto
qed (use assms in auto)

lemma swap_cells_eq: "i < length ids \<Longrightarrow> j < length ids \<Longrightarrow> swap_cells ids i j = Some (ids[i := ids ! j, j := ids ! i])"
  by (simp add: swap_cells_def mem_simps)

definition sorted_on :: "nat \<Rightarrow> nat \<Rightarrow> mdb_id list \<Rightarrow> bool" where
  "sorted_on l r xs \<longleftrightarrow> (\<forall>p q. l \<le> p \<and> p < q \<and> q \<le> r \<longrightarrow> xs ! q \<le> xs ! p)"

lemma sorted_onD: "sorted_on l r xs \<Longrightarrow> l \<le> p \<Longrightarrow> p < q \<Longrightarrow> q \<le> r \<Longrightarrow> xs ! q \<le> xs ! p"
  by (simp add: sorted_on_def)

subsection \<open>Insertion sort\<close>

text \<open>
  The hole is at \<open>Suc i\<close>: what lies before it in the segment is sorted, what lies behind it up to \<open>j\<close> is
  sorted and smaller than \<open>a\<close>, and the cell before the segment stops the loop.
\<close>

definition hole_inv :: "nat \<Rightarrow> nat \<Rightarrow> nat \<Rightarrow> mdb_id \<Rightarrow> mdb_id list \<Rightarrow> bool" where
  "hole_inv l h j a ids \<longleftrightarrow> 1 \<le> l \<and> l \<le> h \<and> h \<le> j \<and> j < length ids \<and> (1 < l \<longrightarrow> a \<le> ids ! (l - 1)) \<and>
     (\<forall>p q. l \<le> p \<and> p < q \<and> q \<le> j \<and> p \<noteq> h \<and> q \<noteq> h \<longrightarrow> ids ! q \<le> ids ! p) \<and> (\<forall>q. h < q \<and> q \<le> j \<longrightarrow> ids ! q < a)"

lemma hole_inv_shift:
  assumes inv: "hole_inv l (Suc (Suc i)) j a ids" and c: "ids ! Suc i < a"
  shows "hole_inv l (Suc i) j a (ids[Suc (Suc i) := ids ! Suc i])"
proof -
  have l: "l \<noteq> Suc (Suc i)" using inv c by (auto simp: hole_inv_def)
  let ?ids = "ids[Suc (Suc i) := ids ! Suc i]"
  have "?ids ! q \<le> ?ids ! p" if p: "l \<le> p" "p < q" "q \<le> j" "p \<noteq> Suc i" "q \<noteq> Suc i" for p q
  proof (cases "p = Suc (Suc i)")
    case True
    then have "ids ! q \<le> ids ! Suc i" using inv p l by (auto simp: hole_inv_def)
    then show ?thesis using True p inv by (auto simp: hole_inv_def)
  next
    case False
    show ?thesis
    proof (cases "q = Suc (Suc i)")
      case True
      then have "ids ! Suc i \<le> ids ! p" using inv p l False by (auto simp: hole_inv_def)
      then show ?thesis using True p inv by (auto simp: hole_inv_def)
    qed (use inv p False in \<open>auto simp: hole_inv_def\<close>)
  qed
  moreover have "?ids ! q < a" if "Suc i < q" "q \<le> j" for q
    using inv c that by (cases "q = Suc (Suc i)") (auto simp: hole_inv_def)
  ultimately show ?thesis using inv l by (auto simp: hole_inv_def)
qed

lemma hole_inv_stop:
  assumes inv: "hole_inv l h j a ids" and c: "h = 1 \<or> a \<le> ids ! (h - 1)"
  shows "sorted_on l j (ids[h := a])"
proof -
  have "(ids[h := a]) ! q \<le> (ids[h := a]) ! p" if p: "l \<le> p" "p < q" "q \<le> j" for p q
  proof (cases "p = h")
    case True
    then show ?thesis using inv p by (auto simp: hole_inv_def less_imp_le)
  next
    case False
    show ?thesis
    proof (cases "q = h")
      case True
      have "a \<le> ids ! (h - 1)" using c inv True p by (auto simp: hole_inv_def)
      moreover have "ids ! (h - 1) \<le> ids ! p" if "p \<noteq> h - 1"
      proof -
        have "p < h - 1" "h - 1 \<le> j" "p \<noteq> h" "h - 1 \<noteq> h" using True p that by auto
        then show ?thesis using inv p(1) unfolding hole_inv_def by blast
      qed
      ultimately show ?thesis using True p inv by (cases "p = h - 1") (auto simp: hole_inv_def)
    qed (use inv p False in \<open>auto simp: hole_inv_def\<close>)
  qed
  then show ?thesis by (simp add: sorted_on_def)
qed

lemma insert_loop_ok:
  "hole_inv l (Suc i) j a ids \<Longrightarrow>
     \<exists>ids'. insert_loop ids a i = Some ids' \<and> perm_in l j (ids[Suc i := a]) ids' \<and> sorted_on l j ids'"
proof (induction i arbitrary: ids)
  case 0
  then have "insert_loop ids a 0 = Some (ids[Suc 0 := a])" by (simp add: set_cell_def hole_inv_def)
  then show ?case using hole_inv_stop [OF 0] by simp
next
  case (Suc i)
  note b = Suc.prems [unfolded hole_inv_def]
  show ?case
  proof (cases "a \<le> ids ! Suc i")
    case True
    then have "insert_loop ids a (Suc i) = Some (ids[Suc (Suc i) := a])" using b by (simp add: mem_simps)
    then show ?thesis using hole_inv_stop [OF Suc.prems] True by simp
  next
    case False
    let ?ids = "ids[Suc (Suc i) := ids ! Suc i]" and ?v = "ids[Suc (Suc i) := a]"
    have l: "l \<le> Suc i" using b False by (cases "l = Suc (Suc i)") auto
    have "?ids[Suc i := a] = ?v[Suc (Suc i) := ?v ! Suc i, Suc i := ?v ! Suc (Suc i)]"
      using b by (simp add: list_update_swap)
    then have "perm_in l j ?v (?ids[Suc i := a])"
      using b l perm_in_swap [of l "Suc (Suc i)" j "Suc i" ?v] by simp
    moreover have "insert_loop ids a (Suc i) = insert_loop ?ids a i" using b False by (simp add: mem_simps)
    ultimately show ?thesis
      using Suc.IH [OF hole_inv_shift [OF Suc.prems]] False perm_in_trans by fastforce
  qed
qed

text \<open>The cell before a segment is not smaller than any in it.\<close>

definition guarded :: "nat \<Rightarrow> nat \<Rightarrow> mdb_id list \<Rightarrow> bool" where
  "guarded l r ids \<longleftrightarrow> (1 < l \<longrightarrow> (\<forall>k. l \<le> k \<and> k \<le> r \<longrightarrow> ids ! k \<le> ids ! (l - 1)))"

lemma guarded_perm:
  assumes "guarded l r ids" and p: "perm_in l r ids ids'" and "1 \<le> l"
  shows "guarded l r ids'"
  unfolding guarded_def
proof (intro impI allI)
  fix k assume l: "1 < l" and k: "l \<le> k \<and> k \<le> r"
  then obtain k' where "l \<le> k' \<and> k' \<le> r" "ids' ! k = ids ! k'" using perm_in_in [OF p] by blast
  moreover have "ids' ! (l - 1) = ids ! (l - 1)" using perm_in_out [OF p] l by simp
  ultimately show "ids' ! k \<le> ids' ! (l - 1)" using assms(1) l by (simp add: guarded_def)
qed

lemma insertion_sort_ok:
  "1 \<le> l \<Longrightarrow> l < j \<Longrightarrow> ir < length ids \<Longrightarrow> guarded l ir ids \<Longrightarrow> sorted_on l (j - 1) ids \<Longrightarrow> j \<le> Suc ir \<Longrightarrow>
     \<exists>ids'. insertion_sort ids j ir = Some ids' \<and> perm_in l ir ids ids' \<and> sorted_on l ir ids'"
proof (induction ids j ir rule: insertion_sort.induct)
  case (1 ids j ir)
  show ?case
  proof (cases "j \<le> ir")
    case False
    then show ?thesis using "1.prems" by (subst insertion_sort.simps) (simp add: le_Suc_eq)
  next
    case True
    then have g: "get_cell ids j = Some (ids ! j)" using "1.prems"(3) by (simp add: mem_simps)
    have "hole_inv l (Suc (j - 1)) j (ids ! j) ids"
      using "1.prems" True by (auto simp: hole_inv_def sorted_on_def guarded_def)
    then obtain ids1 where i: "insert_loop ids (ids ! j) (j - 1) = Some ids1" "perm_in l j ids ids1" "sorted_on l j ids1"
      using insert_loop_ok "1.prems"(2) by fastforce
    have p: "perm_in l ir ids ids1" using perm_in_mono [OF i(2)] True by simp
    have "guarded l ir ids1" using guarded_perm [OF "1.prems"(4) p "1.prems"(1)] .
    then obtain ids' where "insertion_sort ids1 (j + 1) ir = Some ids'" "perm_in l ir ids1 ids'" "sorted_on l ir ids'"
      using "1.IH" [OF True g i(1) "1.prems"(1)] "1.prems"(2,3) i(3) True perm_in_length [OF p] by auto
    then show ?thesis using g i(1) True perm_in_trans [OF p] by (subst insertion_sort.simps) auto
  qed
qed

subsection \<open>Partition\<close>

lemma scan_up_ok:
  "i < k \<Longrightarrow> k < length ids \<Longrightarrow> ids ! k \<le> a \<Longrightarrow>
     \<exists>i'. scan_up ids a i = Some i' \<and> i < i' \<and> i' \<le> k \<and> ids ! i' \<le> a \<and> (\<forall>q. i < q \<and> q < i' \<longrightarrow> a < ids ! q)"
proof (induction ids a i rule: scan_up.induct)
  case (1 ids a i)
  show ?case
  proof (cases "a < ids ! (i + 1)")
    case False
    then show ?thesis using "1.prems" by (subst scan_up.simps) auto
  next
    case True
    then have "k \<noteq> i + 1" using "1.prems"(3) by auto
    then obtain i' where i: "scan_up ids a (i + 1) = Some i'" "i + 1 < i'" "i' \<le> k" "ids ! i' \<le> a"
      "\<forall>q. i + 1 < q \<and> q < i' \<longrightarrow> a < ids ! q"
      using "1.IH" True "1.prems" by auto
    then have "a < ids ! q" if "i < q" "q < i'" for q using True that by (cases "q = i + 1") auto
    then show ?thesis using True "1.prems" i by (subst scan_up.simps) auto
  qed
qed

lemma scan_down_ok:
  "k < j \<Longrightarrow> j \<le> length ids \<Longrightarrow> a \<le> ids ! k \<Longrightarrow>
     \<exists>j'. scan_down ids a j = Some j' \<and> j' < j \<and> k \<le> j' \<and> a \<le> ids ! j' \<and> (\<forall>q. j' < q \<and> q < j \<longrightarrow> ids ! q < a)"
proof (induction j)
  case (Suc j)
  show ?case
  proof (cases "ids ! j < a")
    case False
    then show ?thesis using Suc.prems by (auto simp: mem_simps)
  next
    case True
    then have "k \<noteq> j" using Suc.prems(3) by auto
    then obtain j' where j: "scan_down ids a j = Some j'" "j' < j" "k \<le> j'" "a \<le> ids ! j'" "\<forall>q. j' < q \<and> q < j \<longrightarrow> ids ! q < a"
      using Suc.IH Suc.prems by auto
    then have "ids ! q < a" if "j' < q" "q < Suc j" for q using True that by (cases "q = j") auto
    then show ?thesis using True Suc.prems j by (auto simp: mem_simps)
  qed
qed simp

text \<open>
  The pivot \<open>a\<close> is at \<open>l + 1\<close>. Up to \<open>i\<close> the cells are not smaller, from \<open>j\<close> on not greater, so both scans
  stop inside the segment.
\<close>

definition part_inv :: "nat \<Rightarrow> nat \<Rightarrow> mdb_id \<Rightarrow> nat \<Rightarrow> nat \<Rightarrow> mdb_id list \<Rightarrow> bool" where
  "part_inv l ir a i j ids \<longleftrightarrow> ir < length ids \<and> l + 1 \<le> i \<and> i \<le> j \<and> j \<le> ir \<and> l + 1 < j \<and> i < ir \<and>
     (\<forall>k. l + 1 \<le> k \<and> k \<le> i \<longrightarrow> a \<le> ids ! k) \<and> (\<forall>k. j \<le> k \<and> k \<le> ir \<longrightarrow> ids ! k \<le> a)"

text \<open>What the scans give, before the swap.\<close>

lemma part_scans:
  assumes inv: "part_inv l ir a i j ids"
  shows "\<exists>i' j'. scan_up ids a i = Some i' \<and> scan_down ids a j = Some j' \<and> i < i' \<and> i' \<le> ir \<and> l + 1 \<le> j' \<and> j' < j \<and>
    ids ! i' \<le> a \<and> a \<le> ids ! j' \<and> (\<forall>k. l + 1 \<le> k \<and> k < i' \<longrightarrow> a \<le> ids ! k) \<and> (\<forall>k. j' < k \<and> k \<le> ir \<longrightarrow> ids ! k \<le> a)"
proof -
  note b = inv [unfolded part_inv_def]
  let ?k = "if i < j then j else i + 1" and ?k' = "if i < j then i else j - 1"
  have k: "i < ?k" "?k < length ids" "ids ! ?k \<le> a" using b by auto
  obtain i' where i: "scan_up ids a i = Some i'" "i < i'" "i' \<le> ?k" "ids ! i' \<le> a" "\<forall>q. i < q \<and> q < i' \<longrightarrow> a < ids ! q"
    using scan_up_ok [OF k] by blast
  have k': "?k' < j" "j \<le> length ids" "a \<le> ids ! ?k'" using b by auto
  obtain j' where j: "scan_down ids a j = Some j'" "j' < j" "?k' \<le> j'" "a \<le> ids ! j'" "\<forall>q. j' < q \<and> q < j \<longrightarrow> ids ! q < a"
    using scan_down_ok [OF k'] by blast
  have "a \<le> ids ! k" if "l + 1 \<le> k" "k < i'" for k
    using b i(5) that by (cases "k \<le> i") (auto simp: less_imp_le)
  moreover have "ids ! k \<le> a" if "j' < k" "k \<le> ir" for k
    using b j(5) that by (cases "j \<le> k") (auto simp: less_imp_le)
  ultimately show ?thesis using i j b by (auto split: if_splits)
qed

lemma part_inv_swap:
  assumes inv: "part_inv l ir a i j ids" and s: "i < i'" "i' \<le> j'" "j' < j" "ids ! i' \<le> a" "a \<le> ids ! j'"
    "\<forall>k. l + 1 \<le> k \<and> k < i' \<longrightarrow> a \<le> ids ! k" "\<forall>k. j' < k \<and> k \<le> ir \<longrightarrow> ids ! k \<le> a"
  shows "part_inv l ir a i' j' (ids[i' := ids ! j', j' := ids ! i'])"
proof -
  let ?ids = "ids[i' := ids ! j', j' := ids ! i']"
  note b = inv [unfolded part_inv_def]
  have i: "i' < length ids" "j' < length ids" using b s by auto
  have "a \<le> ?ids ! k" if "l + 1 \<le> k" "k \<le> i'" for k
    using s that i by (cases "k = i'") (auto simp: nth_list_update)
  moreover have "?ids ! k \<le> a" if "j' \<le> k" "k \<le> ir" for k
    using s that i by (cases "k = j'") (auto simp: nth_list_update)
  ultimately show ?thesis using b s unfolding part_inv_def by auto
qed

lemma partition_loop_ok:
  "part_inv l ir a i j ids \<Longrightarrow>
     \<exists>ids' i' j'. partition_loop ids a i j = Some (ids', i', j') \<and> perm_in (l + 2) ir ids ids' \<and>
       l + 1 \<le> j' \<and> j' < i' \<and> i' \<le> ir \<and>
       (\<forall>k. l + 1 \<le> k \<and> k < i' \<longrightarrow> a \<le> ids' ! k) \<and> (\<forall>k. j' < k \<and> k \<le> ir \<longrightarrow> ids' ! k \<le> a)"
proof (induction ids a i j rule: partition_loop.induct)
  case (1 ids a i j)
  note b = "1.prems" [unfolded part_inv_def]
  obtain i' j' where s: "scan_up ids a i = Some i'" "scan_down ids a j = Some j'" "i < i'" "i' \<le> ir" "l + 1 \<le> j'" "j' < j"
    "ids ! i' \<le> a" "a \<le> ids ! j'" "\<forall>k. l + 1 \<le> k \<and> k < i' \<longrightarrow> a \<le> ids ! k" "\<forall>k. j' < k \<and> k \<le> ir \<longrightarrow> ids ! k \<le> a"
    using part_scans [OF "1.prems"] by blast
  show ?case
  proof (cases "j' < i'")
    case True
    then show ?thesis using s by (subst partition_loop.simps) auto
  next
    case False
    let ?ids = "ids[i' := ids ! j', j' := ids ! i']"
    have w: "swap_cells ids i' j' = Some ?ids" using b s False by (intro swap_cells_eq) auto
    have "part_inv l ir a i' j' ?ids"
      using part_inv_swap [OF "1.prems" s(3) _ s(6-10)] False by simp
    moreover have "perm_in (l + 2) ir ids ?ids" using b s False by (intro perm_in_swap) auto
    moreover have "partition_loop ids a i j = partition_loop ?ids a i' j'"
      using s(1,2) w False by (subst partition_loop.simps) simp
    ultimately show ?thesis using "1.IH" [OF s(1,2) False w] perm_in_trans by fastforce
  qed
qed

subsection \<open>Splitting a segment\<close>

lemma swap_less_ok:
  assumes "l \<le> i" "i \<le> r" "l \<le> j" "j \<le> r" "r < length ids" "i \<noteq> j"
  shows "\<exists>ids'. swap_less ids i j = Some ids' \<and> perm_in l r ids ids' \<and> ids' ! j \<le> ids' ! i \<and>
    (\<forall>k. k \<noteq> i \<and> k \<noteq> j \<longrightarrow> ids' ! k = ids ! k) \<and> ids' ! i = max (ids ! i) (ids ! j) \<and> ids' ! j = min (ids ! i) (ids ! j)"
proof (cases "ids ! i < ids ! j")
  case True
  then have "swap_less ids i j = Some (ids[i := ids ! j, j := ids ! i])"
    using assms by (simp add: swap_less_def mem_simps swap_cells_eq)
  then show ?thesis
    using perm_in_swap [OF assms(1-5)] True assms by (simp add: nth_list_update max_def min_def)
next
  case False
  then show ?thesis using assms by (auto simp: swap_less_def mem_simps max_def min_def)
qed

lemma median_ok:
  assumes "l + SMALL \<le> ir" "ir < length ids"
  shows "\<exists>ids4. do { ids1 \<leftarrow> swap_cells ids ((l + ir) div 2) (l + 1); ids2 \<leftarrow> swap_less ids1 l ir;
      ids3 \<leftarrow> swap_less ids2 (l + 1) ir; swap_less ids3 l (l + 1) } = Some ids4 \<and> perm_in l ir ids ids4 \<and>
    ids4 ! ir \<le> ids4 ! (l + 1) \<and> ids4 ! (l + 1) \<le> ids4 ! l"
proof -
  have n: "l \<le> (l + ir) div 2" "(l + ir) div 2 \<le> ir" "l + 1 < ir" using assms by (auto simp: SMALL_def)
  let ?ids1 = "ids[(l + ir) div 2 := ids ! (l + 1), l + 1 := ids ! ((l + ir) div 2)]"
  have 1: "swap_cells ids ((l + ir) div 2) (l + 1) = Some ?ids1" "perm_in l ir ids ?ids1"
    using n assms(2) by (auto intro!: swap_cells_eq perm_in_swap)
  obtain ids2 where 2: "swap_less ?ids1 l ir = Some ids2" "perm_in l ir ?ids1 ids2" "ids2 ! ir \<le> ids2 ! l"
    using swap_less_ok [of l l ir ir ?ids1] n assms(2) by auto
  obtain ids3 where 3: "swap_less ids2 (l + 1) ir = Some ids3" "perm_in l ir ids2 ids3" "ids3 ! ir \<le> ids3 ! (l + 1)"
    "ids3 ! l = ids2 ! l" "ids3 ! ir = min (ids2 ! (l + 1)) (ids2 ! ir)"
    using swap_less_ok [of l "l + 1" ir ir ids2] n assms(2) perm_in_length [OF 2(2)] by auto
  obtain ids4 where 4: "swap_less ids3 l (l + 1) = Some ids4" "perm_in l ir ids3 ids4" "ids4 ! (l + 1) \<le> ids4 ! l"
    "ids4 ! ir = ids3 ! ir" "ids4 ! (l + 1) = min (ids3 ! l) (ids3 ! (l + 1))"
    using swap_less_ok [of l l ir "l + 1" ids3] n assms(2) perm_in_length [OF 2(2)] perm_in_length [OF 3(2)] by auto
  have "ids4 ! ir \<le> ids4 ! (l + 1)" using 2(3) 3(3-5) 4(4,5) by (auto simp: min_def)
  moreover have "perm_in l ir ids ids4" using 1(2) 2(2) 3(2) 4(2) by (meson perm_in_trans)
  ultimately show ?thesis using 1 2 3 4 by auto
qed

lemma split_segment_ok:
  assumes n: "l + SMALL \<le> ir" "ir < length ids"
  shows "\<exists>ids' i j a. split_segment ids l ir = Some (ids', i, j) \<and> perm_in l ir ids ids' \<and>
    l < j \<and> j < i \<and> i \<le> ir \<and> (\<forall>k. l \<le> k \<and> k < i \<longrightarrow> a \<le> ids' ! k) \<and> (\<forall>k. j \<le> k \<and> k \<le> ir \<longrightarrow> ids' ! k \<le> a)"
proof -
  obtain ids4 where m: "do { ids1 \<leftarrow> swap_cells ids ((l + ir) div 2) (l + 1); ids2 \<leftarrow> swap_less ids1 l ir;
      ids3 \<leftarrow> swap_less ids2 (l + 1) ir; swap_less ids3 l (l + 1) } = Some ids4" "perm_in l ir ids ids4"
    "ids4 ! ir \<le> ids4 ! (l + 1)" "ids4 ! (l + 1) \<le> ids4 ! l"
    using median_ok [OF n] by blast
  let ?a = "ids4 ! (l + 1)"
  have n': "l + 1 < ir" "ir < length ids4" using n perm_in_length [OF m(2)] by (auto simp: SMALL_def)
  have "part_inv l ir ?a (l + 1) ir ids4" using n' m(3) by (auto simp: part_inv_def le_antisym)
  then obtain ids5 i j where p: "partition_loop ids4 ?a (l + 1) ir = Some (ids5, i, j)" "perm_in (l + 2) ir ids4 ids5"
    "l + 1 \<le> j" "j < i" "i \<le> ir" "\<forall>k. l + 1 \<le> k \<and> k < i \<longrightarrow> ?a \<le> ids5 ! k" "\<forall>k. j < k \<and> k \<le> ir \<longrightarrow> ids5 ! k \<le> ?a"
    using partition_loop_ok by blast
  let ?ids = "ids5[l + 1 := ids5 ! j, j := ids5 ! (l + 1)]"
  have o: "ids5 ! (l + 1) = ?a" "ids5 ! l = ids4 ! l" "length ids5 = length ids4"
    using perm_in_out [OF p(2)] perm_in_length [OF p(2)] by auto
  have "split_segment ids l ir = Some (?ids, i, j)"
    using m(1) p n' o by (auto simp: split_segment_def mem_simps bind_eq_Some_conv)
  moreover have "perm_in l ir ids ?ids"
    using perm_in_trans [OF m(2) perm_in_trans [OF perm_in_mono [OF p(2)] perm_in_swap]] p(3-5) n' o(3) by auto
  moreover have "?a \<le> ?ids ! k" if "l \<le> k" "k < i" for k
    using p(3-6) m(4) o that n' by (cases "k = l") (auto simp: nth_list_update)
  moreover have "?ids ! k \<le> ?a" if "j \<le> k" "k \<le> ir" for k
    using p(3-5,7) o that n' by (auto simp: nth_list_update)
  ultimately show ?thesis using p(3-5) by auto
qed

section \<open>The segments that are still to sort\<close>

definition seg_mem :: "nat \<Rightarrow> nat \<times> nat \<Rightarrow> bool" where
  "seg_mem k s \<longleftrightarrow> fst s \<le> k \<and> k \<le> snd s"

definition seg_apart :: "nat \<times> nat \<Rightarrow> nat \<times> nat \<Rightarrow> bool" where
  "seg_apart s t \<longleftrightarrow> snd s < fst t \<or> snd t < fst s"

text \<open>Two cells are in order unless they lie in one segment; segments lie in the list and apart.\<close>

definition seg_inv :: "nat \<Rightarrow> (nat \<times> nat) list \<Rightarrow> mdb_id list \<Rightarrow> bool" where
  "seg_inv n ss ids \<longleftrightarrow> n < length ids \<and> (\<forall>s \<in> set ss. 1 \<le> fst s \<and> snd s \<le> n) \<and>
     sorted_wrt seg_apart ss \<and>
     (\<forall>p q. 1 \<le> p \<and> p < q \<and> q \<le> n \<and> \<not> (\<exists>s \<in> set ss. seg_mem p s \<and> seg_mem q s) \<longrightarrow> ids ! q \<le> ids ! p)"

lemma seg_inv_Cons:
  "seg_inv n (s # ss) ids \<longleftrightarrow> n < length ids \<and> 1 \<le> fst s \<and> snd s \<le> n \<and> (\<forall>t \<in> set ss. 1 \<le> fst t \<and> snd t \<le> n \<and> seg_apart s t) \<and>
     sorted_wrt seg_apart ss \<and>
     (\<forall>p q. 1 \<le> p \<and> p < q \<and> q \<le> n \<and> \<not> (seg_mem p s \<and> seg_mem q s) \<and> \<not> (\<exists>t \<in> set ss. seg_mem p t \<and> seg_mem q t) \<longrightarrow>
        ids ! q \<le> ids ! p)"
  unfolding seg_inv_def by (simp add: ball_conj_distrib conj_ac)

lemma seg_inv_order:
  assumes "seg_inv n (s # ss) ids" and "1 \<le> p" "p < q" "q \<le> n" and "\<not> (seg_mem p s \<and> seg_mem q s)"
    and "\<And>t. t \<in> set ss \<Longrightarrow> \<not> (seg_mem p t \<and> seg_mem q t)"
  shows "ids ! q \<le> ids ! p"
  using assms unfolding seg_inv_Cons by blast

lemma seg_inv_apart: "seg_inv n (s # ss) ids \<Longrightarrow> t \<in> set ss \<Longrightarrow> seg_apart s t"
  by (simp add: seg_inv_Cons)

lemma perm_in_source:
  assumes p: "perm_in (fst s) (snd s) xs ys"
  shows "\<exists>x'. ys ! x = xs ! x' \<and> (if seg_mem x s then seg_mem x' s else x' = x)"
  using perm_in_in [OF p, of x] perm_in_out [OF p, of x] by (cases "seg_mem x s") (auto simp: seg_mem_def)

lemma seg_apart_sym: "seg_apart s t \<longleftrightarrow> seg_apart t s"
  by (auto simp: seg_apart_def)

text \<open>Permuting the cells of the first segment keeps the order with the cells outside.\<close>

lemma seg_inv_perm:
  assumes inv: "seg_inv n (s # ss) ids" and p: "perm_in (fst s) (snd s) ids ids'"
  shows "seg_inv n (s # ss) ids'"
proof -
  note i = inv [unfolded seg_inv_Cons]
  have "ids' ! y \<le> ids' ! x" if x: "1 \<le> x" "x < y" "y \<le> n" "\<not> (seg_mem x s \<and> seg_mem y s)"
    and t: "\<not> (\<exists>t \<in> set ss. seg_mem x t \<and> seg_mem y t)" for x y
  proof -
    obtain x' where x': "ids' ! x = ids ! x'" "if seg_mem x s then seg_mem x' s else x' = x"
      using perm_in_source [OF p] by blast
    obtain y' where y': "ids' ! y = ids ! y'" "if seg_mem y s then seg_mem y' s else y' = y"
      using perm_in_source [OF p] by blast
    have o: "1 \<le> x' \<and> x' < y' \<and> y' \<le> n \<and> \<not> (seg_mem x' s \<and> seg_mem y' s)"
      using x x'(2) y'(2) i by (auto simp: seg_mem_def split: if_splits)
    moreover have "\<not> (seg_mem x' t \<and> seg_mem y' t)" if "t \<in> set ss" for t
    proof
      assume m: "seg_mem x' t \<and> seg_mem y' t"
      have "seg_apart s t" using seg_inv_apart [OF inv that] .
      then have "\<not> seg_mem x s" "\<not> seg_mem y s" using m x'(2) y'(2) by (auto simp: seg_apart_def seg_mem_def split: if_splits)
      then show False using m t that x'(2) y'(2) by auto
    qed
    ultimately show ?thesis using seg_inv_order [OF inv, of x' y'] x'(1) y'(1) by simp
  qed
  then show ?thesis using i perm_in_length [OF p] unfolding seg_inv_Cons by simp
qed

lemma seg_inv_sorted:
  assumes "seg_inv n (s # ss) ids" and "sorted_on (fst s) (snd s) ids"
  shows "seg_inv n ss ids"
proof -
  have "ids ! q \<le> ids ! p" if p: "1 \<le> p" "p < q" "q \<le> n" "\<not> (\<exists>t \<in> set ss. seg_mem p t \<and> seg_mem q t)" for p q
  proof (cases "seg_mem p s \<and> seg_mem q s")
    case True
    then show ?thesis using assms(2) p by (simp add: sorted_on_def seg_mem_def)
  next
    case False
    then show ?thesis using seg_inv_order [OF assms(1) p(1-3)] p(4) by blast
  qed
  then show ?thesis using assms(1) unfolding seg_inv_Cons unfolding seg_inv_def by blast
qed

lemma seg_inv_guarded:
  assumes inv: "seg_inv n (s # ss) ids"
  shows "guarded (fst s) (snd s) ids"
  unfolding guarded_def
proof (intro impI allI)
  fix k assume l: "1 < fst s" and k: "fst s \<le> k \<and> k \<le> snd s"
  note i = inv [unfolded seg_inv_Cons]
  have "\<not> (seg_mem (fst s - 1) t \<and> seg_mem k t)" if "t \<in> set ss" for t
  proof -
    have "seg_apart s t" using seg_inv_apart [OF inv that] .
    then show ?thesis using k by (auto simp: seg_apart_def seg_mem_def)
  qed
  moreover have "\<not> seg_mem (fst s - 1) s" "1 \<le> fst s - 1" "fst s - 1 < k" "k \<le> n"
    using l k i by (auto simp: seg_mem_def)
  ultimately show "ids ! k \<le> ids ! (fst s - 1)" using seg_inv_order [OF inv] by blast
qed

lemma seg_inv_swap: "seg_inv n (s # t # ss) ids \<longleftrightarrow> seg_inv n (t # s # ss) ids"
proof -
  have "seg_apart s t = seg_apart t s" by (rule seg_apart_sym)
  then have e: "sorted_wrt seg_apart (s # t # ss) = sorted_wrt seg_apart (t # s # ss)" "set (s # t # ss) = set (t # s # ss)"
    unfolding sorted_wrt.simps list.set by blast+
  show ?thesis unfolding seg_inv_def e by (rule refl)
qed

text \<open>After a split, the two sides replace the segment.\<close>

lemma seg_inv_split:
  assumes inv: "seg_inv n ((l, r) # ss) ids" and j: "l < j" "j < i" "i \<le> r"
    and a: "\<forall>k. l \<le> k \<and> k < i \<longrightarrow> a \<le> ids ! k" "\<forall>k. j \<le> k \<and> k \<le> r \<longrightarrow> ids ! k \<le> a"
  shows "seg_inv n ((l, j - 1) # (i, r) # ss) ids"
proof -
  note b = inv [unfolded seg_inv_Cons]
  have o: "ids ! q \<le> ids ! p" if p: "1 \<le> p" "p < q" "q \<le> n" "\<not> (seg_mem p (l, j - 1) \<and> seg_mem q (l, j - 1))"
    "\<not> (seg_mem p (i, r) \<and> seg_mem q (i, r))" "\<And>t. t \<in> set ss \<Longrightarrow> \<not> (seg_mem p t \<and> seg_mem q t)" for p q
  proof (cases "seg_mem p (l, r) \<and> seg_mem q (l, r)")
    case True
    then have "l \<le> p" "p < i" "j \<le> q" "q \<le> r" using p(2,4,5) j by (auto simp: seg_mem_def)
    then have "ids ! q \<le> a" "a \<le> ids ! p" using a by auto
    then show ?thesis by simp
  next
    case False
    then show ?thesis using seg_inv_order [OF inv p(1-3)] p(6) by blast
  qed
  have t: "seg_apart (l, j - 1) t \<and> seg_apart (i, r) t" if "t \<in> set ss" for t
    using seg_inv_apart [OF inv that] j by (auto simp: seg_apart_def)
  show ?thesis unfolding seg_inv_def
  proof (intro conjI allI impI)
    show "sorted_wrt seg_apart ((l, j - 1) # (i, r) # ss)" using b t j by (simp add: seg_apart_def)
    fix p q assume h: "1 \<le> p \<and> p < q \<and> q \<le> n \<and> \<not> (\<exists>s \<in> set ((l, j - 1) # (i, r) # ss). seg_mem p s \<and> seg_mem q s)"
    show "ids ! q \<le> ids ! p" by (rule o) (use h in simp_all)
  qed (use b j in auto)
qed

lemma sorted_on_single: "sorted_on l l ids"
  by (auto simp: sorted_on_def)

lemma small_segment:
  assumes inv: "seg_inv n (s # ss) ids"
  shows "\<exists>ids'. insertion_sort ids (fst s + 1) (snd s) = Some ids' \<and> perm_in (fst s) (snd s) ids ids' \<and> seg_inv n ss ids'"
proof -
  have b: "1 \<le> fst s" "snd s < length ids" using inv by (auto simp: seg_inv_Cons)
  have "\<exists>ids'. insertion_sort ids (fst s + 1) (snd s) = Some ids' \<and> perm_in (fst s) (snd s) ids ids' \<and> sorted_on (fst s) (snd s) ids'"
  proof (cases "fst s \<le> snd s")
    case True
    then show ?thesis
      using insertion_sort_ok [OF b(1) _ b(2) seg_inv_guarded [OF inv], of "fst s + 1"] sorted_on_single [of "fst s" ids] by simp
  next
    case False
    then show ?thesis by (subst insertion_sort.simps) (auto simp: sorted_on_def)
  qed
  then show ?thesis using seg_inv_sorted [OF seg_inv_perm [OF inv]] by blast
qed

subsection \<open>The stack\<close>

definition seg_size :: "nat \<times> nat \<Rightarrow> nat" where
  "seg_size s = Suc (snd s) - fst s"

text \<open>The segments on the stack, its top first.\<close>

fun stack_rep :: "nat list \<Rightarrow> (nat \<times> nat) list \<Rightarrow> bool" where
  "stack_rep st [] \<longleftrightarrow> True"
| "stack_rep st (s # ss) \<longleftrightarrow> st ! (2 * length ss + 1) = fst s \<and> st ! (2 * length ss + 2) = snd s \<and> stack_rep st ss"

lemma stack_rep_upd: "2 * length ss < i \<Longrightarrow> stack_rep (st[i := v]) ss = stack_rep st ss"
  by (induction ss) auto

text \<open>The smaller side of a split is sorted first: a segment above \<open>d\<close> others has at most \<open>n / 2 ^ d\<close> cells.\<close>

fun depth_ok :: "nat \<Rightarrow> (nat \<times> nat) list \<Rightarrow> bool" where
  "depth_ok n [] \<longleftrightarrow> True"
| "depth_ok n (s # ss) \<longleftrightarrow> seg_size s * 2 ^ length ss \<le> n \<and> depth_ok n ss"

lemma depth_ok_push:
  assumes "depth_ok n (s # ss)" and "2 * seg_size t \<le> seg_size s" and "seg_size u \<le> seg_size s"
  shows "depth_ok n (t # u # ss)"
proof -
  have n: "seg_size s * 2 ^ length ss \<le> n" using assms(1) by simp
  have "seg_size u * 2 ^ length ss \<le> n" using order_trans [OF mult_le_mono1 [OF assms(3)] n] .
  moreover have "2 * seg_size t * 2 ^ length ss \<le> n" using order_trans [OF mult_le_mono1 [OF assms(2)] n] .
  moreover have "2 * seg_size t * 2 ^ length ss = seg_size t * 2 ^ length (u # ss)" by simp
  ultimately show ?thesis using assms(1) by (simp only: depth_ok.simps simp_thms)
qed

lemma depth_ok_room:
  assumes "depth_ok n (s # ss)" and "n < 2 ^ 30" and "1 \<le> seg_size s"
  shows "length ss < 30"
proof -
  have "2 ^ length ss \<le> seg_size s * 2 ^ length ss" using assms(3) by simp
  also have "\<dots> \<le> n" using assms(1) by simp
  finally have "(2 :: nat) ^ length ss < 2 ^ 30" using assms(2) by (rule le_less_trans)
  then show ?thesis by (rule power_less_imp_less_exp [rotated]) simp
qed

definition seg_work :: "(nat \<times> nat) list \<Rightarrow> nat" where
  "seg_work ss = sum_list (map (\<lambda>s. 2 * seg_size s + 1) ss)"

lemma push_ok:
  assumes "length st = 64" and "length ss < 30" and "stack_rep st ss"
  shows "\<exists>st'. do { st1 \<leftarrow> set_cell st (2 * length ss + 2) (snd u); set_cell st1 (2 * length ss + 1) (fst u) } = Some st' \<and>
    length st' = 64 \<and> stack_rep st' (u # ss)"
  using assms by (simp add: mem_simps stack_rep_upd)

subsection \<open>The outer loop\<close>

definition loop_inv :: "nat \<Rightarrow> nat list \<Rightarrow> nat \<times> nat \<Rightarrow> (nat \<times> nat) list \<Rightarrow> mdb_id list \<Rightarrow> bool" where
  "loop_inv n st s ss ids \<longleftrightarrow> seg_inv n (s # ss) ids \<and> depth_ok n (s # ss) \<and> n < 2 ^ 30 \<and>
     length st = 64 \<and> stack_rep st ss \<and> length ss \<le> 30"

text \<open>One iteration ends the loop or goes on with less work.\<close>

lemma sort_loop_small:
  assumes "ir < l + SMALL" and "insertion_sort ids (l + 1) ir = Some ids'"
  shows "sort_loop ids st 0 l ir = Some ids'"
    and "j + 2 < length st \<Longrightarrow> sort_loop ids st (j + 2) l ir = sort_loop ids' st j (st ! (j + 1)) (st ! (j + 2))"
  by (subst sort_loop.simps, use assms in \<open>simp add: mem_simps\<close>)+

lemma sort_pop:
  assumes inv: "loop_inv n st s (t # ts) ids" and small: "snd s < fst s + SMALL"
  shows "\<exists>ids'. perm_in (fst s) (snd s) ids ids' \<and> loop_inv n st t ts ids' \<and>
    sort_loop ids st (2 * length ts + 2) (fst s) (snd s) = sort_loop ids' st (2 * length ts) (fst t) (snd t)"
proof -
  note b = inv [unfolded loop_inv_def]
  obtain ids' where i: "insertion_sort ids (fst s + 1) (snd s) = Some ids'" "perm_in (fst s) (snd s) ids ids'"
    "seg_inv n (t # ts) ids'"
    using small_segment b by blast
  have "2 * length ts + 2 < length st" using b by simp
  then show ?thesis using i b sort_loop_small(2) [OF small i(1)] by (intro exI [of _ ids']) (simp add: loop_inv_def)
qed

lemma sort_loop_split:
  assumes "l + SMALL \<le> ir" and "l + ir < 2 ^ 31" and "split_segment ids l ir = Some (ids', i, j)" and "l < j"
  shows "int j - int l \<le> int ir - int i + 1 \<Longrightarrow>
      do { st1 \<leftarrow> set_cell st (jst + 2) ir; set_cell st1 (jst + 1) i } = Some st' \<Longrightarrow>
      sort_loop ids st jst l ir = sort_loop ids' st' (jst + 2) l (j - 1)"
    and "\<not> int j - int l \<le> int ir - int i + 1 \<Longrightarrow>
      do { st1 \<leftarrow> set_cell st (jst + 2) (j - 1); set_cell st1 (jst + 1) l } = Some st' \<Longrightarrow>
      sort_loop ids st jst l ir = sort_loop ids' st' (jst + 2) i ir"
  by (subst sort_loop.simps, use assms in \<open>auto simp: bind_eq_Some_conv\<close>)+

lemma sort_push:
  assumes inv: "loop_inv n st s ss ids" and big: "fst s + SMALL \<le> snd s"
  shows "\<exists>ids' st' t u. perm_in (fst s) (snd s) ids ids' \<and> loop_inv n st' t (u # ss) ids' \<and>
    seg_size t + seg_size u < seg_size s \<and>
    sort_loop ids st (2 * length ss) (fst s) (snd s) = sort_loop ids' st' (2 * length ss + 2) (fst t) (snd t)"
proof -
  note b = inv [unfolded loop_inv_def]
  obtain l r where s: "s = (l, r)" by (cases s)
  have r: "r < length ids" "l + r < 2 ^ 31" using b s big by (auto simp: seg_inv_Cons)
  have d: "length ss < 30" using depth_ok_room [of n s ss] b big s by (auto simp: seg_size_def)
  obtain ids' i j a where c: "split_segment ids l r = Some (ids', i, j)" "perm_in l r ids ids'" "l < j" "j < i" "i \<le> r"
    "\<forall>k. l \<le> k \<and> k < i \<longrightarrow> a \<le> ids' ! k" "\<forall>k. j \<le> k \<and> k \<le> r \<longrightarrow> ids' ! k \<le> a"
    using split_segment_ok [of l r ids] big s r(1) by auto
  have g: "seg_inv n ((l, j - 1) # (i, r) # ss) ids'"
    using seg_inv_split [OF _ c(3-7)] seg_inv_perm [of n s ss ids ids'] b s c(2) by simp
  have z: "seg_size (l, j - 1) = j - l" "seg_size (i, r) = Suc r - i" "seg_size s = Suc r - l"
    using c(3-5) s by (auto simp: seg_size_def)
  have zz: "seg_size (l, j - 1) + seg_size (i, r) < seg_size s" using z c(3-5) by simp
  have p: "perm_in (fst s) (snd s) ids ids'" using c(2) s by simp
  note g' = seg_inv_swap [THEN iffD1, OF g]
  note e = sort_loop_split [OF _ r(2) c(1,3), of st "2 * length ss"]
  show ?thesis
  proof (cases "int j - int l \<le> int r - int i + 1")
    case True
    obtain st' where st: "do { st1 \<leftarrow> set_cell st (2 * length ss + 2) r; set_cell st1 (2 * length ss + 1) i } = Some st'"
      "length st' = 64" "stack_rep st' ((i, r) # ss)"
      using push_ok [of st ss "(i, r)"] b d by auto
    have "2 * seg_size (l, j - 1) \<le> seg_size s" "seg_size (i, r) \<le> seg_size s" using z True c(3-5) by auto
    then have "loop_inv n st' (l, j - 1) ((i, r) # ss) ids'"
      using depth_ok_push [of n s ss] st(2,3) g d b unfolding loop_inv_def by simp
    moreover have "sort_loop ids st (2 * length ss) l r = sort_loop ids' st' (2 * length ss + 2) l (j - 1)"
      using e(1) [OF _ True st(1)] big s by simp
    ultimately show ?thesis using p zz s
      by (intro exI [of _ ids'] exI [of _ st'] exI [of _ "(l, j - 1)"] exI [of _ "(i, r)"]) simp
  next
    case False
    obtain st' where st: "do { st1 \<leftarrow> set_cell st (2 * length ss + 2) (j - 1); set_cell st1 (2 * length ss + 1) l } = Some st'"
      "length st' = 64" "stack_rep st' ((l, j - 1) # ss)"
      using push_ok [of st ss "(l, j - 1)"] b d by auto
    have "2 * seg_size (i, r) \<le> seg_size s" "seg_size (l, j - 1) \<le> seg_size s" using z False c(3-5) by auto
    then have "loop_inv n st' (i, r) ((l, j - 1) # ss) ids'"
      using depth_ok_push [of n s ss] st(2,3) g' d b unfolding loop_inv_def by simp
    moreover have "sort_loop ids st (2 * length ss) l r = sort_loop ids' st' (2 * length ss + 2) i r"
      using e(2) [OF _ False st(1)] big s by simp
    ultimately show ?thesis using p zz s
      by (intro exI [of _ ids'] exI [of _ st'] exI [of _ "(i, r)"] exI [of _ "(l, j - 1)"]) simp
  qed
qed

lemma loop_inv_bounds: "loop_inv n st s ss ids \<Longrightarrow> 1 \<le> fst s \<and> snd s \<le> n"
  by (simp add: loop_inv_def seg_inv_Cons)

lemma seg_work_Cons: "seg_work (s # ss) = 2 * seg_size s + 1 + seg_work ss"
  by (simp add: seg_work_def)

lemma sort_loop_ok:
  "loop_inv n st s ss ids \<Longrightarrow>
     \<exists>ids'. sort_loop ids st (2 * length ss) (fst s) (snd s) = Some ids' \<and> perm_in 1 n ids ids' \<and> seg_inv n [] ids'"
proof (induction "seg_work (s # ss)" arbitrary: s ss ids st rule: less_induct)
  case less
  have w: "perm_in (fst s) (snd s) ids ids' \<Longrightarrow> perm_in 1 n ids ids'" for ids'
    using perm_in_mono loop_inv_bounds [OF less.prems] by blast
  show ?case
  proof (cases "snd s < fst s + SMALL")
    case small: True
    show ?thesis
    proof (cases ss)
      case Nil
      obtain ids' where "insertion_sort ids (fst s + 1) (snd s) = Some ids'" "perm_in (fst s) (snd s) ids ids'" "seg_inv n [] ids'"
        using small_segment [of n s ss ids] less.prems Nil unfolding loop_inv_def by blast
      then show ?thesis using sort_loop_small(1) [OF small] w Nil by auto
    next
      case (Cons t ts)
      obtain ids1 where i: "perm_in (fst s) (snd s) ids ids1" "loop_inv n st t ts ids1"
        "sort_loop ids st (2 * length ts + 2) (fst s) (snd s) = sort_loop ids1 st (2 * length ts) (fst t) (snd t)"
        using sort_pop [OF less.prems [unfolded Cons] small] by blast
      have "seg_work (t # ts) < seg_work (s # ss)" using Cons by (simp add: seg_work_Cons)
      then show ?thesis using less.hyps [OF _ i(2)] i(3) perm_in_trans [OF w [OF i(1)]] Cons by auto
    qed
  next
    case False
    then obtain ids1 st' t u where i: "perm_in (fst s) (snd s) ids ids1" "loop_inv n st' t (u # ss) ids1"
      "seg_size t + seg_size u < seg_size s"
      "sort_loop ids st (2 * length ss) (fst s) (snd s) = sort_loop ids1 st' (2 * length ss + 2) (fst t) (snd t)"
      using sort_push [OF less.prems] by auto
    have "seg_work (t # u # ss) < seg_work (s # ss)" using i(3) by (simp add: seg_work_Cons)
    then show ?thesis using less.hyps [OF _ i(2)] i(4) perm_in_trans [OF w [OF i(1)]] by auto
  qed
qed

section \<open>Sorting a list\<close>

text \<open>The numbers of a list, without the count and the cells behind them.\<close>

definition idl_list :: "mdb_id list \<Rightarrow> mdb_id list" where
  "idl_list ids = take (unat (ids ! 0)) (drop 1 ids)"

lemma perm_in_parts:
  assumes p: "perm_in 1 n xs ys" and n: "n < length xs"
  shows "take 1 ys = take 1 xs" and "drop (Suc n) ys = drop (Suc n) xs" and "mset (take n (drop 1 ys)) = mset (take n (drop 1 xs))"
proof -
  note l = perm_in_length [OF p] and o = perm_in_out [OF p]
  show t: "take 1 ys = take 1 xs" using l o [of 0] n by (intro nth_equalityI) auto
  show d: "drop (Suc n) ys = drop (Suc n) xs" using l o by (intro nth_equalityI) auto
  have e: "zs = take 1 zs @ take n (drop 1 zs) @ drop (Suc n) zs" for zs :: "'a list"
    by (metis append_take_drop_id drop_drop plus_1_eq_Suc add.commute)
  have "mset ys = mset xs" using p by (simp add: perm_in_def)
  then show "mset (take n (drop 1 ys)) = mset (take n (drop 1 xs))"
    using arg_cong [OF e [of xs], of mset] arg_cong [OF e [of ys], of mset] t d by (metis mset_append add_left_cancel add_right_cancel)
qed

lemma seg_inv_Nil_sorted: "seg_inv n [] ids \<Longrightarrow> sorted_wrt (\<ge>) (take n (drop 1 ids))"
  by (auto simp: seg_inv_def sorted_wrt_iff_nth_less)

text \<open>
  C13: \<^verbatim>\<open>mdb_midl_sort\<close> sorts. On a block that holds its count of less than \<open>2 ^ 30\<close> numbers, whatever
  the stack of the function contains at the start, the loops end, every access to the block and to the
  64 cells of the stack is in bounds, no sum of indices overflows, and the numbers of the list are then
  the same with the same multiplicities, in descending order; the count and the cells behind the list
  are as before.
\<close>

theorem midl_sort_sorts:
  assumes "unat (ids ! 0) < length ids" and "unat (ids ! 0) < 2 ^ 30" and "length istack = 64"
  shows "\<exists>ids'. mdb_midl_sort istack ids = Some ids' \<and> mset (idl_list ids') = mset (idl_list ids) \<and>
    sorted_wrt (\<ge>) (idl_list ids') \<and> ids' ! 0 = ids ! 0 \<and> length ids' = length ids \<and>
    drop (Suc (unat (ids ! 0))) ids' = drop (Suc (unat (ids ! 0))) ids"
proof -
  let ?n = "unat (ids ! 0)"
  have c: "sint (ucast (ids ! 0) :: u32) = int ?n" using ucast_used(2) [of "ids ! 0"] assms(2) by simp
  have g: "get_cell ids 0 = Some (ids ! 0)" using assms(1) by (cases ids) (simp_all add: get_cell_def)
  have "loop_inv ?n istack (1, ?n) [] ids"
    using assms by (auto simp: loop_inv_def seg_inv_def seg_mem_def seg_size_def)
  then obtain ids' where s: "sort_loop ids istack 0 1 ?n = Some ids'" "perm_in 1 ?n ids ids'" "seg_inv ?n [] ids'"
    using sort_loop_ok by fastforce
  have "mdb_midl_sort istack ids = Some ids'" using s(1) c g by (simp add: mdb_midl_sort_def)
  moreover have z: "ids' ! 0 = ids ! 0" using perm_in_out [OF s(2)] by simp
  ultimately show ?thesis
    using perm_in_parts [OF s(2) assms(1)] seg_inv_Nil_sorted [OF s(3)] perm_in_length [OF s(2)] by (simp add: idl_list_def)
qed

theorem midl_sort_sorts_witness:
  "\<exists>ids'. mdb_midl_sort (replicate 64 0) [3, 5, 9, 7, 1] = Some ids' \<and> mset (idl_list ids') = mset [5, 9, 7] \<and>
    sorted_wrt (\<ge>) (idl_list ids') \<and> ids' ! 0 = 3 \<and> drop 4 ids' = [1]"
  using midl_sort_sorts [of "[3, 5, 9, 7, 1]" "replicate 64 0"] by (auto simp: idl_list_def)

section \<open>Pairs in order\<close>

definition pairs :: "MDB_ID2 list \<Rightarrow> MDB_ID2 list" where
  "pairs ids = take (unat (mid (ids ! 0))) (drop 1 ids)"

definition ascending :: "MDB_ID2 list \<Rightarrow> bool" where
  "ascending ps \<longleftrightarrow> sorted_wrt (\<lambda>p q. mid p < mid q) ps"

text \<open>The bounds of the search: smaller numbers up to \<open>base\<close>, greater ones behind \<open>base + m\<close>.\<close>

lemma mid2l_search_loop_ok:
  "n < length ids \<Longrightarrow> n < 2 ^ 31 \<Longrightarrow> \<forall>k k'. 1 \<le> k \<and> k < k' \<and> k' \<le> n \<longrightarrow> mid (ids ! k) < mid (ids ! k') \<Longrightarrow> base + m \<le> n \<Longrightarrow>
   \<forall>k. 1 \<le> k \<and> k \<le> base \<longrightarrow> mid (ids ! k) < i \<Longrightarrow> \<forall>k. base + m < k \<and> k \<le> n \<longrightarrow> i < mid (ids ! k) \<Longrightarrow>
   m = 0 \<longrightarrow> cursor = (if 0 < val then base else base + 1) \<Longrightarrow>
     \<exists>x. mid2l_search_loop ids i base cursor val m = Some x \<and> 1 \<le> x \<and> x \<le> n + 1 \<and>
       (\<forall>k. 1 \<le> k \<and> k < x \<longrightarrow> mid (ids ! k) < i) \<and> (\<forall>k. x \<le> k \<and> k \<le> n \<longrightarrow> i \<le> mid (ids ! k))"
proof (induction ids i base cursor val m rule: mid2l_search_loop.induct)
  case (1 ids i base cursor val m)
  show ?case
  proof (cases "0 < m")
    case False
    then have "mid2l_search_loop ids i base cursor val m = Some (base + 1)"
      using "1.prems"(2,4,7) by (subst mid2l_search_loop.simps) auto
    then show ?thesis using "1.prems"(4-6) False by (auto simp: less_imp_le)
  next
    case True
    let ?c = "base + m div 2 + 1"
    have c: "?c \<le> n" "1 \<le> ?c" "get_cell ids ?c = Some (ids ! ?c)" using "1.prems"(1,4) True by (auto simp: get_cell_def)
    note asc = "1.prems"(3)
    consider "i < mid (ids ! ?c)" | "mid (ids ! ?c) < i" | "i = mid (ids ! ?c)" by fastforce
    then show ?thesis
    proof cases
      case 1
      have "i < mid (ids ! k)" if "base + m div 2 < k" "k \<le> n" for k
        using asc c that 1 by (cases "k = ?c") (auto intro: less_trans [OF 1])
      then show ?thesis
        using "1.IH"(1) [OF True refl refl c(3) 1] "1.prems"(1-5) c(1) True 1 c(3) by (subst mid2l_search_loop.simps) (auto simp: Let_def)
    next
      case 2
      have "mid (ids ! k) < i" if "1 \<le> k" "k \<le> ?c" for k
        using asc c that 2 by (cases "k = ?c") (auto intro: less_trans [OF _ 2])
      moreover have "?c + (m - (m div 2 + 1)) = base + m" using True by simp
      ultimately show ?thesis
        using "1.IH"(2) [OF True refl refl c(3) _ 2] "1.prems"(1-4,6) True 2 less_not_sym [OF 2] c(3) by (subst mid2l_search_loop.simps) (auto simp: Let_def)
    next
      case 3
      have "mid (ids ! k) < i" if "1 \<le> k" "k < ?c" for k using asc c that 3 by auto
      moreover have "i \<le> mid (ids ! k)" if "?c \<le> k" "k \<le> n" for k
        using asc c that 3 by (cases "k = ?c") (auto simp: less_imp_le)
      moreover have "mid2l_search_loop ids i base cursor val m = Some ?c"
        using True 3 c(3) by (subst mid2l_search_loop.simps) (simp add: Let_def)
      ultimately show ?thesis using c by auto
    qed
  qed
qed

lemma pairs_nth: "unat (mid (ids ! 0)) < length ids \<Longrightarrow> k < unat (mid (ids ! 0)) \<Longrightarrow> pairs ids ! k = ids ! Suc k"
  by (simp add: pairs_def)

lemma length_pairs [simp]: "unat (mid (ids ! 0)) < length ids \<Longrightarrow> length (pairs ids) = unat (mid (ids ! 0))"
  by (simp add: pairs_def)

lemma mdb_mid2l_search_ok:
  assumes n: "unat (mid (ids ! 0)) < length ids" "unat (mid (ids ! 0)) < 2 ^ 31" and asc: "ascending (pairs ids)"
  shows "mdb_mid2l_search ids i = Some (Suc (length (takeWhile (\<lambda>p. mid p < i) (pairs ids))))"
proof -
  let ?n = "unat (mid (ids ! 0))"
  have g: "get_cell ids 0 = Some (ids ! 0)" using n(1) by (cases ids) (simp_all add: get_cell_def)
  have "mid (ids ! k) < mid (ids ! k')" if "1 \<le> k" "k < k'" "k' \<le> ?n" for k k'
    using sorted_wrt_nth_less [OF asc [unfolded ascending_def], of "k - 1" "k' - 1"] that n(1) by (simp add: pairs_nth)
  then have "\<exists>x. mid2l_search_loop ids i 0 1 0 ?n = Some x \<and> 1 \<le> x \<and> x \<le> ?n + 1 \<and>
      (\<forall>k. 1 \<le> k \<and> k < x \<longrightarrow> mid (ids ! k) < i) \<and> (\<forall>k. x \<le> k \<and> k \<le> ?n \<longrightarrow> i \<le> mid (ids ! k))"
    by (intro mid2l_search_loop_ok n) auto
  then obtain x where x: "mid2l_search_loop ids i 0 1 0 ?n = Some x" "1 \<le> x" "x \<le> ?n + 1"
    "\<forall>k. 1 \<le> k \<and> k < x \<longrightarrow> mid (ids ! k) < i" "\<forall>k. x \<le> k \<and> k \<le> ?n \<longrightarrow> i \<le> mid (ids ! k)"
    by blast
  have "takeWhile (\<lambda>p. mid p < i) (pairs ids) = take (x - 1) (pairs ids)"
    using x n(1) by (intro takeWhile_eq_take_P_nth) (auto simp: pairs_nth not_less)
  then have "length (takeWhile (\<lambda>p. mid p < i) (pairs ids)) = x - 1" using x(3) n(1) by simp
  then show ?thesis using x(1,2) g ucast_used(1) [OF n(2)] by (simp add: mdb_mid2l_search_def)
qed

lemma shift_pairs_eq:
  "x \<le> i \<Longrightarrow> i < length ids \<Longrightarrow> shift_pairs ids x i = Some (take (Suc x) ids @ drop x (take i ids) @ drop (Suc i) ids)"
proof (induction i arbitrary: ids)
  case 0
  then show ?case by (cases ids) auto
next
  case (Suc i)
  show ?case
  proof (cases "x = Suc i")
    case True
    then show ?thesis using Suc.prems by simp
  next
    case False
    let ?ids = "ids[Suc i := ids ! i]"
    have e: "shift_pairs ids x (Suc i) = shift_pairs ?ids x i" using Suc.prems False by (simp add: mem_simps)
    have d: "drop (Suc i) ?ids = ids ! i # drop (Suc (Suc i)) ids"
      using Suc.prems by (simp add: Cons_nth_drop_Suc [symmetric] drop_update_cancel)
    have "drop x (take (Suc i) ids) = drop x (take i ids) @ [ids ! i]"
      using Suc.prems False by (simp add: take_Suc_conv_app_nth)
    then show ?thesis using Suc.IH [of ?ids] Suc.prems False e d by (simp add: take_update_cancel)
  qed
qed

text \<open>Putting a pair at \<open>x\<close> and counting it.\<close>

lemma pairs_insert:
  assumes n: "Suc n < length ids" "unat (mid (ids ! 0)) = n" "n < 2 ^ 31" and x: "1 \<le> x" "x \<le> Suc n"
  shows "\<exists>ids'. do { ids2 \<leftarrow> shift_pairs (ids[0 := (ids ! 0)\<lparr>mid := mid (ids ! 0) + 1\<rparr>]) x (Suc n); set_cell ids2 x e } = Some ids' \<and>
    pairs ids' = take (x - 1) (pairs ids) @ e # drop (x - 1) (pairs ids) \<and> length ids' = length ids \<and>
    unat (mid (ids' ! 0)) = Suc n"
proof -
  obtain h cs where c: "ids = h # cs" using n(1) by (cases ids) auto
  obtain y where y: "x = Suc y" using x(1) by (cases x) auto
  let ?h = "h\<lparr>mid := mid h + 1\<rparr>"
  let ?ids = "?h # take y cs @ e # drop y (take n cs) @ drop (Suc n) cs"
  have h: "unat (mid h + 1) = Suc n" using n(2,3) c by (simp add: unat_word_ariths)
  have "shift_pairs (?h # cs) (Suc y) (Suc n) = Some (?h # take (Suc y) cs @ drop y (take n cs) @ drop (Suc n) cs)"
    using shift_pairs_eq [of "Suc y" "Suc n" "?h # cs"] n(1) x y c by simp
  moreover have "set_cell (?h # take (Suc y) cs @ drop y (take n cs) @ drop (Suc n) cs) (Suc y) e = Some ?ids"
    using n(1) x y c by (simp add: set_cell_def take_Suc_conv_app_nth list_update_append)
  moreover have "pairs ?ids = take y (pairs ids) @ e # drop y (pairs ids)"
    using n x y c h by (simp add: pairs_def min_def Suc_diff_le)
  moreover have "length ?ids = length ids" using n(1) x y c by simp
  ultimately show ?thesis using c y h by (intro exI [of _ ?ids]) simp
qed

lemma ascending_insert:
  assumes "ascending ps" and "i \<notin> mid ` set ps" and "mid e = i"
  shows "ascending (takeWhile (\<lambda>p. mid p < i) ps @ e # dropWhile (\<lambda>p. mid p < i) ps)"
  using assms unfolding ascending_def
proof (induction ps)
  case (Cons p ps)
  have "mid e < mid q" if "q \<in> set ps" "\<not> mid p < i" for q
    using that Cons.prems by (force simp: not_less)
  then show ?case using Cons by (auto simp: not_less dest: set_takeWhileD set_dropWhileD)
qed simp

lemma ascending_mem:
  "ascending ps \<Longrightarrow> i \<in> mid ` set ps \<longleftrightarrow>
     length (takeWhile (\<lambda>p. mid p < i) ps) < length ps \<and> mid (ps ! length (takeWhile (\<lambda>p. mid p < i) ps)) = i"
proof (induction ps)
  case (Cons p ps)
  have "i \<notin> mid ` set ps" if "\<not> mid p < i" using that Cons.prems by (auto simp: ascending_def not_less)
  then show ?case using Cons by (auto simp: ascending_def)
qed simp

text \<open>
  C32: \<^verbatim>\<open>mdb_mid2l_insert\<close> keeps a list of pairs in order. On a list with strictly ascending numbers,
  room for one more pair and less than \<open>2 ^ 31\<close> of them, it answers -1 if the number is there already,
  -2 if the list has its greatest length, and 0 otherwise; then the pair stands behind the smaller
  numbers and before the greater ones, the list is still strictly ascending, and in all other cases
  nothing changes.
\<close>

theorem mid2l_insert_sorted:
  assumes "Suc (unat (mid (ids ! 0))) < length ids" and "unat (mid (ids ! 0)) < 2 ^ 31" and "ascending (pairs ids)"
  shows "\<exists>rc ids'. mdb_mid2l_insert ids e = Some (rc, ids') \<and>
    (if mid e \<in> mid ` set (pairs ids) then rc = -1 \<and> ids' = ids
     else if MDB_IDL_UM_MAX \<le> length (pairs ids) then rc = -2 \<and> ids' = ids
     else rc = 0 \<and> ascending (pairs ids') \<and> length ids' = length ids \<and> pairs ids' =
       takeWhile (\<lambda>p. mid p < mid e) (pairs ids) @ e # dropWhile (\<lambda>p. mid p < mid e) (pairs ids))"
proof -
  let ?n = "unat (mid (ids ! 0))" and ?w = "takeWhile (\<lambda>p. mid p < mid e) (pairs ids)"
  have n: "?n < length ids" using assms(1) by simp
  note s = mdb_mid2l_search_ok [OF n assms(2,3), of "mid e"]
  have g: "get_cell ids 0 = Some (ids ! 0)" using n by (cases ids) (simp_all add: get_cell_def)
  have w: "length ?w \<le> ?n" using length_takeWhile_le [of _ "pairs ids"] n by simp
  have d: "(if Suc (length ?w) \<le> ?n then do { c \<leftarrow> get_cell ids (Suc (length ?w)); Some (mid c = mid e) } else Some False) =
    Some (mid e \<in> mid ` set (pairs ids))"
    using ascending_mem [OF assms(3), of "mid e"] n w by (auto simp: get_cell_def pairs_nth)
  have c: "mdb_mid2l_insert ids e =
    (if mid e \<in> mid ` set (pairs ids) then Some (-1, ids) else if MDB_IDL_UM_MAX \<le> ?n then Some (-2, ids)
     else do { ids2 \<leftarrow> shift_pairs (ids[0 := (ids ! 0)\<lparr>mid := mid (ids ! 0) + 1\<rparr>]) (Suc (length ?w)) (Suc ?n);
               ids3 \<leftarrow> set_cell ids2 (Suc (length ?w)) e; Some (0, ids3) })"
    (is "_ = ?r")
  proof -
    have u: "unat (ucast (mid (ids ! 0) + 1) :: u32) = Suc ?n" if "?n < MDB_IDL_UM_MAX"
      using that ucast_used(1) [of "mid (ids ! 0) + 1"] by (simp add: unat_word_ariths MDB_IDL_UM_MAX_def)
    have g0: "set_cell ids 0 v = Some (ids[0 := v])" for v using n by (cases ids) (simp_all add: set_cell_def)
    show ?thesis using u by (simp add: mdb_mid2l_insert_def s g d g0 del: shift_pairs.simps)
  qed
  obtain ids' where i: "do { ids2 \<leftarrow> shift_pairs (ids[0 := (ids ! 0)\<lparr>mid := mid (ids ! 0) + 1\<rparr>]) (Suc (length ?w)) (Suc ?n);
      set_cell ids2 (Suc (length ?w)) e } = Some ids'"
    "pairs ids' = take (length ?w) (pairs ids) @ e # drop (length ?w) (pairs ids)" "length ids' = length ids"
    using pairs_insert [OF assms(1) refl assms(2), of "Suc (length ?w)" e] w by auto
  have "pairs ids' = ?w @ e # dropWhile (\<lambda>p. mid p < mid e) (pairs ids)"
    using i(2) by (simp add: takeWhile_eq_take [symmetric] dropWhile_eq_drop [symmetric])
  then show ?thesis using c i(1,3) n ascending_insert [OF assms(3)] by (auto simp: bind_eq_Some_conv)
qed

theorem mid2l_insert_sorted_witness:
  "\<exists>rc ids'. mdb_mid2l_insert [\<lparr>mid = 2, mptr = 0\<rparr>, \<lparr>mid = 4, mptr = 1\<rparr>, \<lparr>mid = 9, mptr = 2\<rparr>, \<lparr>mid = 0, mptr = 0\<rparr>]
      \<lparr>mid = 5, mptr = 3\<rparr> = Some (rc, ids') \<and> rc = 0 \<and>
    pairs ids' = [\<lparr>mid = 4, mptr = 1\<rparr>, \<lparr>mid = 5, mptr = 3\<rparr>, \<lparr>mid = 9, mptr = 2\<rparr>]"
  using mid2l_insert_sorted [of "[\<lparr>mid = 2, mptr = 0\<rparr>, \<lparr>mid = 4, mptr = 1\<rparr>, \<lparr>mid = 9, mptr = 2\<rparr>, \<lparr>mid = 0, mptr = 0\<rparr>]"
      "\<lparr>mid = 5, mptr = 3\<rparr>"]
  by (auto simp: pairs_def ascending_def MDB_IDL_UM_MAX_def)

section \<open>Appending to a list that grows\<close>

definition midl_inv :: "midl \<Rightarrow> bool" where
  "midl_inv m \<longleftrightarrow> length (icells m) = Suc (unat (iroom m)) \<and> unat (icells m ! 0) \<le> unat (iroom m)"

definition alloc_ok :: "(nat \<Rightarrow> mdb_id list option) \<Rightarrow> bool" where
  "alloc_ok alloc \<longleftrightarrow> (\<forall>n blk. alloc n = Some blk \<longrightarrow> length blk = n)"

lemma mdb_midl_grow_ok:
  assumes inv: "midl_inv m" and a: "alloc_ok alloc" and r: "unat (iroom m) + num + 2 < 2 ^ 64" "num < 2 ^ 63"
  shows "mdb_midl_grow alloc m (int num) = (ENOMEM, m) \<or>
    (\<exists>cs. mdb_midl_grow alloc m (int num) = (0, \<lparr>iroom = iroom m + word_of_nat num, icells = icells m @ cs\<rparr>) \<and>
       length cs = num \<and> unat (iroom m + word_of_nat num) = unat (iroom m) + num)"
proof -
  have n: "unat (word_of_nat num :: size_t) = num" using r(2) by (simp add: unat_of_nat take_bit_nat_eq_self)
  have u: "unat (iroom m + word_of_nat num) = unat (iroom m) + num" "unat (iroom m + word_of_nat num + 2) = unat (iroom m) + num + 2"
    using r(1) n by (simp_all add: unat_word_ariths)
  show ?thesis
  proof (cases "alloc (unat (iroom m) + num + 2)")
    case None
    then show ?thesis using u(2) by (simp add: mdb_midl_grow_def)
  next
    case (Some blk)
    then have "length blk = unat (iroom m) + num + 2" using a by (simp add: alloc_ok_def)
    then have "tl (resize (iroom m # icells m) (unat (iroom m) + num + 2) blk) = icells m @ drop (unat (iroom m) + 2) blk"
      using inv by (simp add: resize_def midl_inv_def)
    then show ?thesis using Some u \<open>length blk = _\<close> by (simp add: mdb_midl_grow_def)
  qed
qed

lemma append_cell:
  assumes "unat n + 1 < length cs" and "cs ! 0 = n" and "unat n + 1 < 2 ^ 64"
  shows "\<exists>cs'. do { cs1 \<leftarrow> set_cell cs 0 (n + 1); set_cell cs1 (unat (n + 1)) i } = Some cs' \<and>
    idl_list cs' = idl_list cs @ [i] \<and> length cs' = length cs \<and> cs' ! 0 = n + 1"
proof -
  have u: "unat (n + 1) = Suc (unat n)" using assms(3) by (simp add: unat_word_ariths)
  obtain c ds where c: "cs = c # ds" using assms(1) by (cases cs) auto
  have "take (Suc (unat n)) (ds[unat n := i]) = take (unat n) ds @ [i]"
    using assms(1) c by (simp add: take_Suc_conv_app_nth)
  then show ?thesis using assms c u by (simp add: set_cell_def idl_list_def)
qed

text \<open>\<^verbatim>\<open>mdb_midl_append\<close> adds the number at the end, or memory is short and the list is as before.\<close>

lemma mdb_midl_append_ok:
  assumes inv: "midl_inv m" and a: "alloc_ok alloc" and r: "unat (iroom m) < 2 ^ 62"
  shows "mdb_midl_append alloc m i = Some (ENOMEM, m) \<or>
    (\<exists>m'. mdb_midl_append alloc m i = Some (0, m') \<and> midl_inv m' \<and> idl_list (icells m') = idl_list (icells m) @ [i])"
proof -
  let ?n = "icells m ! 0"
  have g: "get_cell (icells m) 0 = Some ?n" using inv by (simp add: get_cell_def midl_inv_def)
  have n: "unat ?n \<le> unat (iroom m)" "length (icells m) = Suc (unat (iroom m))" using inv by (auto simp: midl_inv_def)
  have u: "unat (?n + 1) = Suc (unat ?n)" using n r by (simp add: unat_word_ariths)
  show ?thesis
  proof (cases "iroom m \<le> ?n")
    case False
    then have l: "unat ?n < unat (iroom m)" by (simp add: word_le_nat_alt)
    obtain cs' where "do { cs1 \<leftarrow> set_cell (icells m) 0 (?n + 1); set_cell cs1 (unat (?n + 1)) i } = Some cs'"
      "idl_list cs' = idl_list (icells m) @ [i]" "length cs' = length (icells m)" "cs' ! 0 = ?n + 1"
      using append_cell [of ?n "icells m" i] l n r by auto
    then show ?thesis using False g l n u by (auto simp: mdb_midl_append_def midl_inv_def bind_eq_Some_conv)
  next
    case True
    consider "mdb_midl_grow alloc m (int MDB_IDL_UM_MAX) = (ENOMEM, m)"
      | cs where "mdb_midl_grow alloc m (int MDB_IDL_UM_MAX) = (0, \<lparr>iroom = iroom m + word_of_nat MDB_IDL_UM_MAX, icells = icells m @ cs\<rparr>)"
        "length cs = MDB_IDL_UM_MAX" "unat (iroom m + word_of_nat MDB_IDL_UM_MAX) = unat (iroom m) + MDB_IDL_UM_MAX"
      using mdb_midl_grow_ok [OF inv a, of MDB_IDL_UM_MAX] r by (auto simp: MDB_IDL_UM_MAX_def)
    then show ?thesis
    proof cases
      case 1
      then show ?thesis using True g by (simp add: mdb_midl_append_def ENOMEM_def)
    next
      case (2 cs)
      have e: "idl_list (icells m @ cs) = idl_list (icells m)" "(icells m @ cs) ! 0 = ?n"
        using n by (simp_all add: idl_list_def nth_append)
      obtain cs' where "do { cs1 \<leftarrow> set_cell (icells m @ cs) 0 (?n + 1); set_cell cs1 (unat (?n + 1)) i } = Some cs'"
        "idl_list cs' = idl_list (icells m) @ [i]" "length cs' = length (icells m @ cs)" "cs' ! 0 = ?n + 1"
        using append_cell [of ?n "icells m @ cs" i] n r e 2(2) by (auto simp: MDB_IDL_UM_MAX_def)
      then show ?thesis using True g 2 n u by (auto simp: mdb_midl_append_def midl_inv_def bind_eq_Some_conv MDB_IDL_UM_MAX_def)
    qed
  qed
qed

text \<open>
  \<^verbatim>\<open>mdb_midl_shrink\<close> leaves one cell too few for the room it notes: appending the last number that the
  room allows writes behind the block.
\<close>

lemma shrink_then_append_overruns:
  assumes inv: "midl_inv m" and a: "alloc_ok alloc" and big: "MDB_IDL_UM_MAX < unat (iroom m)"
    and s: "mdb_midl_shrink alloc m = Some (1, m')" and f: "m'' = m'\<lparr>icells := (icells m')[0 := word_of_nat (MDB_IDL_UM_MAX - 1)]\<rparr>"
  shows "mdb_midl_append alloc m'' i = None"
proof -
  obtain blk where "m' = \<lparr>iroom = word_of_nat MDB_IDL_UM_MAX, icells = tl (resize (iroom m # icells m) (MDB_IDL_UM_MAX + 1) blk)\<rparr>"
    using s big by (auto simp: mdb_midl_shrink_def split: option.splits)
  then have "iroom m' = word_of_nat MDB_IDL_UM_MAX" "length (icells m') = MDB_IDL_UM_MAX"
    using inv big by (simp_all add: resize_def midl_inv_def)
  then show ?thesis using f by (simp add: mdb_midl_append_def get_cell_def set_cell_def MDB_IDL_UM_MAX_def word_le_nat_alt)
qed

end
