(* ===== verification/Mdbpage.thy ===== *)
theory Mdbpage
  imports Ymem
begin

text \<open>
  The pages of the storage library, \<^verbatim>\<open>lib/lmdb/mdb.c\<close>, and what the library does inside one page: the order of
  keys, the search for a key, and adding and deleting nodes. A page is a block of bytes with its header, an
  array of 16-bit offsets that grows from the front and nodes that grow from the back. The header is a record;
  its bytes in the block are not used. Numbers of 16 bits lie in the block in little endian order.
  \<^term>\<open>None\<close> is an access outside the block or a failed assertion.
\<close>

section \<open>Pages and nodes\<close>

record MDB_page =
  mp_pgno :: u64
  mp_pad :: u16
  mp_flags :: u16
  mp_lower :: u16
  mp_upper :: u16
  mp_mem :: bytes

record MDB_node =
  mn_lo :: u16
  mn_hi :: u16
  mn_flags :: u16
  mn_ksize :: u16

text \<open>A key or a value: a size and the memory that its pointer leads to.\<close>

record MDB_val =
  mv_size :: size_t
  mv_data :: bytes

definition PAGEHDRSZ :: nat where
  "PAGEHDRSZ = 16"

definition NODESIZE :: nat where
  "NODESIZE = 8"

definition P_BRANCH :: u16 where "P_BRANCH = 0x01"

definition P_LEAF :: u16 where "P_LEAF = 0x02"

definition P_LEAF2 :: u16 where "P_LEAF2 = 0x20"

definition F_BIGDATA :: u32 where "F_BIGDATA = 0x01"

definition MDB_RESERVE :: u32 where "MDB_RESERVE = 0x10000"

definition MDB_PAGE_FULL :: int where "MDB_PAGE_FULL = -30786"

definition F_ISSET :: "'a::len word \<Rightarrow> 'a word \<Rightarrow> bool" where
  "F_ISSET w f \<longleftrightarrow> w AND f = f"

definition IS_LEAF :: "MDB_page \<Rightarrow> bool" where
  "IS_LEAF p = F_ISSET (mp_flags p) P_LEAF"

definition IS_LEAF2 :: "MDB_page \<Rightarrow> bool" where
  "IS_LEAF2 p = F_ISSET (mp_flags p) P_LEAF2"

definition IS_BRANCH :: "MDB_page \<Rightarrow> bool" where
  "IS_BRANCH p = F_ISSET (mp_flags p) P_BRANCH"

definition NUMKEYS :: "MDB_page \<Rightarrow> nat" where
  "NUMKEYS p = unat (drop_bit 1 (ucast (mp_lower p) - of_nat PAGEHDRSZ :: u32))"

definition SIZELEFT :: "MDB_page \<Rightarrow> u16" where
  "SIZELEFT p = mp_upper p - mp_lower p"

definition get16 :: "bytes \<Rightarrow> nat \<Rightarrow> u16 option" where
  "get16 m o' = do { bs \<leftarrow> mem_read m o' 2; Some (ntohs (rev bs)) }"

definition put16 :: "bytes \<Rightarrow> nat \<Rightarrow> u16 \<Rightarrow> bytes option" where
  "put16 m o' w = mem_write m o' (rev (htons w))"

text \<open>The place of offset \<open>i\<close> of the array, and the offset itself.\<close>

definition ptr_pos :: "nat \<Rightarrow> nat" where
  "ptr_pos i = PAGEHDRSZ + 2 * i"

definition mp_ptrs :: "MDB_page \<Rightarrow> nat \<Rightarrow> u16 option" where
  "mp_ptrs p i = get16 (mp_mem p) (ptr_pos i)"

definition NODEPTR :: "MDB_page \<Rightarrow> nat \<Rightarrow> nat option" where
  "NODEPTR p i = do { w \<leftarrow> mp_ptrs p i; Some (unat w) }"

definition get_node :: "bytes \<Rightarrow> nat \<Rightarrow> MDB_node option" where
  "get_node m a = do {
     lo \<leftarrow> get16 m a;
     hi \<leftarrow> get16 m (a + 2);
     fl \<leftarrow> get16 m (a + 4);
     ks \<leftarrow> get16 m (a + 6);
     Some \<lparr>mn_lo = lo, mn_hi = hi, mn_flags = fl, mn_ksize = ks\<rparr> }"

definition NODEKEY :: "bytes \<Rightarrow> nat \<Rightarrow> bytes option" where
  "NODEKEY m a = do { n \<leftarrow> get_node m a; mem_read m (a + NODESIZE) (unat (mn_ksize n)) }"

definition NODEDSZ :: "MDB_node \<Rightarrow> u32" where
  "NODEDSZ n = ucast (mn_lo n) OR push_bit 16 (ucast (mn_hi n))"

definition NODEDATA :: "bytes \<Rightarrow> nat \<Rightarrow> nat \<Rightarrow> bytes option" where
  "NODEDATA m a len = do { n \<leftarrow> get_node m a; mem_read m (a + NODESIZE + unat (mn_ksize n)) len }"

definition SETDSZ :: "size_t \<Rightarrow> MDB_node \<Rightarrow> MDB_node" where
  "SETDSZ sz n = n\<lparr>mn_lo := ucast sz, mn_hi := ucast (drop_bit 16 sz)\<rparr>"

definition SETPGNO :: "u64 \<Rightarrow> MDB_node \<Rightarrow> MDB_node" where
  "SETPGNO pg n = n\<lparr>mn_lo := ucast pg, mn_hi := ucast (drop_bit 16 pg), mn_flags := ucast (drop_bit 32 pg)\<rparr>"

definition NODEPGNO :: "MDB_node \<Rightarrow> u64" where
  "NODEPGNO n = ucast (mn_lo n) OR push_bit 16 (ucast (mn_hi n)) OR push_bit 32 (ucast (mn_flags n))"

definition node_bytes :: "MDB_node \<Rightarrow> bytes" where
  "node_bytes n = rev (htons (mn_lo n)) @ rev (htons (mn_hi n)) @ rev (htons (mn_flags n)) @ rev (htons (mn_ksize n))"

definition OVPAGES :: "size_t \<Rightarrow> size_t \<Rightarrow> size_t" where
  "OVPAGES sz psize = (of_nat PAGEHDRSZ - 1 + sz) div psize + 1"

section \<open>The order of keys\<close>

text \<open>\<^verbatim>\<open>memcmp\<close>; only the sign of its answer is used.\<close>

fun memcmp :: "bytes \<Rightarrow> bytes \<Rightarrow> int" where
  "memcmp (a # as) (b # bs) = (if a = b then memcmp as bs else uint a - uint b)"
| "memcmp _ _ = 0"

definition mdb_cmp_memn :: "bytes \<Rightarrow> bytes \<Rightarrow> int" where
  "mdb_cmp_memn a b =
     (let len_diff = int (length a) - int (length b);
          len = (if 0 < len_diff then length b else length a);
          len_diff' = (if 0 < len_diff then 1 else len_diff);
          diff = memcmp (take len a) (take len b) in
      if diff \<noteq> 0 then diff else if len_diff' < 0 then -1 else len_diff')"

text \<open>The comparison from the last byte to the first; \<open>k\<close> bytes are left to compare.\<close>

fun memnr_loop :: "bytes \<Rightarrow> bytes \<Rightarrow> nat \<Rightarrow> nat \<Rightarrow> nat \<Rightarrow> int option" where
  "memnr_loop a b i j 0 = Some 0"
| "memnr_loop a b i j (Suc k) = (case (i, j) of
     (Suc i', Suc j') \<Rightarrow> do {
        x \<leftarrow> get_cell a i';
        y \<leftarrow> get_cell b j';
        (let diff = uint x - uint y in if diff \<noteq> 0 then Some diff else memnr_loop a b i' j' k) }
   | _ \<Rightarrow> None)"

definition mdb_cmp_memnr :: "bytes \<Rightarrow> bytes \<Rightarrow> int option" where
  "mdb_cmp_memnr a b =
     (let len_diff = int (length a) - int (length b) in
      do {
        diff \<leftarrow> memnr_loop a b (length a) (length b) (if 0 < len_diff then length b else length a);
        Some (if diff \<noteq> 0 then diff else if len_diff < 0 then -1 else if 0 < len_diff then 1 else len_diff) })"

section \<open>Searching a page\<close>

text \<open>
  The comparison \<open>cmp\<close> is that of the database, for keys of less than \<open>2 ^ 32\<close> bytes; the special case for
  integer keys on branch pages is left out, since the server sets no such keys. On a page of fixed-size keys,
  \<open>pad\<close> is their size, the keys lie behind the header, and the node is a placeholder.
\<close>

definition search_key :: "nat \<Rightarrow> MDB_page \<Rightarrow> nat \<Rightarrow> nat option \<Rightarrow> (nat option \<times> bytes) option" where
  "search_key pad p i fake =
     (if IS_LEAF2 p then do { k \<leftarrow> mem_read (mp_mem p) (PAGEHDRSZ + i * pad) pad; Some (fake, k) }
      else do { a \<leftarrow> NODEPTR p i; k \<leftarrow> NODEKEY (mp_mem p) a; Some (Some a, k) })"

function node_search_loop ::
    "(bytes \<Rightarrow> bytes \<Rightarrow> int) \<Rightarrow> nat \<Rightarrow> MDB_page \<Rightarrow> bytes \<Rightarrow> int \<Rightarrow> int \<Rightarrow> int \<Rightarrow> nat option \<Rightarrow> int \<Rightarrow> (int \<times> nat option \<times> int) option" where
  "node_search_loop cmp pad p key low high i node rc =
     (if low \<le> high then
        (let i' = (low + high) div 2 in
         do {
           (node', nodekey) \<leftarrow> search_key pad p (nat i') node;
           (let rc' = cmp key nodekey in
            if rc' = 0 then Some (i', node', rc')
            else if 0 < rc' then node_search_loop cmp pad p key (i' + 1) high i' node' rc'
            else node_search_loop cmp pad p key low (i' - 1) i' node' rc') })
      else Some (i, node, rc))"
  by auto
termination by (relation "measure (\<lambda>(cmp, pad, p, key, low, high, i, node, rc). nat (high - low + 1))") auto

declare node_search_loop.simps [simp del]

definition mdb_node_search ::
    "(bytes \<Rightarrow> bytes \<Rightarrow> int) \<Rightarrow> nat \<Rightarrow> MDB_page \<Rightarrow> bytes \<Rightarrow> (nat \<times> bool \<times> nat option) option" where
  "mdb_node_search cmp pad p key =
     (let nkeys = NUMKEYS p in
      if nkeys = 0 then None
      else do {
        fake \<leftarrow> (if IS_LEAF2 p then map_option Some (NODEPTR p 0) else Some None);
        (i, node, rc) \<leftarrow> node_search_loop cmp pad p key (if IS_LEAF p then 0 else 1) (int nkeys - 1) 0 fake 0;
        (i', node') \<leftarrow> (if 0 < rc then
                        (if IS_LEAF2 p then Some (i + 1, node)
                         else do { a \<leftarrow> NODEPTR p (nat (i + 1)); Some (i + 1, Some a) })
                      else Some (i, node));
        Some (nat i', rc = 0, if int nkeys \<le> i' then None else node') })"

section \<open>Adding a node\<close>

definition put64 :: "u64 \<Rightarrow> bytes" where
  "put64 w = map (\<lambda>i. ucast (drop_bit (8 * i) w)) [0..<8]"

definition val_bytes :: "MDB_val \<Rightarrow> nat \<Rightarrow> bytes option" where
  "val_bytes v n = mem_read (mv_data v) 0 n"

text \<open>
  Where the data of a leaf node goes: beside the key, or to overflow pages that \<open>page_new\<close> supplies. The result
  is the size of the node, the new overflow page and the flags.
\<close>

definition place_data ::
    "(size_t \<Rightarrow> int + u64) \<Rightarrow> size_t \<Rightarrow> size_t \<Rightarrow> MDB_val \<Rightarrow> u32 \<Rightarrow> size_t \<Rightarrow> int + (size_t \<times> u64 option \<times> u32)" where
  "place_data page_new nodemax psize data flags node_size =
     (if F_ISSET flags F_BIGDATA then Inr (node_size + 8, None, flags)
      else if nodemax \<le> node_size + mv_size data then
        (case page_new (OVPAGES (mv_size data) psize) of
           Inl rc \<Rightarrow> Inl rc
         | Inr pg \<Rightarrow> Inr (node_size + 8, Some pg, flags OR F_BIGDATA))
      else Inr (node_size + mv_size data, None, flags))"

fun shift_ptrs :: "bytes \<Rightarrow> nat \<Rightarrow> nat \<Rightarrow> bytes option" where
  "shift_ptrs m 0 indx = Some m"
| "shift_ptrs m (Suc i) indx =
     (if indx < Suc i then do {
        w \<leftarrow> get16 m (ptr_pos i);
        m' \<leftarrow> put16 m (ptr_pos (Suc i)) w;
        shift_ptrs m' i indx }
      else Some m)"

text \<open>The data behind the key, and what goes to the overflow page.\<close>

definition write_data :: "bytes \<Rightarrow> nat \<Rightarrow> MDB_val \<Rightarrow> u32 \<Rightarrow> u64 option \<Rightarrow> (bytes \<times> (u64 \<times> bytes) option) option" where
  "write_data m a data flags ofp =
     (case ofp of
        None \<Rightarrow>
          (if F_ISSET flags F_BIGDATA then do { bs \<leftarrow> val_bytes data 8; m' \<leftarrow> mem_write m a bs; Some (m', None) }
           else if F_ISSET flags MDB_RESERVE then Some (m, None)
           else do { bs \<leftarrow> val_bytes data (unat (mv_size data)); m' \<leftarrow> mem_write m a bs; Some (m', None) })
      | Some pg \<Rightarrow> do {
          m' \<leftarrow> mem_write m a (put64 pg);
          (if F_ISSET flags MDB_RESERVE then Some (m', None)
           else do { bs \<leftarrow> val_bytes data (unat (mv_size data)); Some (m', Some (pg, bs)) }) })"

definition write_key :: "bytes \<Rightarrow> nat \<Rightarrow> MDB_val option \<Rightarrow> bytes option" where
  "write_key m a key = (case key of None \<Rightarrow> Some m
     | Some k \<Rightarrow> do { bs \<leftarrow> val_bytes k (unat (mv_size k)); mem_write m a bs })"

definition key_size :: "MDB_val option \<Rightarrow> size_t" where
  "key_size key = (case key of None \<Rightarrow> 0 | Some k \<Rightarrow> mv_size k)"

text \<open>The page has room: the offset is put into the array and the node is written.\<close>

definition insert_node ::
    "MDB_page \<Rightarrow> nat \<Rightarrow> MDB_val option \<Rightarrow> MDB_val option \<Rightarrow> u64 \<Rightarrow> u32 \<Rightarrow> u64 option \<Rightarrow> size_t \<Rightarrow> (int \<times> MDB_page \<times> (u64 \<times> bytes) option) option" where
  "insert_node p indx key data pgno flags ofp node_size = do {
     m1 \<leftarrow> shift_ptrs (mp_mem p) (NUMKEYS p) indx;
     (let ofs = mp_upper p - ucast node_size in
      if unat ofs < unat (mp_lower p) + 2 then None
      else do {
        m2 \<leftarrow> put16 m1 (ptr_pos indx) ofs;
        (let nd = \<lparr>mn_lo = 0, mn_hi = 0, mn_flags = ucast flags, mn_ksize = ucast (key_size key)\<rparr>;
             nd' = (case (IS_LEAF p, data) of (True, Some d) \<Rightarrow> SETDSZ (mv_size d) nd | _ \<Rightarrow> SETPGNO pgno nd) in
         do {
           m3 \<leftarrow> mem_write m2 (unat ofs) (node_bytes nd');
           m4 \<leftarrow> write_key m3 (unat ofs + NODESIZE) key;
           (m5, ov) \<leftarrow> (case (IS_LEAF p, data, key) of
               (False, _, _) \<Rightarrow> Some (m4, None)
             | (True, Some d, Some k) \<Rightarrow> write_data m4 (unat ofs + NODESIZE + unat (mv_size k)) d flags ofp
             | _ \<Rightarrow> None);
           Some (0, p\<lparr>mp_upper := ofs, mp_lower := mp_lower p + 2, mp_mem := m5\<rparr>, ov) }) }) }"

definition insert_fixed :: "nat \<Rightarrow> MDB_page \<Rightarrow> nat \<Rightarrow> MDB_val option \<Rightarrow> (int \<times> MDB_page \<times> (u64 \<times> bytes) option) option" where
  "insert_fixed pad p indx key = do {
     k \<leftarrow> key;
     bs \<leftarrow> mem_read (mp_mem p) (PAGEHDRSZ + indx * pad) ((NUMKEYS p - indx) * pad);
     m1 \<leftarrow> mem_write (mp_mem p) (PAGEHDRSZ + indx * pad + pad) bs;
     kb \<leftarrow> val_bytes k pad;
     m2 \<leftarrow> mem_write m1 (PAGEHDRSZ + indx * pad) kb;
     Some (0, p\<lparr>mp_mem := m2, mp_lower := mp_lower p + 2, mp_upper := mp_upper p - (of_nat pad - 2)\<rparr>, None) }"

definition mdb_node_add ::
    "(size_t \<Rightarrow> int + u64) \<Rightarrow> size_t \<Rightarrow> size_t \<Rightarrow> nat \<Rightarrow> MDB_page \<Rightarrow> nat \<Rightarrow> MDB_val option \<Rightarrow> MDB_val option \<Rightarrow> u64 \<Rightarrow> u32 \<Rightarrow> (int \<times> MDB_page \<times> (u64 \<times> bytes) option) option" where
  "mdb_node_add page_new nodemax psize pad p indx key data pgno flags =
     (if mp_upper p < mp_lower p then None
      else if IS_LEAF2 p then insert_fixed pad p indx key
      else if IS_LEAF p \<and> data = None then None
      else
        (case (case (IS_LEAF p, data) of
                 (True, Some d) \<Rightarrow> place_data page_new nodemax psize d flags (of_nat NODESIZE + key_size key)
               | _ \<Rightarrow> Inr (of_nat NODESIZE + key_size key, None, flags)) of
           Inl rc \<Rightarrow> Some (rc, p, None)
         | Inr (sz, ofp, flags') \<Rightarrow>
             (let node_size = sz + (sz AND 1) in
              if ucast (SIZELEFT p) < node_size + 2 then Some (MDB_PAGE_FULL, p, None)
              else insert_node p indx key data pgno flags' ofp node_size)))"

section \<open>Deleting a node\<close>

definition node_extent :: "MDB_page \<Rightarrow> MDB_node \<Rightarrow> u32" where
  "node_extent p n =
     (let sz = of_nat NODESIZE + ucast (mn_ksize n) +
            (if IS_LEAF p then (if F_ISSET (mn_flags n) (ucast F_BIGDATA) then 8 else NODEDSZ n) else 0) in
      sz + (sz AND 1))"

function del_ptrs :: "bytes \<Rightarrow> nat \<Rightarrow> nat \<Rightarrow> nat \<Rightarrow> nat \<Rightarrow> u16 \<Rightarrow> u32 \<Rightarrow> bytes option" where
  "del_ptrs m i j numkeys indx ptr sz =
     (if i < numkeys then
        (if i = indx then del_ptrs m (Suc i) j numkeys indx ptr sz
         else do {
           w \<leftarrow> get16 m (ptr_pos i);
           m1 \<leftarrow> put16 m (ptr_pos j) w;
           w' \<leftarrow> get16 m1 (ptr_pos i);
           m2 \<leftarrow> (if w' < ptr then do { v \<leftarrow> get16 m1 (ptr_pos j); put16 m1 (ptr_pos j) (v + ucast sz) } else Some m1);
           del_ptrs m2 (Suc i) (Suc j) numkeys indx ptr sz })
      else Some m)"
  by auto
termination by (relation "measure (\<lambda>(m, i, j, numkeys, indx, ptr, sz). numkeys - i)") auto

declare del_ptrs.simps [simp del]

definition delete_fixed :: "nat \<Rightarrow> MDB_page \<Rightarrow> nat \<Rightarrow> MDB_page option" where
  "delete_fixed ksize p indx = do {
     bs \<leftarrow> mem_read (mp_mem p) (PAGEHDRSZ + indx * ksize + ksize) ((NUMKEYS p - 1 - indx) * ksize);
     m \<leftarrow> mem_write (mp_mem p) (PAGEHDRSZ + indx * ksize) bs;
     Some (p\<lparr>mp_mem := m, mp_lower := mp_lower p - 2, mp_upper := mp_upper p + (of_nat ksize - 2)\<rparr>) }"

definition mdb_node_del :: "MDB_page \<Rightarrow> nat \<Rightarrow> nat \<Rightarrow> MDB_page option" where
  "mdb_node_del p indx ksize =
     (if NUMKEYS p \<le> indx then None
      else if IS_LEAF2 p then delete_fixed ksize p indx
      else do {
        a \<leftarrow> NODEPTR p indx;
        n \<leftarrow> get_node (mp_mem p) a;
        ptr \<leftarrow> mp_ptrs p indx;
        (let sz = node_extent p n in
         do {
           m1 \<leftarrow> del_ptrs (mp_mem p) 0 0 (NUMKEYS p) indx ptr sz;
           bs \<leftarrow> (if ptr < mp_upper p then None else mem_read m1 (unat (mp_upper p)) (unat ptr - unat (mp_upper p)));
           m2 \<leftarrow> mem_write m1 (unat (mp_upper p) + unat sz) bs;
           Some (p\<lparr>mp_mem := m2, mp_lower := mp_lower p - 2, mp_upper := mp_upper p + ucast sz\<rparr>) }) })"

section \<open>Reading and writing the block\<close>

definition same_outside :: "bytes \<Rightarrow> bytes \<Rightarrow> nat \<Rightarrow> nat \<Rightarrow> bool" where
  "same_outside m m' a b \<longleftrightarrow> length m' = length m \<and> (\<forall>k < length m. k < a \<or> b \<le> k \<longrightarrow> m' ! k = m ! k)"

lemma mem_read_nth_iff: "mem_read m a n = Some bs \<longleftrightarrow> a + n \<le> length m \<and> length bs = n \<and> (\<forall>k < n. m ! (a + k) = bs ! k)"
proof
  assume "mem_read m a n = Some bs"
  then show "a + n \<le> length m \<and> length bs = n \<and> (\<forall>k < n. m ! (a + k) = bs ! k)" by (auto simp: mem_read_eq_Some_iff)
next
  assume h: "a + n \<le> length m \<and> length bs = n \<and> (\<forall>k < n. m ! (a + k) = bs ! k)"
  then have "bs = take n (drop a m)" by (intro nth_equalityI) auto
  then show "mem_read m a n = Some bs" using h by (simp add: mem_read_eq_Some_iff)
qed

lemma mem_read_same:
  assumes "same_outside m m' a b" and "k + n \<le> a \<or> b \<le> k"
  shows "mem_read m' k n = mem_read m k n"
proof (cases "k + n \<le> length m")
  case True
  then have "take n (drop k m') = take n (drop k m)" using assms by (intro nth_equalityI) (auto simp: same_outside_def)
  then show ?thesis using True assms(1) by (simp add: mem_read_def same_outside_def)
qed (use assms(1) in \<open>simp add: mem_read_def same_outside_def\<close>)

lemma get16_same: "same_outside m m' a b \<Longrightarrow> k + 2 \<le> a \<or> b \<le> k \<Longrightarrow> get16 m' k = get16 m k"
  using mem_read_same [of m m' a b k 2] by (simp add: get16_def)

lemma same_outside_trans:
  "same_outside m m' a b \<Longrightarrow> same_outside m' m'' c d \<Longrightarrow> min a c = x \<Longrightarrow> max b d = y \<Longrightarrow> same_outside m m'' x y"
  by (auto simp: same_outside_def)

lemma same_outside_mono: "same_outside m m' a b \<Longrightarrow> x \<le> a \<Longrightarrow> b \<le> y \<Longrightarrow> same_outside m m' x y"
  by (auto simp: same_outside_def)

lemma same_outside_refl [simp]: "same_outside m m a b"
  by (simp add: same_outside_def)

lemma mem_write_ok:
  assumes "a + length bs \<le> length m"
  shows "\<exists>m'. mem_write m a bs = Some m' \<and> same_outside m m' a (a + length bs) \<and> mem_read m' a (length bs) = Some bs"
proof -
  obtain m' where m': "mem_write m a bs = Some m'" using assms by (simp add: mem_simps)
  have l: "length m' = length m" by (rule mem_write_length [OF m'])
  have "same_outside m m' a (a + length bs)" using mem_write_nth [OF m'] l by (auto simp: same_outside_def)
  moreover have "mem_read m' a (length bs) = Some bs" using mem_write_nth [OF m'] l assms by (auto simp: mem_read_nth_iff)
  ultimately show ?thesis using m' by blast
qed

lemma put16_ok:
  assumes "a + 2 \<le> length m"
  shows "\<exists>m'. put16 m a w = Some m' \<and> same_outside m m' a (a + 2) \<and> get16 m' a = Some w"
  using mem_write_ok [of a "rev (htons w)" m] assms by (auto simp: put16_def get16_def)

lemma ptr_pos_less: "i < j \<Longrightarrow> ptr_pos i + 2 \<le> ptr_pos j"
  by (simp add: ptr_pos_def)

lemma ptr_pos_mono: "i \<le> j \<Longrightarrow> ptr_pos i \<le> ptr_pos j"
  by (simp add: ptr_pos_def)

lemma ptr_pos_Suc: "ptr_pos (Suc i) = ptr_pos i + 2"
  by (simp add: ptr_pos_def)

subsection \<open>The array of offsets\<close>

lemma shift_ptrs_ok:
  "indx \<le> n \<Longrightarrow> ptr_pos (Suc n) \<le> length m \<Longrightarrow>
     \<exists>m'. shift_ptrs m n indx = Some m' \<and> same_outside m m' (ptr_pos (Suc indx)) (ptr_pos (Suc n)) \<and>
       (\<forall>j. indx < j \<longrightarrow> j \<le> n \<longrightarrow> get16 m' (ptr_pos j) = get16 m (ptr_pos (j - 1)))"
proof (induction n arbitrary: m)
  case (Suc n)
  show ?case
  proof (cases "indx < Suc n")
    case False
    then show ?thesis using Suc.prems by auto
  next
    case True
    obtain w where w: "get16 m (ptr_pos n) = Some w" using Suc.prems(2) by (auto simp: get16_def mem_read_def ptr_pos_def)
    obtain m1 where m1: "put16 m (ptr_pos (Suc n)) w = Some m1" "same_outside m m1 (ptr_pos (Suc n)) (ptr_pos (Suc (Suc n)))"
      "get16 m1 (ptr_pos (Suc n)) = Some w"
      using put16_ok [of "ptr_pos (Suc n)" m w] Suc.prems(2) by (auto simp: ptr_pos_Suc)
    have l: "length m1 = length m" using m1(2) by (simp add: same_outside_def)
    obtain m2 where m2: "shift_ptrs m1 n indx = Some m2" "same_outside m1 m2 (ptr_pos (Suc indx)) (ptr_pos (Suc n))"
      "\<forall>j. indx < j \<longrightarrow> j \<le> n \<longrightarrow> get16 m2 (ptr_pos j) = get16 m1 (ptr_pos (j - 1))"
      using Suc.IH [of m1] True Suc.prems(2) l by (auto simp: ptr_pos_Suc)
    have "same_outside m m2 (ptr_pos (Suc indx)) (ptr_pos (Suc (Suc n)))"
      by (rule same_outside_trans [OF m1(2) m2(2)]) (use True in \<open>auto simp: ptr_pos_def\<close>)
    moreover have "get16 m2 (ptr_pos j) = get16 m (ptr_pos (j - 1))" if "indx < j" "j \<le> Suc n" for j
    proof (cases "j = Suc n")
      case True
      then show ?thesis using get16_same [OF m2(2), of "ptr_pos (Suc n)"] m1(3) w by simp
    next
      case False
      then have "get16 m2 (ptr_pos j) = get16 m1 (ptr_pos (j - 1))" using m2(3) that by simp
      also have "\<dots> = get16 m (ptr_pos (j - 1))" using that False by (intro get16_same [OF m1(2)]) (auto simp: ptr_pos_def)
      finally show ?thesis .
    qed
    ultimately show ?thesis using True w m1(1) m2(1) by simp
  qed
qed simp

text \<open>The entries behind the deleted one move down, and nodes in front of its bytes will move up.\<close>

definition moved :: "u16 \<Rightarrow> u32 \<Rightarrow> u16 \<Rightarrow> u16" where
  "moved ptr sz w = (if w < ptr then w + ucast sz else w)"

definition skip :: "nat \<Rightarrow> nat \<Rightarrow> nat" where
  "skip indx k = (if k < indx then k else Suc k)"

lemma del_ptrs_ok:
  assumes "indx < n" and "i \<le> n" and "j = (if i \<le> indx then i else i - 1)" and "ptr_pos n \<le> length m"
    and "\<forall>k. i \<le> k \<longrightarrow> k < n \<longrightarrow> get16 m (ptr_pos k) = Some (P k)"
    and "\<forall>k < j. get16 m (ptr_pos k) = Some (moved ptr sz (P (skip indx k)))"
  shows "\<exists>m'. del_ptrs m i j n indx ptr sz = Some m' \<and> same_outside m m' (ptr_pos 0) (ptr_pos n) \<and>
    (\<forall>k < n - 1. get16 m' (ptr_pos k) = Some (moved ptr sz (P (skip indx k))))"
  using assms
proof (induction "n - i" arbitrary: i j m)
  case 0
  then have "j = n - 1" "i = n" by auto
  then show ?case using 0 by (subst del_ptrs.simps) auto
next
  case (Suc d)
  then have i: "i < n" by simp
  show ?case
  proof (cases "i = indx")
    case True
    have "\<exists>m'. del_ptrs m (Suc i) j n indx ptr sz = Some m' \<and> same_outside m m' (ptr_pos 0) (ptr_pos n) \<and>
        (\<forall>k < n - 1. get16 m' (ptr_pos k) = Some (moved ptr sz (P (skip indx k))))"
      using Suc.hyps(1) [of "Suc i" j m] Suc.hyps(2) Suc.prems True i by auto
    then show ?thesis using True i by (subst del_ptrs.simps) simp
  next
    case False
    have j: "j \<le> i" "j < n" and sk: "skip indx j = i" using Suc.prems(3) False i by (auto simp: skip_def)
    have jp: "ptr_pos j + 2 \<le> length m" using Suc.prems(4) j(2) ptr_pos_less [of j n] by simp
    have w: "get16 m (ptr_pos i) = Some (P i)" using Suc.prems(5) i by simp
    obtain m1 where m1: "put16 m (ptr_pos j) (P i) = Some m1" "same_outside m m1 (ptr_pos j) (ptr_pos j + 2)" "get16 m1 (ptr_pos j) = Some (P i)"
      using put16_ok [OF jp] by blast
    have wi: "get16 m1 (ptr_pos i) = Some (P i)"
      using m1(3) w get16_same [OF m1(2), of "ptr_pos i"] j(1) by (cases "i = j") (auto simp: ptr_pos_def)
    have jp1: "ptr_pos j + 2 \<le> length m1" using jp m1(2) by (simp add: same_outside_def)
    obtain m2 where m2: "(if P i < ptr then do { v \<leftarrow> get16 m1 (ptr_pos j); put16 m1 (ptr_pos j) (v + ucast sz) } else Some m1) = Some m2"
      "same_outside m1 m2 (ptr_pos j) (ptr_pos j + 2)" "get16 m2 (ptr_pos j) = Some (moved ptr sz (P i))"
      using put16_ok [OF jp1, of "P i + ucast sz"] m1(3) by (cases "P i < ptr") (auto simp: moved_def)
    have s: "same_outside m m2 (ptr_pos j) (ptr_pos j + 2)" by (rule same_outside_trans [OF m1(2) m2(2)]) auto
    have l: "length m2 = length m" using s by (simp add: same_outside_def)
    have p5: "\<forall>k. Suc i \<le> k \<longrightarrow> k < n \<longrightarrow> get16 m2 (ptr_pos k) = Some (P k)"
      using Suc.prems(5) get16_same [OF s] j(1) by (auto simp: ptr_pos_def)
    have p6: "\<forall>k < Suc j. get16 m2 (ptr_pos k) = Some (moved ptr sz (P (skip indx k)))"
      using Suc.prems(6) get16_same [OF s] m2(3) sk by (auto simp: less_Suc_eq ptr_pos_def)
    have j': "Suc j = (if Suc i \<le> indx then Suc i else Suc i - 1)" using Suc.prems(3) False by (cases i) auto
    have del: "\<exists>m'. del_ptrs m2 (Suc i) (Suc j) n indx ptr sz = Some m' \<and> same_outside m2 m' (ptr_pos 0) (ptr_pos n) \<and>
        (\<forall>k < n - 1. get16 m' (ptr_pos k) = Some (moved ptr sz (P (skip indx k))))"
      by (rule Suc.hyps(1) [OF _ Suc.prems(1) _ j' _ p5 p6]) (use Suc.hyps(2) Suc.prems(4) i l in simp_all)
    obtain m' where m': "del_ptrs m2 (Suc i) (Suc j) n indx ptr sz = Some m'" "same_outside m2 m' (ptr_pos 0) (ptr_pos n)"
      "\<forall>k < n - 1. get16 m' (ptr_pos k) = Some (moved ptr sz (P (skip indx k)))"
      using del by blast
    have "same_outside m m' (ptr_pos 0) (ptr_pos n)"
      by (rule same_outside_trans [OF s m'(2)]) (use j(2) in \<open>auto simp: ptr_pos_def\<close>)
    then show ?thesis using w m1(1) wi m2(1) m'(1,3) i False by (subst del_ptrs.simps) simp
  qed
qed

section \<open>The nodes of a page\<close>

definition even_up :: "nat \<Rightarrow> nat" where
  "even_up n = n + n mod 2"

definition node_length :: "bool \<Rightarrow> MDB_node \<Rightarrow> nat" where
  "node_length leaf n = NODESIZE + unat (mn_ksize n) +
     (if leaf then (if F_ISSET (mn_flags n) (ucast F_BIGDATA) then 8 else unat (NODEDSZ n)) else 0)"

definition node_ok :: "bool \<Rightarrow> bytes \<Rightarrow> bool" where
  "node_ok leaf b \<longleftrightarrow> (\<exists>n. get_node b 0 = Some n \<and> length b = node_length leaf n)"

definition extent :: "bytes \<Rightarrow> nat" where
  "extent b = even_up (length b)"

text \<open>Nodes, given by their offsets and bytes, lie behind \<open>u\<close> and apart from each other.\<close>

fun apart :: "nat \<times> bytes \<Rightarrow> nat \<times> bytes \<Rightarrow> bool" where
  "apart (a, b) (c, d) \<longleftrightarrow> a + extent b \<le> c \<or> c + extent d \<le> a"

definition placed :: "bytes \<Rightarrow> nat \<Rightarrow> (nat \<times> bytes) list \<Rightarrow> bool" where
  "placed m u ps \<longleftrightarrow> sorted_wrt apart ps \<and>
     (\<forall>(a, b) \<in> set ps. u \<le> a \<and> a + extent b \<le> length m \<and> mem_read m a (length b) = Some b)"

text \<open>A page with the nodes \<open>bs\<close>; all the space behind its upper bound is taken by nodes.\<close>

definition page_rep :: "MDB_page \<Rightarrow> bytes list \<Rightarrow> bool" where
  "page_rep p bs \<longleftrightarrow> \<not> IS_LEAF2 p \<and> length (mp_mem p) < 2 ^ 16 \<and> unat (mp_lower p) = PAGEHDRSZ + 2 * length bs \<and>
     unat (mp_lower p) \<le> unat (mp_upper p) \<and> unat (mp_upper p) + sum_list (map extent bs) = length (mp_mem p) \<and>
     (\<forall>b \<in> set bs. node_ok (IS_LEAF p) b) \<and>
     (\<exists>ps. map snd ps = bs \<and> placed (mp_mem p) (unat (mp_upper p)) ps \<and> (\<forall>i < length ps. mp_ptrs p i = Some (of_nat (fst (ps ! i)))))"

lemma even_up_ge: "n \<le> even_up n"
  by (simp add: even_up_def)

lemma unat_even_up:
  fixes x :: "'a::len word"
  assumes "unat x + 1 < 2 ^ LENGTH('a)"
  shows "unat (x + (x AND 1)) = even_up (unat x)"
proof -
  have "unat (x AND 1) = unat x AND unat (1 :: 'a word)" by (rule unsigned_and_eq)
  then have "unat (x AND 1) = unat x mod 2" by (simp add: and_one_eq [of "unat x"])
  then show ?thesis using assms by (simp add: unat_word_ariths even_up_def)
qed

lemma unat_u16_u32: "unat (ucast (w :: u16) :: u32) = unat w"
proof -
  have "unat w < 2 ^ LENGTH(16)" by (rule unsigned_less)
  then have "take_bit LENGTH(32) (unat w) = unat w" by (intro take_bit_nat_eq_self) simp
  then show ?thesis by (simp only: unsigned_ucast_eq)
qed

lemma NUMKEYS_ok:
  assumes "page_rep p bs"
  shows "NUMKEYS p = length bs"
proof -
  let ?x = "ucast (mp_lower p) :: u32"
  have x: "unat ?x = 16 + 2 * length bs" using assms by (simp only: unat_u16_u32) (simp add: page_rep_def PAGEHDRSZ_def)
  then have "(16 :: u32) \<le> ?x" by (simp add: word_le_nat_alt)
  then have "unat (?x - 16) = 2 * length bs" using x by (simp add: unat_sub)
  then show ?thesis by (simp add: NUMKEYS_def PAGEHDRSZ_def drop_bit_eq_div unat_div)
qed

lemma mem_read_sub: "mem_read m a (length b) = Some b \<Longrightarrow> mem_read b k n = Some x \<Longrightarrow> mem_read m (a + k) n = Some x"
  by (auto simp: mem_read_nth_iff add.assoc)

lemma get16_sub: "mem_read m a (length b) = Some b \<Longrightarrow> get16 b k = Some w \<Longrightarrow> get16 m (a + k) = Some w"
  using mem_read_sub [of m a b k 2] by (auto simp: get16_def split: bind_splits)

lemma get_node_read:
  assumes m: "mem_read m a (length b) = Some b" and "get_node b 0 = Some n"
  shows "get_node m a = Some n"
  using assms(2) get16_sub [OF m, of 0] get16_sub [OF m, of 2] get16_sub [OF m, of 4] get16_sub [OF m, of 6]
  by (auto simp: get_node_def numeral_2_eq_2 split: bind_splits)

lemma node_extent_ok:
  assumes "length b = node_length (IS_LEAF p) n" and "length b < 2 ^ 16"
  shows "unat (node_extent p n) = extent b"
proof -
  let ?d = "if IS_LEAF p then (if F_ISSET (mn_flags n) (ucast F_BIGDATA) then 8 else NODEDSZ n) else 0"
  let ?x = "of_nat NODESIZE + ucast (mn_ksize n) + ?d :: u32"
  have "8 + unat (mn_ksize n) + unat ?d = length b" using assms(1) by (simp add: node_length_def NODESIZE_def)
  moreover have "unat (8 + ucast (mn_ksize n) :: u32) = 8 + unat (mn_ksize n)"
    using calculation assms(2) unat_u16_u32 [of "mn_ksize n"] by (simp add: unat_word_ariths)
  ultimately have x: "unat ?x = length b" using assms(2) by (simp add: unat_word_ariths NODESIZE_def)
  then have "unat (?x + (?x AND 1)) = even_up (length b)" using assms(2) by (subst unat_even_up) simp_all
  then show ?thesis by (simp add: node_extent_def extent_def Let_def)
qed

lemma apart_sym: "apart x y \<Longrightarrow> apart y x"
  by (cases x; cases y) auto

lemma placedD:
  assumes "placed m u ps" and "(c, d) \<in> set ps"
  shows "u \<le> c" and "c + extent d \<le> length m" and "mem_read m c (length d) = Some d"
  using assms by (auto simp: placed_def)

lemma placed_insert:
  assumes p: "placed m u (xs @ ys)" and s: "\<forall>k. u \<le> k \<longrightarrow> k < length m \<longrightarrow> m' ! k = m ! k" "length m' = length m"
    and n: "mem_read m' a (length b) = Some b" "a + extent b \<le> u" "u \<le> length m"
  shows "placed m' a (xs @ (a, b) # ys)"
proof -
  have old: "a \<le> c \<and> c + extent d \<le> length m' \<and> mem_read m' c (length d) = Some d" if cd: "(c, d) \<in> set (xs @ ys)" for c d
    using placedD [OF p cd] s n(2) by (simp add: mem_read_nth_iff)
  have ap: "apart x (a, b)" "apart (a, b) x" if "x \<in> set (xs @ ys)" for x
    using placedD(1) [OF p, of "fst x" "snd x"] that n(2) by (cases x; simp)+
  have srt: "sorted_wrt apart (xs @ ys)" using p by (simp add: placed_def)
  have "sorted_wrt apart (xs @ (a, b) # ys)" using srt ap by (simp add: sorted_wrt_append)
  moreover have "\<forall>(c, d) \<in> set (xs @ (a, b) # ys). a \<le> c \<and> c + extent d \<le> length m' \<and> mem_read m' c (length d) = Some d"
    using old n s(2) by auto
  ultimately show ?thesis by (simp add: placed_def)
qed

definition move_up :: "nat \<Rightarrow> nat \<Rightarrow> nat \<Rightarrow> nat" where
  "move_up a e c = (if c < a then c + e else c)"

lemma placed_delete:
  assumes p: "placed m u (xs @ (a, b) # ys)" and e: "e = extent b" "0 < e" and pos: "\<forall>d \<in> snd ` set (xs @ ys). 0 < extent d"
    and s: "length m' = length m" "\<forall>k. u + e \<le> k \<longrightarrow> k < a + e \<longrightarrow> m' ! k = m ! (k - e)" "\<forall>k. a + e \<le> k \<longrightarrow> k < length m \<longrightarrow> m' ! k = m ! k"
  shows "placed m' (u + e) (map (apfst (move_up a e)) (xs @ ys))"
proof -
  have ap: "apart (a, b) (c, d)" if "(c, d) \<in> set (xs @ ys)" for c d
    using p that by (auto simp: placed_def sorted_wrt_append intro: apart_sym)
  have in_m: "u \<le> c" "c + extent d \<le> length m" "mem_read m c (length d) = Some d" if "(c, d) \<in> set (xs @ ys)" for c d
    using p that by (auto simp: placed_def)
  have a: "u \<le> a" "a + e \<le> length m" using p e by (auto simp: placed_def)
  have lo: "c + extent d \<le> a" if "(c, d) \<in> set (xs @ ys)" "c < a" for c d using ap [OF that(1)] that(2) e by auto
  have hi: "a + e \<le> c" if "(c, d) \<in> set (xs @ ys)" "\<not> c < a" for c d using ap [OF that(1)] that e pos by force
  have len: "length d \<le> extent d" for d using even_up_ge by (simp add: extent_def)
  have rd: "u + e \<le> move_up a e c \<and> move_up a e c + extent d \<le> length m' \<and> mem_read m' (move_up a e c) (length d) = Some d"
    if cd: "(c, d) \<in> set (xs @ ys)" for c d
  proof (cases "c < a")
    case True
    have "m' ! (c + e + k) = d ! k" if "k < length d" for k
      using s(2) [rule_format, of "c + e + k"] in_m [OF cd] lo [OF cd True] len [of d] that by (auto simp: mem_read_nth_iff)
    then show ?thesis using True in_m [OF cd] lo [OF cd True] a s(1) len [of d] by (auto simp: move_up_def mem_read_nth_iff)
  next
    case False
    have "m' ! (c + k) = d ! k" if "k < length d" for k
      using s(3) [rule_format, of "c + k"] in_m [OF cd] hi [OF cd False] len [of d] that by (auto simp: mem_read_nth_iff)
    then show ?thesis using False in_m [OF cd] hi [OF cd False] a s(1) len [of d] by (auto simp: move_up_def mem_read_nth_iff)
  qed
  have "apart (move_up a e c, d) (move_up a e c', d')"
    if cd: "(c, d) \<in> set (xs @ ys)" and cd': "(c', d') \<in> set (xs @ ys)" and x: "apart (c, d) (c', d')" for c d c' d'
    using x lo [OF cd] lo [OF cd'] hi [OF cd] hi [OF cd'] by (auto simp: move_up_def)
  moreover have "sorted_wrt apart (xs @ ys)" using p by (auto simp: placed_def sorted_wrt_append)
  ultimately have "sorted_wrt (\<lambda>x y. apart (apfst (move_up a e) x) (apfst (move_up a e) y)) (xs @ ys)"
    by (elim sorted_wrt_mono_rel [rotated]) auto
  then have "sorted_wrt apart (map (apfst (move_up a e)) (xs @ ys))" by (simp only: sorted_wrt_map)
  moreover have "\<forall>(c, d) \<in> set (map (apfst (move_up a e)) (xs @ ys)). u + e \<le> c \<and> c + extent d \<le> length m' \<and> mem_read m' c (length d) = Some d"
    using rd by (auto simp: apfst_def map_prod_def)
  ultimately show ?thesis by (simp add: placed_def)
qed

subsection \<open>Deleting\<close>

lemma nth_skip: "k < length xs + length ys \<Longrightarrow> (xs @ x # ys) ! skip (length xs) k = (xs @ ys) ! k"
  by (auto simp: skip_def nth_append Suc_diff_le)

lemma ucast_u16: "ucast (w :: u32) = (of_nat (unat w) :: u16)"
  by (rule unsigned_word_eqI [where ?'a = nat]) (simp add: unsigned_ucast_eq unsigned_of_nat)

lemma unat_u16: "n < 2 ^ 16 \<Longrightarrow> unat (of_nat n :: u16) = n"
  by (simp add: unsigned_of_nat take_bit_nat_eq_self)

lemma moved_of_nat:
  assumes "a < 2 ^ 16" and "c < 2 ^ 16"
  shows "moved (of_nat a) sz (of_nat c) = of_nat (move_up a (unat sz) c)"
proof -
  have lt: "(of_nat c :: u16) < of_nat a \<longleftrightarrow> c < a" using assms by (simp add: word_less_nat_alt unat_u16)
  show ?thesis
  proof (cases "c < a")
    case True
    have "moved (of_nat a) sz (of_nat c) = of_nat c + ucast sz" by (simp only: moved_def lt True if_True)
    also have "\<dots> = of_nat (c + unat sz)" by (simp only: ucast_u16 of_nat_add)
    finally show ?thesis by (simp only: move_up_def True if_True)
  next
    case False
    then show ?thesis by (simp only: moved_def lt move_up_def if_False)
  qed
qed

lemma node_positive: "node_ok leaf b \<Longrightarrow> 0 < extent b"
  by (auto simp: node_ok_def node_length_def NODESIZE_def extent_def even_up_def)

text \<open>The bytes between \<open>u\<close> and \<open>a\<close> are moved up by \<open>e\<close>.\<close>

lemma memmove_up:
  assumes "u \<le> a" and "a + e \<le> length m"
  shows "\<exists>bs m'. mem_read m u (a - u) = Some bs \<and> mem_write m (u + e) bs = Some m' \<and> length m' = length m \<and>
    (\<forall>k. u + e \<le> k \<longrightarrow> k < a + e \<longrightarrow> m' ! k = m ! (k - e)) \<and> (\<forall>k < length m. k < u + e \<or> a + e \<le> k \<longrightarrow> m' ! k = m ! k)"
proof -
  obtain bs where bs: "mem_read m u (a - u) = Some bs" using assms by (simp add: mem_simps)
  then have l: "length bs = a - u" "\<forall>k < a - u. m ! (u + k) = bs ! k" by (simp_all add: mem_read_nth_iff)
  obtain m' where m': "mem_write m (u + e) bs = Some m'" using l assms by (simp add: mem_simps)
  have n: "m' ! k = (if u + e \<le> k \<and> k < a + e then bs ! (k - (u + e)) else m ! k)" if "k < length m" for k
    using mem_write_nth [OF m' that] l(1) assms(1) by simp
  have "bs ! (k - (u + e)) = m ! (k - e)" if "u + e \<le> k" "k < a + e" for k
    using l(2) [rule_format, of "k - (u + e)"] that by simp
  then show ?thesis using bs m' mem_write_length [OF m'] n assms(2) by auto
qed

lemma mdb_node_del_ok:
  assumes r: "page_rep p (xs @ b # ys)"
  shows "\<exists>p'. mdb_node_del p (length xs) ks = Some p' \<and> page_rep p' (xs @ ys) \<and> mp_flags p' = mp_flags p \<and> length (mp_mem p') = length (mp_mem p)"
proof -
  let ?m = "mp_mem p" and ?u = "unat (mp_upper p)" and ?i = "length xs" and ?n = "length (xs @ b # ys)"
  note d = r [unfolded page_rep_def]
  obtain ps where ps: "map snd ps = xs @ b # ys" "placed ?m ?u ps" "\<forall>i < length ps. mp_ptrs p i = Some (of_nat (fst (ps ! i)))" using d by blast
  obtain px a py where px: "ps = px @ (a, b) # py" "map snd px = xs" "map snd py = ys"
    using ps(1) by (auto simp: map_eq_append_conv map_eq_Cons_conv)
  have i: "length px = ?i" "length ps = ?n" using px by auto
  have ab: "?u \<le> a" "a + extent b \<le> length ?m" "mem_read ?m a (length b) = Some b" using ps(2) px(1) by (auto simp: placed_def)
  have small: "c < 2 ^ 16" if "(c, e) \<in> set ps" for c e using ps(2) that d by (fastforce simp: placed_def)
  have a16: "a < 2 ^ 16" using small px(1) by auto
  obtain nd where nd: "get_node b 0 = Some nd" "length b = node_length (IS_LEAF p) nd" using d by (auto simp: node_ok_def)
  have gn: "get_node ?m a = Some nd" by (rule get_node_read [OF ab(3) nd(1)])
  define sz where "sz = node_extent p nd"
  have "length b \<le> extent b" using even_up_ge by (simp add: extent_def)
  then have e: "unat sz = extent b" using node_extent_ok [OF nd(2)] ab(2) d by (simp add: sz_def)
  have pt: "mp_ptrs p ?i = Some (of_nat a)" using ps(3) px(1) i by (auto simp: nth_append)
  have nk: "NUMKEYS p = ?n" by (rule NUMKEYS_ok [OF r])
  have lo: "ptr_pos ?n \<le> ?u" "?u \<le> length ?m" using d by (auto simp: ptr_pos_def)
  obtain m1 where m1: "del_ptrs ?m 0 0 ?n ?i (of_nat a) sz = Some m1" "same_outside ?m m1 (ptr_pos 0) (ptr_pos ?n)"
    "\<forall>k < ?n - 1. get16 m1 (ptr_pos k) = Some (moved (of_nat a) sz (of_nat (fst (ps ! skip ?i k))))"
    using del_ptrs_ok [of ?i ?n 0 0 ?m "\<lambda>k. of_nat (fst (ps ! k))" "of_nat a" sz] ps(3) i(2) lo by (auto simp: mp_ptrs_def)
  have l1: "length m1 = length ?m" "\<forall>k. ?u \<le> k \<longrightarrow> k < length ?m \<longrightarrow> m1 ! k = ?m ! k" using m1(2) lo by (auto simp: same_outside_def)
  obtain bs m2 where m2: "mem_read m1 ?u (a - ?u) = Some bs" "mem_write m1 (?u + unat sz) bs = Some m2" "length m2 = length m1"
    "\<forall>k. ?u + unat sz \<le> k \<longrightarrow> k < a + unat sz \<longrightarrow> m2 ! k = m1 ! (k - unat sz)"
    "\<forall>k < length m1. k < ?u + unat sz \<or> a + unat sz \<le> k \<longrightarrow> m2 ! k = m1 ! k"
    using memmove_up [of ?u a "unat sz" m1] ab(1,2) l1(1) e by auto
  define p' where "p' = p\<lparr>mp_mem := m2, mp_lower := mp_lower p - 2, mp_upper := mp_upper p + ucast sz\<rparr>"
  have "mdb_node_del p ?i ks = Some p'"
    using nk d pt gn m1(1) m2(1,2) ab(1) a16
    by (simp add: mdb_node_del_def NODEPTR_def unat_u16 word_less_nat_alt sz_def [symmetric] p'_def)
  moreover have "page_rep p' (xs @ ys)"
  proof -
    let ?ps = "map (apfst (move_up a (unat sz))) (px @ py)"
    have up: "unat (mp_upper p') = ?u + unat sz"
    proof -
      have "unat (ucast sz :: u16) = unat sz" using ab(2) e d by (simp only: ucast_u16) (rule unat_u16, simp)
      then show ?thesis using ab(1,2) e d by (simp add: p'_def unat_word_ariths)
    qed
    have low: "unat (mp_lower p') = PAGEHDRSZ + 2 * length (xs @ ys)"
      using d by (simp add: p'_def unat_sub word_le_nat_alt PAGEHDRSZ_def)
    have "\<forall>c \<in> set (xs @ ys). 0 < extent c" and eb: "0 < extent b" using d node_positive by auto
    moreover have "snd ` set (px @ py) = set (xs @ ys)" by (simp add: px(2,3) [symmetric] image_Un)
    ultimately have pos: "\<forall>c \<in> snd ` set (px @ py). 0 < extent c" by simp
    have "placed m2 (?u + unat sz) ?ps"
      by (rule placed_delete [OF ps(2) [unfolded px(1)] e _ pos]) (use e eb m2(3-5) l1 ab in auto)
    moreover have "mp_ptrs p' k = Some (of_nat (fst (?ps ! k)))" if k: "k < length ?ps" for k
    proof -
      have kn: "k < ?n - 1" using k i px by simp
      have "mp_ptrs p' k = get16 m1 (ptr_pos k)"
        unfolding mp_ptrs_def p'_def using m2(3,5) lo ptr_pos_less [of k ?n] kn
        by (simp, intro get16_same [where a = "?u + unat sz" and b = "a + unat sz"]) (auto simp: same_outside_def)
      also have "\<dots> = Some (moved (of_nat a) sz (of_nat (fst ((px @ py) ! k))))"
        using m1(3) kn nth_skip [of k px py "(a, b)"] k px(1) i(1) by simp
      also have "fst ((px @ py) ! k) < 2 ^ 16" using small px(1) nth_mem [of k "px @ py"] k by (cases "(px @ py) ! k") auto
      then have "moved (of_nat a) sz (of_nat (fst ((px @ py) ! k))) = of_nat (fst (?ps ! k))"
        using moved_of_nat [OF a16] nth_map [of k "px @ py" "apfst (move_up a (unat sz))"] k by (simp del: map_append)
      finally show ?thesis .
    qed
    moreover have "map snd ?ps = xs @ ys" using px by (simp add: comp_def)
    ultimately have "\<exists>ps. map snd ps = xs @ ys \<and> placed (mp_mem p') (unat (mp_upper p')) ps \<and> (\<forall>i < length ps. mp_ptrs p' i = Some (of_nat (fst (ps ! i))))"
      by (intro exI [of _ ?ps]) (simp add: up, simp add: p'_def)
    moreover have "IS_LEAF p' = IS_LEAF p" "IS_LEAF2 p' = IS_LEAF2 p" "length (mp_mem p') = length ?m"
      using m2(3) l1(1) by (simp_all add: p'_def IS_LEAF_def IS_LEAF2_def)
    ultimately show ?thesis unfolding page_rep_def using d up low e by simp
  qed
  ultimately show ?thesis using m2(3) l1(1) by (auto simp: p'_def)
qed

subsection \<open>Adding\<close>

lemma ntohs_rev: "mem_read m a 2 = Some (rev (htons w)) \<Longrightarrow> get16 m a = Some w"
  by (simp add: get16_def)

lemma length_node_bytes [simp]: "length (node_bytes n) = NODESIZE"
  by (simp add: node_bytes_def NODESIZE_def)

lemma get_node_bytes: "get_node (node_bytes n @ r) 0 = Some n"
proof -
  have "mem_read (x @ y @ z) (length x) (length y) = Some y" for x y z :: bytes by (simp add: mem_read_def)
  note rd = this [of "[]" "rev (htons (mn_lo n))"] this [of "rev (htons (mn_lo n))" "rev (htons (mn_hi n))"]
    this [of "rev (htons (mn_lo n)) @ rev (htons (mn_hi n))" "rev (htons (mn_flags n))"]
    this [of "rev (htons (mn_lo n)) @ rev (htons (mn_hi n)) @ rev (htons (mn_flags n))" "rev (htons (mn_ksize n))"]
  show ?thesis unfolding get_node_def using rd by (simp add: node_bytes_def ntohs_rev del: add_2_eq_Suc add_2_eq_Suc')
qed

lemma mem_write_append:
  assumes x: "mem_read m a (length x) = Some x" and y: "a + length x + length y \<le> length m"
  shows "\<exists>m'. mem_write m (a + length x) y = Some m' \<and> mem_read m' a (length (x @ y)) = Some (x @ y) \<and>
    same_outside m m' (a + length x) (a + length (x @ y))"
proof -
  obtain m' where m': "mem_write m (a + length x) y = Some m'" "same_outside m m' (a + length x) (a + length x + length y)"
    "mem_read m' (a + length x) (length y) = Some y" using mem_write_ok [OF y] by blast
  have "mem_read m' a (length x) = Some x" using mem_read_same [OF m'(2), of a "length x"] x by simp
  then have "m' ! (a + k) = (x @ y) ! k" if "k < length (x @ y)" for k
    using m'(3) that by (cases "k < length x") (auto simp: mem_read_nth_iff nth_append dest: spec [of _ "k - length x"])
  then have "mem_read m' a (length (x @ y)) = Some (x @ y)" using m'(2) y by (simp add: mem_read_nth_iff same_outside_def)
  then show ?thesis using m' by (auto simp: add.assoc)
qed

text \<open>The bytes of a key, the data that goes into the node, and the node.\<close>

definition key_content :: "MDB_val option \<Rightarrow> bytes" where
  "key_content key = (case key of None \<Rightarrow> [] | Some k \<Rightarrow> take (unat (mv_size k)) (mv_data k))"

definition payload :: "MDB_val \<Rightarrow> u32 \<Rightarrow> u64 option \<Rightarrow> bytes" where
  "payload d flags ofp = (case ofp of
     None \<Rightarrow> (if F_ISSET flags F_BIGDATA then take 8 (mv_data d) else take (unat (mv_size d)) (mv_data d))
   | Some pg \<Rightarrow> put64 pg)"

definition node_header :: "MDB_val option \<Rightarrow> MDB_val option \<Rightarrow> u64 \<Rightarrow> u32 \<Rightarrow> bool \<Rightarrow> MDB_node" where
  "node_header key data pgno flags leaf =
     (let nd = \<lparr>mn_lo = 0, mn_hi = 0, mn_flags = ucast flags, mn_ksize = ucast (key_size key)\<rparr> in
      case (leaf, data) of (True, Some d) \<Rightarrow> SETDSZ (mv_size d) nd | _ \<Rightarrow> SETPGNO pgno nd)"

definition stored_node :: "MDB_val option \<Rightarrow> MDB_val option \<Rightarrow> u64 \<Rightarrow> u32 \<Rightarrow> u64 option \<Rightarrow> bool \<Rightarrow> bytes" where
  "stored_node key data pgno flags ofp leaf = node_bytes (node_header key data pgno flags leaf) @ key_content key @
     (case (leaf, data) of (True, Some d) \<Rightarrow> payload d flags ofp | _ \<Rightarrow> [])"

text \<open>The memory behind a key or a value is there; without overflow pages the data are those that are given.\<close>

definition val_ok :: "MDB_val \<Rightarrow> bool" where
  "val_ok v \<longleftrightarrow> unat (mv_size v) \<le> length (mv_data v)"

definition args_ok :: "bool \<Rightarrow> MDB_val option \<Rightarrow> MDB_val option \<Rightarrow> u32 \<Rightarrow> u64 option \<Rightarrow> bool" where
  "args_ok leaf key data flags ofp \<longleftrightarrow> (\<forall>k. key = Some k \<longrightarrow> val_ok k) \<and> \<not> F_ISSET flags MDB_RESERVE \<and>
     (if leaf then key \<noteq> None \<and> (\<exists>d. data = Some d \<and> unat (mv_size d) < 2 ^ 32 \<and>
        (if F_ISSET flags F_BIGDATA \<and> ofp = None then 8 \<le> length (mv_data d) else val_ok d) \<and> (ofp \<noteq> None \<longrightarrow> F_ISSET flags F_BIGDATA))
      else ofp = None)"

lemma length_payload:
  assumes "args_ok True key (Some d) flags ofp"
  shows "length (payload d flags ofp) = (if F_ISSET flags F_BIGDATA then 8 else unat (mv_size d))"
  using assms by (cases ofp) (auto simp: args_ok_def payload_def val_ok_def put64_def)

lemma write_data_ok:
  assumes a: "args_ok True key (Some d) flags ofp" and x: "mem_read m a (length x) = Some x"
    and l: "a + length x + length (payload d flags ofp) \<le> length m"
  shows "\<exists>m' ov. write_data m (a + length x) d flags ofp = Some (m', ov) \<and> mem_read m' a (length (x @ payload d flags ofp)) = Some (x @ payload d flags ofp) \<and>
    same_outside m m' (a + length x) (a + length (x @ payload d flags ofp)) \<and>
    ov = (case ofp of None \<Rightarrow> None | Some pg \<Rightarrow> Some (pg, take (unat (mv_size d)) (mv_data d)))"
proof -
  obtain m' where m': "mem_write m (a + length x) (payload d flags ofp) = Some m'"
    "mem_read m' a (length (x @ payload d flags ofp)) = Some (x @ payload d flags ofp)"
    "same_outside m m' (a + length x) (a + length (x @ payload d flags ofp))" using mem_write_append [OF x l] by blast
  have r: "\<not> F_ISSET flags MDB_RESERVE" using a by (simp add: args_ok_def)
  have "write_data m (a + length x) d flags ofp = Some (m', case ofp of None \<Rightarrow> None | Some pg \<Rightarrow> Some (pg, take (unat (mv_size d)) (mv_data d)))"
  proof (cases ofp)
    case None
    then show ?thesis using a m'(1) r by (auto simp: write_data_def val_bytes_def payload_def args_ok_def val_ok_def mem_simps split: if_splits)
  next
    case (Some pg)
    then show ?thesis using a m'(1) r by (auto simp: write_data_def val_bytes_def payload_def args_ok_def val_ok_def mem_simps)
  qed
  then show ?thesis using m'(2,3) by blast
qed

lemma write_node_ok:
  assumes a: "args_ok leaf key data flags ofp" and l: "ofs + length (stored_node key data pgno flags ofp leaf) \<le> length m"
  shows "\<exists>m3 m4 m5 ov. mem_write m ofs (node_bytes (node_header key data pgno flags leaf)) = Some m3 \<and> write_key m3 (ofs + NODESIZE) key = Some m4 \<and>
    (case (leaf, data, key) of (False, _, _) \<Rightarrow> Some (m4, None)
       | (True, Some d, Some k) \<Rightarrow> write_data m4 (ofs + NODESIZE + unat (mv_size k)) d flags ofp | _ \<Rightarrow> None) = Some (m5, ov) \<and>
    mem_read m5 ofs (length (stored_node key data pgno flags ofp leaf)) = Some (stored_node key data pgno flags ofp leaf) \<and>
    same_outside m m5 ofs (ofs + length (stored_node key data pgno flags ofp leaf)) \<and>
    ov = (case (ofp, data) of (Some pg, Some d) \<Rightarrow> Some (pg, take (unat (mv_size d)) (mv_data d)) | _ \<Rightarrow> None)"
proof -
  let ?n = "node_bytes (node_header key data pgno flags leaf)" and ?k = "key_content key"
  define t where "t = (case (leaf, data) of (True, Some d) \<Rightarrow> payload d flags ofp | _ \<Rightarrow> [])"
  have b: "stored_node key data pgno flags ofp leaf = (?n @ ?k) @ t" by (simp add: stored_node_def t_def)
  have kl: "length ?k = unat (key_size key)" using a by (auto simp: key_content_def key_size_def args_ok_def val_ok_def split: option.splits)
  obtain m3 where m3: "mem_write m ofs ?n = Some m3" "same_outside m m3 ofs (ofs + length ?n)" "mem_read m3 ofs (length ?n) = Some ?n"
    using mem_write_ok [of ofs ?n m] l b by auto
  have l3: "length m3 = length m" using m3(2) by (simp add: same_outside_def)
  obtain m4 where m4: "mem_write m3 (ofs + length ?n) ?k = Some m4" "mem_read m4 ofs (length (?n @ ?k)) = Some (?n @ ?k)"
    "same_outside m3 m4 (ofs + length ?n) (ofs + length (?n @ ?k))"
    using mem_write_append [OF m3(3), of ?k] l b l3 by auto
  have wk: "\<exists>m4'. write_key m3 (ofs + NODESIZE) key = Some m4' \<and> (m4' = m4)"
  proof (cases key)
    case None
    then show ?thesis using m4(1) by (simp add: write_key_def key_content_def mem_write_def split: if_splits)
  next
    case (Some k)
    then show ?thesis using m4(1) a by (simp add: write_key_def key_content_def val_bytes_def args_ok_def val_ok_def mem_simps)
  qed
  have s4: "same_outside m m4 ofs (ofs + length (?n @ ?k))" by (rule same_outside_trans [OF m3(2) m4(3)]) auto
  have l4: "length m4 = length m" using s4 by (simp add: same_outside_def)
  show ?thesis
  proof (cases leaf)
    case False
    then have "t = []" "ofp = None" using a by (auto simp: t_def args_ok_def split: option.splits)
    then show ?thesis using False m3(1) wk m4(2) s4 unfolding b by auto
  next
    case True
    then obtain d k where dk: "data = Some d" "key = Some k" using a by (auto simp: args_ok_def)
    then have t: "t = payload d flags ofp" and at: "args_ok True key (Some d) flags ofp" using True a by (simp_all add: t_def)
    have "ofs + length (?n @ ?k) + length (payload d flags ofp) \<le> length m4" using l b t l4 by simp
    then obtain m5 ov where m5: "write_data m4 (ofs + length (?n @ ?k)) d flags ofp = Some (m5, ov)"
      "mem_read m5 ofs (length ((?n @ ?k) @ t)) = Some ((?n @ ?k) @ t)" "same_outside m4 m5 (ofs + length (?n @ ?k)) (ofs + length ((?n @ ?k) @ t))"
      "ov = (case ofp of None \<Rightarrow> None | Some pg \<Rightarrow> Some (pg, take (unat (mv_size d)) (mv_data d)))"
      using write_data_ok [OF at m4(2)] t by blast
    have "same_outside m m5 ofs (ofs + length ((?n @ ?k) @ t))" by (rule same_outside_trans [OF s4 m5(3)]) auto
    moreover have "ofs + length (?n @ ?k) = ofs + NODESIZE + unat (mv_size k)" using kl dk by (simp add: key_size_def)
    ultimately show ?thesis using True dk m3(1) wk m5 unfolding b by (auto simp: add.assoc split: option.splits)
  qed
qed

lemma unat_u64_u16: "unat (w :: u64) < 2 ^ 16 \<Longrightarrow> unat (ucast w :: u16) = unat w"
  by (simp add: unsigned_ucast_eq take_bit_nat_eq_self)

lemma NODEDSZ_SETDSZ:
  assumes "unat sz < 2 ^ 32"
  shows "unat (NODEDSZ (SETDSZ sz n)) = unat sz"
proof -
  have "NODEDSZ (SETDSZ sz n) = ucast sz"
    by (rule bit_word_eqI) (auto simp: NODEDSZ_def SETDSZ_def bit_simps)
  then show ?thesis using assms by (simp add: unsigned_ucast_eq take_bit_nat_eq_self)
qed

lemma F_ISSET_1: "F_ISSET v 1 \<longleftrightarrow> bit v 0"
  by (simp add: F_ISSET_def and_one_eq bit_0 odd_iff_mod_2_eq_one)

lemma bigdata_flag: "F_ISSET (ucast (w :: u32) :: u16) (ucast F_BIGDATA) \<longleftrightarrow> F_ISSET w F_BIGDATA"
  by (simp add: F_BIGDATA_def F_ISSET_1 bit_simps)

lemma stored_node_ok:
  assumes a: "args_ok leaf key data flags ofp" and l: "length (stored_node key data pgno flags ofp leaf) < 2 ^ 16"
  shows "node_ok leaf (stored_node key data pgno flags ofp leaf)"
proof -
  let ?h = "node_header key data pgno flags leaf"
  have g: "get_node (stored_node key data pgno flags ofp leaf) 0 = Some ?h" unfolding stored_node_def by (rule get_node_bytes)
  have kl: "length (key_content key) = unat (key_size key)" using a by (auto simp: key_content_def key_size_def args_ok_def val_ok_def split: option.splits)
  have "unat (key_size key) < 2 ^ 16" using l kl by (simp add: stored_node_def)
  then have ks: "unat (mn_ksize ?h) = unat (key_size key)"
    by (auto simp: node_header_def SETDSZ_def SETPGNO_def Let_def unat_u64_u16 split: bool.splits option.splits)
  have "length (stored_node key data pgno flags ofp leaf) = node_length leaf ?h"
  proof (cases leaf)
    case False
    then show ?thesis using ks kl by (simp add: stored_node_def node_length_def)
  next
    case True
    then obtain d where d: "data = Some d" "unat (mv_size d) < 2 ^ 32" and at: "args_ok True key (Some d) flags ofp" using a by (auto simp: args_ok_def)
    have "mn_flags ?h = ucast flags" "unat (NODEDSZ ?h) = unat (mv_size d)"
      using True d by (simp_all add: node_header_def NODEDSZ_SETDSZ) (simp add: SETDSZ_def)
    then show ?thesis using True d ks kl length_payload [OF at] by (simp add: stored_node_def node_length_def bigdata_flag)
  qed
  then show ?thesis using g by (auto simp: node_ok_def)
qed

lemma insert_rep:
  assumes r: "page_rep p (xs @ ys)" and ok: "node_ok (IS_LEAF p) b" and l: "length m = length (mp_mem p)"
    and b: "mem_read m o' (length b) = Some b" and k: "\<forall>k. unat (mp_upper p) \<le> k \<longrightarrow> k < length (mp_mem p) \<longrightarrow> m ! k = mp_mem p ! k"
    and o': "o' + extent b = unat (mp_upper p)"
    and g: "\<forall>j \<le> length (xs @ ys). get16 m (ptr_pos j) =
      (if j = length xs then Some (of_nat o') else get16 (mp_mem p) (ptr_pos (if j < length xs then j else j - 1)))"
    and room: "unat (mp_lower p) + extent b + 2 \<le> unat (mp_upper p)"
  shows "page_rep (p\<lparr>mp_upper := of_nat o', mp_lower := mp_lower p + 2, mp_mem := m\<rparr>) (xs @ b # ys)"
proof -
  let ?i = "length xs"
  note d = r [unfolded page_rep_def]
  obtain ps where ps: "map snd ps = xs @ ys" "placed (mp_mem p) (unat (mp_upper p)) ps" "\<forall>i < length ps. mp_ptrs p i = Some (of_nat (fst (ps ! i)))" using d by blast
  obtain px py where px: "ps = px @ py" "map snd px = xs" "map snd py = ys" using ps(1) by (auto simp: map_eq_append_conv)
  have i: "length px = ?i" "length ps = length xs + length ys" using px by auto
  have um: "unat (mp_upper p) \<le> length (mp_mem p)" "length (mp_mem p) < 2 ^ 16" using d by auto
  have ou: "unat (of_nat o' :: u16) = o'" using o' um by (simp add: unat_u16)
  have lo: "unat (mp_lower p + 2) = unat (mp_lower p) + 2" using room um by (simp add: unat_word_ariths)
  have "placed m o' (px @ (o', b) # py)"
    by (rule placed_insert [OF ps(2) [unfolded px(1)] k l b]) (use o' um in auto)
  moreover have "mp_ptrs (p\<lparr>mp_upper := of_nat o', mp_lower := mp_lower p + 2, mp_mem := m\<rparr>) j = Some (of_nat (fst ((px @ (o', b) # py) ! j)))"
    if j: "j < Suc (length ps)" for j
  proof -
    have "get16 (mp_mem p) (ptr_pos n) = Some (of_nat (fst (ps ! n)))" if "n < length ps" for n
      using ps(3) that by (simp add: mp_ptrs_def)
    then show ?thesis using g j i px(1) by (auto simp: mp_ptrs_def nth_append nth_Cons')
  qed
  ultimately have "\<exists>ps. map snd ps = xs @ b # ys \<and> placed m o' ps \<and>
      (\<forall>j < length ps. mp_ptrs (p\<lparr>mp_upper := of_nat o', mp_lower := mp_lower p + 2, mp_mem := m\<rparr>) j = Some (of_nat (fst (ps ! j))))"
    using px i by (intro exI [of _ "px @ (o', b) # py"]) auto
  moreover have "\<forall>x \<in> set (xs @ b # ys). node_ok (IS_LEAF p) x" using d ok by auto
  moreover have "o' + sum_list (map extent (xs @ b # ys)) = length m" using d o' l by simp
  moreover have "\<not> IS_LEAF2 p" "length m < 2 ^ 16" "unat (mp_lower p + 2) = PAGEHDRSZ + 2 * length (xs @ b # ys)" "unat (mp_lower p + 2) \<le> o'"
    using d l lo room o' by auto
  ultimately show ?thesis using ou by (simp add: page_rep_def IS_LEAF_def IS_LEAF2_def)
qed

lemma insert_node_ok:
  assumes r: "page_rep p (xs @ ys)" and a: "args_ok (IS_LEAF p) key data flags ofp"
    and b: "b = stored_node key data pgno flags ofp (IS_LEAF p)"
    and sz: "unat node_size = extent b" and room: "unat (mp_lower p) + extent b + 2 \<le> unat (mp_upper p)"
  shows "\<exists>p' ov. insert_node p (length xs) key data pgno flags ofp node_size = Some (0, p', ov) \<and> page_rep p' (xs @ b # ys) \<and>
    mp_flags p' = mp_flags p \<and> length (mp_mem p') = length (mp_mem p) \<and>
    ov = (case (ofp, data) of (Some pg, Some d) \<Rightarrow> Some (pg, take (unat (mv_size d)) (mv_data d)) | _ \<Rightarrow> None)"
proof -
  let ?m = "mp_mem p" and ?u = "unat (mp_upper p)" and ?i = "length xs" and ?n = "length (xs @ ys)"
  note d = r [unfolded page_rep_def]
  define o' where "o' = ?u - extent b"
  have bl: "length b \<le> extent b" using even_up_ge by (simp add: extent_def)
  have um: "?u \<le> length ?m" "length ?m < 2 ^ 16" using d by auto
  have ofs: "unat (mp_upper p - ucast node_size) = o'" "o' + extent b = ?u"
  proof -
    have "unat (ucast node_size :: u16) = extent b" using unat_u64_u16 [of node_size] sz room um by simp
    then show "unat (mp_upper p - ucast node_size) = o'" using room by (simp add: o'_def unat_sub word_le_nat_alt)
  qed (use room in \<open>simp add: o'_def\<close>)
  have lo: "ptr_pos (Suc ?n) \<le> o'" using room d by (simp add: o'_def ptr_pos_def)
  obtain m1 where m1: "shift_ptrs ?m ?n ?i = Some m1" "same_outside ?m m1 (ptr_pos (Suc ?i)) (ptr_pos (Suc ?n))"
    "\<forall>j. ?i < j \<longrightarrow> j \<le> ?n \<longrightarrow> get16 m1 (ptr_pos j) = get16 ?m (ptr_pos (j - 1))"
    using shift_ptrs_ok [of ?i ?n ?m] lo ofs(2) um by auto
  have l1: "length m1 = length ?m" using m1(2) by (simp add: same_outside_def)
  have "ptr_pos ?i + 2 \<le> length m1" using ptr_pos_less [of ?i "Suc ?n"] lo ofs(2) um l1 by simp
  then obtain m2 where m2: "put16 m1 (ptr_pos ?i) (of_nat o') = Some m2" "same_outside m1 m2 (ptr_pos ?i) (ptr_pos ?i + 2)" "get16 m2 (ptr_pos ?i) = Some (of_nat o')"
    using put16_ok by blast
  have s2: "same_outside ?m m2 (ptr_pos 0) o'"
    by (rule same_outside_mono [OF same_outside_trans [OF m1(2) m2(2) refl refl]]) (use lo in \<open>auto simp: ptr_pos_def\<close>)
  have l2: "length m2 = length ?m" using s2 by (simp add: same_outside_def)
  have "o' + length (stored_node key data pgno flags ofp (IS_LEAF p)) \<le> length m2" using ofs(2) bl um l2 b by simp
  from write_node_ok [OF a this] obtain m3 m4 m5 ov where w: "mem_write m2 o' (node_bytes (node_header key data pgno flags (IS_LEAF p))) = Some m3"
    "write_key m3 (o' + NODESIZE) key = Some m4"
    "(case (IS_LEAF p, data, key) of (False, _, _) \<Rightarrow> Some (m4, None)
       | (True, Some d, Some k) \<Rightarrow> write_data m4 (o' + NODESIZE + unat (mv_size k)) d flags ofp | _ \<Rightarrow> None) = Some (m5, ov)"
    "mem_read m5 o' (length b) = Some b" "same_outside m2 m5 o' (o' + length b)"
    "ov = (case (ofp, data) of (Some pg, Some d) \<Rightarrow> Some (pg, take (unat (mv_size d)) (mv_data d)) | _ \<Rightarrow> None)"
    unfolding b by blast
  have l5: "length m5 = length ?m" using w(5) l2 by (simp add: same_outside_def)
  define p' where "p' = p\<lparr>mp_upper := mp_upper p - ucast node_size, mp_lower := mp_lower p + 2, mp_mem := m5\<rparr>"
  have ow: "mp_upper p - ucast node_size = of_nat o'" unfolding ofs(1) [symmetric] by simp
  have "insert_node p ?i key data pgno flags ofp node_size = Some (0, p', ov)"
    using m1(1) m2(1) w(1) [unfolded node_header_def Let_def, folded ofs(1)] w(2,3) [folded ofs(1)] ofs(1) lo conjunct1 [OF conjunct2 [OF conjunct2 [OF d]]] NUMKEYS_ok [OF r]
    by (simp add: insert_node_def p'_def Let_def ow [symmetric] ptr_pos_def)
  moreover have "page_rep p' (xs @ b # ys)" unfolding p'_def ow
  proof (rule insert_rep [OF r _ _ _ _ _ _ room])
    show "node_ok (IS_LEAF p) b" unfolding b by (rule stored_node_ok [OF a]) (use bl ofs(2) um in \<open>simp add: b\<close>)
    show "length m5 = length ?m" by (rule l5)
    show "mem_read m5 o' (length b) = Some b" by (rule w(4))
    show "\<forall>k. ?u \<le> k \<longrightarrow> k < length ?m \<longrightarrow> m5 ! k = ?m ! k"
      using s2 w(5) ofs(2) bl l2 by (auto simp: same_outside_def)
    show "o' + extent b = ?u" by (rule ofs(2))
    show "\<forall>j \<le> ?n. get16 m5 (ptr_pos j) = (if j = ?i then Some (of_nat o') else get16 ?m (ptr_pos (if j < ?i then j else j - 1)))"
    proof (intro allI impI)
      fix j assume j: "j \<le> ?n"
      have "get16 m5 (ptr_pos j) = get16 m2 (ptr_pos j)" using ptr_pos_less [of j "Suc ?n"] lo j by (intro get16_same [OF w(5)]) simp
      also have "\<dots> = (if j = ?i then Some (of_nat o') else get16 m1 (ptr_pos j))"
        using m2(3) get16_same [OF m2(2), of "ptr_pos j"] ptr_pos_less [of j ?i] ptr_pos_less [of ?i j] by (cases j ?i rule: linorder_cases) auto
      also have "\<dots> = (if j = ?i then Some (of_nat o') else get16 ?m (ptr_pos (if j < ?i then j else j - 1)))"
        using m1(3) j get16_same [OF m1(2), of "ptr_pos j"] ptr_pos_less [of j "Suc ?i"] by (cases j ?i rule: linorder_cases) auto
      finally show "get16 m5 (ptr_pos j) = (if j = ?i then Some (of_nat o') else get16 ?m (ptr_pos (if j < ?i then j else j - 1)))" .
    qed
  qed
  ultimately show ?thesis using l5 w(6) by (auto simp: p'_def)
qed

lemma F_ISSET_reserve: "F_ISSET (w :: u32) MDB_RESERVE \<longleftrightarrow> bit w 16"
proof -
  have "bit MDB_RESERVE n \<longleftrightarrow> n = 16" for n
    using bit_push_bit_iff [of 16 "1 :: u32" n] by (auto simp: MDB_RESERVE_def push_bit_eq_mult bit_1_iff)
  then show ?thesis unfolding F_ISSET_def bit_eq_iff [of "w AND MDB_RESERVE"] by (auto simp: bit_and_iff dest: spec [of _ 16])
qed

lemma unat_sizes:
  assumes "unat (a :: u64) < 2 ^ 32" and "unat (b :: u64) < 2 ^ 32"
  shows "unat (of_nat NODESIZE + a) = NODESIZE + unat a" "unat (of_nat NODESIZE + a + b) = NODESIZE + unat a + unat b"
    "unat (of_nat NODESIZE + a + 8) = NODESIZE + unat a + 8"
  using assms by (simp_all add: unat_word_ariths NODESIZE_def)

lemma place_data_ok:
  assumes p: "place_data page_new nodemax psize d flags (of_nat NODESIZE + key_size (Some k)) = Inr (sz, ofp, flags')"
    and k: "val_ok k" "unat (mv_size k) < 2 ^ 32" and d: "val_ok d" "unat (mv_size d) < 2 ^ 32"
    and f: "\<not> F_ISSET flags F_BIGDATA" "\<not> F_ISSET flags MDB_RESERVE"
  shows "args_ok True (Some k) (Some d) flags' ofp" "unat sz = length (stored_node (Some k) (Some d) pgno flags' ofp True)"
proof -
  have big: "F_ISSET (flags OR F_BIGDATA) F_BIGDATA" by (simp add: F_BIGDATA_def F_ISSET_1 bit_simps)
  have res: "\<not> F_ISSET (flags OR F_BIGDATA) MDB_RESERVE" using f(2) by (simp add: F_ISSET_reserve F_BIGDATA_def bit_simps)
  show a: "args_ok True (Some k) (Some d) flags' ofp"
    using p k d f big res by (auto simp: args_ok_def place_data_def split: if_splits sum.splits)
  have "length (payload d flags' ofp) = (if F_ISSET flags' F_BIGDATA then 8 else unat (mv_size d))" by (rule length_payload [OF a])
  then show "unat sz = length (stored_node (Some k) (Some d) pgno flags' ofp True)"
    using p k(1) f(1) big unat_sizes [OF k(2) d(2)]
    by (auto simp: stored_node_def place_data_def key_content_def key_size_def val_ok_def split: if_splits sum.splits)
qed

lemma SIZELEFT_ok: "mp_lower p \<le> mp_upper p \<Longrightarrow> unat (ucast (SIZELEFT p) :: u64) = unat (mp_upper p) - unat (mp_lower p)"
proof -
  assume "mp_lower p \<le> mp_upper p"
  then have u: "unat (SIZELEFT p) = unat (mp_upper p) - unat (mp_lower p)" by (simp add: SIZELEFT_def unat_sub)
  have "unat (SIZELEFT p) < 2 ^ 16" using unsigned_less [of "SIZELEFT p"] by simp
  then have "take_bit 64 (unat (SIZELEFT p)) = unat (SIZELEFT p)" by (intro take_bit_nat_eq_self) simp
  then show ?thesis using u by (simp add: unsigned_ucast_eq)
qed

lemma mdb_node_add_leaf:
  assumes r: "page_rep p (xs @ ys)" and leaf: "IS_LEAF p"
    and k: "val_ok k" "unat (mv_size k) < 2 ^ 31" and d: "val_ok d" "unat (mv_size d) < 2 ^ 31"
    and f: "\<not> F_ISSET flags F_BIGDATA" "\<not> F_ISSET flags MDB_RESERVE"
    and pl: "place_data page_new nodemax psize d flags (of_nat NODESIZE + key_size (Some k)) = Inr (sz, ofp, flags')"
    and b: "b = stored_node (Some k) (Some d) pgno flags' ofp True"
  shows "if extent b + 2 \<le> unat (mp_upper p) - unat (mp_lower p)
    then \<exists>p'. mdb_node_add page_new nodemax psize pad p (length xs) (Some k) (Some d) pgno flags =
        Some (0, p', map_option (\<lambda>pg. (pg, take (unat (mv_size d)) (mv_data d))) ofp) \<and>
      page_rep p' (xs @ b # ys) \<and> mp_flags p' = mp_flags p \<and> length (mp_mem p') = length (mp_mem p)
    else mdb_node_add page_new nodemax psize pad p (length xs) (Some k) (Some d) pgno flags = Some (MDB_PAGE_FULL, p, None)"
proof -
  have a: "args_ok True (Some k) (Some d) flags' ofp" and s: "unat sz = length b" 
    using place_data_ok(1) [OF pl k(1) _ d(1) _ f] place_data_ok(2) [OF pl k(1) _ d(1) _ f, of pgno] k(2) d(2) b by auto
  have lu: "mp_lower p \<le> mp_upper p" "\<not> IS_LEAF2 p" using r by (auto simp: page_rep_def word_le_nat_alt)
  have "length (payload d flags' ofp) \<le> 8 + unat (mv_size d)" unfolding length_payload [OF a] by simp
  then have "length b < 2 ^ 33" using k d by (simp add: b stored_node_def key_content_def NODESIZE_def)
  then have e: "unat (sz + (sz AND 1)) = extent b" "extent b < 2 ^ 34" using unat_even_up [of sz] s by (simp_all add: extent_def even_up_def)
  have c: "ucast (SIZELEFT p) < sz + (sz AND 1) + 2 \<longleftrightarrow> \<not> extent b + 2 \<le> unat (mp_upper p) - unat (mp_lower p)"
    using SIZELEFT_ok [OF lu(1)] e by (simp add: word_less_nat_alt unat_word_ariths not_le)
  have add: "mdb_node_add page_new nodemax psize pad p (length xs) (Some k) (Some d) pgno flags =
      (if extent b + 2 \<le> unat (mp_upper p) - unat (mp_lower p) then insert_node p (length xs) (Some k) (Some d) pgno flags' ofp (sz + (sz AND 1))
       else Some (MDB_PAGE_FULL, p, None))"
    using pl leaf lu c by (simp add: mdb_node_add_def Let_def not_less)
  show ?thesis
  proof (cases "extent b + 2 \<le> unat (mp_upper p) - unat (mp_lower p)")
    case True
    then have "unat (mp_lower p) + extent b + 2 \<le> unat (mp_upper p)" using lu by (simp add: word_le_nat_alt)
    from insert_node_ok [OF r a [folded leaf [THEN eqTrueI]] _ e(1) this, of pgno] show ?thesis
      using True leaf b add by (auto split: option.splits)
  qed (use add in simp)
qed

section \<open>The order of keys, proved\<close>

text \<open>What the search needs of a comparison: it is a strict linear order, and zero means equal keys.\<close>

locale key_order =
  fixes cmp :: "bytes \<Rightarrow> bytes \<Rightarrow> int"
  assumes cmp_eq: "cmp a b = 0 \<longleftrightarrow> a = b"
    and cmp_anti: "0 < cmp a b \<longleftrightarrow> cmp b a < 0"
    and cmp_trans: "cmp a b < 0 \<Longrightarrow> cmp b c < 0 \<Longrightarrow> cmp a c < 0"
begin

definition lt :: "bytes \<Rightarrow> bytes \<Rightarrow> bool" where
  "lt a b \<longleftrightarrow> cmp a b < 0"

lemma not_lt: "\<not> lt a b \<longleftrightarrow> a = b \<or> lt b a"
  using cmp_eq [of a b] cmp_anti [of a b] by (auto simp: lt_def)

lemma lt_irrefl [simp]: "\<not> lt a a"
  using cmp_eq [of a a] by (simp add: lt_def)

lemma lt_trans: "lt a b \<Longrightarrow> lt b c \<Longrightarrow> lt a c"
  unfolding lt_def by (rule cmp_trans)

lemma lt_asym: "lt a b \<Longrightarrow> \<not> lt b a"
  using lt_trans lt_irrefl by blast

end

lemma mdb_cmp_memn_simps:
  "mdb_cmp_memn [] [] = 0" "mdb_cmp_memn [] (b # bs) = -1" "mdb_cmp_memn (a # as) [] = 1"
  "mdb_cmp_memn (a # as) (b # bs) = (if a = b then mdb_cmp_memn as bs else uint a - uint b)"
  by (simp_all add: mdb_cmp_memn_def Let_def word_uint_eq_iff [of a b])

lemma mdb_cmp_memn_lexordp:
  "(mdb_cmp_memn a b < 0 \<longleftrightarrow> ord_class.lexordp a b) \<and> (mdb_cmp_memn a b = 0 \<longleftrightarrow> a = b) \<and> (0 < mdb_cmp_memn a b \<longleftrightarrow> ord_class.lexordp b a)"
proof (induction a b rule: list_induct2')
  case (4 x xs y ys)
  then show ?case by (cases x y rule: linorder_cases) (auto simp: mdb_cmp_memn_simps word_less_def)
qed (simp_all add: mdb_cmp_memn_simps)

interpretation memn: key_order mdb_cmp_memn
proof
  show "mdb_cmp_memn a c < 0" if "mdb_cmp_memn a b < 0" "mdb_cmp_memn b c < 0" for a b c
    using that mdb_cmp_memn_lexordp lexordp_trans by blast
qed (use mdb_cmp_memn_lexordp in auto)

lemma memnr_loop_ok:
  "k \<le> i \<Longrightarrow> k \<le> j \<Longrightarrow> i \<le> length a \<Longrightarrow> j \<le> length b \<Longrightarrow>
     memnr_loop a b i j k = Some (memcmp (take k (rev (take i a))) (take k (rev (take j b))))"
proof (induction k arbitrary: i j)
  case (Suc k)
  obtain i' j' where ij: "i = Suc i'" "j = Suc j'" using Suc.prems by (meson Suc_le_D)
  then have "get_cell a i' = Some (a ! i')" "get_cell b j' = Some (b ! j')" using Suc.prems by (simp_all add: get_cell_def)
  moreover have "rev (take i a) = a ! i' # rev (take i' a)" "rev (take j b) = b ! j' # rev (take j' b)"
    using ij Suc.prems by (simp_all add: take_Suc_conv_app_nth)
  ultimately show ?case using Suc.IH [of i' j'] Suc.prems ij by (auto simp: Let_def word_uint_eq_iff [of "a ! i'" "b ! j'"])
qed simp

lemma mdb_cmp_memnr_eq: "mdb_cmp_memnr a b = Some (mdb_cmp_memn (rev a) (rev b))"
  unfolding mdb_cmp_memnr_def mdb_cmp_memn_def Let_def by (subst memnr_loop_ok) (auto simp: min_def)

interpretation memnr: key_order "\<lambda>a b. case mdb_cmp_memnr a b of None \<Rightarrow> 0 | Some d \<Rightarrow> d"
  by unfold_locales (use mdb_cmp_memn_lexordp memn.cmp_trans in \<open>auto simp: mdb_cmp_memnr_eq\<close>)

section \<open>Reading and searching, proved\<close>

definition node_key :: "bytes \<Rightarrow> bytes" where
  "node_key b = (case NODEKEY b 0 of None \<Rightarrow> [] | Some k \<Rightarrow> k)"

lemma node_ok_key: "node_ok leaf b \<Longrightarrow> NODEKEY b 0 = Some (node_key b)"
  by (auto simp: node_key_def node_ok_def NODEKEY_def mem_read_def node_length_def)

lemma NODEKEY_read: "mem_read m a (length b) = Some b \<Longrightarrow> NODEKEY b 0 = Some k \<Longrightarrow> NODEKEY m a = Some k"
  by (auto simp: NODEKEY_def get_node_read mem_read_sub bind_eq_Some_conv)

lemma NODEDATA_read: "mem_read m a (length b) = Some b \<Longrightarrow> NODEDATA b 0 n = Some k \<Longrightarrow> NODEDATA m a n = Some k"
  by (auto simp: NODEDATA_def get_node_read mem_read_sub bind_eq_Some_conv add.assoc)

lemma NODEPTR_ok:
  assumes r: "page_rep p bs" and i: "i < length bs"
  shows "\<exists>a. NODEPTR p i = Some a \<and> mem_read (mp_mem p) a (length (bs ! i)) = Some (bs ! i)"
proof -
  obtain ps where ps: "map snd ps = bs" "placed (mp_mem p) (unat (mp_upper p)) ps" "\<forall>i < length ps. mp_ptrs p i = Some (of_nat (fst (ps ! i)))"
    using r by (auto simp: page_rep_def)
  have il: "i < length ps" using i ps(1) by auto
  obtain a b where ab: "ps ! i = (a, b)" by force
  have b: "b = bs ! i" using ab ps(1) il by auto
  have m: "(a, b) \<in> set ps" using ab il nth_mem by metis
  have "a < 2 ^ 16" using placedD [OF ps(2) m] r by (simp add: page_rep_def)
  then have "NODEPTR p i = Some a" using ps(3) il ab by (simp add: NODEPTR_def unat_u16)
  then show ?thesis using placedD(3) [OF ps(2) m] b by auto
qed

lemma search_key_ok:
  assumes r: "page_rep p bs" and i: "i < length bs"
  shows "\<exists>a. search_key pad p i fake = Some (Some a, node_key (bs ! i)) \<and> NODEPTR p i = Some a"
proof -
  obtain a where a: "NODEPTR p i = Some a" "mem_read (mp_mem p) a (length (bs ! i)) = Some (bs ! i)" using NODEPTR_ok [OF r i] by blast
  have "NODEKEY (bs ! i) 0 = Some (node_key (bs ! i))" using r i by (intro node_ok_key [of "IS_LEAF p"]) (auto simp: page_rep_def)
  then show ?thesis using NODEKEY_read [OF a(2)] a(1) r by (simp add: search_key_def page_rep_def)
qed

text \<open>The search looks one offset behind the array; that is still in the page.\<close>

lemma NODEPTR_end:
  assumes r: "page_rep p bs" and n: "bs \<noteq> []"
  shows "\<exists>a. NODEPTR p (length bs) = Some a"
proof -
  have "8 \<le> extent b" if "b \<in> set bs" for b
    using that r even_up_ge [of "length b"] by (auto simp: page_rep_def node_ok_def node_length_def extent_def NODESIZE_def)
  then have "8 \<le> sum_list (map extent bs)" using n by (cases bs) (auto intro: trans_le_add1)
  then have "ptr_pos (length bs) + 2 \<le> length (mp_mem p)" using r by (simp add: page_rep_def ptr_pos_def)
  then show ?thesis by (simp add: NODEPTR_def mp_ptrs_def get16_def mem_read_def)
qed

text \<open>The first key of a branch page is not looked at; it stands for the least key.\<close>

definition first_key :: "MDB_page \<Rightarrow> nat" where
  "first_key p = (if IS_LEAF p then 0 else 1)"

context key_order
begin

definition found :: "bytes list \<Rightarrow> bytes \<Rightarrow> int \<Rightarrow> int \<Rightarrow> bool \<Rightarrow> bool" where
  "found ks key lo r exact \<longleftrightarrow> lo \<le> r \<and> r \<le> int (length ks) \<and>
     (\<forall>j < length ks. lo \<le> int j \<longrightarrow> int j < r \<longrightarrow> lt (ks ! j) key) \<and>
     (\<forall>j < length ks. r \<le> int j \<longrightarrow> \<not> lt (ks ! j) key) \<and> (exact \<longleftrightarrow> r < int (length ks) \<and> ks ! nat r = key)"

definition visited :: "MDB_page \<Rightarrow> nat \<Rightarrow> int \<Rightarrow> int \<Rightarrow> nat option \<Rightarrow> int \<Rightarrow> bool" where
  "visited p n low i node rc \<longleftrightarrow> 0 \<le> i \<and> i < int n \<and> node = NODEPTR p (nat i) \<and> (rc < 0 \<and> i = low \<or> 0 < rc \<and> i + 1 = low)"

lemma sorted_from:
  assumes "sorted_wrt lt (drop n ks)" and "n \<le> j" and "j < k" and "k < length ks"
  shows "lt (ks ! j) (ks ! k)"
  using sorted_wrt_nth_less [OF assms(1), of "j - n" "k - n"] assms(2-4) by simp

lemma found_miss:
  assumes v: "visited p (length ks) low i node rc" and lo: "0 \<le> lo" "lo \<le> low" "low \<le> int (length ks)"
    and less: "\<forall>j < length ks. lo \<le> int j \<longrightarrow> int j < low \<longrightarrow> lt (ks ! j) key" and greater: "\<forall>j < length ks. low \<le> int j \<longrightarrow> lt key (ks ! j)"
  shows "found ks key lo (if 0 < rc then i + 1 else i) (rc = 0)"
proof -
  have "(if 0 < rc then i + 1 else i) = low" "rc \<noteq> 0" using v by (auto simp: visited_def)
  moreover have "ks ! nat low \<noteq> key" if "low < int (length ks)" using greater [THEN spec, of "nat low"] that lo by auto
  moreover have "\<forall>j < length ks. low \<le> int j \<longrightarrow> \<not> lt (ks ! j) key" using greater lt_asym by auto
  ultimately show ?thesis using lo less by (auto simp: found_def)
qed

lemma found_hit:
  assumes srt: "sorted_wrt lt (drop (nat lo) ks)" and k: "ks ! nat i = key" and i: "0 \<le> lo" "lo \<le> i" "i < int (length ks)"
  shows "found ks key lo i True"
proof -
  have "lt (ks ! j) key" if "lo \<le> int j" "int j < i" for j using sorted_from [OF srt, of j "nat i"] that i k by auto
  moreover have "\<not> lt (ks ! j) key" if "i \<le> int j" "j < length ks" for j
    using sorted_from [OF srt, of "nat i" j] that i k lt_asym by (cases "j = nat i") auto
  ultimately show ?thesis using k i by (auto simp: found_def)
qed

lemma node_search_loop_ok:
  assumes r: "page_rep p bs" and ks: "ks = map node_key bs" and srt: "sorted_wrt lt (drop (nat lo) ks)" and lo: "0 \<le> lo"
  shows "lo \<le> low \<Longrightarrow> high < int (length ks) \<Longrightarrow> low \<le> high + 1 \<Longrightarrow>
    \<forall>j < length ks. lo \<le> int j \<longrightarrow> int j < low \<longrightarrow> lt (ks ! j) key \<Longrightarrow> \<forall>j < length ks. high < int j \<longrightarrow> lt key (ks ! j) \<Longrightarrow>
    (low = high + 1 \<longrightarrow> visited p (length ks) low i node rc) \<Longrightarrow>
    \<exists>i' node' rc'. node_search_loop cmp pad p key low high i node rc = Some (i', node', rc') \<and>
      found ks key lo (if 0 < rc' then i' + 1 else i') (rc' = 0) \<and> 0 \<le> i' \<and> i' < int (length ks) \<and> node' = NODEPTR p (nat i')"
proof (induction "nat (high - low + 1)" arbitrary: low high i node rc rule: less_induct)
  case less
  show ?case
  proof (cases "low \<le> high")
    case False
    then have h: "high = low - 1" using less.prems(3) by simp
    have v: "visited p (length ks) low i node rc" using less.prems(6) h by simp
    have "found ks key lo (if 0 < rc then i + 1 else i) (rc = 0)"
      by (rule found_miss [OF v]) (use less.prems(1-5) h lo in auto)
    then show ?thesis using False v by (subst node_search_loop.simps) (simp add: visited_def)
  next
    case True
    define i' where "i' = (low + high) div 2"
    have i': "low \<le> i'" "i' \<le> high" "0 \<le> i'" "nat i' < length bs" "i' < int (length ks)" using True lo less.prems(1,2) ks by (auto simp: i'_def)
    obtain a where a: "search_key pad p (nat i') node = Some (Some a, ks ! nat i')" "NODEPTR p (nat i') = Some a"
      using search_key_ok [OF r i'(4), of pad node] i'(4) ks by auto
    have ord: "lt (ks ! j) (ks ! k)" if "lo \<le> int j" "j < k" "k < length ks" for j k using sorted_from [OF srt, of j k] that lo by simp
    define rc' where "rc' = cmp key (ks ! nat i')"
    have step: "node_search_loop cmp pad p key low high i node rc =
        (if rc' = 0 then Some (i', Some a, rc') else if 0 < rc' then node_search_loop cmp pad p key (i' + 1) high i' (Some a) rc'
         else node_search_loop cmp pad p key low (i' - 1) i' (Some a) rc')"
      using True a(1) by (subst node_search_loop.simps) (simp add: i'_def [symmetric] rc'_def Let_def)
    consider "rc' = 0" | "0 < rc'" | "rc' < 0" by linarith
    then show ?thesis
    proof cases
      case 1
      then have k: "ks ! nat i' = key" using cmp_eq by (simp add: rc'_def)
      have "found ks key lo i' True" by (rule found_hit [OF srt k]) (use i' less.prems(1) lo in auto)
      then show ?thesis using step 1 i' a(2) by simp
    next
      case 2
      then have "lt (ks ! nat i') key" using cmp_anti by (simp add: rc'_def lt_def)
      then have "lt (ks ! j) key" if "lo \<le> int j" "int j < i' + 1" for j
        using lt_trans [OF ord [of j "nat i'"]] that i' by (cases "j = nat i'") auto
      moreover have "node_search_loop cmp pad p key low high i node rc = node_search_loop cmp pad p key (i' + 1) high i' (Some a) rc'" using step 2 by simp
      ultimately show ?thesis
        by (simp only:) (rule less.hyps, use 2 i' less.prems(1,2,5) a(2) in \<open>auto simp: visited_def\<close>)
    next
      case 3
      then have "lt key (ks ! nat i')" by (simp add: rc'_def lt_def)
      then have "lt key (ks ! j)" if "i' - 1 < int j" "j < length ks" for j
        using lt_trans [OF _ ord [of "nat i'" j], of key] that i' less.prems(1) by (cases "j = nat i'") auto
      moreover have "node_search_loop cmp pad p key low high i node rc = node_search_loop cmp pad p key low (i' - 1) i' (Some a) rc'" using step 3 by simp
      ultimately show ?thesis
        by (simp only:) (rule less.hyps, use 3 i' less.prems(1,4) a(2) in \<open>auto simp: visited_def\<close>)
    qed
  qed
qed

lemma mdb_node_search_ok:
  assumes r: "page_rep p bs" and ks: "ks = map node_key bs" and srt: "sorted_wrt lt (drop (first_key p) ks)" and n: "first_key p < length ks"
  shows "\<exists>i. mdb_node_search cmp pad p key = Some (i, i < length ks \<and> ks ! i = key, if i < length ks then NODEPTR p i else None) \<and>
    first_key p \<le> i \<and> i \<le> length ks \<and> (\<forall>j. first_key p \<le> j \<longrightarrow> j < i \<longrightarrow> lt (ks ! j) key) \<and> (\<forall>j < length ks. i \<le> j \<longrightarrow> \<not> lt (ks ! j) key)"
proof -
  let ?lo = "int (first_key p)"
  have "\<exists>i node rc. node_search_loop cmp pad p key ?lo (int (length ks) - 1) 0 None 0 = Some (i, node, rc) \<and>
      found ks key ?lo (if 0 < rc then i + 1 else i) (rc = 0) \<and> 0 \<le> i \<and> i < int (length ks) \<and> node = NODEPTR p (nat i)"
    by (rule node_search_loop_ok [OF r ks]) (use srt n in auto)
  then obtain i rc where s: "node_search_loop cmp pad p key ?lo (int (length ks) - 1) 0 None 0 = Some (i, NODEPTR p (nat i), rc)"
    and f: "found ks key ?lo (if 0 < rc then i + 1 else i) (rc = 0)" and i: "0 \<le> i" "i < int (length ks)" by blast
  define j where "j = nat (if 0 < rc then i + 1 else i)"
  have ji: "int j = (if 0 < rc then i + 1 else i)" using i by (simp add: j_def)
  have fj: "found ks key ?lo (int j) (rc = 0)" using f by (simp add: ji)
  have "bs \<noteq> []" using n ks by auto
  then have "\<exists>a. NODEPTR p j = Some a"
    using fj NODEPTR_end [OF r] NODEPTR_ok [OF r, of j] n ks by (cases "j = length bs") (auto simp: found_def)
  then obtain a where a: "NODEPTR p j = Some a" by blast
  have nk: "NUMKEYS p = length ks" using NUMKEYS_ok [OF r] ks by simp
  have "mdb_node_search cmp pad p key = Some (j, rc = 0, if j < length ks then NODEPTR p j else None)"
    using s nk n r a ji i by (auto simp: mdb_node_search_def Let_def page_rep_def first_key_def j_def nat_add_distrib)
  then show ?thesis using fj by (auto simp: found_def)
qed

end

section \<open>A leaf page is a list of entries\<close>

text \<open>
  An entry is a key with the flags of its node, the size of its data, and the bytes beside the key: the data, or
  the number of an overflow page. \<open>entry_room\<close> is the space it takes, with its offset in the array.
\<close>

type_synonym entry = "bytes \<times> u16 \<times> nat \<times> bytes"

definition node_entry :: "bytes \<Rightarrow> entry" where
  "node_entry b = (case get_node b 0 of None \<Rightarrow> ([], 0, 0, [])
     | Some n \<Rightarrow> (node_key b, mn_flags n, unat (NODEDSZ n), drop (NODESIZE + unat (mn_ksize n)) b))"

fun entry_room :: "entry \<Rightarrow> nat" where
  "entry_room (k, f, n, d) = even_up (NODESIZE + length k + length d) + 2"

definition leaf_page :: "MDB_page \<Rightarrow> entry list \<Rightarrow> bool" where
  "leaf_page p es \<longleftrightarrow> IS_LEAF p \<and> (\<exists>bs. page_rep p bs \<and> map node_entry bs = es)"

definition page_room :: "MDB_page \<Rightarrow> entry list \<Rightarrow> nat" where
  "page_room p es = length (mp_mem p) - (PAGEHDRSZ + sum_list (map entry_room es))"

lemma node_entry_room: "node_ok True b \<Longrightarrow> entry_room (node_entry b) = extent b + 2"
  by (auto simp: node_entry_def node_ok_def node_key_def NODEKEY_def node_length_def extent_def mem_read_def)

lemma sum_entry_room:
  assumes r: "page_rep p bs" and leaf: "IS_LEAF p"
  shows "sum_list (map entry_room (map node_entry bs)) = sum_list (map extent bs) + 2 * length bs"
proof -
  have "\<forall>b \<in> set bs. entry_room (node_entry b) = extent b + 2" using r leaf node_entry_room by (simp add: page_rep_def)
  then show ?thesis by (induction bs) auto
qed

text \<open>The free space of a page is never in pieces: it is what the entries leave.\<close>

lemma leaf_page_room:
  assumes r: "page_rep p bs" and leaf: "IS_LEAF p"
  shows "unat (mp_upper p) - unat (mp_lower p) = page_room p (map node_entry bs)"
  using r sum_entry_room [OF r leaf] by (auto simp: page_room_def page_rep_def)

lemma fst_node_entry: "node_ok leaf b \<Longrightarrow> fst (node_entry b) = node_key b"
  by (auto simp: node_entry_def node_ok_def)

definition new_entry :: "MDB_val \<Rightarrow> MDB_val \<Rightarrow> u32 \<Rightarrow> u64 option \<Rightarrow> entry" where
  "new_entry k d flags ofp = (take (unat (mv_size k)) (mv_data k), ucast flags, unat (mv_size d), payload d flags ofp)"

lemma stored_node_entry:
  assumes a: "args_ok True (Some k) (Some d) flags ofp" and l: "unat (mv_size k) < 2 ^ 16"
  shows "node_entry (stored_node (Some k) (Some d) pgno flags ofp True) = new_entry k d flags ofp"
proof -
  let ?b = "stored_node (Some k) (Some d) pgno flags ofp True" and ?h = "node_header (Some k) (Some d) pgno flags True"
  have g: "get_node ?b 0 = Some ?h" unfolding stored_node_def by (rule get_node_bytes)
  have h: "unat (mn_ksize ?h) = unat (mv_size k)" "mn_flags ?h = ucast flags" "unat (NODEDSZ ?h) = unat (mv_size d)"
    using a l by (simp_all add: node_header_def NODEDSZ_SETDSZ args_ok_def) (simp_all add: SETDSZ_def key_size_def unat_u64_u16)
  have "NODEKEY ?b 0 = Some (take (unat (mv_size k)) (mv_data k))"
    using a g h(1) by (simp add: NODEKEY_def stored_node_def key_content_def mem_read_def args_ok_def val_ok_def)
  then show ?thesis using a g h by (simp add: node_entry_def node_key_def new_entry_def stored_node_def key_content_def args_ok_def val_ok_def)
qed

lemma new_entry_room:
  assumes a: "args_ok True (Some k) (Some d) flags ofp"
  shows "entry_room (new_entry k d flags ofp) = extent (stored_node (Some k) (Some d) pgno flags ofp True) + 2"
  by (simp add: new_entry_def extent_def stored_node_def key_content_def add.assoc)

definition put_ok :: "MDB_val \<Rightarrow> MDB_val \<Rightarrow> u32 \<Rightarrow> bool" where
  "put_ok k d flags \<longleftrightarrow> val_ok k \<and> unat (mv_size k) < 2 ^ 16 \<and> val_ok d \<and> unat (mv_size d) < 2 ^ 31 \<and>
     \<not> F_ISSET flags F_BIGDATA \<and> \<not> F_ISSET flags MDB_RESERVE"

lemma leaf_page_add:
  assumes p: "leaf_page p (xs @ ys)" and k: "put_ok k d flags"
    and pl: "place_data page_new nodemax psize d flags (of_nat NODESIZE + key_size (Some k)) = Inr (sz, ofp, flags')"
  shows "if entry_room (new_entry k d flags' ofp) \<le> page_room p (xs @ ys)
    then \<exists>p'. mdb_node_add page_new nodemax psize pad p (length xs) (Some k) (Some d) pgno flags =
        Some (0, p', map_option (\<lambda>pg. (pg, take (unat (mv_size d)) (mv_data d))) ofp) \<and>
      leaf_page p' (xs @ new_entry k d flags' ofp # ys) \<and> length (mp_mem p') = length (mp_mem p)
    else mdb_node_add page_new nodemax psize pad p (length xs) (Some k) (Some d) pgno flags = Some (MDB_PAGE_FULL, p, None)"
proof -
  obtain bs where bs: "IS_LEAF p" "page_rep p bs" "map node_entry bs = xs @ ys" using p by (auto simp: leaf_page_def)
  obtain bx "by" where bxy: "bs = bx @ by" "map node_entry bx = xs" "map node_entry by = ys" using bs(3) by (auto simp: map_eq_append_conv)
  define b where "b = stored_node (Some k) (Some d) pgno flags' ofp True"
  have a: "args_ok True (Some k) (Some d) flags' ofp" using k by (intro place_data_ok(1) [OF pl]) (auto simp: put_ok_def)
  have e: "node_entry b = new_entry k d flags' ofp" "entry_room (new_entry k d flags' ofp) = extent b + 2"
    using k new_entry_room [OF a] stored_node_entry [OF a] by (simp_all add: b_def put_ok_def)
  have rm: "unat (mp_upper p) - unat (mp_lower p) = page_room p (xs @ ys)" using leaf_page_room [OF bs(2,1)] bs(3) by simp
  have "length bx = length xs" using bxy by auto
  then show ?thesis
    using mdb_node_add_leaf [OF bs(2) [unfolded bxy(1)] bs(1) _ _ _ _ _ _ pl b_def, of pad] k bs(1) e rm bxy
    by (auto simp: put_ok_def leaf_page_def IS_LEAF_def intro!: exI [of _ "bx @ b # by"])
qed

lemma leaf_page_del:
  assumes p: "leaf_page p (xs @ e # ys)"
  shows "\<exists>p'. mdb_node_del p (length xs) ks = Some p' \<and> leaf_page p' (xs @ ys) \<and> length (mp_mem p') = length (mp_mem p)"
proof -
  obtain bs where bs: "IS_LEAF p" "page_rep p bs" "map node_entry bs = xs @ e # ys" using p by (auto simp: leaf_page_def)
  obtain bx b "by" where bxy: "bs = bx @ b # by" "map node_entry bx = xs" "map node_entry by = ys"
    using bs(3) by (auto simp: map_eq_append_conv map_eq_Cons_conv)
  have "length bx = length xs" using bxy by auto
  then show ?thesis using mdb_node_del_ok [OF bs(2) [unfolded bxy(1)], of ks] bs(1) bxy
    by (auto simp: leaf_page_def IS_LEAF_def intro!: exI [of _ "bx @ by"])
qed

lemma leaf_page_search:
  assumes p: "leaf_page p es" and ne: "es \<noteq> []" and srt: "sorted_wrt memn.lt (map fst es)"
  shows "\<exists>i a. mdb_node_search mdb_cmp_memn pad p key = Some (i, i < length es \<and> fst (es ! i) = key, a) \<and> i \<le> length es \<and>
    (\<forall>j < i. memn.lt (fst (es ! j)) key) \<and> (\<forall>j < length es. i \<le> j \<longrightarrow> \<not> memn.lt (fst (es ! j)) key) \<and>
    a = (if i < length es then NODEPTR p i else None)"
proof -
  obtain bs where bs: "IS_LEAF p" "page_rep p bs" "map node_entry bs = es" using p by (auto simp: leaf_page_def)
  have "\<forall>b \<in> set bs. node_ok True b" using bs by (simp add: page_rep_def)
  then have fst: "map fst es = map node_key bs" using fst_node_entry unfolding bs(3) [symmetric] by simp blast
  define ks where "ks = map node_key bs"
  have k: "ks = map fst es" "length ks = length es" using fst bs(3) by (auto simp: ks_def)
  have z: "first_key p = 0" using bs(1) by (simp add: first_key_def)
  obtain i where i: "mdb_node_search mdb_cmp_memn pad p key = Some (i, i < length ks \<and> ks ! i = key, if i < length ks then NODEPTR p i else None)"
    "i \<le> length ks" "\<forall>j < i. memn.lt (ks ! j) key" "\<forall>j < length ks. i \<le> j \<longrightarrow> \<not> memn.lt (ks ! j) key"
    using memn.mdb_node_search_ok [OF bs(2) ks_def, of pad key] srt ne z k by auto
  then show ?thesis using k by (intro exI [of _ i]) auto
qed

section \<open>A page is a list, and an ordered map\<close>

lemma memn_lt: "memn.lt = ord_class.lexordp"
  using mdb_cmp_memn_lexordp by (auto simp: fun_eq_iff memn.lt_def)

lemma sorted_insert_mid:
  assumes "sorted_wrt memn.lt ks" and "i \<le> length ks" and "\<forall>j < i. memn.lt (ks ! j) k" and "\<forall>j < length ks. i \<le> j \<longrightarrow> memn.lt k (ks ! j)"
  shows "sorted_wrt memn.lt (take i ks @ k # drop i ks)"
proof -
  have "\<forall>x \<in> set (take i ks). memn.lt x k" using assms(2,3) by (auto simp: in_set_conv_nth)
  moreover have "\<forall>x \<in> set (drop i ks). memn.lt k x" using assms(2,4) by (auto simp: in_set_conv_nth)
  moreover have "sorted_wrt memn.lt (take i ks @ drop i ks)" using assms(1) by simp
  ultimately show ?thesis unfolding sorted_wrt_append by simp
qed

lemma sorted_keys_distinct: "sorted_wrt memn.lt ks \<Longrightarrow> distinct ks"
  by (induction ks) auto

lemma map_of_insert_mid: "k \<notin> fst ` set xs \<Longrightarrow> map_of (xs @ (k, v) # ys) = (map_of (xs @ ys))(k \<mapsto> v)"
  using map_of_eq_None_iff [of xs k] by (auto simp: fun_eq_iff map_add_def split: option.splits)

text \<open>
  C11: on a leaf page, adding a node at an index inserts an entry into the list of entries, and deleting any node
  removes its entry and leaves the others as they are, although the bytes of the other nodes move. The answer is
  \<^verbatim>\<open>MDB_PAGE_FULL\<close>, with the page unchanged, exactly when the entries with the new one exceed the page: space of
  deleted nodes is never lost.
\<close>

theorem page_refines_list:
  assumes p: "leaf_page p (xs @ ys)" and k: "put_ok k d flags"
    and pl: "place_data page_new nodemax psize d flags (of_nat NODESIZE + key_size (Some k)) = Inr (sz, ofp, flags')"
    and e: "es = xs @ new_entry k d flags' ofp # ys"
  shows "if PAGEHDRSZ + sum_list (map entry_room es) \<le> length (mp_mem p)
    then \<exists>p'. mdb_node_add page_new nodemax psize pad p (length xs) (Some k) (Some d) pgno flags =
        Some (0, p', map_option (\<lambda>pg. (pg, take (unat (mv_size d)) (mv_data d))) ofp) \<and> leaf_page p' es \<and>
      (\<forall>j < length es. \<exists>p''. mdb_node_del p' j ks = Some p'' \<and> leaf_page p'' (take j es @ drop (Suc j) es))
    else mdb_node_add page_new nodemax psize pad p (length xs) (Some k) (Some d) pgno flags = Some (MDB_PAGE_FULL, p, None)"
proof -
  have fit: "PAGEHDRSZ + sum_list (map entry_room (xs @ ys)) \<le> length (mp_mem p)"
  proof -
    obtain bs where bs: "IS_LEAF p" "page_rep p bs" "map node_entry bs = xs @ ys" using p by (auto simp: leaf_page_def)
    have "sum_list (map entry_room (map node_entry bs)) = sum_list (map extent bs) + 2 * length bs" by (rule sum_entry_room [OF bs(2,1)])
    then show ?thesis using bs by (simp add: page_rep_def)
  qed
  have r: "entry_room (new_entry k d flags' ofp) \<le> page_room p (xs @ ys) \<longleftrightarrow> PAGEHDRSZ + sum_list (map entry_room es) \<le> length (mp_mem p)"
    using fit by (auto simp: page_room_def e)
  have del: "\<exists>p''. mdb_node_del p' j ks = Some p'' \<and> leaf_page p'' (take j es @ drop (Suc j) es)" if "leaf_page p' es" "j < length es" for p' j
    using leaf_page_del [of p' "take j es" "es ! j" "drop (Suc j) es" ks] that id_take_nth_drop [of j es] by auto
  show ?thesis
  proof (cases "PAGEHDRSZ + sum_list (map entry_room es) \<le> length (mp_mem p)")
    case True
    then show ?thesis using leaf_page_add [OF p k pl, of pad pgno, unfolded r e [symmetric] if_P [OF True]] del unfolding if_P [OF True] by blast
  next
    case False
    then show ?thesis using leaf_page_add [OF p k pl, of pad pgno, unfolded r e [symmetric] if_not_P [OF False]] by simp
  qed
qed

text \<open>
  C10: a leaf page with its keys in order is an ordered map. The binary search answers at every key whether the page
  has it, and the node to read; and adding a missing key at the index that the search gives keeps the keys in
  order and updates the map at this key only.
\<close>

theorem page_is_ordered_map:
  assumes p: "leaf_page p es" and ne: "es \<noteq> []" and ord: "sorted_wrt ord_class.lexordp (map fst es)"
    and key: "key = take (unat (mv_size k)) (mv_data k)" and k: "put_ok k d flags"
    and pl: "place_data page_new nodemax psize d flags (of_nat NODESIZE + key_size (Some k)) = Inr (sz, ofp, flags')"
    and fit: "entry_room (new_entry k d flags' ofp) \<le> page_room p es"
  shows "\<exists>i exact a. mdb_node_search mdb_cmp_memn pad p key = Some (i, exact, a) \<and>
    (if exact then i < length es \<and> map_of es key = Some (snd (es ! i)) \<and> a = NODEPTR p i
     else map_of es key = None \<and> (\<exists>p' ov es'. mdb_node_add page_new nodemax psize pad p i (Some k) (Some d) pgno flags = Some (0, p', ov) \<and>
       leaf_page p' es' \<and> sorted_wrt ord_class.lexordp (map fst es') \<and> map_of es' = (map_of es)(key \<mapsto> snd (new_entry k d flags' ofp))))"
proof -
  have srt: "sorted_wrt memn.lt (map fst es)" using ord by (simp only: memn_lt)
  obtain i a where s: "mdb_node_search mdb_cmp_memn pad p key = Some (i, i < length es \<and> fst (es ! i) = key, a)" "i \<le> length es"
    "\<forall>j < i. memn.lt (fst (es ! j)) key" "\<forall>j < length es. i \<le> j \<longrightarrow> \<not> memn.lt (fst (es ! j)) key" "a = (if i < length es then NODEPTR p i else None)"
    using leaf_page_search [OF p ne srt] by blast
  show ?thesis
  proof (cases "i < length es \<and> fst (es ! i) = key")
    case True
    have "distinct (map fst es)" using srt by (rule sorted_keys_distinct)
    then have "map_of es key = Some (snd (es ! i))" using True by (metis map_of_is_SomeI nth_mem prod.collapse)
    then show ?thesis using s True by auto
  next
    case False
    have gt: "memn.lt key (fst (es ! j))" if j: "j < length es" "i \<le> j" for j
    proof (rule ccontr)
      assume "\<not> memn.lt key (fst (es ! j))"
      then have "fst (es ! j) = key" using s(4) j memn.not_lt by auto
      then show False using False s(4) j sorted_wrt_nth_less [OF srt, of i j] by (cases "i = j") auto
    qed
    have none: "key \<notin> fst ` set es"
    proof
      assume "key \<in> fst ` set es"
      then obtain j where "j < length es" "fst (es ! j) = key" by (auto simp: in_set_conv_nth)
      then show False using s(3) gt [of j] by (cases "j < i") auto
    qed
    let ?es = "take i es @ new_entry k d flags' ofp # drop i es"
    obtain p' ov where a: "mdb_node_add page_new nodemax psize pad p i (Some k) (Some d) pgno flags = Some (0, p', ov)" "leaf_page p' ?es"
      using leaf_page_add [of p "take i es" "drop i es", OF _ k pl, of pad pgno] p fit s(2) by auto
    obtain v where v: "new_entry k d flags' ofp = (key, v)" by (simp add: new_entry_def key)
    have "sorted_wrt memn.lt (map fst ?es)"
      using sorted_insert_mid [OF srt, of i key] s(2,3) gt v by (simp add: take_map drop_map)
    moreover have "key \<notin> fst ` set (take i es)" using none set_take_subset [of i es] by blast
    then have "map_of ?es = (map_of es)(key \<mapsto> snd (new_entry k d flags' ofp))"
      using map_of_insert_mid [of key "take i es" v "drop i es"] v by simp
    moreover have "map_of es key = None" using none by (simp add: map_of_eq_None_iff)
    ultimately have "map_of es key = None \<and> (\<exists>p' ov es'. mdb_node_add page_new nodemax psize pad p i (Some k) (Some d) pgno flags = Some (0, p', ov) \<and>
        leaf_page p' es' \<and> sorted_wrt memn.lt (map fst es') \<and> map_of es' = (map_of es)(key \<mapsto> snd (new_entry k d flags' ofp)))"
      using a by blast
    moreover have "mdb_node_search mdb_cmp_memn pad p key = Some (i, False, a)" using s(1) False by simp
    ultimately show ?thesis unfolding memn_lt by (intro exI [of _ i] exI [of _ False] exI [of _ a]) (simp only: if_False simp_thms)
  qed
qed

section \<open>A page on concrete bytes\<close>

text \<open>A page of 64 bytes with one node: the key \<open>b\<close>, the data 1 and 2.\<close>

definition demo_node :: bytes where
  "demo_node = [2, 0, 0, 0, 0, 0, 1, 0, 98, 1, 2]"

definition demo_page :: MDB_page where
  "demo_page = \<lparr>mp_pgno = 2, mp_pad = 0, mp_flags = P_LEAF, mp_lower = 18, mp_upper = 52, mp_mem = replicate 16 0 @ [52, 0] @ replicate 34 0 @ demo_node @ [0]\<rparr>"

definition demo_key :: MDB_val where
  "demo_key = \<lparr>mv_size = 1, mv_data = [97]\<rparr>"

definition demo_val :: MDB_val where
  "demo_val = \<lparr>mv_size = 2, mv_data = [7, 8]\<rparr>"

lemma node_ok_code [code]: "node_ok leaf b = (case get_node b 0 of None \<Rightarrow> False | Some n \<Rightarrow> length b = node_length leaf n)"
  by (auto simp: node_ok_def split: option.splits)

lemma demo_node_entry: "node_ok True demo_node" "node_entry demo_node = ([98], 0, 2, [1, 2])"
  by code_simp+

lemma demo_node_extent: "extent demo_node = 12"
  by code_simp

lemma page_repI:
  assumes "\<not> IS_LEAF2 p" and "length (mp_mem p) < 2 ^ 16" and "unat (mp_lower p) = PAGEHDRSZ + 2 * length ps" and "unat (mp_lower p) \<le> unat (mp_upper p)"
    and "unat (mp_upper p) + sum_list (map (extent \<circ> snd) ps) = length (mp_mem p)" and "\<forall>(a, b) \<in> set ps. node_ok (IS_LEAF p) b"
    and "placed (mp_mem p) (unat (mp_upper p)) ps" and "map (mp_ptrs p) [0..<length ps] = map (\<lambda>(a, b). Some (of_nat a)) ps"
  shows "page_rep p (map snd ps)"
proof -
  have "mp_ptrs p i = Some (of_nat (fst (ps ! i)))" if "i < length ps" for i
    using arg_cong [OF assms(8), of "\<lambda>xs. xs ! i"] that by (simp add: case_prod_beta)
  then show ?thesis unfolding page_rep_def using assms(1-7) by (auto simp: comp_def)
qed

lemma demo_page_rep: "page_rep demo_page [demo_node]"
proof -
  have "placed (mp_mem demo_page) 52 [(52, demo_node)]"
    by (simp add: placed_def demo_node_extent) (simp add: demo_page_def demo_node_def mem_read_def)
  moreover have "map (mp_ptrs demo_page) [0..<1] = [Some 52]" by code_simp
  moreover have "IS_LEAF demo_page" "\<not> IS_LEAF2 demo_page" by code_simp+
  moreover have "length (mp_mem demo_page) = 64" "unat (mp_lower demo_page) = 18" "unat (mp_upper demo_page) = 52" by code_simp+
  ultimately show ?thesis
    using page_repI [of demo_page "[(52, demo_node)]"] demo_node_entry demo_node_extent by (simp add: PAGEHDRSZ_def)
qed

lemma demo_leaf_page: "leaf_page demo_page [([98], 0, 2, [1, 2])]"
proof -
  have "IS_LEAF demo_page" by code_simp
  then show ?thesis using demo_page_rep demo_node_entry by (auto simp: leaf_page_def intro!: exI [of _ "[demo_node]"])
qed

lemma demo_place: "place_data (\<lambda>_. Inl 12) 1000 4096 demo_val 0 (of_nat NODESIZE + key_size (Some demo_key)) = Inr (11, None, 0)"
  by (simp add: place_data_def F_ISSET_def F_BIGDATA_def demo_val_def demo_key_def key_size_def NODESIZE_def)

lemma demo_put_ok: "put_ok demo_key demo_val 0"
  by (simp add: put_ok_def val_ok_def F_ISSET_def F_BIGDATA_def MDB_RESERVE_def demo_val_def demo_key_def)

lemma demo_entry: "new_entry demo_key demo_val 0 None = ([97], 0, 2, [7, 8])"
  by code_simp

lemma demo_room: "length (mp_mem demo_page) = 64" "page_room demo_page [([98], 0, 2, [1, 2])] = 34"
  by code_simp+

theorem page_refines_list_witness:
  "\<exists>p' p''. mdb_node_add (\<lambda>_. Inl 12) 1000 4096 0 demo_page 0 (Some demo_key) (Some demo_val) 0 0 = Some (0, p', None) \<and>
     leaf_page p' [([97], 0, 2, [7, 8]), ([98], 0, 2, [1, 2])] \<and> mdb_node_del p' 1 0 = Some p'' \<and> leaf_page p'' [([97], 0, 2, [7, 8])]"
proof -
  let ?es = "[([97], 0, 2, [7, 8]), ([98], 0, 2, [1, 2])] :: entry list"
  have c: "PAGEHDRSZ + sum_list (map entry_room ?es) \<le> length (mp_mem demo_page)" by code_simp
  note t = page_refines_list [of demo_page "[]" "[([98], 0, 2, [1, 2])]", OF _ demo_put_ok demo_place refl, of 0 0 0,
      unfolded demo_entry append_Nil if_P [OF c]]
  show ?thesis using t demo_leaf_page by (auto dest: spec [of _ 1])
qed

lemma demo_search: "mdb_node_search mdb_cmp_memn 0 demo_page [97] = Some (0, False, Some 52)"
  by code_simp

theorem page_is_ordered_map_witness:
  "\<exists>p' ov es'. mdb_node_add (\<lambda>_. Inl 12) 1000 4096 0 demo_page 0 (Some demo_key) (Some demo_val) 0 0 = Some (0, p', ov) \<and>
     leaf_page p' es' \<and> map_of es' = [[98] \<mapsto> (0, 2, [1, 2]), [97] \<mapsto> (0, 2, [7, 8])]"
proof -
  have k: "[97] = take (unat (mv_size demo_key)) (mv_data demo_key)" by (simp add: demo_key_def)
  have f: "entry_room (new_entry demo_key demo_val 0 None) \<le> page_room demo_page [([98], 0, 2, [1, 2])]" by code_simp
  show ?thesis
    using page_is_ordered_map [OF demo_leaf_page _ _ k demo_put_ok demo_place f, of 0 0] by (simp add: demo_search demo_entry if_bool_eq_conj cong: if_cong conj_cong) blast
qed

end
