(* ===== verification/Mdbtree.thy ===== *)
theory Mdbtree
  imports Mdbpage Midl Lmdb
begin

text \<open>
  The trees of the storage library, \<^verbatim>\<open>lib/lmdb/mdb.c\<close>, as they are read: finding a page, the stack of a cursor, the
  descent from the root to a leaf, reading a value, and walking from leaf to leaf. Pages are those of the theory
  \<open>Mdbpage\<close>. A transaction knows the map of the file, from which a page number selects a page, and the lists of
  the pages that it and its parents have changed. Nothing is written here: searches that copy pages for
  modification are left out. Databases with sorted duplicates are left out too; the server opens none.
  \<^term>\<open>None\<close> is an access outside a block or an array, a failed assertion, or a step into what is left out.
\<close>

section \<open>Databases, transactions and cursors\<close>

record MDB_db =
  md_pad :: u32
  md_flags :: u16
  md_depth :: u16
  md_branch_pages :: u64
  md_leaf_pages :: u64
  md_overflow_pages :: u64
  md_entries :: u64
  md_root :: u64

record MDB_dbx =
  md_name :: bytes
  md_cmp :: "bytes \<Rightarrow> bytes \<Rightarrow> int"

text \<open>
  \<open>mt_dirty\<close> are the lists of changed pages of the transaction and of its parents; \<open>mt_heap\<close> is the memory that
  their pointers lead to, and \<open>mt_map\<close> the map of the file. \<open>mt_writemap\<close> is the flag of the environment.
\<close>

record MDB_txn =
  mt_flags :: u32
  mt_writemap :: bool
  mt_dirty :: "MDB_ID2 list list"
  mt_heap :: "nat \<Rightarrow> MDB_page"
  mt_map :: "u64 \<Rightarrow> MDB_page"
  mt_next_pgno :: u64
  mt_dbs :: "MDB_db list"
  mt_dbxs :: "MDB_dbx list"
  mt_dbflags :: "byte list"

text \<open>The stack of a cursor is in two arrays; a null pointer is \<^term>\<open>None\<close>.\<close>

record MDB_cursor =
  mc_dbi :: nat
  mc_snum :: nat
  mc_top :: nat
  mc_flags :: u32
  mc_pg :: "MDB_page option list"
  mc_ki :: "u16 list"

definition CURSOR_STACK :: nat where "CURSOR_STACK = 32"

definition MDB_MAXKEYSIZE :: nat where "MDB_MAXKEYSIZE = 511"

definition P_INVALID :: u64 where "P_INVALID = NOT 0"

definition MAIN_DBI :: nat where "MAIN_DBI = 1"

definition DB_STALE :: byte where "DB_STALE = 0x02"

definition DB_VALID :: byte where "DB_VALID = 0x08"

definition PERSISTENT_FLAGS :: u16 where "PERSISTENT_FLAGS = 0x7fff"

definition MDB_DUPSORT :: u16 where "MDB_DUPSORT = 0x04"

definition MDB_TXN_RDONLY :: u32 where "MDB_TXN_RDONLY = 0x01"

definition MDB_TXN_ERROR :: u32 where "MDB_TXN_ERROR = 0x02"

definition F_DUPDATA :: u16 where "F_DUPDATA = 0x04"

definition C_INITIALIZED :: u32 where "C_INITIALIZED = 0x01"

definition C_EOF :: u32 where "C_EOF = 0x02"

definition MDB_CORRUPTED :: int where "MDB_CORRUPTED = -30796"

definition MDB_INCOMPATIBLE :: int where "MDB_INCOMPATIBLE = -30784"

definition EINVAL :: int where "EINVAL = 22"

section \<open>Finding a page\<close>

fun dirty_page :: "(nat \<Rightarrow> MDB_page) \<Rightarrow> MDB_ID2 list list \<Rightarrow> u64 \<Rightarrow> MDB_page option option" where
  "dirty_page heap [] pgno = Some None"
| "dirty_page heap (dl # dls) pgno = do {
     h \<leftarrow> get_cell dl 0;
     (if mid h \<noteq> 0 then do {
        x \<leftarrow> mdb_mid2l_search dl pgno;
        (if x \<le> unat (mid h) then do {
           c \<leftarrow> get_cell dl x;
           (if mid c = pgno then Some (Some (heap (mptr c))) else dirty_page heap dls pgno) }
         else dirty_page heap dls pgno) }
      else dirty_page heap dls pgno) }"

text \<open>A page number that does not exist fails the assertion in front of the error return.\<close>

definition mdb_page_get :: "MDB_txn \<Rightarrow> u64 \<Rightarrow> MDB_page option" where
  "mdb_page_get txn pgno = do {
     d \<leftarrow> (if mt_flags txn AND MDB_TXN_RDONLY \<noteq> 0 \<or> mt_writemap txn then Some None
          else dirty_page (mt_heap txn) (mt_dirty txn) pgno);
     (case d of
        Some p \<Rightarrow> Some p
      | None \<Rightarrow> if pgno < mt_next_pgno txn then Some (mt_map txn pgno) else None) }"

section \<open>The stack of a cursor\<close>

definition top_page :: "MDB_cursor \<Rightarrow> MDB_page option" where
  "top_page mc = do { p \<leftarrow> get_cell (mc_pg mc) (mc_top mc); p }"

definition top_ki :: "MDB_cursor \<Rightarrow> u16 option" where
  "top_ki mc = get_cell (mc_ki mc) (mc_top mc)"

definition set_ki :: "MDB_cursor \<Rightarrow> u16 \<Rightarrow> MDB_cursor option" where
  "set_ki mc i = do { ki \<leftarrow> set_cell (mc_ki mc) (mc_top mc) i; Some (mc\<lparr>mc_ki := ki\<rparr>) }"

definition mdb_cursor_pop :: "MDB_cursor \<Rightarrow> MDB_cursor" where
  "mdb_cursor_pop mc =
     (if mc_snum mc \<noteq> 0 then
        (let mc1 = mc\<lparr>mc_snum := mc_snum mc - 1\<rparr> in
         if mc_snum mc1 \<noteq> 0 then mc1\<lparr>mc_top := mc_top mc1 - 1\<rparr> else mc1)
      else mc)"

definition mdb_cursor_push :: "MDB_cursor \<Rightarrow> MDB_page \<Rightarrow> MDB_cursor option" where
  "mdb_cursor_push mc mp =
     (if CURSOR_STACK \<le> mc_snum mc then None
      else (let mc1 = mc\<lparr>mc_top := mc_snum mc, mc_snum := mc_snum mc + 1\<rparr> in
        do {
          pg \<leftarrow> set_cell (mc_pg mc1) (mc_top mc1) (Some mp);
          set_ki (mc1\<lparr>mc_pg := pg\<rparr>) 0 }))"

section \<open>The descent from the root\<close>

text \<open>What is searched for: the lowest key (a null pointer), the highest (a key of impossible size), or a key.\<close>

datatype seek = Lowest | Highest | Seek bytes

definition child_index :: "MDB_dbx \<Rightarrow> MDB_db \<Rightarrow> MDB_page \<Rightarrow> seek \<Rightarrow> nat option" where
  "child_index dbx db mp key =
     (case key of
        Lowest \<Rightarrow> Some 0
      | Highest \<Rightarrow> Some (NUMKEYS mp - 1)
      | Seek k \<Rightarrow> do {
          (i, exact, node) \<leftarrow> mdb_node_search (md_cmp dbx) (unat (md_pad db)) mp k;
          (if node = None then Some (NUMKEYS mp - 1)
           else if exact then Some i
           else if i = 0 then None else Some (i - 1)) })"

function mdb_page_search_root :: "MDB_txn \<Rightarrow> MDB_dbx \<Rightarrow> MDB_db \<Rightarrow> seek \<Rightarrow> MDB_cursor \<Rightarrow> (int \<times> MDB_cursor) option" where
  "mdb_page_search_root txn dbx db key mc =
     (case top_page mc of
        None \<Rightarrow> None
      | Some mp \<Rightarrow>
          if IS_BRANCH mp then
            (if NUMKEYS mp \<le> 1 then None
             else
               (case child_index dbx db mp key of
                  None \<Rightarrow> None
                | Some i \<Rightarrow>
                    if NUMKEYS mp \<le> i then None
                    else
                      (case do {
                              a \<leftarrow> NODEPTR mp i;
                              node \<leftarrow> get_node (mp_mem mp) a;
                              mp' \<leftarrow> mdb_page_get txn (NODEPGNO node);
                              mc1 \<leftarrow> set_ki mc (of_nat i);
                              mdb_cursor_push mc1 mp' } of
                         None \<Rightarrow> None
                       | Some mc' \<Rightarrow> mdb_page_search_root txn dbx db key mc')))
          else if \<not> IS_LEAF mp then Some (MDB_CORRUPTED, mc)
          else Some (0, mc))"
  by auto
termination
  by (relation "measure (\<lambda>(txn, dbx, db, key, mc). CURSOR_STACK - mc_snum mc)")
    (auto simp: mdb_cursor_push_def set_ki_def Let_def bind_eq_Some_conv split: if_splits)

declare mdb_page_search_root.simps [simp del]

text \<open>The search in the tree of a database whose root is known; \<open>rootonly\<close> stops at the root.\<close>

definition search_from_root :: "MDB_txn \<Rightarrow> MDB_cursor \<Rightarrow> seek \<Rightarrow> bool \<Rightarrow> (int \<times> MDB_cursor) option" where
  "search_from_root txn mc key rootonly = do {
     db \<leftarrow> get_cell (mt_dbs txn) (mc_dbi mc);
     dbx \<leftarrow> get_cell (mt_dbxs txn) (mc_dbi mc);
     (let root = md_root db in
      if root = P_INVALID then Some (MDB_NOTFOUND, mc)
      else if root \<le> 1 then None
      else do {
        pg0 \<leftarrow> get_cell (mc_pg mc) 0;
        mp \<leftarrow> (case pg0 of
                Some p \<Rightarrow> if mp_pgno p \<noteq> root then mdb_page_get txn root else Some p
              | None \<Rightarrow> mdb_page_get txn root);
        pg \<leftarrow> set_cell (mc_pg mc) 0 (Some mp);
        (let mc1 = mc\<lparr>mc_pg := pg, mc_snum := 1, mc_top := 0\<rparr> in
         if rootonly then Some (0, mc1) else mdb_page_search_root txn dbx db key mc1) }) }"

section \<open>Reading a node\<close>

definition get64 :: "bytes \<Rightarrow> nat \<Rightarrow> u64 option" where
  "get64 m a = do {
     bs \<leftarrow> mem_read m a 8;
     Some (foldr (\<lambda>b w. ucast b OR push_bit 8 w) bs 0) }"

definition mdb_node_read :: "MDB_txn \<Rightarrow> bytes \<Rightarrow> nat \<Rightarrow> bytes option" where
  "mdb_node_read txn m a = do {
     leaf \<leftarrow> get_node m a;
     (if \<not> F_ISSET (mn_flags leaf) (ucast F_BIGDATA) then NODEDATA m a (unat (NODEDSZ leaf))
      else do {
        pgno \<leftarrow> get64 m (a + NODESIZE + unat (mn_ksize leaf));
        omp \<leftarrow> mdb_page_get txn pgno;
        mem_read (mp_mem omp) PAGEHDRSZ (unat (NODEDSZ leaf)) }) }"

text \<open>A database record in the main database: 48 bytes.\<close>

definition get_db :: "bytes \<Rightarrow> MDB_db option" where
  "get_db v = do {
     pad_lo \<leftarrow> get16 v 0;
     pad_hi \<leftarrow> get16 v 2;
     fl \<leftarrow> get16 v 4;
     depth \<leftarrow> get16 v 6;
     br \<leftarrow> get64 v 8;
     lf \<leftarrow> get64 v 16;
     ov \<leftarrow> get64 v 24;
     n \<leftarrow> get64 v 32;
     root \<leftarrow> get64 v 40;
     Some \<lparr>md_pad = ucast pad_lo OR push_bit 16 (ucast pad_hi), md_flags = fl, md_depth = depth, md_branch_pages = br,
       md_leaf_pages = lf, md_overflow_pages = ov, md_entries = n, md_root = root\<rparr> }"

section \<open>Finding the root of a database\<close>

text \<open>A new cursor; only its first page pointer is set, and the rest of its arrays is not read before it is written.\<close>

definition new_cursor :: "nat \<Rightarrow> MDB_cursor" where
  "new_cursor dbi = \<lparr>mc_dbi = dbi, mc_snum = 0, mc_top = 0, mc_flags = 0,
     mc_pg = replicate CURSOR_STACK None, mc_ki = replicate CURSOR_STACK 0\<rparr>"

text \<open>The record of a named database that is older than the transaction is read again from the main database.\<close>

definition refresh_db :: "MDB_txn \<Rightarrow> nat \<Rightarrow> (int \<times> MDB_txn) option" where
  "refresh_db txn dbi = do {
     dbx \<leftarrow> get_cell (mt_dbxs txn) dbi;
     main \<leftarrow> get_cell (mt_dbs txn) MAIN_DBI;
     mainx \<leftarrow> get_cell (mt_dbxs txn) MAIN_DBI;
     (rc, mc2) \<leftarrow> search_from_root txn (new_cursor MAIN_DBI) (Seek (md_name dbx)) False;
     (if rc \<noteq> 0 then Some (rc, txn)
      else do {
        mp \<leftarrow> top_page mc2;
        (i, exact, leaf) \<leftarrow> mdb_node_search (md_cmp mainx) (unat (md_pad main)) mp (md_name dbx);
        (if \<not> exact then Some (MDB_NOTFOUND, txn)
         else do {
           a \<leftarrow> leaf;
           v \<leftarrow> mdb_node_read txn (mp_mem mp) a;
           fl \<leftarrow> get16 v 4;
           db \<leftarrow> get_cell (mt_dbs txn) dbi;
           (if md_flags db AND PERSISTENT_FLAGS \<noteq> fl then Some (MDB_INCOMPATIBLE, txn)
            else do {
              db' \<leftarrow> get_db v;
              dbs \<leftarrow> set_cell (mt_dbs txn) dbi db';
              f \<leftarrow> get_cell (mt_dbflags txn) dbi;
              fs \<leftarrow> set_cell (mt_dbflags txn) dbi (f AND NOT DB_STALE);
              Some (0, txn\<lparr>mt_dbs := dbs, mt_dbflags := fs\<rparr>) }) }) }) }"

definition mdb_page_search :: "MDB_txn \<Rightarrow> MDB_cursor \<Rightarrow> seek \<Rightarrow> bool \<Rightarrow> (int \<times> MDB_txn \<times> MDB_cursor) option" where
  "mdb_page_search txn mc key rootonly =
     (if F_ISSET (mt_flags txn) MDB_TXN_ERROR then Some (EINVAL, txn, mc)
      else do {
        f \<leftarrow> get_cell (mt_dbflags txn) (mc_dbi mc);
        (rc, txn1) \<leftarrow> (if MAIN_DBI < mc_dbi mc \<and> f AND DB_STALE \<noteq> 0 then refresh_db txn (mc_dbi mc) else Some (0, txn));
        (if rc \<noteq> 0 then Some (rc, txn1, mc)
         else do {
           (rc', mc1) \<leftarrow> search_from_root txn1 mc key rootonly;
           Some (rc', txn1, mc1) }) })"

definition mdb_cursor_init :: "MDB_txn \<Rightarrow> nat \<Rightarrow> (MDB_txn \<times> MDB_cursor) option" where
  "mdb_cursor_init txn dbi = do {
     db \<leftarrow> get_cell (mt_dbs txn) dbi;
     f \<leftarrow> get_cell (mt_dbflags txn) dbi;
     (if md_flags db AND MDB_DUPSORT \<noteq> 0 then None
      else if f AND DB_STALE \<noteq> 0 then do {
        (rc, txn1, mc) \<leftarrow> mdb_page_search txn (new_cursor dbi) Lowest True;
        Some (txn1, mc) }
      else Some (txn, new_cursor dbi)) }"

section \<open>Looking a key up\<close>

text \<open>The operation \<^verbatim>\<open>MDB_SET\<close> on a cursor that is not yet initialised.\<close>

definition mdb_cursor_set :: "MDB_txn \<Rightarrow> MDB_cursor \<Rightarrow> bytes \<Rightarrow> ((int + bytes) \<times> MDB_txn \<times> MDB_cursor) option" where
  "mdb_cursor_set txn mc key =
     (if key = [] \<or> mc_flags mc AND C_INITIALIZED \<noteq> 0 then None
      else do {
        (rc, txn1, mc1) \<leftarrow> mdb_page_search txn mc (Seek key) False;
        (if rc \<noteq> 0 then Some (Inl rc, txn1, mc1)
         else do {
           mp \<leftarrow> top_page mc1;
           db \<leftarrow> get_cell (mt_dbs txn1) (mc_dbi mc);
           dbx \<leftarrow> get_cell (mt_dbxs txn1) (mc_dbi mc);
           (if \<not> IS_LEAF mp \<or> IS_LEAF2 mp then None
            else do {
              (i, exact, leaf) \<leftarrow> mdb_node_search (md_cmp dbx) (unat (md_pad db)) mp key;
              mc2 \<leftarrow> set_ki mc1 (of_nat i);
              (if \<not> exact then Some (Inl MDB_NOTFOUND, txn1, mc2)
               else do {
                 a \<leftarrow> leaf;
                 node \<leftarrow> get_node (mp_mem mp) a;
                 (if F_ISSET (mn_flags node) F_DUPDATA then None
                  else do {
                    data \<leftarrow> mdb_node_read txn1 (mp_mem mp) a;
                    Some (Inr data, txn1, mc2\<lparr>mc_flags := (mc_flags mc2 OR C_INITIALIZED) AND NOT C_EOF\<rparr>) }) }) }) }) })"

definition mdb_get_impl :: "MDB_txn \<Rightarrow> nat \<Rightarrow> bytes \<Rightarrow> ((int + bytes) \<times> MDB_txn) option" where
  "mdb_get_impl txn dbi key =
     (if dbi = 0 \<or> length (mt_dbs txn) \<le> dbi then Some (Inl EINVAL, txn)
      else do {
        f \<leftarrow> get_cell (mt_dbflags txn) dbi;
        (if f AND DB_VALID = 0 then Some (Inl EINVAL, txn)
         else if length key = 0 \<or> MDB_MAXKEYSIZE < length key then Some (Inl EINVAL, txn)
         else do {
           (txn1, mc) \<leftarrow> mdb_cursor_init txn dbi;
           (r, txn2, mc') \<leftarrow> mdb_cursor_set txn1 mc key;
           Some (r, txn2) }) })"

section \<open>Walking through a tree\<close>

text \<open>What is behind the recursion: the child at the index of the top page is pushed.\<close>

definition push_child :: "MDB_txn \<Rightarrow> bool \<Rightarrow> MDB_cursor \<Rightarrow> (int \<times> MDB_cursor) option" where
  "push_child txn move_right mc = do {
     p \<leftarrow> top_page mc;
     k \<leftarrow> top_ki mc;
     (if \<not> IS_BRANCH p then None
      else do {
        a \<leftarrow> NODEPTR p (unat k);
        node \<leftarrow> get_node (mp_mem p) a;
        mp \<leftarrow> mdb_page_get txn (NODEPGNO node);
        mc1 \<leftarrow> mdb_cursor_push mc mp;
        mc2 \<leftarrow> (if move_right then Some mc1 else set_ki mc1 (of_nat (NUMKEYS mp - 1)));
        Some (0, mc2) }) }"

function mdb_cursor_sibling :: "MDB_txn \<Rightarrow> bool \<Rightarrow> MDB_cursor \<Rightarrow> (int \<times> MDB_cursor) option" where
  "mdb_cursor_sibling txn move_right mc =
     (if mc_snum mc < 2 then Some (MDB_NOTFOUND, mc)
      else
        (case (top_page (mdb_cursor_pop mc), top_ki (mdb_cursor_pop mc)) of
           (Some p, Some k) \<Rightarrow>
             if (if move_right then NUMKEYS p \<le> unat k + 1 else k = 0) then
               (case mdb_cursor_sibling txn move_right (mdb_cursor_pop mc) of
                  None \<Rightarrow> None
                | Some (rc, mc2) \<Rightarrow>
                    if rc \<noteq> 0 then Some (rc, mc2\<lparr>mc_top := mc_top mc2 + 1, mc_snum := mc_snum mc2 + 1\<rparr>)
                    else push_child txn move_right mc2)
             else do {
               mc1 \<leftarrow> set_ki (mdb_cursor_pop mc) (if move_right then k + 1 else k - 1);
               push_child txn move_right mc1 }
         | _ \<Rightarrow> None))"
  by pat_completeness auto
termination
  by (relation "measure (\<lambda>(txn, move_right, mc). mc_snum mc)") (auto simp: mdb_cursor_pop_def Let_def)

declare mdb_cursor_sibling.simps [simp del]

text \<open>The key and the data of the node at an index of a leaf.\<close>

definition read_entry :: "MDB_txn \<Rightarrow> MDB_page \<Rightarrow> nat \<Rightarrow> (bytes \<times> bytes) option" where
  "read_entry txn mp i =
     (if \<not> IS_LEAF mp \<or> IS_LEAF2 mp then None
      else do {
        a \<leftarrow> NODEPTR mp i;
        leaf \<leftarrow> get_node (mp_mem mp) a;
        (if F_ISSET (mn_flags leaf) F_DUPDATA then None
         else do {
           data \<leftarrow> mdb_node_read txn (mp_mem mp) a;
           key \<leftarrow> NODEKEY (mp_mem mp) a;
           Some (key, data) }) })"

definition mdb_cursor_first :: "MDB_txn \<Rightarrow> MDB_cursor \<Rightarrow> ((int + bytes \<times> bytes) \<times> MDB_txn \<times> MDB_cursor) option" where
  "mdb_cursor_first txn mc = do {
     (rc, txn1, mc1) \<leftarrow> (if mc_flags mc AND C_INITIALIZED = 0 \<or> mc_top mc \<noteq> 0 then mdb_page_search txn mc Lowest False
                        else Some (0, txn, mc));
     (if rc \<noteq> 0 then Some (Inl rc, txn1, mc1)
      else do {
        mp \<leftarrow> top_page mc1;
        mc2 \<leftarrow> set_ki (mc1\<lparr>mc_flags := (mc_flags mc1 OR C_INITIALIZED) AND NOT C_EOF\<rparr>) 0;
        e \<leftarrow> read_entry txn1 mp 0;
        Some (Inr e, txn1, mc2) }) }"

definition mdb_cursor_next :: "MDB_txn \<Rightarrow> MDB_cursor \<Rightarrow> ((int + bytes \<times> bytes) \<times> MDB_cursor) option" where
  "mdb_cursor_next txn mc =
     (if mc_flags mc AND C_EOF \<noteq> 0 then Some (Inl MDB_NOTFOUND, mc)
      else if mc_flags mc AND C_INITIALIZED = 0 then None
      else do {
        mp \<leftarrow> top_page mc;
        k \<leftarrow> top_ki mc;
        (rc, mc1) \<leftarrow> (if NUMKEYS mp \<le> unat k + 1 then mdb_cursor_sibling txn True mc
                     else do { mc' \<leftarrow> set_ki mc (k + 1); Some (0, mc') });
        (if rc \<noteq> 0 then Some (Inl MDB_NOTFOUND, mc1\<lparr>mc_flags := (mc_flags mc1 OR C_EOF) AND NOT C_INITIALIZED\<rparr>)
         else do {
           mp' \<leftarrow> top_page mc1;
           k' \<leftarrow> top_ki mc1;
           e \<leftarrow> read_entry txn mp' (unat k');
           Some (Inr e, mc1) }) })"

text \<open>The operation \<^verbatim>\<open>MDB_NEXT\<close>, by which the server lists a database.\<close>

definition mdb_cursor_get_next :: "MDB_txn \<Rightarrow> MDB_cursor \<Rightarrow> ((int + bytes \<times> bytes) \<times> MDB_txn \<times> MDB_cursor) option" where
  "mdb_cursor_get_next txn mc =
     (if mc_flags mc AND C_INITIALIZED = 0 then mdb_cursor_first txn mc
      else do { (r, mc1) \<leftarrow> mdb_cursor_next txn mc; Some (r, txn, mc1) })"

section \<open>The pages of a transaction\<close>

text \<open>
  With ascending lists of changed pages, a page is found in the list of the transaction, then in those of its
  parents, and at last in the file.
\<close>

definition dirty_ok :: "MDB_ID2 list \<Rightarrow> bool" where
  "dirty_ok dl \<longleftrightarrow> dl \<noteq> [] \<and> unat (mid (dl ! 0)) < length dl \<and> unat (mid (dl ! 0)) < 2 ^ 31 \<and> ascending (pairs dl)"

definition dirty_lookup :: "MDB_ID2 list \<Rightarrow> u64 \<Rightarrow> nat option" where
  "dirty_lookup dl pgno = map_of (map (\<lambda>c. (mid c, mptr c)) (pairs dl)) pgno"

lemma map_of_ascending:
  "ascending ps \<Longrightarrow> k = length (takeWhile (\<lambda>p. mid p < n) ps) \<Longrightarrow>
     map_of (map (\<lambda>c. (mid c, mptr c)) ps) n = (if k < length ps \<and> mid (ps ! k) = n then Some (mptr (ps ! k)) else None)"
proof (induction ps arbitrary: k)
  case (Cons p ps)
  have a: "ascending ps" "\<forall>q \<in> set ps. mid p < mid q" using Cons.prems(1) by (simp_all add: ascending_def)
  consider "mid p < n" | "mid p = n" | "n < mid p" by (metis linorder_cases)
  then show ?case
  proof cases
    case 3
    then have "n \<notin> mid ` set ps" using a(2) by auto
    then show ?thesis using 3 Cons.prems(2) by (auto simp: map_of_eq_None_iff image_iff)
  qed (use Cons a in auto)
qed simp

lemma dirty_page_ok:
  "\<forall>dl \<in> set dls. dirty_ok dl \<Longrightarrow>
     dirty_page heap dls pgno = Some (map_option heap (foldr (\<lambda>dl r. case dirty_lookup dl pgno of None \<Rightarrow> r | Some a \<Rightarrow> Some a) dls None))"
proof (induction dls)
  case (Cons dl dls)
  let ?n = "unat (mid (dl ! 0))"
  have d: "?n < length dl" "?n < 2 ^ 31" "ascending (pairs dl)" using Cons.prems by (simp_all add: dirty_ok_def)
  have g: "get_cell dl 0 = Some (dl ! 0)" using d by (cases dl) (simp_all add: get_cell_def)
  define k where "k = length (takeWhile (\<lambda>p. mid p < pgno) (pairs dl))"
  have s: "mdb_mid2l_search dl pgno = Some (Suc k)" unfolding k_def by (rule mdb_mid2l_search_ok [OF d])
  have l: "dirty_lookup dl pgno = (if k < ?n \<and> mid (dl ! Suc k) = pgno then Some (mptr (dl ! Suc k)) else None)"
    using map_of_ascending [OF d(3) k_def] d(1) pairs_nth [OF d(1), of k] unfolding dirty_lookup_def by auto
  have c: "get_cell dl (Suc k) = Some (dl ! Suc k)" if "k < ?n" using that d(1) by (simp add: get_cell_def)
  have z: "mid (dl ! 0) \<noteq> 0" if "k < ?n" using that by auto
  show ?case using Cons g s l c z by (cases "mid (dl ! 0) = 0"; cases "k < ?n") (simp_all add: Suc_le_eq)
qed simp

lemma mdb_page_get_mapped: "mt_writemap txn \<Longrightarrow> mdb_page_get txn pgno = (if pgno < mt_next_pgno txn then Some (mt_map txn pgno) else None)"
  by (simp add: mdb_page_get_def)

section \<open>The stack as a list\<close>

definition cursor_rep :: "MDB_cursor \<Rightarrow> (MDB_page \<times> nat) list \<Rightarrow> bool" where
  "cursor_rep mc st \<longleftrightarrow> length (mc_pg mc) = CURSOR_STACK \<and> length (mc_ki mc) = CURSOR_STACK \<and> st \<noteq> [] \<and>
     mc_snum mc = length st \<and> mc_top mc = length st - 1 \<and> length st \<le> CURSOR_STACK \<and>
     (\<forall>i < length st. mc_pg mc ! i = Some (fst (st ! i)) \<and> mc_ki mc ! i = of_nat (snd (st ! i)) \<and> snd (st ! i) < 2 ^ 16)"

definition same_use :: "MDB_cursor \<Rightarrow> MDB_cursor \<Rightarrow> bool" where
  "same_use mc mc' \<longleftrightarrow> mc_dbi mc' = mc_dbi mc \<and> mc_flags mc' = mc_flags mc"

lemma same_use_simps [simp]: "same_use mc mc"
  by (simp add: same_use_def)

lemma same_use_trans: "same_use a b \<Longrightarrow> same_use b c \<Longrightarrow> same_use a c"
  by (simp add: same_use_def)

lemma stack_top:
  assumes "cursor_rep mc (st @ [(p, k)])"
  shows "top_page mc = Some p" "top_ki mc = Some (of_nat k)" "k < 2 ^ 16" "mc_snum mc = Suc (length st)"
proof -
  note s = assms [unfolded cursor_rep_def]
  have n: "mc_top mc = length st" "length st < CURSOR_STACK" using s by auto
  have "mc_pg mc ! length st = Some p \<and> mc_ki mc ! length st = of_nat k \<and> k < 2 ^ 16"
    using s by (auto dest: spec [of _ "length st"])
  then show "top_page mc = Some p" "top_ki mc = Some (of_nat k)" "k < 2 ^ 16" "mc_snum mc = Suc (length st)"
    using n s by (auto simp: top_page_def top_ki_def get_cell_def)
qed

lemma stack_set_ki:
  assumes "cursor_rep mc (st @ [(p, k)])" and "i < 2 ^ 16"
  shows "\<exists>mc'. set_ki mc (of_nat i) = Some mc' \<and> cursor_rep mc' (st @ [(p, i)]) \<and> same_use mc mc'"
proof -
  note s = assms(1) [unfolded cursor_rep_def]
  have n: "mc_top mc = length st" "length st < CURSOR_STACK" using s by auto
  have "cursor_rep (mc\<lparr>mc_ki := (mc_ki mc)[length st := of_nat i]\<rparr>) (st @ [(p, i)])"
    unfolding cursor_rep_def using s assms(2) n by (auto simp: nth_append less_Suc_eq nth_list_update)
  then show ?thesis using n s by (auto simp: set_ki_def set_cell_def same_use_def)
qed

lemma stack_push:
  assumes "cursor_rep mc st" and "length st < CURSOR_STACK"
  shows "\<exists>mc'. mdb_cursor_push mc p = Some mc' \<and> cursor_rep mc' (st @ [(p, 0)]) \<and> same_use mc mc'"
proof -
  note s = assms(1) [unfolded cursor_rep_def]
  define mc' where "mc' = mc\<lparr>mc_top := length st, mc_snum := Suc (length st), mc_pg := (mc_pg mc)[length st := Some p], mc_ki := (mc_ki mc)[length st := 0]\<rparr>"
  have "cursor_rep mc' (st @ [(p, 0)])"
    unfolding cursor_rep_def mc'_def using s assms(2) by (auto simp: nth_append less_Suc_eq nth_list_update)
  moreover have "mdb_cursor_push mc p = Some mc'"
    using s assms(2) by (simp add: mdb_cursor_push_def set_ki_def set_cell_def Let_def mc'_def)
  ultimately show ?thesis by (simp add: mc'_def same_use_def)
qed

lemma stack_pop:
  assumes "cursor_rep mc (st @ [x])" and "st \<noteq> []"
  shows "cursor_rep (mdb_cursor_pop mc) st" "same_use mc (mdb_cursor_pop mc)"
    "(mdb_cursor_pop mc)\<lparr>mc_top := mc_top (mdb_cursor_pop mc) + 1, mc_snum := mc_snum (mdb_cursor_pop mc) + 1\<rparr> = mc"
proof -
  note s = assms(1) [unfolded cursor_rep_def]
  have p: "mdb_cursor_pop mc = mc\<lparr>mc_snum := length st, mc_top := length st - 1\<rparr>" using s assms(2) by (simp add: mdb_cursor_pop_def)
  have "mc_pg mc ! i = Some (fst (st ! i)) \<and> mc_ki mc ! i = of_nat (snd (st ! i)) \<and> snd (st ! i) < 2 ^ 16" if i: "i < length st" for i
  proof -
    have "i < length (st @ [x])" "(st @ [x]) ! i = st ! i" using i by (simp_all add: nth_append)
    then show ?thesis using s by metis
  qed
  then show "cursor_rep (mdb_cursor_pop mc) st" unfolding p cursor_rep_def using s assms(2) by simp
  show "same_use mc (mdb_cursor_pop mc)" unfolding p by (simp add: same_use_def)
  have "Suc (length st - 1) = length st" using assms(2) by simp
  then show "(mdb_cursor_pop mc)\<lparr>mc_top := mc_top (mdb_cursor_pop mc) + 1, mc_snum := mc_snum (mdb_cursor_pop mc) + 1\<rparr> = mc"
    unfolding p using s by (cases mc) simp
qed

section \<open>Trees\<close>

text \<open>
  The entries of a leaf are what its nodes hold, with values read through overflow pages. A branch page has its
  children behind its nodes; the key of each node but the first separates the entries before and behind it.
\<close>

fun leaf_entry :: "MDB_txn \<Rightarrow> bytes \<Rightarrow> bytes \<times> bytes \<Rightarrow> bool" where
  "leaf_entry txn b (k, v) \<longleftrightarrow> node_key b = k \<and> mdb_node_read txn b 0 = Some v \<and>
     (\<exists>n. get_node b 0 = Some n \<and> \<not> F_ISSET (mn_flags n) F_DUPDATA)"

definition leaf_of :: "MDB_txn \<Rightarrow> MDB_page \<Rightarrow> (bytes \<times> bytes) list \<Rightarrow> bool" where
  "leaf_of txn p es \<longleftrightarrow> IS_LEAF p \<and> \<not> IS_BRANCH p \<and> es \<noteq> [] \<and> sorted_wrt memn.lt (map fst es) \<and>
     (\<exists>bs. page_rep p bs \<and> list_all2 (leaf_entry txn) bs es)"

definition child_of :: "MDB_txn \<Rightarrow> (MDB_page \<Rightarrow> (bytes \<times> bytes) list \<Rightarrow> bool) \<Rightarrow> bytes \<Rightarrow> (bytes \<times> bytes) list \<Rightarrow> bool" where
  "child_of txn T b es \<longleftrightarrow> es \<noteq> [] \<and> (\<exists>n q. get_node b 0 = Some n \<and> mdb_page_get txn (NODEPGNO n) = Some q \<and> T q es)"

definition separated :: "bytes list \<Rightarrow> (bytes \<times> bytes) list list \<Rightarrow> bool" where
  "separated bs ess \<longleftrightarrow> (\<forall>i. 0 < i \<longrightarrow> i < length bs \<longrightarrow>
     (\<forall>k \<in> fst ` set (concat (take i ess)). memn.lt k (node_key (bs ! i))) \<and>
     (\<forall>k \<in> fst ` set (concat (drop i ess)). \<not> memn.lt k (node_key (bs ! i))))"

definition branch_of :: "MDB_txn \<Rightarrow> (MDB_page \<Rightarrow> (bytes \<times> bytes) list \<Rightarrow> bool) \<Rightarrow> MDB_page \<Rightarrow> (bytes \<times> bytes) list list \<Rightarrow> bool" where
  "branch_of txn T p ess \<longleftrightarrow> IS_BRANCH p \<and> \<not> IS_LEAF p \<and>
     (\<exists>bs. page_rep p bs \<and> 1 < length bs \<and> list_all2 (child_of txn T) bs ess \<and> separated bs ess)"

fun tree :: "MDB_txn \<Rightarrow> nat \<Rightarrow> MDB_page \<Rightarrow> (bytes \<times> bytes) list \<Rightarrow> bool" where
  "tree txn 0 p es \<longleftrightarrow> leaf_of txn p es"
| "tree txn (Suc h) p es \<longleftrightarrow> (\<exists>ess. branch_of txn (tree txn h) p ess \<and> es = concat ess)"

lemma mdb_node_read_sub:
  assumes m: "mem_read m a (length b) = Some b" and v: "mdb_node_read txn b 0 = Some v"
  shows "mdb_node_read txn m a = Some v"
proof -
  obtain n where n: "get_node b 0 = Some n" using v by (auto simp: mdb_node_read_def bind_eq_Some_conv)
  have g: "get64 m (a + k) = Some w" if "get64 b k = Some w" for k w
    using that mem_read_sub [OF m, of k 8] by (auto simp: get64_def bind_eq_Some_conv)
  show ?thesis using v n get_node_read [OF m n] NODEDATA_read [OF m] g [of "NODESIZE + unat (mn_ksize n)"]
    by (auto simp: mdb_node_read_def bind_eq_Some_conv add.assoc split: if_splits)
qed

lemma page_rep_count: "page_rep p bs \<Longrightarrow> NUMKEYS p = length bs" "page_rep p bs \<Longrightarrow> length bs < 2 ^ 15"
  by (rule NUMKEYS_ok) (auto simp: page_rep_def)

lemma leaf_of_length: "leaf_of txn p es \<Longrightarrow> NUMKEYS p = length es" "leaf_of txn p es \<Longrightarrow> length es < 2 ^ 15"
  using page_rep_count by (auto simp: leaf_of_def list_all2_iff) metis

lemma leaf_of_read:
  assumes l: "leaf_of txn p es" and i: "i < length es"
  shows "read_entry txn p i = Some (es ! i)"
    "\<exists>a n. NODEPTR p i = Some a \<and> get_node (mp_mem p) a = Some n \<and> \<not> F_ISSET (mn_flags n) F_DUPDATA \<and> mdb_node_read txn (mp_mem p) a = Some (snd (es ! i))"
proof -
  obtain bs where bs: "page_rep p bs" "list_all2 (leaf_entry txn) bs es" using l by (auto simp: leaf_of_def)
  have ib: "i < length bs" and e: "leaf_entry txn (bs ! i) (es ! i)" using bs(2) i by (auto simp: list_all2_conv_all_nth)
  obtain k v n where kv: "es ! i = (k, v)" "node_key (bs ! i) = k" "mdb_node_read txn (bs ! i) 0 = Some v" "get_node (bs ! i) 0 = Some n" "\<not> F_ISSET (mn_flags n) F_DUPDATA"
    using e by (cases "es ! i") auto
  obtain a where a: "NODEPTR p i = Some a" "mem_read (mp_mem p) a (length (bs ! i)) = Some (bs ! i)" using NODEPTR_ok [OF bs(1) ib] by blast
  note r = get_node_read [OF a(2) kv(4)] mdb_node_read_sub [OF a(2) kv(3)]
  have "NODEKEY (mp_mem p) a = Some k"
    using NODEKEY_read [OF a(2)] node_ok_key [of "IS_LEAF p" "bs ! i"] bs(1) ib kv(2) by (auto simp: page_rep_def)
  then show "read_entry txn p i = Some (es ! i)" using l a(1) r kv bs(1) by (simp add: read_entry_def leaf_of_def page_rep_def)
  show "\<exists>a n. NODEPTR p i = Some a \<and> get_node (mp_mem p) a = Some n \<and> \<not> F_ISSET (mn_flags n) F_DUPDATA \<and> mdb_node_read txn (mp_mem p) a = Some (snd (es ! i))"
    using a(1) r kv by auto
qed

lemma branch_of_child:
  assumes b: "branch_of txn T p ess" and i: "i < length ess"
  shows "\<exists>a n q. NODEPTR p i = Some a \<and> get_node (mp_mem p) a = Some n \<and> mdb_page_get txn (NODEPGNO n) = Some q \<and> T q (ess ! i)"
proof -
  obtain bs where bs: "page_rep p bs" "list_all2 (child_of txn T) bs ess" using b by (auto simp: branch_of_def)
  have ib: "i < length bs" and c: "child_of txn T (bs ! i) (ess ! i)" using bs(2) i by (auto simp: list_all2_conv_all_nth)
  obtain n q where n: "get_node (bs ! i) 0 = Some n" "mdb_page_get txn (NODEPGNO n) = Some q" "T q (ess ! i)" using c by (auto simp: child_of_def)
  obtain a where a: "NODEPTR p i = Some a" "mem_read (mp_mem p) a (length (bs ! i)) = Some (bs ! i)" using NODEPTR_ok [OF bs(1) ib] by blast
  show ?thesis using a(1) get_node_read [OF a(2) n(1)] n(2,3) by blast
qed

lemma branch_of_length: "branch_of txn T p ess \<Longrightarrow> NUMKEYS p = length ess" "branch_of txn T p ess \<Longrightarrow> 1 < length ess" "branch_of txn T p ess \<Longrightarrow> length ess < 2 ^ 15"
  using page_rep_count by (auto simp: branch_of_def list_all2_iff) metis

lemma branch_of_nonempty: "branch_of txn T p ess \<Longrightarrow> es \<in> set ess \<Longrightarrow> es \<noteq> []"
  by (auto simp: branch_of_def child_of_def list_all2_conv_all_nth in_set_conv_nth)

lemma separatedD:
  assumes "separated bs ess" and "0 < i" and "i < length bs"
  shows "k \<in> fst ` set (concat (take i ess)) \<Longrightarrow> memn.lt k (node_key (bs ! i))" "k \<in> fst ` set (concat (drop i ess)) \<Longrightarrow> \<not> memn.lt k (node_key (bs ! i))"
  using assms unfolding separated_def by blast+

lemma separators_sorted:
  assumes s: "separated bs ess" and l: "length ess = length bs" and ne: "\<forall>es \<in> set ess. es \<noteq> []"
  shows "sorted_wrt memn.lt (drop 1 (map node_key bs))"
proof (rule sorted_wrt_iff_nth_less [THEN iffD2], intro allI impI)
  fix i j assume ij: "i < j" "j < length (drop 1 (map node_key bs))"
  have len: "Suc i < length ess" "Suc j < length bs" using ij l by auto
  obtain e es where e: "ess ! Suc i = e # es" using ne len(1) nth_mem [OF len(1)] by (cases "ess ! Suc i") auto
  have "ess ! Suc i \<in> set (drop (Suc i) ess)"
    using Cons_nth_drop_Suc [OF len(1)] by (metis list.set_intros(1))
  moreover have "ess ! Suc i \<in> set (take (Suc j) ess)" using ij len by (auto simp: in_set_conv_nth intro!: exI [of _ "Suc i"])
  ultimately have "fst e \<in> fst ` set (concat (drop (Suc i) ess))" "fst e \<in> fst ` set (concat (take (Suc j) ess))"
    using e by (force intro!: imageI)+
  then have "\<not> memn.lt (fst e) (node_key (bs ! Suc i))" "memn.lt (fst e) (node_key (bs ! Suc j))"
    using separatedD(2) [OF s, of "Suc i"] separatedD(1) [OF s, of "Suc j"] len l by simp_all
  then show "memn.lt (drop 1 (map node_key bs) ! i) (drop 1 (map node_key bs) ! j)"
    using memn.not_lt memn.lt_trans ij by auto
qed

lemma map_of_middle:
  assumes "i < length ess" and "k \<notin> fst ` set (concat (take i ess))" and "k \<notin> fst ` set (concat (drop (Suc i) ess))"
  shows "map_of (concat ess) k = map_of (ess ! i) k"
proof -
  have "concat ess = concat (take i ess) @ ess ! i @ concat (drop (Suc i) ess)"
    using id_take_nth_drop [OF assms(1)] by (metis concat.simps(2) concat_append)
  moreover have "map_of (concat (take i ess)) k = None" "map_of (concat (drop (Suc i) ess)) k = None"
    using assms(2,3) map_of_eq_None_iff by (metis, metis)
  ultimately show ?thesis by (simp add: map_add_def split: option.splits)
qed

text \<open>The descent goes to the only child that can have the key.\<close>

lemma child_index_seek:
  assumes b: "branch_of txn T p ess" and c: "md_cmp dbx = mdb_cmp_memn"
  shows "\<exists>i. child_index dbx db p (Seek k) = Some i \<and> i < length ess \<and> map_of (concat ess) k = map_of (ess ! i) k"
proof -
  obtain bs where bs: "page_rep p bs" "1 < length bs" "list_all2 (child_of txn T) bs ess" "separated bs ess" and leaf: "\<not> IS_LEAF p"
    using b by (auto simp: branch_of_def)
  have l: "length ess = length bs" using bs(3) by (simp add: list_all2_lengthD)
  define ks where "ks = map node_key bs"
  have srt: "sorted_wrt memn.lt (drop 1 ks)" using separators_sorted [OF bs(4) l] branch_of_nonempty [OF b] by (simp add: ks_def)
  have f: "first_key p = 1" using leaf by (simp add: first_key_def)
  obtain i where i: "mdb_node_search mdb_cmp_memn (unat (md_pad db)) p k = Some (i, i < length ks \<and> ks ! i = k, if i < length ks then NODEPTR p i else None)"
    "1 \<le> i" "i \<le> length ks" "\<forall>j. 1 \<le> j \<longrightarrow> j < i \<longrightarrow> memn.lt (ks ! j) k" "\<forall>j < length ks. i \<le> j \<longrightarrow> \<not> memn.lt (ks ! j) k"
    using memn.mdb_node_search_ok [OF bs(1) ks_def, of "unat (md_pad db)" k] srt bs(2) f by (auto simp: ks_def)
  define m where "m = (if i < length ks then if ks ! i = k then i else i - 1 else length ks - 1)"
  have node: "NODEPTR p i \<noteq> None" if "i < length ks" using NODEPTR_ok [OF bs(1), of i] that by (auto simp: ks_def)
  have nk: "NUMKEYS p = length ks" using page_rep_count [OF bs(1)] by (simp add: ks_def)
  have idx: "child_index dbx db p (Seek k) = Some m" using i(1,2) c node nk by (auto simp: child_index_def m_def)
  have ml: "m < length ess" using i l bs(2) by (auto simp: m_def ks_def)
  have lo: "\<not> memn.lt k (ks ! m)" if "0 < m"
    using that i(2-4) memn.lt_asym [of "ks ! m" k] by (auto simp: m_def split: if_splits)
  have hi: "memn.lt k (ks ! Suc m)" if "Suc m < length ks"
  proof (cases "ks ! i = k")
    case True
    then show ?thesis using that i(2) memn.sorted_from [OF srt, of i "Suc i"] by (auto simp: m_def split: if_splits)
  next
    case False
    then show ?thesis using that i(2,5) memn.not_lt [of "ks ! i" k] by (auto simp: m_def split: if_splits)
  qed
  have "k \<notin> fst ` set (concat (take m ess))"
  proof (cases "m = 0")
    case False
    then show ?thesis using separatedD(1) [OF bs(4), of m k] lo ml l by (auto simp: ks_def)
  qed simp
  moreover have "k \<notin> fst ` set (concat (drop (Suc m) ess))"
  proof (cases "Suc m < length ks")
    case True
    then show ?thesis using separatedD(2) [OF bs(4), of "Suc m" k] hi by (auto simp: ks_def)
  next
    case False
    then show ?thesis using l by (simp add: ks_def)
  qed
  ultimately show ?thesis using idx ml map_of_middle [OF ml] by blast
qed

lemma descend_step:
  assumes b: "branch_of txn T p ess" and r: "cursor_rep mc (st @ [(p, k)])" and n: "Suc (length st) < CURSOR_STACK"
    and i: "child_index dbx db p key = Some i" "i < length ess"
  shows "\<exists>mc' q. mdb_page_search_root txn dbx db key mc = mdb_page_search_root txn dbx db key mc' \<and>
    cursor_rep mc' ((st @ [(p, i)]) @ [(q, 0)]) \<and> same_use mc mc' \<and> T q (ess ! i)"
proof -
  obtain a nd q where q: "NODEPTR p i = Some a" "get_node (mp_mem p) a = Some nd" "mdb_page_get txn (NODEPGNO nd) = Some q" "T q (ess ! i)"
    using branch_of_child [OF b i(2)] by blast
  have "i < 2 ^ 16" using i(2) branch_of_length(3) [OF b] by simp
  then obtain mc1 where m1: "set_ki mc (of_nat i) = Some mc1" "cursor_rep mc1 (st @ [(p, i)])" "same_use mc mc1"
    using stack_set_ki [OF r] by blast
  obtain mc2 where m2: "mdb_cursor_push mc1 q = Some mc2" "cursor_rep mc2 ((st @ [(p, i)]) @ [(q, 0)])" "same_use mc1 mc2"
    using stack_push [OF m1(2)] n by auto
  have "mdb_page_search_root txn dbx db key mc = mdb_page_search_root txn dbx db key mc2"
    using stack_top(1) [OF r] b branch_of_length(1,2) [OF b] i q(1-3) m1(1) m2(1)
    by (subst mdb_page_search_root.simps) (simp add: branch_of_def)
  then show ?thesis using m2(2) same_use_trans [OF m1(3) m2(3)] q(4) by blast
qed

lemma search_root_leaf:
  assumes "leaf_of txn p es" and "cursor_rep mc (st @ [(p, k)])"
  shows "mdb_page_search_root txn dbx db key mc = Some (0, mc)"
  using assms stack_top(1) [OF assms(2)] by (subst mdb_page_search_root.simps) (simp add: leaf_of_def)

lemma search_root_seek:
  assumes c: "md_cmp dbx = mdb_cmp_memn"
  shows "tree txn h p es \<Longrightarrow> cursor_rep mc (st @ [(p, k)]) \<Longrightarrow> length st + h < CURSOR_STACK \<Longrightarrow>
    \<exists>mc' st' q j es'. mdb_page_search_root txn dbx db (Seek key) mc = Some (0, mc') \<and> cursor_rep mc' (st' @ [(q, j)]) \<and> same_use mc mc' \<and>
      leaf_of txn q es' \<and> map_of es' key = map_of es key \<and> set es' \<subseteq> set es"
proof (induction h arbitrary: p es mc st k)
  case 0
  then show ?case using search_root_leaf [of txn p es mc st k dbx db "Seek key"] by auto
next
  case (Suc h)
  obtain ess where ess: "branch_of txn (tree txn h) p ess" "es = concat ess" using Suc.prems(1) by auto
  obtain i where i: "child_index dbx db p (Seek key) = Some i" "i < length ess" "map_of (concat ess) key = map_of (ess ! i) key"
    using child_index_seek [OF ess(1) c] by blast
  have "Suc (length st) < CURSOR_STACK" using Suc.prems(3) by simp
  from descend_step [OF ess(1) Suc.prems(2) this i(1,2)] obtain mc' q where
    q: "mdb_page_search_root txn dbx db (Seek key) mc = mdb_page_search_root txn dbx db (Seek key) mc'"
    "cursor_rep mc' ((st @ [(p, i)]) @ [(q, 0)])" "same_use mc mc'" "tree txn h q (ess ! i)" by blast
  have "set (ess ! i) \<subseteq> set es" using i(2) ess(2) nth_mem by fastforce
  moreover have "length (st @ [(p, i)]) + h < CURSOR_STACK" using Suc.prems(3) by simp
  from Suc.IH [OF q(4,2) this] obtain mc2 st' q' j es' where
    "mdb_page_search_root txn dbx db (Seek key) mc' = Some (0, mc2)" "cursor_rep mc2 (st' @ [(q', j)])" "same_use mc' mc2"
    "leaf_of txn q' es'" "map_of es' key = map_of (ess ! i) key" "set es' \<subseteq> set (ess ! i)" by blast
  moreover note q(1) i(3) ess(2) same_use_trans [OF q(3) \<open>same_use mc' mc2\<close>]
  ultimately show ?case by (intro exI [of _ mc2] exI [of _ st'] exI [of _ q'] exI [of _ j] exI [of _ es']) simp
qed

text \<open>What is behind a position: the entries of the children right of it, on every page of the stack.\<close>

inductive walk :: "MDB_txn \<Rightarrow> nat \<Rightarrow> (MDB_page \<times> nat) list \<Rightarrow> (bytes \<times> bytes) list \<Rightarrow> bool" for txn where
  walk_root: "walk txn h [] []"
| walk_branch: "branch_of txn (tree txn h) p ess \<Longrightarrow> k < length ess \<Longrightarrow> walk txn (Suc h) st r \<Longrightarrow>
    walk txn h (st @ [(p, k)]) (concat (drop (Suc k) ess) @ r)"

inductive_cases walk_NilE: "walk txn h [] r"

lemma walk_snocE:
  assumes "walk txn h (st @ [(p, k)]) r"
  obtains ess r' where "branch_of txn (tree txn h) p ess" "k < length ess" "walk txn (Suc h) st r'" "r = concat (drop (Suc k) ess) @ r'"
  using assms by (cases rule: walk.cases) auto

lemma search_root_lowest:
  "tree txn h p es \<Longrightarrow> cursor_rep mc (st @ [(p, k)]) \<Longrightarrow> walk txn h st r \<Longrightarrow> length st + h < CURSOR_STACK \<Longrightarrow>
    \<exists>mc' st' q j es' r'. mdb_page_search_root txn dbx db Lowest mc = Some (0, mc') \<and> cursor_rep mc' (st' @ [(q, j)]) \<and> same_use mc mc' \<and>
      leaf_of txn q es' \<and> walk txn 0 st' r' \<and> es @ r = es' @ r' \<and> length st' < CURSOR_STACK"
proof (induction h arbitrary: p es mc st k r)
  case 0
  then show ?case using search_root_leaf [of txn p es mc st k dbx db Lowest] by auto
next
  case (Suc h)
  obtain ess where ess: "branch_of txn (tree txn h) p ess" "es = concat ess" using Suc.prems(1) by auto
  have z: "child_index dbx db p Lowest = Some 0" "0 < length ess" using branch_of_length(2) [OF ess(1)] by (auto simp: child_index_def)
  have "Suc (length st) < CURSOR_STACK" using Suc.prems(4) by simp
  from descend_step [OF ess(1) Suc.prems(2) this z] obtain mc' q where
    q: "mdb_page_search_root txn dbx db Lowest mc = mdb_page_search_root txn dbx db Lowest mc'"
    "cursor_rep mc' ((st @ [(p, 0)]) @ [(q, 0)])" "same_use mc mc'" "tree txn h q (ess ! 0)" by blast
  have w: "walk txn h (st @ [(p, 0)]) (concat (drop (Suc 0) ess) @ r)" by (rule walk_branch [OF ess(1) z(2) Suc.prems(3)])
  have "es = ess ! 0 @ concat (drop (Suc 0) ess)" using ess(2) z(2) by (cases ess) auto
  moreover have "length (st @ [(p, 0)]) + h < CURSOR_STACK" using Suc.prems(4) by simp
  from Suc.IH [OF q(4,2) w this] obtain mc2 st' q' j es' r' where
    "mdb_page_search_root txn dbx db Lowest mc' = Some (0, mc2)" "cursor_rep mc2 (st' @ [(q', j)])" "same_use mc' mc2"
    "leaf_of txn q' es'" "walk txn 0 st' r'" "ess ! 0 @ concat (drop (Suc 0) ess) @ r = es' @ r'" "length st' < CURSOR_STACK" by blast
  moreover note q(1) same_use_trans [OF q(3) \<open>same_use mc' mc2\<close>]
  ultimately show ?case by (intro exI [of _ mc2] exI [of _ st'] exI [of _ q'] exI [of _ j] exI [of _ es'] exI [of _ r']) simp
qed

lemma push_child_ok:
  assumes b: "branch_of txn T p ess" and r: "cursor_rep mc (st @ [(p, k)])" and n: "Suc (length st) < CURSOR_STACK" and k: "k < length ess"
  shows "\<exists>mc' q. push_child txn True mc = Some (0, mc') \<and> cursor_rep mc' ((st @ [(p, k)]) @ [(q, 0)]) \<and> same_use mc mc' \<and> T q (ess ! k)"
proof -
  obtain a nd q where q: "NODEPTR p k = Some a" "get_node (mp_mem p) a = Some nd" "mdb_page_get txn (NODEPGNO nd) = Some q" "T q (ess ! k)"
    using branch_of_child [OF b k] by blast
  obtain mc2 where m2: "mdb_cursor_push mc q = Some mc2" "cursor_rep mc2 ((st @ [(p, k)]) @ [(q, 0)])" "same_use mc mc2"
    using stack_push [OF r] n by auto
  have "unat (of_nat k :: u16) = k" using stack_top(3) [OF r] by (rule unat_u16)
  then show ?thesis using b stack_top(1,2) [OF r] q m2 by (auto simp: push_child_def branch_of_def)
qed

lemma walk_length: "cursor_rep mc (st @ [x]) \<Longrightarrow> length st < CURSOR_STACK"
  by (simp add: cursor_rep_def)

lemma concat_drop_empty:
  assumes "branch_of txn T p ess"
  shows "concat (drop k ess) = [] \<longleftrightarrow> length ess \<le> k"
proof (cases "drop k ess")
  case (Cons es ess')
  then have "es \<in> set ess" by (metis in_set_dropD list.set_intros(1))
  then show ?thesis using Cons branch_of_nonempty [OF assms] drop_eq_Nil [of k ess] by auto
qed simp

definition moved_right :: "MDB_txn \<Rightarrow> nat \<Rightarrow> MDB_cursor \<Rightarrow> nat \<Rightarrow> (bytes \<times> bytes) list \<Rightarrow> MDB_cursor \<Rightarrow> bool" where
  "moved_right txn h mc n r mc' \<longleftrightarrow> (\<exists>st q es r'. cursor_rep mc' (st @ [(q, 0)]) \<and> same_use mc mc' \<and> tree txn h q es \<and> walk txn h st r' \<and> r = es @ r' \<and> length st = n)"

lemma moved_child:
  assumes b: "branch_of txn (tree txn h) p ess" and r: "cursor_rep mc (st @ [(p, k)])" and n: "Suc (length st) < CURSOR_STACK"
    and k: "k < length ess" and w: "walk txn (Suc h) st r'" and s: "same_use mc0 mc"
  shows "\<exists>mc'. push_child txn True mc = Some (0, mc') \<and> moved_right txn h mc0 (Suc (length st)) (concat (drop k ess) @ r') mc'"
proof -
  obtain mc' q where q: "push_child txn True mc = Some (0, mc')" "cursor_rep mc' ((st @ [(p, k)]) @ [(q, 0)])" "same_use mc mc'" "tree txn h q (ess ! k)"
    using push_child_ok [OF b r n k] by blast
  have "concat (drop k ess) @ r' = ess ! k @ concat (drop (Suc k) ess) @ r'" using Cons_nth_drop_Suc [OF k] by (metis append.assoc concat.simps(2))
  moreover have "walk txn h (st @ [(p, k)]) (concat (drop (Suc k) ess) @ r')" by (rule walk_branch [OF b k w])
  ultimately have "moved_right txn h mc0 (Suc (length st)) (concat (drop k ess) @ r') mc'"
    unfolding moved_right_def using q(2,4) same_use_trans [OF s q(3)]
    by (intro exI [of _ "st @ [(p, k)]"] exI [of _ q] exI [of _ "ess ! k"] exI [of _ "concat (drop (Suc k) ess) @ r'"]) simp
  then show ?thesis using q(1) by blast
qed

text \<open>The parent of a page, when the cursor stands on it.\<close>

lemma stack_parent:
  assumes b: "branch_of txn T p ess" and r: "cursor_rep mc ((st @ [(p, k)]) @ [x])"
  shows "top_page (mdb_cursor_pop mc) = Some p" "top_ki (mdb_cursor_pop mc) = Some (of_nat k)" "unat (of_nat k :: u16) = k"
    "\<not> mc_snum mc < 2" "Suc (length st) < CURSOR_STACK" "NUMKEYS p = length ess"
proof -
  note pop = stack_pop(1) [OF r, simplified]
  show "top_page (mdb_cursor_pop mc) = Some p" "top_ki (mdb_cursor_pop mc) = Some (of_nat k)" "unat (of_nat k :: u16) = k"
    using stack_top [OF pop] unat_u16 by auto
  show "\<not> mc_snum mc < 2" "Suc (length st) < CURSOR_STACK" using r by (auto simp: cursor_rep_def)
  show "NUMKEYS p = length ess" by (rule branch_of_length(1) [OF b])
qed

lemma sibling_turns:
  assumes b: "branch_of txn (tree txn h) p ess" and r: "cursor_rep mc ((st @ [(p, k)]) @ [x])" and w: "walk txn (Suc h) st r'" and k: "Suc k < length ess"
  shows "\<exists>mc'. mdb_cursor_sibling txn True mc = Some (0, mc') \<and> moved_right txn h mc (Suc (length st)) (concat (drop (Suc k) ess) @ r') mc'"
proof -
  note top = stack_parent [OF b r] and pop = stack_pop [OF r, simplified]
  obtain mc1 where m1: "set_ki (mdb_cursor_pop mc) (of_nat (Suc k)) = Some mc1" "cursor_rep mc1 (st @ [(p, Suc k)])" "same_use (mdb_cursor_pop mc) mc1"
    using stack_set_ki [OF pop(1), of "Suc k"] k branch_of_length(3) [OF b] by auto
  obtain mc' where mc': "push_child txn True mc1 = Some (0, mc')" "moved_right txn h mc (Suc (length st)) (concat (drop (Suc k) ess) @ r') mc'"
    using moved_child [OF b m1(2) top(5) k w same_use_trans [OF pop(2) m1(3)]] by auto
  have "set_ki (mdb_cursor_pop mc) (of_nat k + 1) = Some mc1" using m1(1) by (simp add: add.commute)
  then have "mdb_cursor_sibling txn True mc = Some (0, mc')" using top k mc'(1) by (subst mdb_cursor_sibling.simps) simp
  then show ?thesis using mc'(2) by simp
qed

lemma sibling_returns:
  assumes m: "moved_right txn (Suc h) mc0 n r mc2" and s: "same_use mc mc0" and n: "Suc n < CURSOR_STACK"
  shows "\<exists>mc'. push_child txn True mc2 = Some (0, mc') \<and> moved_right txn h mc (Suc n) r mc'"
proof -
  obtain st q es r2 where q: "cursor_rep mc2 (st @ [(q, 0)])" "same_use mc0 mc2" "tree txn (Suc h) q es" "walk txn (Suc h) st r2" "r = es @ r2" "length st = n"
    using m unfolding moved_right_def by blast
  obtain qss where qss: "branch_of txn (tree txn h) q qss" "es = concat qss" using q(3) by auto
  have "0 < length qss" using branch_of_length(2) [OF qss(1)] by linarith
  then show ?thesis using moved_child [OF qss(1) q(1) _ _ q(4) same_use_trans [OF s q(2)]] n q(5,6) qss(2) by auto
qed

lemma mdb_cursor_sibling_ok:
  "walk txn h st r \<Longrightarrow> cursor_rep mc (st @ [x]) \<Longrightarrow>
     if r = [] then mdb_cursor_sibling txn True mc = Some (MDB_NOTFOUND, mc)
     else \<exists>mc'. mdb_cursor_sibling txn True mc = Some (0, mc') \<and> moved_right txn h mc (length st) r mc'"
proof (induction st arbitrary: h r mc x rule: rev_induct)
  case Nil
  then have "r = []" "mc_snum mc < 2" by (auto elim: walk_NilE simp: cursor_rep_def)
  then show ?case by (subst mdb_cursor_sibling.simps) simp
next
  case (snoc pk st)
  obtain p k where pk: "pk = (p, k)" by force
  obtain ess r' where w: "branch_of txn (tree txn h) p ess" "k < length ess" "walk txn (Suc h) st r'" "r = concat (drop (Suc k) ess) @ r'"
    using snoc.prems(1) unfolding pk by (rule walk_snocE)
  have rep: "cursor_rep mc ((st @ [(p, k)]) @ [x])" using snoc.prems(2) pk by simp
  note top = stack_parent [OF w(1) rep] and pop = stack_pop [OF rep, simplified]
  show ?case
  proof (cases "length ess \<le> Suc k")
    case False
    then have "r \<noteq> []" using w(4) concat_drop_empty [OF w(1), of "Suc k"] by auto
    moreover have "\<exists>mc'. mdb_cursor_sibling txn True mc = Some (0, mc') \<and> moved_right txn h mc (Suc (length st)) r mc'"
      using sibling_turns [OF w(1) rep w(3)] False unfolding w(4) [symmetric] by simp
    ultimately show ?thesis by simp
  next
    case True
    then have r: "r = r'" using w(4) by simp
    note ih = snoc.IH [OF w(3) pop(1)]
    have step: "mdb_cursor_sibling txn True mc =
        (case mdb_cursor_sibling txn True (mdb_cursor_pop mc) of None \<Rightarrow> None
         | Some (rc, mc2) \<Rightarrow> if rc \<noteq> 0 then Some (rc, mc2\<lparr>mc_top := mc_top mc2 + 1, mc_snum := mc_snum mc2 + 1\<rparr>) else push_child txn True mc2)"
      using top True by (subst mdb_cursor_sibling.simps) simp
    show ?thesis
    proof (cases "r = []")
      case True
      then show ?thesis using ih step pop(3) r by (simp add: MDB_NOTFOUND_def)
    next
      case False
      then obtain mc2 where m2: "mdb_cursor_sibling txn True (mdb_cursor_pop mc) = Some (0, mc2)" "moved_right txn (Suc h) (mdb_cursor_pop mc) (length st) r mc2"
        using ih r by auto
      show ?thesis using sibling_returns [OF m2(2) pop(2) top(5)] False step m2(1) by auto
    qed
  qed
qed

section \<open>Walking through all entries\<close>

text \<open>The cursor stands at entry \<open>k\<close> of a leaf, and \<open>rest\<close> are the entries behind it.\<close>

definition at_entry :: "MDB_txn \<Rightarrow> MDB_cursor \<Rightarrow> (bytes \<times> bytes) list \<Rightarrow> bool" where
  "at_entry txn mc rest \<longleftrightarrow> mc_flags mc AND C_INITIALIZED \<noteq> 0 \<and> mc_flags mc AND C_EOF = 0 \<and>
     (\<exists>st q k es r. cursor_rep mc (st @ [(q, k)]) \<and> leaf_of txn q es \<and> k < length es \<and> walk txn 0 st r \<and> rest = drop (Suc k) es @ r)"

lemma at_entryI:
  assumes "at_entry txn mc rest" and "same_use mc mc'" and "cursor_rep mc' (st @ [(q, k)])" and "leaf_of txn q es" and "k < length es" and "walk txn 0 st r"
  shows "at_entry txn mc' (drop (Suc k) es @ r)"
  using assms unfolding at_entry_def same_use_def by (simp only:) blast

lemma mdb_cursor_next_ok:
  assumes a: "at_entry txn mc rest"
  shows "case rest of [] \<Rightarrow> \<exists>mc'. mdb_cursor_next txn mc = Some (Inl MDB_NOTFOUND, mc')
    | e # rest' \<Rightarrow> \<exists>mc'. mdb_cursor_next txn mc = Some (Inr e, mc') \<and> at_entry txn mc' rest'"
proof -
  have f: "mc_flags mc AND C_INITIALIZED \<noteq> 0" "mc_flags mc AND C_EOF = 0" using a by (auto simp: at_entry_def)
  obtain st q k es r where q: "cursor_rep mc (st @ [(q, k)])" "leaf_of txn q es" "k < length es" "walk txn 0 st r" "rest = drop (Suc k) es @ r"
    using a by (auto simp: at_entry_def)
  have top: "top_page mc = Some q" "top_ki mc = Some (of_nat k)" "unat (of_nat k :: u16) = k" using stack_top [OF q(1)] unat_u16 by auto
  have nk: "NUMKEYS q = length es" "length es < 2 ^ 15" using leaf_of_length [OF q(2)] by auto
  show ?thesis
  proof (cases "Suc k < length es")
    case True
    obtain mc1 where m1: "set_ki mc (of_nat (Suc k)) = Some mc1" "cursor_rep mc1 (st @ [(q, Suc k)])" "same_use mc mc1"
      using stack_set_ki [OF q(1), of "Suc k"] True nk(2) by auto
    have "set_ki mc (of_nat k + 1) = Some mc1" using m1(1) by (simp add: add.commute)
    moreover have "unat (of_nat (Suc k) :: u16) = Suc k" using True nk(2) by (intro unat_u16) simp
    ultimately have "mdb_cursor_next txn mc = Some (Inr (es ! Suc k), mc1)"
      using f top nk(1) True stack_top(1,2) [OF m1(2)] leaf_of_read(1) [OF q(2) True] by (simp add: mdb_cursor_next_def)
    moreover have "rest = es ! Suc k # drop (Suc (Suc k)) es @ r" using q(5) Cons_nth_drop_Suc [OF True] by simp
    ultimately show ?thesis using at_entryI [OF a m1(3,2) q(2) True q(4)] by simp
  next
    case False
    then have r: "rest = r" using q(5) by simp
    note sib = mdb_cursor_sibling_ok [OF q(4,1)]
    show ?thesis
    proof (cases r)
      case Nil
      then show ?thesis using sib f top nk(1) False r by (simp add: mdb_cursor_next_def MDB_NOTFOUND_def)
    next
      case (Cons e r')
      then obtain mc' where mc': "mdb_cursor_sibling txn True mc = Some (0, mc')" "moved_right txn 0 mc (length st) r mc'" using sib by auto
      obtain st2 q2 es2 r2 where q2: "cursor_rep mc' (st2 @ [(q2, 0)])" "same_use mc mc'" "leaf_of txn q2 es2" "walk txn 0 st2 r2" "r = es2 @ r2"
        using mc'(2) unfolding moved_right_def by auto
      have e2: "0 < length es2" using q2(3) by (simp add: leaf_of_def)
      have "mdb_cursor_next txn mc = Some (Inr (es2 ! 0), mc')"
        using f top nk(1) False mc'(1) stack_top(1,2) [OF q2(1)] leaf_of_read(1) [OF q2(3) e2] by (simp add: mdb_cursor_next_def)
      moreover have "es2 = es2 ! 0 # drop (Suc 0) es2" using e2 by (cases es2) auto
      ultimately show ?thesis using at_entryI [OF a q2(2,1,3) e2 q2(4)] r q2(5) by (cases es2) auto
    qed
  qed
qed

section \<open>Databases\<close>

text \<open>
  A database with the entries \<open>es\<close>: its record leads to a tree that the stack of a cursor can hold. A cursor is
  new for a database if at most the root is already in its stack.
\<close>

definition db_rep :: "MDB_txn \<Rightarrow> nat \<Rightarrow> (bytes \<times> bytes) list \<Rightarrow> bool" where
  "db_rep txn dbi es \<longleftrightarrow> (\<exists>db dbx. get_cell (mt_dbs txn) dbi = Some db \<and> get_cell (mt_dbxs txn) dbi = Some dbx \<and> md_cmp dbx = mdb_cmp_memn \<and>
     md_flags db AND MDB_DUPSORT = 0 \<and>
     (if md_root db = P_INVALID then es = []
      else 1 < md_root db \<and> (\<exists>p h. mdb_page_get txn (md_root db) = Some p \<and> h < CURSOR_STACK \<and> tree txn h p es)))"

definition new_for :: "MDB_txn \<Rightarrow> nat \<Rightarrow> MDB_cursor \<Rightarrow> bool" where
  "new_for txn dbi mc \<longleftrightarrow> mc_dbi mc = dbi \<and> mc_flags mc = 0 \<and> mc_top mc = 0 \<and> length (mc_pg mc) = CURSOR_STACK \<and> length (mc_ki mc) = CURSOR_STACK \<and>
     (mc_pg mc ! 0 = None \<or> mc_pg mc ! 0 = mdb_page_get txn (md_root (mt_dbs txn ! dbi)))"

lemma new_for_new_cursor: "new_for txn dbi (new_cursor dbi)"
  by (simp add: new_for_def new_cursor_def CURSOR_STACK_def)

lemma search_from_root_empty:
  assumes "get_cell (mt_dbs txn) (mc_dbi mc) = Some db" "get_cell (mt_dbxs txn) (mc_dbi mc) = Some dbx" "md_root db = P_INVALID"
  shows "search_from_root txn mc key ro = Some (MDB_NOTFOUND, mc)"
  using assms by (simp add: search_from_root_def)

lemma search_from_root_start:
  assumes db: "get_cell (mt_dbs txn) dbi = Some db" "get_cell (mt_dbxs txn) dbi = Some dbx" and n: "new_for txn dbi mc"
    and p: "md_root db \<noteq> P_INVALID" "1 < md_root db" "mdb_page_get txn (md_root db) = Some p"
  shows "\<exists>mc1 k. search_from_root txn mc key False = mdb_page_search_root txn dbx db key mc1 \<and> search_from_root txn mc key True = Some (0, mc1) \<and>
    cursor_rep mc1 [(p, k)] \<and> same_use mc mc1 \<and> new_for txn dbi mc1"
proof -
  define mc1 where "mc1 = mc\<lparr>mc_pg := (mc_pg mc)[0 := Some p], mc_snum := 1, mc_top := 0\<rparr>"
  have l: "length (mc_pg mc) = CURSOR_STACK" "length (mc_ki mc) = CURSOR_STACK" "0 < CURSOR_STACK" and dbi: "mc_dbi mc = dbi"
    using n by (simp_all add: new_for_def CURSOR_STACK_def)
  have i: "mt_dbs txn ! dbi = db" using db(1) by (simp add: get_cell_def split: if_splits)
  have "mc_pg mc ! 0 = None \<or> mc_pg mc ! 0 = Some p" using n p(3) i by (simp add: new_for_def)
  moreover have "get_cell (mc_pg mc) 0 = Some (mc_pg mc ! 0)" "set_cell (mc_pg mc) 0 (Some p) = Some ((mc_pg mc)[0 := Some p])"
    using l by (simp_all add: get_cell_def set_cell_def)
  ultimately have s: "search_from_root txn mc key ro = (if ro then Some (0, mc1) else mdb_page_search_root txn dbx db key mc1)" for ro
    using db p dbi by (auto simp: search_from_root_def Let_def mc1_def not_le)
  have "cursor_rep mc1 [(p, unat (mc_ki mc ! 0))]"
    using l unsigned_less [of "mc_ki mc ! 0"] by (simp add: cursor_rep_def mc1_def)
  moreover have "new_for txn dbi mc1" using n l p(3) i by (simp add: new_for_def mc1_def)
  ultimately show ?thesis using s [of True] s [of False] by (auto simp: mc1_def same_use_def)
qed

text \<open>
  The transaction after a database has been used: where its record is older than the transaction, it is replaced
  by that of the main database, which must have an entry with the same flags.
\<close>

definition used_db :: "MDB_txn \<Rightarrow> nat \<Rightarrow> MDB_txn \<Rightarrow> bool" where
  "used_db txn dbi txn' \<longleftrightarrow> dbi < length (mt_dbs txn) \<and> dbi < length (mt_dbxs txn) \<and> dbi < length (mt_dbflags txn) \<and>
     (if mt_dbflags txn ! dbi AND DB_STALE = 0 then txn' = txn
      else MAIN_DBI < dbi \<and> (\<exists>es v db. db_rep txn MAIN_DBI es \<and> map_of es (md_name (mt_dbxs txn ! dbi)) = Some v \<and> get_db v = Some db \<and>
        md_flags db = md_flags (mt_dbs txn ! dbi) AND PERSISTENT_FLAGS \<and>
        txn' = txn\<lparr>mt_dbs := (mt_dbs txn)[dbi := db], mt_dbflags := (mt_dbflags txn)[dbi := (mt_dbflags txn ! dbi) AND NOT DB_STALE]\<rparr>))"

text \<open>A search for a key ends at the leaf that can have it.\<close>

lemma search_key_leaf:
  assumes r: "db_rep txn dbi es" and n: "new_for txn dbi mc"
    and db: "get_cell (mt_dbs txn) dbi = Some db" "get_cell (mt_dbxs txn) dbi = Some dbx"
  shows "(search_from_root txn mc (Seek key) False = Some (MDB_NOTFOUND, mc) \<and> es = []) \<or>
    (\<exists>mc' st q j es'. search_from_root txn mc (Seek key) False = Some (0, mc') \<and> cursor_rep mc' (st @ [(q, j)]) \<and> same_use mc mc' \<and>
      leaf_of txn q es' \<and> map_of es' key = map_of es key \<and> md_cmp dbx = mdb_cmp_memn)"
proof (cases "md_root db = P_INVALID")
  case True
  then show ?thesis using search_from_root_empty [OF _ _ True, of txn mc] r n db by (auto simp: db_rep_def new_for_def)
next
  case False
  then obtain p h where p: "1 < md_root db" "mdb_page_get txn (md_root db) = Some p" "h < CURSOR_STACK" "tree txn h p es" "md_cmp dbx = mdb_cmp_memn"
    using r db by (auto simp: db_rep_def)
  obtain mc1 k where m1: "search_from_root txn mc (Seek key) False = mdb_page_search_root txn dbx db (Seek key) mc1" "cursor_rep mc1 ([] @ [(p, k)])" "same_use mc mc1"
    using search_from_root_start [OF db n False p(1,2), of "Seek key"] by auto
  obtain mc' st q j es' where s: "mdb_page_search_root txn dbx db (Seek key) mc1 = Some (0, mc')" "cursor_rep mc' (st @ [(q, j)])" "same_use mc1 mc'"
    "leaf_of txn q es'" "map_of es' key = map_of es key"
    using search_root_seek [OF p(5,4) m1(2), of db key] p(3) by auto
  then show ?thesis using m1(1) p(5) same_use_trans [OF m1(3) s(3)] by metis
qed

lemma leaf_search:
  assumes l: "leaf_of txn q es"
  shows "\<exists>i exact a. mdb_node_search mdb_cmp_memn pad q key = Some (i, exact, a) \<and> i < 2 ^ 16 \<and>
    (case map_of es key of None \<Rightarrow> \<not> exact
     | Some v \<Rightarrow> exact \<and> (\<exists>a' n. a = Some a' \<and> get_node (mp_mem q) a' = Some n \<and> \<not> F_ISSET (mn_flags n) F_DUPDATA \<and> mdb_node_read txn (mp_mem q) a' = Some v))"
proof -
  obtain bs where bs: "page_rep q bs" "list_all2 (leaf_entry txn) bs es" and leaf: "IS_LEAF q" "es \<noteq> []" and srt: "sorted_wrt memn.lt (map fst es)"
    using l by (auto simp: leaf_of_def)
  have "length bs = length es" "\<forall>i < length es. node_key (bs ! i) = fst (es ! i)"
    using bs(2) by (auto simp: list_all2_conv_all_nth) (metis leaf_entry.simps prod.collapse)
  then have ks: "map fst es = map node_key bs" by (auto intro: nth_equalityI)
  have len: "length bs = length es" using bs(2) by (rule list_all2_lengthD)
  have f: "first_key q = 0" using leaf by (simp add: first_key_def)
  obtain i where i: "mdb_node_search mdb_cmp_memn pad q key = Some (i, i < length es \<and> map fst es ! i = key, if i < length es then NODEPTR q i else None)"
    "i \<le> length es" "\<forall>j < i. memn.lt (map fst es ! j) key" "\<forall>j < length es. i \<le> j \<longrightarrow> \<not> memn.lt (map fst es ! j) key"
    using memn.mdb_node_search_ok [OF bs(1) ks, of pad key] srt f leaf(2) by auto
  have b: "i < 2 ^ 16" using i(2) leaf_of_length(2) [OF l] by simp
  show ?thesis
  proof (cases "i < length es \<and> map fst es ! i = key")
    case True
    have "distinct (map fst es)" by (rule sorted_keys_distinct [OF srt])
    then have "map_of es key = Some (snd (es ! i))" using True by (metis map_of_is_SomeI nth_map nth_mem prod.collapse)
    then show ?thesis using i(1) True b leaf_of_read(2) [OF l, of i] by auto
  next
    case False
    have "map_of es key = None"
    proof (rule ccontr)
      assume "map_of es key \<noteq> None"
      then obtain j where j: "j < length es" "map fst es ! j = key" by (auto simp: in_set_conv_nth dest!: map_of_SomeD)
      then have "i \<le> j" using i(3) by (metis memn.lt_irrefl not_le)
      then show False using False j i(2,4) memn.sorted_from [of 0 "map fst es" i j] srt by (cases "i = j") auto
    qed
    then show ?thesis using i(1) False b by auto
  qed
qed

lemma get_cell_nth: "i < length xs \<Longrightarrow> get_cell xs i = Some (xs ! i)"
  by (simp add: get_cell_def)

lemma set_cell_update: "i < length xs \<Longrightarrow> set_cell xs i v = Some (xs[i := v])"
  by (simp add: set_cell_def)

lemma get_db_flags: "get_db v = Some db \<Longrightarrow> get16 v 4 = Some (md_flags db)"
  by (auto simp: get_db_def bind_eq_Some_conv)

lemma refresh_db_ok:
  assumes u: "used_db txn dbi txn'" and s: "mt_dbflags txn ! dbi AND DB_STALE \<noteq> 0"
  shows "refresh_db txn dbi = Some (0, txn')"
proof -
  obtain es v db where m: "db_rep txn MAIN_DBI es" "map_of es (md_name (mt_dbxs txn ! dbi)) = Some v" "get_db v = Some db"
    "md_flags db = md_flags (mt_dbs txn ! dbi) AND PERSISTENT_FLAGS"
    "txn' = txn\<lparr>mt_dbs := (mt_dbs txn)[dbi := db], mt_dbflags := (mt_dbflags txn)[dbi := (mt_dbflags txn ! dbi) AND NOT DB_STALE]\<rparr>"
    using u s by (auto simp: used_db_def)
  have len: "dbi < length (mt_dbs txn)" "dbi < length (mt_dbxs txn)" "dbi < length (mt_dbflags txn)" using u by (simp_all add: used_db_def)
  obtain main mainx where main: "get_cell (mt_dbs txn) MAIN_DBI = Some main" "get_cell (mt_dbxs txn) MAIN_DBI = Some mainx" using m(1) by (auto simp: db_rep_def)
  obtain mc' st q j es' where q: "search_from_root txn (new_cursor MAIN_DBI) (Seek (md_name (mt_dbxs txn ! dbi))) False = Some (0, mc')"
    "cursor_rep mc' (st @ [(q, j)])" "leaf_of txn q es'" "map_of es' (md_name (mt_dbxs txn ! dbi)) = Some v" "md_cmp mainx = mdb_cmp_memn"
    using search_key_leaf [OF m(1) new_for_new_cursor main, of "md_name (mt_dbxs txn ! dbi)"] m(2) by auto
  obtain i a n where a: "mdb_node_search mdb_cmp_memn (unat (md_pad main)) q (md_name (mt_dbxs txn ! dbi)) = Some (i, True, Some a)"
    "mdb_node_read txn (mp_mem q) a = Some v"
    using leaf_search [OF q(3), of "unat (md_pad main)" "md_name (mt_dbxs txn ! dbi)"] q(4) by auto
  show ?thesis using q(1,5) a main stack_top(1) [OF q(2)] m(3-5) len get_db_flags [OF m(3)]
    by (simp add: refresh_db_def get_cell_nth set_cell_update)
qed

lemma mdb_page_search_ok:
  assumes u: "used_db txn (mc_dbi mc) txn'" and e: "\<not> F_ISSET (mt_flags txn) MDB_TXN_ERROR"
  shows "mdb_page_search txn mc key ro = map_option (\<lambda>(rc, mc'). (rc, txn', mc')) (search_from_root txn' mc key ro)"
proof (cases "mt_dbflags txn ! mc_dbi mc AND DB_STALE = 0")
  case True
  then show ?thesis using u e by (auto simp: mdb_page_search_def used_db_def get_cell_nth map_option_case split: option.splits bind_splits)
next
  case False
  have "MAIN_DBI < mc_dbi mc" "mc_dbi mc < length (mt_dbflags txn)" using u False by (auto simp: used_db_def)
  then show ?thesis using refresh_db_ok [OF u False] e False
    by (auto simp: mdb_page_search_def get_cell_nth map_option_case split: option.splits bind_splits)
qed

lemma used_db_after:
  assumes u: "used_db txn dbi txn'"
  shows "used_db txn' dbi txn'" "mt_flags txn' = mt_flags txn" "length (mt_dbs txn') = length (mt_dbs txn)"
proof -
  have z: "(f AND NOT DB_STALE) AND DB_STALE = 0" for f by (simp add: and.assoc)
  show "used_db txn' dbi txn'" "mt_flags txn' = mt_flags txn" "length (mt_dbs txn') = length (mt_dbs txn)"
    using u z by (auto simp: used_db_def split: if_splits)
qed

lemma mdb_cursor_init_ok:
  assumes u: "used_db txn dbi txn'" and r: "db_rep txn' dbi es" and e: "\<not> F_ISSET (mt_flags txn) MDB_TXN_ERROR"
  shows "\<exists>mc. mdb_cursor_init txn dbi = Some (txn', mc) \<and> new_for txn' dbi mc"
proof -
  have len: "dbi < length (mt_dbs txn)" "dbi < length (mt_dbflags txn)" using u by (simp_all add: used_db_def)
  obtain db dbx where db: "get_cell (mt_dbs txn') dbi = Some db" "get_cell (mt_dbxs txn') dbi = Some dbx" "md_flags db AND MDB_DUPSORT = 0" using r by (auto simp: db_rep_def)
  have "PERSISTENT_FLAGS AND MDB_DUPSORT = MDB_DUPSORT" by (simp add: PERSISTENT_FLAGS_def MDB_DUPSORT_def)
  then have pf: "(x AND PERSISTENT_FLAGS) AND MDB_DUPSORT = x AND MDB_DUPSORT" for x by (simp add: and.assoc)
  show ?thesis
  proof (cases "mt_dbflags txn ! dbi AND DB_STALE = 0")
    case True
    then have "txn' = txn" using u by (simp add: used_db_def)
    then show ?thesis using True len db(1,3) new_for_new_cursor [of txn dbi] by (simp add: mdb_cursor_init_def get_cell_nth)
  next
    case False
    have "md_flags db = md_flags (mt_dbs txn ! dbi) AND PERSISTENT_FLAGS" using u False db(1) len by (auto simp: used_db_def get_cell_nth)
    then have d: "md_flags (mt_dbs txn ! dbi) AND MDB_DUPSORT = 0" using db(3) pf by simp
    have ps: "mdb_page_search txn (new_cursor dbi) Lowest True = map_option (\<lambda>(rc, mc'). (rc, txn', mc')) (search_from_root txn' (new_cursor dbi) Lowest True)"
      using mdb_page_search_ok [of txn "new_cursor dbi"] u e by (simp add: new_cursor_def)
    have "\<exists>rc mc. search_from_root txn' (new_cursor dbi) Lowest True = Some (rc, mc) \<and> new_for txn' dbi mc"
    proof (cases "md_root db = P_INVALID")
      case True
      then show ?thesis using search_from_root_empty [OF _ _ True, of txn' "new_cursor dbi"] db new_for_new_cursor by (auto simp: new_cursor_def)
    next
      case False
      then obtain p where p: "1 < md_root db" "mdb_page_get txn' (md_root db) = Some p" using r db(1) by (auto simp: db_rep_def)
      show ?thesis using search_from_root_start [OF db(1,2) new_for_new_cursor False p, of Lowest] by auto
    qed
    then show ?thesis using False d ps len by (auto simp: mdb_cursor_init_def get_cell_nth)
  qed
qed

section \<open>Lookup and listing\<close>

lemma mdb_cursor_set_ok:
  assumes u: "used_db txn dbi txn" and r: "db_rep txn dbi es" and e: "\<not> F_ISSET (mt_flags txn) MDB_TXN_ERROR" and n: "new_for txn dbi mc" and k: "key \<noteq> []"
  shows "\<exists>mc'. mdb_cursor_set txn mc key = Some (case map_of es key of None \<Rightarrow> Inl MDB_NOTFOUND | Some v \<Rightarrow> Inr v, txn, mc')"
proof -
  obtain db dbx where db: "get_cell (mt_dbs txn) dbi = Some db" "get_cell (mt_dbxs txn) dbi = Some dbx" using r by (auto simp: db_rep_def)
  have m: "mc_dbi mc = dbi" "mc_flags mc = 0" using n by (simp_all add: new_for_def)
  have ps: "mdb_page_search txn mc (Seek key) False = map_option (\<lambda>(rc, mc'). (rc, txn, mc')) (search_from_root txn mc (Seek key) False)"
    using mdb_page_search_ok [of txn mc] u e m(1) by simp
  show ?thesis using search_key_leaf [OF r n db, of key]
  proof
    assume "search_from_root txn mc (Seek key) False = Some (MDB_NOTFOUND, mc) \<and> es = []"
    then show ?thesis using ps m k by (simp add: mdb_cursor_set_def MDB_NOTFOUND_def)
  next
    assume "\<exists>mc' st q j es'. search_from_root txn mc (Seek key) False = Some (0, mc') \<and> cursor_rep mc' (st @ [(q, j)]) \<and> same_use mc mc' \<and>
      leaf_of txn q es' \<and> map_of es' key = map_of es key \<and> md_cmp dbx = mdb_cmp_memn"
    then obtain mc' st q j es' where q: "search_from_root txn mc (Seek key) False = Some (0, mc')" "cursor_rep mc' (st @ [(q, j)])"
      "leaf_of txn q es'" "map_of es' key = map_of es key" "md_cmp dbx = mdb_cmp_memn" by blast
    obtain i exact a where s: "mdb_node_search mdb_cmp_memn (unat (md_pad db)) q key = Some (i, exact, a)" "i < 2 ^ 16"
      "case map_of es' key of None \<Rightarrow> \<not> exact
       | Some v \<Rightarrow> exact \<and> (\<exists>a' n. a = Some a' \<and> get_node (mp_mem q) a' = Some n \<and> \<not> F_ISSET (mn_flags n) F_DUPDATA \<and> mdb_node_read txn (mp_mem q) a' = Some v)"
      using leaf_search [OF q(3)] by blast
    obtain mc2 where m2: "set_ki mc' (of_nat i) = Some mc2" using stack_set_ki [OF q(2) s(2)] by blast
    have l: "IS_LEAF q" "\<not> IS_LEAF2 q" using q(3) by (auto simp: leaf_of_def page_rep_def)
    show ?thesis using ps m k db q(1,4,5) s stack_top(1) [OF q(2)] m2 l
      by (cases "map_of es key") (auto simp: mdb_cursor_set_def)
  qed
qed

text \<open>
  C5: \<^verbatim>\<open>mdb_get\<close> answers what the database holds. For every key of an allowed size, in every valid database whose record
  leads to a tree of at most 32 levels, it returns the value that the entries of the tree have for the key, also
  from overflow pages, or \<^verbatim>\<open>MDB_NOTFOUND\<close>; no assertion fails on the way. A record that is older than the transaction is
  first read again from the main database, by the same search.
\<close>

theorem mdb_get_finds:
  assumes u: "used_db txn dbi txn'" and r: "db_rep txn' dbi es" and e: "\<not> F_ISSET (mt_flags txn) MDB_TXN_ERROR"
    and d: "dbi \<noteq> 0" "mt_dbflags txn ! dbi AND DB_VALID \<noteq> 0" and k: "key \<noteq> []" "length key \<le> MDB_MAXKEYSIZE"
  shows "mdb_get_impl txn dbi key = Some (case map_of es key of None \<Rightarrow> Inl MDB_NOTFOUND | Some v \<Rightarrow> Inr v, txn')"
proof -
  obtain mc where mc: "mdb_cursor_init txn dbi = Some (txn', mc)" "new_for txn' dbi mc" using mdb_cursor_init_ok [OF u r e] by blast
  note u' = used_db_after [OF u]
  obtain mc' where "mdb_cursor_set txn' mc key = Some (case map_of es key of None \<Rightarrow> Inl MDB_NOTFOUND | Some v \<Rightarrow> Inr v, txn', mc')"
    using mdb_cursor_set_ok [OF u'(1) r _ mc(2) k(1)] e u'(2) by auto
  moreover have "dbi < length (mt_dbs txn)" "dbi < length (mt_dbflags txn)" using u by (simp_all add: used_db_def)
  ultimately show ?thesis using mc(1) d k by (simp add: mdb_get_impl_def get_cell_nth not_less)
qed

text \<open>The loop by which the server lists a database, with at most \<open>n\<close> calls: the entries and the code that ends it.\<close>

fun list_entries :: "nat \<Rightarrow> MDB_txn \<Rightarrow> MDB_cursor \<Rightarrow> ((bytes \<times> bytes) list \<times> int) option" where
  "list_entries 0 txn mc = None"
| "list_entries (Suc n) txn mc =
     (case mdb_cursor_get_next txn mc of
        None \<Rightarrow> None
      | Some (Inl rc, txn', mc') \<Rightarrow> Some ([], rc)
      | Some (Inr e, txn', mc') \<Rightarrow> map_option (\<lambda>(es, rc). (e # es, rc)) (list_entries n txn' mc'))"

lemma list_entries_rest:
  "at_entry txn mc rest \<Longrightarrow> length rest < n \<Longrightarrow> list_entries n txn mc = Some (rest, MDB_NOTFOUND)"
proof (induction rest arbitrary: n mc)
  case Nil
  then obtain n' where n: "n = Suc n'" by (cases n) auto
  obtain mc' where "mdb_cursor_next txn mc = Some (Inl MDB_NOTFOUND, mc')" using mdb_cursor_next_ok [OF Nil.prems(1)] by auto
  then show ?case using n Nil.prems(1) by (simp add: mdb_cursor_get_next_def at_entry_def)
next
  case (Cons e rest)
  then obtain n' where n: "n = Suc n'" by (cases n) auto
  obtain mc' where "mdb_cursor_next txn mc = Some (Inr e, mc')" "at_entry txn mc' rest" using mdb_cursor_next_ok [OF Cons.prems(1)] by auto
  then show ?case using n Cons.prems Cons.IH [of mc' n'] by (simp add: mdb_cursor_get_next_def at_entry_def)
qed

lemma sorted_concat:
  "sorted_wrt (\<lambda>xs ys. \<forall>x \<in> set xs. \<forall>y \<in> set ys. memn.lt (fst x) (fst y)) ess \<Longrightarrow> \<forall>es \<in> set ess. sorted_wrt memn.lt (map fst es) \<Longrightarrow>
     sorted_wrt memn.lt (map fst (concat ess))"
  by (induction ess) (auto simp: sorted_wrt_append)

text \<open>The order in the leaves and the separators order all entries.\<close>

lemma tree_sorted: "tree txn h p es \<Longrightarrow> sorted_wrt memn.lt (map fst es)"
proof (induction h arbitrary: p es)
  case (Suc h)
  obtain ess where ess: "branch_of txn (tree txn h) p ess" "es = concat ess" using Suc.prems by auto
  obtain bs where bs: "list_all2 (child_of txn (tree txn h)) bs ess" "separated bs ess" using ess(1) by (auto simp: branch_of_def)
  have len: "length bs = length ess" using bs(1) by (rule list_all2_lengthD)
  have "sorted_wrt (\<lambda>xs ys. \<forall>x \<in> set xs. \<forall>y \<in> set ys. memn.lt (fst x) (fst y)) ess"
  proof (rule sorted_wrt_iff_nth_less [THEN iffD2], intro allI impI ballI)
    fix i j x y assume ij: "i < j" "j < length ess" and xy: "x \<in> set (ess ! i)" "y \<in> set (ess ! j)"
    have "ess ! i \<in> set (take j ess)" using ij by (auto simp: in_set_conv_nth)
    moreover have "ess ! j \<in> set (drop j ess)" using Cons_nth_drop_Suc [OF ij(2)] by (metis list.set_intros(1))
    ultimately have "fst x \<in> fst ` set (concat (take j ess))" "fst y \<in> fst ` set (concat (drop j ess))" using xy by (auto intro!: imageI)
    then have "memn.lt (fst x) (node_key (bs ! j))" "\<not> memn.lt (fst y) (node_key (bs ! j))" using separatedD [OF bs(2), of j] ij len by simp_all
    then show "memn.lt (fst x) (fst y)" using memn.not_lt [of "fst y" "node_key (bs ! j)"] memn.lt_trans [of "fst x" "node_key (bs ! j)"] by auto
  qed
  moreover have "\<forall>es \<in> set ess. sorted_wrt memn.lt (map fst es)"
    using Suc.IH branch_of_child [OF ess(1)] by (auto simp: in_set_conv_nth) blast
  ultimately show ?case using sorted_concat ess(2) by blast
qed (simp add: leaf_of_def)

lemma mdb_cursor_first_ok:
  assumes u: "used_db txn dbi txn" and r: "db_rep txn dbi es" and e: "\<not> F_ISSET (mt_flags txn) MDB_TXN_ERROR" and n: "new_for txn dbi mc"
  shows "case es of [] \<Rightarrow> mdb_cursor_first txn mc = Some (Inl MDB_NOTFOUND, txn, mc)
    | x # xs \<Rightarrow> \<exists>mc'. mdb_cursor_first txn mc = Some (Inr x, txn, mc') \<and> at_entry txn mc' xs"
proof -
  obtain db dbx where db: "get_cell (mt_dbs txn) dbi = Some db" "get_cell (mt_dbxs txn) dbi = Some dbx" using r by (auto simp: db_rep_def)
  have m: "mc_dbi mc = dbi" "mc_flags mc = 0" using n by (simp_all add: new_for_def)
  have ps: "mdb_page_search txn mc Lowest False = map_option (\<lambda>(rc, mc'). (rc, txn, mc')) (search_from_root txn mc Lowest False)"
    using mdb_page_search_ok [of txn mc] u e m(1) by simp
  show ?thesis
  proof (cases "md_root db = P_INVALID")
    case True
    then show ?thesis using search_from_root_empty [OF _ _ True, of txn mc] r db ps m by (auto simp: db_rep_def mdb_cursor_first_def MDB_NOTFOUND_def)
  next
    case False
    then obtain p h where p: "1 < md_root db" "mdb_page_get txn (md_root db) = Some p" "h < CURSOR_STACK" "tree txn h p es" using r db by (auto simp: db_rep_def)
    obtain mc1 k where m1: "search_from_root txn mc Lowest False = mdb_page_search_root txn dbx db Lowest mc1" "cursor_rep mc1 ([] @ [(p, k)])" "same_use mc mc1"
      using search_from_root_start [OF db n False p(1,2), of Lowest] by auto
    obtain mc' st q j es' r' where s: "mdb_page_search_root txn dbx db Lowest mc1 = Some (0, mc')" "cursor_rep mc' (st @ [(q, j)])" "same_use mc1 mc'"
      "leaf_of txn q es'" "walk txn 0 st r'" "es = es' @ r'"
      using search_root_lowest [OF p(4) m1(2) walk_root, of dbx db] p(3) by auto
    define mc2 where "mc2 = mc'\<lparr>mc_flags := (mc_flags mc' OR C_INITIALIZED) AND NOT C_EOF\<rparr>"
    have "cursor_rep mc2 (st @ [(q, j)])" using s(2) by (simp add: mc2_def cursor_rep_def)
    then obtain mc3 where m3: "set_ki mc2 0 = Some mc3" "cursor_rep mc3 (st @ [(q, 0)])" "same_use mc2 mc3" using stack_set_ki [of mc2 st q j 0] by auto
    have z: "0 < length es'" using s(4) by (simp add: leaf_of_def)
    have f: "mc_flags mc3 = 1" using m3(3) s(3) m1(3) m(2) by (simp add: same_use_def mc2_def C_INITIALIZED_def C_EOF_def)
    have "at_entry txn mc3 (drop (Suc 0) es' @ r')" unfolding at_entry_def using f m3(2) s(4,5) z by (simp add: C_INITIALIZED_def C_EOF_def) blast
    moreover have "mdb_cursor_first txn mc = Some (Inr (es' ! 0), txn, mc3)"
      using ps m m1(1) s(1) stack_top(1) [OF s(2)] m3(1) leaf_of_read(1) [OF s(4) z] by (simp add: mdb_cursor_first_def mc2_def)
    ultimately show ?thesis using s(6) z by (cases es') auto
  qed
qed

text \<open>
  C9: listing a database gives its entries, each once and in the byte order of their keys, through all leaves of its tree, and then
  \<^verbatim>\<open>MDB_NOTFOUND\<close>. The calls of \<^verbatim>\<open>mdb_cursor_get\<close> with \<^verbatim>\<open>MDB_NEXT\<close> are one more than the entries.
\<close>

theorem cursor_lists_database:
  assumes u: "used_db txn dbi txn'" and r: "db_rep txn' dbi es" and e: "\<not> F_ISSET (mt_flags txn) MDB_TXN_ERROR" and n: "length es < n"
  shows "\<exists>mc. mdb_cursor_init txn dbi = Some (txn', mc) \<and> list_entries n txn' mc = Some (es, MDB_NOTFOUND) \<and> sorted_wrt ord_class.lexordp (map fst es)"
proof -
  obtain mc where mc: "mdb_cursor_init txn dbi = Some (txn', mc)" "new_for txn' dbi mc" using mdb_cursor_init_ok [OF u r e] by blast
  note u' = used_db_after [OF u]
  have first: "mdb_cursor_get_next txn' mc = mdb_cursor_first txn' mc" using mc(2) by (simp add: mdb_cursor_get_next_def new_for_def)
  obtain n' where n': "n = Suc n'" using n by (cases n) auto
  have ok: "\<not> F_ISSET (mt_flags txn') MDB_TXN_ERROR" using e u'(2) by simp
  have "list_entries n txn' mc = Some (es, MDB_NOTFOUND)"
  proof (cases es)
    case Nil
    then show ?thesis using mdb_cursor_first_ok [OF u'(1) r ok mc(2)] n' first by simp
  next
    case (Cons x xs)
    then obtain mc' where "mdb_cursor_first txn' mc = Some (Inr x, txn', mc')" "at_entry txn' mc' xs" using mdb_cursor_first_ok [OF u'(1) r ok mc(2)] by auto
    then show ?thesis using list_entries_rest [of txn' mc' xs n'] n' n first Cons by simp
  qed
  moreover have "sorted_wrt ord_class.lexordp (map fst es)" using r tree_sorted by (auto simp: db_rep_def memn_lt split: if_splits)
  ultimately show ?thesis using mc(1) by blast
qed

section \<open>A tree on concrete bytes\<close>

text \<open>A branch page with two leaves: the key \<open>a\<close> with the data 7, and the page of the theory \<open>Mdbpage\<close>.\<close>

definition demo_node_a :: bytes where
  "demo_node_a = [1, 0, 0, 0, 0, 0, 1, 0, 97, 7]"

definition demo_page_a :: MDB_page where
  "demo_page_a = \<lparr>mp_pgno = 3, mp_pad = 0, mp_flags = P_LEAF, mp_lower = 18, mp_upper = 54, mp_mem = replicate 16 0 @ [54, 0] @ replicate 36 0 @ demo_node_a\<rparr>"

definition demo_child :: "byte \<Rightarrow> bytes \<Rightarrow> bytes" where
  "demo_child pg k = [pg, 0, 0, 0, 0, 0, of_nat (length k), 0] @ k"

definition demo_root :: MDB_page where
  "demo_root = \<lparr>mp_pgno = 2, mp_pad = 0, mp_flags = P_BRANCH, mp_lower = 20, mp_upper = 46,
     mp_mem = replicate 16 0 @ [56, 0, 46, 0] @ replicate 26 0 @ demo_child 4 [98] @ [0] @ demo_child 3 []\<rparr>"

definition demo_db :: "u64 \<Rightarrow> MDB_db" where
  "demo_db root = \<lparr>md_pad = 0, md_flags = 0, md_depth = 2, md_branch_pages = 1, md_leaf_pages = 2, md_overflow_pages = 0, md_entries = 2, md_root = root\<rparr>"

definition demo_txn :: MDB_txn where
  "demo_txn = \<lparr>mt_flags = MDB_TXN_RDONLY, mt_writemap = True, mt_dirty = [], mt_heap = (\<lambda>_. demo_root),
     mt_map = (\<lambda>pg. if pg = 2 then demo_root else if pg = 3 then demo_page_a else demo_page), mt_next_pgno = 5,
     mt_dbs = [demo_db P_INVALID, demo_db 2], mt_dbxs = replicate 2 \<lparr>md_name = [], md_cmp = mdb_cmp_memn\<rparr>, mt_dbflags = [DB_VALID, DB_VALID]\<rparr>"

lemma demo_page_a_rep: "page_rep demo_page_a [demo_node_a]"
proof -
  have x: "extent demo_node_a = 10" by code_simp
  have "placed (mp_mem demo_page_a) 54 [(54, demo_node_a)]"
    by (simp add: placed_def x) (simp add: demo_page_a_def demo_node_a_def mem_read_def)
  moreover have "map (mp_ptrs demo_page_a) [0..<1] = [Some 54]" by code_simp
  moreover have "IS_LEAF demo_page_a" "\<not> IS_LEAF2 demo_page_a" "node_ok True demo_node_a" by code_simp+
  moreover have "length (mp_mem demo_page_a) = 64" "unat (mp_lower demo_page_a) = 18" "unat (mp_upper demo_page_a) = 54" by code_simp+
  ultimately show ?thesis using page_repI [of demo_page_a "[(54, demo_node_a)]"] x by (simp add: PAGEHDRSZ_def)
qed

lemma demo_root_rep: "page_rep demo_root [demo_child 3 [], demo_child 4 [98]]"
proof -
  have x: "extent (demo_child 3 []) = 8" "extent (demo_child 4 [98]) = 10" by code_simp+
  have "placed (mp_mem demo_root) 46 [(56, demo_child 3 []), (46, demo_child 4 [98])]"
    by (simp add: placed_def x) (simp add: demo_root_def demo_child_def mem_read_def)
  moreover have "map (mp_ptrs demo_root) [0, Suc 0] = [Some 56, Some 46]" by code_simp
  moreover have "\<not> IS_LEAF demo_root" "\<not> IS_LEAF2 demo_root" "node_ok False (demo_child 3 [])" "node_ok False (demo_child 4 [98])" by code_simp+
  moreover have "length (mp_mem demo_root) = 64" "unat (mp_lower demo_root) = 20" "unat (mp_upper demo_root) = 46" by code_simp+
  ultimately show ?thesis using page_repI [of demo_root "[(56, demo_child 3 []), (46, demo_child 4 [98])]"] x
    by (simp add: PAGEHDRSZ_def)
qed

lemma demo_get: "mdb_page_get demo_txn 2 = Some demo_root" "mdb_page_get demo_txn 3 = Some demo_page_a" "mdb_page_get demo_txn 4 = Some demo_page"
  by (simp_all add: mdb_page_get_def demo_txn_def)

lemma leaf_entry_code [code]:
  "leaf_entry txn b (k, v) = (node_key b = k \<and> mdb_node_read txn b 0 = Some v \<and> (case get_node b 0 of None \<Rightarrow> False | Some n \<Rightarrow> \<not> F_ISSET (mn_flags n) F_DUPDATA))"
  by (auto split: option.splits)

lemma demo_leaf_a: "leaf_of demo_txn demo_page_a [([97], [7])]"
proof -
  have "leaf_entry demo_txn demo_node_a ([97], [7])" by code_simp
  moreover have "IS_LEAF demo_page_a" "\<not> IS_BRANCH demo_page_a" by code_simp+
  ultimately show ?thesis using demo_page_a_rep by (auto simp: leaf_of_def intro!: exI [of _ "[demo_node_a]"])
qed

lemma demo_leaf_b: "leaf_of demo_txn demo_page [([98], [1, 2])]"
proof -
  have "leaf_entry demo_txn demo_node ([98], [1, 2])" by code_simp
  moreover have "IS_LEAF demo_page" "\<not> IS_BRANCH demo_page" by code_simp+
  ultimately show ?thesis using demo_page_rep by (auto simp: leaf_of_def intro!: exI [of _ "[demo_node]"])
qed

lemma demo_branch: "branch_of demo_txn (tree demo_txn 0) demo_root [[([97], [7])], [([98], [1, 2])]]"
proof -
  have g: "map_option NODEPGNO (get_node (demo_child 3 []) 0) = Some 3" "map_option NODEPGNO (get_node (demo_child 4 [98]) 0) = Some 4" by code_simp+
  have k: "node_key (demo_child 4 [98]) = [98]" by code_simp
  have "separated [demo_child 3 [], demo_child 4 [98]] [[([97], [7])], [([98], [1, 2])]]"
    using k by (auto simp: separated_def less_Suc_eq memn_lt)
  moreover have "child_of demo_txn (tree demo_txn 0) (demo_child 3 []) [([97], [7])]" "child_of demo_txn (tree demo_txn 0) (demo_child 4 [98]) [([98], [1, 2])]"
    using g demo_get demo_leaf_a demo_leaf_b by (auto simp: child_of_def)
  moreover have "IS_BRANCH demo_root" "\<not> IS_LEAF demo_root" by code_simp+
  ultimately show ?thesis using demo_root_rep by (auto simp: branch_of_def intro!: exI [of _ "[demo_child 3 [], demo_child 4 [98]]"])
qed

lemma demo_db_rep: "db_rep demo_txn 1 [([97], [7]), ([98], [1, 2])]"
proof -
  have "tree demo_txn (Suc 0) demo_root [([97], [7]), ([98], [1, 2])]" using demo_branch by fastforce
  moreover have "get_cell (mt_dbs demo_txn) 1 = Some (demo_db 2)" "get_cell (mt_dbxs demo_txn) 1 = Some \<lparr>md_name = [], md_cmp = mdb_cmp_memn\<rparr>"
    by (simp_all add: demo_txn_def get_cell_def)
  ultimately show ?thesis unfolding db_rep_def using demo_get(1)
    by (auto simp: demo_db_def P_INVALID_def CURSOR_STACK_def intro!: exI [of _ demo_root] exI [of _ "Suc 0"])
qed

lemma demo_used: "used_db demo_txn 1 demo_txn" "\<not> F_ISSET (mt_flags demo_txn) MDB_TXN_ERROR" "mt_dbflags demo_txn ! 1 AND DB_VALID \<noteq> 0"
  by (simp_all add: used_db_def demo_txn_def DB_STALE_def DB_VALID_def F_ISSET_def MDB_TXN_ERROR_def MDB_TXN_RDONLY_def)

theorem mdb_get_finds_witness:
  "mdb_get_impl demo_txn 1 [98] = Some (Inr [1, 2], demo_txn) \<and> mdb_get_impl demo_txn 1 [99] = Some (Inl MDB_NOTFOUND, demo_txn)"
  using mdb_get_finds [OF demo_used(1) demo_db_rep demo_used(2) _ demo_used(3), of "[98]"] mdb_get_finds [OF demo_used(1) demo_db_rep demo_used(2) _ demo_used(3), of "[99]"]
  by (simp add: MDB_MAXKEYSIZE_def)

theorem cursor_lists_database_witness:
  "\<exists>mc. mdb_cursor_init demo_txn 1 = Some (demo_txn, mc) \<and> list_entries 3 demo_txn mc = Some ([([97], [7]), ([98], [1, 2])], MDB_NOTFOUND)"
  using cursor_lists_database [OF demo_used(1) demo_db_rep demo_used(2), of 3] by auto

end
