(* ===== verification/Linenoise.thy ===== *)
theory Linenoise
  imports Ystr
begin

text \<open>
  The line editor of the command line client, \<^verbatim>\<open>lib/linenoise/linenoise.c\<close>: the state of a line that is
  edited, the functions that the keys call, the loop that reads the keys, completion, and the history
  with its file. The terminal is what was written to it and the outcomes of the next writes. \<^term>\<open>None\<close> is an
  access outside a block, or a refresh that never ends because the terminal has no columns. The completion
  callback is set, as the client does. The multi line mode, which the client never selects, is not modelled.
\<close>

section \<open>The terminal and the state\<close>

record tty =
  written :: bytes
  outcomes :: "bool list"

definition tty_write :: "bytes \<Rightarrow> tty \<Rightarrow> bool \<times> tty" where
  "tty_write bs t =
     (case ymalloc (outcomes t) of (ok, os) \<Rightarrow>
      (ok, t\<lparr>written := (if ok then written t @ bs else written t), outcomes := os\<rparr>))"

record linenoiseState =
  lbuf :: bytes
  lbuflen :: nat
  lprompt :: bytes
  lpos :: nat
  llen :: nat
  lcols :: nat
  lindex :: int

definition LINENOISE_MAX_LINE :: nat where
  "LINENOISE_MAX_LINE = 4096"

section \<open>Showing the line\<close>

text \<open>\<^verbatim>\<open>while ((plen+pos) >= l->cols) { buf++; len--; pos--; }\<close>, on numbers that wrap around.\<close>

function scroll_left :: "size_t \<Rightarrow> size_t \<Rightarrow> nat \<Rightarrow> size_t \<Rightarrow> size_t \<Rightarrow> nat \<times> size_t \<times> size_t" where
  "scroll_left plen cols buf len pos =
     (if cols \<noteq> 0 \<and> cols \<le> plen + pos then scroll_left plen cols (buf + 1) (len - 1) (pos - 1) else (buf, len, pos))"
  by auto
termination
proof (relation "measure (\<lambda>(plen, cols, buf, len, pos). unat (plen + pos))", simp, clarify)
  fix plen cols pos :: size_t
  assume "cols \<noteq> 0" "cols \<le> plen + pos"
  then have "plen + pos \<noteq> 0" by auto
  then have "unat (plen + pos - 1) < unat (plen + pos)" by (simp add: unat_minus_one unat_gt_0)
  then show "((plen, cols, buf + 1, len - 1, pos - 1), plen, cols, buf, len, pos) \<in> measure (\<lambda>(plen, cols, buf, len, pos). unat (plen + pos))" for buf len
    by (simp add: algebra_simps)
qed

declare scroll_left.simps [simp del]

text \<open>\<^verbatim>\<open>while (plen+len > l->cols) len--;\<close>\<close>

function cut_right :: "size_t \<Rightarrow> size_t \<Rightarrow> size_t \<Rightarrow> size_t" where
  "cut_right plen cols len = (if cols < plen + len then cut_right plen cols (len - 1) else len)"
  by auto
termination
proof (relation "measure (\<lambda>(plen, cols, len). unat (plen + len))")
  fix plen cols len :: size_t
  assume "cols < plen + len"
  then have "plen + len \<noteq> 0" by auto
  then have "unat (plen + len - 1) < unat (plen + len)" by (simp add: unat_minus_one unat_gt_0)
  then show "((plen, cols, len - 1), plen, cols, len) \<in> measure (\<lambda>(plen, cols, len). unat (plen + len))"
    by (simp add: algebra_simps)
qed simp

declare cut_right.simps [simp del]

fun decimal :: "nat \<Rightarrow> bytes" where
  "decimal n = (if n < 10 then [48 + word_of_nat n] else decimal (n div 10) @ [48 + word_of_nat (n mod 10)])"

declare decimal.simps [simp del]

text \<open>A write that fails ends the refresh.\<close>

fun tty_writes :: "bytes list \<Rightarrow> tty \<Rightarrow> tty" where
  "tty_writes [] t = t"
| "tty_writes (b # bs) t = (case tty_write b t of (ok, t') \<Rightarrow> if ok then tty_writes bs t' else t')"

definition refreshSingleLine :: "linenoiseState \<Rightarrow> tty \<Rightarrow> tty option" where
  "refreshSingleLine l t =
     (let plen = word_of_nat (length (lprompt l)) :: size_t; cols = word_of_nat (lcols l) in
      if cols = 0 then None
      else (case scroll_left plen cols 0 (word_of_nat (llen l)) (word_of_nat (lpos l)) of (buf, len, pos) \<Rightarrow>
        do {
          shown \<leftarrow> mem_read (lbuf l) buf (unat (cut_right plen cols len));
          Some (tty_writes
            [[27, 91, 48, 71], lprompt l, shown, [27, 91, 48, 75],
             [27, 91, 48, 71, 27, 91] @ decimal (unat (pos + plen)) @ [67]] t) }))"

definition refreshLine :: "linenoiseState \<Rightarrow> tty \<Rightarrow> tty option" where
  "refreshLine l t = refreshSingleLine l t"

section \<open>Editing\<close>

definition linenoiseEditInsert :: "byte \<Rightarrow> linenoiseState \<Rightarrow> tty \<Rightarrow> (int \<times> linenoiseState \<times> tty) option" where
  "linenoiseEditInsert c l t =
     (if llen l < lbuflen l then
        (if llen l = lpos l then do {
           b1 \<leftarrow> set_cell (lbuf l) (lpos l) c;
           b2 \<leftarrow> set_cell b1 (llen l + 1) 0;
           (let l' = l\<lparr>lbuf := b2, lpos := lpos l + 1, llen := llen l + 1\<rparr> in
            if length (lprompt l') + llen l' < lcols l' then
              (case tty_write [c] t of (ok, t') \<Rightarrow> Some (if ok then 0 else -1, l', t'))
            else do { t' \<leftarrow> refreshLine l' t; Some (0, l', t') }) }
         else do {
           tail \<leftarrow> mem_read (lbuf l) (lpos l) (llen l - lpos l);
           b1 \<leftarrow> mem_write (lbuf l) (lpos l + 1) tail;
           b2 \<leftarrow> set_cell b1 (lpos l) c;
           b3 \<leftarrow> set_cell b2 (llen l + 1) 0;
           (let l' = l\<lparr>lbuf := b3, lpos := lpos l + 1, llen := llen l + 1\<rparr> in
            do { t' \<leftarrow> refreshLine l' t; Some (0, l', t') }) })
      else Some (0, l, t))"

type_synonym edit_result = "(linenoiseState \<times> tty) option"

definition shown :: "linenoiseState \<Rightarrow> tty \<Rightarrow> edit_result" where
  "shown l t = do { t' \<leftarrow> refreshLine l t; Some (l, t') }"

definition linenoiseEditMoveLeft :: "linenoiseState \<Rightarrow> tty \<Rightarrow> edit_result" where
  "linenoiseEditMoveLeft l t = (if 0 < lpos l then shown (l\<lparr>lpos := lpos l - 1\<rparr>) t else Some (l, t))"

definition linenoiseEditMoveRight :: "linenoiseState \<Rightarrow> tty \<Rightarrow> edit_result" where
  "linenoiseEditMoveRight l t = (if lpos l \<noteq> llen l then shown (l\<lparr>lpos := lpos l + 1\<rparr>) t else Some (l, t))"

definition linenoiseEditDelete :: "linenoiseState \<Rightarrow> tty \<Rightarrow> edit_result" where
  "linenoiseEditDelete l t =
     (if 0 < llen l \<and> lpos l < llen l then do {
        tail \<leftarrow> mem_read (lbuf l) (lpos l + 1) (llen l - lpos l - 1);
        b1 \<leftarrow> mem_write (lbuf l) (lpos l) tail;
        b2 \<leftarrow> set_cell b1 (llen l - 1) 0;
        shown (l\<lparr>lbuf := b2, llen := llen l - 1\<rparr>) t }
      else Some (l, t))"

definition linenoiseEditBackspace :: "linenoiseState \<Rightarrow> tty \<Rightarrow> edit_result" where
  "linenoiseEditBackspace l t =
     (if 0 < lpos l \<and> 0 < llen l then do {
        tail \<leftarrow> mem_read (lbuf l) (lpos l) (llen l - lpos l);
        b1 \<leftarrow> mem_write (lbuf l) (lpos l - 1) tail;
        b2 \<leftarrow> set_cell b1 (llen l - 1) 0;
        shown (l\<lparr>lbuf := b2, lpos := lpos l - 1, llen := llen l - 1\<rparr>) t }
      else Some (l, t))"

text \<open>\<^verbatim>\<open>while (l->pos > 0 && l->buf[l->pos-1] ...) l->pos--;\<close>\<close>

fun back_while :: "(byte \<Rightarrow> bool) \<Rightarrow> bytes \<Rightarrow> nat \<Rightarrow> nat option" where
  "back_while P b 0 = Some 0"
| "back_while P b (Suc p) = do { c \<leftarrow> get_cell b p; (if P c then back_while P b p else Some (Suc p)) }"

definition linenoiseEditDeletePrevWord :: "linenoiseState \<Rightarrow> tty \<Rightarrow> edit_result" where
  "linenoiseEditDeletePrevWord l t = do {
     p1 \<leftarrow> back_while (\<lambda>c. c = 32) (lbuf l) (lpos l);
     p2 \<leftarrow> back_while (\<lambda>c. c \<noteq> 32) (lbuf l) p1;
     tail \<leftarrow> mem_read (lbuf l) (lpos l) (llen l - lpos l + 1);
     b \<leftarrow> mem_write (lbuf l) p2 tail;
     shown (l\<lparr>lbuf := b, lpos := p2, llen := llen l - (lpos l - p2)\<rparr>) t }"

text \<open>Ctrl-t, ctrl-u and ctrl-k of the loop.\<close>

definition edit_transpose :: "linenoiseState \<Rightarrow> tty \<Rightarrow> edit_result" where
  "edit_transpose l t =
     (if 0 < lpos l \<and> lpos l < llen l then do {
        aux \<leftarrow> get_cell (lbuf l) (lpos l - 1);
        c \<leftarrow> get_cell (lbuf l) (lpos l);
        b1 \<leftarrow> set_cell (lbuf l) (lpos l - 1) c;
        b2 \<leftarrow> set_cell b1 (lpos l) aux;
        shown (l\<lparr>lbuf := b2, lpos := (if lpos l \<noteq> llen l - 1 then lpos l + 1 else lpos l)\<rparr>) t }
      else Some (l, t))"

definition edit_erase :: "linenoiseState \<Rightarrow> tty \<Rightarrow> edit_result" where
  "edit_erase l t = do { b \<leftarrow> set_cell (lbuf l) 0 0; shown (l\<lparr>lbuf := b, lpos := 0, llen := 0\<rparr>) t }"

definition edit_kill :: "linenoiseState \<Rightarrow> tty \<Rightarrow> edit_result" where
  "edit_kill l t = do { b \<leftarrow> set_cell (lbuf l) (lpos l) 0; shown (l\<lparr>lbuf := b, llen := lpos l\<rparr>) t }"

text \<open>The keys that change the line only.\<close>

definition quiet :: "edit_result \<Rightarrow> (int \<times> linenoiseState \<times> tty) option" where
  "quiet r = map_option (\<lambda>(l, t). (0, l, t)) r"

definition line_key :: "byte \<Rightarrow> linenoiseState \<Rightarrow> tty \<Rightarrow> (int \<times> linenoiseState \<times> tty) option" where
  "line_key c l t =
     (if c = 127 \<or> c = 8 then quiet (linenoiseEditBackspace l t)
      else if c = 20 then quiet (edit_transpose l t)
      else if c = 2 then quiet (linenoiseEditMoveLeft l t)
      else if c = 6 then quiet (linenoiseEditMoveRight l t)
      else if c = 21 then quiet (edit_erase l t)
      else if c = 11 then quiet (edit_kill l t)
      else if c = 1 then quiet (shown (l\<lparr>lpos := 0\<rparr>) t)
      else if c = 5 then quiet (shown (l\<lparr>lpos := llen l\<rparr>) t)
      else if c = 12 then quiet (shown l (snd (tty_write [27, 91, 72, 27, 91, 50, 74] t)))
      else if c = 23 then quiet (linenoiseEditDeletePrevWord l t)
      else linenoiseEditInsert c l t)"

section \<open>History\<close>

text \<open>\<open>hents\<close> is the array \<^verbatim>\<open>history\<close> up to \<^verbatim>\<open>history_len\<close>, \<^term>\<open>None\<close> before it is allocated.\<close>

record history =
  hmax :: nat
  hents :: "bytes list option"

definition linenoiseHistoryAdd :: "bool list \<Rightarrow> bytes \<Rightarrow> history \<Rightarrow> int \<times> history \<times> bool list" where
  "linenoiseHistoryAdd m line h =
     (if hmax h = 0 then (0, h, m)
      else (case (if hents h = None then ymalloc m else (True, m)) of (ok1, m1) \<Rightarrow>
        if \<not> ok1 then (0, h, m1)
        else (let es = (case hents h of None \<Rightarrow> [] | Some es \<Rightarrow> es) in
          case ymalloc m1 of (ok2, m2) \<Rightarrow>
          if \<not> ok2 then (0, h\<lparr>hents := Some es\<rparr>, m2)
          else (1, h\<lparr>hents := Some ((if length es = hmax h then tl es else es) @ [line])\<rparr>, m2))))"

definition linenoiseHistorySetMaxLen :: "bool \<Rightarrow> int \<Rightarrow> history \<Rightarrow> int \<times> history" where
  "linenoiseHistorySetMaxLen ok len h =
     (if len < 1 then (0, h)
      else (case hents h of
         None \<Rightarrow> (1, h\<lparr>hmax := nat len\<rparr>)
       | Some es \<Rightarrow>
           if \<not> ok then (0, h)
           else (let tocopy = (if len < int (length es) then nat len else length es) in
             (1, \<lparr>hmax = nat len, hents = Some (drop (length es - tocopy) es)\<rparr>))))"

text \<open>The contents of the file that is written, if it can be opened.\<close>

definition linenoiseHistorySave :: "bool \<Rightarrow> history \<Rightarrow> int \<times> bytes option" where
  "linenoiseHistorySave ok h =
     (if \<not> ok then (-1, None)
      else (0, Some (concat (map (\<lambda>e. e @ [10]) (case hents h of None \<Rightarrow> [] | Some es \<Rightarrow> es)))))"

text \<open>\<^verbatim>\<open>fgets\<close> with a buffer of \<open>n\<close> bytes on what is left of a file that is not at its end.\<close>

definition fgets :: "nat \<Rightarrow> bytes \<Rightarrow> bytes \<times> bytes" where
  "fgets n inp =
     (let k = length (takeWhile (\<lambda>c. c \<noteq> 10) inp); j = min (n - 1) (if k < length inp then Suc k else k) in
      (take j inp, drop j inp))"

lemma fgets_shorter: "inp \<noteq> [] \<Longrightarrow> 1 < n \<Longrightarrow> length (snd (fgets n inp)) < length inp"
  using length_takeWhile_le [of "\<lambda>c. c \<noteq> 10" inp] by (cases inp) (auto simp: fgets_def Let_def min_def)

text \<open>The line is cut at its first carriage return or else at its first newline.\<close>

definition cut_line :: "bytes \<Rightarrow> bytes" where
  "cut_line s = (if 13 \<in> set s then takeWhile (\<lambda>c. c \<noteq> 13) s else takeWhile (\<lambda>c. c \<noteq> 10) s)"

function load_loop :: "bool list \<Rightarrow> bytes \<Rightarrow> history \<Rightarrow> history \<times> bool list" where
  "load_loop m inp h =
     (if inp = [] then (h, m)
      else (case linenoiseHistoryAdd m (cut_line (cstr (fst (fgets LINENOISE_MAX_LINE inp)))) h of (_, h', m') \<Rightarrow>
        load_loop m' (snd (fgets LINENOISE_MAX_LINE inp)) h'))"
  by auto
termination
  by (relation "measure (\<lambda>(m, inp, h). length inp)") (auto simp: LINENOISE_MAX_LINE_def fgets_shorter)

declare load_loop.simps [simp del]

definition linenoiseHistoryLoad :: "bool list \<Rightarrow> bytes option \<Rightarrow> history \<Rightarrow> int \<times> history \<times> bool list" where
  "linenoiseHistoryLoad m f h =
     (case f of None \<Rightarrow> (-1, h, m) | Some inp \<Rightarrow> (case load_loop m inp h of (h', m') \<Rightarrow> (0, h', m')))"

text \<open>The copy of the current line that goes into the history is taken to succeed.\<close>

definition linenoiseEditHistoryNext ::
    "bool \<Rightarrow> linenoiseState \<Rightarrow> history \<Rightarrow> tty \<Rightarrow> (linenoiseState \<times> history \<times> tty) option" where
  "linenoiseEditHistoryNext prev l h t =
     (case hents h of
        None \<Rightarrow> Some (l, h, t)
      | Some es \<Rightarrow>
          if \<not> 1 < length es then Some (l, h, t)
          else (let k = int (length es) - 1 - lindex l; i = lindex l + (if prev then 1 else -1) in
            if k < 0 \<or> int (length es) \<le> k then None
            else do {
              cur \<leftarrow> c_text (lbuf l);
              (let es' = es[nat k := cur]; h' = h\<lparr>hents := Some es'\<rparr> in
               if i < 0 then Some (l\<lparr>lindex := 0\<rparr>, h', t)
               else if int (length es) \<le> i then Some (l\<lparr>lindex := int (length es) - 1\<rparr>, h', t)
               else do {
                 b1 \<leftarrow> mem_write (lbuf l) 0 (strncpy (es' ! nat (int (length es) - 1 - i)) (lbuflen l));
                 b2 \<leftarrow> set_cell b1 (lbuflen l - 1) 0;
                 (l', t') \<leftarrow> shown (l\<lparr>lbuf := b2, llen := length (cstr b2), lpos := length (cstr b2), lindex := i\<rparr>) t;
                 Some (l', h', t') }) }))"

section \<open>Completion\<close>

text \<open>The loop of \<^verbatim>\<open>completeLine\<close> over the keys: candidate \<open>i\<close> is shown, the last one is the line itself.\<close>

fun complete_loop :: "bytes list \<Rightarrow> nat \<Rightarrow> bytes \<Rightarrow> linenoiseState \<Rightarrow> tty \<Rightarrow> (int \<times> bytes \<times> linenoiseState \<times> tty) option" where
  "complete_loop cs i [] l t = do {
     t1 \<leftarrow> refreshLine (if i < length cs then l\<lparr>lbuf := cs ! i @ [0], llen := length (cs ! i), lpos := length (cs ! i)\<rparr> else l) t;
     Some (-1, [], l, t1) }"
| "complete_loop cs i (c # inp) l t = do {
     t1 \<leftarrow> refreshLine (if i < length cs then l\<lparr>lbuf := cs ! i @ [0], llen := length (cs ! i), lpos := length (cs ! i)\<rparr> else l) t;
     (if c = 9 then complete_loop cs ((i + 1) mod (length cs + 1)) inp l t1
      else if c = 27 then do {
        t2 \<leftarrow> (if i < length cs then refreshLine l t1 else Some t1);
        Some (27, inp, l, t2) }
      else if i < length cs then do {
        b \<leftarrow> mem_write (lbuf l) 0 (take (lbuflen l - 1) (cs ! i) @ [0]);
        Some (sint c, inp, l\<lparr>lbuf := b, llen := length (cs ! i), lpos := length (cs ! i)\<rparr>, t1) }
      else Some (sint c, inp, l, t1)) }"

definition completeLine :: "(bytes \<Rightarrow> bytes list) \<Rightarrow> bytes \<Rightarrow> linenoiseState \<Rightarrow> tty \<Rightarrow> (int \<times> bytes \<times> linenoiseState \<times> tty) option" where
  "completeLine cb inp l t = do {
     cur \<leftarrow> c_text (lbuf l);
     (if cb cur = [] then Some (0, inp, l, t) else complete_loop (cb cur) 0 inp l t) }"

section \<open>Reading a line\<close>

type_synonym edit_state = "linenoiseState \<times> history \<times> tty \<times> bytes"

definition drop_last :: "history \<Rightarrow> history option" where
  "drop_last h = (case hents h of None \<Rightarrow> None | Some es \<Rightarrow> if es = [] then None else Some (h\<lparr>hents := Some (butlast es)\<rparr>))"

definition go_on :: "bytes \<Rightarrow> history \<Rightarrow> edit_result \<Rightarrow> (int \<times> edit_state + edit_state) option" where
  "go_on inp h r = map_option (\<lambda>(l, t). Inr (l, h, t, inp)) r"

definition history_key :: "bool \<Rightarrow> bytes \<Rightarrow> linenoiseState \<Rightarrow> history \<Rightarrow> tty \<Rightarrow> (int \<times> edit_state + edit_state) option" where
  "history_key prev inp l h t = map_option (\<lambda>(l', h', t'). Inr (l', h', t', inp)) (linenoiseEditHistoryNext prev l h t)"

text \<open>An escape sequence; its bytes arrive together, as terminals send them.\<close>

fun escape_key :: "bytes \<Rightarrow> linenoiseState \<Rightarrow> history \<Rightarrow> tty \<Rightarrow> (int \<times> edit_state + edit_state) option" where
  "escape_key (a # b # inp) l h t =
     (if a = 91 \<and> b = 68 then go_on inp h (linenoiseEditMoveLeft l t)
      else if a = 91 \<and> b = 67 then go_on inp h (linenoiseEditMoveRight l t)
      else if a = 91 \<and> (b = 65 \<or> b = 66) then history_key (b = 65) inp l h t
      else if a = 91 \<and> 48 < b \<and> b < 55 then
        (case inp of
           c # d # inp' \<Rightarrow>
             if b = 51 \<and> c = 126 then go_on inp' h (linenoiseEditDelete l t) else Some (Inr (l, h, t, inp'))
         | _ \<Rightarrow> None)
      else Some (Inr (l, h, t, inp)))"
| "escape_key _ l h t = None"

text \<open>The switch of \<^verbatim>\<open>linenoiseEdit\<close>: the function returns (\<^term>\<open>Inl\<close>) or reads the next key (\<^term>\<open>Inr\<close>).\<close>

definition edit_key :: "byte \<Rightarrow> bytes \<Rightarrow> linenoiseState \<Rightarrow> history \<Rightarrow> tty \<Rightarrow> (int \<times> edit_state + edit_state) option" where
  "edit_key c inp l h t =
     (if c = 13 then do { h' \<leftarrow> drop_last h; Some (Inl (int (llen l), l, h', t, inp)) }
      else if c = 3 then Some (Inl (-1, l, h, t, inp))
      else if c = 4 then
        (if 0 < llen l then go_on inp h (linenoiseEditDelete l t)
         else do { h' \<leftarrow> drop_last h; Some (Inl (-1, l, h', t, inp)) })
      else if c = 16 then history_key True inp l h t
      else if c = 14 then history_key False inp l h t
      else if c = 27 then escape_key inp l h t
      else do {
        (rc, l', t') \<leftarrow> line_key c l t;
        Some (if rc \<noteq> 0 then Inl (-1, l', h, t', inp) else Inr (l', h, t', inp)) })"

lemma edit_key_input: "edit_key c inp l h t = Some (Inr (l', h', t', inp')) \<Longrightarrow> length inp' \<le> length inp"
  by (cases "(inp, l, h, t)" rule: escape_key.cases)
    (auto simp: edit_key_def go_on_def history_key_def bind_eq_Some_conv split: if_splits list.splits prod.splits)

lemma complete_loop_input: "complete_loop cs i inp l t = Some (c, inp', l', t') \<Longrightarrow> length inp' \<le> length inp"
  by (induction cs i inp l t rule: complete_loop.induct) (fastforce simp: bind_eq_Some_conv split: if_splits)+

lemma completeLine_input: "completeLine cb inp l t = Some (c, inp', l', t') \<Longrightarrow> length inp' \<le> length inp"
  by (auto simp: completeLine_def bind_eq_Some_conv dest: complete_loop_input split: if_splits)

function edit_loop :: "(bytes \<Rightarrow> bytes list) \<Rightarrow> bytes \<Rightarrow> linenoiseState \<Rightarrow> history \<Rightarrow> tty \<Rightarrow> (int \<times> edit_state) option" where
  "edit_loop cb [] l h t = Some (int (llen l), l, h, t, [])"
| "edit_loop cb (c # inp) l h t =
     (case (if c = 9 then completeLine cb inp l t else Some (sint c, inp, l, t)) of
        None \<Rightarrow> None
      | Some (ci, inp1, l1, t1) \<Rightarrow>
          if c = 9 \<and> ci < 0 then Some (int (llen l1), l1, h, t1, inp1)
          else if c = 9 \<and> ci = 0 then edit_loop cb inp1 l1 h t1
          else (case edit_key (word_of_int ci) inp1 l1 h t1 of
             None \<Rightarrow> None
           | Some (Inl r) \<Rightarrow> Some r
           | Some (Inr (l2, h2, t2, inp2)) \<Rightarrow> edit_loop cb inp2 l2 h2 t2))"
  by pat_completeness auto
termination
  by (relation "measure (\<lambda>(cb, inp, l, h, t). length inp)")
    (auto dest!: completeLine_input edit_key_input split: if_splits)

declare edit_loop.simps(2) [simp del]

definition linenoiseEdit ::
    "bool list \<Rightarrow> (bytes \<Rightarrow> bytes list) \<Rightarrow> nat \<Rightarrow> bytes \<Rightarrow> bytes \<Rightarrow> bytes \<Rightarrow> history \<Rightarrow> tty \<Rightarrow> (int \<times> edit_state) option" where
  "linenoiseEdit m cb cols buf prompt inp h t = do {
     b \<leftarrow> set_cell buf 0 0;
     (let l = \<lparr>lbuf = b, lbuflen = length buf, lprompt = prompt, lpos = 0, llen = 0, lcols = cols, lindex = 0\<rparr> in
      case linenoiseHistoryAdd m [] h of (_, h', _) \<Rightarrow>
      case tty_write prompt t of (ok, t') \<Rightarrow>
      if ok then edit_loop cb inp l h' t' else Some (-1, l, h', t', inp)) }"

text \<open>
  \<open>tty\<close> says whether the standard input is a terminal, \<open>raw\<close> whether it could be put in raw mode. The
  result is the count, the buffer, the history, the terminal and the input that is left.
\<close>

definition linenoiseRaw ::
    "bool \<Rightarrow> bool \<Rightarrow> bool list \<Rightarrow> (bytes \<Rightarrow> bytes list) \<Rightarrow> nat \<Rightarrow> bytes \<Rightarrow> bytes \<Rightarrow> bytes \<Rightarrow> history \<Rightarrow> tty \<Rightarrow>
      (int \<times> bytes \<times> history \<times> tty \<times> bytes) option" where
  "linenoiseRaw tty raw m cb cols buf prompt inp h t =
     (if buf = [] then Some (-1, buf, h, t, inp)
      else if \<not> tty then
        (if inp = [] then Some (-1, buf, h, t, inp)
         else (case fgets (length buf) inp of (s, inp') \<Rightarrow> do {
           b \<leftarrow> mem_write buf 0 (s @ [0]);
           (let count = length (cstr b) in
            if 0 < count \<and> b ! (count - 1) = 10 then do {
              b' \<leftarrow> set_cell b (count - 1) 0;
              Some (int count - 1, b', h, t, inp') }
            else Some (int count, b, h, t, inp')) }))
      else if \<not> raw then Some (-1, buf, h, t, inp)
      else do {
        (count, l, h', t', inp') \<leftarrow> linenoiseEdit m cb cols buf prompt inp h t;
        Some (count, lbuf l, h', t'\<lparr>written := written t' @ [10]\<rparr>, inp') })"

text \<open>\<^verbatim>\<open>while (len && (buf[len-1] == '\n' || buf[len-1] == '\r'))\<close>\<close>

definition chomp :: "bytes \<Rightarrow> bytes" where
  "chomp s = rev (dropWhile (\<lambda>c. c = 10 \<or> c = 13) (rev s))"

text \<open>\<open>dumb\<close> is the answer of \<^verbatim>\<open>isUnsupportedTerm\<close>; \<open>buf\<close> are the bytes of the local array.\<close>

definition linenoise ::
    "bool \<Rightarrow> bool \<Rightarrow> bool \<Rightarrow> bool list \<Rightarrow> (bytes \<Rightarrow> bytes list) \<Rightarrow> nat \<Rightarrow> bytes \<Rightarrow> bytes \<Rightarrow> bytes \<Rightarrow> history \<Rightarrow> tty \<Rightarrow>
      (bytes option \<times> history \<times> tty \<times> bytes) option" where
  "linenoise dumb tty raw m cb cols buf prompt inp h t =
     (if dumb then
        (let t' = t\<lparr>written := written t @ prompt\<rparr> in
         if inp = [] then Some (None, h, t', inp)
         else (case fgets LINENOISE_MAX_LINE inp of (s, inp') \<Rightarrow> Some (Some (chomp (cstr s)), h, t', inp')))
      else do {
        (count, b, h', t', inp') \<leftarrow> linenoiseRaw tty raw m cb cols buf prompt inp h t;
        (if count = -1 then Some (None, h', t', inp')
         else do { s \<leftarrow> c_text b; Some (Some s, h', t', inp') }) })"

section \<open>The line as two halves\<close>

text \<open>The buffer holds \<open>xs\<close> before the cursor, \<open>ys\<close> behind it and a NUL, in a terminal wider than the prompt.\<close>

definition ed_rep :: "linenoiseState \<Rightarrow> bytes \<Rightarrow> bytes \<Rightarrow> bool" where
  "ed_rep l xs ys \<longleftrightarrow> (\<exists>r. lbuf l = xs @ ys @ 0 # r) \<and> lpos l = length xs \<and> llen l = length xs + length ys \<and>
     lbuflen l = length (lbuf l) \<and> length (lbuf l) < 2 ^ 32 \<and> length (lprompt l) < lcols l \<and> lcols l < 2 ^ 32"

lemma unat_small: "n < 2 ^ 34 \<Longrightarrow> unat (word_of_nat n :: size_t) = n"
  by (simp add: unat_of_nat take_bit_nat_eq_self)

lemma scroll_left_ok:
  assumes "plen < cols" "cols < 2 ^ 32"
  shows "pos \<le> len \<Longrightarrow> len < 2 ^ 32 \<Longrightarrow>
     \<exists>k \<le> pos. scroll_left (word_of_nat plen) (word_of_nat cols) b (word_of_nat len) (word_of_nat pos) =
       (b + k, word_of_nat (len - k), word_of_nat (pos - k))"
proof (induction pos arbitrary: b len)
  case 0
  have "\<not> (word_of_nat cols :: size_t) \<le> word_of_nat plen"
    using assms by (simp add: word_le_nat_alt unat_small)
  then show ?case by (subst scroll_left.simps) simp
next
  case (Suc pos)
  show ?case
  proof (cases "(word_of_nat cols :: size_t) \<noteq> 0 \<and> (word_of_nat cols :: size_t) \<le> word_of_nat plen + word_of_nat (Suc pos)")
    case False
    then show ?thesis by (subst scroll_left.simps) auto
  next
    case True
    obtain len' where len: "len = Suc len'" using Suc.prems by (cases len) auto
    have "scroll_left (word_of_nat plen) (word_of_nat cols) b (word_of_nat len) (word_of_nat (Suc pos)) =
      scroll_left (word_of_nat plen) (word_of_nat cols) (b + 1) (word_of_nat len') (word_of_nat pos)"
      using True len by (subst scroll_left.simps) simp
    moreover obtain k where "k \<le> pos" "scroll_left (word_of_nat plen) (word_of_nat cols) (b + 1) (word_of_nat len') (word_of_nat pos) =
       (b + 1 + k, word_of_nat (len' - k), word_of_nat (pos - k))"
      using Suc.IH [of len' "b + 1"] Suc.prems len by auto
    ultimately show ?thesis using len by (intro exI [of _ "Suc k"]) simp
  qed
qed

lemma cut_right_ok: "len < 2 ^ 32 \<Longrightarrow> plen < cols \<Longrightarrow> cols < 2 ^ 32 \<Longrightarrow>
  unat (cut_right (word_of_nat plen) (word_of_nat cols) (word_of_nat len)) \<le> len"
proof (induction len)
  case 0
  have "\<not> (word_of_nat cols :: size_t) < word_of_nat plen"
    using 0 by (simp add: word_less_nat_alt unat_small)
  then show ?case by (subst cut_right.simps) simp
next
  case (Suc len)
  show ?case
    using Suc.IH Suc.prems unat_small [of "Suc len"] by (subst cut_right.simps) (auto simp: less_imp_le le_SucI)
qed

lemma tty_write_ok: "outcomes t = [] \<Longrightarrow> tty_write bs t = (True, t\<lparr>written := written t @ bs\<rparr>)"
  by (simp add: tty_write_def)

lemma tty_writes_ok: "outcomes t = [] \<Longrightarrow> outcomes (tty_writes bs t) = []"
  by (induction bs arbitrary: t) (auto simp: tty_write_ok)

lemma shown_ok:
  assumes rep: "ed_rep l xs ys" and t: "outcomes t = []"
  shows "\<exists>t'. shown l t = Some (l, t') \<and> outcomes t' = []"
proof -
  obtain r where r: "lbuf l = xs @ ys @ 0 # r" using rep by (auto simp: ed_rep_def)
  note b = rep [unfolded ed_rep_def]
  have "unat (word_of_nat (lcols l) :: size_t) = lcols l" using b by (intro unat_small) simp
  then have c: "(word_of_nat (lcols l) :: size_t) \<noteq> 0" using b by force
  have n: "llen l < 2 ^ 32" "lpos l \<le> llen l" using b r by auto
  obtain k where k: "k \<le> lpos l" "scroll_left (word_of_nat (length (lprompt l))) (word_of_nat (lcols l)) 0 (word_of_nat (llen l)) (word_of_nat (lpos l)) =
       (0 + k, word_of_nat (llen l - k), word_of_nat (lpos l - k))"
    using scroll_left_ok [of "length (lprompt l)" "lcols l" "lpos l" "llen l" 0] b n by auto
  have "unat (cut_right (word_of_nat (length (lprompt l))) (word_of_nat (lcols l)) (word_of_nat (llen l - k))) \<le> llen l - k"
    using b n by (intro cut_right_ok) auto
  then have "k + unat (cut_right (word_of_nat (length (lprompt l))) (word_of_nat (lcols l)) (word_of_nat (llen l - k))) \<le> length (lbuf l)"
    using k(1) n r b by simp
  then show ?thesis using k c t by (simp add: shown_def refreshLine_def refreshSingleLine_def Let_def mem_read_def tty_writes_ok del: tty_writes.simps)
qed

text \<open>A line in the same buffer and terminal.\<close>

definition same_place :: "linenoiseState \<Rightarrow> linenoiseState \<Rightarrow> bool" where
  "same_place l l' \<longleftrightarrow> length (lbuf l') = length (lbuf l) \<and> lbuflen l' = lbuflen l \<and> lprompt l' = lprompt l \<and> lcols l' = lcols l \<and> lindex l' = lindex l"

text \<open>What an editing function does to the halves.\<close>

definition edits_to :: "linenoiseState \<Rightarrow> bytes \<Rightarrow> bytes \<Rightarrow> edit_result \<Rightarrow> bool" where
  "edits_to l xs ys r \<longleftrightarrow> (\<exists>l' t'. r = Some (l', t') \<and> ed_rep l' xs ys \<and> same_place l l' \<and> outcomes t' = [])"

lemma edits_to_shown:
  assumes rep: "ed_rep l xs0 ys0" and l': "lbuf l' = xs @ ys @ 0 # r" "lpos l' = length xs" "llen l' = length xs + length ys"
    and s: "same_place l l'" and t: "outcomes t = []"
  shows "edits_to l xs ys (shown l' t)"
proof -
  have "ed_rep l' xs ys" using rep l' s by (auto simp: ed_rep_def same_place_def)
  then show ?thesis using shown_ok [of l' xs ys t] s t by (auto simp: edits_to_def)
qed

lemma edits_to_same: "ed_rep l xs ys \<Longrightarrow> outcomes t = [] \<Longrightarrow> edits_to l xs ys (Some (l, t))"
  by (simp add: edits_to_def same_place_def)

lemma move_left_ok:
  assumes rep: "ed_rep l xs ys" and t: "outcomes t = []"
  shows "edits_to l (butlast xs) (if xs = [] then ys else last xs # ys) (linenoiseEditMoveLeft l t)"
proof (cases xs rule: rev_cases)
  case Nil
  then show ?thesis using edits_to_same [OF rep t] rep by (simp add: linenoiseEditMoveLeft_def ed_rep_def)
next
  case (snoc zs z)
  obtain r where "lbuf l = xs @ ys @ 0 # r" using rep by (auto simp: ed_rep_def)
  then have "edits_to l zs (z # ys) (shown (l\<lparr>lpos := lpos l - 1\<rparr>) t)"
    using rep t snoc by (intro edits_to_shown [OF rep, of _ _ _ r]) (auto simp: ed_rep_def same_place_def)
  then show ?thesis using rep snoc by (simp add: linenoiseEditMoveLeft_def ed_rep_def)
qed

lemma move_right_ok:
  assumes rep: "ed_rep l xs ys" and t: "outcomes t = []"
  shows "edits_to l (if ys = [] then xs else xs @ [hd ys]) (tl ys) (linenoiseEditMoveRight l t)"
proof (cases ys)
  case Nil
  then show ?thesis using edits_to_same [OF rep t] rep by (simp add: linenoiseEditMoveRight_def ed_rep_def)
next
  case (Cons z zs)
  obtain r where "lbuf l = xs @ ys @ 0 # r" using rep by (auto simp: ed_rep_def)
  then have "edits_to l (xs @ [z]) zs (shown (l\<lparr>lpos := lpos l + 1\<rparr>) t)"
    using rep t Cons by (intro edits_to_shown [OF rep, of _ _ _ r]) (auto simp: ed_rep_def same_place_def)
  then show ?thesis using rep Cons by (simp add: linenoiseEditMoveRight_def ed_rep_def)
qed

lemma delete_ok:
  assumes rep: "ed_rep l xs ys" and t: "outcomes t = []"
  shows "edits_to l xs (tl ys) (linenoiseEditDelete l t)"
proof (cases ys)
  case Nil
  then show ?thesis using edits_to_same [OF rep t] rep by (simp add: linenoiseEditDelete_def ed_rep_def)
next
  case (Cons z zs)
  obtain r where r: "lbuf l = xs @ ys @ 0 # r" using rep by (auto simp: ed_rep_def)
  let ?l = "l\<lparr>lbuf := xs @ zs @ 0 # 0 # r, llen := llen l - 1\<rparr>"
  have "linenoiseEditDelete l t = shown ?l t"
    using rep r Cons
    by (cases zs rule: rev_cases) (simp_all add: linenoiseEditDelete_def ed_rep_def mem_read_def mem_write_def set_cell_def list_update_append)
  moreover have "edits_to l xs zs (shown ?l t)"
    using rep t Cons r by (intro edits_to_shown [OF rep, of _ _ _ "0 # r"]) (auto simp: ed_rep_def same_place_def)
  ultimately show ?thesis using Cons by simp
qed

lemma backspace_ok:
  assumes rep: "ed_rep l xs ys" and t: "outcomes t = []"
  shows "edits_to l (butlast xs) ys (linenoiseEditBackspace l t)"
proof (cases xs rule: rev_cases)
  case Nil
  then show ?thesis using edits_to_same [OF rep t] rep by (simp add: linenoiseEditBackspace_def ed_rep_def)
next
  case (snoc zs z)
  obtain r where r: "lbuf l = xs @ ys @ 0 # r" using rep by (auto simp: ed_rep_def)
  let ?l = "l\<lparr>lbuf := zs @ ys @ 0 # 0 # r, lpos := lpos l - 1, llen := llen l - 1\<rparr>"
  have "linenoiseEditBackspace l t = shown ?l t"
    using rep r snoc by (cases ys rule: rev_cases) (simp_all add: linenoiseEditBackspace_def ed_rep_def mem_read_def mem_write_def set_cell_def list_update_append)
  moreover have "edits_to l zs ys (shown ?l t)"
    using rep t snoc r by (intro edits_to_shown [OF rep, of _ _ _ "0 # r"]) (auto simp: ed_rep_def same_place_def)
  ultimately show ?thesis using snoc by simp
qed

lemma back_while_ok:
  "p \<le> length b \<Longrightarrow> back_while P b p = Some (length (dropWhile P (rev (take p b))))"
  by (induction p) (auto simp: get_cell_def take_Suc_conv_app_nth)

definition word_start :: "bytes \<Rightarrow> bytes" where
  "word_start xs = rev (dropWhile (\<lambda>c. c \<noteq> 32) (dropWhile (\<lambda>c. c = 32) (rev xs)))"

lemma take_dropWhile_rev: "take (length (dropWhile P (rev xs))) xs = rev (dropWhile P (rev xs))"
  by (metis dropWhile_eq_drop length_drop length_rev rev_rev_ident take_rev rev_drop)

lemma word_start_prefix: "\<exists>zs. xs = word_start xs @ zs"
proof -
  obtain us where "rev xs = us @ dropWhile (\<lambda>c. c \<noteq> 32) (dropWhile (\<lambda>c. c = 32) (rev xs))"
    by (metis takeWhile_dropWhile_id append_assoc)
  then have "xs = rev (dropWhile (\<lambda>c. c \<noteq> 32) (dropWhile (\<lambda>c. c = 32) (rev xs))) @ rev us" by (metis rev_append rev_rev_ident)
  then show ?thesis unfolding word_start_def by blast
qed

lemma prev_word_ok:
  assumes rep: "ed_rep l xs ys" and t: "outcomes t = []"
  shows "edits_to l (word_start xs) ys (linenoiseEditDeletePrevWord l t)"
proof -
  obtain r where r: "lbuf l = xs @ ys @ 0 # r" using rep by (auto simp: ed_rep_def)
  let ?d = "dropWhile (\<lambda>c. c = 32) (rev xs)"
  have p1: "back_while (\<lambda>c. c = 32) (lbuf l) (lpos l) = Some (length ?d)"
    using back_while_ok [of "lpos l" "lbuf l"] r rep by (simp add: ed_rep_def)
  have d: "length ?d \<le> length xs" using length_dropWhile_le [of _ "rev xs"] by simp
  have "rev (take (length ?d) (lbuf l)) = ?d" using take_dropWhile_rev [of "\<lambda>c. c = 32" xs] r d by simp
  then have p2: "back_while (\<lambda>c. c \<noteq> 32) (lbuf l) (length ?d) = Some (length (word_start xs))"
    using back_while_ok [of "length ?d" "lbuf l" "\<lambda>c. c \<noteq> 32"] r d by (simp add: word_start_def)
  obtain zs where z: "xs = word_start xs @ zs" using word_start_prefix by blast
  let ?w = "word_start xs"
  have lx: "length xs = length ?w + length zs" using arg_cong [OF z, of length] by simp
  have "mem_write (lbuf l) (length ?w) (ys @ [0]) = Some (?w @ ys @ 0 # drop (length ?w + (length ys + 1)) (lbuf l))"
    using r lx arg_cong [OF z, of "take (length ?w)"] by (simp add: mem_write_def)
  moreover have "mem_read (lbuf l) (lpos l) (llen l - lpos l + 1) = Some (ys @ [0])"
    using r rep by (simp add: mem_read_def ed_rep_def)
  ultimately have "linenoiseEditDeletePrevWord l t =
     shown (l\<lparr>lbuf := ?w @ ys @ 0 # drop (length ?w + (length ys + 1)) (lbuf l), lpos := length ?w, llen := llen l - (lpos l - length ?w)\<rparr>) t"
    using p1 p2 by (simp add: linenoiseEditDeletePrevWord_def)
  moreover have "edits_to l ?w ys \<dots>"
    using rep t r lx by (intro edits_to_shown [OF rep]) (auto simp: ed_rep_def same_place_def)
  ultimately show ?thesis by simp
qed

lemma transpose_ok:
  assumes rep: "ed_rep l (xs @ [a]) (b # ys)" and t: "outcomes t = []"
  shows "edits_to l (if ys = [] then xs @ [b] else xs @ [b, a]) (if ys = [] then [a] else ys) (edit_transpose l t)"
proof -
  obtain r where r: "lbuf l = xs @ a # b # ys @ 0 # r" using rep by (auto simp: ed_rep_def)
  let ?l = "l\<lparr>lbuf := xs @ b # a # ys @ 0 # r, lpos := (if ys = [] then lpos l else lpos l + 1)\<rparr>"
  have "edit_transpose l t = shown ?l t"
    using rep r by (simp add: edit_transpose_def ed_rep_def get_cell_def set_cell_def nth_append list_update_append)
  moreover have "edits_to l (if ys = [] then xs @ [b] else xs @ [b, a]) (if ys = [] then [a] else ys) (shown ?l t)"
    using rep t r by (intro edits_to_shown [OF rep, of _ _ _ r]) (auto simp: ed_rep_def same_place_def)
  ultimately show ?thesis by simp
qed

lemma transpose_stay:
  assumes rep: "ed_rep l xs ys" and t: "outcomes t = []" and "xs = [] \<or> ys = []"
  shows "edits_to l xs ys (edit_transpose l t)"
  using assms edits_to_same [OF rep t] by (auto simp: edit_transpose_def ed_rep_def)

lemma erase_ok:
  assumes rep: "ed_rep l xs ys" and t: "outcomes t = []"
  shows "edits_to l [] [] (edit_erase l t)"
proof -
  obtain c r where r: "lbuf l = c # r" using rep by (cases "lbuf l") (auto simp: ed_rep_def)
  then have "edit_erase l t = shown (l\<lparr>lbuf := 0 # r, lpos := 0, llen := 0\<rparr>) t" by (simp add: edit_erase_def set_cell_def)
  moreover have "edits_to l [] [] \<dots>"
    using rep t r by (intro edits_to_shown [OF rep, of _ _ _ r]) (auto simp: ed_rep_def same_place_def)
  ultimately show ?thesis by simp
qed

lemma kill_ok:
  assumes rep: "ed_rep l xs ys" and t: "outcomes t = []"
  shows "edits_to l xs [] (edit_kill l t)"
proof -
  obtain r where r: "lbuf l = xs @ ys @ 0 # r" using rep by (auto simp: ed_rep_def)
  then obtain c r' where r': "lbuf l = xs @ c # r'" by (cases ys) auto
  then have "edit_kill l t = shown (l\<lparr>lbuf := xs @ 0 # r', llen := lpos l\<rparr>) t"
    using rep by (simp add: edit_kill_def set_cell_def ed_rep_def)
  moreover have "edits_to l xs [] \<dots>"
    using rep t r' by (intro edits_to_shown [OF rep, of _ _ _ r']) (auto simp: ed_rep_def same_place_def)
  ultimately show ?thesis by simp
qed

lemma goto_ok:
  assumes rep: "ed_rep l xs ys" and t: "outcomes t = []" and e: "xs @ ys = us @ vs"
  shows "edits_to l us vs (shown (l\<lparr>lpos := length us\<rparr>) t)"
proof -
  obtain r where r: "lbuf l = xs @ ys @ 0 # r" using rep by (auto simp: ed_rep_def)
  have "length xs + length ys = length us + length vs" using arg_cong [OF e, of length] by simp
  moreover have "lbuf l = us @ vs @ 0 # r" using r e by (metis append_assoc)
  ultimately show ?thesis using rep t by (intro edits_to_shown [OF rep, of _ _ _ r]) (auto simp: ed_rep_def same_place_def)
qed

text \<open>Inserting writes the NUL one cell behind the buffer when the line has filled it.\<close>

lemma insert_full:
  assumes rep: "ed_rep l xs ys" and "Suc (length xs + length ys) = length (lbuf l)"
  shows "linenoiseEditInsert c l t = None"
  using assms by (cases ys) (auto simp: linenoiseEditInsert_def ed_rep_def set_cell_def mem_read_def mem_write_def)

lemma insert_ok:
  assumes rep: "ed_rep l xs ys" and t: "outcomes t = []" and n: "Suc (length xs + length ys) < length (lbuf l)"
  shows "\<exists>l' t'. linenoiseEditInsert c l t = Some (0, l', t') \<and> ed_rep l' (xs @ [c]) ys \<and> same_place l l' \<and> outcomes t' = []"
proof -
  obtain r where r: "lbuf l = xs @ ys @ 0 # r" using rep by (auto simp: ed_rep_def)
  obtain d r' where d: "r = d # r'" using n r by (cases r) auto
  let ?l = "l\<lparr>lbuf := xs @ c # ys @ 0 # r', lpos := lpos l + 1, llen := llen l + 1\<rparr>"
  have rep': "ed_rep ?l (xs @ [c]) ys" using rep r d by (auto simp: ed_rep_def)
  have s: "same_place l ?l" using r d by (simp add: same_place_def)
  obtain t' where t': "refreshLine ?l t = Some t'" "outcomes t' = []"
    using shown_ok [OF rep' t] by (auto simp: shown_def bind_eq_Some_conv)
  show ?thesis
  proof (cases ys)
    case Nil
    then have "linenoiseEditInsert c l t =
      (if length (lprompt l) + llen ?l < lcols l then Some (0, ?l, t\<lparr>written := written t @ [c]\<rparr>) else Some (0, ?l, t'))"
      using rep r d t t'(1) by (simp add: linenoiseEditInsert_def ed_rep_def set_cell_def list_update_append tty_write_ok Let_def)
    then show ?thesis using rep' s t t'(2) Nil by auto
  next
    case (Cons z zs)
    have "mem_read (lbuf l) (lpos l) (llen l - lpos l) = Some ys" using rep r by (simp add: mem_read_def ed_rep_def)
    moreover have "mem_write (lbuf l) (lpos l + 1) ys = Some (xs @ z # ys @ d # r')"
      using rep r d Cons by (simp add: mem_write_def ed_rep_def)
    ultimately have "linenoiseEditInsert c l t = Some (0, ?l, t')"
      using rep r d t'(1) Cons by (simp add: linenoiseEditInsert_def ed_rep_def set_cell_def list_update_append)
    then show ?thesis using rep' s t'(2) by auto
  qed
qed

subsection \<open>Keys on two halves\<close>

definition inserts :: "byte \<Rightarrow> bool" where
  "inserts c \<longleftrightarrow> c \<notin> {127, 8, 20, 2, 6, 21, 11, 1, 5, 12, 23}"

text \<open>What a key means for a line and its cursor.\<close>

fun zip_key :: "byte \<Rightarrow> bytes \<times> bytes \<Rightarrow> bytes \<times> bytes" where
  "zip_key c (xs, ys) =
     (if c = 127 \<or> c = 8 then (butlast xs, ys)
      else if c = 20 then
        (if xs = [] \<or> ys = [] then (xs, ys)
         else if tl ys = [] then (butlast xs @ [hd ys], [last xs])
         else (butlast xs @ [hd ys, last xs], tl ys))
      else if c = 2 then (butlast xs, if xs = [] then ys else last xs # ys)
      else if c = 6 then (if ys = [] then xs else xs @ [hd ys], tl ys)
      else if c = 21 then ([], [])
      else if c = 11 then (xs, [])
      else if c = 1 then ([], xs @ ys)
      else if c = 5 then (xs @ ys, [])
      else if c = 12 then (xs, ys)
      else if c = 23 then (word_start xs, ys)
      else (xs @ [c], ys))"

declare zip_key.simps [simp del]

lemma quiet_edits:
  assumes "edits_to l (fst z) (snd z) r"
  shows "\<exists>l' t'. quiet r = Some (0, l', t') \<and> ed_rep l' (fst z) (snd z) \<and> same_place l l' \<and> outcomes t' = []"
  using assms by (auto simp: edits_to_def quiet_def)

lemma line_key_quiet:
  assumes rep: "ed_rep l xs ys" and t: "outcomes t = []" and c: "\<not> inserts c"
  shows "\<exists>r. line_key c l t = quiet r \<and> edits_to l (fst (zip_key c (xs, ys))) (snd (zip_key c (xs, ys))) r"
proof -
  have p: "lpos l = length xs" "llen l = length xs + length ys" using rep by (auto simp: ed_rep_def)
  have t12: "outcomes (snd (tty_write bs t)) = []" for bs using t by (simp add: tty_write_ok)
  consider "c = 127 \<or> c = 8" | "c = 20" | "c = 2" | "c = 6" | "c = 21" | "c = 11" | "c = 1" | "c = 5" | "c = 12" | "c = 23"
    using c by (auto simp: inserts_def)
  then show ?thesis
  proof cases
    case 1
    then show ?thesis using backspace_ok [OF rep t] by (auto simp: line_key_def zip_key.simps)
  next
    case 2
    show ?thesis
    proof (cases "xs = [] \<or> ys = []")
      case True
      then show ?thesis using transpose_stay [OF rep t] 2 by (auto simp: line_key_def zip_key.simps)
    next
      case False
      then obtain us a b vs where e: "xs = us @ [a]" "ys = b # vs" by (metis append_butlast_last_id list.exhaust)
      show ?thesis using transpose_ok [OF rep [unfolded e] t] 2 e by (auto simp: line_key_def zip_key.simps split: if_splits)
    qed
  next
    case 3
    then show ?thesis using move_left_ok [OF rep t] by (auto simp: line_key_def zip_key.simps)
  next
    case 4
    then show ?thesis using move_right_ok [OF rep t] by (auto simp: line_key_def zip_key.simps)
  next
    case 5
    then show ?thesis using erase_ok [OF rep t] by (auto simp: line_key_def zip_key.simps)
  next
    case 6
    then show ?thesis using kill_ok [OF rep t] by (auto simp: line_key_def zip_key.simps)
  next
    case 7
    then show ?thesis using goto_ok [OF rep t, of "[]" "xs @ ys"] by (auto simp: line_key_def zip_key.simps)
  next
    case 8
    then show ?thesis using goto_ok [OF rep t, of "xs @ ys" "[]"] p by (auto simp: line_key_def zip_key.simps)
  next
    case 9
    have "l\<lparr>lpos := length xs\<rparr> = l" unfolding p(1) [symmetric] by simp
    then show ?thesis using goto_ok [OF rep t12, of xs ys] 9 by (auto simp: line_key_def zip_key.simps)
  next
    case 10
    then show ?thesis using prev_word_ok [OF rep t] by (auto simp: line_key_def zip_key.simps)
  qed
qed

lemma zip_key_insert: "inserts c \<Longrightarrow> zip_key c (xs, ys) = (xs @ [c], ys)" and
  line_key_insert: "inserts c \<Longrightarrow> line_key c l t = linenoiseEditInsert c l t"
  by (auto simp: inserts_def zip_key.simps line_key_def)

definition zip_len :: "bytes \<times> bytes \<Rightarrow> nat" where
  "zip_len z = length (fst z) + length (snd z)"

lemma zip_key_len: "\<not> inserts c \<Longrightarrow> zip_len (zip_key c (xs, ys)) \<le> zip_len (xs, ys)"
proof -
  obtain zs where z: "xs = word_start xs @ zs" using word_start_prefix by blast
  have "length (word_start xs) \<le> length xs" using arg_cong [OF z, of length] by simp
  then show "\<not> inserts c \<Longrightarrow> ?thesis"
    by (auto simp: inserts_def zip_key.simps zip_len_def neq_Nil_conv)
qed

text \<open>A key of the line: it does as on the halves, or the line has no room left and the write is out of bounds.\<close>

lemma line_key_ok:
  assumes rep: "ed_rep l (fst z) (snd z)" and t: "outcomes t = []"
  shows "if zip_len (zip_key c z) < length (lbuf l)
    then \<exists>l' t'. line_key c l t = Some (0, l', t') \<and> ed_rep l' (fst (zip_key c z)) (snd (zip_key c z)) \<and> same_place l l' \<and> outcomes t' = []
    else line_key c l t = None"
proof -
  obtain xs ys where z: "z = (xs, ys)" by (cases z)
  have n: "length xs + length ys < length (lbuf l)" using rep z by (auto simp: ed_rep_def)
  show ?thesis
  proof (cases "inserts c")
    case True
    then show ?thesis
      using insert_full [of l xs ys c t] insert_ok [of l xs ys t c] rep t n z
      by (auto simp: zip_key_insert line_key_insert zip_len_def)
  next
    case False
    then have "zip_len (zip_key c z) < length (lbuf l)" using zip_key_len [OF False, of xs ys] n z by (simp add: zip_len_def)
    then show ?thesis using line_key_quiet [of l xs ys t c] False rep t z quiet_edits by fastforce
  qed
qed

subsection \<open>A line of keys\<close>

definition line_only :: "byte \<Rightarrow> bool" where
  "line_only c \<longleftrightarrow> c \<notin> {9, 13, 3, 4, 16, 14, 27}"

fun fits :: "nat \<Rightarrow> bytes \<times> bytes \<Rightarrow> bytes \<Rightarrow> bool" where
  "fits n z [] \<longleftrightarrow> True"
| "fits n z (c # cs) \<longleftrightarrow> zip_len (zip_key c z) < n \<and> fits n (zip_key c z) cs"

lemma edit_loop_key:
  assumes "line_only c"
  shows "edit_loop cb (c # inp) l h t =
    (case line_key c l t of None \<Rightarrow> None
     | Some (rc, l', t') \<Rightarrow> if rc \<noteq> 0 then Some (-1, l', h, t', inp) else edit_loop cb inp l' h t')"
  using assms by (auto simp: edit_loop.simps(2) line_only_def edit_key_def split: option.splits)

lemma same_place_trans: "same_place l l' \<Longrightarrow> same_place l' l'' \<Longrightarrow> same_place l l''"
  by (simp add: same_place_def)

lemma edit_loop_ok:
  assumes h: "drop_last h = Some h'"
  shows "ed_rep l (fst z) (snd z) \<Longrightarrow> outcomes t = [] \<Longrightarrow> \<forall>c \<in> set ks. line_only c \<Longrightarrow>
    if fits (length (lbuf l)) z ks
    then \<exists>l' t'. edit_loop cb (ks @ 13 # inp) l h t = Some (int (zip_len (fold zip_key ks z)), l', h', t', inp) \<and>
      ed_rep l' (fst (fold zip_key ks z)) (snd (fold zip_key ks z))
    else edit_loop cb (ks @ 13 # inp) l h t = None"
proof (induction ks arbitrary: l z t)
  case Nil
  then show ?case using h by (auto simp: edit_loop.simps(2) edit_key_def ed_rep_def zip_len_def)
next
  case (Cons c ks)
  note k = line_key_ok [OF Cons.prems(1,2), of c]
  show ?case
  proof (cases "zip_len (zip_key c z) < length (lbuf l)")
    case False
    then show ?thesis using k Cons.prems(3) by (simp add: edit_loop_key)
  next
    case True
    then obtain l1 t1 where l1: "line_key c l t = Some (0, l1, t1)" "ed_rep l1 (fst (zip_key c z)) (snd (zip_key c z))"
      "same_place l l1" "outcomes t1 = []"
      using k by auto
    then show ?thesis
      using Cons.IH [OF l1(2,4)] Cons.prems(3) True by (auto simp: edit_loop_key same_place_def split: if_splits)
  qed
qed

lemma cstr_nul: "cstr (u @ 0 # r) = cstr u"
  by (induction u) (auto simp: cstr_def)

text \<open>The entries of a history and what remains of them while a line is read.\<close>

definition entries :: "history \<Rightarrow> bytes list" where
  "entries h = (case hents h of None \<Rightarrow> [] | Some es \<Rightarrow> es)"

definition make_room :: "nat \<Rightarrow> bytes list \<Rightarrow> bytes list" where
  "make_room n es = (if length es = n then tl es else es)"

lemma history_add_ok:
  "0 < hmax h \<Longrightarrow> linenoiseHistoryAdd [] line h = (1, h\<lparr>hents := Some (make_room (hmax h) (entries h) @ [line])\<rparr>, [])"
  by (simp add: linenoiseHistoryAdd_def entries_def make_room_def Let_def)

text \<open>
  C15: The line editor is right up to the size of its buffer, and no further. Let a line be typed on a
  terminal wider than the prompt, with any keys that edit the line (characters, backspace, ctrl-a, -b,
  -e, -f, -h, -k, -l, -t, -u, -w), and enter. If the line has less than 4096 characters at all times,
  \<^verbatim>\<open>linenoise\<close> returns what the keys make of two halves of a text around a cursor, up to its first NUL,
  and the history is as before (its oldest entry is lost if it was full). If the line ever reaches 4096
  characters, \<^verbatim>\<open>linenoiseEditInsert\<close> writes the final NUL behind the buffer.
\<close>

theorem editor_refines_zipper:
  assumes "length buf = LINENOISE_MAX_LINE" and "length prompt < cols" and "cols < 2 ^ 32" and "outcomes t = []"
    and "0 < hmax h" and "\<forall>c \<in> set ks. line_only c"
  shows "if fits LINENOISE_MAX_LINE ([], []) ks
    then \<exists>t'. linenoise False True True [] cb cols buf prompt (ks @ 13 # inp) h t =
      Some (Some (cstr (case fold zip_key ks ([], []) of (xs, ys) \<Rightarrow> xs @ ys)),
        h\<lparr>hents := Some (make_room (hmax h) (entries h))\<rparr>, t', inp)
    else linenoise False True True [] cb cols buf prompt (ks @ 13 # inp) h t = None"
proof -
  obtain b bs where b: "buf = b # bs" using assms(1) by (cases buf) (auto simp: LINENOISE_MAX_LINE_def)
  let ?l = "\<lparr>lbuf = 0 # bs, lbuflen = length buf, lprompt = prompt, lpos = 0, llen = 0, lcols = cols, lindex = 0\<rparr>"
  let ?h = "h\<lparr>hents := Some (make_room (hmax h) (entries h) @ [[]])\<rparr>" and ?t = "t\<lparr>written := written t @ prompt\<rparr>"
  let ?z = "fold zip_key ks ([], [])"
  have e: "linenoiseEdit [] cb cols buf prompt (ks @ 13 # inp) h t = edit_loop cb (ks @ 13 # inp) ?l ?h ?t"
    using b assms(4,5) by (simp add: linenoiseEdit_def set_cell_def history_add_ok tty_write_ok)
  have rep: "ed_rep ?l (fst ([], [])) (snd ([], []))" using assms(1-3) b by (auto simp: ed_rep_def LINENOISE_MAX_LINE_def)
  have "drop_last ?h = Some (h\<lparr>hents := Some (make_room (hmax h) (entries h))\<rparr>)" by (simp add: drop_last_def)
  note k = edit_loop_ok [OF this rep _ assms(6), of ?t cb inp]
  show ?thesis
  proof (cases "fits LINENOISE_MAX_LINE ([], []) ks")
    case True
    then obtain l' t' where l': "edit_loop cb (ks @ 13 # inp) ?l ?h ?t =
        Some (int (zip_len ?z), l', h\<lparr>hents := Some (make_room (hmax h) (entries h))\<rparr>, t', inp)" "ed_rep l' (fst ?z) (snd ?z)"
      using k assms(1,4) b by auto
    then obtain r where "lbuf l' = fst ?z @ snd ?z @ 0 # r" by (auto simp: ed_rep_def)
    then have "c_text (lbuf l') = Some (cstr (fst ?z @ snd ?z))"
      using cstr_nul [of "fst ?z @ snd ?z" r] by (simp add: c_text_def)
    then show ?thesis using True l'(1) b e by (simp add: linenoise_def linenoiseRaw_def case_prod_beta)
  next
    case False
    then show ?thesis using k assms(1,4) b e by (simp add: linenoise_def linenoiseRaw_def)
  qed
qed

text \<open>Typing \<open>ac\<close>, ctrl-b, \<open>b\<close> and enter.\<close>

theorem editor_refines_zipper_witness:
  "\<exists>t'. linenoise False True True [] (\<lambda>_. []) 80 (replicate 4096 7) [62] [97, 99, 2, 98, 13] \<lparr>hmax = 3, hents = None\<rparr>
      \<lparr>written = [], outcomes = []\<rparr> =
    Some (Some [97, 98, 99], \<lparr>hmax = 3, hents = Some []\<rparr>, t', [])"
  using editor_refines_zipper [of "replicate 4096 7" "[62]" 80 "\<lparr>written = [], outcomes = []\<rparr>" "\<lparr>hmax = 3, hents = None\<rparr>" "[97, 99, 2, 98]"
      "\<lambda>_. []" "[]"]
  by (simp add: LINENOISE_MAX_LINE_def line_only_def zip_key.simps zip_len_def make_room_def entries_def cstr_def)

section \<open>The history file\<close>

definition last_entries :: "nat \<Rightarrow> bytes list \<Rightarrow> bytes list" where
  "last_entries n es = drop (length es - n) es"

lemma make_room_last: "length es \<le> n \<Longrightarrow> 0 < n \<Longrightarrow> make_room n es @ [e] = last_entries n (es @ [e])"
  by (cases "length es = n") (auto simp: make_room_def last_entries_def drop_Suc Suc_diff_le)

lemma last_entries_twice: "last_entries n (last_entries n es @ fs) = last_entries n (es @ fs)"
proof (cases "length es \<le> n")
  case False
  then have "length es + length fs - (length es - n + n) + (length es - n) = length es + length fs - n" by simp
  then show ?thesis by (simp add: last_entries_def)
qed (simp add: last_entries_def)

text \<open>An entry that stands on one line of a file.\<close>

definition plain_entry :: "bytes \<Rightarrow> bool" where
  "plain_entry e \<longleftrightarrow> set e \<inter> {0, 10, 13} = {} \<and> length e + 1 < LINENOISE_MAX_LINE"

lemma fgets_entry: "plain_entry e \<Longrightarrow> fgets LINENOISE_MAX_LINE (e @ 10 # rest) = (e @ [10], rest)"
proof -
  assume p: "plain_entry e"
  then have "takeWhile (\<lambda>c. c \<noteq> 10) (e @ 10 # rest) = e" by (auto simp: plain_entry_def takeWhile_append)
  moreover have "min (LINENOISE_MAX_LINE - 1) (Suc (length e)) = Suc (length e)" using p by (auto simp: plain_entry_def min_def)
  ultimately show ?thesis by (simp add: fgets_def Let_def)
qed

lemma cut_entry: "plain_entry e \<Longrightarrow> cut_line (cstr (e @ [10])) = e"
proof -
  assume p: "plain_entry e"
  then have "cstr (e @ [10]) = e @ [10]" by (intro cstr_id) (auto simp: plain_entry_def)
  then show ?thesis using p by (auto simp: cut_line_def plain_entry_def takeWhile_append)
qed

lemma load_loop_ok:
  "\<forall>e \<in> set es. plain_entry e \<Longrightarrow> 0 < hmax h \<Longrightarrow> length (entries h) \<le> hmax h \<Longrightarrow>
     load_loop [] (concat (map (\<lambda>e. e @ [10]) es)) h =
       (if es = [] then h else h\<lparr>hents := Some (last_entries (hmax h) (entries h @ es))\<rparr>, [])"
proof (induction es arbitrary: h)
  case Nil
  then show ?case by (simp add: load_loop.simps)
next
  case (Cons e es)
  let ?h = "h\<lparr>hents := Some (make_room (hmax h) (entries h) @ [e])\<rparr>"
  have e: "plain_entry e" using Cons.prems(1) by simp
  have h: "entries ?h = last_entries (hmax h) (entries h @ [e])" "length (entries ?h) \<le> hmax ?h" "0 < hmax ?h"
    using make_room_last [of "entries h" "hmax h" e] Cons.prems(2,3) by (auto simp: entries_def last_entries_def)
  have "load_loop [] (concat (map (\<lambda>e. e @ [10]) (e # es))) h = load_loop [] (concat (map (\<lambda>e. e @ [10]) es)) ?h"
    using fgets_entry [OF e] cut_entry [OF e] history_add_ok [OF Cons.prems(2)] by (subst load_loop.simps) simp
  also have "\<dots> = (if es = [] then ?h else ?h\<lparr>hents := Some (last_entries (hmax ?h) (entries ?h @ es))\<rparr>, [])"
    using Cons.IH [OF _ h(3,2)] Cons.prems(1) by simp
  finally show ?case
    using h(1) last_entries_twice [of "hmax h" "entries h @ [e]" es] make_room_last [of "entries h" "hmax h" e] Cons.prems(2,3) by simp
qed

text \<open>
  The history survives in its file. If every entry is a line of less than 4095 characters without
  NUL, newline and carriage return, then loading what \<^verbatim>\<open>linenoiseHistorySave\<close> has written into an empty
  history of at most \<open>n\<close> entries with \<^verbatim>\<open>linenoiseHistoryLoad\<close> gives the last \<open>n\<close> of them in their order,
  so all of them if the new history is not shorter than the old one.
\<close>

theorem history_file_roundtrip:
  assumes "\<forall>e \<in> set (entries h). plain_entry e" and "0 < n" and "linenoiseHistorySave True h = (rc, f)"
  shows "\<exists>h'. linenoiseHistoryLoad [] f \<lparr>hmax = n, hents = None\<rparr> = (0, h', []) \<and> rc = 0 \<and> hmax h' = n \<and>
    entries h' = last_entries n (entries h) \<and> (length (entries h) \<le> n \<longrightarrow> entries h' = entries h)"
proof -
  have f: "rc = 0" "f = Some (concat (map (\<lambda>e. e @ [10]) (entries h)))"
    using assms(3) by (auto simp: linenoiseHistorySave_def entries_def)
  let ?h = "\<lparr>hmax = n, hents = None\<rparr>"
  have "load_loop [] (concat (map (\<lambda>e. e @ [10]) (entries h))) ?h =
     (if entries h = [] then ?h else ?h\<lparr>hents := Some (last_entries n (entries h))\<rparr>, [])"
    using load_loop_ok [OF assms(1), of ?h] assms(2) by (simp add: entries_def)
  then show ?thesis using f by (auto simp: linenoiseHistoryLoad_def entries_def last_entries_def)
qed

theorem history_file_roundtrip_witness:
  "\<exists>h'. linenoiseHistoryLoad [] (snd (linenoiseHistorySave True \<lparr>hmax = 3, hents = Some [[97], [98, 32], []]\<rparr>)) \<lparr>hmax = 2, hents = None\<rparr> =
     (0, h', []) \<and> entries h' = [[98, 32], []]"
  using history_file_roundtrip [of "\<lparr>hmax = 3, hents = Some [[97], [98, 32], []]\<rparr>" 2 0
      "snd (linenoiseHistorySave True \<lparr>hmax = 3, hents = Some [[97], [98, 32], []]\<rparr>)"]
  by (auto simp: entries_def plain_entry_def LINENOISE_MAX_LINE_def linenoiseHistorySave_def last_entries_def)

end
