(* ===== verification/Msgqueue.thy ===== *)
theory Msgqueue
  imports Ymem
begin

text \<open>
  The message queue of the inproc transport, \<^verbatim>\<open>lib/nanomsg/src/transports/inproc/msgqueue.c\<close>: messages in
  linked chunks of 126 cells, written at one end and read at the other, with one empty chunk kept in
  reserve. Chunks are blocks of a heap; the allocator hands out addresses in order, and memory suffices,
  since \<^verbatim>\<open>alloc_assert\<close> ends the program otherwise. \<^term>\<open>None\<close> is a failed assertion, an access to a block
  that is not there, or the use of a cell that holds no message.
\<close>

section \<open>The structure\<close>

text \<open>A message is its two parts; moving one leaves no message behind.\<close>

record nn_msg =
  hdr :: bytes
  body :: bytes

definition msg_size :: "nn_msg \<Rightarrow> size_t" where
  "msg_size m = word_of_nat (length (hdr m)) + word_of_nat (length (body m))"

definition NN_MSGQUEUE_GRANULARITY :: nat where
  "NN_MSGQUEUE_GRANULARITY = 126"

record nn_msgqueue_chunk =
  msgs :: "nn_msg option list"
  next_chunk :: "nat option"

record chunk_heap =
  blocks :: "nat \<rightharpoonup> nn_msgqueue_chunk"
  fresh :: nat

record nn_msgqueue =
  out_chunk :: nat
  out_pos :: nat
  in_chunk :: nat
  in_pos :: nat
  count :: size_t
  mem :: size_t
  maxmem :: size_t
  cache :: "nat option"

definition alloc_chunk :: "chunk_heap \<Rightarrow> nat \<times> chunk_heap" where
  "alloc_chunk h =
     (fresh h,
      \<lparr>blocks = (blocks h)(fresh h \<mapsto> \<lparr>msgs = replicate NN_MSGQUEUE_GRANULARITY None, next_chunk = None\<rparr>),
       fresh = Suc (fresh h)\<rparr>)"

definition free_chunk :: "nat \<Rightarrow> chunk_heap \<Rightarrow> chunk_heap option" where
  "free_chunk c h = (case blocks h c of None \<Rightarrow> None | Some _ \<Rightarrow> Some (h\<lparr>blocks := (blocks h)(c := None)\<rparr>))"

definition set_chunk :: "nat \<Rightarrow> nn_msgqueue_chunk \<Rightarrow> chunk_heap \<Rightarrow> chunk_heap" where
  "set_chunk c k h = h\<lparr>blocks := (blocks h)(c \<mapsto> k)\<rparr>"

section \<open>The operations\<close>

definition nn_msgqueue_init :: "size_t \<Rightarrow> chunk_heap \<Rightarrow> nn_msgqueue \<times> chunk_heap" where
  "nn_msgqueue_init mx h =
     (case alloc_chunk h of (c, h') \<Rightarrow>
      (\<lparr>out_chunk = c, out_pos = 0, in_chunk = c, in_pos = 0, count = 0, mem = 0, maxmem = mx, cache = None\<rparr>, h'))"

definition nn_msgqueue_empty :: "nn_msgqueue \<Rightarrow> bool" where
  "nn_msgqueue_empty s \<longleftrightarrow> count s = 0"

definition EAGAIN :: int where
  "EAGAIN = 11"

text \<open>A full chunk is followed by the reserve chunk or by a new one.\<close>

definition next_out :: "nn_msgqueue \<Rightarrow> chunk_heap \<Rightarrow> (nn_msgqueue \<times> chunk_heap) option" where
  "next_out s h =
     (case (case cache s of None \<Rightarrow> alloc_chunk h | Some c \<Rightarrow> (c, h)) of (c, h1) \<Rightarrow>
      do {
        k \<leftarrow> blocks h1 (out_chunk s);
        Some (s\<lparr>out_chunk := c, cache := None, out_pos := 0\<rparr>, set_chunk (out_chunk s) (k\<lparr>next_chunk := Some c\<rparr>) h1) })"

definition nn_msgqueue_send :: "nn_msg \<Rightarrow> nn_msgqueue \<Rightarrow> chunk_heap \<Rightarrow> (int \<times> nn_msgqueue \<times> chunk_heap) option" where
  "nn_msgqueue_send m s h =
     (if 0 < count s \<and> maxmem s \<le> mem s + msg_size m then Some (-EAGAIN, s, h)
      else do {
        k \<leftarrow> blocks h (out_chunk s);
        cs \<leftarrow> set_cell (msgs k) (out_pos s) (Some m);
        (let s1 = s\<lparr>count := count s + 1, mem := mem s + msg_size m, out_pos := out_pos s + 1\<rparr>;
             h1 = set_chunk (out_chunk s) (k\<lparr>msgs := cs\<rparr>) h in
         if out_pos s1 = NN_MSGQUEUE_GRANULARITY then do {
           (s2, h2) \<leftarrow> next_out s1 h1;
           Some (0, s2, h2) }
         else Some (0, s1, h1)) })"

text \<open>A chunk that has been read becomes the reserve, or is freed if there is one already.\<close>

definition next_in :: "nn_msgqueue \<Rightarrow> chunk_heap \<Rightarrow> (nn_msgqueue \<times> chunk_heap) option" where
  "next_in s h = do {
     k \<leftarrow> blocks h (in_chunk s);
     c \<leftarrow> next_chunk k;
     (case cache s of
        None \<Rightarrow> Some (s\<lparr>in_chunk := c, in_pos := 0, cache := Some (in_chunk s)\<rparr>, h)
      | Some _ \<Rightarrow> do {
          h' \<leftarrow> free_chunk (in_chunk s) h;
          Some (s\<lparr>in_chunk := c, in_pos := 0\<rparr>, h') }) }"

definition nn_msgqueue_recv :: "nn_msgqueue \<Rightarrow> chunk_heap \<Rightarrow> (int \<times> nn_msg option \<times> nn_msgqueue \<times> chunk_heap) option" where
  "nn_msgqueue_recv s h =
     (if count s = 0 then Some (-EAGAIN, None, s, h)
      else do {
        k \<leftarrow> blocks h (in_chunk s);
        x \<leftarrow> get_cell (msgs k) (in_pos s);
        m \<leftarrow> x;
        (let h1 = set_chunk (in_chunk s) (k\<lparr>msgs := (msgs k)[in_pos s := None]\<rparr>) h;
             s1 = s\<lparr>in_pos := in_pos s + 1\<rparr> in
         do {
           (s2, h2) \<leftarrow> (if in_pos s1 = NN_MSGQUEUE_GRANULARITY then next_in s1 h1 else Some (s1, h1));
           Some (0, Some m, s2\<lparr>count := count s2 - 1, mem := mem s2 - msg_size m\<rparr>, h2) }) })"

text \<open>Terminating takes every message out and frees what is left; the loop ends when the queue says so.\<close>

partial_function (option) drain_loop :: "nn_msgqueue \<Rightarrow> chunk_heap \<Rightarrow> (nn_msgqueue \<times> chunk_heap) option" where
  "drain_loop s h = do {
     (rc, m, s', h') \<leftarrow> nn_msgqueue_recv s h;
     (if rc = -EAGAIN then Some (s', h') else drain_loop s' h') }"

definition nn_msgqueue_term :: "nn_msgqueue \<Rightarrow> chunk_heap \<Rightarrow> chunk_heap option" where
  "nn_msgqueue_term s h = do {
     (s', h1) \<leftarrow> drain_loop s h;
     (if in_chunk s' \<noteq> out_chunk s' then None
      else do {
        h2 \<leftarrow> free_chunk (in_chunk s') h1;
        (case cache s' of None \<Rightarrow> Some h2 | Some c \<Rightarrow> free_chunk c h2) }) }"

section \<open>The chunks of a queue\<close>

definition cell :: "chunk_heap \<Rightarrow> nat list \<Rightarrow> nat \<Rightarrow> nn_msg option" where
  "cell h cs k = (case blocks h (cs ! (k div NN_MSGQUEUE_GRANULARITY)) of
     None \<Rightarrow> None | Some b \<Rightarrow> msgs b ! (k mod NN_MSGQUEUE_GRANULARITY))"

definition live :: "chunk_heap \<Rightarrow> nat \<Rightarrow> bool" where
  "live h c \<longleftrightarrow> c < fresh h \<and> (\<exists>b. blocks h c = Some b \<and> length (msgs b) = NN_MSGQUEUE_GRANULARITY)"

definition links :: "chunk_heap \<Rightarrow> nat list \<Rightarrow> bool" where
  "links h cs \<longleftrightarrow> (\<forall>i. Suc i < length cs \<longrightarrow> (\<exists>b. blocks h (cs ! i) = Some b \<and> next_chunk b = Some (cs ! Suc i)))"

definition cached :: "nn_msgqueue \<Rightarrow> nat list" where
  "cached s = (case cache s of None \<Rightarrow> [] | Some c \<Rightarrow> [c])"

text \<open>The chunks \<open>cs\<close> of a queue that holds the messages \<open>q\<close>; with the reserve they are all blocks of its heap.\<close>

definition mq_chunks :: "chunk_heap \<Rightarrow> nn_msgqueue \<Rightarrow> nat list \<Rightarrow> nn_msg list \<Rightarrow> bool" where
  "mq_chunks h s cs q \<longleftrightarrow> cs \<noteq> [] \<and> distinct (cs @ cached s) \<and> dom (blocks h) = set (cs @ cached s) \<and>
     (\<forall>c \<in> set (cs @ cached s). live h c) \<and> in_chunk s = hd cs \<and> out_chunk s = last cs \<and> links h cs \<and>
     in_pos s < NN_MSGQUEUE_GRANULARITY \<and> out_pos s < NN_MSGQUEUE_GRANULARITY \<and>
     in_pos s + length q = NN_MSGQUEUE_GRANULARITY * (length cs - 1) + out_pos s \<and>
     (\<forall>k < length q. cell h cs (in_pos s + k) = Some (q ! k))"

definition mem_of :: "nn_msg list \<Rightarrow> size_t" where
  "mem_of q = sum_list (map msg_size q)"

definition mq_rep :: "chunk_heap \<Rightarrow> nn_msgqueue \<Rightarrow> nn_msg list \<Rightarrow> bool" where
  "mq_rep h s q \<longleftrightarrow> (\<exists>cs. mq_chunks h s cs q) \<and> count s = word_of_nat (length q) \<and> mem s = mem_of q"

lemma granularity_pos [simp]: "0 < NN_MSGQUEUE_GRANULARITY"
  by (simp add: NN_MSGQUEUE_GRANULARITY_def)

subsection \<open>Writing a cell\<close>

lemma live_set: "live h c \<Longrightarrow> length (msgs b) = NN_MSGQUEUE_GRANULARITY \<Longrightarrow> live (set_chunk d b h) c"
  by (auto simp: live_def set_chunk_def)

lemma links_set:
  assumes "links h cs" and "blocks h d = Some b" and "next_chunk b' = next_chunk b"
  shows "links (set_chunk d b' h) cs"
  using assms by (auto simp: links_def set_chunk_def)

lemma cell_set:
  assumes "blocks h d = Some b" and "length (msgs b) = NN_MSGQUEUE_GRANULARITY" and "p < NN_MSGQUEUE_GRANULARITY"
    and "distinct cs" and "i < length cs" and "cs ! i = d" and "k < NN_MSGQUEUE_GRANULARITY * length cs"
  shows "cell (set_chunk d (b\<lparr>msgs := (msgs b)[p := x]\<rparr>) h) cs k =
    (if k = NN_MSGQUEUE_GRANULARITY * i + p then x else cell h cs k)"
proof -
  let ?g = NN_MSGQUEUE_GRANULARITY
  have kd: "k div ?g < length cs" using assms(7) by (simp add: less_mult_imp_div_less mult.commute)
  have e: "k = ?g * i + p \<longleftrightarrow> k div ?g = i \<and> k mod ?g = p"
    using assms(3) by (metis div_mult_mod_eq mult.commute div_mult_self4 granularity_pos add.commute div_less mod_less mod_mult_self2 add_0 less_numeral_extra(3))
  have "cs ! (k div ?g) = d \<longleftrightarrow> k div ?g = i" using assms(4-6) kd nth_eq_iff_index_eq by blast
  then show ?thesis using assms(1-3) e by (auto simp: cell_def set_chunk_def nth_list_update)
qed

lemma mq_chunks_write:
  assumes rep: "mq_chunks h s cs q" and b: "blocks h (out_chunk s) = Some b"
  shows "length (msgs b) = NN_MSGQUEUE_GRANULARITY" and "out_pos s < length (msgs b)"
    and "\<forall>k < length (q @ [m]). cell (set_chunk (out_chunk s) (b\<lparr>msgs := (msgs b)[out_pos s := Some m]\<rparr>) h) cs (in_pos s + k) = Some ((q @ [m]) ! k)"
proof -
  let ?g = NN_MSGQUEUE_GRANULARITY
  note r = rep [unfolded mq_chunks_def]
  have o: "out_chunk s \<in> set cs" "cs ! (length cs - 1) = out_chunk s" using r by (auto simp: last_conv_nth)
  have "live h (out_chunk s)" using r o(1) by auto
  then show l: "length (msgs b) = ?g" using b by (auto simp: live_def)
  show "out_pos s < length (msgs b)" using l r by simp
  have t: "in_pos s + length q = ?g * (length cs - 1) + out_pos s" using r by blast
  have n: "?g * (length cs - 1) + out_pos s < ?g * length cs"
    using r by (cases cs) (auto simp: algebra_simps)
  show "\<forall>k < length (q @ [m]). cell (set_chunk (out_chunk s) (b\<lparr>msgs := (msgs b)[out_pos s := Some m]\<rparr>) h) cs (in_pos s + k) = Some ((q @ [m]) ! k)"
  proof (intro allI impI)
    fix k assume k: "k < length (q @ [m])"
    have "cell (set_chunk (out_chunk s) (b\<lparr>msgs := (msgs b)[out_pos s := Some m]\<rparr>) h) cs (in_pos s + k) =
      (if in_pos s + k = ?g * (length cs - 1) + out_pos s then Some m else cell h cs (in_pos s + k))"
      using r o k t n by (intro cell_set [OF b l]) auto
    then show "cell (set_chunk (out_chunk s) (b\<lparr>msgs := (msgs b)[out_pos s := Some m]\<rparr>) h) cs (in_pos s + k) = Some ((q @ [m]) ! k)"
      using r k t by (cases "k = length q") (auto simp: nth_append)
  qed
qed

subsection \<open>Sending\<close>

lemma links_snoc:
  "links h (cs @ [c]) \<longleftrightarrow> links h cs \<and> (cs = [] \<or> (\<exists>b. blocks h (last cs) = Some b \<and> next_chunk b = Some c))"
proof (cases "cs = []")
  case False
  have "links h (cs @ [c]) \<longleftrightarrow> (\<forall>i < length cs. \<exists>b. blocks h ((cs @ [c]) ! i) = Some b \<and> next_chunk b = Some ((cs @ [c]) ! Suc i))"
    by (simp add: links_def)
  also have "\<dots> \<longleftrightarrow> (\<forall>i < length cs - 1. \<exists>b. blocks h (cs ! i) = Some b \<and> next_chunk b = Some (cs ! Suc i)) \<and>
     (\<exists>b. blocks h (cs ! (length cs - 1)) = Some b \<and> next_chunk b = Some c)" (is "?l \<longleftrightarrow> ?a \<and> ?b")
  proof
    assume l: ?l
    have ?a
    proof (intro allI impI)
      fix i assume i: "i < length cs - 1"
      show "\<exists>b. blocks h (cs ! i) = Some b \<and> next_chunk b = Some (cs ! Suc i)"
        using l [rule_format, of i] i by (force simp: nth_append split: if_splits)
    qed
    moreover have ?b using l [rule_format, of "length cs - 1"] False by (simp add: nth_append)
    ultimately show "?a \<and> ?b" ..
  next
    assume r: "?a \<and> ?b"
    show ?l
    proof (intro allI impI)
      fix i assume i: "i < length cs"
      show "\<exists>b. blocks h ((cs @ [c]) ! i) = Some b \<and> next_chunk b = Some ((cs @ [c]) ! Suc i)"
        using r i by (cases "i = length cs - 1") (auto simp: nth_append)
    qed
  qed
  finally show ?thesis using False by (simp add: links_def last_conv_nth less_diff_conv)
qed (simp add: links_def)

lemma cell_snoc: "k < NN_MSGQUEUE_GRANULARITY * length cs \<Longrightarrow> cell h (cs @ [c]) k = cell h cs k"
  by (simp add: cell_def nth_append less_mult_imp_div_less mult.commute)

text \<open>The heap and the address that \<^verbatim>\<open>nn_msgqueue_send\<close> goes on with when a chunk is full.\<close>

lemma next_chunk_for_out:
  assumes rep: "mq_chunks h s cs q"
  obtains c h1 where "(case cache s of None \<Rightarrow> alloc_chunk h | Some c \<Rightarrow> (c, h)) = (c, h1)" "c \<notin> set cs" "live h1 c"
    "dom (blocks h1) = insert c (set cs)" "\<And>d. d \<in> set cs \<Longrightarrow> blocks h1 d = blocks h d" "fresh h \<le> fresh h1"
proof (cases "cache s")
  case None
  have f: "fresh h \<notin> set cs" using rep by (auto simp: mq_chunks_def live_def)
  show ?thesis
  proof (rule that [of "fresh h" "snd (alloc_chunk h)"])
    show "blocks (snd (alloc_chunk h)) d = blocks h d" if "d \<in> set cs" for d
      using f that by (auto simp: alloc_chunk_def)
  qed (use f rep None in \<open>auto simp: alloc_chunk_def live_def mq_chunks_def cached_def\<close>)
next
  case (Some c)
  then show ?thesis using that [of c h] rep by (auto simp: mq_chunks_def cached_def)
qed

lemma next_out_ok:
  assumes rep: "mq_chunks h s cs q" and full: "NN_MSGQUEUE_GRANULARITY = Suc (out_pos s)"
    and b: "blocks h (out_chunk s) = Some b"
    and s1: "out_chunk s1 = out_chunk s" "cache s1 = cache s" "in_chunk s1 = in_chunk s" "in_pos s1 = in_pos s"
  shows "\<exists>s2 h2 cs'. next_out s1 (set_chunk (out_chunk s) (b\<lparr>msgs := (msgs b)[out_pos s := Some m]\<rparr>) h) = Some (s2, h2) \<and>
    mq_chunks h2 s2 cs' (q @ [m]) \<and> count s2 = count s1 \<and> mem s2 = mem s1 \<and> maxmem s2 = maxmem s1"
proof -
  let ?g = NN_MSGQUEUE_GRANULARITY and ?b = "b\<lparr>msgs := (msgs b)[out_pos s := Some m]\<rparr>"
  let ?h = "set_chunk (out_chunk s) ?b h"
  note r = rep [unfolded mq_chunks_def] and w = mq_chunks_write(1,2) [OF rep b] mq_chunks_write(3) [OF rep b, of m]
  have rep': "mq_chunks ?h (s\<lparr>out_pos := out_pos s\<rparr>) cs q"
    using r w(1) links_set [of h cs _ b ?b] b live_set [of h _ ?b "out_chunk s"] w(3)
    by (auto simp: mq_chunks_def cached_def set_chunk_def [of _ _ h] nth_append)
  obtain c h1 where c: "(case cache s of None \<Rightarrow> alloc_chunk ?h | Some c \<Rightarrow> (c, ?h)) = (c, h1)" "c \<notin> set cs" "live h1 c"
    "dom (blocks h1) = insert c (set cs)" "\<And>d. d \<in> set cs \<Longrightarrow> blocks h1 d = blocks ?h d" "fresh ?h \<le> fresh h1"
    using next_chunk_for_out [OF rep'] by auto
  have o: "out_chunk s = last cs" "last cs \<in> set cs" "cs \<noteq> []" using r by auto
  let ?k = "?b\<lparr>next_chunk := Some c\<rparr>" and ?s = "s1\<lparr>out_chunk := c, cache := None, out_pos := 0\<rparr>"
  let ?h2 = "set_chunk (out_chunk s) ?k h1"
  have "blocks h1 (out_chunk s) = Some ?b" using c(5) o by (simp add: set_chunk_def)
  then have e: "next_out s1 ?h = Some (?s, ?h2)" using c(1) s1 by (simp add: next_out_def)
  have lv: "live ?h2 d" if "d \<in> set (cs @ [c])" for d
  proof -
    have "live h1 d"
    proof (cases "d = c")
      case False
      then have d: "d \<in> set cs" using that by simp
      then have "live h d" using r by auto
      then have "live ?h d" using w(1) by (intro live_set) simp_all
      then show ?thesis using c(5) [OF d] c(6) by (simp add: live_def)
    qed (use c(3) in simp)
    then show ?thesis using w(1) by (intro live_set) simp_all
  qed
  have "\<exists>b. blocks ?h2 (cs ! i) = Some b \<and> next_chunk b = Some (cs ! Suc i)" if i: "Suc i < length cs" for i
  proof -
    have "cs ! i \<noteq> last cs" using r i by (auto simp: last_conv_nth nth_eq_iff_index_eq)
    then have "blocks ?h2 (cs ! i) = blocks h (cs ! i)" using c(5) [of "cs ! i"] o i by (simp add: set_chunk_def)
    then show ?thesis using r i by (simp add: links_def)
  qed
  then have ln: "links ?h2 (cs @ [c])" using o unfolding links_snoc by (simp add: links_def set_chunk_def)
  have n: "in_pos s + length q < ?g * length cs" "in_pos s + length (q @ [m]) = ?g * length cs"
    using r full by (cases cs; simp add: algebra_simps)+
  have cl: "cell ?h2 (cs @ [c]) (in_pos s + k) = Some ((q @ [m]) ! k)" if "k < length (q @ [m])" for k
  proof -
    have k: "in_pos s + k < ?g * length cs" using that n by simp
    then have "(in_pos s + k) div ?g < length cs" by (simp add: less_mult_imp_div_less mult.commute)
    then have "cell ?h2 cs (in_pos s + k) = cell ?h cs (in_pos s + k)"
      using c(5) o by (auto simp: cell_def set_chunk_def)
    then show ?thesis using w(3) that cell_snoc [OF k] by simp
  qed
  have "mq_chunks ?h2 ?s (cs @ [c]) (q @ [m])"
    using r c(2,4) o lv ln cl n s1 by (auto simp: mq_chunks_def cached_def set_chunk_def)
  then show ?thesis using e by auto
qed

lemma count_pos: "length q < 2 ^ 64 \<Longrightarrow> (0 :: size_t) < word_of_nat (length q) \<longleftrightarrow> q \<noteq> []"
  by (auto simp: word_less_nat_alt unat_of_nat take_bit_nat_eq_self)

lemma mem_of_snoc: "mem_of (q @ [m]) = mem_of q + msg_size m"
  by (simp add: mem_of_def)

definition mq_full :: "size_t \<Rightarrow> nn_msg \<Rightarrow> nn_msg list \<Rightarrow> bool" where
  "mq_full mx m q \<longleftrightarrow> q \<noteq> [] \<and> mx \<le> mem_of q + msg_size m"

lemma nn_msgqueue_send_ok:
  assumes rep: "mq_rep h s q" and n: "length q < 2 ^ 64"
  shows "\<exists>s' h'. nn_msgqueue_send m s h = Some (if mq_full (maxmem s) m q then -EAGAIN else 0, s', h') \<and>
    mq_rep h' s' (if mq_full (maxmem s) m q then q else q @ [m]) \<and> maxmem s' = maxmem s"
proof (cases "mq_full (maxmem s) m q")
  case True
  then show ?thesis using rep n by (auto simp: mq_rep_def nn_msgqueue_send_def mq_full_def count_pos)
next
  case False
  then have go: "\<not> (0 < count s \<and> maxmem s \<le> mem s + msg_size m)" using rep n by (auto simp: mq_rep_def mq_full_def count_pos)
  obtain cs where c: "mq_chunks h s cs q" using rep by (auto simp: mq_rep_def)
  note r = c [unfolded mq_chunks_def]
  have "last cs \<in> set (cs @ cached s)" using r by simp
  then have "live h (out_chunk s)" using r by metis
  then obtain b where b: "blocks h (out_chunk s) = Some b" unfolding live_def by blast
  note w = mq_chunks_write(1,2) [OF c b] mq_chunks_write(3) [OF c b, of m]
  let ?b = "b\<lparr>msgs := (msgs b)[out_pos s := Some m]\<rparr>"
  let ?h = "set_chunk (out_chunk s) ?b h"
  let ?s = "s\<lparr>count := count s + 1, mem := mem s + msg_size m, out_pos := out_pos s + 1\<rparr>"
  show ?thesis
  proof (cases "Suc (out_pos s) = NN_MSGQUEUE_GRANULARITY")
    case True
    obtain s2 h2 cs' where s2: "next_out ?s ?h = Some (s2, h2)" "mq_chunks h2 s2 cs' (q @ [m])"
      "count s2 = count ?s" "mem s2 = mem ?s" "maxmem s2 = maxmem ?s"
      using next_out_ok [OF c True [symmetric] b, of ?s m] by auto
    then show ?thesis
      using False go b w(2) True rep by (auto simp: nn_msgqueue_send_def set_cell_Some mq_rep_def mem_of_snoc add.commute)
  next
    case nf: False
    have "mq_chunks ?h ?s cs (q @ [m])"
      using r w nf links_set [of h cs _ b ?b] b live_set [of h _ ?b "out_chunk s"]
      by (auto simp: mq_chunks_def cached_def set_chunk_def [of _ _ h])
    then show ?thesis
      using False go b w(2) nf rep by (auto simp: nn_msgqueue_send_def set_cell_Some mq_rep_def mem_of_snoc add.commute)
  qed
qed

subsection \<open>Receiving\<close>

lemma links_tl: "links h (c # cs) \<Longrightarrow> links h cs"
  unfolding links_def by (metis Suc_mono length_Cons nth_Cons_Suc)

lemma links_hd: "links h (c # d # cs) \<Longrightarrow> \<exists>b. blocks h c = Some b \<and> next_chunk b = Some d"
  unfolding links_def by (metis One_nat_def Suc_mono length_Cons nth_Cons_0 nth_Cons_Suc zero_less_Suc)

lemma cell_tl: "cell h (c # cs) (NN_MSGQUEUE_GRANULARITY + k) = cell h cs k"
  by (simp add: cell_def div_add_self1 mod_add_self1 less_not_refl2 [OF granularity_pos] split: option.splits)

lemma links_cong: "(\<And>c. c \<in> set cs \<Longrightarrow> blocks h' c = blocks h c) \<Longrightarrow> links h' cs = links h cs"
  unfolding links_def by (metis nth_mem Suc_lessD)

lemma cell_cong:
  assumes "\<And>c. c \<in> set cs \<Longrightarrow> blocks h' c = blocks h c" and "k < NN_MSGQUEUE_GRANULARITY * length cs"
  shows "cell h' cs k = cell h cs k"
proof -
  have "k div NN_MSGQUEUE_GRANULARITY < length cs" using assms(2) by (simp add: less_mult_imp_div_less mult.commute)
  then show ?thesis using assms(1) by (simp add: cell_def)
qed

text \<open>The first message is at the reading position; taking it out leaves the others.\<close>

lemma mq_chunks_read:
  assumes rep: "mq_chunks h s cs (m # q)"
  obtains b where "blocks h (in_chunk s) = Some b" "length (msgs b) = NN_MSGQUEUE_GRANULARITY" "msgs b ! in_pos s = Some m"
    "\<forall>k < length q. cell (set_chunk (in_chunk s) (b\<lparr>msgs := (msgs b)[in_pos s := None]\<rparr>) h) cs (Suc (in_pos s + k)) = Some (q ! k)"
proof -
  let ?g = NN_MSGQUEUE_GRANULARITY
  note r = rep [unfolded mq_chunks_def]
  have i: "in_chunk s \<in> set (cs @ cached s)" "cs ! 0 = in_chunk s" "0 < length cs" using r by (auto simp: hd_conv_nth)
  have "live h (in_chunk s)" using r i(1) by metis
  then obtain b where b: "blocks h (in_chunk s) = Some b" "length (msgs b) = ?g" by (auto simp: live_def)
  have "cell h cs (in_pos s + 0) = Some m" using r by fastforce
  then have m: "msgs b ! in_pos s = Some m" using r i b by (simp add: cell_def)
  have n: "in_pos s + length (m # q) < ?g * length cs"
    using r by (cases cs) (auto simp: algebra_simps)
  have "cell (set_chunk (in_chunk s) (b\<lparr>msgs := (msgs b)[in_pos s := None]\<rparr>) h) cs (Suc (in_pos s + k)) = Some (q ! k)"
    if k: "k < length q" for k
  proof -
    have "cell (set_chunk (in_chunk s) (b\<lparr>msgs := (msgs b)[in_pos s := None]\<rparr>) h) cs (Suc (in_pos s + k)) =
      (if Suc (in_pos s + k) = ?g * 0 + in_pos s then None else cell h cs (Suc (in_pos s + k)))"
      using r i k n by (intro cell_set [OF b]) auto
    moreover have "cell h cs (in_pos s + Suc k) = Some ((m # q) ! Suc k)" using r k by (metis length_Cons Suc_mono)
    ultimately show ?thesis by simp
  qed
  then show ?thesis using that b m by blast
qed

lemma mq_chunks_taken:
  assumes rep: "mq_chunks h s cs (m # q)" and b: "blocks h (in_chunk s) = Some b" "length (msgs b) = NN_MSGQUEUE_GRANULARITY"
  shows "dom (blocks (set_chunk (in_chunk s) (b\<lparr>msgs := (msgs b)[in_pos s := None]\<rparr>) h)) = set (cs @ cached s)"
    and "\<forall>c \<in> set (cs @ cached s). live (set_chunk (in_chunk s) (b\<lparr>msgs := (msgs b)[in_pos s := None]\<rparr>) h) c"
    and "links (set_chunk (in_chunk s) (b\<lparr>msgs := (msgs b)[in_pos s := None]\<rparr>) h) cs"
proof -
  note r = rep [unfolded mq_chunks_def]
  have "in_chunk s \<in> set cs" using r by auto
  then show "dom (blocks (set_chunk (in_chunk s) (b\<lparr>msgs := (msgs b)[in_pos s := None]\<rparr>) h)) = set (cs @ cached s)"
    using r by (auto simp: set_chunk_def)
  show "\<forall>c \<in> set (cs @ cached s). live (set_chunk (in_chunk s) (b\<lparr>msgs := (msgs b)[in_pos s := None]\<rparr>) h) c"
    using r b(2) by (auto intro!: live_set)
  show "links (set_chunk (in_chunk s) (b\<lparr>msgs := (msgs b)[in_pos s := None]\<rparr>) h) cs"
    using r links_set [OF _ b(1)] by simp
qed

lemma next_in_ok:
  assumes rep: "mq_chunks h s cs (m # q)" and b: "blocks h (in_chunk s) = Some b" "length (msgs b) = NN_MSGQUEUE_GRANULARITY"
    and cl: "\<forall>k < length q. cell (set_chunk (in_chunk s) (b\<lparr>msgs := (msgs b)[in_pos s := None]\<rparr>) h) cs (Suc (in_pos s + k)) = Some (q ! k)"
    and full: "Suc (in_pos s) = NN_MSGQUEUE_GRANULARITY"
  shows "\<exists>s2 h2 cs'. next_in (s\<lparr>in_pos := in_pos s + 1\<rparr>) (set_chunk (in_chunk s) (b\<lparr>msgs := (msgs b)[in_pos s := None]\<rparr>) h) = Some (s2, h2) \<and>
    mq_chunks h2 s2 cs' q \<and> count s2 = count s \<and> mem s2 = mem s \<and> maxmem s2 = maxmem s"
proof -
  let ?g = NN_MSGQUEUE_GRANULARITY and ?h = "set_chunk (in_chunk s) (b\<lparr>msgs := (msgs b)[in_pos s := None]\<rparr>) h"
  note r = rep [unfolded mq_chunks_def] and t = mq_chunks_taken [OF rep b]
  have "\<not> length cs \<le> 1" using r full by (cases cs) auto
  then obtain c d ds where cs: "cs = c # d # ds" by (cases cs; cases "tl cs") auto
  have c: "in_chunk s = c" "c \<notin> set (d # ds)" "c \<notin> set (cached s)" using r cs by auto
  obtain k where k: "blocks ?h c = Some k" "next_chunk k = Some d" using links_hd t(3) cs by blast
  have n: "length q = ?g * length ds + out_pos s" using r cs full by (simp add: algebra_simps)
  have cl': "cell ?h (d # ds) j = Some (q ! j)" if "j < length q" for j
    using cl that full cell_tl [of ?h c "d # ds" j] cs by (metis add_Suc)
  have ln: "links ?h (d # ds)" using t(3) cs links_tl by blast
  have nj: "j < length q \<Longrightarrow> j < ?g * length (d # ds)" for j using n r by simp
  show ?thesis
  proof (cases "cache s")
    case None
    let ?s = "s\<lparr>in_pos := 0, in_chunk := d, cache := Some c\<rparr>"
    have "mq_chunks ?h ?s (d # ds) q"
      using r t(1,2) c cs None cl' ln n by (auto simp: mq_chunks_def cached_def)
    then show ?thesis using k c None by (intro exI [of _ ?s] exI [of _ ?h]) (auto simp: next_in_def)
  next
    case (Some e)
    let ?s = "s\<lparr>in_pos := 0, in_chunk := d\<rparr>" and ?h2 = "?h\<lparr>blocks := (blocks ?h)(c := None)\<rparr>"
    have same: "x \<in> set (d # ds) \<Longrightarrow> blocks ?h2 x = blocks ?h x" for x using c(2) by auto
    have "live ?h2 x" if "x \<in> set ((d # ds) @ cached s)" for x
    proof -
      have "live ?h x" using t(2) cs that by auto
      moreover have "x \<noteq> c" using c that by auto
      ultimately show ?thesis by (simp add: live_def)
    qed
    moreover have "cell ?h2 (d # ds) j = Some (q ! j)" if "j < length q" for j
      using cell_cong [of "d # ds" ?h2 ?h, OF same nj [OF that]] cl' [OF that] by simp
    moreover have "links ?h2 (d # ds)" using links_cong [of "d # ds" ?h2 ?h, OF same] ln by blast
    moreover have "dom (blocks ?h2) = set ((d # ds) @ cached s)" using t(1) cs c by auto
    ultimately have "mq_chunks ?h2 ?s (d # ds) q" using r cs n by (auto simp: mq_chunks_def cached_def)
    then show ?thesis using k c Some by (intro exI [of _ ?s] exI [of _ ?h2]) (auto simp: next_in_def free_chunk_def)
  qed
qed

lemma nn_msgqueue_recv_ok:
  assumes rep: "mq_rep h s q" and n: "length q < 2 ^ 64"
  shows "case q of
      [] \<Rightarrow> nn_msgqueue_recv s h = Some (-EAGAIN, None, s, h)
    | m # q' \<Rightarrow> \<exists>s' h'. nn_msgqueue_recv s h = Some (0, Some m, s', h') \<and> mq_rep h' s' q' \<and> maxmem s' = maxmem s"
proof (cases q)
  case Nil
  then show ?thesis using rep by (simp add: mq_rep_def nn_msgqueue_recv_def)
next
  case (Cons m q')
  have nz: "count s \<noteq> 0" using rep n Cons count_pos [OF n] by (auto simp: mq_rep_def)
  obtain cs where c: "mq_chunks h s cs (m # q')" using rep Cons by (auto simp: mq_rep_def)
  note r = c [unfolded mq_chunks_def]
  obtain b where b: "blocks h (in_chunk s) = Some b" "length (msgs b) = NN_MSGQUEUE_GRANULARITY" "msgs b ! in_pos s = Some m"
    "\<forall>k < length q'. cell (set_chunk (in_chunk s) (b\<lparr>msgs := (msgs b)[in_pos s := None]\<rparr>) h) cs (Suc (in_pos s + k)) = Some (q' ! k)"
    using mq_chunks_read [OF c] by blast
  have g: "get_cell (msgs b) (in_pos s) = Some (Some m)" using b r by (simp add: get_cell_def)
  have cm: "count s - 1 = word_of_nat (length q')" "mem s - msg_size m = mem_of q'"
    using rep Cons by (simp_all add: mq_rep_def mem_of_def)
  let ?h = "set_chunk (in_chunk s) (b\<lparr>msgs := (msgs b)[in_pos s := None]\<rparr>) h"
  show ?thesis
  proof (cases "Suc (in_pos s) = NN_MSGQUEUE_GRANULARITY")
    case True
    obtain s2 h2 cs' where s2: "next_in (s\<lparr>in_pos := in_pos s + 1\<rparr>) ?h = Some (s2, h2)" "mq_chunks h2 s2 cs' q'"
      "count s2 = count s" "mem s2 = mem s" "maxmem s2 = maxmem s"
      using next_in_ok [OF c b(1,2,4) True] by blast
    have "mq_rep h2 (s2\<lparr>count := count s2 - 1, mem := mem s2 - msg_size m\<rparr>) q'"
      using s2 cm by (auto simp: mq_rep_def mq_chunks_def cached_def)
    then show ?thesis using Cons nz b g s2(1,5) True by (auto simp: nn_msgqueue_recv_def)
  next
    case False
    have "mq_chunks ?h (s\<lparr>in_pos := in_pos s + 1, count := count s - 1, mem := mem s - msg_size m\<rparr>) cs q'"
      using r mq_chunks_taken [OF c b(1,2)] b(4) False by (auto simp: mq_chunks_def cached_def)
    then have "mq_rep ?h (s\<lparr>in_pos := in_pos s + 1, count := count s - 1, mem := mem s - msg_size m\<rparr>) q'"
      using cm by (auto simp: mq_rep_def)
    then show ?thesis using Cons nz b g False by (auto simp: nn_msgqueue_recv_def)
  qed
qed

section \<open>The contract of a bounded queue\<close>

datatype 'b fifo_op = Send 'b | Recv

text \<open>What the operations of a queue answer: a code and, for a message received, the message.\<close>

fun fifo_run :: "('b \<Rightarrow> 'b list \<Rightarrow> bool) \<Rightarrow> 'b list \<Rightarrow> 'b fifo_op list \<Rightarrow> (int \<times> 'b option) list \<times> 'b list" where
  "fifo_run full q [] = ([], q)"
| "fifo_run full q (Send m # ops) =
     (if full m q then apfst ((#) (-EAGAIN, None)) (fifo_run full q ops)
      else apfst ((#) (0, None)) (fifo_run full (q @ [m]) ops))"
| "fifo_run full q (Recv # ops) =
     (case q of
        [] \<Rightarrow> apfst ((#) (-EAGAIN, None)) (fifo_run full q ops)
      | m # q' \<Rightarrow> apfst ((#) (0, Some m)) (fifo_run full q' ops))"

fun queue_run :: "('b \<Rightarrow> 's \<Rightarrow> (int \<times> 's) option) \<Rightarrow> ('s \<Rightarrow> (int \<times> 'b option \<times> 's) option) \<Rightarrow> 's \<Rightarrow> 'b fifo_op list \<Rightarrow>
    ((int \<times> 'b option) list \<times> 's) option" where
  "queue_run send recv s [] = Some ([], s)"
| "queue_run send recv s (Send m # ops) = do {
     (rc, s') \<leftarrow> send m s;
     (rs, s'') \<leftarrow> queue_run send recv s' ops;
     Some ((rc, None) # rs, s'') }"
| "queue_run send recv s (Recv # ops) = do {
     (rc, m, s') \<leftarrow> recv s;
     (rs, s'') \<leftarrow> queue_run send recv s' ops;
     Some ((rc, m) # rs, s'') }"

lemma fifo_run_length: "length (snd (fifo_run full q ops)) \<le> length q + length ops"
proof (induction full q ops rule: fifo_run.induct)
  case (3 full q ops)
  then show ?case by (cases q) fastforce+
qed auto

locale bounded_fifo =
  fixes send :: "'b \<Rightarrow> 's \<Rightarrow> (int \<times> 's) option"
    and recv :: "'s \<Rightarrow> (int \<times> 'b option \<times> 's) option"
    and rep :: "'s \<Rightarrow> 'b list \<Rightarrow> bool"
    and full :: "'b \<Rightarrow> 'b list \<Rightarrow> bool"
    and room :: nat
  assumes send_law: "rep s q \<Longrightarrow> length q < room \<Longrightarrow>
      \<exists>s'. send m s = Some (if full m q then -EAGAIN else 0, s') \<and> rep s' (if full m q then q else q @ [m])"
    and recv_none: "rep s [] \<Longrightarrow> 0 < room \<Longrightarrow> \<exists>s'. recv s = Some (-EAGAIN, None, s') \<and> rep s' []"
    and recv_some: "rep s (m # q) \<Longrightarrow> length (m # q) < room \<Longrightarrow> \<exists>s'. recv s = Some (0, Some m, s') \<and> rep s' q"
begin

lemma runs_like_fifo:
  "rep s q \<Longrightarrow> length q + length ops < room \<Longrightarrow>
     \<exists>s'. queue_run send recv s ops = Some (fst (fifo_run full q ops), s') \<and> rep s' (snd (fifo_run full q ops))"
proof (induction ops arbitrary: s q)
  case (Cons p ops)
  show ?case
  proof (cases p)
    case (Send m)
    obtain s1 where s1: "send m s = Some (if full m q then -EAGAIN else 0, s1)" "rep s1 (if full m q then q else q @ [m])"
      using send_law [OF Cons.prems(1)] Cons.prems(2) by fastforce
    have "\<exists>s'. queue_run send recv s1 ops = Some (fst (fifo_run full (if full m q then q else q @ [m]) ops), s') \<and>
        rep s' (snd (fifo_run full (if full m q then q else q @ [m]) ops))"
      using Cons.IH [OF s1(2)] Cons.prems(2) by simp
    then show ?thesis using s1(1) Send by (auto simp: apfst_def map_prod_def split: prod.splits if_splits)
  next
    case Recv
    show ?thesis
    proof (cases q)
      case Nil
      obtain s1 where "recv s = Some (-EAGAIN, None, s1)" "rep s1 []" using recv_none Cons.prems Nil by fastforce
      then show ?thesis using Cons.IH [of s1 "[]"] Cons.prems(2) Recv Nil by (auto simp: apfst_def map_prod_def split: prod.splits)
    next
      case (Cons m q')
      obtain s1 where "recv s = Some (0, Some m, s1)" "rep s1 q'" using recv_some Cons.prems Cons by fastforce
      then show ?thesis using Cons.IH [of s1 q'] Cons.prems(2) Recv Cons by (auto simp: apfst_def map_prod_def split: prod.splits)
    qed
  qed
qed simp

end

definition mq_send :: "nn_msg \<Rightarrow> nn_msgqueue \<times> chunk_heap \<Rightarrow> (int \<times> nn_msgqueue \<times> chunk_heap) option" where
  "mq_send m s = nn_msgqueue_send m (fst s) (snd s)"

definition mq_recv :: "nn_msgqueue \<times> chunk_heap \<Rightarrow> (int \<times> nn_msg option \<times> nn_msgqueue \<times> chunk_heap) option" where
  "mq_recv s = nn_msgqueue_recv (fst s) (snd s)"

definition mq_state :: "size_t \<Rightarrow> nn_msgqueue \<times> chunk_heap \<Rightarrow> nn_msg list \<Rightarrow> bool" where
  "mq_state mx s q \<longleftrightarrow> mq_rep (snd s) (fst s) q \<and> maxmem (fst s) = mx"

interpretation mq: bounded_fifo mq_send mq_recv "mq_state mx" "mq_full mx" "2 ^ 64" for mx
proof unfold_locales
  fix s q m assume "mq_state mx s q" "length q < 2 ^ 64"
  then show "\<exists>s'. mq_send m s = Some (if mq_full mx m q then -EAGAIN else 0, s') \<and> mq_state mx s' (if mq_full mx m q then q else q @ [m])"
    using nn_msgqueue_send_ok [of "snd s" "fst s" q m] by (auto simp: mq_send_def mq_state_def)
next
  fix s assume "mq_state mx s []"
  then show "\<exists>s'. mq_recv s = Some (-EAGAIN, None, s') \<and> mq_state mx s' []"
    using nn_msgqueue_recv_ok [of "snd s" "fst s" "[]"] by (auto simp: mq_recv_def mq_state_def)
next
  fix s m q assume "mq_state mx s (m # q)" "length (m # q) < 2 ^ 64"
  then show "\<exists>s'. mq_recv s = Some (0, Some m, s') \<and> mq_state mx s' q"
    using nn_msgqueue_recv_ok [of "snd s" "fst s" "m # q"] by (auto simp: mq_recv_def mq_state_def)
qed

lemma nn_msgqueue_init_ok: "mq_state mx (nn_msgqueue_init mx \<lparr>blocks = Map.empty, fresh = n\<rparr>) []"
  by (auto simp: nn_msgqueue_init_def alloc_chunk_def mq_state_def mq_rep_def mq_chunks_def live_def links_def cached_def mem_of_def
      intro!: exI [of _ "[n]"])

subsection \<open>Terminating\<close>

lemma drain_loop_ok: "mq_rep h s q \<Longrightarrow> length q < 2 ^ 64 \<Longrightarrow> \<exists>s' h'. drain_loop s h = Some (s', h') \<and> mq_rep h' s' []"
proof (induction q arbitrary: s h)
  case Nil
  then show ?case using nn_msgqueue_recv_ok [OF Nil] by (subst drain_loop.simps) (auto simp: EAGAIN_def)
next
  case (Cons m q)
  obtain s1 h1 where "nn_msgqueue_recv s h = Some (0, Some m, s1, h1)" "mq_rep h1 s1 q"
    using nn_msgqueue_recv_ok [OF Cons.prems] by auto
  then show ?case using Cons.IH [of h1 s1] Cons.prems(2) by (subst drain_loop.simps) (auto simp: EAGAIN_def)
qed

lemma nn_msgqueue_term_ok:
  assumes "mq_rep h s q" and "length q < 2 ^ 64"
  shows "\<exists>h'. nn_msgqueue_term s h = Some h' \<and> blocks h' = Map.empty"
proof -
  obtain s1 h1 where d: "drain_loop s h = Some (s1, h1)" "mq_rep h1 s1 []" using drain_loop_ok [OF assms] by blast
  then obtain cs where c: "mq_chunks h1 s1 cs []" by (auto simp: mq_rep_def)
  note r = c [unfolded mq_chunks_def]
  have "NN_MSGQUEUE_GRANULARITY * (length cs - 1) + out_pos s1 < NN_MSGQUEUE_GRANULARITY" using r by fastforce
  then have "NN_MSGQUEUE_GRANULARITY * (length cs - 1) < NN_MSGQUEUE_GRANULARITY * 1" by (metis add_lessD1 mult.right_neutral)
  then have "length cs - 1 < 1" by (simp only: nat_mult_less_cancel1 granularity_pos)
  then obtain k where k: "cs = [k]" using r by (cases cs) auto
  have dm: "dom (blocks h1) = insert k (set (cached s1))" "k \<notin> set (cached s1)" "in_chunk s1 = k" "out_chunk s1 = k" using r k by auto
  show ?thesis
  proof (cases "cache s1")
    case None
    then obtain x where "blocks h1 k = Some x" using dm by (auto simp: dom_def set_eq_iff)
    moreover have "(blocks h1)(k := None) = Map.empty" using dm(1) None by (auto simp: cached_def fun_eq_iff dom_def set_eq_iff)
    ultimately show ?thesis using d(1) dm None by (simp add: nn_msgqueue_term_def free_chunk_def)
  next
    case (Some e)
    then have "k \<in> dom (blocks h1)" "e \<in> dom (blocks h1)" "k \<noteq> e" using dm by (auto simp: cached_def)
    then obtain x y where "blocks h1 k = Some x" "blocks h1 e = Some y" "k \<noteq> e" by blast
    moreover have "((blocks h1)(k := None, e := None)) = Map.empty" using dm(1) Some by (auto simp: cached_def fun_eq_iff dom_def set_eq_iff)
    ultimately show ?thesis using d(1) dm Some by (simp add: nn_msgqueue_term_def free_chunk_def)
  qed
qed

text \<open>
  C23: The chunked message queue is a bounded first-in first-out queue. From \<^verbatim>\<open>nn_msgqueue_init\<close> with a limit
  \<open>mx\<close>, any sequence of less than \<open>2 ^ 64\<close> calls of \<^verbatim>\<open>nn_msgqueue_send\<close> and \<^verbatim>\<open>nn_msgqueue_recv\<close> answers what
  a list of messages answers: a message is taken if the list is empty or the sizes stay below the limit,
  and refused with \<^verbatim>\<open>-EAGAIN\<close> otherwise; the oldest message is returned and removed, or \<^verbatim>\<open>-EAGAIN\<close> if there is
  none. No access leaves a chunk, and \<^verbatim>\<open>nn_msgqueue_term\<close> at the end frees every chunk.
\<close>

theorem msgqueue_is_bounded_fifo:
  assumes "length ops < 2 ^ 64"
  shows "\<exists>s h. queue_run mq_send mq_recv (nn_msgqueue_init mx \<lparr>blocks = Map.empty, fresh = n\<rparr>) ops =
      Some (fst (fifo_run (mq_full mx) [] ops), s, h) \<and>
    mq_rep h s (snd (fifo_run (mq_full mx) [] ops)) \<and>
    (\<exists>h'. nn_msgqueue_term s h = Some h' \<and> blocks h' = Map.empty)"
proof -
  let ?r = "fifo_run (mq_full mx) [] ops"
  obtain s where s: "queue_run mq_send mq_recv (nn_msgqueue_init mx \<lparr>blocks = Map.empty, fresh = n\<rparr>) ops = Some (fst ?r, s)"
    "mq_state mx s (snd ?r)"
    using mq.runs_like_fifo [OF nn_msgqueue_init_ok, of ops mx n] assms by auto
  have "length (snd ?r) < 2 ^ 64" using fifo_run_length [of "mq_full mx" "[]" ops] assms by simp
  then show ?thesis using s nn_msgqueue_term_ok [of "snd s" "fst s" "snd ?r"] by (cases s) (auto simp: mq_state_def)
qed

theorem msgqueue_is_bounded_fifo_witness:
  "\<exists>s h. queue_run mq_send mq_recv (nn_msgqueue_init 5 \<lparr>blocks = Map.empty, fresh = 1\<rparr>)
      [Send \<lparr>hdr = [], body = [1, 2, 3]\<rparr>, Send \<lparr>hdr = [], body = [4, 5]\<rparr>, Send \<lparr>hdr = [], body = [6]\<rparr>, Recv, Recv, Recv] =
    Some ([(0, None), (-EAGAIN, None), (0, None), (0, Some \<lparr>hdr = [], body = [1, 2, 3]\<rparr>), (0, Some \<lparr>hdr = [], body = [6]\<rparr>),
      (-EAGAIN, None)], s, h) \<and> (\<exists>h'. nn_msgqueue_term s h = Some h' \<and> blocks h' = Map.empty)"
  using msgqueue_is_bounded_fifo [of "[Send \<lparr>hdr = [], body = [1, 2, 3]\<rparr>, Send \<lparr>hdr = [], body = [4, 5]\<rparr>, Send \<lparr>hdr = [], body = [6]\<rparr>, Recv, Recv, Recv]"
      5 1]
  by (auto simp: mq_full_def mem_of_def msg_size_def apfst_def map_prod_def)

end
