(* ===== verification/Inproc.thy ===== *)
theory Inproc
  imports Msgqueue
begin

text \<open>
  A connection of the inproc transport: the two sessions of \<^verbatim>\<open>lib/nanomsg/src/transports/inproc/sinproc.c\<close> with
  the pipes of \<^verbatim>\<open>core/pipe.c\<close> that join them to their sockets and the state machines of \<^verbatim>\<open>aio/fsm.c\<close>. Each
  socket has a lock of its own, and an event that one session raises for the other is handled later, under
  the lock of the other, by whichever thread gets there: the steps of a pair of sessions deliver the pending
  events in any order. \<^term>\<open>None\<close> is a failed assertion or the use of a null pointer. The push and pull
  protocols accept every pipe, so \<^verbatim>\<open>nn_sock_add\<close> always succeeds.
\<close>

section \<open>State machines and pipes\<close>

datatype fsm_state = FsmIdle | FsmActive | FsmStopping

datatype pipe_state = PipeIdle | PipeActive

datatype in_state = InDeactivated | InIdle | InReceiving | InReceived | InAsync

datatype out_state = OutDeactivated | OutIdle | OutSending | OutSent | OutAsync

record nn_pipebase =
  pipe_state :: pipe_state
  instate :: in_state
  outstate :: out_state
  event_in :: bool
  event_out :: bool

text \<open>An event is raised by queueing it; it must not be in a queue already.\<close>

definition nn_queue_push :: "bool \<Rightarrow> bool option" where
  "nn_queue_push queued = (if queued then None else Some True)"

definition NN_PIPEBASE_RELEASE :: nat where
  "NN_PIPEBASE_RELEASE = 1"

definition NN_PIPEBASE_PARSED :: nat where
  "NN_PIPEBASE_PARSED = 2"

definition nn_pipebase_init :: nn_pipebase where
  "nn_pipebase_init = \<lparr>pipe_state = PipeIdle, instate = InDeactivated, outstate = OutDeactivated, event_in = False, event_out = False\<rparr>"

definition nn_pipebase_start :: "nn_pipebase \<Rightarrow> nn_pipebase option" where
  "nn_pipebase_start b =
     (if pipe_state b \<noteq> PipeIdle then None
      else do {
        e \<leftarrow> nn_queue_push (event_out b);
        Some (b\<lparr>pipe_state := PipeActive, instate := InAsync, outstate := OutIdle, event_out := e\<rparr>) })"

definition nn_pipebase_stop :: "nn_pipebase \<Rightarrow> nn_pipebase" where
  "nn_pipebase_stop b = (if pipe_state b \<noteq> PipeActive then b else b\<lparr>pipe_state := PipeIdle\<rparr>)"

definition nn_pipebase_received :: "nn_pipebase \<Rightarrow> nn_pipebase option" where
  "nn_pipebase_received b =
     (if instate b = InReceiving then Some (b\<lparr>instate := InReceived\<rparr>)
      else if instate b \<noteq> InAsync then None
      else do {
        e \<leftarrow> nn_queue_push (event_in b);
        Some (b\<lparr>instate := InIdle, event_in := e\<rparr>) })"

definition nn_pipebase_sent :: "nn_pipebase \<Rightarrow> nn_pipebase option" where
  "nn_pipebase_sent b =
     (if outstate b = OutSending then Some (b\<lparr>outstate := OutSent\<rparr>)
      else if outstate b \<noteq> OutAsync then None
      else do {
        e \<leftarrow> nn_queue_push (event_out b);
        Some (b\<lparr>outstate := OutIdle, event_out := e\<rparr>) })"

section \<open>Sessions\<close>

datatype sinproc_state = Idle | Connecting | Active | Disconnected | Stopping

text \<open>
  The pointer to the other session is null or leads to the other session of the pair. The event of the
  handshake carries a request to connect or its acceptance.
\<close>

datatype connect_event = CONNECT | ACCEPTED

record nn_sinproc =
  fsm :: fsm_state
  stopped :: bool
  state :: sinproc_state
  flag_sending :: bool
  flag_receiving :: bool
  peer :: bool
  pipebase :: nn_pipebase
  msgqueue :: "nn_msgqueue \<times> chunk_heap"
  msg :: nn_msg
  event_connect :: "connect_event option"
  event_sent :: bool
  event_received :: bool
  event_disconnect :: bool

definition nn_msg_init :: nn_msg where
  "nn_msg_init = \<lparr>hdr = [], body = []\<rparr>"

definition nn_sinproc_init :: "size_t \<Rightarrow> nat \<Rightarrow> nn_sinproc" where
  "nn_sinproc_init rcvbuf n =
     \<lparr>fsm = FsmIdle, stopped = False, state = Idle, flag_sending = False, flag_receiving = False, peer = False,
      pipebase = nn_pipebase_init, msgqueue = nn_msgqueue_init rcvbuf \<lparr>blocks = Map.empty, fresh = n\<rparr>, msg = nn_msg_init,
      event_connect = None, event_sent = False, event_received = False, event_disconnect = False\<rparr>"

datatype event = Start | Stop | ActionAccepted | PeerConnect | PeerAccepted | PeerSent | PeerReceived | PeerDisconnect

definition nn_fsm_stopped :: "nn_sinproc \<Rightarrow> nn_sinproc option" where
  "nn_fsm_stopped s =
     (if fsm s \<noteq> FsmStopping then None
      else do {
        e \<leftarrow> nn_queue_push (stopped s);
        Some (s\<lparr>stopped := e, fsm := FsmIdle\<rparr>) })"

text \<open>The events that one session raises for the other.\<close>

definition raise_sent :: "nn_sinproc \<Rightarrow> nn_sinproc option" where
  "raise_sent t = do { e \<leftarrow> nn_queue_push (event_sent t); Some (t\<lparr>event_sent := e\<rparr>) }"

definition raise_received :: "nn_sinproc \<Rightarrow> nn_sinproc option" where
  "raise_received t = do { e \<leftarrow> nn_queue_push (event_received t); Some (t\<lparr>event_received := e\<rparr>) }"

definition raise_disconnect :: "nn_sinproc \<Rightarrow> nn_sinproc option" where
  "raise_disconnect t = do { e \<leftarrow> nn_queue_push (event_disconnect t); Some (t\<lparr>event_disconnect := e\<rparr>) }"

definition ECONNRESET :: int where
  "ECONNRESET = 104"

definition nn_sinproc_send :: "nn_msg \<Rightarrow> nn_sinproc \<Rightarrow> nn_sinproc \<Rightarrow> (int \<times> nn_sinproc \<times> nn_sinproc) option" where
  "nn_sinproc_send m s t =
     (if state s = Disconnected then Some (-ECONNRESET, s, t)
      else if state s \<noteq> Active \<or> flag_sending s \<or> \<not> peer s then None
      else do {
        t' \<leftarrow> raise_sent t;
        Some (0, s\<lparr>msg := m, flag_sending := True\<rparr>, t') })"

text \<open>
  The session takes a message from its queue; a message that waits in the other session for want of room is
  then tried again.
\<close>

definition take_lingering :: "nn_sinproc \<Rightarrow> nn_sinproc \<Rightarrow> (nn_sinproc \<times> nn_sinproc) option" where
  "take_lingering s t =
     (if state s \<noteq> Disconnected \<and> flag_receiving s then
        (if \<not> peer s then None
         else do {
           (rc, q) \<leftarrow> mq_send (msg t) (msgqueue s);
           (if rc = 0 then do {
              t' \<leftarrow> raise_received (t\<lparr>msg := nn_msg_init\<rparr>);
              Some (s\<lparr>msgqueue := q, flag_receiving := False\<rparr>, t') }
            else if rc = -EAGAIN then Some (s\<lparr>msgqueue := q\<rparr>, t)
            else None) })
      else Some (s, t))"

definition nn_sinproc_recv :: "nn_sinproc \<Rightarrow> nn_sinproc \<Rightarrow> (nat \<times> nn_msg \<times> nn_sinproc \<times> nn_sinproc) option" where
  "nn_sinproc_recv s t =
     (if state s \<noteq> Active \<and> state s \<noteq> Disconnected then None
      else do {
        (rc, x, q) \<leftarrow> mq_recv (msgqueue s);
        m \<leftarrow> (if rc = 0 then x else None);
        (s', t') \<leftarrow> take_lingering (s\<lparr>msgqueue := q\<rparr>) t;
        b \<leftarrow> (if nn_msgqueue_empty (fst (msgqueue s')) then Some (pipebase s') else nn_pipebase_received (pipebase s'));
        Some (NN_PIPEBASE_PARSED, m, s'\<lparr>pipebase := b\<rparr>, t') })"

text \<open>The two ends of the pipe that the socket calls.\<close>

definition set_instate :: "in_state \<Rightarrow> nn_sinproc \<Rightarrow> nn_sinproc" where
  "set_instate x s = s\<lparr>pipebase := (pipebase s)\<lparr>instate := x\<rparr>\<rparr>"

definition set_outstate :: "out_state \<Rightarrow> nn_sinproc \<Rightarrow> nn_sinproc" where
  "set_outstate x s = s\<lparr>pipebase := (pipebase s)\<lparr>outstate := x\<rparr>\<rparr>"

definition nn_pipe_send :: "nn_msg \<Rightarrow> nn_sinproc \<Rightarrow> nn_sinproc \<Rightarrow> (nat \<times> nn_sinproc \<times> nn_sinproc) option" where
  "nn_pipe_send m s t =
     (if outstate (pipebase s) \<noteq> OutIdle then None
      else do {
        (rc, s1, t1) \<leftarrow> nn_sinproc_send m (set_outstate OutSending s) t;
        (if rc < 0 then None
         else if outstate (pipebase s1) = OutSent then Some (nat rc, set_outstate OutIdle s1, t1)
         else if outstate (pipebase s1) \<noteq> OutSending then None
         else Some (nat rc OR NN_PIPEBASE_RELEASE, set_outstate OutAsync s1, t1)) })"

definition nn_pipe_recv :: "nn_sinproc \<Rightarrow> nn_sinproc \<Rightarrow> (nat \<times> nn_msg \<times> nn_sinproc \<times> nn_sinproc) option" where
  "nn_pipe_recv s t =
     (if instate (pipebase s) \<noteq> InIdle then None
      else do {
        (rc, m, s1, t1) \<leftarrow> nn_sinproc_recv (set_instate InReceiving s) t;
        (if instate (pipebase s1) = InReceived then Some (rc, m, set_instate InIdle s1, t1)
         else if instate (pipebase s1) \<noteq> InReceiving then None
         else Some (rc OR NN_PIPEBASE_RELEASE, m, set_instate InAsync s1, t1)) })"

subsection \<open>The handler of a session\<close>

definition on_stop :: "nn_sinproc \<Rightarrow> nn_sinproc \<Rightarrow> (nn_sinproc \<times> nn_sinproc) option" where
  "on_stop s t =
     (if state s = Idle \<or> state s = Disconnected then do { s' \<leftarrow> nn_fsm_stopped s; Some (s', t) }
      else if \<not> peer s then None
      else do {
        t' \<leftarrow> raise_disconnect t;
        Some (s\<lparr>pipebase := nn_pipebase_stop (pipebase s), state := Stopping\<rparr>, t') })"

definition on_started :: "nn_sinproc \<Rightarrow> nn_sinproc \<Rightarrow> (nn_sinproc \<times> nn_sinproc) option" where
  "on_started s t = do {
     b \<leftarrow> nn_pipebase_start (pipebase s);
     Some (s\<lparr>pipebase := b, state := Active\<rparr>, t) }"

definition on_sent :: "nn_sinproc \<Rightarrow> nn_sinproc \<Rightarrow> (nn_sinproc \<times> nn_sinproc) option" where
  "on_sent s t = (if \<not> peer s then None else do {
     (rc, q) \<leftarrow> mq_send (msg t) (msgqueue s);
     (if rc = -EAGAIN then Some (s\<lparr>msgqueue := q, flag_receiving := True\<rparr>, t)
      else if rc \<noteq> 0 then None
      else do {
        b \<leftarrow> (if nn_msgqueue_empty (fst (msgqueue s)) then nn_pipebase_received (pipebase s) else Some (pipebase s));
        t' \<leftarrow> raise_received (t\<lparr>msg := nn_msg_init\<rparr>);
        Some (s\<lparr>msgqueue := q, pipebase := b\<rparr>, t') }) })"

definition on_received :: "nn_sinproc \<Rightarrow> nn_sinproc \<Rightarrow> (nn_sinproc \<times> nn_sinproc) option" where
  "on_received s t =
     (if \<not> flag_sending s then None
      else do {
        b \<leftarrow> nn_pipebase_sent (pipebase s);
        Some (s\<lparr>pipebase := b, flag_sending := False\<rparr>, t) })"

definition on_disconnect :: "nn_sinproc \<Rightarrow> nn_sinproc \<Rightarrow> (nn_sinproc \<times> nn_sinproc) option" where
  "on_disconnect s t = (if \<not> peer s then None else do {
     t' \<leftarrow> raise_disconnect t;
     Some (s\<lparr>pipebase := nn_pipebase_stop (pipebase s), state := Disconnected\<rparr>, t') })"

definition nn_sinproc_handler :: "event \<Rightarrow> nn_sinproc \<Rightarrow> nn_sinproc \<Rightarrow> (nn_sinproc \<times> nn_sinproc) option" where
  "nn_sinproc_handler e s t =
     (if e = Stop then on_stop s t
      else case state s of
        Stopping \<Rightarrow> (if e = PeerDisconnect \<and> peer s then do { s' \<leftarrow> nn_fsm_stopped (s\<lparr>state := Idle\<rparr>); Some (s', t) } else None)
      | Idle \<Rightarrow> (if e = Start then Some (s\<lparr>state := Connecting\<rparr>, t) else None)
      | Connecting \<Rightarrow> (case e of
            ActionAccepted \<Rightarrow> on_started s t
          | PeerAccepted \<Rightarrow> on_started (s\<lparr>peer := True\<rparr>) t
          | _ \<Rightarrow> None)
      | Active \<Rightarrow> (case e of
            PeerSent \<Rightarrow> on_sent s t
          | PeerReceived \<Rightarrow> on_received s t
          | PeerDisconnect \<Rightarrow> on_disconnect s t
          | _ \<Rightarrow> None)
      | Disconnected \<Rightarrow> None)"

definition nn_fsm_isidle :: "nn_sinproc \<Rightarrow> bool" where
  "nn_fsm_isidle s \<longleftrightarrow> fsm s = FsmIdle \<and> \<not> stopped s"

definition nn_fsm_start :: "nn_sinproc \<Rightarrow> nn_sinproc \<Rightarrow> (nn_sinproc \<times> nn_sinproc) option" where
  "nn_fsm_start s t =
     (if \<not> nn_fsm_isidle s then None
      else do {
        (s', t') \<leftarrow> nn_sinproc_handler Start s t;
        Some (s'\<lparr>fsm := FsmActive\<rparr>, t') })"

definition nn_fsm_stop :: "nn_sinproc \<Rightarrow> nn_sinproc \<Rightarrow> (nn_sinproc \<times> nn_sinproc) option" where
  "nn_fsm_stop s t =
     (if fsm s \<noteq> FsmActive then Some (s, t) else nn_sinproc_handler Stop (s\<lparr>fsm := FsmStopping\<rparr>) t)"

definition nn_sinproc_stop :: "nn_sinproc \<Rightarrow> nn_sinproc \<Rightarrow> (nn_sinproc \<times> nn_sinproc) option" where
  "nn_sinproc_stop s t = nn_fsm_stop s t"

definition nn_sinproc_isidle :: "nn_sinproc \<Rightarrow> bool" where
  "nn_sinproc_isidle s = nn_fsm_isidle s"

text \<open>Terminating releases the queue; no event may be in a queue, and the pipe and the state machine must be idle.\<close>

definition nn_pipebase_term :: "nn_pipebase \<Rightarrow> unit option" where
  "nn_pipebase_term b = (if pipe_state b = PipeIdle \<and> \<not> event_out b \<and> \<not> event_in b then Some () else None)"

definition nn_sinproc_term :: "nn_sinproc \<Rightarrow> chunk_heap option" where
  "nn_sinproc_term s =
     (if event_disconnect s \<or> event_received s \<or> event_sent s \<or> event_connect s \<noteq> None then None
      else do {
        h \<leftarrow> nn_msgqueue_term (fst (msgqueue s)) (snd (msgqueue s));
        _ \<leftarrow> nn_pipebase_term (pipebase s);
        (if nn_fsm_isidle s then Some h else None) })"

definition raise_connect :: "connect_event \<Rightarrow> nn_sinproc \<Rightarrow> nn_sinproc option" where
  "raise_connect e s = do { _ \<leftarrow> nn_queue_push (event_connect s \<noteq> None); Some (s\<lparr>event_connect := Some e\<rparr>) }"

definition nn_sinproc_connect :: "nn_sinproc \<Rightarrow> nn_sinproc \<Rightarrow> (nn_sinproc \<times> nn_sinproc) option" where
  "nn_sinproc_connect s t = do {
     (s1, t1) \<leftarrow> nn_fsm_start s t;
     s2 \<leftarrow> raise_connect CONNECT s1;
     Some (s2, t1) }"

definition nn_sinproc_accept :: "nn_sinproc \<Rightarrow> nn_sinproc \<Rightarrow> (nn_sinproc \<times> nn_sinproc) option" where
  "nn_sinproc_accept s t =
     (if peer s then None
      else do {
        s1 \<leftarrow> raise_connect ACCEPTED (s\<lparr>peer := True\<rparr>);
        (s2, t2) \<leftarrow> nn_fsm_start s1 t;
        nn_sinproc_handler ActionAccepted s2 t2 })"

section \<open>A pair of sessions\<close>

text \<open>
  A pair has the session that connects, \<^term>\<open>False\<close>, and the one that accepts, \<^term>\<open>True\<close>. Each socket sends on
  its pipe only after the event OUT and until a send says RELEASE, and receives only after the event IN and
  until a receive says RELEASE; \<open>writable\<close> and \<open>readable\<close> say whether it may. What was sent and received at
  each end is recorded.
\<close>

record pair =
  ends :: "bool \<Rightarrow> nn_sinproc"
  writable :: "bool \<Rightarrow> bool"
  readable :: "bool \<Rightarrow> bool"
  sent :: "bool \<Rightarrow> nn_msg list"
  got :: "bool \<Rightarrow> nn_msg list"

datatype act = Sends bool nn_msg | Receives bool | Handles bool event | HandlesIn bool | HandlesOut bool

definition set_ends :: "bool \<Rightarrow> nn_sinproc \<times> nn_sinproc \<Rightarrow> pair \<Rightarrow> pair" where
  "set_ends i st p = p\<lparr>ends := (\<lambda>j. if j = i then fst st else snd st)\<rparr>"

definition set_pipe :: "bool \<Rightarrow> nn_pipebase \<Rightarrow> pair \<Rightarrow> pair" where
  "set_pipe i b p = p\<lparr>ends := (ends p)(i := (ends p i)\<lparr>pipebase := b\<rparr>)\<rparr>"

text \<open>An event leaves its queue when it is handled.\<close>

definition pop_event :: "event \<Rightarrow> bool \<Rightarrow> pair \<Rightarrow> (nn_sinproc \<times> nn_sinproc) option" where
  "pop_event e i p =
     (let s = ends p i; t = ends p (\<not> i) in
      case e of
        PeerAccepted \<Rightarrow> (if event_connect t = Some ACCEPTED then Some (s, t\<lparr>event_connect := None\<rparr>) else None)
      | PeerSent \<Rightarrow> (if event_sent s then Some (s\<lparr>event_sent := False\<rparr>, t) else None)
      | PeerReceived \<Rightarrow> (if event_received s then Some (s\<lparr>event_received := False\<rparr>, t) else None)
      | PeerDisconnect \<Rightarrow> (if event_disconnect s then Some (s\<lparr>event_disconnect := False\<rparr>, t) else None)
      | _ \<Rightarrow> None)"

text \<open>No history has \<open>2 ^ 64\<close> messages.\<close>

fun enabled :: "pair \<Rightarrow> act \<Rightarrow> bool" where
  "enabled p (Sends i m) \<longleftrightarrow> writable p i \<and> Suc (length (sent p i)) < 2 ^ 64"
| "enabled p (Receives i) \<longleftrightarrow> readable p i"
| "enabled p (Handles i e) \<longleftrightarrow> pop_event e i p \<noteq> None"
| "enabled p (HandlesIn i) \<longleftrightarrow> event_in (pipebase (ends p i))"
| "enabled p (HandlesOut i) \<longleftrightarrow> event_out (pipebase (ends p i))"

fun pair_step :: "act \<Rightarrow> pair \<Rightarrow> pair option" where
  "pair_step (Sends i m) p = do {
     (rc, s, t) \<leftarrow> nn_pipe_send m (ends p i) (ends p (\<not> i));
     Some (set_ends i (s, t) p
       \<lparr>writable := (writable p)(i := rc AND NN_PIPEBASE_RELEASE = 0), sent := (sent p)(i := sent p i @ [m])\<rparr>) }"
| "pair_step (Receives i) p = do {
     (rc, m, s, t) \<leftarrow> nn_pipe_recv (ends p i) (ends p (\<not> i));
     Some (set_ends i (s, t) p
       \<lparr>readable := (readable p)(i := rc AND NN_PIPEBASE_RELEASE = 0), got := (got p)(i := got p i @ [m])\<rparr>) }"
| "pair_step (Handles i e) p = do {
     (s, t) \<leftarrow> pop_event e i p;
     st \<leftarrow> nn_sinproc_handler e s t;
     Some (set_ends i st p) }"
| "pair_step (HandlesIn i) p =
     Some (set_pipe i ((pipebase (ends p i))\<lparr>event_in := False\<rparr>) p\<lparr>readable := (readable p)(i := True)\<rparr>)"
| "pair_step (HandlesOut i) p =
     Some (set_pipe i ((pipebase (ends p i))\<lparr>event_out := False\<rparr>) p\<lparr>writable := (writable p)(i := True)\<rparr>)"

text \<open>
  The first session asks to connect; its request makes the other side create a session that accepts, which
  raises the acceptance for the first.
\<close>

definition accepting :: "(bool \<Rightarrow> size_t) \<Rightarrow> (bool \<Rightarrow> nat) \<Rightarrow> pair option" where
  "accepting mx n = do {
     (s, t) \<leftarrow> nn_sinproc_connect (nn_sinproc_init (mx False) (n False)) (nn_sinproc_init (mx True) (n True));
     (t', s') \<leftarrow> nn_sinproc_accept t (s\<lparr>event_connect := None\<rparr>);
     Some \<lparr>ends = (\<lambda>i. if i then t' else s'), writable = (\<lambda>_. False), readable = (\<lambda>_. False),
       sent = (\<lambda>_. []), got = (\<lambda>_. [])\<rparr> }"

definition connected :: "(bool \<Rightarrow> size_t) \<Rightarrow> (bool \<Rightarrow> nat) \<Rightarrow> pair option" where
  "connected mx n = do { p \<leftarrow> accepting mx n; pair_step (Handles False PeerAccepted) p }"

inductive reachable :: "(bool \<Rightarrow> size_t) \<Rightarrow> pair \<Rightarrow> bool" for mx where
  connected: "connected mx n = Some p \<Longrightarrow> reachable mx p"
| step: "reachable mx p \<Longrightarrow> enabled p a \<Longrightarrow> pair_step a p = Some p' \<Longrightarrow> reachable mx p'"

section \<open>The invariant\<close>

text \<open>
  A message on its way from one session to the other passes four phases: none is on its way, the event SENT
  is pending, the message lingers because the queue is full, the event RECEIVED is pending.
\<close>

datatype phase = Ready | Offered | Lingering | Acknowledged

definition in_phase :: "phase \<Rightarrow> nn_sinproc \<Rightarrow> nn_sinproc \<Rightarrow> bool" where
  "in_phase ph s t \<longleftrightarrow> flag_sending s = (ph \<noteq> Ready) \<and> event_sent t = (ph = Offered) \<and>
     flag_receiving t = (ph = Lingering) \<and> event_received s = (ph = Acknowledged)"

definition on_its_way :: "phase \<Rightarrow> nn_sinproc \<Rightarrow> nn_msg list" where
  "on_its_way ph s = (if ph = Offered \<or> ph = Lingering then [msg s] else [])"

definition out_ok :: "phase \<Rightarrow> nn_pipebase \<Rightarrow> bool \<Rightarrow> bool" where
  "out_ok ph b w \<longleftrightarrow>
     (if ph = Ready then outstate b = OutIdle \<and> w \<noteq> event_out b else outstate b = OutAsync \<and> \<not> w \<and> \<not> event_out b)"

definition in_ok :: "nn_msg list \<Rightarrow> nn_pipebase \<Rightarrow> bool \<Rightarrow> bool" where
  "in_ok q b r \<longleftrightarrow>
     (if q = [] then instate b = InAsync \<and> \<not> r \<and> \<not> event_in b else instate b = InIdle \<and> r \<noteq> event_in b)"

definition direction_ok ::
  "size_t \<Rightarrow> phase \<Rightarrow> nn_msg list \<Rightarrow> nn_sinproc \<Rightarrow> nn_sinproc \<Rightarrow> bool \<Rightarrow> bool \<Rightarrow> nn_msg list \<Rightarrow> nn_msg list \<Rightarrow> bool" where
  "direction_ok mx ph q s t w r sn gt \<longleftrightarrow> in_phase ph s t \<and> (ph = Lingering \<longrightarrow> q \<noteq> []) \<and> out_ok ph (pipebase s) w \<and>
     in_ok q (pipebase t) r \<and> mq_state mx (msgqueue t) q \<and> sn = gt @ q @ on_its_way ph s \<and> length sn < 2 ^ 64"

definition joined :: "nn_sinproc \<Rightarrow> bool" where
  "joined s \<longleftrightarrow> state s = Active \<and> peer s \<and> fsm s = FsmActive \<and> pipe_state (pipebase s) = PipeActive \<and>
     event_connect s = None \<and> \<not> event_disconnect s \<and> \<not> stopped s"

definition direction :: "(bool \<Rightarrow> size_t) \<Rightarrow> phase \<Rightarrow> nn_msg list \<Rightarrow> bool \<Rightarrow> pair \<Rightarrow> bool" where
  "direction mx ph q i p \<longleftrightarrow> direction_ok (mx (\<not> i)) ph q (ends p i) (ends p (\<not> i)) (writable p i) (readable p (\<not> i)) (sent p i) (got p (\<not> i))"

definition pair_ok :: "(bool \<Rightarrow> size_t) \<Rightarrow> pair \<Rightarrow> bool" where
  "pair_ok mx p \<longleftrightarrow> (\<forall>i. joined (ends p i) \<and> (\<exists>ph q. direction mx ph q i p))"

text \<open>A direction depends on one half of each session only.\<close>

definition out_view :: "nn_sinproc \<Rightarrow> bool \<times> bool \<times> nn_msg \<times> out_state \<times> bool" where
  "out_view s = (flag_sending s, event_received s, msg s, outstate (pipebase s), event_out (pipebase s))"

definition in_view :: "nn_sinproc \<Rightarrow> bool \<times> bool \<times> (nn_msgqueue \<times> chunk_heap) \<times> in_state \<times> bool" where
  "in_view t = (event_sent t, flag_receiving t, msgqueue t, instate (pipebase t), event_in (pipebase t))"

lemmas view_defs = out_view_def in_view_def joined_def set_outstate_def set_instate_def

lemmas direction_defs = direction_ok_def in_phase_def on_its_way_def out_ok_def in_ok_def

lemma direction_cong:
  assumes "out_view s' = out_view s" and "in_view t' = in_view t"
  shows "direction_ok mx ph q s' t' w r sn gt = direction_ok mx ph q s t w r sn gt"
  using assms by (simp add: direction_defs view_defs)

text \<open>What a step in one direction leaves of the other and of the two sessions.\<close>

definition frame :: "nn_sinproc \<Rightarrow> nn_sinproc \<Rightarrow> nn_sinproc \<Rightarrow> nn_sinproc \<Rightarrow> bool" where
  "frame s t s' t' \<longleftrightarrow> in_view s' = in_view s \<and> out_view t' = out_view t \<and> (joined s \<longrightarrow> joined s') \<and> (joined t \<longrightarrow> joined t')"

lemma mq_empty_iff:
  assumes "mq_state mx s q" and "length q < 2 ^ 64"
  shows "nn_msgqueue_empty (fst s) \<longleftrightarrow> q = []"
  using count_pos [OF assms(2)] assms(1) by (auto simp: nn_msgqueue_empty_def mq_state_def mq_rep_def)

lemma nn_pipe_send_ok:
  assumes d: "direction_ok mx ph q s t True r sn gt" and j: "joined s" and n: "Suc (length sn) < 2 ^ 64"
  shows "ph = Ready" and "\<exists>s' t'. nn_pipe_send m s t = Some (NN_PIPEBASE_RELEASE, s', t') \<and>
    direction_ok mx Offered q s' t' False r (sn @ [m]) gt \<and> frame s t s' t'"
proof -
  show ph: "ph = Ready" using d by (auto simp: direction_defs split: if_splits)
  have f: "\<not> flag_sending s" "\<not> event_sent t" "outstate (pipebase s) = OutIdle" using d ph by (simp_all add: direction_defs)
  let ?s = "set_outstate OutAsync (set_outstate OutSending s\<lparr>msg := m, flag_sending := True\<rparr>)"
  let ?t = "t\<lparr>event_sent := True\<rparr>"
  have "nn_pipe_send m s t = Some (NN_PIPEBASE_RELEASE, ?s, ?t)"
    using f j by (simp add: nn_pipe_send_def nn_sinproc_send_def raise_sent_def nn_queue_push_def view_defs)
  moreover have "direction_ok mx Offered q ?s ?t False r (sn @ [m]) gt"
    using d n ph by (simp add: direction_defs view_defs)
  moreover have "frame s t ?s ?t" by (simp add: frame_def view_defs)
  ultimately show "\<exists>s' t'. nn_pipe_send m s t = Some (NN_PIPEBASE_RELEASE, s', t') \<and>
      direction_ok mx Offered q s' t' False r (sn @ [m]) gt \<and> frame s t s' t'" by blast
qed

lemma on_received_ok:
  assumes d: "direction_ok mx ph q s t w r sn gt" and e: "event_received s"
  shows "ph = Acknowledged" and "\<exists>s'. on_received (s\<lparr>event_received := False\<rparr>) t = Some (s', t) \<and>
    direction_ok mx Ready q s' t w r sn gt \<and> frame s t s' t \<and> event_out (pipebase s')"
proof -
  show ph: "ph = Acknowledged" using d e by (simp add: direction_defs)
  let ?s = "s\<lparr>event_received := False, pipebase := (pipebase s)\<lparr>outstate := OutIdle, event_out := True\<rparr>, flag_sending := False\<rparr>"
  have "on_received (s\<lparr>event_received := False\<rparr>) t = Some (?s, t)"
    using d ph by (simp add: direction_defs on_received_def nn_pipebase_sent_def nn_queue_push_def)
  moreover have "direction_ok mx Ready q ?s t w r sn gt" using d ph by (auto simp: direction_defs)
  moreover have "frame s t ?s t" by (simp add: frame_def view_defs)
  ultimately show "\<exists>s'. on_received (s\<lparr>event_received := False\<rparr>) t = Some (s', t) \<and>
      direction_ok mx Ready q s' t w r sn gt \<and> frame s t s' t \<and> event_out (pipebase s')" by fastforce
qed

lemma on_sent_ok:
  assumes d: "direction_ok mx ph q s t w r sn gt" and e: "event_sent t" and j: "peer t"
  shows "ph = Offered" and "\<exists>t' s'. on_sent (t\<lparr>event_sent := False\<rparr>) s = Some (t', s') \<and>
    direction_ok mx (if mq_full mx (msg s) q then Lingering else Acknowledged)
      (if mq_full mx (msg s) q then q else q @ [msg s]) s' t' w r sn gt \<and> frame s t s' t'"
proof -
  show ph: "ph = Offered" using d e by (simp add: direction_defs)
  have l: "length q < 2 ^ 64" "mq_state mx (msgqueue t) q" using d by (auto simp: direction_defs)
  obtain q' where q': "mq_send (msg s) (msgqueue t) = Some (if mq_full mx (msg s) q then -EAGAIN else 0, q')"
    "mq_state mx q' (if mq_full mx (msg s) q then q else q @ [msg s])" using mq.send_law [OF l(2,1)] by blast
  show "\<exists>t' s'. on_sent (t\<lparr>event_sent := False\<rparr>) s = Some (t', s') \<and>
    direction_ok mx (if mq_full mx (msg s) q then Lingering else Acknowledged)
      (if mq_full mx (msg s) q then q else q @ [msg s]) s' t' w r sn gt \<and> frame s t s' t'"
  proof (cases "mq_full mx (msg s) q")
    case True
    then have "q \<noteq> []" by (auto simp: mq_full_def)
    moreover have "on_sent (t\<lparr>event_sent := False\<rparr>) s = Some (t\<lparr>event_sent := False, msgqueue := q', flag_receiving := True\<rparr>, s)"
      using q' True j by (simp add: on_sent_def)
    ultimately show ?thesis using d ph q' True by (auto simp: direction_defs frame_def view_defs)
  next
    case False
    let ?b = "if q = [] then (pipebase t)\<lparr>instate := InIdle, event_in := True\<rparr> else pipebase t"
    let ?t = "t\<lparr>event_sent := False, msgqueue := q', pipebase := ?b\<rparr>"
    let ?s = "s\<lparr>msg := nn_msg_init, event_received := True\<rparr>"
    have "nn_msgqueue_empty (fst (msgqueue t)) \<longleftrightarrow> q = []" by (rule mq_empty_iff [OF l(2,1)])
    then have "on_sent (t\<lparr>event_sent := False\<rparr>) s = Some (?t, ?s)"
      using q' False j d ph by (simp add: on_sent_def EAGAIN_def direction_defs nn_pipebase_received_def raise_received_def nn_queue_push_def)
    moreover have "direction_ok mx Acknowledged (q @ [msg s]) ?s ?t w r sn gt" using d ph q' False by (auto simp: direction_defs split: if_splits)
    moreover have "frame s t ?s ?t" by (simp add: frame_def view_defs)
    ultimately show ?thesis using False by simp
  qed
qed

definition taken :: "size_t \<Rightarrow> phase \<Rightarrow> nn_msg list \<Rightarrow> nn_sinproc \<Rightarrow> bool" where
  "taken mx ph q s \<longleftrightarrow> ph = Lingering \<and> \<not> mq_full mx (msg s) q"

lemma take_lingering_ok:
  assumes ph: "in_phase ph s t" and q: "mq_state mx (msgqueue t) q" "length q < 2 ^ 64" and j: "state t = Active" "peer t"
  shows "\<exists>c. take_lingering t s = Some (t\<lparr>msgqueue := c, flag_receiving := (ph = Lingering \<and> \<not> taken mx ph q s)\<rparr>,
      if taken mx ph q s then s\<lparr>msg := nn_msg_init, event_received := True\<rparr> else s) \<and>
    mq_state mx c (if taken mx ph q s then q @ [msg s] else q)"
proof (cases "ph = Lingering")
  case False
  then have "take_lingering t s = Some (t\<lparr>msgqueue := msgqueue t, flag_receiving := False\<rparr>, s)"
    using ph by (simp add: take_lingering_def in_phase_def)
  then show ?thesis using False q(1) by (intro exI [of _ "msgqueue t"]) (simp add: taken_def)
next
  case True
  obtain c where c: "mq_send (msg s) (msgqueue t) = Some (if mq_full mx (msg s) q then -EAGAIN else 0, c)"
    "mq_state mx c (if mq_full mx (msg s) q then q else q @ [msg s])" using mq.send_law [OF q] by blast
  have "flag_receiving t" "\<not> event_received s" using ph True by (simp_all add: in_phase_def)
  then have "take_lingering t s = Some (t\<lparr>msgqueue := c, flag_receiving := (ph = Lingering \<and> \<not> taken mx ph q s)\<rparr>,
      if taken mx ph q s then s\<lparr>msg := nn_msg_init, event_received := True\<rparr> else s)"
    using c(1) j True by (simp add: take_lingering_def taken_def raise_received_def nn_queue_push_def EAGAIN_def)
  then show ?thesis using c(2) True by (intro exI [of _ c]) (simp add: taken_def split: if_splits)
qed

lemma nn_pipe_recv_ok:
  assumes d: "direction_ok mx ph q s t w True sn gt" and j: "joined t"
  shows "q \<noteq> []" and "\<exists>ph' q' t' s'. nn_pipe_recv t s = Some (if q' = [] then NN_PIPEBASE_PARSED OR NN_PIPEBASE_RELEASE else NN_PIPEBASE_PARSED, hd q, t', s') \<and>
    (ph', q') = (if taken mx ph (tl q) s then (Acknowledged, tl q @ [msg s]) else (ph, tl q)) \<and>
    direction_ok mx ph' q' s' t' w (q' \<noteq> []) sn (gt @ [hd q]) \<and> frame s t s' t'"
proof -
  show ne: "q \<noteq> []" using d by (auto simp: direction_defs split: if_splits)
  then obtain m r where q: "q = m # r" by (cases q) auto
  have a: "mq_state mx (msgqueue t) (m # r)" "length (m # r) < 2 ^ 64" "instate (pipebase t) = InIdle" "in_phase ph s t"
    using d q by (auto simp: direction_defs)
  obtain c where c: "mq_recv (msgqueue t) = Some (0, Some m, c)" "mq_state mx c r" using mq.recv_some [OF a(1,2)] by blast
  let ?k = "taken mx ph r s" and ?t1 = "set_instate InReceiving t\<lparr>msgqueue := c\<rparr>"
  let ?q = "if ?k then r @ [msg s] else r" and ?s = "if ?k then s\<lparr>msg := nn_msg_init, event_received := True\<rparr> else s"
  have p1: "in_phase ph s ?t1" "state ?t1 = Active" "peer ?t1" "mq_state mx (msgqueue ?t1) r" "length r < 2 ^ 64"
    using a j c by (simp_all add: in_phase_def view_defs)
  obtain e where e: "take_lingering ?t1 s = Some (?t1\<lparr>msgqueue := e, flag_receiving := (ph = Lingering \<and> \<not> ?k)\<rparr>, ?s)"
    "mq_state mx e ?q" using take_lingering_ok [OF p1(1,4,5,2,3)] by blast
  have "length ?q < 2 ^ 64" using a(2) by simp
  then have em: "nn_msgqueue_empty (fst e) \<longleftrightarrow> ?q = []" using mq_empty_iff [OF e(2)] by blast
  let ?t = "set_instate (if ?q = [] then InAsync else InIdle) (t\<lparr>msgqueue := e, flag_receiving := (ph = Lingering \<and> \<not> ?k)\<rparr>)"
  have "nn_pipe_recv t s = Some (if ?q = [] then NN_PIPEBASE_PARSED OR NN_PIPEBASE_RELEASE else NN_PIPEBASE_PARSED, m, ?t, ?s)"
    using a(3) j c(1) e(1) em by (auto simp: nn_pipe_recv_def nn_sinproc_recv_def nn_pipebase_received_def view_defs)
  moreover have "direction_ok mx (if ?k then Acknowledged else ph) ?q ?s ?t w (?q \<noteq> []) sn (gt @ [m])"
  proof (cases ?k)
    case True
    then show ?thesis using d e(2) q by (auto simp: taken_def direction_defs view_defs)
  next
    case False
    then have "ph = Lingering \<Longrightarrow> r \<noteq> []" by (auto simp: taken_def mq_full_def)
    then show ?thesis using d e(2) q False by (auto simp: direction_defs view_defs split: if_splits)
  qed
  moreover have "frame s t ?s ?t" by (simp add: frame_def view_defs)
  ultimately show "\<exists>ph' q' t' s'. nn_pipe_recv t s = Some (if q' = [] then NN_PIPEBASE_PARSED OR NN_PIPEBASE_RELEASE else NN_PIPEBASE_PARSED, hd q, t', s') \<and>
    (ph', q') = (if taken mx ph (tl q) s then (Acknowledged, tl q @ [msg s]) else (ph, tl q)) \<and>
    direction_ok mx ph' q' s' t' w (q' \<noteq> []) sn (gt @ [hd q]) \<and> frame s t s' t'"
    unfolding q by (intro exI [of _ "if ?k then Acknowledged else ph"] exI [of _ ?q] exI [of _ ?t] exI [of _ ?s]) simp
qed

subsection \<open>Steps of a pair\<close>

text \<open>The steps that are left until everything that was sent has been received, if nothing more is sent.\<close>

definition work_left :: "nn_sinproc \<Rightarrow> nn_sinproc \<Rightarrow> nat" where
  "work_left s t = 3 * unat (count (fst (msgqueue t))) + of_bool (event_in (pipebase t)) + of_bool (event_out (pipebase s)) +
     (if event_sent t then 7 else if flag_receiving t then 3 else if event_received s then 2 else 0)"

definition work :: "pair \<Rightarrow> nat" where
  "work p = work_left (ends p False) (ends p True) + work_left (ends p True) (ends p False)"

lemma work_cong: "out_view s' = out_view s \<Longrightarrow> in_view t' = in_view t \<Longrightarrow> work_left s' t' = work_left s t"
  by (simp add: work_left_def view_defs)

lemma work_either: "work p = work_left (ends p i) (ends p (\<not> i)) + work_left (ends p (\<not> i)) (ends p i)"
  by (cases i) (simp_all add: work_def)

lemma work_left_eq:
  assumes "direction_ok mx ph q s t w r sn gt"
  shows "work_left s t = 3 * length q + of_bool (event_in (pipebase t)) + of_bool (event_out (pipebase s)) +
    (case ph of Ready \<Rightarrow> 0 | Offered \<Rightarrow> 7 | Lingering \<Rightarrow> 3 | Acknowledged \<Rightarrow> 2)"
proof -
  have "unat (count (fst (msgqueue t))) = length q" using assms
    by (auto simp: direction_ok_def mq_state_def mq_rep_def unat_of_nat take_bit_nat_eq_self)
  then show ?thesis using assms by (cases ph) (simp_all add: work_left_def direction_ok_def in_phase_def)
qed

lemma pair_okE:
  assumes "pair_ok mx p"
  obtains ph q where "joined (ends p i)" "joined (ends p (\<not> i))" "direction mx ph q i p"
  using assms unfolding pair_ok_def by blast

lemma pair_step_frame:
  assumes ok: "pair_ok mx p" and f: "frame (ends p i) (ends p (\<not> i)) (ends p' i) (ends p' (\<not> i))"
    and d: "direction mx ph q i p'"
    and e: "writable p' (\<not> i) = writable p (\<not> i)" "readable p' i = readable p i" "sent p' (\<not> i) = sent p (\<not> i)" "got p' i = got p i"
  shows "pair_ok mx p'" and "work_left (ends p i) (ends p (\<not> i)) > work_left (ends p' i) (ends p' (\<not> i)) \<Longrightarrow> work p' < work p"
proof -
  have v: "out_view (ends p' (\<not> i)) = out_view (ends p (\<not> i))" "in_view (ends p' i) = in_view (ends p i)" using f by (simp_all add: frame_def)
  obtain ph2 q2 where "direction mx ph2 q2 (\<not> i) p" using ok unfolding pair_ok_def by blast
  then have d2: "direction mx ph2 q2 (\<not> i) p'" using direction_cong [OF v] e by (simp add: direction_def)
  have j: "joined (ends p' i)" "joined (ends p' (\<not> i))" using ok f by (simp_all add: pair_ok_def frame_def)
  have "joined (ends p' k) \<and> (\<exists>ph q. direction mx ph q k p')" for k
    using d d2 j by (cases "k = i") auto
  then show "pair_ok mx p'" by (simp add: pair_ok_def)
  show "work_left (ends p i) (ends p (\<not> i)) > work_left (ends p' i) (ends p' (\<not> i)) \<Longrightarrow> work p' < work p"
    using work_cong [OF v] by (simp add: work_either [of _ i])
qed

definition is_send :: "act \<Rightarrow> bool" where
  "is_send a \<longleftrightarrow> (\<exists>i m. a = Sends i m)"

definition goes_well :: "(bool \<Rightarrow> size_t) \<Rightarrow> act \<Rightarrow> pair \<Rightarrow> bool" where
  "goes_well mx a p \<longleftrightarrow> (\<exists>p'. pair_step a p = Some p' \<and> pair_ok mx p' \<and> (is_send a \<or> work p' < work p))"

lemma goes_wellI:
  assumes "pair_ok mx p" and "pair_step a p = Some p'"
    and "frame (ends p i) (ends p (\<not> i)) (ends p' i) (ends p' (\<not> i))" and "direction mx ph q i p'"
    and "writable p' (\<not> i) = writable p (\<not> i)" "readable p' i = readable p i" "sent p' (\<not> i) = sent p (\<not> i)" "got p' i = got p i"
    and "is_send a \<or> work_left (ends p' i) (ends p' (\<not> i)) < work_left (ends p i) (ends p (\<not> i))"
  shows "goes_well mx a p"
  using pair_step_frame [OF assms(1,3-8)] assms(2,9) by (auto simp: goes_well_def)

lemma send_goes_well:
  assumes ok: "pair_ok mx p" and e: "enabled p (Sends i m)"
  shows "goes_well mx (Sends i m) p"
proof -
  obtain ph q where j: "joined (ends p i)" "direction mx ph q i p" using ok by (rule pair_okE)
  obtain s t where st: "nn_pipe_send m (ends p i) (ends p (\<not> i)) = Some (NN_PIPEBASE_RELEASE, s, t)"
    "direction_ok (mx (\<not> i)) Offered q s t False (readable p (\<not> i)) (sent p i @ [m]) (got p (\<not> i))" "frame (ends p i) (ends p (\<not> i)) s t"
    using nn_pipe_send_ok(2) [of "mx (\<not> i)" ph q "ends p i" "ends p (\<not> i)"] j e by (fastforce simp: direction_def)
  let ?p = "set_ends i (s, t) p\<lparr>writable := (writable p)(i := False), sent := (sent p)(i := sent p i @ [m])\<rparr>"
  have "pair_step (Sends i m) p = Some ?p" using st(1) by (simp add: NN_PIPEBASE_RELEASE_def)
  then show ?thesis
    by (rule goes_wellI [where i = i and ph = Offered and q = q, OF ok])
      (use st in \<open>simp_all add: set_ends_def direction_def is_send_def\<close>)
qed

lemma receive_goes_well:
  assumes ok: "pair_ok mx p" and e: "enabled p (Receives (\<not> i))"
  shows "goes_well mx (Receives (\<not> i)) p"
proof -
  let ?s = "ends p i" and ?t = "ends p (\<not> i)"
  obtain ph q where j: "joined ?t" "direction mx ph q i p" using ok by (rule pair_okE)
  have d: "direction_ok (mx (\<not> i)) ph q ?s ?t (writable p i) True (sent p i) (got p (\<not> i))" using j(2) e by (simp add: direction_def)
  obtain ph' q' t s where st: "nn_pipe_recv ?t ?s = Some (if q' = [] then NN_PIPEBASE_PARSED OR NN_PIPEBASE_RELEASE else NN_PIPEBASE_PARSED, hd q, t, s)"
    "(ph', q') = (if taken (mx (\<not> i)) ph (tl q) ?s then (Acknowledged, tl q @ [msg ?s]) else (ph, tl q))"
    "direction_ok (mx (\<not> i)) ph' q' s t (writable p i) (q' \<noteq> []) (sent p i) (got p (\<not> i) @ [hd q])" "frame ?s ?t s t"
    using nn_pipe_recv_ok(2) [OF d j(1)] by blast
  have "q \<noteq> []" by (rule nn_pipe_recv_ok(1) [OF d j(1)])
  moreover have "event_in (pipebase t) = False" using st(3) by (auto simp: direction_defs split: if_splits)
  moreover have "out_ok ph (pipebase ?s) (writable p i)" "out_ok ph' (pipebase s) (writable p i)" using d st(3) by (simp_all add: direction_ok_def)
  ultimately have w: "work_left s t < work_left ?s ?t"
    using st(2) by (cases q) (auto simp: work_left_eq [OF d] work_left_eq [OF st(3)] taken_def out_ok_def split: if_splits phase.splits)
  let ?p = "set_ends (\<not> i) (t, s) p\<lparr>readable := (readable p)((\<not> i) := (q' \<noteq> [])), got := (got p)((\<not> i) := got p (\<not> i) @ [hd q])\<rparr>"
  have "pair_step (Receives (\<not> i)) p = Some ?p" using st(1) by (simp add: NN_PIPEBASE_RELEASE_def NN_PIPEBASE_PARSED_def)
  then show ?thesis
    by (rule goes_wellI [where i = i and ph = ph' and q = q', OF ok])
      (use st(3,4) w in \<open>simp_all add: set_ends_def direction_def\<close>)
qed

lemma sent_goes_well:
  assumes ok: "pair_ok mx p" and e: "event_sent (ends p (\<not> i))"
  shows "goes_well mx (Handles (\<not> i) PeerSent) p"
proof -
  let ?s = "ends p i" and ?t = "ends p (\<not> i)"
  obtain ph q where j: "joined ?s" "joined ?t" "direction mx ph q i p" using ok by (rule pair_okE)
  have d: "direction_ok (mx (\<not> i)) ph q ?s ?t (writable p i) (readable p (\<not> i)) (sent p i) (got p (\<not> i))" using j(3) by (simp add: direction_def)
  define full where "full = mq_full (mx (\<not> i)) (msg ?s) q"
  have ph: "ph = Offered" using on_sent_ok(1) [OF d e] j(2) by (simp add: joined_def)
  obtain t s where st: "on_sent (?t\<lparr>event_sent := False\<rparr>) ?s = Some (t, s)"
    "direction_ok (mx (\<not> i)) (if full then Lingering else Acknowledged) (if full then q else q @ [msg ?s]) s t
       (writable p i) (readable p (\<not> i)) (sent p i) (got p (\<not> i))" "frame ?s ?t s t"
    using on_sent_ok(2) [OF d e] j(2) unfolding full_def joined_def by blast
  have o: "\<not> event_out (pipebase s)" "\<not> event_out (pipebase ?s)" using d st(2) ph by (auto simp: direction_ok_def out_ok_def split: if_splits)
  have "full \<Longrightarrow> event_in (pipebase t) = event_in (pipebase ?t)"
    using d st(2) by (auto simp: direction_ok_def in_ok_def split: if_splits)
  then have w: "work_left s t < work_left ?s ?t" using o ph by (cases full) (simp_all add: work_left_eq [OF d] work_left_eq [OF st(2)])
  have "pair_step (Handles (\<not> i) PeerSent) p = Some (set_ends (\<not> i) (t, s) p)"
    using st(1) e j(2) by (simp add: pop_event_def nn_sinproc_handler_def joined_def)
  then show ?thesis
    by (rule goes_wellI [where i = i, OF ok]) (use st(2,3) w in \<open>simp_all add: set_ends_def direction_def\<close>)
qed

lemma received_goes_well:
  assumes ok: "pair_ok mx p" and e: "event_received (ends p i)"
  shows "goes_well mx (Handles i PeerReceived) p"
proof -
  let ?s = "ends p i" and ?t = "ends p (\<not> i)"
  obtain ph q where j: "joined ?s" "direction mx ph q i p" using ok by (rule pair_okE)
  have d: "direction_ok (mx (\<not> i)) ph q ?s ?t (writable p i) (readable p (\<not> i)) (sent p i) (got p (\<not> i))" using j(2) by (simp add: direction_def)
  obtain s where st: "on_received (?s\<lparr>event_received := False\<rparr>) ?t = Some (s, ?t)"
    "direction_ok (mx (\<not> i)) Ready q s ?t (writable p i) (readable p (\<not> i)) (sent p i) (got p (\<not> i))" "frame ?s ?t s ?t" "event_out (pipebase s)"
    using on_received_ok(2) [OF d e] by blast
  have w: "work_left s ?t < work_left ?s ?t"
    using st(4) on_received_ok(1) [OF d e] by (simp add: work_left_eq [OF d] work_left_eq [OF st(2)])
  have "pair_step (Handles i PeerReceived) p = Some (set_ends i (s, ?t) p)"
    using st(1) e j(1) by (simp add: pop_event_def nn_sinproc_handler_def joined_def)
  then show ?thesis
    by (rule goes_wellI [where i = i, OF ok]) (use st(2,3) w in \<open>simp_all add: set_ends_def direction_def\<close>)
qed

lemma in_goes_well:
  assumes ok: "pair_ok mx p" and e: "event_in (pipebase (ends p (\<not> i)))"
  shows "goes_well mx (HandlesIn (\<not> i)) p"
proof -
  obtain ph q where d: "direction mx ph q i p" using ok by (rule pair_okE)
  show ?thesis
    by (rule goes_wellI [where i = i and ph = ph and q = q, OF ok pair_step.simps(4)])
      (use d e in \<open>auto simp: set_pipe_def direction_def direction_defs frame_def view_defs work_left_def split: if_splits\<close>)
qed

lemma out_goes_well:
  assumes ok: "pair_ok mx p" and e: "event_out (pipebase (ends p i))"
  shows "goes_well mx (HandlesOut i) p"
proof -
  obtain ph q where d: "direction mx ph q i p" using ok by (rule pair_okE)
  show ?thesis
    by (rule goes_wellI [where i = i and ph = ph and q = q, OF ok pair_step.simps(5)])
      (use d e in \<open>auto simp: set_pipe_def direction_def direction_defs frame_def view_defs work_left_def split: if_splits\<close>)
qed

lemma every_step_goes_well:
  assumes ok: "pair_ok mx p" and e: "enabled p a"
  shows "goes_well mx a p"
proof (cases a)
  case (Sends i m)
  then show ?thesis using send_goes_well [OF ok] e by blast
next
  case (Receives i)
  then show ?thesis using receive_goes_well [OF ok, of "\<not> i"] e by simp
next
  case (Handles i x)
  have "event_connect (ends p (\<not> i)) = None" "\<not> event_disconnect (ends p i)" using ok by (simp_all add: pair_ok_def joined_def)
  then have "x = PeerSent \<and> event_sent (ends p i) \<or> x = PeerReceived \<and> event_received (ends p i)"
    using e Handles by (auto simp: pop_event_def Let_def split: event.splits if_splits)
  then show ?thesis using sent_goes_well [OF ok, of "\<not> i"] received_goes_well [OF ok, of i] Handles by auto
next
  case (HandlesIn i)
  then show ?thesis using in_goes_well [OF ok, of "\<not> i"] e by simp
next
  case (HandlesOut i)
  then show ?thesis using out_goes_well [OF ok] e by simp
qed

lemma connected_ok: "\<exists>p. connected mx n = Some p \<and> pair_ok mx p"
proof -
  let ?s = "\<lambda>i. (nn_sinproc_init (mx i) (n i))\<lparr>state := Active, fsm := FsmActive, peer := True,
    pipebase := \<lparr>pipe_state = PipeActive, instate = InAsync, outstate = OutIdle, event_in = False, event_out = True\<rparr>\<rparr>"
  let ?p = "\<lparr>ends = ?s, writable = (\<lambda>_. False), readable = (\<lambda>_. False), sent = (\<lambda>_. []), got = (\<lambda>_. [])\<rparr>"
  have "connected mx n = Some ?p"
    by (simp add: connected_def accepting_def nn_sinproc_connect_def nn_sinproc_accept_def nn_fsm_start_def nn_fsm_isidle_def
        nn_sinproc_handler_def on_started_def nn_pipebase_start_def nn_queue_push_def raise_connect_def nn_sinproc_init_def
        nn_pipebase_init_def pop_event_def set_ends_def fun_eq_iff)
  moreover have "direction mx Ready [] i ?p" for i
    using nn_msgqueue_init_ok by (simp add: direction_def direction_defs nn_sinproc_init_def)
  then have "pair_ok mx ?p" by (auto simp: pair_ok_def joined_def nn_sinproc_init_def)
  ultimately show ?thesis by blast
qed

lemma reachable_ok: "reachable mx p \<Longrightarrow> pair_ok mx p"
proof (induction rule: reachable.induct)
  case (connected n p)
  then show ?case using connected_ok [of mx n] by auto
next
  case (step p a p')
  then show ?case using every_step_goes_well [of mx p a] by (auto simp: goes_well_def)
qed

section \<open>Delivery\<close>

definition quiet :: "pair \<Rightarrow> bool" where
  "quiet p \<longleftrightarrow> (\<forall>a. enabled p a \<longrightarrow> is_send a)"

lemma quiet_delivered:
  assumes ok: "pair_ok mx p" and z: "quiet p"
  shows "got p (\<not> i) = sent p i" and "writable p i"
proof -
  obtain ph q where d: "direction mx ph q i p" using ok by (rule pair_okE)
  have z': "\<And>a. enabled p a \<Longrightarrow> is_send a" using z by (simp add: quiet_def)
  have n: "\<not> readable p (\<not> i)" "\<not> event_in (pipebase (ends p (\<not> i)))" "\<not> event_out (pipebase (ends p i))"
    "\<not> event_sent (ends p (\<not> i))" "\<not> event_received (ends p i)"
    using z' [of "Receives (\<not> i)"] z' [of "HandlesIn (\<not> i)"] z' [of "HandlesOut i"] z' [of "Handles (\<not> i) PeerSent"] z' [of "Handles i PeerReceived"]
    by (auto simp: is_send_def pop_event_def)
  have q: "q = []" using d n(1,2) by (auto simp: direction_def direction_defs split: if_splits)
  have "ph = Ready" using d n(4,5) q by (cases ph) (simp_all add: direction_def direction_defs)
  then show "got p (\<not> i) = sent p i" "writable p i" using d q n(3) by (auto simp: direction_def direction_defs)
qed

fun run_acts :: "act list \<Rightarrow> pair \<Rightarrow> pair option" where
  "run_acts [] p = Some p"
| "run_acts (a # as) p = (if enabled p a then do { p' \<leftarrow> pair_step a p; run_acts as p' } else None)"

lemma run_acts_reachable: "reachable mx p \<Longrightarrow> run_acts as p = Some p' \<Longrightarrow> reachable mx p'"
  by (induction as arbitrary: p) (auto split: if_splits bind_splits intro: reachable.step)

lemma run_acts_bounded:
  "pair_ok mx p \<Longrightarrow> \<forall>a \<in> set as. \<not> is_send a \<Longrightarrow> run_acts as p = Some p' \<Longrightarrow> length as + work p' \<le> work p"
proof (induction as arbitrary: p)
  case (Cons a as)
  then have e: "enabled p a" "\<not> is_send a" by (auto split: if_splits)
  obtain p1 where p1: "pair_step a p = Some p1" "pair_ok mx p1" "work p1 < work p"
    using every_step_goes_well [OF Cons.prems(1) e(1)] e(2) by (auto simp: goes_well_def)
  then show ?case using Cons.IH [OF p1(2)] Cons.prems e(1) by fastforce
qed simp

lemma non_send_keeps_sent: "pair_step a p = Some p' \<Longrightarrow> \<not> is_send a \<Longrightarrow> sent p' = sent p"
  by (cases a) (auto simp: is_send_def set_ends_def set_pipe_def split: bind_splits)

lemma runs_to_quiet:
  "pair_ok mx p \<Longrightarrow> \<exists>as p'. (\<forall>a \<in> set as. \<not> is_send a) \<and> run_acts as p = Some p' \<and> pair_ok mx p' \<and> quiet p' \<and> sent p' = sent p"
proof (induction "work p" arbitrary: p rule: less_induct)
  case less
  show ?case
  proof (cases "quiet p")
    case True
    then show ?thesis using less.prems by (intro exI [of _ "[]"]) simp
  next
    case False
    then obtain a where a: "enabled p a" "\<not> is_send a" by (auto simp: quiet_def)
    obtain p1 where p1: "pair_step a p = Some p1" "pair_ok mx p1" "work p1 < work p"
      using every_step_goes_well [OF less.prems a(1)] a(2) by (auto simp: goes_well_def)
    obtain as p' where "\<forall>a \<in> set as. \<not> is_send a" "run_acts as p1 = Some p'" "pair_ok mx p'" "quiet p'" "sent p' = sent p1"
      using less.hyps [OF p1(3,2)] by blast
    then show ?thesis using a p1(1) non_send_keeps_sent [OF p1(1) a(2)] by (intro exI [of _ "a # as"] exI [of _ p']) simp
  qed
qed

text \<open>
  C14: A connected pair of sessions delivers messages in order, without loss or duplication, whatever the order
  in which threads send, receive and handle pending events. In every reachable state, no step that can be
  taken fails an assertion, what one end has received is a prefix of what the other has sent, and if nothing
  is left to do but send, everything has been received and both ends may send.
\<close>

theorem inproc_delivers_in_order:
  assumes "reachable mx p"
  shows "(\<forall>a. enabled p a \<longrightarrow> pair_step a p \<noteq> None) \<and> (\<forall>i. \<exists>rest. sent p i = got p (\<not> i) @ rest) \<and>
    (quiet p \<longrightarrow> (\<forall>i. got p (\<not> i) = sent p i \<and> writable p i))"
proof -
  note ok = reachable_ok [OF assms]
  have "pair_step a p \<noteq> None" if "enabled p a" for a using every_step_goes_well [OF ok that] by (auto simp: goes_well_def)
  moreover have "\<exists>rest. sent p i = got p (\<not> i) @ rest" for i
    using ok by (auto simp: pair_ok_def direction_def direction_ok_def elim!: allE [of _ i])
  ultimately show ?thesis using quiet_delivered [OF ok] by blast
qed

text \<open>
  C17: A connected pair of sessions comes to rest. From every reachable state, at most \<^term>\<open>work p\<close> steps can be
  taken without a new message being sent, and there are steps after which everything that was sent at each
  end has been received at the other.
\<close>

theorem inproc_drains:
  assumes "reachable mx p"
  shows "(\<forall>as p'. (\<forall>a \<in> set as. \<not> is_send a) \<longrightarrow> run_acts as p = Some p' \<longrightarrow> length as \<le> work p) \<and>
    (\<exists>as p'. (\<forall>a \<in> set as. \<not> is_send a) \<and> run_acts as p = Some p' \<and> (\<forall>i. got p' (\<not> i) = sent p i))"
proof -
  note ok = reachable_ok [OF assms]
  obtain as p' where "\<forall>a \<in> set as. \<not> is_send a" "run_acts as p = Some p'" "pair_ok mx p'" "quiet p'" "sent p' = sent p"
    using runs_to_quiet [OF ok] by blast
  then have "\<exists>as p'. (\<forall>a \<in> set as. \<not> is_send a) \<and> run_acts as p = Some p' \<and> (\<forall>i. got p' (\<not> i) = sent p i)"
    using quiet_delivered(1) [of mx p'] by (intro exI [of _ as] exI [of _ p']) simp
  then show ?thesis using run_acts_bounded [OF ok] by fastforce
qed

lemma connected_reachable: "connected mx n = Some p \<Longrightarrow> run_acts as p = Some p' \<Longrightarrow> reachable mx p'"
  using run_acts_reachable reachable.connected by blast

lemmas inproc_eval = connected_def accepting_def nn_sinproc_connect_def nn_sinproc_accept_def nn_fsm_start_def nn_fsm_isidle_def
  nn_sinproc_handler_def on_started_def on_sent_def on_received_def nn_pipebase_start_def nn_pipebase_received_def nn_pipebase_sent_def
  nn_queue_push_def raise_connect_def raise_sent_def raise_received_def nn_sinproc_init_def nn_pipebase_init_def pop_event_def
  set_ends_def set_pipe_def set_instate_def set_outstate_def nn_pipe_send_def nn_sinproc_send_def nn_pipe_recv_def nn_sinproc_recv_def
  take_lingering_def NN_PIPEBASE_RELEASE_def NN_PIPEBASE_PARSED_def

lemmas msgqueue_eval = mq_send_def mq_recv_def nn_msgqueue_init_def nn_msgqueue_empty_def nn_msgqueue_send_def nn_msgqueue_recv_def
  alloc_chunk_def set_chunk_def set_cell_def get_cell_def NN_MSGQUEUE_GRANULARITY_def msg_size_def EAGAIN_def

lemma one_message_delivered:
  "\<exists>p p'. connected (\<lambda>_. 4) (\<lambda>_. 1) = Some p \<and>
     run_acts [HandlesOut False, Sends False \<lparr>hdr = [], body = [1, 2]\<rparr>, Handles True PeerSent, HandlesIn True, Receives True] p = Some p' \<and>
     sent p' False = [\<lparr>hdr = [], body = [1, 2]\<rparr>] \<and> got p' True = [\<lparr>hdr = [], body = [1, 2]\<rparr>] \<and> event_received (ends p' False)"
  by (simp add: inproc_eval msgqueue_eval)

theorem inproc_delivers_in_order_witness:
  "\<exists>p. reachable (\<lambda>_. 4) p \<and> got p True = [\<lparr>hdr = [], body = [1, 2]\<rparr>] \<and> (\<exists>rest. sent p False = got p True @ rest) \<and>
     enabled p (Handles False PeerReceived) \<and> pair_step (Handles False PeerReceived) p \<noteq> None"
proof -
  obtain p0 p where p: "connected (\<lambda>_. 4) (\<lambda>_. 1) = Some p0"
    "run_acts [HandlesOut False, Sends False \<lparr>hdr = [], body = [1, 2]\<rparr>, Handles True PeerSent, HandlesIn True, Receives True] p0 = Some p"
    "got p True = [\<lparr>hdr = [], body = [1, 2]\<rparr>]" "event_received (ends p False)"
    using one_message_delivered by blast
  have r: "reachable (\<lambda>_. 4) p" by (rule connected_reachable [OF p(1,2)])
  have "enabled p (Handles False PeerReceived)" using p(4) by (simp add: pop_event_def)
  moreover have "\<exists>rest. sent p False = got p True @ rest" using inproc_delivers_in_order [OF r] by (metis (full_types))
  ultimately show ?thesis using inproc_delivers_in_order [OF r] p(3) r by blast
qed

theorem inproc_drains_witness:
  "\<exists>p as p'. reachable (\<lambda>_. 4) p \<and> sent p False = [\<lparr>hdr = [], body = [1, 2]\<rparr>] \<and> run_acts as p = Some p' \<and> got p' True = sent p False"
proof -
  obtain p0 p where p: "connected (\<lambda>_. 4) (\<lambda>_. 1) = Some p0"
    "run_acts [HandlesOut False, Sends False \<lparr>hdr = [], body = [1, 2]\<rparr>, Handles True PeerSent, HandlesIn True, Receives True] p0 = Some p"
    "sent p False = [\<lparr>hdr = [], body = [1, 2]\<rparr>]"
    using one_message_delivered by blast
  have r: "reachable (\<lambda>_. 4) p" by (rule connected_reachable [OF p(1,2)])
  obtain as p' where "run_acts as p = Some p'" "\<forall>i. got p' (\<not> i) = sent p i" using inproc_drains [OF r] by blast
  then show ?thesis using r p(3) by (metis (full_types))
qed

section \<open>Stopping and starting\<close>

text \<open>
  A session that stops while a message or its acknowledgement is on its way to it fails an assertion when
  the event arrives, since a stopping session expects nothing but the other's DISCONNECT. From every reachable
  state the stop itself succeeds; a pending SENT or RECEIVED then fails; and the exchange of DISCONNECT leaves
  the session idle and stopped and the other disconnected.
\<close>

theorem stop_races_with_events:
  assumes "reachable mx p"
  shows "\<exists>st. nn_sinproc_stop (ends p i) (ends p (\<not> i)) = Some st \<and>
    (event_sent (ends p i) \<longrightarrow> enabled (set_ends i st p) (Handles i PeerSent) \<and> pair_step (Handles i PeerSent) (set_ends i st p) = None) \<and>
    (event_received (ends p i) \<longrightarrow> enabled (set_ends i st p) (Handles i PeerReceived) \<and> pair_step (Handles i PeerReceived) (set_ends i st p) = None) \<and>
    (\<exists>p'. run_acts [Handles (\<not> i) PeerDisconnect, Handles i PeerDisconnect] (set_ends i st p) = Some p' \<and>
       state (ends p' i) = Idle \<and> stopped (ends p' i) \<and> state (ends p' (\<not> i)) = Disconnected)"
proof -
  have j: "joined (ends p i)" "joined (ends p (\<not> i))" "\<not> stopped (ends p i)"
    using reachable_ok [OF assms] by (auto simp: pair_ok_def joined_def)
  let ?s = "ends p i" and ?t = "ends p (\<not> i)"
  let ?st = "(?s\<lparr>fsm := FsmStopping, pipebase := nn_pipebase_stop (pipebase ?s), state := Stopping\<rparr>, ?t\<lparr>event_disconnect := True\<rparr>)"
  have "nn_sinproc_stop ?s ?t = Some ?st"
    using j by (simp add: nn_sinproc_stop_def nn_fsm_stop_def nn_sinproc_handler_def on_stop_def raise_disconnect_def nn_queue_push_def joined_def)
  moreover have "event_sent ?s \<longrightarrow> enabled (set_ends i ?st p) (Handles i PeerSent) \<and> pair_step (Handles i PeerSent) (set_ends i ?st p) = None"
    by (simp add: pop_event_def set_ends_def nn_sinproc_handler_def)
  moreover have "event_received ?s \<longrightarrow> enabled (set_ends i ?st p) (Handles i PeerReceived) \<and> pair_step (Handles i PeerReceived) (set_ends i ?st p) = None"
    by (simp add: pop_event_def set_ends_def nn_sinproc_handler_def)
  moreover have "\<exists>p'. run_acts [Handles (\<not> i) PeerDisconnect, Handles i PeerDisconnect] (set_ends i ?st p) = Some p' \<and>
      state (ends p' i) = Idle \<and> stopped (ends p' i) \<and> state (ends p' (\<not> i)) = Disconnected"
    using j by (simp add: pop_event_def set_ends_def nn_sinproc_handler_def on_disconnect_def raise_disconnect_def nn_queue_push_def
        nn_fsm_stopped_def joined_def)
  ultimately show ?thesis by blast
qed

theorem stop_races_with_events_witness:
  "\<exists>p st. reachable (\<lambda>_. 4) p \<and> nn_sinproc_stop (ends p True) (ends p False) = Some st \<and>
     enabled (set_ends True st p) (Handles True PeerSent) \<and> pair_step (Handles True PeerSent) (set_ends True st p) = None"
proof -
  have "\<exists>p p'. connected (\<lambda>_. 4) (\<lambda>_. 1) = Some p \<and> run_acts [HandlesOut False, Sends False \<lparr>hdr = [], body = [1]\<rparr>] p = Some p' \<and>
      event_sent (ends p' True)"
    by (simp add: inproc_eval msgqueue_eval)
  then obtain p where p: "reachable (\<lambda>_. 4) p" "event_sent (ends p True)" using connected_reachable by blast
  then show ?thesis using stop_races_with_events [OF p(1), of True] by auto
qed

text \<open>A session that is stopped while it waits for the acceptance uses its null pointer to the other.\<close>

lemma stop_while_connecting: "\<exists>p. accepting mx n = Some p \<and> nn_sinproc_stop (ends p False) (ends p True) = None"
  by (simp add: inproc_eval nn_sinproc_stop_def nn_fsm_stop_def on_stop_def)

text \<open>
  C27: A session that accepts can send before the one that connects has seen the acceptance. If the event SENT
  is handled first, by another thread than the one on its way with the acceptance, an assertion fails: the
  connecting session expects nothing but the acceptance. Handled in the other order, the same events are in order.
\<close>

theorem accept_race_fails:
  "\<exists>p p'. accepting mx n = Some p \<and> run_acts [HandlesOut True, Sends True m] p = Some p' \<and>
     enabled p' (Handles False PeerSent) \<and> pair_step (Handles False PeerSent) p' = None \<and>
     (\<exists>p''. run_acts [Handles False PeerAccepted, Handles False PeerSent] p' = Some p'' \<and> reachable mx p'')"
proof -
  have "\<exists>p p' p'' p0. accepting mx n = Some p \<and> run_acts [HandlesOut True, Sends True m] p = Some p' \<and>
     enabled p' (Handles False PeerSent) \<and> pair_step (Handles False PeerSent) p' = None \<and>
     run_acts [Handles False PeerAccepted, Handles False PeerSent] p' = Some p'' \<and>
     connected mx n = Some p0 \<and> run_acts [HandlesOut True, Sends True m, Handles False PeerSent] p0 = Some p''"
    by (simp add: inproc_eval msgqueue_eval fun_eq_iff)
  then show ?thesis using connected_reachable by blast
qed

text \<open>
  Stopped at rest, both sessions go down in order: after the exchange of DISCONNECT and once the owner has seen
  that the session stopped, the session can be terminated and frees every chunk of its queue.
\<close>

lemma stop_at_rest_terminates:
  assumes r: "reachable mx p" and z: "quiet p"
  shows "\<exists>st p' h. nn_sinproc_stop (ends p i) (ends p (\<not> i)) = Some st \<and>
    run_acts [Handles (\<not> i) PeerDisconnect, Handles i PeerDisconnect] (set_ends i st p) = Some p' \<and>
    nn_sinproc_term ((ends p' i)\<lparr>stopped := False\<rparr>) = Some h \<and> blocks h = Map.empty"
proof -
  note ok = reachable_ok [OF r]
  let ?s = "ends p i" and ?t = "ends p (\<not> i)"
  have j: "joined ?s" "joined ?t" using ok by (auto simp: pair_ok_def)
  have e: "\<not> enabled p a" if "\<not> is_send a" for a using z that by (auto simp: quiet_def)
  have n: "\<not> event_in (pipebase ?s)" "\<not> event_out (pipebase ?s)" "\<not> event_sent ?s" "\<not> event_received ?s"
    using e [of "HandlesIn i"] e [of "HandlesOut i"] e [of "Handles i PeerSent"] e [of "Handles i PeerReceived"]
    by (auto simp: is_send_def pop_event_def)
  obtain ph q where "direction mx ph q (\<not> i) p" using ok by (rule pair_okE)
  then have q: "mq_rep (snd (msgqueue ?s)) (fst (msgqueue ?s)) q" "length q < 2 ^ 64" by (auto simp: direction_def direction_defs mq_state_def)
  obtain h where h: "nn_msgqueue_term (fst (msgqueue ?s)) (snd (msgqueue ?s)) = Some h" "blocks h = Map.empty"
    using nn_msgqueue_term_ok [OF q] by blast
  show ?thesis using j n h
    by (simp add: nn_sinproc_stop_def nn_fsm_stop_def nn_sinproc_handler_def on_stop_def raise_disconnect_def nn_queue_push_def joined_def
        pop_event_def set_ends_def on_disconnect_def nn_fsm_stopped_def nn_sinproc_term_def nn_pipebase_term_def nn_pipebase_stop_def nn_fsm_isidle_def)
qed

end
