(* ===== verification/Nnlist.thy ===== *)
theory Nnlist
  imports Ymem
begin

text \<open>
  The doubly linked lists of nanomsg, \<^verbatim>\<open>lib/nanomsg/src/utils/list.c\<close>. The links are members of the objects in a
  list, so a heap holds the objects and the record of links can be extended by their other members.
  \<^term>\<open>None\<close> is a failed assertion or the use of an object that is not there.
\<close>

section \<open>The structure\<close>

datatype link = NotInList | Null | Item nat

record nn_list_item =
  prev :: link
  nxt :: link

type_synonym 'a objects = "nat \<rightharpoonup> 'a nn_list_item_scheme"

record nn_list =
  first :: "nat option"
  last_item :: "nat option"

definition link_of :: "nat option \<Rightarrow> link" where
  "link_of p = (case p of None \<Rightarrow> Null | Some a \<Rightarrow> Item a)"

text \<open>Reading a link as a pointer: the mark of an item outside every list is no address.\<close>

fun pointer :: "link \<Rightarrow> nat option option" where
  "pointer NotInList = None"
| "pointer Null = Some None"
| "pointer (Item a) = Some (Some a)"

section \<open>The operations\<close>

definition nn_list_init :: nn_list where
  "nn_list_init = \<lparr>first = None, last_item = None\<rparr>"

definition nn_list_term :: "nn_list \<Rightarrow> unit option" where
  "nn_list_term l = (if first l = None \<and> last_item l = None then Some () else None)"

definition nn_list_empty :: "nn_list \<Rightarrow> bool" where
  "nn_list_empty l \<longleftrightarrow> first l = None"

definition nn_list_begin :: "nn_list \<Rightarrow> nat option" where
  "nn_list_begin l = first l"

definition nn_list_end :: "nat option" where
  "nn_list_end = None"

definition nn_list_prev :: "'a objects \<Rightarrow> nn_list \<Rightarrow> nat option \<Rightarrow> nat option option" where
  "nn_list_prev h l it = (case it of
     None \<Rightarrow> Some (last_item l)
   | Some a \<Rightarrow> do { x \<leftarrow> h a; pointer (prev x) })"

definition nn_list_next :: "'a objects \<Rightarrow> nat \<Rightarrow> nat option option" where
  "nn_list_next h a = do { x \<leftarrow> h a; pointer (nxt x) }"

definition nn_list_item_init :: "'a nn_list_item_scheme \<Rightarrow> 'a nn_list_item_scheme" where
  "nn_list_item_init x = x\<lparr>prev := NotInList, nxt := NotInList\<rparr>"

definition nn_list_item_isinlist :: "'a nn_list_item_scheme \<Rightarrow> bool" where
  "nn_list_item_isinlist x \<longleftrightarrow> prev x \<noteq> NotInList"

definition nn_list_item_term :: "'a nn_list_item_scheme \<Rightarrow> unit option" where
  "nn_list_item_term x = (if nn_list_item_isinlist x then None else Some ())"

definition set_prev :: "nat option \<Rightarrow> link \<Rightarrow> 'a objects \<Rightarrow> 'a objects option" where
  "set_prev p v h = (case p of None \<Rightarrow> Some h | Some a \<Rightarrow> do { x \<leftarrow> h a; Some (h(a \<mapsto> x\<lparr>prev := v\<rparr>)) })"

definition set_nxt :: "nat option \<Rightarrow> link \<Rightarrow> 'a objects \<Rightarrow> 'a objects option" where
  "set_nxt p v h = (case p of None \<Rightarrow> Some h | Some a \<Rightarrow> do { x \<leftarrow> h a; Some (h(a \<mapsto> x\<lparr>nxt := v\<rparr>)) })"

definition nn_list_insert :: "nn_list \<Rightarrow> nat \<Rightarrow> nat option \<Rightarrow> 'a objects \<Rightarrow> (nn_list \<times> 'a objects) option" where
  "nn_list_insert l a it h = do {
     x \<leftarrow> h a;
     (if nn_list_item_isinlist x then None
      else do {
        p \<leftarrow> nn_list_prev h l it;
        h1 \<leftarrow> set_nxt p (Item a) (h(a \<mapsto> x\<lparr>prev := link_of p, nxt := link_of it\<rparr>));
        h2 \<leftarrow> set_prev it (Item a) h1;
        Some (\<lparr>first = (if first l = None \<or> first l = it then Some a else first l),
               last_item = (if it = None then Some a else last_item l)\<rparr>, h2) }) }"

definition nn_list_erase :: "nn_list \<Rightarrow> nat \<Rightarrow> 'a objects \<Rightarrow> (nat option \<times> nn_list \<times> 'a objects) option" where
  "nn_list_erase l a h = do {
     x \<leftarrow> h a;
     p \<leftarrow> pointer (prev x);
     n \<leftarrow> pointer (nxt x);
     h1 \<leftarrow> set_nxt p (link_of n) h;
     h2 \<leftarrow> set_prev n (link_of p) h1;
     Some (n, \<lparr>first = (if p = None then n else first l), last_item = (if n = None then p else last_item l)\<rparr>,
       h2(a \<mapsto> nn_list_item_init x)) }"

section \<open>The list that a structure represents\<close>

definition head_or :: "nat list \<Rightarrow> nat option \<Rightarrow> nat option" where
  "head_or xs n = (case xs of [] \<Rightarrow> n | a # _ \<Rightarrow> Some a)"

definition last_or :: "nat option \<Rightarrow> nat list \<Rightarrow> nat option" where
  "last_or p xs = (if xs = [] then p else Some (last xs))"

fun segment :: "'a objects \<Rightarrow> nat option \<Rightarrow> nat list \<Rightarrow> nat option \<Rightarrow> bool" where
  "segment h p [] n \<longleftrightarrow> True"
| "segment h p (a # as) n \<longleftrightarrow>
     (case h a of None \<Rightarrow> False | Some x \<Rightarrow> prev x = link_of p \<and> nxt x = link_of (head_or as n)) \<and> segment h (Some a) as n"

definition list_rep :: "'a objects \<Rightarrow> nn_list \<Rightarrow> nat list \<Rightarrow> bool" where
  "list_rep h l xs \<longleftrightarrow> distinct xs \<and> first l = head_or xs None \<and> last_item l = last_or None xs \<and> segment h None xs None"

text \<open>The members of the objects beside their links.\<close>

definition members :: "'a objects \<Rightarrow> nat \<Rightarrow> 'a option" where
  "members h a = map_option nn_list_item.more (h a)"

lemma head_or_simps [simp]: "head_or [] n = n" "head_or (a # as) n = Some a"
  by (simp_all add: head_or_def)

lemma last_or_simps [simp]: "last_or p [] = p" "last_or p (xs @ [a]) = Some a"
  by (simp_all add: last_or_def)

lemma last_or_Cons: "last_or p (a # as) = last_or (Some a) as"
  by (simp add: last_or_def)

lemma last_or_append: "last_or p (xs @ ys) = last_or (last_or p xs) ys"
  by (simp add: last_or_def)

lemma head_or_append: "head_or (xs @ ys) n = head_or xs (head_or ys n)"
  by (cases xs) simp_all

lemma pointer_link_of [simp]: "pointer (link_of p) = Some p"
  by (cases p) (simp_all add: link_of_def)

lemma link_of_in_list [simp]: "link_of p \<noteq> NotInList"
  by (cases p) (simp_all add: link_of_def)

lemma segment_append: "segment h p (xs @ ys) n \<longleftrightarrow> segment h p xs (head_or ys n) \<and> segment h (last_or p xs) ys n"
  by (induction xs arbitrary: p) (auto simp: last_or_Cons head_or_append split: option.splits)

lemma segment_cong: "(\<And>a. a \<in> set xs \<Longrightarrow> h' a = h a) \<Longrightarrow> segment h' p xs n = segment h p xs n"
  by (induction xs arbitrary: p) auto

lemma segment_upd [simp]: "a \<notin> set xs \<Longrightarrow> segment (h(a := v)) p xs n = segment h p xs n"
  by (rule segment_cong) auto

lemma segment_same: "\<forall>b. b \<notin> set ys \<longrightarrow> h' b = h b \<Longrightarrow> set xs \<inter> set ys = {} \<Longrightarrow> segment h' p xs n = segment h p xs n"
  by (rule segment_cong) auto

lemma segment_in_list: "segment h p xs n \<Longrightarrow> a \<in> set xs \<Longrightarrow> \<exists>x. h a = Some x \<and> nn_list_item_isinlist x"
  by (induction xs arbitrary: p) (auto simp: nn_list_item_isinlist_def split: option.splits)

lemma set_nxt_segment:
  assumes "segment h p xs n" and "distinct xs"
  shows "\<exists>h'. set_nxt (last_or None xs) (link_of m) h = Some h' \<and> segment h' p xs m \<and>
    (\<forall>b. b \<notin> set xs \<longrightarrow> h' b = h b) \<and> members h' = members h"
proof (cases xs rule: rev_cases)
  case (snoc ys a)
  then obtain x where x: "h a = Some x" "prev x = link_of (last_or p ys)" using assms(1) by (auto simp: segment_append split: option.splits)
  let ?h = "h(a \<mapsto> x\<lparr>nxt := link_of m\<rparr>)"
  have "segment ?h p ys (Some a)" using assms snoc by (auto simp: segment_append)
  then have "segment ?h p xs m" using snoc x by (simp add: segment_append)
  moreover have "members ?h = members h" using x by (auto simp: members_def)
  ultimately show ?thesis using snoc x(1) by (simp add: set_nxt_def)
qed (simp add: set_nxt_def)

lemma set_prev_segment:
  assumes "segment h p ys None" and "distinct ys"
  shows "\<exists>h'. set_prev (head_or ys None) (link_of m) h = Some h' \<and> segment h' m ys None \<and>
    (\<forall>b. b \<notin> set ys \<longrightarrow> h' b = h b) \<and> members h' = members h"
proof (cases ys)
  case (Cons a as)
  then obtain x where x: "h a = Some x" "nxt x = link_of (head_or as None)" using assms(1) by (auto split: option.splits)
  let ?h = "h(a \<mapsto> x\<lparr>prev := link_of m\<rparr>)"
  have "segment ?h (Some a) as None" using assms Cons by auto
  then have "segment ?h m ys None" using Cons x by simp
  moreover have "members ?h = members h" using x by (auto simp: members_def)
  ultimately show ?thesis using Cons x(1) by (simp add: set_prev_def)
qed (simp add: set_prev_def)

subsection \<open>Inserting and erasing\<close>

lemma nn_list_insert_ok:
  assumes r: "list_rep h l (xs @ ys)" and a: "h a = Some x" "\<not> nn_list_item_isinlist x"
  shows "\<exists>l' h'. nn_list_insert l a (head_or ys None) h = Some (l', h') \<and> list_rep h' l' (xs @ a # ys) \<and>
    (\<forall>b. b \<notin> set (xs @ a # ys) \<longrightarrow> h' b = h b) \<and> members h' = members h"
proof -
  note d = r [unfolded list_rep_def segment_append]
  have n: "a \<notin> set (xs @ ys)" using segment_in_list [of h None "xs @ ys" None a] r a by (auto simp: list_rep_def)
  let ?h = "h(a \<mapsto> x\<lparr>prev := link_of (last_or None xs), nxt := link_of (head_or ys None)\<rparr>)"
  have p: "nn_list_prev h l (head_or ys None) = Some (last_or None xs)"
    using d by (cases ys) (auto simp: nn_list_prev_def last_or_append split: option.splits)
  have s0: "segment ?h None xs (head_or ys None)" "segment ?h (last_or None xs) ys None"
    using d n by auto
  then obtain h1 where h1: "set_nxt (last_or None xs) (link_of (Some a)) ?h = Some h1" "segment h1 None xs (Some a)"
    "\<forall>b. b \<notin> set xs \<longrightarrow> h1 b = ?h b" "members h1 = members ?h" using set_nxt_segment [of ?h None xs _ "Some a"] d by fastforce
  have "segment h1 (last_or None xs) ys None"
    using segment_same [of xs h1 ?h ys "last_or None xs" None] h1(3) s0(2) d by (simp add: Int_commute)
  then obtain h2 where h2: "set_prev (head_or ys None) (link_of (Some a)) h1 = Some h2" "segment h2 (Some a) ys None"
    "\<forall>b. b \<notin> set ys \<longrightarrow> h2 b = h1 b" "members h2 = members h1" using set_prev_segment [of h1 _ ys "Some a"] d by fastforce
  have xa: "segment h2 None xs (Some a)" "h2 a = ?h a"
    using segment_same [OF h2(3), of xs] h2(3) h1(2,3) d n by auto
  let ?l = "\<lparr>first = (if first l = None \<or> first l = head_or ys None then Some a else first l),
    last_item = (if head_or ys None = None then Some a else last_item l)\<rparr>"
  have "nn_list_insert l a (head_or ys None) h = Some (?l, h2)"
    using a p h1(1) h2(1) by (simp add: nn_list_insert_def link_of_def)
  moreover have "list_rep h2 ?l (xs @ a # ys)"
  proof -
    have "first ?l = head_or (xs @ a # ys) None" using d by (cases xs; cases ys) auto
    moreover have "last_item ?l = last_or None (xs @ a # ys)" using d by (cases ys) (auto simp: last_or_def)
    ultimately show ?thesis using d n xa h2(2) by (auto simp: list_rep_def segment_append)
  qed
  moreover have "members ?h = members h" using a by (auto simp: members_def)
  ultimately show ?thesis using h1(3,4) h2(3,4) by auto
qed

lemma nn_list_erase_ok:
  assumes r: "list_rep h l (xs @ a # ys)"
  shows "\<exists>l' h' x. nn_list_erase l a h = Some (head_or ys None, l', h') \<and> list_rep h' l' (xs @ ys) \<and>
    h' a = Some x \<and> \<not> nn_list_item_isinlist x \<and> (\<forall>b. b \<notin> set (xs @ a # ys) \<longrightarrow> h' b = h b) \<and> members h' = members h"
proof -
  note d = r [unfolded list_rep_def segment_append]
  obtain x where x: "h a = Some x" "prev x = link_of (last_or None xs)" "nxt x = link_of (head_or ys None)" using d by (auto split: option.splits)
  obtain h1 where h1: "set_nxt (last_or None xs) (link_of (head_or ys None)) h = Some h1" "segment h1 None xs (head_or ys None)"
    "\<forall>b. b \<notin> set xs \<longrightarrow> h1 b = h b" "members h1 = members h" using set_nxt_segment [of h None xs _ "head_or ys None"] d by fastforce
  have "segment h1 (Some a) ys None" using segment_same [OF h1(3), of ys] d by (auto simp: Int_commute)
  then obtain h2 where h2: "set_prev (head_or ys None) (link_of (last_or None xs)) h1 = Some h2" "segment h2 (last_or None xs) ys None"
    "\<forall>b. b \<notin> set ys \<longrightarrow> h2 b = h1 b" "members h2 = members h1" using set_prev_segment [of h1 _ ys "last_or None xs"] d by fastforce
  let ?h = "h2(a \<mapsto> nn_list_item_init x)"
  let ?l = "\<lparr>first = (if last_or None xs = None then head_or ys None else first l),
    last_item = (if head_or ys None = None then last_or None xs else last_item l)\<rparr>"
  have "nn_list_erase l a h = Some (head_or ys None, ?l, ?h)"
    using x h1(1) h2(1) by (simp add: nn_list_erase_def)
  moreover have "list_rep ?h ?l (xs @ ys)"
  proof -
    have "segment ?h None xs (head_or ys None)" using segment_same [OF h2(3), of xs] h1(2) d by auto
    moreover have "segment ?h (last_or None xs) ys None" using h2(2) d by auto
    moreover have "first ?l = head_or (xs @ ys) None" using d by (cases xs) (auto simp: last_or_def)
    moreover have "last_item ?l = last_or None (xs @ ys)" using d by (cases ys) (auto simp: last_or_def)
    ultimately show ?thesis using d by (simp add: list_rep_def segment_append)
  qed
  moreover have "members ?h = members h" using h1(3,4) h2(3,4) x(1) d by (fastforce simp: members_def nn_list_item_init_def fun_eq_iff)
  ultimately show ?thesis using h1(3) h2(3) by (auto simp: nn_list_item_init_def nn_list_item_isinlist_def)
qed

lemma nn_list_next_ok: "list_rep h l (xs @ a # ys) \<Longrightarrow> nn_list_next h a = Some (head_or ys None)"
  by (auto simp: list_rep_def segment_append nn_list_next_def split: option.splits)

lemma nn_list_prev_ok: "list_rep h l (xs @ ys) \<Longrightarrow> nn_list_prev h l (head_or ys None) = Some (last_or None xs)"
  by (cases ys) (auto simp: list_rep_def segment_append nn_list_prev_def split: option.splits)

lemma nn_list_empty_ok: "list_rep h l xs \<Longrightarrow> nn_list_empty l \<longleftrightarrow> xs = []"
  by (cases xs) (simp_all add: list_rep_def nn_list_empty_def)

lemma nn_list_init_ok: "list_rep h nn_list_init []"
  by (simp add: list_rep_def nn_list_init_def)

lemma list_rep_same:
  assumes "list_rep h l xs" and "\<forall>b. b \<notin> set ys \<longrightarrow> h' b = h b" and "set xs \<inter> set ys = {}"
  shows "list_rep h' l xs"
  using assms segment_same [OF assms(2,3)] by (simp add: list_rep_def)

lemma list_rep_in_list: "list_rep h l xs \<Longrightarrow> a \<in> set xs \<Longrightarrow> \<exists>x. h a = Some x \<and> nn_list_item_isinlist x"
  by (auto simp: list_rep_def intro: segment_in_list)

text \<open>
  The linked list is a list of objects. Inserting an object that is in no list before an iterator puts it
  there; erasing an object takes it out, marks it as being in no list and returns an iterator to the one behind
  it; both leave the other members of all objects and every object outside the list as they are. The iterators
  walk the list in both directions, and the list can be terminated exactly if it is empty.
\<close>

theorem nn_list_refines_list:
  assumes "list_rep h l (xs @ ys)"
  shows "(\<forall>a x. h a = Some x \<longrightarrow> \<not> nn_list_item_isinlist x \<longrightarrow>
      (\<exists>l' h'. nn_list_insert l a (head_or ys nn_list_end) h = Some (l', h') \<and> list_rep h' l' (xs @ a # ys) \<and>
        (\<forall>b. b \<notin> set (xs @ a # ys) \<longrightarrow> h' b = h b) \<and> members h' = members h)) \<and>
    (\<forall>a zs. ys = a # zs \<longrightarrow>
      (\<exists>l' h' x. nn_list_erase l a h = Some (head_or zs nn_list_end, l', h') \<and> list_rep h' l' (xs @ zs) \<and>
        h' a = Some x \<and> \<not> nn_list_item_isinlist x \<and> (\<forall>b. b \<notin> set (xs @ ys) \<longrightarrow> h' b = h b) \<and> members h' = members h) \<and>
      nn_list_next h a = Some (head_or zs nn_list_end)) \<and>
    nn_list_prev h l (head_or ys nn_list_end) = Some (last_or None xs) \<and>
    nn_list_begin l = head_or (xs @ ys) nn_list_end \<and> (nn_list_term l \<noteq> None \<longleftrightarrow> xs @ ys = [])"
proof -
  have "nn_list_begin l = head_or (xs @ ys) None" using assms by (simp add: list_rep_def nn_list_begin_def)
  moreover have "nn_list_term l \<noteq> None \<longleftrightarrow> xs @ ys = []"
    using assms by (cases "xs @ ys") (auto simp: list_rep_def nn_list_term_def)
  ultimately show ?thesis
    using nn_list_insert_ok [OF assms] nn_list_erase_ok [of h l xs] nn_list_next_ok [of h l xs] nn_list_prev_ok [OF assms] assms
    unfolding nn_list_end_def by blast
qed

theorem nn_list_refines_list_witness:
  "\<exists>l' h'. nn_list_insert \<lparr>first = Some 1, last_item = Some 1\<rparr> 2 None [1 \<mapsto> \<lparr>prev = Null, nxt = Null\<rparr>, 2 \<mapsto> \<lparr>prev = NotInList, nxt = NotInList\<rparr>]
     = Some (l', h') \<and> list_rep h' l' [1, 2]"
proof -
  let ?h = "[1 \<mapsto> \<lparr>prev = Null, nxt = Null\<rparr>, 2 \<mapsto> \<lparr>prev = NotInList, nxt = NotInList\<rparr>]"
  have "list_rep ?h \<lparr>first = Some 1, last_item = Some 1\<rparr> ([1] @ [])" by (simp add: list_rep_def link_of_def last_or_def)
  from nn_list_refines_list [OF this] show ?thesis by (auto simp: nn_list_item_isinlist_def nn_list_end_def dest!: spec [of _ 2])
qed

end
