(* ===== verification/Priolist.thy ===== *)
theory Priolist
  imports Nnlist
begin

text \<open>
  The prioritised list of pipes of \<^verbatim>\<open>lib/nanomsg/src/protocols/utils/priolist.c\<close>, with which a push socket chooses
  the pipe to send to (\<^verbatim>\<open>lb.c\<close>) and a pull socket the pipe to receive from (\<^verbatim>\<open>fq.c\<close>). Sixteen slots, one for
  each priority, hold the pipes that are ready, and each slot remembers whose turn it is. \<^term>\<open>None\<close> is a failed
  assertion, an access outside the slots or the use of a null pointer.
\<close>

section \<open>The structure\<close>

record nn_priolist_data = nn_list_item +
  pipe :: nat
  priority :: int

record nn_priolist_slot =
  pipes :: nn_list
  slot_current :: "nat option"

record nn_priolist =
  slots :: "nn_priolist_slot list"
  current :: int

type_synonym pipe_heap = "nat \<rightharpoonup> nn_priolist_data"

definition NN_PRIOLIST_SLOTS :: nat where
  "NN_PRIOLIST_SLOTS = 16"

section \<open>The operations\<close>

definition nn_priolist_init :: nn_priolist where
  "nn_priolist_init = \<lparr>slots = replicate NN_PRIOLIST_SLOTS \<lparr>pipes = nn_list_init, slot_current = None\<rparr>, current = -1\<rparr>"

fun term_slots :: "nn_priolist_slot list \<Rightarrow> unit option" where
  "term_slots [] = Some ()"
| "term_slots (s # ss) = do { _ \<leftarrow> nn_list_term (pipes s); term_slots ss }"

definition nn_priolist_term :: "nn_priolist \<Rightarrow> unit option" where
  "nn_priolist_term p = term_slots (slots p)"

text \<open>The object is memory of the caller, which the call fills.\<close>

definition nn_priolist_add :: "nat \<Rightarrow> nat \<Rightarrow> int \<Rightarrow> pipe_heap \<Rightarrow> pipe_heap" where
  "nn_priolist_add pp a prio h = h(a \<mapsto> nn_list_item_init \<lparr>prev = Null, nxt = Null, pipe = pp, priority = prio\<rparr>)"

definition slot_at :: "nn_priolist \<Rightarrow> int \<Rightarrow> nn_priolist_slot option" where
  "slot_at p prio = (if prio < 1 then None else get_cell (slots p) (nat (prio - 1)))"

definition set_slot :: "int \<Rightarrow> nn_priolist_slot \<Rightarrow> nn_priolist \<Rightarrow> nn_priolist" where
  "set_slot prio s p = p\<lparr>slots := (slots p)[nat (prio - 1) := s]\<rparr>"

definition nn_priolist_rm :: "nat \<Rightarrow> nn_priolist \<Rightarrow> pipe_heap \<Rightarrow> (nn_priolist \<times> pipe_heap) option" where
  "nn_priolist_rm a p h = do {
     x \<leftarrow> h a;
     (p', h') \<leftarrow> (if nn_list_item_isinlist x then do {
        s \<leftarrow> slot_at p (priority x);
        (_, l, h') \<leftarrow> nn_list_erase (pipes s) a h;
        Some (set_slot (priority x) (s\<lparr>pipes := l\<rparr>) p, h') }
      else Some (p, h));
     x' \<leftarrow> h' a;
     _ \<leftarrow> nn_list_item_term x';
     Some (p', h') }"

definition nn_priolist_activate :: "nat \<Rightarrow> nn_priolist \<Rightarrow> pipe_heap \<Rightarrow> (nn_priolist \<times> pipe_heap) option" where
  "nn_priolist_activate a p h = do {
     x \<leftarrow> h a;
     s \<leftarrow> slot_at p (priority x);
     (l, h') \<leftarrow> nn_list_insert (pipes s) a nn_list_end h;
     Some (if \<not> nn_list_empty (pipes s) then (set_slot (priority x) (s\<lparr>pipes := l\<rparr>) p, h')
       else (let p' = set_slot (priority x) (s\<lparr>pipes := l, slot_current := Some a\<rparr>) p in
         if current p = -1 then (p'\<lparr>current := priority x\<rparr>, h')
         else if priority x < current p then (p'\<lparr>current := priority x\<rparr>, h')
         else (p', h'))) }"

definition nn_priolist_is_active :: "nn_priolist \<Rightarrow> bool" where
  "nn_priolist_is_active p \<longleftrightarrow> current p \<noteq> -1"

definition nn_priolist_getpipe :: "nn_priolist \<Rightarrow> pipe_heap \<Rightarrow> nat option option" where
  "nn_priolist_getpipe p h =
     (if current p = -1 then Some None
      else do {
        s \<leftarrow> slot_at p (current p);
        a \<leftarrow> slot_current s;
        x \<leftarrow> h a;
        Some (Some (pipe x)) })"

text \<open>The first slot with a pipe among those given, which are the slots of priority \<open>c\<close> and up.\<close>

fun find_slot :: "nn_priolist_slot list \<Rightarrow> int \<Rightarrow> int" where
  "find_slot [] c = -1"
| "find_slot (s # ss) c = (if nn_list_empty (pipes s) then find_slot ss (c + 1) else c)"

definition nn_priolist_advance :: "bool \<Rightarrow> nn_priolist \<Rightarrow> pipe_heap \<Rightarrow> (nn_priolist \<times> pipe_heap) option" where
  "nn_priolist_advance release p h =
     (if current p \<le> 0 then None
      else do {
        s \<leftarrow> slot_at p (current p);
        a \<leftarrow> slot_current s;
        (it, l, h') \<leftarrow> (if release then nn_list_erase (pipes s) a h
                       else do { it \<leftarrow> nn_list_next h a; Some (it, pipes s, h) });
        (let it' = (if it = None then nn_list_begin l else it);
             p' = set_slot (current p) \<lparr>pipes = l, slot_current = it'\<rparr> p in
         Some (p'\<lparr>current := find_slot (drop (nat (current p - 1)) (slots p')) (current p)\<rparr>, h')) })"

section \<open>The invariant\<close>

text \<open>\<open>R k\<close> is the list of the pipes that are ready with priority \<open>k + 1\<close>.\<close>

definition slots_ok :: "pipe_heap \<Rightarrow> nn_priolist \<Rightarrow> (nat \<Rightarrow> nat list) \<Rightarrow> bool" where
  "slots_ok h p R \<longleftrightarrow> length (slots p) = NN_PRIOLIST_SLOTS \<and>
     (\<forall>k < NN_PRIOLIST_SLOTS. list_rep h (pipes (slots p ! k)) (R k) \<and>
        (R k \<noteq> [] \<longrightarrow> (\<exists>a \<in> set (R k). slot_current (slots p ! k) = Some a)))"

definition objects_ok :: "pipe_heap \<Rightarrow> (nat \<Rightarrow> nat list) \<Rightarrow> bool" where
  "objects_ok h R \<longleftrightarrow>
     (\<forall>a x. h a = Some x \<longrightarrow> 1 \<le> priority x \<and> priority x \<le> int NN_PRIOLIST_SLOTS \<and>
        nn_list_item_isinlist x = (a \<in> set (R (nat (priority x - 1))))) \<and>
     (\<forall>k < NN_PRIOLIST_SLOTS. \<forall>a \<in> set (R k). \<exists>x. h a = Some x \<and> priority x = int k + 1)"

definition prio_ok :: "pipe_heap \<Rightarrow> nn_priolist \<Rightarrow> (nat \<Rightarrow> nat list) \<Rightarrow> bool" where
  "prio_ok h p R \<longleftrightarrow> slots_ok h p R \<and> objects_ok h R \<and> current p = find_slot (slots p) 1"

lemma find_slot_eqI:
  "k < length ss \<Longrightarrow> \<not> nn_list_empty (pipes (ss ! k)) \<Longrightarrow> \<forall>j < k. nn_list_empty (pipes (ss ! j)) \<Longrightarrow> find_slot ss c = c + int k"
proof (induction ss arbitrary: k c)
  case (Cons s ss)
  then show ?case
  proof (cases k)
    case (Suc j)
    have "find_slot ss (c + 1) = c + 1 + int j" by (rule Cons.IH) (use Cons.prems Suc in auto)
    then show ?thesis using Cons.prems(3) Suc by auto
  qed simp
qed simp

lemma find_slot_none: "\<forall>j < length ss. nn_list_empty (pipes (ss ! j)) \<Longrightarrow> find_slot ss c = -1"
proof (induction ss arbitrary: c)
  case (Cons s ss)
  have "find_slot ss (c + 1) = -1" by (rule Cons.IH) (use Cons.prems in auto)
  then show ?case using Cons.prems by auto
qed simp

lemma find_slot_cases:
  obtains "\<forall>j < length ss. nn_list_empty (pipes (ss ! j))" "find_slot ss c = -1"
  | k where "k < length ss" "\<not> nn_list_empty (pipes (ss ! k))" "\<forall>j < k. nn_list_empty (pipes (ss ! j))" "find_slot ss c = c + int k"
proof (cases "\<forall>j < length ss. nn_list_empty (pipes (ss ! j))")
  case True
  then show ?thesis using that(1) find_slot_none by blast
next
  case False
  then obtain j where "j < length ss \<and> \<not> nn_list_empty (pipes (ss ! j))" by blast
  then obtain k where "k < length ss \<and> \<not> nn_list_empty (pipes (ss ! k))" "\<forall>i < k. \<not> (i < length ss \<and> \<not> nn_list_empty (pipes (ss ! i)))"
    using exists_least_iff [of "\<lambda>j. j < length ss \<and> \<not> nn_list_empty (pipes (ss ! j))"] by blast
  then show ?thesis using that(2) [of k] find_slot_eqI [of k ss c] by auto
qed

lemma find_slot_drop:
  "\<forall>j < k. nn_list_empty (pipes (ss ! j)) \<Longrightarrow> k \<le> length ss \<Longrightarrow> find_slot (drop k ss) (c + int k) = find_slot ss c"
proof (induction ss arbitrary: k c)
  case (Cons s ss)
  then show ?case
  proof (cases k)
    case (Suc j)
    have "find_slot (drop j ss) (c + 1 + int j) = find_slot ss (c + 1)" by (rule Cons.IH) (use Cons.prems Suc in auto)
    then show ?thesis using Cons.prems(1) Suc by (auto simp: add.assoc)
  qed simp
qed simp

lemma slots_ok_current [simp]: "slots_ok h (p\<lparr>current := c\<rparr>) R = slots_ok h p R"
  by (simp add: slots_ok_def)

lemma ring_object: "objects_ok h R \<Longrightarrow> k < NN_PRIOLIST_SLOTS \<Longrightarrow> a \<in> set (R k) \<Longrightarrow> \<exists>x. h a = Some x \<and> priority x = int k + 1"
  unfolding objects_ok_def by blast

lemma rings_disjoint:
  assumes o: "objects_ok h R" and k: "j < NN_PRIOLIST_SLOTS" "k < NN_PRIOLIST_SLOTS" "j \<noteq> k"
  shows "set (R j) \<inter> set (R k) = {}"
proof -
  have "False" if ab: "a \<in> set (R j)" "a \<in> set (R k)" for a
  proof -
    obtain x where x: "h a = Some x" "priority x = int j + 1" using ring_object [OF o k(1) ab(1)] by blast
    moreover obtain y where "h a = Some y" "priority y = int k + 1" using ring_object [OF o k(2) ab(2)] by blast
    ultimately show False using k(3) by simp
  qed
  then show ?thesis by blast
qed

lemma members_priority:
  assumes "members h' = members h" and "h' a = Some x'"
  shows "\<exists>x. h a = Some x \<and> priority x = priority x' \<and> pipe x = pipe x'"
proof -
  have "map_option nn_list_item.more (h a) = Some (nn_list_item.more x')" using assms by (metis members_def option.simps(9))
  then obtain x where "h a = Some x" "nn_list_item.more x = nn_list_item.more x'" by auto
  then show ?thesis by (cases x; cases x') simp
qed

lemma slot_change:
  assumes s: "slots_ok h p R" and o: "objects_ok h R" and k: "k < NN_PRIOLIST_SLOTS"
    and l: "list_rep h' l ys" "ys \<noteq> [] \<longrightarrow> (\<exists>a \<in> set ys. c = Some a)"
    and f: "\<forall>b. b \<notin> set (R k) \<union> set ys \<longrightarrow> h' b = h b" "members h' = members h"
    and y: "\<forall>b \<in> set ys. \<exists>x. h b = Some x \<and> priority x = int k + 1"
    and n: "\<forall>b \<in> set (R k) - set ys. \<exists>x. h' b = Some x \<and> \<not> nn_list_item_isinlist x"
  shows "slots_ok h' (set_slot (int k + 1) \<lparr>pipes = l, slot_current = c\<rparr> p) (R(k := ys))" and "objects_ok h' (R(k := ys))"
proof -
  have dj: "set (R j) \<inter> (set (R k) \<union> set ys) = {}" if "j < NN_PRIOLIST_SLOTS" "j \<noteq> k" for j
    using rings_disjoint [OF o that(1) k that(2)] o that y by (fastforce simp: objects_ok_def)
  have "list_rep h' (pipes (slots p ! j)) (R j)" if "j < NN_PRIOLIST_SLOTS" "j \<noteq> k" for j
    using list_rep_same [of h _ "R j" "R k @ ys" h'] s f(1) dj [OF that] that(1) by (simp add: slots_ok_def)
  then show "slots_ok h' (set_slot (int k + 1) \<lparr>pipes = l, slot_current = c\<rparr> p) (R(k := ys))"
    using s l k by (auto simp: slots_ok_def set_slot_def nth_list_update)
  have "1 \<le> priority x \<and> priority x \<le> int NN_PRIOLIST_SLOTS \<and> nn_list_item_isinlist x = (a \<in> set ((R(k := ys)) (nat (priority x - 1))))"
    if a: "h' a = Some x" for a x
  proof -
    obtain x0 where x0: "h a = Some x0" "priority x0 = priority x" using members_priority [OF f(2) a] by blast
    have r: "1 \<le> priority x" "priority x \<le> int NN_PRIOLIST_SLOTS" "nn_list_item_isinlist x0 = (a \<in> set (R (nat (priority x - 1))))"
      using o x0 unfolding objects_ok_def by metis+
    consider "a \<in> set ys" | "a \<notin> set ys" "a \<in> set (R k)" | "a \<notin> set ys" "a \<notin> set (R k)" by blast
    then show ?thesis
    proof cases
      case 1
      then show ?thesis using r(1,2) y x0 list_rep_in_list [OF l(1) 1] a by auto
    next
      case 2
      then have "priority x = int k + 1" using o k x0 by (fastforce simp: objects_ok_def)
      moreover obtain x' where "h' a = Some x'" "\<not> nn_list_item_isinlist x'" using n 2 by blast
      ultimately show ?thesis using r(1,2) 2 a by simp
    next
      case 3
      then have "x0 = x" using f(1) a x0(1) by auto
      then show ?thesis using r 3 by auto
    qed
  qed
  moreover have "\<exists>x. h' a = Some x \<and> priority x = int j + 1" if ja: "j < NN_PRIOLIST_SLOTS" "a \<in> set ((R(k := ys)) j)" for j a
  proof -
    obtain x where "h a = Some x" "priority x = int j + 1" using ring_object [OF o ja(1), of a] y ja(2) by (cases "j = k") auto
    then show ?thesis using members_priority [of h h' a x] f(2) by fastforce
  qed
  ultimately show "objects_ok h' (R(k := ys))" by (simp add: objects_ok_def)
qed

section \<open>The operations keep the invariant\<close>

lemma find_slot_cong:
  "length ss' = length ss \<Longrightarrow> \<forall>j < length ss. nn_list_empty (pipes (ss' ! j)) = nn_list_empty (pipes (ss ! j)) \<Longrightarrow> find_slot ss' c = find_slot ss c"
proof (induction ss' ss arbitrary: c rule: list_induct2)
  case (Cons s' ss' s ss)
  have "find_slot ss' (c + 1) = find_slot ss (c + 1)" by (rule Cons.IH) (use Cons.prems in auto)
  then show ?case using Cons.prems by auto
qed simp

lemma slot_empty: "slots_ok h p R \<Longrightarrow> k < NN_PRIOLIST_SLOTS \<Longrightarrow> nn_list_empty (pipes (slots p ! k)) \<longleftrightarrow> R k = []"
  by (auto simp: slots_ok_def nn_list_empty_ok)

lemma find_slot_rings:
  assumes "slots_ok h p R" and "slots_ok h' p' R'" and "\<forall>k < NN_PRIOLIST_SLOTS. R' k = [] \<longleftrightarrow> R k = []"
  shows "find_slot (slots p') c = find_slot (slots p) c"
proof -
  have "length (slots p) = NN_PRIOLIST_SLOTS" "length (slots p') = NN_PRIOLIST_SLOTS" using assms by (simp_all add: slots_ok_def)
  then show ?thesis using assms(3) slot_empty [OF assms(1)] slot_empty [OF assms(2)] by (intro find_slot_cong) auto
qed

lemma current_cases:
  assumes "prio_ok h p R"
  obtains "\<forall>k < NN_PRIOLIST_SLOTS. R k = []" "current p = -1"
  | k where "k < NN_PRIOLIST_SLOTS" "R k \<noteq> []" "\<forall>j < k. R j = []" "current p = int k + 1"
proof -
  have s: "slots_ok h p R" "length (slots p) = NN_PRIOLIST_SLOTS" and c: "current p = find_slot (slots p) 1"
    using assms by (auto simp: prio_ok_def slots_ok_def)
  show ?thesis
    by (rule find_slot_cases [of "slots p" 1]) (use s c that slot_empty [OF s(1)] in auto)
qed

lemma find_slot_ring:
  assumes s: "slots_ok h p R" and k: "k < NN_PRIOLIST_SLOTS" "R k \<noteq> []" "\<forall>j < k. R j = []"
  shows "find_slot (slots p) 1 = int k + 1"
proof -
  have "find_slot (slots p) 1 = 1 + int k"
    by (rule find_slot_eqI) (use s k slot_empty [OF s] in \<open>auto simp: slots_ok_def\<close>)
  then show ?thesis by simp
qed

lemma slot_at_ok: "slots_ok h p R \<Longrightarrow> k < NN_PRIOLIST_SLOTS \<Longrightarrow> slot_at p (int k + 1) = Some (slots p ! k)"
  by (simp add: slot_at_def get_cell_def slots_ok_def)

lemma priority_slot:
  assumes "objects_ok h R" and "h a = Some x"
  obtains k where "k < NN_PRIOLIST_SLOTS" "priority x = int k + 1" "nn_list_item_isinlist x \<longleftrightarrow> a \<in> set (R k)"
proof -
  have r: "1 \<le> priority x" "priority x \<le> int NN_PRIOLIST_SLOTS" "nn_list_item_isinlist x \<longleftrightarrow> a \<in> set (R (nat (priority x - 1)))"
    using assms unfolding objects_ok_def by blast+
  show ?thesis by (rule that [of "nat (priority x - 1)"]) (use r in auto)
qed

lemma slot_updates:
  fixes s :: nn_priolist_slot and p :: nn_priolist
  shows "s\<lparr>pipes := l\<rparr> = \<lparr>pipes = l, slot_current = slot_current s\<rparr>"
    and "\<lparr>pipes = l', slot_current = c'\<rparr>\<lparr>slot_current := c\<rparr> = \<lparr>pipes = l', slot_current = c\<rparr>"
    and "p\<lparr>slots := ss, current := current p\<rparr> = p\<lparr>slots := ss\<rparr>"
  by (cases s; cases p; simp)+

lemma nn_priolist_add_ok:
  assumes ok: "prio_ok h p R" and a: "\<forall>x. h a = Some x \<longrightarrow> \<not> nn_list_item_isinlist x" and r: "1 \<le> prio" "prio \<le> int NN_PRIOLIST_SLOTS"
  shows "prio_ok (nn_priolist_add pp a prio h) p R"
proof -
  let ?h = "nn_priolist_add pp a prio h"
  have s: "slots_ok h p R" and o: "objects_ok h R" using ok by (auto simp: prio_ok_def)
  have n: "a \<notin> set (R k)" if k: "k < NN_PRIOLIST_SLOTS" for k
    using s a list_rep_in_list [of h "pipes (slots p ! k)" "R k" a] k by (auto simp: slots_ok_def)
  have "list_rep ?h (pipes (slots p ! k)) (R k)" if k: "k < NN_PRIOLIST_SLOTS" for k
    by (rule list_rep_same [where h = h and ys = "[a]"]) (use s n [OF k] k in \<open>auto simp: slots_ok_def nn_priolist_add_def\<close>)
  then have "slots_ok ?h p R" using s by (simp add: slots_ok_def)
  moreover have "objects_ok ?h R"
  proof -
    have "a \<notin> set (R (nat (prio - 1)))" using n r by simp
    then have "\<forall>b x. ?h b = Some x \<longrightarrow> 1 \<le> priority x \<and> priority x \<le> int NN_PRIOLIST_SLOTS \<and> nn_list_item_isinlist x = (b \<in> set (R (nat (priority x - 1))))"
      using o r unfolding objects_ok_def by (simp add: nn_priolist_add_def nn_list_item_init_def nn_list_item_isinlist_def)
    moreover have "\<exists>x. ?h b = Some x \<and> priority x = int k + 1" if k: "k < NN_PRIOLIST_SLOTS" "b \<in> set (R k)" for k b
      using ring_object [OF o k] n [OF k(1)] k(2) by (auto simp: nn_priolist_add_def)
    ultimately show ?thesis by (simp add: objects_ok_def)
  qed
  ultimately show ?thesis using ok by (simp add: prio_ok_def)
qed

lemma nn_priolist_activate_ok:
  assumes ok: "prio_ok h p R" and a: "h a = Some x" "\<not> nn_list_item_isinlist x"
  shows "\<exists>p' h' k. nn_priolist_activate a p h = Some (p', h') \<and> k < NN_PRIOLIST_SLOTS \<and> prio_ok h' p' (R(k := R k @ [a])) \<and> members h' = members h"
proof -
  have s: "slots_ok h p R" and o: "objects_ok h R" using ok by (auto simp: prio_ok_def)
  obtain k where k: "k < NN_PRIOLIST_SLOTS" "priority x = int k + 1" "a \<notin> set (R k)" using priority_slot [OF o a(1)] a(2) by blast
  have r: "list_rep h (pipes (slots p ! k)) (R k)" and c: "R k \<noteq> [] \<Longrightarrow> \<exists>b \<in> set (R k). slot_current (slots p ! k) = Some b"
    using s k(1) by (auto simp: slots_ok_def)
  obtain l h' where i: "nn_list_insert (pipes (slots p ! k)) a nn_list_end h = Some (l, h')" "list_rep h' l (R k @ [a])"
    "\<forall>b. b \<notin> set (R k @ [a]) \<longrightarrow> h' b = h b" "members h' = members h"
    using nn_list_insert_ok [of h "pipes (slots p ! k)" "R k" "[]" a x] r a by (auto simp: nn_list_end_def)
  define cur where "cur = (if R k = [] then Some a else slot_current (slots p ! k))"
  define p1 where "p1 = set_slot (int k + 1) \<lparr>pipes = l, slot_current = cur\<rparr> p"
  let ?R = "R(k := R k @ [a])"
  have ch: "slots_ok h' p1 ?R" "objects_ok h' ?R" unfolding p1_def
    by (rule slot_change [OF s o k(1) i(2)]; use i(3,4) c k(2) a(1) ring_object [OF o k(1)] in \<open>auto simp: cur_def\<close>)+
  define cc where "cc = (if R k \<noteq> [] then current p else if current p = -1 then int k + 1 else if int k + 1 < current p then int k + 1 else current p)"
  have "nn_priolist_activate a p h = Some (p1\<lparr>current := cc\<rparr>, h')"
    using a(1) k(2) slot_at_ok [OF s k(1)] i(1) slot_empty [OF s k(1)]
    by (auto simp: nn_priolist_activate_def p1_def cur_def cc_def set_slot_def Let_def slot_updates)
  moreover have "cc = find_slot (slots p1) 1"
  proof (cases "R k = []")
    case False
    then have "find_slot (slots p1) 1 = find_slot (slots p) 1" by (intro find_slot_rings [OF s ch(1)]) auto
    then show ?thesis using False ok by (simp add: cc_def prio_ok_def)
  next
    case True
    show ?thesis
    proof (rule current_cases [OF ok])
      assume "\<forall>j < NN_PRIOLIST_SLOTS. R j = []" "current p = -1"
      then show ?thesis using find_slot_ring [OF ch(1) k(1)] True k(1) by (simp add: cc_def)
    next
      fix m assume m: "m < NN_PRIOLIST_SLOTS" "R m \<noteq> []" "\<forall>j < m. R j = []" "current p = int m + 1"
      then have "m \<noteq> k" using True by auto
      then show ?thesis
        using find_slot_ring [OF ch(1) k(1)] find_slot_ring [OF ch(1) m(1)] m True by (cases "k < m") (auto simp: cc_def)
    qed
  qed
  ultimately show ?thesis using ch i(4) k(1) by (auto simp: prio_ok_def)
qed

text \<open>The turn of a slot passes to the pipe behind, or around to the first.\<close>

lemma nn_priolist_advance_ok:
  assumes ok: "prio_ok h p R" and k: "k < NN_PRIOLIST_SLOTS" "current p = int k + 1" "\<forall>j < k. R j = []"
    and a: "R k = xs @ a # ys" "slot_current (slots p ! k) = Some a"
  shows "\<exists>p' h'. nn_priolist_advance release p h = Some (p', h') \<and>
    prio_ok h' p' (R(k := if release then xs @ ys else R k)) \<and> members h' = members h \<and>
    slot_current (slots p' ! k) = head_or (ys @ xs) (if release then None else Some a)"
proof -
  have s: "slots_ok h p R" and o: "objects_ok h R" using ok by (auto simp: prio_ok_def)
  have r: "list_rep h (pipes (slots p ! k)) (xs @ a # ys)" using s k(1) a(1) by (auto simp: slots_ok_def)
  let ?zs = "if release then xs @ ys else R k"
  obtain l h' where e: "(if release then nn_list_erase (pipes (slots p ! k)) a h
      else do { it \<leftarrow> nn_list_next h a; Some (it, pipes (slots p ! k), h) }) = Some (head_or ys None, l, h')"
    "list_rep h' l ?zs" "\<forall>b. b \<notin> set (R k) \<longrightarrow> h' b = h b" "members h' = members h"
    "release \<Longrightarrow> \<exists>x. h' a = Some x \<and> \<not> nn_list_item_isinlist x"
    using nn_list_erase_ok [OF r] nn_list_next_ok [OF r] r a(1) by (cases release) auto
  define cur where "cur = head_or (ys @ xs) (if release then None else Some a)"
  have b: "(if head_or ys None = None then nn_list_begin l else head_or ys None) = cur"
    using e(2) a(1) by (cases ys; cases xs) (auto simp: cur_def list_rep_def nn_list_begin_def)
  define p1 where "p1 = set_slot (int k + 1) \<lparr>pipes = l, slot_current = cur\<rparr> p"
  have cu: "?zs \<noteq> [] \<longrightarrow> (\<exists>b \<in> set ?zs. cur = Some b)" using a(1) by (cases ys; cases xs) (auto simp: cur_def)
  have f: "\<forall>b. b \<notin> set (R k) \<union> set ?zs \<longrightarrow> h' b = h b" using e(3) by simp
  have y: "\<forall>b \<in> set ?zs. \<exists>x. h b = Some x \<and> priority x = int k + 1" using ring_object [OF o k(1)] a(1) by auto
  have n: "\<forall>b \<in> set (R k) - set ?zs. \<exists>x. h' b = Some x \<and> \<not> nn_list_item_isinlist x" using e(5) a(1) by auto
  have ch: "slots_ok h' p1 (R(k := ?zs))" "objects_ok h' (R(k := ?zs))"
    unfolding p1_def by (rule slot_change [OF s o k(1) e(2) cu f e(4) y n])+
  have "nn_priolist_advance release p h = Some (p1\<lparr>current := find_slot (drop k (slots p1)) (int k + 1)\<rparr>, h')"
    using k(2) slot_at_ok [OF s k(1)] a(2) e(1) b by (simp add: nn_priolist_advance_def p1_def set_slot_def)
  moreover have "find_slot (drop k (slots p1)) (1 + int k) = find_slot (slots p1) 1"
    by (rule find_slot_drop) (use k slot_empty [OF ch(1)] ch(1) in \<open>auto simp: slots_ok_def\<close>)
  moreover have "slot_current (slots p1 ! k) = cur" using s k(1) by (simp add: p1_def set_slot_def slots_ok_def)
  ultimately show ?thesis using ch e(4) by (auto simp: prio_ok_def cur_def add.commute)
qed

lemma nn_priolist_rm_ok:
  assumes ok: "prio_ok h p R" and a: "h a = Some x"
    and c: "nn_list_item_isinlist x \<Longrightarrow> slot_current (slots p ! nat (priority x - 1)) \<noteq> Some a"
  shows "\<exists>p' h' R'. nn_priolist_rm a p h = Some (p', h') \<and> prio_ok h' p' R' \<and> members h' = members h"
proof -
  have s: "slots_ok h p R" and o: "objects_ok h R" using ok by (auto simp: prio_ok_def)
  obtain k where k: "k < NN_PRIOLIST_SLOTS" "priority x = int k + 1" "nn_list_item_isinlist x \<longleftrightarrow> a \<in> set (R k)" using priority_slot [OF o a] by blast
  show ?thesis
  proof (cases "nn_list_item_isinlist x")
    case False
    then show ?thesis using a ok by (auto simp: nn_priolist_rm_def nn_list_item_term_def)
  next
    case True
    then obtain xs ys where xy: "R k = xs @ a # ys" using k(3) split_list by metis
    have r: "list_rep h (pipes (slots p ! k)) (xs @ a # ys)" using s k(1) xy by (auto simp: slots_ok_def)
    obtain l h' x' where e: "nn_list_erase (pipes (slots p ! k)) a h = Some (head_or ys None, l, h')" "list_rep h' l (xs @ ys)"
      "h' a = Some x'" "\<not> nn_list_item_isinlist x'" "\<forall>b. b \<notin> set (R k) \<longrightarrow> h' b = h b" "members h' = members h"
      using nn_list_erase_ok [OF r] xy by auto
    have "slot_current (slots p ! k) \<noteq> Some a" using c True k(2) by simp
    then obtain b where b: "b \<in> set (xs @ ys)" "slot_current (slots p ! k) = Some b" using s k(1) xy by (fastforce simp: slots_ok_def)
    define p1 where "p1 = set_slot (int k + 1) \<lparr>pipes = l, slot_current = slot_current (slots p ! k)\<rparr> p"
    have cu: "xs @ ys \<noteq> [] \<longrightarrow> (\<exists>b \<in> set (xs @ ys). slot_current (slots p ! k) = Some b)" using b by auto
    have f: "\<forall>b. b \<notin> set (R k) \<union> set (xs @ ys) \<longrightarrow> h' b = h b" using e(5) by simp
    have y: "\<forall>b \<in> set (xs @ ys). \<exists>x. h b = Some x \<and> priority x = int k + 1" using ring_object [OF o k(1)] xy by auto
    have n: "\<forall>b \<in> set (R k) - set (xs @ ys). \<exists>x. h' b = Some x \<and> \<not> nn_list_item_isinlist x" using e(3,4) xy by auto
    have ch: "slots_ok h' p1 (R(k := xs @ ys))" "objects_ok h' (R(k := xs @ ys))"
      unfolding p1_def by (rule slot_change [OF s o k(1) e(2) cu f e(6) y n])+
    have "find_slot (slots p1) 1 = find_slot (slots p) 1" using b(1) xy by (intro find_slot_rings [OF s ch(1)]) auto
    moreover have "current p1 = current p" by (simp add: p1_def set_slot_def)
    moreover have "nn_priolist_rm a p h = Some (p1, h')"
      using a True k(2) slot_at_ok [OF s k(1)] e(1,3,4) by (simp add: nn_priolist_rm_def nn_list_item_term_def p1_def set_slot_def slot_updates(1))
    ultimately show ?thesis using ch e(6) ok by (auto simp: prio_ok_def)
  qed
qed

lemma nn_priolist_init_ok: "prio_ok (\<lambda>_. None) nn_priolist_init (\<lambda>_. [])"
proof -
  have "slots_ok (\<lambda>_. None) nn_priolist_init (\<lambda>_. [])" by (simp add: slots_ok_def nn_priolist_init_def nn_list_init_ok)
  moreover have "find_slot (slots nn_priolist_init) 1 = -1"
    by (rule find_slot_none) (simp add: nn_priolist_init_def nn_list_empty_def nn_list_init_def)
  ultimately show ?thesis by (simp add: prio_ok_def objects_ok_def nn_priolist_init_def)
qed

section \<open>Which pipe is served\<close>

text \<open>
  The calls of a socket: a pipe is added with a priority, it is activated when it becomes ready and is not in
  the list, the list advances after the current pipe was used, and a pipe is removed. A pipe whose turn it is
  in its slot must not be removed.
\<close>

datatype prio_op = Add nat nat int | Activate nat | Advance bool | Remove nat

definition ready :: "pipe_heap \<Rightarrow> nat \<Rightarrow> bool" where
  "ready h a = (case h a of None \<Rightarrow> False | Some x \<Rightarrow> nn_list_item_isinlist x)"

fun permitted :: "prio_op \<Rightarrow> nn_priolist \<Rightarrow> pipe_heap \<Rightarrow> bool" where
  "permitted (Add pp a prio) p h \<longleftrightarrow> \<not> ready h a \<and> 1 \<le> prio \<and> prio \<le> int NN_PRIOLIST_SLOTS"
| "permitted (Activate a) p h \<longleftrightarrow> h a \<noteq> None \<and> \<not> ready h a"
| "permitted (Advance release) p h \<longleftrightarrow> nn_priolist_is_active p"
| "permitted (Remove a) p h \<longleftrightarrow> (case h a of None \<Rightarrow> False
     | Some x \<Rightarrow> nn_list_item_isinlist x \<longrightarrow> slot_current (slots p ! nat (priority x - 1)) \<noteq> Some a)"

fun prio_step :: "prio_op \<Rightarrow> nn_priolist \<Rightarrow> pipe_heap \<Rightarrow> (nn_priolist \<times> pipe_heap) option" where
  "prio_step (Add pp a prio) p h = Some (p, nn_priolist_add pp a prio h)"
| "prio_step (Activate a) p h = nn_priolist_activate a p h"
| "prio_step (Advance release) p h = nn_priolist_advance release p h"
| "prio_step (Remove a) p h = nn_priolist_rm a p h"

inductive prio_reach :: "nn_priolist \<Rightarrow> pipe_heap \<Rightarrow> bool" where
  init: "prio_reach nn_priolist_init (\<lambda>_. None)"
| step: "prio_reach p h \<Longrightarrow> permitted c p h \<Longrightarrow> prio_step c p h = Some (p', h') \<Longrightarrow> prio_reach p' h'"

lemma current_turn:
  assumes ok: "prio_ok h p R" and act: "nn_priolist_is_active p"
  obtains k xs a ys where "k < NN_PRIOLIST_SLOTS" "current p = int k + 1" "\<forall>j < k. R j = []"
    "R k = xs @ a # ys" "slot_current (slots p ! k) = Some a"
proof -
  obtain k where k: "k < NN_PRIOLIST_SLOTS" "R k \<noteq> []" "\<forall>j < k. R j = []" "current p = int k + 1"
    using current_cases [OF ok] act by (auto simp: nn_priolist_is_active_def)
  then obtain a where "a \<in> set (R k)" "slot_current (slots p ! k) = Some a" using ok by (auto simp: prio_ok_def slots_ok_def)
  then show ?thesis using that [OF k(1,4,3)] split_list by metis
qed

lemma prio_step_ok:
  assumes ok: "prio_ok h p R" and c: "permitted c p h"
  shows "\<exists>p' h' R'. prio_step c p h = Some (p', h') \<and> prio_ok h' p' R'"
proof (cases c)
  case (Add pp a prio)
  then show ?thesis using nn_priolist_add_ok [OF ok, of a prio pp] c by (cases "h a") (auto simp: ready_def)
next
  case (Activate a)
  then show ?thesis using nn_priolist_activate_ok [OF ok, of a] c by (fastforce simp: ready_def)
next
  case (Advance release)
  then have "nn_priolist_is_active p" using c by simp
  then obtain k xs a ys where "k < NN_PRIOLIST_SLOTS" "current p = int k + 1" "\<forall>j < k. R j = []"
    "R k = xs @ a # ys" "slot_current (slots p ! k) = Some a" using current_turn [OF ok] by blast
  from nn_priolist_advance_ok [OF ok this, of release] show ?thesis using Advance by auto
next
  case (Remove a)
  then obtain x where "h a = Some x" "nn_list_item_isinlist x \<Longrightarrow> slot_current (slots p ! nat (priority x - 1)) \<noteq> Some a"
    using c by (auto split: option.splits)
  from nn_priolist_rm_ok [OF ok this] show ?thesis using Remove by auto
qed

lemma prio_reach_ok: "prio_reach p h \<Longrightarrow> \<exists>R. prio_ok h p R"
proof (induction rule: prio_reach.induct)
  case init
  then show ?case using nn_priolist_init_ok by blast
next
  case (step p h c p' h')
  then show ?case using prio_step_ok [of h p _ c] by fastforce
qed

lemma ready_iff:
  assumes ok: "prio_ok h p R"
  shows "ready h a \<longleftrightarrow> (\<exists>k < NN_PRIOLIST_SLOTS. a \<in> set (R k))"
proof -
  have o: "objects_ok h R" and s: "slots_ok h p R" using ok by (auto simp: prio_ok_def)
  have "\<exists>k < NN_PRIOLIST_SLOTS. a \<in> set (R k)" if r: "ready h a"
  proof -
    obtain x where x: "h a = Some x" "nn_list_item_isinlist x" using r by (auto simp: ready_def split: option.splits)
    show ?thesis using priority_slot [OF o x(1)] x(2) by blast
  qed
  moreover have "ready h a" if k: "k < NN_PRIOLIST_SLOTS" "a \<in> set (R k)" for k
    using s list_rep_in_list [of h "pipes (slots p ! k)" "R k" a] k by (auto simp: ready_def slots_ok_def)
  ultimately show ?thesis by blast
qed

lemma getpipe_ok:
  assumes "prio_ok h p R" and "k < NN_PRIOLIST_SLOTS" "current p = int k + 1" "slot_current (slots p ! k) = Some a" "h a = Some x"
  shows "nn_priolist_getpipe p h = Some (Some (pipe x))"
  using assms slot_at_ok [of h p R k] by (simp add: nn_priolist_getpipe_def prio_ok_def)

text \<open>
  C25: The prioritised list serves a ready pipe of the highest priority, that is with the least number. After
  any permitted calls, no permitted call fails; if no pipe is ready, \<^verbatim>\<open>nn_priolist_getpipe\<close> returns null and
  \<^verbatim>\<open>nn_priolist_is_active\<close> says so; otherwise it returns a ready pipe, and no other ready pipe has a higher priority.
\<close>

theorem priolist_serves_highest:
  assumes "prio_reach p h"
  shows "(\<forall>c. permitted c p h \<longrightarrow> prio_step c p h \<noteq> None) \<and> (nn_priolist_is_active p \<longleftrightarrow> (\<exists>a. ready h a)) \<and>
    (if nn_priolist_is_active p
     then \<exists>a x. h a = Some x \<and> ready h a \<and> nn_priolist_getpipe p h = Some (Some (pipe x)) \<and>
       (\<forall>b y. h b = Some y \<longrightarrow> ready h b \<longrightarrow> priority x \<le> priority y)
     else nn_priolist_getpipe p h = Some None)"
proof -
  obtain R where ok: "prio_ok h p R" using prio_reach_ok [OF assms] by blast
  then have o: "objects_ok h R" by (simp add: prio_ok_def)
  have steps: "\<forall>c. permitted c p h \<longrightarrow> prio_step c p h \<noteq> None" using prio_step_ok [OF ok] by fastforce
  show ?thesis
  proof (cases "nn_priolist_is_active p")
    case False
    then have "\<forall>k < NN_PRIOLIST_SLOTS. R k = []" using current_cases [OF ok] by (auto simp: nn_priolist_is_active_def)
    then show ?thesis using steps False ready_iff [OF ok] by (auto simp: nn_priolist_is_active_def nn_priolist_getpipe_def)
  next
    case True
    then obtain k xs a ys where k: "k < NN_PRIOLIST_SLOTS" "current p = int k + 1" "\<forall>j < k. R j = []"
      "R k = xs @ a # ys" "slot_current (slots p ! k) = Some a" using current_turn [OF ok] by blast
    obtain x where x: "h a = Some x" "priority x = int k + 1" using ring_object [OF o k(1), of a] k(4) by auto
    have "priority x \<le> priority y" if y: "h b = Some y" "ready h b" for b y
    proof -
      obtain j where "priority y = int j + 1" "b \<in> set (R j)" using priority_slot [OF o y(1)] y by (auto simp: ready_def)
      moreover have "\<not> j < k" using k(3) calculation(2) by auto
      ultimately show ?thesis using x(2) by simp
    qed
    moreover have "ready h a" using ready_iff [OF ok] k(1,4) by auto
    ultimately show ?thesis using steps True x(1) getpipe_ok [OF ok k(1,2,5) x(1)] by auto
  qed
qed

fun prio_run :: "prio_op list \<Rightarrow> nn_priolist \<Rightarrow> pipe_heap \<Rightarrow> (nn_priolist \<times> pipe_heap) option" where
  "prio_run [] p h = Some (p, h)"
| "prio_run (c # cs) p h = (if permitted c p h then do { (p', h') \<leftarrow> prio_step c p h; prio_run cs p' h' } else None)"

lemma prio_run_reach: "prio_reach p h \<Longrightarrow> prio_run cs p h = Some (p', h') \<Longrightarrow> prio_reach p' h'"
  by (induction cs arbitrary: p h) (auto split: if_splits bind_splits intro: prio_reach.step)

lemmas prio_eval = nn_priolist_init_def NN_PRIOLIST_SLOTS_def nn_priolist_add_def nn_list_item_init_def ready_def nn_list_item_isinlist_def
  nn_priolist_activate_def slot_at_def get_cell_def nn_list_insert_def nn_list_prev_def nn_list_end_def set_nxt_def set_prev_def link_of_def
  nn_list_empty_def nn_list_init_def set_slot_def nn_priolist_is_active_def nn_priolist_getpipe_def Let_def

lemma three_pipes:
  "\<exists>p h. prio_run [Add 10 1 8, Add 20 2 8, Add 30 3 9, Activate 3, Activate 1, Activate 2] nn_priolist_init (\<lambda>_. None) = Some (p, h) \<and>
     nn_priolist_is_active p \<and> map_option pipe (h 1) = Some 10 \<and> map_option pipe (h 2) = Some 20 \<and> ready h 1 \<and> ready h 2 \<and> ready h 3"
  by (simp add: prio_eval)

theorem priolist_serves_highest_witness:
  "\<exists>p h a x. prio_reach p h \<and> ready h 1 \<and> ready h 2 \<and> ready h 3 \<and> h a = Some x \<and> nn_priolist_getpipe p h = Some (Some (pipe x))"
proof -
  obtain p h where p: "prio_run [Add 10 1 8, Add 20 2 8, Add 30 3 9, Activate 3, Activate 1, Activate 2] nn_priolist_init (\<lambda>_. None) = Some (p, h)"
    "nn_priolist_is_active p" "ready h 1" "ready h 2" "ready h 3" using three_pipes by blast
  have r: "prio_reach p h" by (rule prio_run_reach [OF prio_reach.init p(1)])
  show ?thesis using priolist_serves_highest [OF r] p r by auto
qed

subsection \<open>Taking turns\<close>

text \<open>Serving the current pipe some times while it and the others stay ready.\<close>

fun serve_turns :: "nat \<Rightarrow> nn_priolist \<Rightarrow> pipe_heap \<Rightarrow> (nat list \<times> nn_priolist \<times> pipe_heap) option" where
  "serve_turns 0 p h = Some ([], p, h)"
| "serve_turns (Suc n) p h = do {
     x \<leftarrow> nn_priolist_getpipe p h;
     pp \<leftarrow> x;
     (p1, h1) \<leftarrow> nn_priolist_advance False p h;
     (ps, st) \<leftarrow> serve_turns n p1 h1;
     Some (pp # ps, st) }"

definition pipe_of :: "pipe_heap \<Rightarrow> nat \<Rightarrow> nat" where
  "pipe_of h a = (case h a of None \<Rightarrow> 0 | Some x \<Rightarrow> pipe x)"

lemma pipe_of_members:
  assumes "members h' = members h"
  shows "pipe_of h' = pipe_of h"
proof
  fix a
  have "members h' a = members h a" using assms by simp
  then show "pipe_of h' a = pipe_of h a"
    using members_priority [OF assms, of a] by (cases "h' a"; cases "h a") (auto simp: pipe_of_def members_def)
qed

lemma serve_turns_ok:
  "prio_ok h p R \<Longrightarrow> k < NN_PRIOLIST_SLOTS \<Longrightarrow> current p = int k + 1 \<Longrightarrow> \<forall>j < k. R j = [] \<Longrightarrow> i < length (R k) \<Longrightarrow>
     slot_current (slots p ! k) = Some (R k ! i) \<Longrightarrow>
     \<exists>st. serve_turns n p h = Some (map (\<lambda>j. pipe_of h (R k ! ((i + j) mod length (R k)))) [0..<n], st)"
proof (induction n arbitrary: i p h)
  case (Suc n)
  let ?r = "R k" and ?a = "R k ! i"
  have sp: "?r = take i ?r @ ?a # drop (Suc i) ?r" using Suc.prems(5) by (simp add: id_take_nth_drop)
  obtain x where x: "h ?a = Some x" using ring_object [of h R k ?a] Suc.prems by (auto simp: prio_ok_def)
  obtain p1 h1 where s: "nn_priolist_advance False p h = Some (p1, h1)" "prio_ok h1 p1 R" "members h1 = members h"
    "slot_current (slots p1 ! k) = head_or (drop (Suc i) ?r @ take i ?r) (Some ?a)"
    using nn_priolist_advance_ok [OF Suc.prems(1-4) sp Suc.prems(6), of False] by auto
  let ?i = "Suc i mod length ?r"
  have l: "?i < length ?r" using Suc.prems(5) by (intro mod_less_divisor) auto
  have "slot_current (slots p1 ! k) = Some (?r ! ?i)"
  proof (cases "Suc i < length ?r")
    case True
    then show ?thesis using s(4) by (simp add: head_or_append Cons_nth_drop_Suc [symmetric])
  next
    case False
    then have e: "Suc i = length ?r" using Suc.prems(5) by simp
    then obtain b r where r: "?r = b # r" by (cases ?r) auto
    have "head_or (take i ?r) (Some ?a) = Some b" using r by (cases i) simp_all
    then show ?thesis using s(4) e r by simp
  qed
  moreover have "current p1 = int k + 1"
    using s(2) find_slot_ring [of h1 p1 R k] Suc.prems(2,4,5) by (cases "R k") (auto simp: prio_ok_def)
  ultimately obtain st where st: "serve_turns n p1 h1 = Some (map (\<lambda>j. pipe_of h1 (?r ! ((?i + j) mod length ?r))) [0..<n], st)"
    using Suc.IH [OF s(2) Suc.prems(2) _ Suc.prems(4) l] by blast
  have "map (\<lambda>j. pipe_of h (?r ! ((i + j) mod length ?r))) [0..<Suc n] = pipe x # map (\<lambda>j. pipe_of h1 (?r ! ((?i + j) mod length ?r))) [0..<n]"
    using x Suc.prems(5) pipe_of_members [OF s(3)] by (simp add: upt_conv_Cons map_Suc_upt [symmetric] mod_add_left_eq pipe_of_def o_def del: upt_Suc)
  then show ?case using getpipe_ok [OF Suc.prems(1-3,6) x] s(1) st by simp
qed simp

lemma highest_iff:
  assumes ok: "prio_ok h p R" and k: "k < NN_PRIOLIST_SLOTS" "\<forall>j < k. R j = []" and ne: "R k \<noteq> []"
  shows "a \<in> set (R k) \<longleftrightarrow> (\<exists>x. h a = Some x \<and> ready h a \<and> (\<forall>b y. h b = Some y \<longrightarrow> ready h b \<longrightarrow> priority x \<le> priority y))"
proof
  have o: "objects_ok h R" using ok by (simp add: prio_ok_def)
  have least: "int k + 1 \<le> priority y" if y: "h b = Some y" "ready h b" for b y
  proof -
    obtain j where "priority y = int j + 1" "b \<in> set (R j)" using priority_slot [OF o y(1)] y by (auto simp: ready_def)
    then show ?thesis using k(2) by (cases "j < k") auto
  qed
  {
    assume a: "a \<in> set (R k)"
    obtain x where "h a = Some x" "priority x = int k + 1" using ring_object [OF o k(1) a] by blast
    then show "\<exists>x. h a = Some x \<and> ready h a \<and> (\<forall>b y. h b = Some y \<longrightarrow> ready h b \<longrightarrow> priority x \<le> priority y)"
      using least ready_iff [OF ok] a k(1) by auto
  }
  {
    assume "\<exists>x. h a = Some x \<and> ready h a \<and> (\<forall>b y. h b = Some y \<longrightarrow> ready h b \<longrightarrow> priority x \<le> priority y)"
    then obtain x where x: "h a = Some x" "ready h a" "\<And>b y. h b = Some y \<Longrightarrow> ready h b \<Longrightarrow> priority x \<le> priority y" by blast
    obtain b where b: "b \<in> set (R k)" using ne by (cases "R k") auto
    obtain y where y: "h b = Some y" "priority y = int k + 1" using ring_object [OF o k(1) b] by blast
    have "ready h b" using ready_iff [OF ok] b k(1) by blast
    then have "priority x = int k + 1" using x(3) [OF y(1)] y(2) least [OF x(1,2)] by simp
    then show "a \<in> set (R k)" using priority_slot [OF o x(1)] x(1,2) by (auto simp: ready_def)
  }
qed

text \<open>
  C26: Pipes of the same priority take turns. As long as the ready pipes of the highest priority stay ready, one
  round of calls of \<^verbatim>\<open>nn_priolist_getpipe\<close> and \<^verbatim>\<open>nn_priolist_advance\<close> serves each of them exactly once.
\<close>

theorem priolist_takes_turns:
  assumes "prio_reach p h" and "nn_priolist_is_active p"
  shows "\<exists>as st. distinct as \<and>
    set as = {a. \<exists>x. h a = Some x \<and> ready h a \<and> (\<forall>b y. h b = Some y \<longrightarrow> ready h b \<longrightarrow> priority x \<le> priority y)} \<and>
    serve_turns (length as) p h = Some (map (pipe_of h) as, st)"
proof -
  obtain R where ok: "prio_ok h p R" using prio_reach_ok [OF assms(1)] by blast
  then have o: "objects_ok h R" and s: "slots_ok h p R" by (simp_all add: prio_ok_def)
  obtain k xs a ys where k: "k < NN_PRIOLIST_SLOTS" "current p = int k + 1" "\<forall>j < k. R j = []"
    "R k = xs @ a # ys" "slot_current (slots p ! k) = Some a" using current_turn [OF ok assms(2)] by blast
  let ?i = "length xs" and ?r = "R k"
  obtain st where "serve_turns (length ?r) p h = Some (map (\<lambda>j. pipe_of h (?r ! ((?i + j) mod length ?r))) [0..<length ?r], st)"
    using serve_turns_ok [OF ok k(1-3), of ?i "length ?r"] k(4,5) by auto
  moreover have "map (\<lambda>j. pipe_of h (?r ! ((?i + j) mod length ?r))) [0..<length ?r] = map (pipe_of h) (rotate ?i ?r)"
    by (rule nth_equalityI) (simp_all add: nth_rotate)
  moreover have "distinct ?r" using s k(1) by (simp add: slots_ok_def list_rep_def)
  moreover have "b \<in> set ?r \<longleftrightarrow> (\<exists>x. h b = Some x \<and> ready h b \<and> (\<forall>c y. h c = Some y \<longrightarrow> ready h c \<longrightarrow> priority x \<le> priority y))" for b
    by (rule highest_iff [OF ok k(1,3)]) (simp add: k(4))
  then have "set (rotate ?i ?r) = {a. \<exists>x. h a = Some x \<and> ready h a \<and> (\<forall>b y. h b = Some y \<longrightarrow> ready h b \<longrightarrow> priority x \<le> priority y)}"
    by auto
  ultimately show ?thesis by (intro exI [of _ "rotate ?i ?r"] exI [of _ st]) simp
qed

theorem priolist_takes_turns_witness:
  "\<exists>p h as st. prio_reach p h \<and> ready h 1 \<and> ready h 2 \<and> ready h 3 \<and> distinct as \<and> serve_turns (length as) p h = Some (map (pipe_of h) as, st)"
proof -
  obtain p h where p: "prio_run [Add 10 1 8, Add 20 2 8, Add 30 3 9, Activate 3, Activate 1, Activate 2] nn_priolist_init (\<lambda>_. None) = Some (p, h)"
    "nn_priolist_is_active p" "ready h 1" "ready h 2" "ready h 3" using three_pipes by blast
  have r: "prio_reach p h" by (rule prio_run_reach [OF prio_reach.init p(1)])
  obtain as st where "distinct as" "serve_turns (length as) p h = Some (map (pipe_of h) as, st)" using priolist_takes_turns [OF r p(2)] by blast
  then show ?thesis using p(3-5) r by blast
qed

text \<open>
  Removing the pipe whose turn it is leaves the slot and the list pointing at it: with one ready pipe, the list
  still claims to be active and serves the pipe that was removed.
\<close>

lemma removed_pipe_served:
  "\<exists>p h p' h'. prio_run [Add 10 1 8, Activate 1] nn_priolist_init (\<lambda>_. None) = Some (p, h) \<and> nn_priolist_rm 1 p h = Some (p', h') \<and>
     \<not> ready h' 1 \<and> nn_priolist_is_active p' \<and> nn_priolist_getpipe p' h' = Some (Some 10)"
  by (simp add: prio_eval nn_priolist_rm_def nn_list_erase_def nn_list_item_term_def)

end
