(* ===== verification/Pushpull.thy ===== *)
theory Pushpull
  imports Inproc Priolist
begin

text \<open>
  The push and pull sockets of \<^verbatim>\<open>lib/nanomsg/src/protocols/pipeline\<close>: \<^verbatim>\<open>xpush.c\<close> sends through the load balancer of
  \<^verbatim>\<open>protocols/utils/lb.c\<close>, \<^verbatim>\<open>xpull.c\<close> receives through the fair queue of \<^verbatim>\<open>protocols/utils/fq.c\<close>, both on a
  prioritised list of the pipes that are ready. The pipes of the model are the ends of inproc connections;
  the data of a pipe and the pipe itself have the same number.
\<close>

section \<open>The sockets\<close>

text \<open>A socket with its list, the data of its pipes, and the connections at whose ends \<open>i\<close> the pipes are.\<close>

record socket =
  priolist :: nn_priolist
  datas :: pipe_heap
  conns :: "nat \<Rightarrow> pair"

definition NN_PIPE_RELEASE :: int where
  "NN_PIPE_RELEASE = 1"

text \<open>A send or receive on a pipe, with the answer of the pipe and what it makes of the connection.\<close>

definition pipe_send :: "bool \<Rightarrow> nn_msg \<Rightarrow> pair \<Rightarrow> (int \<times> pair) option" where
  "pipe_send i m c = do {
     (rc, _) \<leftarrow> nn_pipe_send m (ends c i) (ends c (\<not> i));
     c' \<leftarrow> pair_step (Sends i m) c;
     Some (int rc, c') }"

definition pipe_recv :: "bool \<Rightarrow> pair \<Rightarrow> (int \<times> nn_msg \<times> pair) option" where
  "pipe_recv i c = do {
     (rc, m, _) \<leftarrow> nn_pipe_recv (ends c i) (ends c (\<not> i));
     c' \<leftarrow> pair_step (Receives i) c;
     Some (int rc, m, c') }"

definition nn_lb_add :: "nat \<Rightarrow> int \<Rightarrow> pair \<Rightarrow> socket \<Rightarrow> socket" where
  "nn_lb_add a prio c u = u\<lparr>datas := nn_priolist_add a a prio (datas u), conns := (conns u)(a := c)\<rparr>"

definition nn_lb_rm :: "nat \<Rightarrow> socket \<Rightarrow> socket option" where
  "nn_lb_rm a u = do { (p, h) \<leftarrow> nn_priolist_rm a (priolist u) (datas u); Some (u\<lparr>priolist := p, datas := h\<rparr>) }"

definition nn_lb_out :: "nat \<Rightarrow> socket \<Rightarrow> socket option" where
  "nn_lb_out a u = do { (p, h) \<leftarrow> nn_priolist_activate a (priolist u) (datas u); Some (u\<lparr>priolist := p, datas := h\<rparr>) }"

definition nn_lb_can_send :: "socket \<Rightarrow> bool" where
  "nn_lb_can_send u = nn_priolist_is_active (priolist u)"

definition nn_lb_send :: "bool \<Rightarrow> nn_msg \<Rightarrow> socket \<Rightarrow> (int \<times> socket) option" where
  "nn_lb_send i m u = do {
     x \<leftarrow> nn_priolist_getpipe (priolist u) (datas u);
     (case x of
        None \<Rightarrow> Some (-EAGAIN, u)
      | Some a \<Rightarrow> do {
          (rc, c) \<leftarrow> pipe_send i m (conns u a);
          (if rc < 0 then None
           else do {
             (p, h) \<leftarrow> nn_priolist_advance (rc AND NN_PIPE_RELEASE \<noteq> 0) (priolist u) (datas u);
             Some (rc AND NOT NN_PIPE_RELEASE, \<lparr>priolist = p, datas = h, conns = (conns u)(a := c)\<rparr>) }) }) }"

definition nn_fq_recv :: "bool \<Rightarrow> socket \<Rightarrow> (int \<times> nn_msg option \<times> socket) option" where
  "nn_fq_recv i u = do {
     x \<leftarrow> nn_priolist_getpipe (priolist u) (datas u);
     (case x of
        None \<Rightarrow> Some (-EAGAIN, None, u)
      | Some a \<Rightarrow> do {
          (rc, m, c) \<leftarrow> pipe_recv i (conns u a);
          (if rc < 0 then None
           else do {
             (p, h) \<leftarrow> nn_priolist_advance (rc AND NN_PIPE_RELEASE \<noteq> 0) (priolist u) (datas u);
             Some (rc AND NOT NN_PIPE_RELEASE, Some m, \<lparr>priolist = p, datas = h, conns = (conns u)(a := c)\<rparr>) }) }) }"

text \<open>The fair queue adds, removes and activates as the load balancer does.\<close>

definition nn_fq_add :: "nat \<Rightarrow> int \<Rightarrow> pair \<Rightarrow> socket \<Rightarrow> socket" where
  "nn_fq_add a prio c u = u\<lparr>datas := nn_priolist_add a a prio (datas u), conns := (conns u)(a := c)\<rparr>"

definition nn_fq_rm :: "nat \<Rightarrow> socket \<Rightarrow> socket option" where
  "nn_fq_rm a u = do { (p, h) \<leftarrow> nn_priolist_rm a (priolist u) (datas u); Some (u\<lparr>priolist := p, datas := h\<rparr>) }"

definition nn_fq_in :: "nat \<Rightarrow> socket \<Rightarrow> socket option" where
  "nn_fq_in a u = do { (p, h) \<leftarrow> nn_priolist_activate a (priolist u) (datas u); Some (u\<lparr>priolist := p, datas := h\<rparr>) }"

definition nn_fq_can_recv :: "socket \<Rightarrow> bool" where
  "nn_fq_can_recv u = nn_priolist_is_active (priolist u)"

text \<open>A push socket; its option holds the priority of its pipes.\<close>

definition nn_xpush_add :: "int \<Rightarrow> nat \<Rightarrow> pair \<Rightarrow> socket \<Rightarrow> socket" where
  "nn_xpush_add sndprio a c u = nn_lb_add a sndprio c u"

definition nn_xpush_rm :: "nat \<Rightarrow> socket \<Rightarrow> socket option" where
  "nn_xpush_rm a u = do { u' \<leftarrow> nn_lb_rm a u; Some (u'\<lparr>datas := (datas u')(a := None)\<rparr>) }"

definition nn_xpush_out :: "nat \<Rightarrow> socket \<Rightarrow> socket option" where
  "nn_xpush_out a u = nn_lb_out a u"

definition nn_xpush_send :: "bool \<Rightarrow> nn_msg \<Rightarrow> socket \<Rightarrow> (int \<times> socket) option" where
  "nn_xpush_send i m u = nn_lb_send i m u"

text \<open>A pull socket.\<close>

definition nn_xpull_add :: "nat \<Rightarrow> pair \<Rightarrow> socket \<Rightarrow> socket" where
  "nn_xpull_add a c u = nn_fq_add a 8 c u"

definition nn_xpull_rm :: "nat \<Rightarrow> socket \<Rightarrow> socket option" where
  "nn_xpull_rm a u = do { u' \<leftarrow> nn_fq_rm a u; Some (u'\<lparr>datas := (datas u')(a := None)\<rparr>) }"

definition nn_xpull_in :: "nat \<Rightarrow> socket \<Rightarrow> socket option" where
  "nn_xpull_in a u = nn_fq_in a u"

definition nn_xpull_recv :: "bool \<Rightarrow> socket \<Rightarrow> (int \<times> nn_msg option \<times> socket) option" where
  "nn_xpull_recv i u = do { (rc, m, u') \<leftarrow> nn_fq_recv i u; Some (if rc < 0 then rc else 0, m, u') }"

definition new_socket :: "(nat \<Rightarrow> pair) \<Rightarrow> socket" where
  "new_socket c = \<lparr>priolist = nn_priolist_init, datas = Map.empty, conns = c\<rparr>"

definition set_conn :: "nat \<Rightarrow> pair \<Rightarrow> socket \<Rightarrow> socket" where
  "set_conn a c u = u\<lparr>conns := (conns u)(a := c)\<rparr>"

text \<open>
  What can happen at a push socket and its connections: a connection is added, a pipe becomes ready and is
  passed to the socket, the socket sends, and anything else happens in a connection.
\<close>

inductive push_reach :: "bool \<Rightarrow> (bool \<Rightarrow> size_t) \<Rightarrow> socket \<Rightarrow> bool" for i mx where
  new: "push_reach i mx (new_socket c)"
| add: "push_reach i mx u \<Longrightarrow> datas u a = None \<Longrightarrow> reachable mx c \<Longrightarrow> \<not> writable c i \<Longrightarrow> 1 \<le> prio \<Longrightarrow> prio \<le> 16 \<Longrightarrow>
    push_reach i mx (nn_xpush_add prio a c u)"
| out: "push_reach i mx u \<Longrightarrow> datas u a \<noteq> None \<Longrightarrow> enabled (conns u a) (HandlesOut i) \<Longrightarrow> pair_step (HandlesOut i) (conns u a) = Some c \<Longrightarrow>
    nn_xpush_out a (set_conn a c u) = Some u' \<Longrightarrow> push_reach i mx u'"
| send: "push_reach i mx u \<Longrightarrow> \<forall>a. Suc (length (sent (conns u a) i)) < 2 ^ 64 \<Longrightarrow> nn_xpush_send i m u = Some (rc, u') \<Longrightarrow> push_reach i mx u'"
| other: "push_reach i mx u \<Longrightarrow> datas u a \<noteq> None \<Longrightarrow> enabled (conns u a) x \<Longrightarrow> x \<noteq> HandlesOut i \<Longrightarrow> \<forall>m. x \<noteq> Sends i m \<Longrightarrow>
    pair_step x (conns u a) = Some c \<Longrightarrow> push_reach i mx (set_conn a c u)"

inductive pull_reach :: "bool \<Rightarrow> (bool \<Rightarrow> size_t) \<Rightarrow> socket \<Rightarrow> bool" for i mx where
  new: "pull_reach i mx (new_socket c)"
| add: "pull_reach i mx u \<Longrightarrow> datas u a = None \<Longrightarrow> reachable mx c \<Longrightarrow> \<not> readable c i \<Longrightarrow> pull_reach i mx (nn_xpull_add a c u)"
| in_event: "pull_reach i mx u \<Longrightarrow> datas u a \<noteq> None \<Longrightarrow> enabled (conns u a) (HandlesIn i) \<Longrightarrow> pair_step (HandlesIn i) (conns u a) = Some c \<Longrightarrow>
    nn_xpull_in a (set_conn a c u) = Some u' \<Longrightarrow> pull_reach i mx u'"
| recv: "pull_reach i mx u \<Longrightarrow> nn_xpull_recv i u = Some (rc, m, u') \<Longrightarrow> pull_reach i mx u'"
| other: "pull_reach i mx u \<Longrightarrow> datas u a \<noteq> None \<Longrightarrow> enabled (conns u a) x \<Longrightarrow> x \<noteq> HandlesIn i \<Longrightarrow> x \<noteq> Receives i \<Longrightarrow>
    pair_step x (conns u a) = Some c \<Longrightarrow> pull_reach i mx (set_conn a c u)"

section \<open>Sockets that use the pipe whose turn it is\<close>

text \<open>
  A pipe can be used if \<open>flag\<close> says so; using it answers whether it is released, and then the flag is off. The
  list of the socket holds exactly the pipes with the flag.
\<close>

definition mux_ok :: "(pair \<Rightarrow> bool) \<Rightarrow> (bool \<Rightarrow> size_t) \<Rightarrow> socket \<Rightarrow> bool" where
  "mux_ok flag mx u \<longleftrightarrow> (\<exists>R. prio_ok (datas u) (priolist u) R) \<and>
     (\<forall>a x. datas u a = Some x \<longrightarrow> pipe x = a \<and> pair_ok mx (conns u a) \<and> flag (conns u a) = ready (datas u) a)"

lemma turn_ready:
  assumes ok: "prio_ok h p R" and k: "k < NN_PRIOLIST_SLOTS" "R k = xs @ a # ys"
    and ok': "prio_ok h' p' (R(k := if release then xs @ ys else R k))"
  shows "ready h' b \<longleftrightarrow> ready h b \<and> \<not> (release \<and> b = a)"
proof -
  have d: "a \<notin> set (xs @ ys)" using ok k by (auto simp: prio_ok_def slots_ok_def list_rep_def)
  have n: "a \<notin> set (R j)" if "j < NN_PRIOLIST_SLOTS" "j \<noteq> k" for j
    using rings_disjoint [of h R j k] ok k that by (auto simp: prio_ok_def)
  have "b \<in> set ((R(k := if release then xs @ ys else R k)) j) \<longleftrightarrow> b \<in> set (R j) \<and> \<not> (release \<and> b = a)" if "j < NN_PRIOLIST_SLOTS" for j
    using d n [OF that] k(2) by auto
  then show ?thesis unfolding ready_iff [OF ok] ready_iff [OF ok'] by blast
qed

locale pipe_user =
  fixes flag :: "pair \<Rightarrow> bool"
    and mx :: "bool \<Rightarrow> size_t"
    and room :: "pair \<Rightarrow> bool"
    and op :: "pair \<Rightarrow> (int \<times> 'r \<times> pair) option"
  assumes op_ok: "pair_ok mx c \<Longrightarrow> room c \<Longrightarrow> flag c \<Longrightarrow>
    \<exists>rc r c'. op c = Some (rc, r, c') \<and> 0 \<le> rc \<and> pair_ok mx c' \<and> flag c' = (rc AND NN_PIPE_RELEASE = 0)"
begin

lemma op_current:
  assumes ok: "mux_ok flag mx u" and rm: "\<forall>a. room (conns u a)"
  shows "if \<exists>a. datas u a \<noteq> None \<and> flag (conns u a)
    then \<exists>a rc r c p h. datas u a \<noteq> None \<and> flag (conns u a) \<and> nn_priolist_getpipe (priolist u) (datas u) = Some (Some a) \<and>
      op (conns u a) = Some (rc, r, c) \<and> 0 \<le> rc \<and> nn_priolist_advance (rc AND NN_PIPE_RELEASE \<noteq> 0) (priolist u) (datas u) = Some (p, h) \<and>
      mux_ok flag mx \<lparr>priolist = p, datas = h, conns = (conns u)(a := c)\<rparr>
    else nn_priolist_getpipe (priolist u) (datas u) = Some None"
proof -
  obtain R where R: "prio_ok (datas u) (priolist u) R" using ok by (auto simp: mux_ok_def)
  have f: "pipe x = a" "pair_ok mx (conns u a)" "flag (conns u a) = ready (datas u) a" if "datas u a = Some x" for a x
    using ok that by (auto simp: mux_ok_def)
  show ?thesis
  proof (cases "nn_priolist_is_active (priolist u)")
    case False
    then have "\<forall>k < NN_PRIOLIST_SLOTS. R k = []" using current_cases [OF R] by (auto simp: nn_priolist_is_active_def)
    then have "\<not> ready (datas u) a" for a using ready_iff [OF R] by simp
    then show ?thesis using f False by (auto simp: nn_priolist_getpipe_def nn_priolist_is_active_def)
  next
    case True
    obtain k xs a ys where k: "k < NN_PRIOLIST_SLOTS" "current (priolist u) = int k + 1" "\<forall>j < k. R j = []"
      "R k = xs @ a # ys" "slot_current (slots (priolist u) ! k) = Some a" using current_turn [OF R True] by blast
    have o: "objects_ok (datas u) R" "slots_ok (datas u) (priolist u) R" using R by (auto simp: prio_ok_def)
    obtain x where x: "datas u a = Some x" using ring_object [OF o(1) k(1), of a] k(4) by auto
    have ra: "ready (datas u) a" using ready_iff [OF R] k(1,4) by auto
    have g: "nn_priolist_getpipe (priolist u) (datas u) = Some (Some a)" using getpipe_ok [OF R k(1,2,5) x] f(1) [OF x] by simp
    obtain rc r c where c: "op (conns u a) = Some (rc, r, c)" "0 \<le> rc" "pair_ok mx c" "flag c = (rc AND NN_PIPE_RELEASE = 0)"
      using op_ok [of "conns u a"] f(2,3) [OF x] rm ra by blast
    let ?rel = "rc AND NN_PIPE_RELEASE \<noteq> 0" and ?S = "\<lambda>p h. \<lparr>priolist = p, datas = h, conns = (conns u)(a := c)\<rparr>"
    obtain p h where p: "nn_priolist_advance ?rel (priolist u) (datas u) = Some (p, h)"
      "prio_ok h p (R(k := if ?rel then xs @ ys else R k))" "members h = members (datas u)"
      using nn_priolist_advance_ok [OF R k, of ?rel] by blast
    have rd: "ready h b \<longleftrightarrow> ready (datas u) b \<and> \<not> (?rel \<and> b = a)" for b
      using turn_ready [OF R k(1,4) p(2)] by blast
    have "mux_ok flag mx (?S p h)"
      unfolding mux_ok_def using p(2) members_priority [OF p(3)] f c(3,4) rd ra by (auto, metis+)
    then show ?thesis using x f(3) [OF x] ra g c(1,2) p(1) by auto
  qed
qed

end

section \<open>The two sockets\<close>

definition push_op :: "bool \<Rightarrow> nn_msg \<Rightarrow> pair \<Rightarrow> (int \<times> unit \<times> pair) option" where
  "push_op i m c = map_option (\<lambda>(rc, c'). (rc, (), c')) (pipe_send i m c)"

lemma pipe_send_ok:
  assumes ok: "pair_ok mx c" and r: "Suc (length (sent c i)) < 2 ^ 64" and w: "writable c i"
  shows "\<exists>c'. pipe_send i m c = Some (1, c') \<and> pair_ok mx c' \<and> \<not> writable c' i \<and> sent c' = (sent c)(i := sent c i @ [m])"
proof -
  obtain ph q where j: "joined (ends c i)" "direction mx ph q i c" using ok by (rule pair_okE)
  obtain s t where st: "nn_pipe_send m (ends c i) (ends c (\<not> i)) = Some (NN_PIPEBASE_RELEASE, s, t)"
    using nn_pipe_send_ok(2) [of "mx (\<not> i)" ph q "ends c i" "ends c (\<not> i)"] j r w by (fastforce simp: direction_def)
  obtain c' where c': "pair_step (Sends i m) c = Some c'" "pair_ok mx c'"
    using send_goes_well [OF ok, of i m] r w by (auto simp: goes_well_def)
  then have "\<not> writable c' i \<and> sent c' = (sent c)(i := sent c i @ [m])"
    using st by (auto simp: set_ends_def NN_PIPEBASE_RELEASE_def)
  then show ?thesis using st c' by (simp add: pipe_send_def NN_PIPEBASE_RELEASE_def)
qed

lemma pipe_recv_ok:
  assumes ok: "pair_ok mx c" and w: "readable c i"
  shows "\<exists>rc m c'. pipe_recv i c = Some (rc, m, c') \<and> 0 \<le> rc \<and> pair_ok mx c' \<and> readable c' i = (rc AND NN_PIPE_RELEASE = 0) \<and>
    got c' = (got c)(i := got c i @ [m])"
proof -
  obtain ph q where j: "joined (ends c (\<not> \<not> i))" "direction mx ph q (\<not> i) c" using ok by (rule pair_okE)
  then have d: "direction_ok (mx i) ph q (ends c (\<not> i)) (ends c i) (writable c (\<not> i)) True (sent c (\<not> i)) (got c i)" "joined (ends c i)"
    using w by (simp_all add: direction_def)
  obtain rc m st where st: "nn_pipe_recv (ends c i) (ends c (\<not> i)) = Some (rc, m, st)" using nn_pipe_recv_ok(2) [OF d] by auto
  obtain c' where c': "pair_step (Receives i) c = Some c'" "pair_ok mx c'"
    using every_step_goes_well [OF ok, of "Receives i"] w by (auto simp: goes_well_def)
  then have "readable c' i = (rc AND NN_PIPEBASE_RELEASE = 0)" "got c' = (got c)(i := got c i @ [m])"
    using st by (cases st; auto simp: set_ends_def)+
  moreover have "(int rc AND NN_PIPE_RELEASE = 0) = (rc AND NN_PIPEBASE_RELEASE = 0)"
    by (simp add: NN_PIPE_RELEASE_def NN_PIPEBASE_RELEASE_def and_one_eq) presburger
  ultimately show ?thesis using st c' by (cases st) (simp add: pipe_recv_def)
qed

interpretation push: pipe_user "\<lambda>c. writable c i" mx "\<lambda>c. Suc (length (sent c i)) < 2 ^ 64" "push_op i m" for i mx m
proof unfold_locales
  fix c assume "pair_ok mx c" "Suc (length (sent c i)) < 2 ^ 64" "writable c i"
  from pipe_send_ok [OF this, of m]
  show "\<exists>rc r c'. push_op i m c = Some (rc, r, c') \<and> 0 \<le> rc \<and> pair_ok mx c' \<and> writable c' i = (rc AND NN_PIPE_RELEASE = 0)"
    by (auto simp: push_op_def NN_PIPE_RELEASE_def)
qed

interpretation pull: pipe_user "\<lambda>c. readable c i" mx "\<lambda>_. True" "pipe_recv i" for i mx
proof unfold_locales
  fix c assume "pair_ok mx c" "readable c i"
  from pipe_recv_ok [OF this]
  show "\<exists>rc r c'. pipe_recv i c = Some (rc, r, c') \<and> 0 \<le> rc \<and> pair_ok mx c' \<and> readable c' i = (rc AND NN_PIPE_RELEASE = 0)" by blast
qed

subsection \<open>The list of a socket holds the pipes that are ready\<close>

lemma mux_new: "mux_ok flag mx (new_socket c)"
  using nn_priolist_init_ok by (auto simp: mux_ok_def new_socket_def)

lemma mux_add:
  assumes ok: "mux_ok flag mx u" and a: "datas u a = None" "pair_ok mx c" "\<not> flag c" "1 \<le> prio" "prio \<le> 16"
  shows "mux_ok flag mx (u\<lparr>datas := nn_priolist_add a a prio (datas u), conns := (conns u)(a := c)\<rparr>)"
proof -
  obtain R where R: "prio_ok (datas u) (priolist u) R" using ok by (auto simp: mux_ok_def)
  have "prio_ok (nn_priolist_add a a prio (datas u)) (priolist u) R"
    by (rule nn_priolist_add_ok [OF R]) (use a in \<open>auto simp: NN_PRIOLIST_SLOTS_def\<close>)
  then show ?thesis using ok a by (auto simp: mux_ok_def nn_priolist_add_def ready_def nn_list_item_init_def nn_list_item_isinlist_def)
qed

lemma mux_activate:
  assumes ok: "mux_ok flag mx u" and a: "datas u a = Some x" "\<not> flag (conns u a)" and c: "pair_ok mx c" "flag c"
  shows "\<exists>p h. nn_priolist_activate a (priolist u) (datas u) = Some (p, h) \<and> mux_ok flag mx \<lparr>priolist = p, datas = h, conns = (conns u)(a := c)\<rparr>"
proof -
  obtain R where R: "prio_ok (datas u) (priolist u) R" using ok by (auto simp: mux_ok_def)
  have f: "pipe y = b" "pair_ok mx (conns u b)" "flag (conns u b) = ready (datas u) b" if "datas u b = Some y" for b y
    using ok that by (auto simp: mux_ok_def)
  have "\<not> nn_list_item_isinlist x" using f(3) [OF a(1)] a by (simp add: ready_def)
  then obtain p h k where p: "nn_priolist_activate a (priolist u) (datas u) = Some (p, h)" "k < NN_PRIOLIST_SLOTS"
    "prio_ok h p (R(k := R k @ [a]))" "members h = members (datas u)" using nn_priolist_activate_ok [OF R a(1)] by blast
  have "ready h b \<longleftrightarrow> ready (datas u) b \<or> b = a" for b
    unfolding ready_iff [OF R] ready_iff [OF p(3)] using p(2) by (auto split: if_splits)
  then have "mux_ok flag mx \<lparr>priolist = p, datas = h, conns = (conns u)(a := c)\<rparr>"
    unfolding mux_ok_def using p(3) members_priority [OF p(4)] f c by (auto, metis+)
  then show ?thesis using p(1) by blast
qed

lemma mux_other:
  assumes "mux_ok flag mx u" and "datas u a \<noteq> None" and "pair_ok mx c" and "flag c = flag (conns u a)"
  shows "mux_ok flag mx (set_conn a c u)"
  using assms by (auto simp: mux_ok_def set_conn_def)

subsection \<open>Pushing\<close>

lemma nn_lb_send_ok:
  assumes ok: "mux_ok (\<lambda>c. writable c i) mx u" and r: "\<forall>a. Suc (length (sent (conns u a) i)) < 2 ^ 64"
  shows "if \<exists>a. datas u a \<noteq> None \<and> writable (conns u a) i
    then \<exists>a u'. datas u a \<noteq> None \<and> writable (conns u a) i \<and> nn_lb_send i m u = Some (0, u') \<and>
      mux_ok (\<lambda>c. writable c i) mx u' \<and> (\<forall>b. sent (conns u' b) i = (if b = a then sent (conns u b) i @ [m] else sent (conns u b) i))
    else nn_lb_send i m u = Some (-EAGAIN, u)"
proof (cases "\<exists>a. datas u a \<noteq> None \<and> writable (conns u a) i")
  case False
  then show ?thesis using push.op_current [OF ok r, of m, unfolded if_not_P [OF False]] unfolding if_not_P [OF False] by (simp add: nn_lb_send_def)
next
  case True
  obtain a rc r c p h where a: "datas u a \<noteq> None" "writable (conns u a) i" "nn_priolist_getpipe (priolist u) (datas u) = Some (Some a)"
    "push_op i m (conns u a) = Some (rc, r, c)" "nn_priolist_advance (rc AND NN_PIPE_RELEASE \<noteq> 0) (priolist u) (datas u) = Some (p, h)"
    "mux_ok (\<lambda>c. writable c i) mx \<lparr>priolist = p, datas = h, conns = (conns u)(a := c)\<rparr>"
    using push.op_current [OF ok r, of m, unfolded if_P [OF True]] by blast
  have "pair_ok mx (conns u a)" using ok a(1) by (auto simp: mux_ok_def)
  then obtain c' where "pipe_send i m (conns u a) = Some (1, c')" "sent c' = (sent (conns u a))(i := sent (conns u a) i @ [m])"
    using pipe_send_ok [of mx "conns u a" i m] r a(2) by blast
  moreover have "rc = 1" "c = c'" using calculation a(4) by (simp_all add: push_op_def)
  ultimately show ?thesis unfolding if_P [OF True] using a
    by (intro exI [of _ a] exI [of _ "\<lparr>priolist = p, datas = h, conns = (conns u)(a := c)\<rparr>"])
      (simp add: nn_lb_send_def NN_PIPE_RELEASE_def)
qed

lemma other_keeps_writable:
  "pair_step x c = Some c' \<Longrightarrow> x \<noteq> HandlesOut i \<Longrightarrow> \<forall>m. x \<noteq> Sends i m \<Longrightarrow> writable c' i = writable c i"
  by (cases x) (auto simp: set_ends_def set_pipe_def split: bind_splits)

lemma other_keeps_readable:
  "pair_step x c = Some c' \<Longrightarrow> x \<noteq> HandlesIn i \<Longrightarrow> x \<noteq> Receives i \<Longrightarrow> readable c' i = readable c i"
  by (cases x) (auto simp: set_ends_def set_pipe_def split: bind_splits)

lemma event_not_flag:
  assumes "pair_ok mx c"
  shows "event_out (pipebase (ends c i)) \<Longrightarrow> \<not> writable c i" and "event_in (pipebase (ends c i)) \<Longrightarrow> \<not> readable c i"
proof -
  obtain ph q where "direction mx ph q i c" using assms by (rule pair_okE)
  then show "event_out (pipebase (ends c i)) \<Longrightarrow> \<not> writable c i" by (auto simp: direction_def direction_defs split: if_splits)
  obtain ph q where "direction mx ph q (\<not> i) c" using assms by (rule pair_okE)
  then show "event_in (pipebase (ends c i)) \<Longrightarrow> \<not> readable c i" by (auto simp: direction_def direction_defs split: if_splits)
qed

lemma step_keeps_ok: "pair_ok mx c \<Longrightarrow> enabled c x \<Longrightarrow> pair_step x c = Some c' \<Longrightarrow> pair_ok mx c'"
  using every_step_goes_well [of mx c x] by (auto simp: goes_well_def)

lemma push_out_ok:
  assumes ok: "mux_ok (\<lambda>c. writable c i) mx u" and a: "datas u a \<noteq> None" and e: "enabled (conns u a) (HandlesOut i)"
    and c: "pair_step (HandlesOut i) (conns u a) = Some c"
  shows "\<exists>u'. nn_xpush_out a (set_conn a c u) = Some u' \<and> mux_ok (\<lambda>c. writable c i) mx u'"
proof -
  have k: "pair_ok mx (conns u a)" using ok a by (auto simp: mux_ok_def)
  have "writable c i" "\<not> writable (conns u a) i" using event_not_flag(1) [OF k] e c by auto
  moreover obtain x where "datas u a = Some x" using a by blast
  ultimately obtain p h where "nn_priolist_activate a (priolist u) (datas u) = Some (p, h)"
    "mux_ok (\<lambda>c. writable c i) mx \<lparr>priolist = p, datas = h, conns = (conns u)(a := c)\<rparr>"
    using mux_activate [OF ok _ _ step_keeps_ok [OF k e c]] by blast
  then show ?thesis by (cases u) (simp add: nn_xpush_out_def nn_lb_out_def set_conn_def)
qed

lemma push_reach_ok: "push_reach i mx u \<Longrightarrow> mux_ok (\<lambda>c. writable c i) mx u"
proof (induction rule: push_reach.induct)
  case (new c)
  then show ?case by (rule mux_new)
next
  case (add u a c prio)
  then show ?case using mux_add [OF add.IH add.hyps(2) reachable_ok] by (simp add: nn_xpush_add_def nn_lb_add_def)
next
  case (out u a c u')
  then show ?case using push_out_ok [OF out.IH out.hyps(2-4)] by simp
next
  case (send u m rc u')
  then show ?case using nn_lb_send_ok [OF send.IH send.hyps(2), of m] by (auto simp: nn_xpush_send_def split: if_splits)
next
  case (other u a x c)
  then have k: "pair_ok mx (conns u a)" by (auto simp: mux_ok_def)
  show ?case
    by (rule mux_other [OF other.IH other.hyps(2) step_keeps_ok [OF k other.hyps(3,6)]]) (use other_keeps_writable other.hyps in blast)
qed


lemma fresh_connection:
  "\<exists>c. connected (\<lambda>_. 4) (\<lambda>_. 1) = Some c \<and> sent c False = [] \<and> \<not> writable c False \<and> event_out (pipebase (ends c False))"
  by (simp add: inproc_eval)

lemma activate_keeps:
  assumes "nn_priolist_activate a p h = Some (p', h')" and "h b \<noteq> None"
  shows "h' b \<noteq> None"
  using assms by (auto simp: nn_priolist_activate_def nn_list_insert_def set_nxt_def set_prev_def Let_def split: bind_splits option.splits if_splits)


subsection \<open>Pulling\<close>

lemma nn_fq_recv_ok:
  assumes ok: "mux_ok (\<lambda>c. readable c i) mx u"
  shows "if \<exists>a. datas u a \<noteq> None \<and> readable (conns u a) i
    then \<exists>a rc m u'. datas u a \<noteq> None \<and> readable (conns u a) i \<and> nn_fq_recv i u = Some (rc, Some m, u') \<and> 0 \<le> rc \<and>
      mux_ok (\<lambda>c. readable c i) mx u' \<and> (\<forall>b. got (conns u' b) i = (if b = a then got (conns u b) i @ [m] else got (conns u b) i))
    else nn_fq_recv i u = Some (-EAGAIN, None, u)"
proof (cases "\<exists>a. datas u a \<noteq> None \<and> readable (conns u a) i")
  case False
  then show ?thesis using pull.op_current [OF ok, unfolded if_not_P [OF False]] unfolding if_not_P [OF False] by (simp add: nn_fq_recv_def)
next
  case True
  obtain a rc m c p h where a: "datas u a \<noteq> None" "readable (conns u a) i" "nn_priolist_getpipe (priolist u) (datas u) = Some (Some a)"
    "pipe_recv i (conns u a) = Some (rc, m, c)" "0 \<le> rc" "nn_priolist_advance (rc AND NN_PIPE_RELEASE \<noteq> 0) (priolist u) (datas u) = Some (p, h)"
    "mux_ok (\<lambda>c. readable c i) mx \<lparr>priolist = p, datas = h, conns = (conns u)(a := c)\<rparr>"
    using pull.op_current [OF ok, unfolded if_P [OF True]] by blast
  have "pair_ok mx (conns u a)" using ok a(1) by (auto simp: mux_ok_def)
  then have "got c = (got (conns u a))(i := got (conns u a) i @ [m])" using pipe_recv_ok [of mx "conns u a" i] a(2,4) by auto
  moreover have "0 \<le> rc AND NOT NN_PIPE_RELEASE" using a(5) by simp
  ultimately show ?thesis unfolding if_P [OF True] using a
    by (intro exI [of _ a] exI [of _ "rc AND NOT NN_PIPE_RELEASE"] exI [of _ m] exI [of _ "\<lparr>priolist = p, datas = h, conns = (conns u)(a := c)\<rparr>"])
      (simp add: nn_fq_recv_def)
qed

lemma pull_in_ok:
  assumes ok: "mux_ok (\<lambda>c. readable c i) mx u" and a: "datas u a \<noteq> None" and e: "enabled (conns u a) (HandlesIn i)"
    and c: "pair_step (HandlesIn i) (conns u a) = Some c"
  shows "\<exists>u'. nn_xpull_in a (set_conn a c u) = Some u' \<and> mux_ok (\<lambda>c. readable c i) mx u'"
proof -
  have k: "pair_ok mx (conns u a)" using ok a by (auto simp: mux_ok_def)
  have "readable c i" "\<not> readable (conns u a) i" using event_not_flag(2) [OF k] e c by auto
  moreover obtain x where "datas u a = Some x" using a by blast
  ultimately obtain p h where "nn_priolist_activate a (priolist u) (datas u) = Some (p, h)"
    "mux_ok (\<lambda>c. readable c i) mx \<lparr>priolist = p, datas = h, conns = (conns u)(a := c)\<rparr>"
    using mux_activate [OF ok _ _ step_keeps_ok [OF k e c]] by blast
  then show ?thesis by (cases u) (simp add: nn_xpull_in_def nn_fq_in_def set_conn_def)
qed

lemma pull_reach_ok: "pull_reach i mx u \<Longrightarrow> mux_ok (\<lambda>c. readable c i) mx u"
proof (induction rule: pull_reach.induct)
  case (new c)
  then show ?case by (rule mux_new)
next
  case (add u a c)
  then show ?case using mux_add [OF add.IH add.hyps(2) reachable_ok, of c 8] by (simp add: nn_xpull_add_def nn_fq_add_def)
next
  case (in_event u a c u')
  then show ?case using pull_in_ok [OF in_event.IH in_event.hyps(2-4)] by simp
next
  case (recv u rc m u')
  then show ?case using nn_fq_recv_ok [OF recv.IH] by (auto simp: nn_xpull_recv_def split: if_splits bind_splits)
next
  case (other u a x c)
  then have k: "pair_ok mx (conns u a)" by (auto simp: mux_ok_def)
  show ?case
    by (rule mux_other [OF other.IH other.hyps(2) step_keeps_ok [OF k other.hyps(3,6)]]) (use other_keeps_readable other.hyps in blast)
qed


lemma one_message_waiting:
  "\<exists>p c. connected (\<lambda>_. 4) (\<lambda>_. 1) = Some p \<and>
     run_acts [HandlesOut False, Sends False \<lparr>hdr = [], body = [7]\<rparr>, Handles True PeerSent] p = Some c \<and>
     \<not> readable c True \<and> event_in (pipebase (ends c True))"
  by (simp add: inproc_eval msgqueue_eval)


end
