(* ===== verification/Spec2Isabelle.thy ===== *)
theory Spec2Isabelle
  imports Ydynabin Protocol Snappy Database Connection Commands Startup Terminal Yvect Ylist Ystr Midl Mdbtree Linenoise Msgqueue Inproc Priolist Pushpull
begin

text \<open>
  Verification of the FineDB key-value server.

  \<^bold>\<open>The program.\<close> FineDB is a server that keeps keys and values in an LMDB environment. The main thread
  accepts TCP connections and hands their descriptors to a pool of connection threads. A connection thread
  reads requests from its socket, answers them, and reads from the database by itself; writes outside the
  synchronous mode go as messages to one writer thread. The threads talk through nanomsg sockets: one push
  socket for descriptors to which the connection threads connect, and one pull socket of the writer. Values are
  compressed with snappy on their way to the database. A client library speaks the protocol, and a command
  line client on top of it reads lines with linenoise. The bundled ylib supplies buffers and containers.

  \<^bold>\<open>Conventions.\<close> C code becomes functions on records with explicit state. Integers keep their width as
  words where the code computes with them, and memory is a block of cells or a heap of objects with checked
  accesses. \<^term>\<open>None\<close> is undefined behaviour: an access outside a block, the use of a null or freed
  object, or an assertion that fails. What the environment decides (allocations, results of system calls,
  bytes that arrive) is an argument or a list in the state, so that every lemma holds for all its decisions.
  A proof that a result is \<^term>\<open>Some\<close> therefore shows that memory is safe and that loops end. Loops are
  structural or have a termination proof; those whose termination depends on an invariant are
  \<^verbatim>\<open>partial_function (option)\<close>, with \<^term>\<open>None\<close> for not returning, and the properties prove that they return.

  \<^bold>\<open>Shared theories.\<close> \<^theory_text>\<open>FineDB_Prelude\<close> has the C types, byte order and blocks of bytes with the
  collections \<open>mem_simps\<close> and \<open>wire_simps\<close>. \<^theory_text>\<open>Ymem\<close> has single cells, the sizes of new blocks, and the locale
  \<open>sequence\<close> of containers that run like a list, interpreted for vectors and for linked lists.
\<close>

text \<open>
  \<^bold>\<open>The server.\<close>

  \<^item> \<^theory_text>\<open>Ydynabin\<close> models \<^verbatim>\<open>lib/ylib/ydynabin.c\<close>. Where a block has room, expanding appends and forwarding
    consumes; the exact condition under which expanding writes outside its block is given. The locale
    \<open>byte_buffer\<close> is the contract that the readers of sockets use.
  \<^item> \<^theory_text>\<open>Protocol\<close> models \<^verbatim>\<open>src/server/protocol.h\<close>: codes, options and their accessors.
  \<^item> \<^theory_text>\<open>Snappy_Base\<close> to \<^theory_text>\<open>Snappy\<close> model \<^verbatim>\<open>lib/snappy-c/snappy.c\<close> as it is compiled (scatter and gather, 64 bits,
    little endian). A reference decoder written from the format is the specification: the decompressor computes
    it on every input, the compressor produces what it decodes to the input, and so the pair is a round trip.
  \<^item> \<^theory_text>\<open>Lmdb\<close> has LMDB as a parameter: a record of its operations on an environment of unknown type, with its
    documented behaviour as the hypothesis \<open>lmdb_ok\<close>, and an environment in memory that satisfies it.
    \<^theory_text>\<open>Database\<close> models \<^verbatim>\<open>src/server/database.c\<close> over it: writes are atomic, what is put is got, and reads in a
    transaction see the data of its start.
  \<^item> \<^theory_text>\<open>Socket\<close> has a connected socket and the loop that fills a buffer from it, with the locale \<open>reader\<close>
    interpreted for server and client; \<^theory_text>\<open>Connection\<close> models \<^verbatim>\<open>src/server/connection_thread.c\<close>, \<^theory_text>\<open>Commands\<close> the handlers
    \<^verbatim>\<open>src/server/command_*.c\<close>, and \<^theory_text>\<open>Server\<close> the request loop and \<^verbatim>\<open>src/server/writer_thread.c\<close>.
  \<^item> \<^theory_text>\<open>Contract\<close> states what every handler keeps, in the locale \<open>command_handler\<close> with one interpretation
    for each handler of the dispatch table. \<^theory_text>\<open>Requests\<close> specifies requests on a session and proves that the
    request loop meets the specification, that a GET returns what a PUT stored, and that the writer works in order.
  \<^item> \<^theory_text>\<open>System\<close> runs all threads as a step relation on whole requests: in every reachable state the live transactions
    belong to exactly one thread each and their snapshots do not change; connections end. \<^theory_text>\<open>Startup\<close> models
    \<^verbatim>\<open>main.c\<close>, \<^verbatim>\<open>finedb.c\<close>, \<^verbatim>\<open>server.c\<close> and \<^verbatim>\<open>self_path.c\<close>: a successful start gives an initial state of \<^theory_text>\<open>System\<close> and
    enough reader slots for the threads.

  \<^bold>\<open>The clients.\<close> \<^theory_text>\<open>Client\<close> models \<^verbatim>\<open>src/lib/libfinedb.c\<close> and \<^theory_text>\<open>Cli\<close> \<^verbatim>\<open>src/cli/finedb-cli.c\<close>. \<^theory_text>\<open>EndToEnd\<close> joins the
  client library and the server by the bytes they exchange, \<^theory_text>\<open>Terminal\<close> the command line client with both: typing
  a get shows the value that a put was typed with. \<^theory_text>\<open>Linenoise\<close> models the line editor \<^verbatim>\<open>lib/linenoise/linenoise.c\<close>:
  the edited line is refined from two halves of a text around a cursor, and the history survives its file.

  \<^bold>\<open>The containers.\<close> \<^theory_text>\<open>Yvect\<close>, \<^theory_text>\<open>Ylist\<close> and \<^theory_text>\<open>Ystr\<close> model \<^verbatim>\<open>lib/ylib/yvect.c\<close>, \<^verbatim>\<open>ylist.c\<close> and \<^verbatim>\<open>ystr.c\<close> and refine lists;
  searching, substitution and the escaping of XML are specified separately. \<^theory_text>\<open>Midl\<close> models the ID lists of LMDB,
  \<^verbatim>\<open>lib/lmdb/midl.c\<close>: its quicksort with an explicit stack sorts, and its sorted pairs stay sorted.
\<close>

text \<open>
  \<^bold>\<open>The sockets between threads.\<close> All under \<^verbatim>\<open>lib/nanomsg/src\<close>.

  \<^item> \<^theory_text>\<open>Msgqueue\<close> models \<^verbatim>\<open>transports/inproc/msgqueue.c\<close>: linked chunks of messages refine a bounded queue, by the
    locale \<open>bounded_fifo\<close>, and terminating frees every chunk.
  \<^item> \<^theory_text>\<open>Inproc\<close> models the two sessions of a connection, \<^verbatim>\<open>transports/inproc/sinproc.c\<close>, with their pipes, \<^verbatim>\<open>core/pipe.c\<close>, and
    state machines, \<^verbatim>\<open>aio/fsm.c\<close>. Every order of handling the pending events is a run of the model. Established
    connections deliver in order without loss, fail no assertion and come to rest after a bounded number of steps;
    the races of accepting and stopping are shown.
  \<^item> \<^theory_text>\<open>Nnlist\<close> models \<^verbatim>\<open>utils/list.c\<close> and \<^theory_text>\<open>Priolist\<close> \<^verbatim>\<open>protocols/utils/priolist.c\<close>: a ready pipe of the highest priority is
    served, and pipes of equal priority take turns.
  \<^item> \<^theory_text>\<open>Pushpull\<close> models \<^verbatim>\<open>protocols/utils/lb.c\<close>, \<^verbatim>\<open>fq.c\<close>, \<^verbatim>\<open>protocols/pipeline/xpush.c\<close> and \<^verbatim>\<open>xpull.c\<close> on such connections. The locale
    \<open>pipe_user\<close> has what sending and receiving share: the list of a socket holds exactly the pipes that can be
    used, so that every send goes to one connection and every receive comes from one.

  The server theories use a queue of messages for these sockets, which is what the theories above justify for
  one connection. The order of messages from different connections is the order in which the steps of \<^theory_text>\<open>System\<close> add them.

  \<^bold>\<open>Bounds.\<close> The request loop \<open>serve\<close> and the loop of the writer take a number of rounds, since both run as long
  as the process lives. A connection ends within one round for each byte that the client sends, which is proved,
  and the writer needs one round for each message in its queue. Requests are at most 8196 bytes in one segment
  where a property says so, since one read takes no more; longer and split requests are covered by the
  contract of the handlers and by the property on the overflow of that buffer. Keys are shorter than \<open>2 ^ 16\<close>,
  values than \<open>2 ^ 31\<close>, since the protocol and snappy have lengths of this width. Vectors, strings and message
  counts stay below the limits of their counters, which the statements name.

  \<^bold>\<open>Not modelled.\<close> The storage engine \<^verbatim>\<open>lib/lmdb/mdb.c\<close> works on memory-mapped files with locks that several
  processes share, and its interface is a hypothesis instead. Of nanomsg, the functions of the API, the
  registry of endpoints, worker threads, timers and polling are system calls and bookkeeping around the
  modelled parts, and the other transports and protocols are not used. The multi line mode of linenoise and its
  terminal settings, logging (\<^verbatim>\<open>ylog.c\<close>), the unused \<^verbatim>\<open>ytcp_server.c\<close>, the structure of \<^verbatim>\<open>ybin.c\<close> and the test
  programs are left out. Steps of \<^theory_text>\<open>System\<close> are whole requests: threads share only the database, whose
  operations LMDB serialises, and the queue. Time, signals and the contents of messages to the user's log
  have no counterpart.
\<close>

end
